(* ===== verification/OroPrelude.thy ===== *)
theory OroPrelude
  imports Main "HOL-Library.Word"
begin

text \<open>
  Shared vocabulary of the development.

  \<^item> Machine integers: the lock-free structures of the run-time pack two
    \<^verbatim>\<open>unsigned short\<close> fields into one word, modelled as \<open>16 word\<close>.
  \<^item> Outcomes: a C++ function whose execution may fail an \<^verbatim>\<open>assert\<close>, reach
    undefined behaviour (an access out of an array) or never return is
    modelled with result type \<open>'r option\<close>; \<open>None\<close> is that failure. A function
    that reports an error to its caller does so in its ordinary result.
  \<^item> Pointers into an array owned by an object are indices; the null pointer
    is \<open>None\<close> of a \<open>nat option\<close>.
  \<^item> Interleavings: a lock-free algorithm is a step relation over the shared
    memory and the program counters of all threads. \<open>reachable\<close> is the set of
    its states; the locale \<open>invariant_of\<close> is the rule by which every
    invariant of the development is established.
\<close>

type_synonym u16 = "16 word"

section \<open>Step relations\<close>

inductive reachable :: "('s \<Rightarrow> bool) \<Rightarrow> ('s \<Rightarrow> 's \<Rightarrow> bool) \<Rightarrow> 's \<Rightarrow> bool"
  for init :: "'s \<Rightarrow> bool" and step :: "'s \<Rightarrow> 's \<Rightarrow> bool" where
  reachable_init: "init s \<Longrightarrow> reachable init step s"
| reachable_step: "reachable init step s \<Longrightarrow> step s t \<Longrightarrow> reachable init step t"

lemma reachable_weaken:
  assumes "reachable i1 step s" and "\<And>s. i1 s \<Longrightarrow> i2 s"
  shows "reachable i2 step s"
  using assms(1) by induction (auto intro: reachable.intros assms(2))

locale invariant_of =
  fixes init :: "'s \<Rightarrow> bool"
    and step :: "'s \<Rightarrow> 's \<Rightarrow> bool"
    and inv :: "'s \<Rightarrow> bool"
  assumes init_inv: "init s \<Longrightarrow> inv s"
    and step_inv: "inv s \<Longrightarrow> step s t \<Longrightarrow> inv t"
begin

lemma reachable_inv:
  assumes "reachable init step s"
  shows "inv s"
  using assms
proof (induction rule: reachable.induct)
  case (reachable_init s)
  then show ?case by (rule init_inv)
next
  case (reachable_step s t)
  then show ?case by (blast intro: step_inv)
qed

end

section \<open>Words\<close>

lemma of_nat_u16_eq_iff:
  assumes "a < 65536" and "b < 65536"
  shows "(of_nat a :: u16) = of_nat b \<longleftrightarrow> a = b"
proof
  assume "(of_nat a :: u16) = of_nat b"
  then have "unat (of_nat a :: u16) = unat (of_nat b :: u16)" by simp
  with assms show "a = b" by (simp add: unat_of_nat)
qed simp

lemma unat_of_nat_u16 [simp]: "a < 65536 \<Longrightarrow> unat (of_nat a :: u16) = a"
  by (simp add: unat_of_nat)

lemma of_nat_u16_eq_near:
  assumes eq: "(of_nat a :: u16) = of_nat b" and le: "a \<le> b" and near: "b - a < 65536"
  shows "a = b"
proof -
  from eq have "unat (of_nat a :: u16) = unat (of_nat b :: u16)" by simp
  then have "a mod 65536 = b mod 65536" by (simp add: unat_of_nat)
  with le have "65536 dvd b - a" by (metis mod_eq_dvd_iff_nat)
  with near have "b - a = 0" by (metis nat_dvd_not_less neq0_conv)
  with le show ?thesis by simp
qed

lemma minus_one_u16: "(- 1 :: u16) = of_nat 65535"
  by simp

lemma unat_u16_bound: "unat (x :: u16) < 65536"
  using unsigned_less [of x] by simp

section \<open>Loops over an array\<close>

text \<open>The loop \<^verbatim>\<open>for (i = 0; i < n; ++i) a[i] = f(i, a[i])\<close>.\<close>

definition array_for :: "nat \<Rightarrow> (nat \<Rightarrow> 'a \<Rightarrow> 'a) \<Rightarrow> 'a list \<Rightarrow> 'a list" where
  "array_for n f xs = fold (\<lambda>i ys. ys[i := f i (ys ! i)]) [0..<n] xs"

lemma array_for_0 [simp]: "array_for 0 f xs = xs"
  by (simp add: array_for_def)

lemma array_for_Suc: "array_for (Suc n) f xs = (array_for n f xs)[n := f n (array_for n f xs ! n)]"
  by (simp add: array_for_def)

lemma length_array_for [simp]: "length (array_for n f xs) = length xs"
  by (induction n) (auto simp: array_for_Suc)

lemma nth_array_for [simp]:
  "n \<le> length xs \<Longrightarrow> j < length xs \<Longrightarrow>
   array_for n f xs ! j = (if j < n then f j (xs ! j) else xs ! j)"
proof (induction n)
  case 0
  then show ?case by simp
next
  case (Suc n)
  then show ?case by (cases "j = n") (auto simp: array_for_Suc)
qed

lemma map_update_fresh [simp]:
  "i \<notin> set js \<Longrightarrow> map (\<lambda>j. f (xs[i := y] ! j)) js = map (\<lambda>j. f (xs ! j)) js"
  by (induction js) auto

lemma find_append:
  "find P (xs @ ys) = (case find P xs of None \<Rightarrow> find P ys | Some x \<Rightarrow> Some x)"
  by (induction xs) auto

lemma find_SomeD: "find P xs = Some x \<Longrightarrow> x \<in> set xs \<and> P x"
  by (induction xs) (auto split: if_splits)

end
