(* ===== verification/TsPool.thy ===== *)
theory TsPool
  imports OroPrelude
begin

text \<open>
  The memory pool of \<^verbatim>\<open>rtt/internal/TsPool.hpp\<close>, executed without interference
  (theory \<open>TsPoolConc\<close> interleaves the same loop bodies). A pool is an array of
  items; the free items form a list threaded through their \<^verbatim>\<open>next\<close> fields and
  ended by index \<^verbatim>\<open>(unsigned short)-1\<close>. A pointer handed out by the pool is the
  index of its item; the member \<^verbatim>\<open>pool_size\<close> and the value of the \<^verbatim>\<open>head\<close>
  item are never read by the class and are left out.
\<close>

section \<open>State\<close>

record pool_ptr =
  ptr_tag :: u16
  ptr_index :: u16

record 'a pool_item =
  item_value :: 'a
  item_next :: pool_ptr

record 'a tspool =
  pool :: "'a pool_item list"
  pool_head :: pool_ptr
  pool_capacity :: nat

definition nil_index :: u16 where
  "nil_index = - 1"

section \<open>Operations\<close>

text \<open>\<^verbatim>\<open>clear()\<close>: link item \<open>i\<close> to \<open>i + 1\<close>, end the list, let the head point to item 0.
  A pool of capacity 0 makes the code write to \<^verbatim>\<open>pool[-1]\<close>.\<close>

definition set_next_index :: "u16 \<Rightarrow> 'a pool_item \<Rightarrow> 'a pool_item" where
  "set_next_index i it = it\<lparr>item_next := (item_next it)\<lparr>ptr_index := i\<rparr>\<rparr>"

definition tspool_clear :: "'a tspool \<Rightarrow> 'a tspool option" where
  "tspool_clear p =
     (if pool_capacity p = 0 then None
      else
        let linked = array_for (pool_capacity p) (\<lambda>i. set_next_index (of_nat (i + 1))) (pool p);
            ended = linked[pool_capacity p - 1 :=
                       set_next_index nil_index (linked ! (pool_capacity p - 1))]
        in Some (p\<lparr>pool := ended, pool_head := (pool_head p)\<lparr>ptr_index := 0\<rparr>\<rparr>))"

definition tspool_data_sample :: "'a \<Rightarrow> 'a tspool \<Rightarrow> 'a tspool option" where
  "tspool_data_sample x p =
     tspool_clear (p\<lparr>pool := array_for (pool_capacity p) (\<lambda>_ it. it\<lparr>item_value := x\<rparr>) (pool p)\<rparr>)"

text \<open>The constructor: \<open>ssize\<close> default items, a null head, then \<^verbatim>\<open>data_sample\<close>;
  \<open>d\<close> is the default value of the item type.\<close>

definition tspool_new :: "'a \<Rightarrow> nat \<Rightarrow> 'a \<Rightarrow> 'a tspool option" where
  "tspool_new d ssize x =
     tspool_data_sample x
       \<lparr>pool = replicate ssize \<lparr>item_value = d, item_next = \<lparr>ptr_tag = 0, ptr_index = 0\<rparr>\<rparr>,
        pool_head = \<lparr>ptr_tag = 0, ptr_index = 0\<rparr>, pool_capacity = ssize\<rparr>"

text \<open>The bodies of the two retry loops. \<open>alloc_next\<close> is the value \<^verbatim>\<open>newval\<close> that
  \<^verbatim>\<open>allocate\<close> wants to install, \<open>dealloc_link\<close> writes the old head into the item that is
  given back and \<open>dealloc_head\<close> is the head that then points to it.\<close>

definition alloc_next :: "'a tspool \<Rightarrow> pool_ptr \<Rightarrow> pool_ptr" where
  "alloc_next p old =
     \<lparr>ptr_tag = ptr_tag old + 1,
      ptr_index = ptr_index (item_next (pool p ! unat (ptr_index old)))\<rparr>"

definition dealloc_link :: "nat \<Rightarrow> pool_ptr \<Rightarrow> 'a tspool \<Rightarrow> 'a tspool" where
  "dealloc_link i old p = p\<lparr>pool := (pool p)[i := (pool p ! i)\<lparr>item_next := old\<rparr>]\<rparr>"

definition dealloc_head :: "nat \<Rightarrow> pool_ptr \<Rightarrow> pool_ptr" where
  "dealloc_head i old = \<lparr>ptr_tag = ptr_tag old + 1, ptr_index = of_nat i\<rparr>"

definition tspool_allocate :: "'a tspool \<Rightarrow> (nat option \<times> 'a tspool) option" where
  "tspool_allocate p =
     (let old = pool_head p in
      if ptr_index old = nil_index then Some (None, p)
      else if length (pool p) \<le> unat (ptr_index old) then None
      else Some (Some (unat (ptr_index old)), p\<lparr>pool_head := alloc_next p old\<rparr>))"

definition tspool_deallocate :: "nat option \<Rightarrow> 'a tspool \<Rightarrow> (bool \<times> 'a tspool) option" where
  "tspool_deallocate v p =
     (case v of
        None \<Rightarrow> Some (False, p)
      | Some i \<Rightarrow>
          if length (pool p) \<le> i then None
          else let old = pool_head p
               in Some (True, (dealloc_link i old p)\<lparr>pool_head := dealloc_head i old\<rparr>))"

text \<open>\<^verbatim>\<open>size()\<close> walks the free list; its assertion stops the walk after
  \<^verbatim>\<open>pool_capacity\<close> items, which is why the loop ends.\<close>

function size_loop :: "'a pool_item list \<Rightarrow> nat \<Rightarrow> u16 \<Rightarrow> nat \<Rightarrow> nat option" where
  "size_loop items cap idx ret =
     (if idx = nil_index then Some ret
      else if cap < ret + 1 \<or> length items \<le> unat idx then None
      else size_loop items cap (ptr_index (item_next (items ! unat idx))) (ret + 1))"
  by pat_completeness auto
termination
  by (relation "measure (\<lambda>(items, cap, idx, ret). cap - ret)") auto

declare size_loop.simps [simp del]

definition tspool_size :: "'a tspool \<Rightarrow> nat option" where
  "tspool_size p = size_loop (pool p) (pool_capacity p) (ptr_index (pool_head p)) 0"

text \<open>Reading and writing through a pointer that the pool handed out.\<close>

definition item_read :: "'a tspool \<Rightarrow> nat \<Rightarrow> 'a" where
  "item_read p i = item_value (pool p ! i)"

definition item_write :: "nat \<Rightarrow> 'a \<Rightarrow> 'a tspool \<Rightarrow> 'a tspool" where
  "item_write i x p = p\<lparr>pool := (pool p)[i := (pool p ! i)\<lparr>item_value := x\<rparr>]\<rparr>"

section \<open>The free list\<close>

text \<open>\<open>free_chain items idx fl\<close>: following \<^verbatim>\<open>next\<close> from index \<open>idx\<close> visits exactly the
  items \<open>fl\<close> and then meets the end marker.\<close>

fun free_chain :: "'a pool_item list \<Rightarrow> u16 \<Rightarrow> nat list \<Rightarrow> bool" where
  "free_chain items idx [] \<longleftrightarrow> idx = nil_index"
| "free_chain items idx (i # is) \<longleftrightarrow>
     idx = of_nat i \<and> i < length items \<and>
     free_chain items (ptr_index (item_next (items ! i))) is"

definition pool_wf :: "'a tspool \<Rightarrow> nat list \<Rightarrow> bool" where
  "pool_wf p fl \<longleftrightarrow>
     length (pool p) = pool_capacity p \<and> 0 < pool_capacity p \<and> pool_capacity p \<le> 65535 \<and>
     distinct fl \<and> free_chain (pool p) (ptr_index (pool_head p)) fl"

lemma index_not_nil: "i < 65535 \<Longrightarrow> (of_nat i :: u16) \<noteq> nil_index"
  unfolding nil_index_def minus_one_u16 by (subst of_nat_u16_eq_iff) auto

lemma index_eq_nil [simp]: "i < 65535 \<Longrightarrow> ((of_nat i :: u16) = nil_index) = False"
  by (simp add: index_not_nil)

lemma nil_eq_index [simp]: "i < 65535 \<Longrightarrow> (nil_index = (of_nat i :: u16)) = False"
  using index_not_nil by metis

lemma free_chain_range: "free_chain items idx fl \<Longrightarrow> set fl \<subseteq> {..<length items}"
  by (induction items idx fl rule: free_chain.induct) auto

lemma free_chain_unique:
  assumes "free_chain items idx fl" and "free_chain items idx fl'" and "length items \<le> 65535"
  shows "fl = fl'"
  using assms
proof (induction items idx fl arbitrary: fl' rule: free_chain.induct)
  case (1 items idx)
  then show ?case by (cases fl') auto
next
  case (2 items idx i "is")
  then obtain j js where fl': "fl' = j # js"
    by (cases fl') auto
  with 2 have "(of_nat i :: u16) = of_nat j" and "i < 65536" and "j < 65536" by auto
  then have "i = j" by (simp add: of_nat_u16_eq_iff)
  with 2 fl' show ?case by simp
qed

lemma free_chain_update:
  "i \<notin> set fl \<Longrightarrow> free_chain (items[i := it]) idx fl = free_chain items idx fl"
  by (induction items idx fl rule: free_chain.induct) auto

lemma free_chain_same_next:
  "(\<And>j. j < length items \<Longrightarrow> item_next (items' ! j) = item_next (items ! j)) \<Longrightarrow>
   length items' = length items \<Longrightarrow> free_chain items' idx fl = free_chain items idx fl"
  by (induction items idx fl rule: free_chain.induct) auto

lemma distinct_bounded_length:
  assumes "distinct fl" and "set fl \<subseteq> {..<n}"
  shows "length fl \<le> n"
  by (metis assms card_lessThan card_mono distinct_card finite_lessThan)

lemma pool_wf_range: "pool_wf p fl \<Longrightarrow> i \<in> set fl \<Longrightarrow> i < pool_capacity p"
  using free_chain_range by (fastforce simp: pool_wf_def)

lemma pool_wf_length: "pool_wf p fl \<Longrightarrow> length fl \<le> pool_capacity p"
  by (metis distinct_bounded_length free_chain_range pool_wf_def)

lemma pool_wf_unique: "pool_wf p fl \<Longrightarrow> pool_wf p fl' \<Longrightarrow> fl = fl'"
  by (metis free_chain_unique pool_wf_def)

section \<open>Each operation on the free list\<close>

lemma allocate_empty: "pool_wf p [] \<Longrightarrow> tspool_allocate p = Some (None, p)"
  by (simp add: pool_wf_def tspool_allocate_def)

lemma allocate_takes_first:
  assumes "pool_wf p (i # fl)"
  shows "tspool_allocate p = Some (Some i, p\<lparr>pool_head := alloc_next p (pool_head p)\<rparr>)"
    and "pool_wf (p\<lparr>pool_head := alloc_next p (pool_head p)\<rparr>) fl"
  using assms by (auto simp: pool_wf_def tspool_allocate_def alloc_next_def)

lemma deallocate_null [simp]: "tspool_deallocate None p = Some (False, p)"
  by (simp add: tspool_deallocate_def)

lemma deallocate_pushes:
  assumes wf: "pool_wf p fl" and i: "i < pool_capacity p" "i \<notin> set fl"
  obtains p' where "tspool_deallocate (Some i) p = Some (True, p')" and "pool_wf p' (i # fl)"
    and "\<And>j. item_read p' j = item_read p j" and "pool_capacity p' = pool_capacity p"
proof -
  let ?p = "(dealloc_link i (pool_head p) p)\<lparr>pool_head := dealloc_head i (pool_head p)\<rparr>"
  have "tspool_deallocate (Some i) p = Some (True, ?p)"
    using wf i by (simp add: tspool_deallocate_def pool_wf_def Let_def)
  moreover have "pool_wf ?p (i # fl)"
    using wf i by (auto simp: pool_wf_def dealloc_link_def dealloc_head_def free_chain_update)
  moreover have "item_read ?p j = item_read p j" for j
    using wf i by (cases "j = i") (auto simp: item_read_def dealloc_link_def pool_wf_def)
  ultimately show ?thesis by (intro that [of ?p]) (auto simp: dealloc_link_def)
qed

lemma item_write_wf [simp]: "pool_wf (item_write i x p) fl = pool_wf p fl"
proof -
  have "free_chain ((pool p)[i := (pool p ! i)\<lparr>item_value := x\<rparr>]) idx fl =
        free_chain (pool p) idx fl" for idx
    
    by (rule free_chain_same_next; cases "i < length (pool p)")
      (auto simp: nth_list_update list_update_beyond)
  then show ?thesis by (simp add: pool_wf_def item_write_def)
qed

lemma item_read_write:
  "i < length (pool p) \<Longrightarrow> item_read (item_write i x p) j = (if j = i then x else item_read p j)"
  by (auto simp: item_read_def item_write_def)

lemma item_write_capacity [simp]: "pool_capacity (item_write i x p) = pool_capacity p"
  by (simp add: item_write_def)

lemma size_loop_counts:
  assumes "free_chain items idx fl" and "ret + length fl \<le> cap" and "length items \<le> 65535"
  shows "size_loop items cap idx ret = Some (ret + length fl)"
  using assms
proof (induction items idx fl arbitrary: ret rule: free_chain.induct)
  case (1 items idx)
  then show ?case by (simp add: size_loop.simps)
next
  case (2 items idx i "is")
  then have "size_loop items cap (ptr_index (item_next (items ! i))) (ret + 1) =
             Some (ret + 1 + length is)" by simp
  with 2 show ?case by (subst size_loop.simps) auto
qed

lemma tspool_size_free: "pool_wf p fl \<Longrightarrow> tspool_size p = Some (length fl)"
  using size_loop_counts [of "pool p" _ fl 0] pool_wf_length
  by (fastforce simp: tspool_size_def pool_wf_def)

lemma chain_of_links:
  assumes len: "length items = n" and n: "n \<le> 65535" and k: "k < n"
    and link: "\<And>i. i < n \<Longrightarrow> ptr_index (item_next (items ! i)) =
                 (if i = n - 1 then nil_index else of_nat (i + 1))"
  shows "free_chain items (of_nat k) [k..<n]"
  using k
proof (induction "n - k" arbitrary: k)
  case 0
  then show ?case by simp
next
  case (Suc m)
  show ?case
  proof (cases "k = n - 1")
    case True
    with Suc.prems have "[k..<n] = [k]" using upt_conv_Cons by fastforce
    with True Suc.prems len link [of k] show ?thesis by simp
  next
    case False
    have "m = n - Suc k" and "Suc k < n" using False Suc by auto
    then have "free_chain items (of_nat (Suc k)) [Suc k..<n]" by (rule Suc.hyps(1))
    with False Suc.prems len link [of k] show ?thesis by (simp add: upt_conv_Cons)
  qed
qed

lemma clear_frees_all:
  assumes len: "length (pool p) = pool_capacity p" and c: "0 < pool_capacity p" "pool_capacity p \<le> 65535"
  obtains p' where "tspool_clear p = Some p'" and "pool_wf p' [0..<pool_capacity p]"
    and "\<And>i. i < pool_capacity p \<Longrightarrow> item_read p' i = item_read p i"
    and "pool_capacity p' = pool_capacity p"
proof -
  let ?n = "pool_capacity p"
  let ?l = "array_for ?n (\<lambda>i. set_next_index (of_nat (i + 1))) (pool p)"
  let ?e = "?l[?n - 1 := set_next_index nil_index (?l ! (?n - 1))]"
  let ?p = "p\<lparr>pool := ?e, pool_head := (pool_head p)\<lparr>ptr_index := 0\<rparr>\<rparr>"
  have "tspool_clear p = Some ?p" using c by (simp add: tspool_clear_def Let_def)
  moreover have "free_chain ?e (of_nat 0) [0..<?n]"
    using len c by (intro chain_of_links) (auto simp: nth_list_update set_next_index_def)
  then have "pool_wf ?p [0..<?n]" using len c by (simp add: pool_wf_def)
  moreover have "item_read ?p i = item_read p i" if "i < ?n" for i
    using that len c by (auto simp: item_read_def nth_list_update set_next_index_def)
  ultimately show ?thesis by (intro that [of ?p]) auto
qed

lemma data_sample_frees_all:
  assumes len: "length (pool p) = pool_capacity p" and c: "0 < pool_capacity p" "pool_capacity p \<le> 65535"
  obtains p' where "tspool_data_sample x p = Some p'" and "pool_wf p' [0..<pool_capacity p]"
    and "\<And>i. i < pool_capacity p \<Longrightarrow> item_read p' i = x" and "pool_capacity p' = pool_capacity p"
proof -
  let ?p = "p\<lparr>pool := array_for (pool_capacity p) (\<lambda>_ it. it\<lparr>item_value := x\<rparr>) (pool p)\<rparr>"
  obtain p' where "tspool_clear ?p = Some p'" and "pool_wf p' [0..<pool_capacity ?p]"
    and "\<And>i. i < pool_capacity ?p \<Longrightarrow> item_read p' i = item_read ?p i"
    and "pool_capacity p' = pool_capacity ?p"
    using clear_frees_all [of ?p] len c by auto
  with len show ?thesis
    by (intro that [of p']) (auto simp: tspool_data_sample_def item_read_def)
qed

lemma new_frees_all:
  assumes "0 < n" and "n \<le> 65535"
  obtains p where "tspool_new d n x = Some p" and "pool_wf p [0..<n]"
    and "\<And>i. i < n \<Longrightarrow> item_read p i = x" and "pool_capacity p = n"
proof -
  let ?p = "\<lparr>pool = replicate n \<lparr>item_value = d, item_next = \<lparr>ptr_tag = 0, ptr_index = 0\<rparr>\<rparr>,
             pool_head = \<lparr>ptr_tag = 0, ptr_index = 0\<rparr>, pool_capacity = n\<rparr>"
  obtain p where "tspool_data_sample x ?p = Some p" and "pool_wf p [0..<pool_capacity ?p]"
    and "\<And>i. i < pool_capacity ?p \<Longrightarrow> item_read p i = x" and "pool_capacity p = pool_capacity ?p"
    by (rule data_sample_frees_all [of ?p x]) (use assms in auto)
  then show ?thesis by (intro that [of p]) (auto simp: tspool_new_def)
qed

end
