(* ===== verification/TsPoolConc.thy ===== *)
theory TsPoolConc
  imports TsPool
begin

text \<open>
  \<^verbatim>\<open>TsPool::allocate\<close> and \<^verbatim>\<open>TsPool::deallocate\<close> run by any number of threads. A thread
  executes its retry loop one shared-memory access at a time: the read of
  \<^verbatim>\<open>head.next\<close>, the read (or write) of \<^verbatim>\<open>item->next\<close>, the compare-and-swap on
  \<^verbatim>\<open>head.next\<close>. Threads are numbered, memory is sequentially consistent.

  \<open>head_version\<close> counts the successful compare-and-swaps and is not part of the
  program; the 16 bit tag of the head is its remainder. The code relies on the
  tag alone to notice that the head has changed. The parameter \<open>B\<close> of the step
  relation bounds how many changes of the head a thread may sleep through between
  its read of the head and its own compare-and-swap in \<^verbatim>\<open>allocate\<close>; the results are
  for \<open>B = 2 ^ 16\<close>.
\<close>

section \<open>Threads and steps\<close>

datatype pool_pc =
    PoolIdle
  | AllocLoop                            \<comment> \<open>at the top of the loop of \<open>allocate\<close>\<close>
  | AllocRead pool_ptr nat               \<comment> \<open>has read \<open>oldval\<close>\<close>
  | AllocProposed pool_ptr pool_ptr nat  \<comment> \<open>has computed \<open>newval\<close>\<close>
  | DeallocLoop nat                      \<comment> \<open>at the top of the loop of \<open>deallocate\<close>\<close>
  | DeallocRead nat pool_ptr             \<comment> \<open>has read \<open>oldval\<close>\<close>
  | DeallocLinked nat pool_ptr           \<comment> \<open>has written \<open>item->next\<close>\<close>

record 'a pool_sys =
  shared_pool :: "'a tspool"
  pool_pcs :: "nat \<Rightarrow> pool_pc"
  owns :: "nat \<Rightarrow> nat set"
  head_version :: nat

abbreviation pool_goto :: "nat \<Rightarrow> pool_pc \<Rightarrow> 'a pool_sys \<Rightarrow> 'a pool_sys" where
  "pool_goto t q s \<equiv> s\<lparr>pool_pcs := (pool_pcs s)(t := q)\<rparr>"

definition cas_head :: "pool_ptr \<Rightarrow> pool_ptr \<Rightarrow> 'a tspool \<Rightarrow> bool \<times> 'a tspool" where
  "cas_head old new p = (if pool_head p = old then (True, p\<lparr>pool_head := new\<rparr>) else (False, p))"

definition pool_init :: "nat \<Rightarrow> 'a \<Rightarrow> 'a pool_sys \<Rightarrow> bool" where
  "pool_init n x s \<longleftrightarrow>
     tspool_new x n x = Some (shared_pool s) \<and> pool_pcs s = (\<lambda>_. PoolIdle) \<and>
     owns s = (\<lambda>_. {}) \<and> head_version s = 0"

inductive pool_step :: "nat \<Rightarrow> 'a pool_sys \<Rightarrow> 'a pool_sys \<Rightarrow> bool" for B :: nat where
  alloc_call: "pool_pcs s t = PoolIdle \<Longrightarrow> pool_step B s (pool_goto t AllocLoop s)"
| alloc_read: "pool_pcs s t = AllocLoop \<Longrightarrow>
    pool_step B s (pool_goto t (AllocRead (pool_head (shared_pool s)) (head_version s)) s)"
| alloc_empty: "pool_pcs s t = AllocRead old v \<Longrightarrow> ptr_index old = nil_index \<Longrightarrow>
    pool_step B s (pool_goto t PoolIdle s)"
| alloc_propose: "pool_pcs s t = AllocRead old v \<Longrightarrow> ptr_index old \<noteq> nil_index \<Longrightarrow>
    pool_step B s (pool_goto t (AllocProposed old (alloc_next (shared_pool s) old) v) s)"
| alloc_cas: "pool_pcs s t = AllocProposed old new v \<Longrightarrow> head_version s - v < B \<Longrightarrow>
    cas_head old new (shared_pool s) = (True, p) \<Longrightarrow>
    pool_step B s
      (s\<lparr>shared_pool := p, pool_pcs := (pool_pcs s)(t := PoolIdle),
         owns := (owns s)(t := insert (unat (ptr_index old)) (owns s t)),
         head_version := Suc (head_version s)\<rparr>)"
| alloc_retry: "pool_pcs s t = AllocProposed old new v \<Longrightarrow>
    cas_head old new (shared_pool s) = (False, p) \<Longrightarrow> pool_step B s (pool_goto t AllocLoop s)"
| dealloc_call: "pool_pcs s t = PoolIdle \<Longrightarrow> i \<in> owns s t \<Longrightarrow>
    pool_step B s
      (s\<lparr>pool_pcs := (pool_pcs s)(t := DeallocLoop i), owns := (owns s)(t := owns s t - {i})\<rparr>)"
| dealloc_read: "pool_pcs s t = DeallocLoop i \<Longrightarrow>
    pool_step B s (pool_goto t (DeallocRead i (pool_head (shared_pool s))) s)"
| dealloc_write: "pool_pcs s t = DeallocRead i old \<Longrightarrow>
    pool_step B s
      (s\<lparr>shared_pool := dealloc_link i old (shared_pool s),
         pool_pcs := (pool_pcs s)(t := DeallocLinked i old)\<rparr>)"
| dealloc_cas: "pool_pcs s t = DeallocLinked i old \<Longrightarrow>
    cas_head old (dealloc_head i old) (shared_pool s) = (True, p) \<Longrightarrow>
    pool_step B s
      (s\<lparr>shared_pool := p, pool_pcs := (pool_pcs s)(t := PoolIdle),
         head_version := Suc (head_version s)\<rparr>)"
| dealloc_retry: "pool_pcs s t = DeallocLinked i old \<Longrightarrow>
    cas_head old (dealloc_head i old) (shared_pool s) = (False, p) \<Longrightarrow>
    pool_step B s (pool_goto t (DeallocLoop i) s)"
| client_write: "i \<in> owns s t \<Longrightarrow>
    pool_step B s (s\<lparr>shared_pool := item_write i x (shared_pool s)\<rparr>)"

section \<open>The invariant\<close>

text \<open>An item on its way back to the pool belongs to the thread that returns it.\<close>

fun returning :: "pool_pc \<Rightarrow> nat set" where
  "returning (DeallocLoop i) = {i}"
| "returning (DeallocRead i old) = {i}"
| "returning (DeallocLinked i old) = {i}"
| "returning _ = {}"

definition holds :: "'a pool_sys \<Rightarrow> nat \<Rightarrow> nat set" where
  "holds s t = owns s t \<union> returning (pool_pcs s t)"

text \<open>What a thread may rely on: as long as no compare-and-swap has succeeded since it
  read the head, what it read is still there.\<close>

fun head_seen :: "'a tspool \<Rightarrow> nat \<Rightarrow> pool_ptr \<Rightarrow> nat \<Rightarrow> bool" where
  "head_seen p ver old v \<longleftrightarrow>
     v \<le> ver \<and> ptr_tag old = of_nat v \<and> (v = ver \<longrightarrow> old = pool_head p)"

fun pool_pc_ok :: "'a tspool \<Rightarrow> nat \<Rightarrow> pool_pc \<Rightarrow> bool" where
  "pool_pc_ok p ver (AllocRead old v) = head_seen p ver old v"
| "pool_pc_ok p ver (AllocProposed old new v) =
     (head_seen p ver old v \<and> ptr_index old \<noteq> nil_index \<and> (v = ver \<longrightarrow> new = alloc_next p old))"
| "pool_pc_ok p ver (DeallocLinked i old) = (item_next (pool p ! i) = old)"
| "pool_pc_ok p ver _ = True"

text \<open>Every item is in the free list or held by exactly one thread.\<close>

definition partitioned :: "nat \<Rightarrow> nat list \<Rightarrow> (nat \<Rightarrow> nat set) \<Rightarrow> bool" where
  "partitioned n fl h \<longleftrightarrow>
     (\<forall>i. i < n \<longleftrightarrow> i \<in> set fl \<or> (\<exists>t. i \<in> h t)) \<and>
     (\<forall>i t. i \<in> h t \<longrightarrow> i \<notin> set fl) \<and>
     (\<forall>i t u. i \<in> h t \<and> i \<in> h u \<longrightarrow> t = u)"

lemma partitioned_unique: "partitioned n fl h \<Longrightarrow> i \<in> h t \<Longrightarrow> i \<in> h u \<Longrightarrow> t = u"
  unfolding partitioned_def by blast

lemma partitioned_held: "partitioned n fl h \<Longrightarrow> i \<in> h t \<Longrightarrow> i \<notin> set fl \<and> i < n"
  unfolding partitioned_def by blast

lemma partitioned_take:
  "partitioned n (i # fl) h \<Longrightarrow> i \<notin> set fl \<Longrightarrow> partitioned n fl (h(t := insert i (h t)))"
  unfolding partitioned_def by auto

lemma partitioned_give:
  assumes "partitioned n fl h" and "i \<in> h t"
  shows "partitioned n (i # fl) (h(t := h t - {i}))"
  using assms unfolding partitioned_def fun_upd_apply by (auto 4 3)

definition pool_shape :: "'a pool_sys \<Rightarrow> nat list \<Rightarrow> bool" where
  "pool_shape s fl \<longleftrightarrow>
     pool_wf (shared_pool s) fl \<and>
     ptr_tag (pool_head (shared_pool s)) = of_nat (head_version s) \<and>
     partitioned (pool_capacity (shared_pool s)) fl (holds s) \<and>
     (\<forall>t. owns s t \<inter> returning (pool_pcs s t) = {})"

definition pool_inv :: "'a pool_sys \<Rightarrow> bool" where
  "pool_inv s \<longleftrightarrow>
     (\<exists>fl. pool_shape s fl) \<and>
     (\<forall>t. pool_pc_ok (shared_pool s) (head_version s) (pool_pcs s t))"

lemma pool_invI:
  "pool_shape s fl \<Longrightarrow> (\<And>t. pool_pc_ok (shared_pool s) (head_version s) (pool_pcs s t)) \<Longrightarrow> pool_inv s"
  by (auto simp: pool_inv_def)

lemma pool_invE:
  assumes "pool_inv s"
  obtains fl where "pool_shape s fl"
    and "\<And>t. pool_pc_ok (shared_pool s) (head_version s) (pool_pcs s t)"
  using assms by (auto simp: pool_inv_def)

section \<open>Every step keeps the invariant\<close>

lemma holds_goto [simp]:
  "returning q = returning (pool_pcs s t) \<Longrightarrow> holds (pool_goto t q s) = holds s"
  by (auto simp: holds_def fun_eq_iff)

lemma shape_goto:
  assumes "pool_shape s fl" and "returning q = returning (pool_pcs s t)"
  shows "pool_shape (pool_goto t q s) fl"
  using assms by (auto simp: pool_shape_def)

lemma inv_goto:
  assumes inv: "pool_inv s" and "returning q = returning (pool_pcs s t)"
    and "pool_pc_ok (shared_pool s) (head_version s) q"
  shows "pool_inv (pool_goto t q s)"
proof -
  obtain fl where "pool_shape s fl"
    and "\<And>u. pool_pc_ok (shared_pool s) (head_version s) (pool_pcs s u)"
    using inv by (blast elim: pool_invE)
  with assms shape_goto [of s fl q t] show ?thesis by (intro pool_invI [of _ fl]) auto
qed

lemma pc_ok_bump:
  "pool_pc_ok p ver q \<Longrightarrow> pool p' = pool p \<Longrightarrow> pool_pc_ok p' (Suc ver) q"
  by (cases q) auto

lemma head_in_chain:
  assumes "pool_wf p fl" and "ptr_index (pool_head p) \<noteq> nil_index"
  obtains fl' where "fl = unat (ptr_index (pool_head p)) # fl'"
  using assms by (cases fl) (auto simp: pool_wf_def)

lemma inv_alloc_cas:
  assumes inv: "pool_inv s" and pc: "pool_pcs s t = AllocProposed old new v"
    and near: "head_version s - v < 65536" and cas: "cas_head old new (shared_pool s) = (True, p)"
  defines "s' \<equiv> s\<lparr>shared_pool := p, pool_pcs := (pool_pcs s)(t := PoolIdle),
         owns := (owns s)(t := insert (unat (ptr_index old)) (owns s t)),
         head_version := Suc (head_version s)\<rparr>"
  obtains fl where "pool_shape s (unat (ptr_index old) # fl)" and "pool_shape s' fl"
    and "p = (shared_pool s)\<lparr>pool_head := alloc_next (shared_pool s) old\<rparr>"
    and "old = pool_head (shared_pool s)" and "pool_inv s'"
proof -
  let ?p = "shared_pool s"
  obtain fl where shape: "pool_shape s fl"
    and pcs: "\<And>u. pool_pc_ok ?p (head_version s) (pool_pcs s u)"
    using inv by (blast elim: pool_invE)
  from cas have old: "old = pool_head ?p" and p: "p = ?p\<lparr>pool_head := new\<rparr>"
    by (auto simp: cas_head_def split: if_splits)
  from pcs [of t] pc have ok: "head_seen ?p (head_version s) old v" "ptr_index old \<noteq> nil_index"
    and new: "v = head_version s \<longrightarrow> new = alloc_next ?p old" by auto
  from shape have tag: "ptr_tag (pool_head ?p) = of_nat (head_version s)"
    and wf: "pool_wf ?p fl" by (auto simp: pool_shape_def)
  from ok tag old have "(of_nat v :: u16) = of_nat (head_version s)" and "v \<le> head_version s"
    by auto
  with near have v: "v = head_version s" by (blast intro: of_nat_u16_eq_near)
  with new have new: "new = alloc_next ?p old" by simp
  obtain fl' where fl: "fl = unat (ptr_index old) # fl'"
    using head_in_chain [OF wf] ok old by metis
  have wf': "pool_wf p fl'"
    using allocate_takes_first(2) [of ?p "unat (ptr_index old)" fl'] wf fl old new p by simp
  have "holds s' = (holds s)(t := insert (unat (ptr_index old)) (holds s t))"
    using pc by (auto simp: s'_def holds_def fun_eq_iff)
  then have "partitioned (pool_capacity ?p) fl' (holds s')"
    using shape wf by (auto simp: pool_shape_def pool_wf_def fl intro: partitioned_take)
  then have "pool_shape s' fl'"
    using shape wf' tag old new p by (auto simp: pool_shape_def s'_def alloc_next_def)
  moreover have "pool_pc_ok p (Suc (head_version s)) (((pool_pcs s)(t := PoolIdle)) u)" for u
    using pcs [of u] p by (auto intro: pc_ok_bump)
  then have "pool_inv s'"
    using \<open>pool_shape s' fl'\<close> by (intro pool_invI) (auto simp: s'_def)
  ultimately show ?thesis using shape fl p new old by (intro that [of fl']) auto
qed

lemma inv_dealloc_call:
  assumes inv: "pool_inv s" and pc: "pool_pcs s t = PoolIdle" and i: "i \<in> owns s t"
  shows "pool_inv (s\<lparr>pool_pcs := (pool_pcs s)(t := DeallocLoop i),
                     owns := (owns s)(t := owns s t - {i})\<rparr>)" (is "pool_inv ?s")
proof -
  obtain fl where shape: "pool_shape s fl"
    and pcs: "\<And>u. pool_pc_ok (shared_pool s) (head_version s) (pool_pcs s u)"
    using inv by (blast elim: pool_invE)
  have "holds ?s = holds s"
    using pc i by (auto simp: holds_def fun_eq_iff)
  with shape have "pool_shape ?s fl" by (auto simp: pool_shape_def)
  with pcs show ?thesis by (intro pool_invI) auto
qed

lemma inv_dealloc_write:
  assumes inv: "pool_inv s" and pc: "pool_pcs s t = DeallocRead i old"
  shows "pool_inv (s\<lparr>shared_pool := dealloc_link i old (shared_pool s),
                     pool_pcs := (pool_pcs s)(t := DeallocLinked i old)\<rparr>)" (is "pool_inv ?s")
proof -
  let ?p = "shared_pool s"
  obtain fl where shape: "pool_shape s fl"
    and pcs: "\<And>u. pool_pc_ok ?p (head_version s) (pool_pcs s u)"
    using inv by (blast elim: pool_invE)
  then have wf: "pool_wf ?p fl" and part: "partitioned (pool_capacity ?p) fl (holds s)"
    by (auto simp: pool_shape_def)
  have i: "i \<in> holds s t" using pc by (simp add: holds_def)
  with part wf have ifl: "i \<notin> set fl" and ilen: "i < length (pool ?p)"
    by (auto simp: pool_wf_def dest: partitioned_held)
  from shape have "owns s t \<inter> returning (pool_pcs s t) = {}" by (simp add: pool_shape_def)
  with pc have "i \<notin> owns s t" by simp
  moreover have "holds ?s = holds s" using pc by (auto simp: holds_def fun_eq_iff)
  ultimately have "pool_shape ?s fl" using shape ifl
    by (auto simp: pool_shape_def pool_wf_def dealloc_link_def free_chain_update)
  moreover have "pool_pc_ok (dealloc_link i old ?p) (head_version s) (pool_pcs s u)"
    if u: "u \<noteq> t" for u
  proof (cases "pool_pcs s u")
    case (AllocProposed old' new' v)
    have "unat (ptr_index (pool_head ?p)) \<noteq> i" if "ptr_index (pool_head ?p) \<noteq> nil_index"
      by (rule head_in_chain [OF wf that]) (use ifl in auto)
    with AllocProposed pcs [of u] show ?thesis by (auto simp: dealloc_link_def alloc_next_def)
  next
    case (DeallocLinked j old')
    then have "j \<in> holds s u" by (simp add: holds_def)
    with i u part have "j \<noteq> i" by (blast dest: partitioned_unique)
    with DeallocLinked pcs [of u] show ?thesis by (auto simp: dealloc_link_def)
  qed (use pcs [of u] in \<open>auto simp: dealloc_link_def\<close>)
  ultimately show ?thesis
    using ilen by (intro pool_invI [of _ fl]) (auto simp: dealloc_link_def)
qed

lemma inv_dealloc_cas:
  assumes inv: "pool_inv s" and pc: "pool_pcs s t = DeallocLinked i old"
    and cas: "cas_head old (dealloc_head i old) (shared_pool s) = (True, p)"
  defines "s' \<equiv> s\<lparr>shared_pool := p, pool_pcs := (pool_pcs s)(t := PoolIdle),
                   head_version := Suc (head_version s)\<rparr>"
  obtains fl where "pool_shape s fl" and "pool_shape s' (i # fl)"
    and "p = (shared_pool s)\<lparr>pool_head := dealloc_head i old\<rparr>" and "pool_inv s'"
proof -
  let ?p = "shared_pool s"
  obtain fl where shape: "pool_shape s fl"
    and pcs: "\<And>u. pool_pc_ok ?p (head_version s) (pool_pcs s u)"
    using inv by (blast elim: pool_invE)
  from cas have old: "old = pool_head ?p" and p: "p = ?p\<lparr>pool_head := dealloc_head i old\<rparr>"
    by (auto simp: cas_head_def split: if_splits)
  from shape have wf: "pool_wf ?p fl" and part: "partitioned (pool_capacity ?p) fl (holds s)"
    and disj: "owns s t \<inter> returning (pool_pcs s t) = {}"
    by (auto simp: pool_shape_def)
  have i: "i \<in> holds s t" using pc by (simp add: holds_def)
  with part wf have ifl: "i \<notin> set fl" and ilen: "i < length (pool ?p)"
    by (auto simp: pool_wf_def dest: partitioned_held)
  have next_i: "item_next (pool ?p ! i) = old" using pcs [of t] pc by simp
  have "holds s' = (holds s)(t := holds s t - {i})"
    using pc disj by (auto simp: s'_def holds_def fun_eq_iff)
  then have "partitioned (pool_capacity ?p) (i # fl) (holds s')"
    using partitioned_give [OF part i] by simp
  then have shape': "pool_shape s' (i # fl)"
    using shape wf ifl ilen next_i old p
    by (auto simp: pool_shape_def s'_def pool_wf_def dealloc_head_def)
  have "pool_pc_ok p (Suc (head_version s)) (((pool_pcs s)(t := PoolIdle)) u)" for u
    using pcs [of u] p by (auto intro: pc_ok_bump)
  then have "pool_inv s'"
    using shape' by (intro pool_invI) (auto simp: s'_def)
  with shape shape' p show ?thesis by (intro that [of fl]) auto
qed

lemma inv_client_write:
  assumes inv: "pool_inv s" and i: "i \<in> owns s t"
  shows "pool_inv (s\<lparr>shared_pool := item_write i x (shared_pool s)\<rparr>)" (is "pool_inv ?s")
proof -
  let ?p = "shared_pool s"
  obtain fl where shape: "pool_shape s fl"
    and pcs: "\<And>u. pool_pc_ok ?p (head_version s) (pool_pcs s u)"
    using inv by (blast elim: pool_invE)
  have nxt: "item_next (pool (item_write i x ?p) ! j) = item_next (pool ?p ! j)" for j
    by (cases "i < length (pool ?p)")
      (auto simp: item_write_def nth_list_update list_update_beyond)
  have "pool_pc_ok (item_write i x ?p) (head_version s) q = pool_pc_ok ?p (head_version s) q" for q
    by (cases q) (auto simp: nxt alloc_next_def item_write_def [of i x ?p, THEN arg_cong, of pool_head])
  moreover have "holds ?s = holds s" by (simp add: holds_def fun_eq_iff)
  with shape have "pool_shape ?s fl"
    by (auto simp: pool_shape_def) (simp_all add: item_write_def)
  ultimately show ?thesis using pcs by (intro pool_invI) auto
qed

lemma pool_step_inv:
  assumes "pool_step 65536 s s'" and inv: "pool_inv s"
  shows "pool_inv s'"
  using assms(1)
proof cases
  case (alloc_cas t old new v p)
  then show ?thesis using inv_alloc_cas [OF inv] by metis
next
  case (dealloc_cas t i old p)
  then show ?thesis using inv_dealloc_cas [OF inv] by metis
next
  case (alloc_read t)
  then show ?thesis
    using inv by (auto simp: pool_inv_def pool_shape_def intro!: inv_goto)
next
  case (alloc_propose t old v)
  moreover have "pool_pc_ok (shared_pool s) (head_version s) (AllocRead old v)"
    using inv alloc_propose by (metis pool_inv_def)
  ultimately show ?thesis using inv by (auto intro!: inv_goto)
qed (auto intro!: inv_goto inv inv_dealloc_call inv_dealloc_write inv_client_write)

lemma pool_init_inv:
  assumes init: "pool_init n x s" and n: "0 < n" "n \<le> 65535"
  shows "pool_inv s"
proof -
  obtain p where new: "tspool_new x n x = Some p" and wf: "pool_wf p [0..<n]"
    and cap: "pool_capacity p = n"
    using new_frees_all [OF n, of x x] by metis
  from init new have p: "shared_pool s = p" by (simp add: pool_init_def)
  have "ptr_tag (pool_head p) = 0"
    using new n by (auto simp: tspool_new_def tspool_data_sample_def tspool_clear_def Let_def)
  moreover have "holds s = (\<lambda>_. {})"
    using init by (simp add: pool_init_def holds_def fun_eq_iff)
  ultimately have "pool_shape s [0..<n]"
    using init wf cap p by (auto simp: pool_shape_def pool_init_def partitioned_def)
  then show ?thesis using init by (intro pool_invI) (auto simp: pool_init_def)
qed

interpretation tspool_threads:
  invariant_of "\<lambda>s. \<exists>n x. 0 < n \<and> n \<le> 65535 \<and> pool_init n x s" "pool_step 65536" pool_inv
  by unfold_locales (auto intro: pool_init_inv pool_step_inv)

lemma reachable_pool_inv:
  assumes "0 < n" "n \<le> 65535" "reachable (pool_init n x) (pool_step 65536) s"
  shows "pool_inv s"
  by (rule tspool_threads.reachable_inv, rule reachable_weaken [OF assms(3)]) (use assms in blast)

lemma pool_step_capacity:
  "pool_step B s s' \<Longrightarrow> pool_capacity (shared_pool s') = pool_capacity (shared_pool s)"
  by (induction rule: pool_step.induct) (auto simp: cas_head_def dealloc_link_def split: if_splits)

lemma reachable_pool_capacity:
  assumes "reachable (pool_init n x) (pool_step B) s" and "0 < n" "n \<le> 65535"
  shows "pool_capacity (shared_pool s) = n"
  using assms(1)
proof induction
  case (reachable_init s)
  obtain p where "tspool_new x n x = Some p" and "pool_capacity p = n"
    using new_frees_all [OF assms(2,3), of x x] by metis
  with reachable_init show ?case by (simp add: pool_init_def)
qed (simp add: pool_step_capacity)

text \<open>A run in which thread 0 is about to take the first of two items.\<close>

definition pool_demo :: "nat pool_sys" where
  "pool_demo =
     (let p = the (tspool_new 0 2 0) in
      \<lparr>shared_pool = p,
       pool_pcs = (\<lambda>_. PoolIdle)(0 := AllocProposed (pool_head p) (alloc_next p (pool_head p)) 0),
       owns = (\<lambda>_. {}), head_version = 0\<rparr>)"

lemma pool_demo_reachable: "reachable (pool_init 2 0) (pool_step 65536) pool_demo"
proof -
  obtain p where new: "tspool_new 0 2 (0::nat) = Some p" and wf: "pool_wf p [0..<2]"
    using new_frees_all [of 2 0 0] by auto
  define s where "s = (\<lambda>q. \<lparr>shared_pool = p, pool_pcs = (\<lambda>_. PoolIdle)(0 := q),
     owns = (\<lambda>_. {}), head_version = 0\<rparr>)"
  have step: "pool_goto 0 q (s r) = s q" for q r by (simp add: s_def)
  have "pool_init 2 0 (s PoolIdle)" using new by (simp add: pool_init_def s_def fun_upd_idem)
  then have "reachable (pool_init 2 0) (pool_step 65536) (s PoolIdle)"
    by (rule reachable_init)
  then have "reachable (pool_init 2 0) (pool_step 65536) (s AllocLoop)"
    by (rule reachable_step) (metis alloc_call [of "s PoolIdle" 0] step s_def fun_upd_same pool_sys.select_convs(2))
  then have "reachable (pool_init 2 0) (pool_step 65536) (s (AllocRead (pool_head p) 0))"
    by (rule reachable_step) (use alloc_read [of "s AllocLoop" 0] step in \<open>auto simp: s_def\<close>)
  moreover have "ptr_index (pool_head p) \<noteq> nil_index"
    using wf by (auto simp: pool_wf_def numeral_2_eq_2 nil_index_def)
  ultimately have "reachable (pool_init 2 0) (pool_step 65536)
      (s (AllocProposed (pool_head p) (alloc_next p (pool_head p)) 0))"
    by (elim reachable_step)
      (use alloc_propose [of "s (AllocRead (pool_head p) 0)" 0 "pool_head p" 0] step in
        \<open>auto simp: s_def\<close>)
  with new show ?thesis by (simp add: pool_demo_def s_def)
qed

section \<open>Properties\<close>

text \<open>C1: memory safety of the lock-free pool. However the calls of \<^verbatim>\<open>allocate\<close> and
  \<^verbatim>\<open>deallocate\<close> of any number of threads interleave, every item of the pool is at all times
  either in the free list or held by exactly one thread: no item is handed out twice and none
  is lost, provided no thread sleeps through \<open>2 ^ 16\<close> changes of the head between its read of
  the head and its compare-and-swap.\<close>

theorem pool_items_partitioned:
  assumes "0 < n" and "n \<le> 65535" and "reachable (pool_init n x) (pool_step 65536) s"
  shows "\<exists>fl. pool_wf (shared_pool s) fl \<and> tspool_size (shared_pool s) = Some (length fl) \<and>
           (\<forall>i<n. (i \<in> set fl) \<noteq> (\<exists>t. i \<in> holds s t)) \<and>
           (\<forall>i t u. i \<in> holds s t \<and> i \<in> holds s u \<longrightarrow> t = u)"
proof -
  from reachable_pool_inv [OF assms] obtain fl where "pool_shape s fl"
    by (blast elim: pool_invE)
  moreover from this have "tspool_size (shared_pool s) = Some (length fl)"
    by (intro tspool_size_free) (simp add: pool_shape_def)
  ultimately show ?thesis
    using reachable_pool_capacity [OF assms(3,1,2)]
    by (intro exI [of _ fl]) (auto simp: pool_shape_def partitioned_def)
qed

theorem pool_items_partitioned_witness:
  "\<exists>fl. pool_wf (shared_pool pool_demo) fl \<and>
        tspool_size (shared_pool pool_demo) = Some (length fl)"
  using pool_items_partitioned [OF _ _ pool_demo_reachable] by auto

text \<open>C21: linearizability of the pool. A successful compare-and-swap of \<^verbatim>\<open>allocate\<close>, however
  much other threads did since the thread read the head, has exactly the effect of the whole call
  executed alone at that moment, and it hands out an item that no thread held.\<close>

theorem allocate_linearizable:
  assumes "0 < n" and "n \<le> 65535" and "reachable (pool_init n x) (pool_step 65536) s"
    and "pool_pcs s t = AllocProposed old new v" and "head_version s - v < 65536"
    and "cas_head old new (shared_pool s) = (True, p)"
  shows "tspool_allocate (shared_pool s) = Some (Some (unat (ptr_index old)), p)
         \<and> (\<forall>u. unat (ptr_index old) \<notin> holds s u)"
proof -
  from reachable_pool_inv [OF assms(1-3)] have inv: "pool_inv s" .
  obtain fl where shape: "pool_shape s (unat (ptr_index old) # fl)"
    and p: "p = (shared_pool s)\<lparr>pool_head := alloc_next (shared_pool s) old\<rparr>"
    and old: "old = pool_head (shared_pool s)"
    using inv_alloc_cas [OF inv assms(4-6)] by metis
  have "tspool_allocate (shared_pool s) = Some (Some (unat (ptr_index old)), p)"
    using allocate_takes_first(1) shape p old by (auto simp: pool_shape_def)
  with shape show ?thesis by (auto simp: pool_shape_def partitioned_def)
qed

theorem allocate_linearizable_witness:
  "\<exists>p. tspool_allocate (shared_pool pool_demo) = Some (Some 0, p)"
proof -
  let ?p = "shared_pool pool_demo"
  have "pool_pcs pool_demo 0 = AllocProposed (pool_head ?p) (alloc_next ?p (pool_head ?p)) 0"
    and "head_version pool_demo - 0 < 65536"
    by (simp_all add: pool_demo_def Let_def)
  moreover have "cas_head (pool_head ?p) (alloc_next ?p (pool_head ?p)) ?p =
                 (True, ?p\<lparr>pool_head := alloc_next ?p (pool_head ?p)\<rparr>)"
    by (simp add: cas_head_def)
  moreover have "unat (ptr_index (pool_head ?p)) = 0"
    by (simp add: pool_demo_def tspool_new_def tspool_data_sample_def tspool_clear_def Let_def)
  ultimately show ?thesis
    using allocate_linearizable [OF _ _ pool_demo_reachable] by auto
qed

end
