(* ===== verification/RingIndex.thy ===== *)
theory RingIndex
  imports OroPrelude
begin

text \<open>
  The read and write index that \<^verbatim>\<open>AtomicMWSRQueue\<close> and \<^verbatim>\<open>AtomicQueue\<close> pack into one
  word (\<^verbatim>\<open>union SIndexes\<close>), and the arithmetic on them: the test for a full ring as
  the C++ integer promotions make it, the distance between the indices, the slots in between.
\<close>

section \<open>The packed indices\<close>

record indexes =
  windex :: u16
  rindex :: u16

text \<open>\<^verbatim>\<open>_index[0] == _index[1] - 1 || _index[0] == _index[1] + _size - 1\<close>, computed on
  \<^verbatim>\<open>int\<close> after promotion, so \<open>- 1\<close> does not wrap.\<close>

definition ring_full :: "nat \<Rightarrow> indexes \<Rightarrow> bool" where
  "ring_full n ix \<longleftrightarrow>
     int (unat (windex ix)) = int (unat (rindex ix)) - 1 \<or>
     int (unat (windex ix)) = int (unat (rindex ix)) + int n - 1"

section \<open>Distances on a ring\<close>

definition ring_dist :: "nat \<Rightarrow> nat \<Rightarrow> nat \<Rightarrow> nat" where
  "ring_dist n r w = (if r \<le> w then w - r else w + n - r)"

definition ring_slots :: "nat \<Rightarrow> nat \<Rightarrow> nat \<Rightarrow> nat list" where
  "ring_slots n r k = map (\<lambda>j. (r + j) mod n) [0..<k]"

lemma ring_dist_less: "r < n \<Longrightarrow> w < n \<Longrightarrow> ring_dist n r w < n"
  by (auto simp: ring_dist_def)

lemma ring_dist_0 [simp]: "r < n \<Longrightarrow> w < n \<Longrightarrow> ring_dist n r w = 0 \<longleftrightarrow> w = r"
  by (auto simp: ring_dist_def)

lemma ring_dist_self [simp]: "ring_dist n r r = 0"
  by (simp add: ring_dist_def)

lemma ring_dist_end: "r < n \<Longrightarrow> w < n \<Longrightarrow> (r + ring_dist n r w) mod n = w"
  by (auto simp: ring_dist_def)

lemma ring_dist_advance_w:
  "r < n \<Longrightarrow> w < n \<Longrightarrow> ring_dist n r w < n - 1 \<Longrightarrow>
   ring_dist n r (Suc w mod n) = Suc (ring_dist n r w)"
  by (cases "Suc w = n") (auto simp: ring_dist_def split: if_splits)

lemma ring_dist_advance_r:
  "r < n \<Longrightarrow> w < n \<Longrightarrow> 0 < ring_dist n r w \<Longrightarrow>
   ring_dist n (Suc r mod n) w = ring_dist n r w - 1"
  by (cases "Suc r = n") (auto simp: ring_dist_def split: if_splits)

lemma full_dist:
  "w < n \<Longrightarrow> r < n \<Longrightarrow>
   (int w = int r - 1 \<or> int w = int r + int n - 1) \<longleftrightarrow> ring_dist n r w = n - 1"
  unfolding ring_dist_def by (cases "r \<le> w") auto

lemma count_dist:
  "w < n \<Longrightarrow> r < n \<Longrightarrow>
   nat (if 0 \<le> int w - int r then int w - int r else int w - int r + int n) = ring_dist n r w"
  unfolding ring_dist_def by auto

lemma ring_full_dist:
  "unat (windex ix) < n \<Longrightarrow> unat (rindex ix) < n \<Longrightarrow>
   ring_full n ix \<longleftrightarrow> ring_dist n (unat (rindex ix)) (unat (windex ix)) = n - 1"
  unfolding ring_full_def by (rule full_dist)

lemma ring_slot_inj:
  fixes r :: nat
  assumes "(r + i) mod n = (r + j) mod n" and "i < n" and "j < n"
  shows "i = j"
proof -
  have "\<not> (x < y)" if "(r + x) mod n = (r + y) mod n" "y < n" for x y :: nat
  proof
    assume "x < y"
    from that \<open>x < y\<close> have "n dvd (r + y) - (r + x)" by (metis mod_eq_dvd_iff_nat add_le_cancel_left less_imp_le_nat)
    then have "n dvd y - x" by simp
    with \<open>x < y\<close> that(2) show False by (auto dest: dvd_imp_le)
  qed
  from this [of i j] this [of j i] assms show ?thesis by force
qed

lemma ring_slot_exists:
  fixes r :: nat
  assumes "i < n" and "r < n"
  obtains j where "j < n" and "(r + j) mod n = i"
proof (cases "r \<le> i")
  case True
  with assms show ?thesis by (intro that [of "i - r"]) auto
next
  case False
  with assms show ?thesis by (intro that [of "i + n - r"]) auto
qed

lemma length_ring_slots [simp]: "length (ring_slots n r k) = k"
  by (simp add: ring_slots_def)

lemma ring_slots_Suc: "ring_slots n r (Suc k) = ring_slots n r k @ [(r + k) mod n]"
  by (simp add: ring_slots_def)

lemma ring_slots_Cons: "r < n \<Longrightarrow> ring_slots n r (Suc k) = r # ring_slots n (Suc r mod n) k"
  by (induction k) (auto simp: ring_slots_def mod_simps)

lemma ring_slots_distinct: "k \<le> n \<Longrightarrow> distinct (ring_slots n r k)"
  by (auto simp: ring_slots_def distinct_map inj_on_def dest: ring_slot_inj)

lemma ring_slots_fresh: "k < n \<Longrightarrow> (r + k) mod n \<notin> set (ring_slots n r k)"
  by (auto simp: ring_slots_def dest: ring_slot_inj)

lemma ring_slots_less: "0 < n \<Longrightarrow> i \<in> set (ring_slots n r k) \<Longrightarrow> i < n"
  by (auto simp: ring_slots_def)

section \<open>Advancing a 16 bit index\<close>

text \<open>\<^verbatim>\<open>++i; if (i >= _size) i = 0;\<close> on an \<^verbatim>\<open>unsigned short\<close>. A ring of 65536 slots
  relies on the wrap-around of the increment.\<close>

definition index_advance :: "nat \<Rightarrow> u16 \<Rightarrow> u16" where
  "index_advance n i = (if n \<le> unat (i + 1) then 0 else i + 1)"

text \<open>\<^verbatim>\<open>++i; if (i == _size) i = 0;\<close>\<close>

definition index_advance_eq :: "nat \<Rightarrow> u16 \<Rightarrow> u16" where
  "index_advance_eq n i = (if unat (i + 1) = n then 0 else i + 1)"

lemma unat_Suc_u16: "unat (i + 1 :: u16) = Suc (unat i) mod 65536"
  by (simp add: unat_word_ariths)

lemma index_advance_mod [simp]:
  assumes "unat i < n" and "n \<le> 65536"
  shows "unat (index_advance n i) = Suc (unat i) mod n"
proof (cases "Suc (unat i) = 65536")
  case True
  with assms have "n = 65536" by simp
  with True show ?thesis by (simp add: index_advance_def unat_Suc_u16)
next
  case False
  with assms show ?thesis
    by (cases "Suc (unat i) = n") (auto simp: index_advance_def unat_Suc_u16)
qed

lemma index_advance_eq_same:
  assumes "unat i < n" and "n \<le> 65536"
  shows "index_advance_eq n i = index_advance n i"
proof (cases "Suc (unat i) = 65536")
  case True
  with assms show ?thesis
    by (auto simp: index_advance_def index_advance_eq_def unat_Suc_u16 word_unat_eq_iff)
next
  case False
  with assms show ?thesis
    by (auto simp: index_advance_def index_advance_eq_def unat_Suc_u16)
qed

end
