(* ===== verification/QueueSpec.thy ===== *)
theory QueueSpec
  imports OroPrelude
begin

text \<open>
  What the users of \<^verbatim>\<open>AtomicQueue\<close> and \<^verbatim>\<open>AtomicMWSRQueue\<close> (the lock-free buffer, the
  execution engine) rely on: a first-in first-out queue of non-null pointers with a fixed
  capacity. The member functions of a queue class are the fields of \<open>queue_api\<close>; the
  locale \<open>bounded_fifo\<close> states the contract, and its main lemma is that no sequence of
  calls can tell an implementation from a plain list.
\<close>

record ('a, 'q) queue_api =
  q_enqueue :: "'a option \<Rightarrow> 'q \<Rightarrow> bool \<times> 'q"
  q_dequeue :: "'q \<Rightarrow> 'a option \<times> 'q"
  q_isFull :: "'q \<Rightarrow> bool"
  q_isEmpty :: "'q \<Rightarrow> bool"
  q_capacity :: "'q \<Rightarrow> nat"
  q_size :: "'q \<Rightarrow> nat"
  q_clear :: "'q \<Rightarrow> 'q"

section \<open>Sequences of calls\<close>

datatype 'a queue_call =
  Enqueue "'a option" | Dequeue | IsFull | IsEmpty | Capacity | QSize | Clear

datatype 'a queue_result = Flag bool | Popped "'a option" | Count nat | Done

fun queue_do :: "('a, 'q) queue_api \<Rightarrow> 'a queue_call \<Rightarrow> 'q \<Rightarrow> 'a queue_result \<times> 'q" where
  "queue_do Q (Enqueue v) q = (case q_enqueue Q v q of (ok, q') \<Rightarrow> (Flag ok, q'))"
| "queue_do Q Dequeue q = (case q_dequeue Q q of (v, q') \<Rightarrow> (Popped v, q'))"
| "queue_do Q IsFull q = (Flag (q_isFull Q q), q)"
| "queue_do Q IsEmpty q = (Flag (q_isEmpty Q q), q)"
| "queue_do Q Capacity q = (Count (q_capacity Q q), q)"
| "queue_do Q QSize q = (Count (q_size Q q), q)"
| "queue_do Q Clear q = (Done, q_clear Q q)"

fun queue_run :: "('a, 'q) queue_api \<Rightarrow> 'a queue_call list \<Rightarrow> 'q \<Rightarrow> 'a queue_result list \<times> 'q" where
  "queue_run Q [] q = ([], q)"
| "queue_run Q (c # cs) q =
     (case queue_do Q c q of (r, q') \<Rightarrow> case queue_run Q cs q' of (rs, q'') \<Rightarrow> (r # rs, q''))"

section \<open>The specification: a list of at most \<open>cap\<close> elements\<close>

definition list_queue :: "nat \<Rightarrow> ('a, 'a list) queue_api" where
  "list_queue cap =
     \<lparr>q_enqueue = (\<lambda>v xs. case v of None \<Rightarrow> (False, xs)
                     | Some x \<Rightarrow> if length xs < cap then (True, xs @ [x]) else (False, xs)),
      q_dequeue = (\<lambda>xs. case xs of [] \<Rightarrow> (None, []) | x # xs' \<Rightarrow> (Some x, xs')),
      q_isFull = (\<lambda>xs. length xs = cap),
      q_isEmpty = (\<lambda>xs. xs = []),
      q_capacity = (\<lambda>_. cap),
      q_size = length,
      q_clear = (\<lambda>_. [])\<rparr>"

locale bounded_fifo =
  fixes Q :: "('a, 'q) queue_api"
    and elems :: "'q \<Rightarrow> 'a list"
    and inv :: "'q \<Rightarrow> bool"
  assumes bound: "inv q \<Longrightarrow> length (elems q) \<le> q_capacity Q q"
    and enqueue_null: "q_enqueue Q None q = (False, q)"
    and enqueue_room: "inv q \<Longrightarrow> length (elems q) < q_capacity Q q \<Longrightarrow>
      \<exists>q'. q_enqueue Q (Some x) q = (True, q') \<and> inv q' \<and> elems q' = elems q @ [x] \<and>
           q_capacity Q q' = q_capacity Q q"
    and enqueue_full: "inv q \<Longrightarrow> length (elems q) = q_capacity Q q \<Longrightarrow>
      q_enqueue Q (Some x) q = (False, q)"
    and dequeue_empty: "inv q \<Longrightarrow> elems q = [] \<Longrightarrow> q_dequeue Q q = (None, q)"
    and dequeue_first: "inv q \<Longrightarrow> elems q = x # xs \<Longrightarrow>
      \<exists>q'. q_dequeue Q q = (Some x, q') \<and> inv q' \<and> elems q' = xs \<and>
           q_capacity Q q' = q_capacity Q q"
    and size_elems: "inv q \<Longrightarrow> q_size Q q = length (elems q)"
    and isEmpty_elems: "inv q \<Longrightarrow> q_isEmpty Q q \<longleftrightarrow> elems q = []"
    and isFull_elems: "inv q \<Longrightarrow> q_isFull Q q \<longleftrightarrow> length (elems q) = q_capacity Q q"
    and clear_elems: "inv q \<Longrightarrow>
      inv (q_clear Q q) \<and> elems (q_clear Q q) = [] \<and> q_capacity Q (q_clear Q q) = q_capacity Q q"
begin

lemma enqueueE:
  assumes "inv q"
  obtains (room) q' where "length (elems q) < q_capacity Q q" and "q_enqueue Q (Some x) q = (True, q')"
      and "inv q'" and "elems q' = elems q @ [x]" and "q_capacity Q q' = q_capacity Q q"
  | (full) "length (elems q) = q_capacity Q q" and "q_enqueue Q (Some x) q = (False, q)"
  using assms bound [of q] enqueue_room [of q x] enqueue_full [of q x] by fastforce

lemma dequeueE:
  assumes "inv q"
  obtains (empty) "elems q = []" and "q_dequeue Q q = (None, q)"
  | (first) x xs q' where "elems q = x # xs" and "q_dequeue Q q = (Some x, q')" and "inv q'"
      and "elems q' = xs" and "q_capacity Q q' = q_capacity Q q"
  using assms dequeue_empty [of q] dequeue_first [of q] by (cases "elems q") fastforce+

lemma do_refines:
  assumes inv: "inv q" and cap: "q_capacity Q q = cap"
  obtains q' r where "queue_do Q c q = (r, q')" and "inv q'" and "q_capacity Q q' = cap"
    and "queue_do (list_queue cap) c (elems q) = (r, elems q')"
proof (cases c)
  case (Enqueue v)
  show ?thesis
  proof (cases v)
    case None
    with inv cap Enqueue that show ?thesis by (simp add: enqueue_null list_queue_def)
  next
    case (Some x)
    from inv show ?thesis
      by (cases rule: enqueueE [where x = x])
        (use Some Enqueue cap inv that in \<open>auto simp: list_queue_def\<close>)
  qed
next
  case Dequeue
  from inv show ?thesis
    by (cases rule: dequeueE) (use Dequeue cap inv that in \<open>auto simp: list_queue_def\<close>)
qed (use inv cap that clear_elems [OF inv] in
     \<open>auto simp: list_queue_def size_elems isEmpty_elems isFull_elems\<close>)

theorem run_refines:
  assumes "inv q" and "q_capacity Q q = cap"
  shows "fst (queue_run Q cs q) = fst (queue_run (list_queue cap) cs (elems q)) \<and>
         inv (snd (queue_run Q cs q)) \<and>
         elems (snd (queue_run Q cs q)) = snd (queue_run (list_queue cap) cs (elems q))"
  using assms
proof (induction cs arbitrary: q)
  case Nil
  then show ?case by simp
next
  case (Cons c cs)
  obtain q' r where "queue_do Q c q = (r, q')" and "inv q'" and "q_capacity Q q' = cap"
    and "queue_do (list_queue cap) c (elems q) = (r, elems q')"
    using do_refines [OF Cons.prems] by metis
  with Cons.IH [of q'] show ?case by (auto split: prod.split)
qed

end

end
