(* ===== verification/MWSRQueue.thy ===== *)
theory MWSRQueue
  imports RingIndex QueueSpec
begin

text \<open>
  \<^verbatim>\<open>rtt/internal/AtomicMWSRQueue.hpp\<close>, each call executed without interference (theory
  \<open>MWSRQueueConc\<close> interleaves them). The queue is a ring of \<^verbatim>\<open>size + 1\<close> pointers in which a
  null pointer marks a free slot. \<^verbatim>\<open>_size\<close> is an \<^verbatim>\<open>int\<close> and non-negative. The invariant
  \<open>mw_inv\<close> keeps both indices inside the ring, so no access leaves the array.
\<close>

section \<open>State and operations\<close>

record 'a mwsr =
  mw_size :: nat
  mw_buf :: "'a option list"
  mw_ix :: indexes

definition mw_clear :: "'a mwsr \<Rightarrow> 'a mwsr" where
  "mw_clear q = q\<lparr>mw_buf := array_for (mw_size q) (\<lambda>_ _. None) (mw_buf q),
                  mw_ix := \<lparr>windex = 0, rindex = 0\<rparr>\<rparr>"

text \<open>The constructor fills the new array by \<^verbatim>\<open>clear\<close>; what \<^verbatim>\<open>new C[]\<close> left in it does not
  matter, here it is \<open>g\<close>.\<close>

definition mw_new :: "'a option \<Rightarrow> nat \<Rightarrow> 'a mwsr" where
  "mw_new g sz = mw_clear \<lparr>mw_size = sz + 1, mw_buf = replicate (sz + 1) g,
                             mw_ix = \<lparr>windex = 0, rindex = 0\<rparr>\<rparr>"

definition mw_isFull :: "'a mwsr \<Rightarrow> bool" where
  "mw_isFull q \<longleftrightarrow> ring_full (mw_size q) (mw_ix q)"

definition mw_isEmpty :: "'a mwsr \<Rightarrow> bool" where
  "mw_isEmpty q \<longleftrightarrow> windex (mw_ix q) = rindex (mw_ix q)"

definition mw_capacity :: "'a mwsr \<Rightarrow> nat" where
  "mw_capacity q = mw_size q - 1"

definition mw_count :: "'a mwsr \<Rightarrow> nat" where
  "mw_count q =
     (let c = int (unat (windex (mw_ix q))) - int (unat (rindex (mw_ix q)))
      in nat (if 0 \<le> c then c else c + int (mw_size q)))"

text \<open>The new index pair that \<^verbatim>\<open>advance_w\<close> and \<^verbatim>\<open>advance_r\<close> try to install.\<close>

definition mw_next_w :: "nat \<Rightarrow> indexes \<Rightarrow> indexes" where
  "mw_next_w n ix = ix\<lparr>windex := index_advance n (windex ix)\<rparr>"

definition mw_next_r :: "nat \<Rightarrow> indexes \<Rightarrow> indexes" where
  "mw_next_r n ix = ix\<lparr>rindex := index_advance n (rindex ix)\<rparr>"

definition mw_advance_w :: "'a mwsr \<Rightarrow> nat option \<times> 'a mwsr" where
  "mw_advance_w q =
     (let old = mw_ix q in
      if ring_full (mw_size q) old then (None, q)
      else (Some (unat (windex old)), q\<lparr>mw_ix := mw_next_w (mw_size q) old\<rparr>))"

definition mw_advance_r :: "'a mwsr \<Rightarrow> 'a option \<times> 'a mwsr" where
  "mw_advance_r q =
     (let r = unat (rindex (mw_ix q)); result = mw_buf q ! r in
      case result of
        None \<Rightarrow> (None, q)
      | Some v \<Rightarrow> (Some v, q\<lparr>mw_buf := (mw_buf q)[r := None], mw_ix := mw_next_r (mw_size q) (mw_ix q)\<rparr>))"

definition mw_enqueue :: "'a option \<Rightarrow> 'a mwsr \<Rightarrow> bool \<times> 'a mwsr" where
  "mw_enqueue v q =
     (if v = None then (False, q)
      else case mw_advance_w q of
             (None, q') \<Rightarrow> (False, q')
           | (Some loc, q') \<Rightarrow> (True, q'\<lparr>mw_buf := (mw_buf q')[loc := v]\<rparr>))"

definition mw_dequeue :: "'a mwsr \<Rightarrow> 'a option \<times> 'a mwsr" where
  "mw_dequeue q = mw_advance_r q"

definition mw_front :: "'a mwsr \<Rightarrow> 'a option" where
  "mw_front q = mw_buf q ! unat (rindex (mw_ix q))"

definition mwsr_api :: "('a, 'a mwsr) queue_api" where
  "mwsr_api = \<lparr>q_enqueue = mw_enqueue, q_dequeue = mw_dequeue, q_isFull = mw_isFull,
     q_isEmpty = mw_isEmpty, q_capacity = mw_capacity, q_size = mw_count, q_clear = mw_clear\<rparr>"

section \<open>Invariant and contents\<close>

abbreviation mw_r :: "'a mwsr \<Rightarrow> nat" where "mw_r q \<equiv> unat (rindex (mw_ix q))"
abbreviation mw_w :: "'a mwsr \<Rightarrow> nat" where "mw_w q \<equiv> unat (windex (mw_ix q))"
abbreviation mw_dist :: "'a mwsr \<Rightarrow> nat" where "mw_dist q \<equiv> ring_dist (mw_size q) (mw_r q) (mw_w q)"

definition mw_slots :: "'a mwsr \<Rightarrow> nat list" where
  "mw_slots q = ring_slots (mw_size q) (mw_r q) (mw_dist q)"

definition mw_elems :: "'a mwsr \<Rightarrow> 'a list" where
  "mw_elems q = map (\<lambda>i. the (mw_buf q ! i)) (mw_slots q)"

definition mw_inv :: "'a mwsr \<Rightarrow> bool" where
  "mw_inv q \<longleftrightarrow>
     0 < mw_size q \<and> mw_size q \<le> 65536 \<and> length (mw_buf q) = mw_size q \<and>
     mw_r q < mw_size q \<and> mw_w q < mw_size q \<and>
     (\<forall>i < mw_size q. mw_buf q ! i \<noteq> None \<longleftrightarrow> i \<in> set (mw_slots q))"

lemma length_mw_elems [simp]: "length (mw_elems q) = mw_dist q"
  by (simp add: mw_elems_def mw_slots_def)

lemma mw_count_dist: "mw_inv q \<Longrightarrow> mw_count q = mw_dist q"
  unfolding mw_count_def Let_def by (rule count_dist) (auto simp: mw_inv_def)

lemma mw_dist_le: "mw_inv q \<Longrightarrow> mw_dist q \<le> mw_capacity q"
  using ring_dist_less [of "mw_r q" "mw_size q" "mw_w q"] by (auto simp: mw_inv_def mw_capacity_def)

lemma mw_isFull_dist: "mw_inv q \<Longrightarrow> mw_isFull q \<longleftrightarrow> mw_dist q = mw_capacity q"
  by (simp add: mw_inv_def mw_isFull_def mw_capacity_def ring_full_dist)

lemma mw_isEmpty_dist: "mw_inv q \<Longrightarrow> mw_isEmpty q \<longleftrightarrow> mw_dist q = 0"
  by (auto simp: mw_inv_def mw_isEmpty_def word_unat_eq_iff)

lemma mw_clear_inv:
  assumes "0 < mw_size q" and "mw_size q \<le> 65536" and "length (mw_buf q) = mw_size q"
  shows "mw_inv (mw_clear q) \<and> mw_elems (mw_clear q) = [] \<and> mw_capacity (mw_clear q) = mw_capacity q"
  using assms
  by (auto simp: mw_inv_def mw_clear_def mw_elems_def mw_slots_def ring_slots_def mw_capacity_def)

lemma mw_new_inv:
  "sz < 65536 \<Longrightarrow> mw_inv (mw_new g sz) \<and> mw_elems (mw_new g sz) = [] \<and> mw_capacity (mw_new g sz) = sz"
  unfolding mw_new_def
  using mw_clear_inv [of "\<lparr>mw_size = sz + 1, mw_buf = replicate (sz + 1) g, mw_ix = \<lparr>windex = 0, rindex = 0\<rparr>\<rparr>"]
  by (simp add: mw_capacity_def)

lemma mw_enqueue_full:
  "mw_inv q \<Longrightarrow> mw_dist q = mw_capacity q \<Longrightarrow> mw_enqueue (Some x) q = (False, q)"
  using mw_isFull_dist [of q]
  by (simp add: mw_enqueue_def mw_advance_w_def mw_isFull_def Let_def)

lemma mw_enqueue_room:
  assumes inv: "mw_inv q" and room: "mw_dist q < mw_capacity q"
  obtains q' where "mw_enqueue (Some x) q = (True, q')" and "mw_inv q'"
    and "mw_elems q' = mw_elems q @ [x]" and "mw_capacity q' = mw_capacity q"
proof -
  let ?n = "mw_size q" and ?w = "mw_w q" and ?r = "mw_r q"
  let ?q = "q\<lparr>mw_buf := (mw_buf q)[?w := Some x], mw_ix := mw_next_w ?n (mw_ix q)\<rparr>"
  have bnd: "?w < ?n" "?r < ?n" "?n \<le> 65536" "length (mw_buf q) = ?n"
    and occ: "\<And>i. i < ?n \<Longrightarrow> mw_buf q ! i \<noteq> None \<longleftrightarrow> i \<in> set (mw_slots q)"
    using inv by (auto simp: mw_inv_def)
  have w': "mw_w ?q = Suc ?w mod ?n" and r': "mw_r ?q = ?r" using bnd by (auto simp: mw_next_w_def)
  have dist: "mw_dist ?q = Suc (mw_dist q)"
    using ring_dist_advance_w [of ?r ?n ?w] room bnd w' r' by (simp add: mw_capacity_def)
  have w: "?w = (?r + mw_dist q) mod ?n" using ring_dist_end [of ?r ?n ?w] bnd by simp
  have slots: "mw_slots ?q = mw_slots q @ [?w]"
    using dist r' w by (simp add: mw_slots_def ring_slots_Suc)
  have fresh: "?w \<notin> set (mw_slots q)"
    using ring_slots_fresh [of "mw_dist q" ?n ?r] room w by (simp add: mw_slots_def mw_capacity_def)
  have "mw_enqueue (Some x) q = (True, ?q)"
    using mw_isFull_dist [OF inv] room
    by (simp add: mw_enqueue_def mw_advance_w_def mw_isFull_def Let_def)
  moreover have "mw_inv ?q"
    using inv w' r' slots bnd occ by (auto simp: mw_inv_def nth_list_update)
  moreover have "mw_elems ?q = mw_elems q @ [x]"
    using fresh bnd by (simp add: mw_elems_def slots)
  ultimately show ?thesis by (intro that [of ?q]) (auto simp: mw_capacity_def)
qed

lemma mw_dequeue_empty:
  assumes inv: "mw_inv q" and "mw_elems q = []"
  shows "mw_dequeue q = (None, q)"
proof -
  from assms have "mw_slots q = []" by (simp add: mw_elems_def)
  with inv have "mw_buf q ! mw_r q = None" by (fastforce simp: mw_inv_def)
  then show ?thesis by (simp add: mw_dequeue_def mw_advance_r_def Let_def)
qed

lemma mw_dequeue_first:
  assumes inv: "mw_inv q" and elems: "mw_elems q = x # xs"
  obtains q' where "mw_dequeue q = (Some x, q')" and "mw_inv q'"
    and "mw_elems q' = xs" and "mw_capacity q' = mw_capacity q"
proof -
  let ?n = "mw_size q" and ?w = "mw_w q" and ?r = "mw_r q"
  let ?q = "q\<lparr>mw_buf := (mw_buf q)[?r := None], mw_ix := mw_next_r ?n (mw_ix q)\<rparr>"
  have bnd: "?w < ?n" "?r < ?n" "?n \<le> 65536" "length (mw_buf q) = ?n"
    and occ: "\<And>i. i < ?n \<Longrightarrow> mw_buf q ! i \<noteq> None \<longleftrightarrow> i \<in> set (mw_slots q)"
    using inv by (auto simp: mw_inv_def)
  have r': "mw_r ?q = Suc ?r mod ?n" and w': "mw_w ?q = ?w" using bnd by (auto simp: mw_next_r_def)
  have pos: "0 < mw_dist q" using elems length_mw_elems [of q] by (metis length_greater_0_conv list.simps(3))
  have dist: "mw_dist ?q = mw_dist q - 1"
    using ring_dist_advance_r [of ?r ?n ?w] pos bnd w' r' by simp
  have slots: "mw_slots q = ?r # mw_slots ?q"
    using pos dist r' ring_slots_Cons [OF bnd(2), of "mw_dist q - 1"] by (simp add: mw_slots_def)
  have fresh: "?r \<notin> set (mw_slots ?q)"
    using ring_slots_distinct [of "mw_dist q" ?n ?r] ring_dist_less [of ?r ?n ?w] slots bnd
    by (simp add: mw_slots_def)
  have "mw_buf q ! ?r \<noteq> None" using occ bnd slots by simp
  then obtain v where v: "mw_buf q ! ?r = Some v" by auto
  with elems slots have "v = x" by (simp add: mw_elems_def)
  with v have "mw_dequeue q = (Some x, ?q)" by (simp add: mw_dequeue_def mw_advance_r_def Let_def)
  moreover have "mw_inv ?q"
    using inv w' r' slots bnd occ fresh by (auto simp: mw_inv_def nth_list_update)
  moreover have "mw_elems ?q = xs" using elems slots fresh by (simp add: mw_elems_def)
  ultimately show ?thesis by (intro that [of ?q]) (auto simp: mw_capacity_def)
qed

section \<open>The contract of the queue\<close>

interpretation mwsr: bounded_fifo mwsr_api mw_elems mw_inv
proof unfold_locales
  fix q :: "'a mwsr" and x :: 'a and xs :: "'a list"
  show "mw_inv q \<Longrightarrow> length (mw_elems q) \<le> q_capacity mwsr_api q"
    by (simp add: mwsr_api_def mw_dist_le)
  show "q_enqueue mwsr_api None q = (False, q)" by (simp add: mwsr_api_def mw_enqueue_def)
  show "mw_inv q \<Longrightarrow> length (mw_elems q) < q_capacity mwsr_api q \<Longrightarrow>
    \<exists>q'. q_enqueue mwsr_api (Some x) q = (True, q') \<and> mw_inv q' \<and> mw_elems q' = mw_elems q @ [x] \<and>
         q_capacity mwsr_api q' = q_capacity mwsr_api q"
    by (simp add: mwsr_api_def) (metis mw_enqueue_room)
  show "mw_inv q \<Longrightarrow> mw_elems q = x # xs \<Longrightarrow>
    \<exists>q'. q_dequeue mwsr_api q = (Some x, q') \<and> mw_inv q' \<and> mw_elems q' = xs \<and>
         q_capacity mwsr_api q' = q_capacity mwsr_api q"
    by (simp add: mwsr_api_def) (metis mw_dequeue_first)
  show "mw_inv q \<Longrightarrow> q_isEmpty mwsr_api q \<longleftrightarrow> mw_elems q = []"
    by (simp add: mwsr_api_def mw_isEmpty_dist flip: length_0_conv)
  show "mw_inv q \<Longrightarrow> mw_inv (q_clear mwsr_api q) \<and> mw_elems (q_clear mwsr_api q) = [] \<and>
    q_capacity mwsr_api (q_clear mwsr_api q) = q_capacity mwsr_api q"
    using mw_clear_inv [of q] by (simp add: mwsr_api_def mw_inv_def)
qed (auto simp: mwsr_api_def mw_enqueue_full mw_dequeue_empty mw_count_dist mw_isFull_dist)

section \<open>Properties\<close>

text \<open>C24: a multi-writer single-reader queue of up to 65535 pointers is first-in first-out: no
  sequence of calls of \<^verbatim>\<open>enqueue\<close>, \<^verbatim>\<open>dequeue\<close>, \<^verbatim>\<open>isFull\<close>, \<^verbatim>\<open>isEmpty\<close>, \<^verbatim>\<open>capacity\<close>, \<^verbatim>\<open>size\<close> and
  \<^verbatim>\<open>clear\<close> made on a new queue can be told from the same calls on a list that holds at most
  \<open>sz\<close> elements, however often the 16 bit indices wrap.\<close>

theorem mwsr_behaves_as_list:
  assumes "sz < 65536"
  shows "fst (queue_run mwsr_api cs (mw_new g sz)) = fst (queue_run (list_queue sz) cs [])"
  using mwsr.run_refines [of "mw_new g sz" sz cs] mw_new_inv [OF assms, of g]
  by (simp add: mwsr_api_def)

theorem mwsr_behaves_as_list_witness:
  "fst (queue_run mwsr_api
          [Enqueue (Some 5), Enqueue (Some 6), Enqueue (Some 7), Dequeue, QSize, Enqueue None]
          (mw_new None 2)) =
   [Flag True, Flag True, Flag False, Popped (Some (5::nat)), Count 1, Flag False]"
proof -
  have "(2::nat) < 65536" by simp
  show ?thesis
    unfolding mwsr_behaves_as_list [OF \<open>2 < 65536\<close>] by (simp add: list_queue_def)
qed

text \<open>A ring of more than 65536 slots is beyond the reach of the 16 bit indices: the write
  index wraps before the ring is full, and the queue that has just accepted its 65536th pointer
  reports that it is empty.\<close>

lemma mwsr_too_large:
  fixes q :: "'a mwsr"
  assumes "mw_size q = 65537" and "length (mw_buf q) = 65537"
    and "mw_ix q = \<lparr>windex = 65535, rindex = 0\<rparr>"
  shows "fst (mw_enqueue (Some x) q) \<and> mw_isEmpty (snd (mw_enqueue (Some x) q))"
  using assms
  by (simp add: mw_enqueue_def mw_advance_w_def ring_full_def mw_next_w_def index_advance_def
      mw_isEmpty_def Let_def)

end
