(* ===== verification/MWSRQueueConc.thy ===== *)
theory MWSRQueueConc
  imports MWSRQueue
begin

text \<open>
  \<^verbatim>\<open>AtomicMWSRQueue\<close> used as it is meant to be: any number of writer threads call
  \<^verbatim>\<open>enqueue\<close> while one reader thread calls \<^verbatim>\<open>dequeue\<close>. Every access to the packed
  index word and to a slot of the ring is a step of its own. A writer first claims a slot by
  advancing the write index and stores its pointer later; the reader may meet a claimed slot
  that is still empty and then reports an empty queue.

  Two histories are kept for the specification and are not part of the program:
  \<open>claimed\<close>, the pointers in the order in which the writers claimed slots for them, and
  \<open>taken\<close>, the pointers that calls of \<^verbatim>\<open>dequeue\<close> have delivered. The third component of
  \<open>WClaimed\<close> is the position of the claim in that history.
\<close>

section \<open>Threads and steps\<close>

datatype 'a writer_pc =
    WIdle
  | WLoop 'a                \<comment> \<open>top of the loop of \<open>advance_w\<close>\<close>
  | WRead 'a indexes        \<comment> \<open>has read \<open>oldval\<close>\<close>
  | WClaimed 'a nat nat     \<comment> \<open>owns the slot, has not stored yet\<close>

datatype 'a reader_pc =
    RIdle
  | RRead nat               \<comment> \<open>has read \<open>oldval._index[1]\<close>\<close>
  | RGot nat 'a             \<comment> \<open>has read a pointer from the slot\<close>
  | RCleared 'a             \<comment> \<open>has cleared the slot, top of the second loop\<close>
  | RAdvance 'a indexes     \<comment> \<open>has re-read the indices\<close>

record 'a mw_sys =
  mwq :: "'a mwsr"
  writers :: "nat \<Rightarrow> 'a writer_pc"
  reader :: "'a reader_pc"
  claimed :: "'a list"
  taken :: "'a list"

definition cas_ix :: "indexes \<Rightarrow> indexes \<Rightarrow> 'a mwsr \<Rightarrow> bool \<times> 'a mwsr" where
  "cas_ix old new q = (if mw_ix q = old then (True, q\<lparr>mw_ix := new\<rparr>) else (False, q))"

definition mw_init :: "nat \<Rightarrow> 'a mw_sys \<Rightarrow> bool" where
  "mw_init sz s \<longleftrightarrow> mwq s = mw_new None sz \<and> writers s = (\<lambda>_. WIdle) \<and> reader s = RIdle \<and>
                   claimed s = [] \<and> taken s = []"

inductive mw_step :: "'a mw_sys \<Rightarrow> 'a mw_sys \<Rightarrow> bool" where
  w_call: "writers s t = WIdle \<Longrightarrow> mw_step s (s\<lparr>writers := (writers s)(t := WLoop v)\<rparr>)"
| w_read: "writers s t = WLoop v \<Longrightarrow>
    mw_step s (s\<lparr>writers := (writers s)(t := WRead v (mw_ix (mwq s)))\<rparr>)"
| w_full: "writers s t = WRead v old \<Longrightarrow> ring_full (mw_size (mwq s)) old \<Longrightarrow>
    mw_step s (s\<lparr>writers := (writers s)(t := WIdle)\<rparr>)"
| w_cas: "writers s t = WRead v old \<Longrightarrow> \<not> ring_full (mw_size (mwq s)) old \<Longrightarrow>
    cas_ix old (mw_next_w (mw_size (mwq s)) old) (mwq s) = (True, q) \<Longrightarrow>
    mw_step s
      (s\<lparr>mwq := q,
         writers := (writers s)(t := WClaimed v (unat (windex old)) (length (claimed s))),
         claimed := claimed s @ [v]\<rparr>)"
| w_retry: "writers s t = WRead v old \<Longrightarrow> \<not> ring_full (mw_size (mwq s)) old \<Longrightarrow>
    cas_ix old (mw_next_w (mw_size (mwq s)) old) (mwq s) = (False, q) \<Longrightarrow>
    mw_step s (s\<lparr>writers := (writers s)(t := WLoop v)\<rparr>)"
| w_store: "writers s t = WClaimed v loc k \<Longrightarrow>
    mw_step s
      (s\<lparr>mwq := (mwq s)\<lparr>mw_buf := (mw_buf (mwq s))[loc := Some v]\<rparr>,
         writers := (writers s)(t := WIdle)\<rparr>)"
| r_call: "reader s = RIdle \<Longrightarrow> mw_step s (s\<lparr>reader := RRead (mw_r (mwq s))\<rparr>)"
| r_none: "reader s = RRead r \<Longrightarrow> mw_buf (mwq s) ! r = None \<Longrightarrow> mw_step s (s\<lparr>reader := RIdle\<rparr>)"
| r_got: "reader s = RRead r \<Longrightarrow> mw_buf (mwq s) ! r = Some v \<Longrightarrow>
    mw_step s (s\<lparr>reader := RGot r v\<rparr>)"
| r_clear: "reader s = RGot r v \<Longrightarrow>
    mw_step s
      (s\<lparr>mwq := (mwq s)\<lparr>mw_buf := (mw_buf (mwq s))[r := None]\<rparr>, reader := RCleared v\<rparr>)"
| r_reread: "reader s = RCleared v \<Longrightarrow> mw_step s (s\<lparr>reader := RAdvance v (mw_ix (mwq s))\<rparr>)"
| r_cas: "reader s = RAdvance v old \<Longrightarrow>
    cas_ix old (mw_next_r (mw_size (mwq s)) old) (mwq s) = (True, q) \<Longrightarrow>
    mw_step s (s\<lparr>mwq := q, reader := RIdle, taken := taken s @ [v]\<rparr>)"
| r_retry: "reader s = RAdvance v old \<Longrightarrow>
    cas_ix old (mw_next_r (mw_size (mwq s)) old) (mwq s) = (False, q) \<Longrightarrow>
    mw_step s (s\<lparr>reader := RCleared v\<rparr>)"

section \<open>The invariant\<close>

text \<open>Positions in the history \<open>claimed\<close> from \<open>length taken\<close> on are in the ring, position
  \<open>k\<close> in slot \<open>k mod n\<close>. The slot holds the pointer unless its writer has not stored it yet, or
  the reader has removed it and not yet moved the read index.\<close>

fun clearing :: "'a reader_pc \<Rightarrow> bool" where
  "clearing (RCleared v) = True"
| "clearing (RAdvance v old) = True"
| "clearing _ = False"

fun claims :: "'a writer_pc \<Rightarrow> nat \<Rightarrow> bool" where
  "claims (WClaimed v loc k') k = (k' = k)"
| "claims _ k = False"

abbreviation n_claimed :: "'a mw_sys \<Rightarrow> nat" where "n_claimed s \<equiv> length (claimed s)"
abbreviation n_taken :: "'a mw_sys \<Rightarrow> nat" where "n_taken s \<equiv> length (taken s)"
abbreviation n_slots :: "'a mw_sys \<Rightarrow> nat" where "n_slots s \<equiv> mw_size (mwq s)"

definition mw_shape :: "'a mw_sys \<Rightarrow> bool" where
  "mw_shape s \<longleftrightarrow>
     0 < n_slots s \<and> n_slots s \<le> 65536 \<and> length (mw_buf (mwq s)) = n_slots s \<and>
     mw_w (mwq s) = n_claimed s mod n_slots s \<and> mw_r (mwq s) = n_taken s mod n_slots s \<and>
     n_taken s \<le> n_claimed s \<and> n_claimed s < n_taken s + n_slots s \<and>
     taken s = take (n_taken s) (claimed s)"

definition in_flight :: "'a mw_sys \<Rightarrow> nat \<Rightarrow> bool" where
  "in_flight s k \<longleftrightarrow> (\<exists>t. claims (writers s t) k) \<or> (k = n_taken s \<and> clearing (reader s))"

definition slot_value :: "'a mw_sys \<Rightarrow> nat \<Rightarrow> 'a option" where
  "slot_value s k = (if k < n_claimed s \<and> \<not> in_flight s k then Some (claimed s ! k) else None)"

definition mw_ring :: "'a mw_sys \<Rightarrow> bool" where
  "mw_ring s \<longleftrightarrow>
     (\<forall>k. n_taken s \<le> k \<and> k < n_taken s + n_slots s \<longrightarrow>
          mw_buf (mwq s) ! (k mod n_slots s) = slot_value s k)"

fun writer_ok :: "'a mw_sys \<Rightarrow> 'a writer_pc \<Rightarrow> bool" where
  "writer_ok s (WClaimed v loc k) \<longleftrightarrow>
     n_taken s \<le> k \<and> k < n_claimed s \<and> v = claimed s ! k \<and> loc = k mod n_slots s \<and>
     (k = n_taken s \<longrightarrow> \<not> clearing (reader s))"
| "writer_ok s _ \<longleftrightarrow> True"

definition mw_writers_ok :: "'a mw_sys \<Rightarrow> bool" where
  "mw_writers_ok s \<longleftrightarrow>
     (\<forall>t. writer_ok s (writers s t)) \<and>
     (\<forall>t u k. claims (writers s t) k \<and> claims (writers s u) k \<longrightarrow> t = u)"

fun mw_reader_ok :: "'a mw_sys \<Rightarrow> 'a reader_pc \<Rightarrow> bool" where
  "mw_reader_ok s RIdle = True"
| "mw_reader_ok s (RRead r) = (r = length (taken s) mod mw_size (mwq s))"
| "mw_reader_ok s (RGot r v) =
     (r = length (taken s) mod mw_size (mwq s) \<and> length (taken s) < length (claimed s) \<and>
      v = claimed s ! length (taken s) \<and> \<not> in_flight s (length (taken s)))"
| "mw_reader_ok s (RCleared v) =
     (length (taken s) < length (claimed s) \<and> v = claimed s ! length (taken s))"
| "mw_reader_ok s (RAdvance v old) =
     (length (taken s) < length (claimed s) \<and> v = claimed s ! length (taken s))"

definition mw_conc_inv :: "'a mw_sys \<Rightarrow> bool" where
  "mw_conc_inv s \<longleftrightarrow> mw_shape s \<and> mw_ring s \<and> mw_writers_ok s \<and> mw_reader_ok s (reader s)"

section \<open>Every step keeps the invariant\<close>

lemma mod_range_inj:
  fixes n :: nat
  assumes "k mod n = l mod n" and "R \<le> k" "k < R + n" and "R \<le> l" "l < R + n"
  shows "k = l"
proof -
  have "(R + (k - R)) mod n = (R + (l - R)) mod n" and "k - R < n" and "l - R < n"
    using assms by auto
  then have "k - R = l - R" by (rule ring_slot_inj)
  with assms show ?thesis by simp
qed

text \<open>The claims seen from one writer: its own and those of the others.\<close>

lemma claims_upd:
  "(\<exists>u. claims ((ws(t := q)) u) k) \<longleftrightarrow> claims q k \<or> (\<exists>u. u \<noteq> t \<and> claims (ws u) k)"
  by (metis fun_upd_other fun_upd_same)

lemma claims_split:
  "(\<exists>u. claims (ws u) k) \<longleftrightarrow> claims (ws t) k \<or> (\<exists>u. u \<noteq> t \<and> claims (ws u) k)"
  by metis

lemma in_flight_writer_goto:
  assumes "\<And>k. \<not> claims (writers s t) k" and "\<And>k. \<not> claims q k"
  shows "in_flight (s\<lparr>writers := (writers s)(t := q)\<rparr>) k = in_flight s k"
  using assms claims_split [of "writers s" k t]
  by (simp add: in_flight_def claims_upd del: fun_upd_apply)

lemma writer_ok_cong:
  assumes "n_taken s' = n_taken s" and "n_claimed s \<le> n_claimed s'" and "n_slots s' = n_slots s"
    and "\<And>k. k < n_claimed s \<Longrightarrow> claimed s' ! k = claimed s ! k"
    and "clearing (reader s') = clearing (reader s)"
  shows "writer_ok s q \<Longrightarrow> writer_ok s' q"
  using assms by (cases q) auto

lemma inv_writer_goto:
  assumes inv: "mw_conc_inv s" and "\<And>k. \<not> claims (writers s t) k" and nc: "\<And>k. \<not> claims q k"
  shows "mw_conc_inv (s\<lparr>writers := (writers s)(t := q)\<rparr>)" (is "mw_conc_inv ?s")
proof -
  have fl: "in_flight ?s k = in_flight s k" for k using assms(2,3) by (rule in_flight_writer_goto)
  have ok: "writer_ok ?s p" if "writer_ok s p" for p using that by (cases p) auto
  have "writer_ok ?s q" using nc by (cases q) auto
  with inv ok nc have "mw_writers_ok ?s" by (auto simp: mw_conc_inv_def mw_writers_ok_def)
  moreover have "mw_reader_ok ?s (reader s)"
    using inv by (cases "reader s") (auto simp: mw_conc_inv_def fl)
  ultimately show ?thesis
    using inv by (simp add: mw_conc_inv_def mw_shape_def mw_ring_def slot_value_def fl)
qed

lemma inv_reader_goto:
  assumes inv: "mw_conc_inv s" and cl: "clearing q = clearing (reader s)" and ok: "mw_reader_ok s q"
  shows "mw_conc_inv (s\<lparr>reader := q\<rparr>)" (is "mw_conc_inv ?s")
proof -
  have fl: "in_flight ?s k = in_flight s k" for k using cl by (simp add: in_flight_def)
  have "mw_reader_ok ?s q" using ok fl [of "n_taken s"] by (cases q) auto
  moreover have "writer_ok ?s p" if "writer_ok s p" for p
    using that cl by (intro writer_ok_cong [OF _ _ _ _ _ that]) auto
  ultimately show ?thesis
    using inv by (simp add: mw_conc_inv_def mw_shape_def mw_ring_def slot_value_def fl mw_writers_ok_def)
qed

lemma shape_dist:
  assumes "mw_shape s"
  shows "mw_dist (mwq s) = n_claimed s - n_taken s"
proof -
  let ?n = "n_slots s" and ?W = "n_claimed s" and ?R = "n_taken s"
  have sh: "0 < ?n" "?R \<le> ?W" "?W < ?R + ?n"
    and eq: "mw_dist (mwq s) = ring_dist ?n (?R mod ?n) (?W mod ?n)"
    using assms by (auto simp: mw_shape_def)
  have "(?R mod ?n + ring_dist ?n (?R mod ?n) (?W mod ?n)) mod ?n = ?W mod ?n"
    using sh by (intro ring_dist_end) auto
  also have "\<dots> = (?R mod ?n + (?W - ?R)) mod ?n"
    using sh(2) by (simp only: mod_add_left_eq le_add_diff_inverse)
  finally have "ring_dist ?n (?R mod ?n) (?W mod ?n) = ?W - ?R"
    using sh by (elim ring_slot_inj) (auto simp: ring_dist_less)
  with eq show ?thesis by simp
qed

lemma inv_w_cas:
  assumes inv: "mw_conc_inv s" and pc: "writers s t = WRead v old"
    and room: "\<not> ring_full (n_slots s) old"
    and cas: "cas_ix old (mw_next_w (n_slots s) old) (mwq s) = (True, q)"
  shows "mw_conc_inv
      (s\<lparr>mwq := q,
         writers := (writers s)(t := WClaimed v (unat (windex old)) (length (claimed s))),
         claimed := claimed s @ [v]\<rparr>)" (is "mw_conc_inv ?s")
proof -
  let ?n = "n_slots s" and ?W = "n_claimed s" and ?R = "n_taken s"
  from cas have old: "old = mw_ix (mwq s)" and q: "q = (mwq s)\<lparr>mw_ix := mw_next_w ?n old\<rparr>"
    by (auto simp: cas_ix_def split: if_splits)
  have sh: "mw_shape s" using inv by (simp add: mw_conc_inv_def)
  then have W: "Suc ?W < ?R + ?n"
    using room shape_dist [OF sh] old by (simp add: mw_shape_def ring_full_dist) linarith
  have shape: "mw_shape ?s"
    using sh W q old by (simp add: mw_shape_def mw_next_w_def mod_Suc_eq)
  have fl: "in_flight ?s k = (k = ?W \<or> in_flight s k)" for k
    using pc claims_split [of "writers s" k t]
    by (auto simp add: in_flight_def claims_upd simp del: fun_upd_apply)
  have "slot_value ?s k = slot_value s k" for k
    by (auto simp: slot_value_def fl nth_append)
  then have ring: "mw_ring ?s"
    using inv q by (simp add: mw_conc_inv_def mw_ring_def)
  have old_ok: "writer_ok s (writers s u)" for u
    using inv by (simp add: mw_conc_inv_def mw_writers_ok_def)
  have new: "writer_ok ?s (WClaimed v (unat (windex old)) ?W)"
    using sh W q old inv by (cases "reader s") (auto simp: mw_shape_def mw_conc_inv_def)
  have "writer_ok ?s (writers s u)" for u
    using old_ok [of u] q by (elim writer_ok_cong [rotated -1]) (auto simp: nth_append)
  moreover have "\<not> claims (writers s u) ?W" for u
    using old_ok [of u] by (cases "writers s u") auto
  ultimately have writers: "mw_writers_ok ?s"
    using inv new by (auto simp: mw_conc_inv_def mw_writers_ok_def)
  have "mw_reader_ok ?s (reader s)"
    using inv fl [of ?R] q by (cases "reader s") (auto simp: mw_conc_inv_def nth_append)
  with shape ring writers show ?thesis by (simp add: mw_conc_inv_def)
qed

lemma inv_w_store:
  assumes inv: "mw_conc_inv s" and pc: "writers s t = WClaimed v loc k"
  shows "mw_conc_inv
      (s\<lparr>mwq := (mwq s)\<lparr>mw_buf := (mw_buf (mwq s))[loc := Some v]\<rparr>,
         writers := (writers s)(t := WIdle)\<rparr>)" (is "mw_conc_inv ?s")
proof -
  have ok: "writer_ok s (writers s u)" for u
    using inv by (simp add: mw_conc_inv_def mw_writers_ok_def)
  from ok [of t] pc have k: "n_taken s \<le> k" "k < n_claimed s" "v = claimed s ! k"
      "loc = k mod n_slots s" "k = n_taken s \<longrightarrow> \<not> clearing (reader s)"
    by auto
  have uniq: "\<not> claims (writers s u) k" if "u \<noteq> t" for u
    using inv pc that unfolding mw_conc_inv_def mw_writers_ok_def by (metis claims.simps(1))
  have fl: "in_flight ?s j = (j \<noteq> k \<and> in_flight s j)" for j
    using pc k uniq claims_split [of "writers s" j t]
    by (auto simp add: in_flight_def claims_upd simp del: fun_upd_apply)
  have "mw_ring ?s"
    unfolding mw_ring_def
  proof (intro allI impI)
    fix j
    assume j: "n_taken ?s \<le> j \<and> j < n_taken ?s + n_slots ?s"
    have "k < n_taken s + n_slots s" using inv k by (simp add: mw_conc_inv_def mw_shape_def)
    then have "j mod n_slots s = k mod n_slots s \<longleftrightarrow> j = k"
      using mod_range_inj [of j "n_slots s" k "n_taken s"] j k by auto
    then have "mw_buf (mwq ?s) ! (j mod n_slots ?s) =
               (if j = k then Some v else mw_buf (mwq s) ! (j mod n_slots s))"
      using inv k(4) by (auto simp: mw_conc_inv_def mw_shape_def)
    also have "\<dots> = slot_value ?s j"
      unfolding slot_value_def fl using inv j k(2,3)
      by (auto simp: mw_conc_inv_def mw_ring_def slot_value_def)
    finally show "mw_buf (mwq ?s) ! (j mod n_slots ?s) = slot_value ?s j" .
  qed
  moreover have "writer_ok ?s p" if "writer_ok s p" for p using that by (cases p) auto
  then have "mw_writers_ok ?s"
    using inv by (auto simp: mw_conc_inv_def mw_writers_ok_def)
  moreover have "mw_reader_ok ?s (reader s)"
    using inv by (cases "reader s") (auto simp: mw_conc_inv_def fl)
  ultimately show ?thesis using inv by (simp add: mw_conc_inv_def mw_shape_def)
qed

lemma inv_r_got:
  assumes inv: "mw_conc_inv s" and pc: "reader s = RRead r" and v: "mw_buf (mwq s) ! r = Some v"
  shows "mw_conc_inv (s\<lparr>reader := RGot r v\<rparr>)"
proof (rule inv_reader_goto [OF inv])
  have r: "r = n_taken s mod n_slots s" using inv pc by (simp add: mw_conc_inv_def)
  have "mw_buf (mwq s) ! (n_taken s mod n_slots s) = slot_value s (n_taken s)"
    using inv by (simp add: mw_conc_inv_def mw_ring_def mw_shape_def)
  with v r show "mw_reader_ok s (RGot r v)" by (auto simp: slot_value_def split: if_splits)
qed (simp add: pc)

lemma inv_r_clear:
  assumes inv: "mw_conc_inv s" and pc: "reader s = RGot r v"
  shows "mw_conc_inv
      (s\<lparr>mwq := (mwq s)\<lparr>mw_buf := (mw_buf (mwq s))[r := None]\<rparr>, reader := RCleared v\<rparr>)"
    (is "mw_conc_inv ?s")
proof -
  let ?R = "n_taken s"
  from inv pc have r: "r = ?R mod n_slots s" and lt: "?R < n_claimed s"
    and v: "v = claimed s ! ?R" and nfl: "\<not> in_flight s ?R"
    by (auto simp: mw_conc_inv_def)
  have fl: "in_flight ?s j = (j = ?R \<or> in_flight s j)" for j
    using pc by (auto simp: in_flight_def)
  have "mw_ring ?s"
    unfolding mw_ring_def
  proof (intro allI impI)
    fix j
    assume j: "n_taken ?s \<le> j \<and> j < n_taken ?s + n_slots ?s"
    then have "j mod n_slots s = ?R mod n_slots s \<longleftrightarrow> j = ?R"
      using mod_range_inj [of j "n_slots s" ?R ?R] by auto
    then have "mw_buf (mwq ?s) ! (j mod n_slots ?s) =
               (if j = ?R then None else mw_buf (mwq s) ! (j mod n_slots s))"
      using inv r by (auto simp: mw_conc_inv_def mw_shape_def)
    also have "\<dots> = slot_value ?s j"
      unfolding slot_value_def fl using inv j
      by (auto simp: mw_conc_inv_def mw_ring_def slot_value_def)
    finally show "mw_buf (mwq ?s) ! (j mod n_slots ?s) = slot_value ?s j" .
  qed
  moreover have "writer_ok ?s (writers s u)" for u
  proof -
    have "writer_ok s (writers s u)" and "\<not> claims (writers s u) ?R"
      using inv nfl by (auto simp: mw_conc_inv_def mw_writers_ok_def in_flight_def)
    then show ?thesis by (cases "writers s u") auto
  qed
  then have "mw_writers_ok ?s" using inv by (simp add: mw_conc_inv_def mw_writers_ok_def)
  ultimately show ?thesis
    using inv lt v by (simp add: mw_conc_inv_def mw_shape_def)
qed

lemma inv_r_cas:
  assumes inv: "mw_conc_inv s" and pc: "reader s = RAdvance v old"
    and cas: "cas_ix old (mw_next_r (n_slots s) old) (mwq s) = (True, q)"
  shows "mw_conc_inv (s\<lparr>mwq := q, reader := RIdle, taken := taken s @ [v]\<rparr>)" (is "mw_conc_inv ?s")
proof -
  let ?R = "n_taken s"
  from cas have q: "q = (mwq s)\<lparr>mw_ix := mw_next_r (n_slots s) (mw_ix (mwq s))\<rparr>"
    by (auto simp: cas_ix_def split: if_splits)
  from inv pc have lt: "?R < n_claimed s" and v: "v = claimed s ! ?R"
    by (auto simp: mw_conc_inv_def)
  have sh: "mw_shape s" and ring: "mw_ring s" using inv by (auto simp: mw_conc_inv_def)
  have shape: "mw_shape ?s"
    using sh lt v q by (auto simp: mw_shape_def mw_next_r_def mod_Suc_eq take_Suc_conv_app_nth)
  have cl: "claims (writers s u) k \<Longrightarrow> k \<noteq> ?R" for u k
    using inv pc unfolding mw_conc_inv_def mw_writers_ok_def
    by (cases "writers s u") (auto dest: spec [of _ u])
  have fl: "in_flight ?s j = (j \<noteq> ?R \<and> in_flight s j)" for j
    using pc cl by (auto simp: in_flight_def)
  have "mw_ring ?s"
    unfolding mw_ring_def
  proof (intro allI impI)
    fix j
    assume j: "n_taken ?s \<le> j \<and> j < n_taken ?s + n_slots ?s"
    have "mw_buf (mwq ?s) ! (j mod n_slots ?s) = mw_buf (mwq s) ! (j mod n_slots s)"
      using q by simp
    also have "\<dots> = slot_value ?s j"
    proof (cases "j = ?R + n_slots s")
      case True
      have "in_flight s ?R" using pc by (simp add: in_flight_def)
      then have "mw_buf (mwq s) ! (?R mod n_slots s) = None"
        using ring sh by (simp add: mw_ring_def mw_shape_def slot_value_def)
      moreover have "\<not> j < n_claimed s" using sh True by (simp add: mw_shape_def)
      ultimately show ?thesis by (simp add: slot_value_def True)
    next
      case False
      with j q have "?R \<le> j \<and> j < ?R + n_slots s" and "j \<noteq> ?R" by auto
      then show ?thesis unfolding slot_value_def fl using ring
        by (simp add: mw_ring_def slot_value_def)
    qed
    finally show "mw_buf (mwq ?s) ! (j mod n_slots ?s) = slot_value ?s j" .
  qed
  moreover have "writer_ok ?s (writers s u)" for u
  proof -
    have "writer_ok s (writers s u)" using inv by (simp add: mw_conc_inv_def mw_writers_ok_def)
    with cl [of u] q show ?thesis by (cases "writers s u") force+
  qed
  then have "mw_writers_ok ?s" using inv by (simp add: mw_conc_inv_def mw_writers_ok_def)
  ultimately show ?thesis using shape by (simp add: mw_conc_inv_def)
qed

lemma mw_step_inv:
  assumes "mw_step s s'" and inv: "mw_conc_inv s"
  shows "mw_conc_inv s'"
  using assms(1)
proof cases
  case (r_call)
  moreover have "mw_r (mwq s) = n_taken s mod n_slots s"
    using inv by (simp add: mw_conc_inv_def mw_shape_def)
  ultimately show ?thesis using inv by (auto intro!: inv_reader_goto)
next
  case (r_reread v)
  then have "mw_reader_ok s (RCleared v)" using inv by (simp add: mw_conc_inv_def)
  with r_reread show ?thesis using inv by (auto intro!: inv_reader_goto)
next
  case (r_retry v old q)
  then have "mw_reader_ok s (RAdvance v old)" using inv by (simp add: mw_conc_inv_def)
  with r_retry show ?thesis using inv by (auto intro!: inv_reader_goto)
qed (auto intro!: inv_writer_goto inv_reader_goto inv_w_cas inv_w_store inv_r_got inv_r_clear inv_r_cas inv)

lemma mw_init_inv:
  assumes "mw_init sz s" and "sz < 65536"
  shows "mw_conc_inv s"
  using assms
  by (auto simp: mw_init_def mw_conc_inv_def mw_shape_def mw_ring_def mw_writers_ok_def
      slot_value_def mw_new_def mw_clear_def)

interpretation mwsr_threads:
  invariant_of "\<lambda>s. \<exists>sz < 65536. mw_init sz s" mw_step mw_conc_inv
  by unfold_locales (auto intro: mw_init_inv mw_step_inv)

lemma reachable_mw_inv:
  assumes "sz < 65536" and "reachable (mw_init sz) mw_step s"
  shows "mw_conc_inv s"
  by (rule mwsr_threads.reachable_inv, rule reachable_weaken [OF assms(2)]) (use assms(1) in blast)

lemma mw_step_size: "mw_step s s' \<Longrightarrow> mw_size (mwq s') = mw_size (mwq s)"
  by (induction rule: mw_step.induct) (auto simp: cas_ix_def split: if_splits)

lemma reachable_mw_size: "reachable (mw_init sz) mw_step s \<Longrightarrow> mw_size (mwq s) = Suc sz"
  by (induction rule: reachable.induct)
    (auto simp: mw_step_size mw_init_def mw_new_def mw_clear_def)

section \<open>Properties\<close>

definition quiescent :: "'a mw_sys \<Rightarrow> bool" where
  "quiescent s \<longleftrightarrow> (\<forall>t k. \<not> claims (writers s t) k) \<and> \<not> clearing (reader s)"

lemma mw_slots_claimed:
  assumes "mw_shape s"
  shows "mw_slots (mwq s) = map (\<lambda>k. k mod n_slots s) [n_taken s..<n_claimed s]"
proof -
  have "mw_slots (mwq s) =
        map (\<lambda>j. (n_taken s + j) mod n_slots s) [0..<n_claimed s - n_taken s]"
    using assms shape_dist [OF assms]
    by (simp add: mw_slots_def ring_slots_def mw_shape_def mod_simps)
  also have "\<dots> = map (\<lambda>k. k mod n_slots s) (map (\<lambda>j. n_taken s + j) [0..<n_claimed s - n_taken s])"
    by simp
  also have "map (\<lambda>j. n_taken s + j) [0..<n_claimed s - n_taken s] = [n_taken s..<n_claimed s]"
    using assms map_add_upt [of "n_taken s" "n_claimed s - n_taken s"]
    by (simp add: mw_shape_def add.commute)
  finally show ?thesis .
qed

lemma quiescent_queue:
  assumes inv: "mw_conc_inv s" and quiet: "quiescent s"
  shows "mw_inv (mwq s) \<and> mw_elems (mwq s) = drop (n_taken s) (claimed s)"
proof -
  let ?n = "n_slots s" and ?R = "n_taken s" and ?W = "n_claimed s"
  have sh: "mw_shape s" using inv by (simp add: mw_conc_inv_def)
  have "\<not> in_flight s k" for k using quiet by (auto simp: quiescent_def in_flight_def)
  then have buf: "mw_buf (mwq s) ! (k mod ?n) = (if k < ?W then Some (claimed s ! k) else None)"
    if "?R \<le> k" "k < ?R + ?n" for k
    using inv that by (simp add: mw_conc_inv_def mw_ring_def slot_value_def)
  have occ: "mw_buf (mwq s) ! i \<noteq> None \<longleftrightarrow> i \<in> set (mw_slots (mwq s))" if i: "i < ?n" for i
  proof -
    obtain j where "j < ?n" and "(?R mod ?n + j) mod ?n = i"
      using ring_slot_exists [OF i, of "?R mod ?n"] i by auto
    then have k: "?R \<le> ?R + j" "?R + j < ?R + ?n" "(?R + j) mod ?n = i" by (auto simp: mod_simps)
    have "i \<in> set (mw_slots (mwq s)) \<longleftrightarrow> ?R + j < ?W"
    proof
      assume "i \<in> set (mw_slots (mwq s))"
      then obtain l where l: "?R \<le> l" "l < ?W" "l mod ?n = i"
        by (auto simp: mw_slots_claimed [OF sh])
      with sh k have "l = ?R + j" by (intro mod_range_inj [of l ?n "?R + j" ?R]) (auto simp: mw_shape_def)
      with l show "?R + j < ?W" by simp
    qed (use k in \<open>auto simp: mw_slots_claimed [OF sh] image_iff intro!: bexI [of _ "?R + j"]\<close>)
    with buf [OF k(1,2)] k(3) show ?thesis by simp
  qed
  have "mw_elems (mwq s) = map (\<lambda>k. the (mw_buf (mwq s) ! (k mod ?n))) [?R..<?W]"
    by (simp add: mw_elems_def mw_slots_claimed [OF sh])
  also have "\<dots> = map (\<lambda>k. claimed s ! k) [?R..<?W]"
    using buf sh by (intro map_cong) (auto simp: mw_shape_def)
  also have "\<dots> = drop ?R (claimed s)" by (rule nth_equalityI) auto
  finally show ?thesis
    using sh occ by (auto simp: mw_inv_def mw_shape_def)
qed

text \<open>A run: writer 0 has claimed a slot for pointer 7 in a queue of capacity 1.\<close>

definition mw_demo0 :: "nat mw_sys" where
  "mw_demo0 = \<lparr>mwq = mw_new None 1, writers = (\<lambda>_. WIdle), reader = RIdle, claimed = [], taken = []\<rparr>"

definition mw_demo :: "nat mw_sys" where
  "mw_demo = mw_demo0\<lparr>mwq := (mw_new None 1)\<lparr>mw_ix := \<lparr>windex = 1, rindex = 0\<rparr>\<rparr>,
     writers := (\<lambda>_. WIdle)(0 := WClaimed 7 0 0), claimed := [7]\<rparr>"

lemma mw_demo_claimed: "writers mw_demo 0 = WClaimed 7 0 0" "claimed mw_demo = [7]"
  by (simp_all add: mw_demo_def)

lemma mw_demo_reachable: "reachable (mw_init 1) mw_step mw_demo"
proof -
  let ?ix = "\<lparr>windex = 0, rindex = 0\<rparr> :: indexes"
  let ?at = "\<lambda>q. mw_demo0\<lparr>writers := (\<lambda>_. WIdle)(0 := q)\<rparr>"
  have "reachable (mw_init 1) mw_step mw_demo0"
    by (rule reachable_init) (simp add: mw_init_def mw_demo0_def)
  then have "reachable (mw_init 1) mw_step (?at (WLoop 7))"
    by (rule reachable_step) (use w_call [of mw_demo0 0 7] in \<open>simp add: mw_demo0_def\<close>)
  then have "reachable (mw_init 1) mw_step (?at (WRead 7 ?ix))"
    by (rule reachable_step)
      (use w_read [of "?at (WLoop 7)" 0 7] in \<open>simp add: mw_demo0_def mw_new_def mw_clear_def\<close>)
  then show ?thesis
    by (rule reachable_step)
      (use w_cas [of "?at (WRead 7 ?ix)" 0 7 ?ix "(mw_new None 1)\<lparr>mw_ix := \<lparr>windex = 1, rindex = 0\<rparr>\<rparr>"]
       in \<open>simp add: mw_demo_def mw_demo0_def mw_new_def mw_clear_def ring_full_def cas_ix_def
              mw_next_w_def index_advance_def\<close>)
qed

text \<open>C2: exactly-once, first-in first-out delivery under concurrency. While any number of
  writers and one reader use the queue, the pointers delivered by \<^verbatim>\<open>dequeue\<close> are the pointers
  accepted by \<^verbatim>\<open>enqueue\<close>, in the order in which the writers claimed their slots: none is lost,
  duplicated or reordered. At most \<open>sz\<close> accepted pointers are waiting, and a writer that owns a
  slot finds it free when it stores, so no pointer is overwritten.\<close>

theorem mwsr_concurrent_fifo:
  assumes "sz < 65536" and "reachable (mw_init sz) mw_step s"
  shows "taken s = take (length (taken s)) (claimed s) \<and>
         length (claimed s) \<le> length (taken s) + sz \<and>
         (\<forall>t v loc k. writers s t = WClaimed v loc k \<longrightarrow>
            mw_buf (mwq s) ! loc = None \<and> claimed s ! k = v)"
proof -
  have inv: "mw_conc_inv s" using assms by (rule reachable_mw_inv)
  have "mw_buf (mwq s) ! loc = None \<and> claimed s ! k = v" if pc: "writers s t = WClaimed v loc k" for t v loc k
  proof -
    have "writer_ok s (writers s t)" using inv by (simp add: mw_conc_inv_def mw_writers_ok_def)
    with pc have ok: "n_taken s \<le> k" "k < n_claimed s" "v = claimed s ! k" "loc = k mod n_slots s" by auto
    have "in_flight s k" using pc by (auto simp: in_flight_def intro!: exI [of _ t])
    with ok inv show ?thesis
      by (simp add: mw_conc_inv_def mw_ring_def mw_shape_def slot_value_def)
  qed
  with inv reachable_mw_size [OF assms(2)] show ?thesis by (auto simp: mw_conc_inv_def mw_shape_def)
qed

theorem mwsr_concurrent_fifo_witness:
  "taken mw_demo = take (length (taken mw_demo)) (claimed mw_demo) \<and>
   mw_buf (mwq mw_demo) ! 0 = None \<and> claimed mw_demo = [7]"
  using mwsr_concurrent_fifo [OF _ mw_demo_reachable] mw_demo_claimed by auto

text \<open>When all writers and the reader are between calls, the ring is in a state of the
  sequential queue, and its contents are the accepted pointers that have not been delivered
  yet. Every interleaving therefore ends where some sequence of whole calls ends.\<close>

theorem mwsr_quiescent_contents:
  assumes "sz < 65536" and "reachable (mw_init sz) mw_step s" and "quiescent s"
  shows "mw_inv (mwq s) \<and> mw_elems (mwq s) = drop (length (taken s)) (claimed s) \<and>
         mw_count (mwq s) = length (claimed s) - length (taken s)"
proof -
  have inv: "mw_conc_inv s" using assms(1,2) by (rule reachable_mw_inv)
  from quiescent_queue [OF inv assms(3)] inv show ?thesis by (auto simp: mw_count_dist shape_dist mw_conc_inv_def)
qed

theorem mwsr_quiescent_contents_witness:
  "\<exists>s. reachable (mw_init 1) mw_step s \<and> mw_elems (mwq s) = [7::nat]"
proof -
  let ?s = "mw_demo\<lparr>mwq := (mwq mw_demo)\<lparr>mw_buf := (mw_buf (mwq mw_demo))[0 := Some 7]\<rparr>,
                    writers := (writers mw_demo)(0 := WIdle)\<rparr>"
  have r: "reachable (mw_init 1) mw_step ?s"
    by (rule reachable_step [OF mw_demo_reachable]) (rule w_store, simp add: mw_demo_def)
  moreover have "quiescent ?s" by (simp add: quiescent_def mw_demo_def mw_demo0_def)
  ultimately have "mw_elems (mwq ?s) = drop (length (taken ?s)) (claimed ?s)"
    using mwsr_quiescent_contents [OF _ r] by simp
  with r show ?thesis by (intro exI [of _ ?s]) (simp add: mw_demo_def mw_demo0_def)
qed

end
