(* ===== verification/AtomicQueue.thy ===== *)
theory AtomicQueue
  imports MWSRQueue "HOL-Library.Multiset"
begin

text \<open>
  \<^verbatim>\<open>rtt/internal/AtomicQueue.hpp\<close>, the queue for many writers and many readers, each call
  executed without interference but from any state that earlier races may have left: the ring
  may hold pointers outside the span between the two indices and gaps inside it. Such states
  are why \<^verbatim>\<open>enqueue\<close> and \<^verbatim>\<open>dequeue\<close> loop, why \<^verbatim>\<open>size\<close> scans the ring and why
  \<^verbatim>\<open>recover_r\<close> exists. The loops are \<^theory_text>\<open>partial_function\<close>s: \<open>None\<close> is a call that does not
  return. A state whose pointers fill the span exactly is called tidy; there the queue does what
  \<^verbatim>\<open>AtomicMWSRQueue\<close> does.
\<close>

section \<open>State and operations\<close>

record 'a atomic_queue =
  aq_size :: nat
  aq_buf :: "'a option list"
  aq_ix :: indexes

definition aq_clear :: "'a atomic_queue \<Rightarrow> 'a atomic_queue" where
  "aq_clear q = q\<lparr>aq_buf := array_for (aq_size q) (\<lambda>_ _. None) (aq_buf q),
                  aq_ix := \<lparr>windex = 0, rindex = 0\<rparr>\<rparr>"

definition aq_new :: "'a option \<Rightarrow> nat \<Rightarrow> 'a atomic_queue" where
  "aq_new g sz = aq_clear \<lparr>aq_size = sz + 1, aq_buf = replicate (sz + 1) g,
                           aq_ix = \<lparr>windex = 0, rindex = 0\<rparr>\<rparr>"

text \<open>One of the two scanning loops of \<^verbatim>\<open>recover_r\<close>: from index \<open>r\<close> up to, not including,
  \<open>stop\<close>. The index is an \<^verbatim>\<open>unsigned short\<close> and wraps.\<close>

partial_function (option) aq_scan :: "'a option list \<Rightarrow> u16 \<Rightarrow> nat \<Rightarrow> nat option option" where
  "aq_scan buf r stop =
     (if unat r = stop then Some None
      else if buf ! unat r \<noteq> None then Some (Some (unat r))
      else aq_scan buf (r + 1) stop)"

definition aq_recover_r :: "'a atomic_queue \<Rightarrow> nat option option" where
  "aq_recover_r q =
     (case aq_scan (aq_buf q) (rindex (aq_ix q)) (aq_size q) of
        None \<Rightarrow> None
      | Some (Some loc) \<Rightarrow> Some (Some loc)
      | Some None \<Rightarrow> aq_scan (aq_buf q) 0 (unat (rindex (aq_ix q))))"

definition aq_propose_w :: "'a atomic_queue \<Rightarrow> nat option \<times> 'a atomic_queue" where
  "aq_propose_w q =
     (let old = aq_ix q in
      if ring_full (aq_size q) old then (None, q)
      else (Some (unat (windex old)), q\<lparr>aq_ix := old\<lparr>windex := index_advance_eq (aq_size q) (windex old)\<rparr>\<rparr>))"

definition aq_propose_r :: "'a atomic_queue \<Rightarrow> (nat option \<times> 'a atomic_queue) option" where
  "aq_propose_r q =
     (let old = aq_ix q in
      if windex old = rindex old then
        (case aq_recover_r q of None \<Rightarrow> None | Some loc \<Rightarrow> Some (loc, q))
      else Some (Some (unat (rindex old)),
                 q\<lparr>aq_ix := old\<lparr>rindex := index_advance_eq (aq_size q) (rindex old)\<rparr>\<rparr>))"

partial_function (option) aq_enqueue_loop :: "'a \<Rightarrow> 'a atomic_queue \<Rightarrow> (bool \<times> 'a atomic_queue) option" where
  "aq_enqueue_loop v q =
     (case aq_propose_w q of
        (None, q') \<Rightarrow> Some (False, q')
      | (Some loc, q') \<Rightarrow>
          if aq_buf q' ! loc = None then Some (True, q'\<lparr>aq_buf := (aq_buf q')[loc := Some v]\<rparr>)
          else aq_enqueue_loop v q')"

definition aq_enqueue :: "'a option \<Rightarrow> 'a atomic_queue \<Rightarrow> (bool \<times> 'a atomic_queue) option" where
  "aq_enqueue v q = (case v of None \<Rightarrow> Some (False, q) | Some x \<Rightarrow> aq_enqueue_loop x q)"

partial_function (option) aq_dequeue :: "'a atomic_queue \<Rightarrow> ('a option \<times> 'a atomic_queue) option" where
  "aq_dequeue q =
     (case aq_propose_r q of
        None \<Rightarrow> None
      | Some (None, q') \<Rightarrow> Some (None, q')
      | Some (Some loc, q') \<Rightarrow>
          (case aq_buf q' ! loc of
             None \<Rightarrow> aq_dequeue q'
           | Some v \<Rightarrow> Some (Some v, q'\<lparr>aq_buf := (aq_buf q')[loc := None]\<rparr>)))"

definition aq_isFull :: "'a atomic_queue \<Rightarrow> bool" where
  "aq_isFull q \<longleftrightarrow> ring_full (aq_size q) (aq_ix q)"

definition aq_isEmpty :: "'a atomic_queue \<Rightarrow> bool option" where
  "aq_isEmpty q =
     (if windex (aq_ix q) = rindex (aq_ix q)
      then map_option (\<lambda>loc. loc = None) (aq_recover_r q) else Some False)"

definition aq_capacity :: "'a atomic_queue \<Rightarrow> nat" where
  "aq_capacity q = aq_size q - 1"

text \<open>\<^verbatim>\<open>size()\<close> counts the non-null slots.\<close>

fun aq_count_loop :: "'a option list \<Rightarrow> nat \<Rightarrow> nat" where
  "aq_count_loop [] ret = ret"
| "aq_count_loop (x # xs) ret = aq_count_loop xs (if x \<noteq> None then Suc ret else ret)"

definition aq_count :: "'a atomic_queue \<Rightarrow> nat" where
  "aq_count q = aq_count_loop (take (aq_size q) (aq_buf q)) 0"

definition aq_front :: "'a atomic_queue \<Rightarrow> 'a option" where
  "aq_front q = aq_buf q ! unat (rindex (aq_ix q))"

section \<open>Any state\<close>

abbreviation aq_r :: "'a atomic_queue \<Rightarrow> nat" where "aq_r q \<equiv> unat (rindex (aq_ix q))"
abbreviation aq_w :: "'a atomic_queue \<Rightarrow> nat" where "aq_w q \<equiv> unat (windex (aq_ix q))"
abbreviation aq_dist :: "'a atomic_queue \<Rightarrow> nat" where "aq_dist q \<equiv> ring_dist (aq_size q) (aq_r q) (aq_w q)"

text \<open>The range condition is all the calls need; at most 65534 pointers, because
  \<^verbatim>\<open>recover_r\<close> compares an \<^verbatim>\<open>unsigned short\<close> with \<^verbatim>\<open>_size\<close>.\<close>

definition aq_range :: "'a atomic_queue \<Rightarrow> bool" where
  "aq_range q \<longleftrightarrow> 0 < aq_size q \<and> aq_size q \<le> 65535 \<and> length (aq_buf q) = aq_size q \<and>
                 aq_r q < aq_size q \<and> aq_w q < aq_size q"

definition aq_items :: "'a option list \<Rightarrow> 'a list" where
  "aq_items buf = map the (filter (\<lambda>x. x \<noteq> None) buf)"

lemma aq_items_store:
  "i < length buf \<Longrightarrow> buf ! i = None \<Longrightarrow>
   mset (aq_items (buf[i := Some v])) = add_mset v (mset (aq_items buf))"
proof (induction buf arbitrary: i)
  case (Cons x xs)
  then show ?case by (cases i) (auto simp: aq_items_def)
qed simp

lemma aq_items_clear:
  "i < length buf \<Longrightarrow> buf ! i = Some v \<Longrightarrow>
   mset (aq_items buf) = add_mset v (mset (aq_items (buf[i := None])))"
proof (induction buf arbitrary: i)
  case (Cons x xs)
  then show ?case by (cases i) (auto simp: aq_items_def)
qed simp

lemma aq_items_empty: "aq_items buf = [] \<longleftrightarrow> (\<forall>i < length buf. buf ! i = None)"
  by (auto simp: aq_items_def filter_empty_conv all_set_conv_all_nth)

lemma aq_count_loop_items: "aq_count_loop buf ret = ret + length (aq_items buf)"
  by (induction buf ret rule: aq_count_loop.induct) (auto simp: aq_items_def)

lemma aq_count_items: "aq_range q \<Longrightarrow> aq_count q = length (aq_items (aq_buf q))"
  by (simp add: aq_count_def aq_count_loop_items aq_range_def)

lemma aq_scan_find:
  assumes "unat r \<le> stop" and "stop < 65536"
  shows "aq_scan buf r stop = Some (find (\<lambda>i. buf ! i \<noteq> None) [unat r..<stop])"
  using assms
proof (induction "stop - unat r" arbitrary: r)
  case 0
  then have "unat r = stop" by simp
  then show ?case by (subst aq_scan.simps) simp
next
  case (Suc m)
  then have lt: "unat r < stop" by simp
  then have r1: "unat (r + 1) = Suc (unat r)" using Suc.prems by (simp add: unat_Suc_u16)
  have IH: "aq_scan buf (r + 1) stop = Some (find (\<lambda>i. buf ! i \<noteq> None) [unat (r + 1)..<stop])"
    using Suc lt r1 by (intro Suc.hyps(1)) auto
  show ?case
    by (subst aq_scan.simps) (use lt r1 IH in \<open>simp add: upt_conv_Cons\<close>)
qed

lemma aq_recover_find:
  assumes "aq_range q"
  shows "aq_recover_r q = Some (find (\<lambda>i. aq_buf q ! i \<noteq> None) ([aq_r q..<aq_size q] @ [0..<aq_r q]))"
  using assms aq_scan_find [of "rindex (aq_ix q)" "aq_size q" "aq_buf q"]
    aq_scan_find [of 0 "aq_r q" "aq_buf q"]
  by (auto simp: aq_recover_r_def aq_range_def find_append split: option.split)

lemma aq_recover_SomeD:
  assumes "aq_range q" and "aq_recover_r q = Some (Some loc)"
  shows "loc < aq_size q \<and> aq_buf q ! loc \<noteq> None"
  using assms
    find_SomeD [of "\<lambda>i. aq_buf q ! i \<noteq> None" "[aq_r q..<aq_size q] @ [0..<aq_r q]" loc]
  by (auto simp: aq_recover_find aq_range_def)

lemma aq_recover_NoneD:
  assumes "aq_range q" and "aq_recover_r q = Some None"
  shows "aq_items (aq_buf q) = []"
  using assms unfolding aq_items_empty
  by (auto simp: aq_recover_find find_None_iff aq_range_def ball_Un)

lemma aq_enqueue_loop_returns:
  assumes "aq_range q"
  shows "\<exists>r q'. aq_enqueue_loop v q = Some (r, q') \<and> aq_range q' \<and> aq_size q' = aq_size q \<and>
           (if r then mset (aq_items (aq_buf q')) = add_mset v (mset (aq_items (aq_buf q)))
            else aq_buf q' = aq_buf q \<and> aq_isFull q')"
  using assms
proof (induction "aq_size q - aq_dist q" arbitrary: q rule: less_induct)
  case less
  let ?n = "aq_size q"
  let ?q = "q\<lparr>aq_ix := (aq_ix q)\<lparr>windex := index_advance_eq ?n (windex (aq_ix q))\<rparr>\<rparr>"
  have rg: "0 < ?n" "?n \<le> 65535" "length (aq_buf q) = ?n" "aq_r q < ?n" "aq_w q < ?n"
    using less.prems by (auto simp: aq_range_def)
  show ?case
  proof (cases "ring_full ?n (aq_ix q)")
    case True
    then have "aq_enqueue_loop v q = Some (False, q)"
      by (subst aq_enqueue_loop.simps) (simp add: aq_propose_w_def)
    with True less.prems show ?thesis
      by (intro exI [of _ False] exI [of _ q]) (simp add: aq_isFull_def)
  next
    case False
    then have room: "aq_dist q < ?n - 1"
      using rg ring_dist_less [of "aq_r q" ?n "aq_w q"] by (simp add: ring_full_dist)
    have w': "aq_w ?q = Suc (aq_w q) mod ?n"
      using rg by (simp add: index_advance_eq_same)
    have rg': "aq_range ?q" using rg w' by (simp add: aq_range_def)
    have dist': "aq_dist ?q = Suc (aq_dist q)"
      using ring_dist_advance_w [of "aq_r q" ?n "aq_w q"] rg room w' by simp
    have adv: "aq_propose_w q = (Some (aq_w q), ?q)"
      using False by (simp add: aq_propose_w_def Let_def)
    show ?thesis
    proof (cases "aq_buf q ! aq_w q")
      case None
      let ?s = "?q\<lparr>aq_buf := (aq_buf q)[aq_w q := Some v]\<rparr>"
      have "aq_enqueue_loop v q = Some (True, ?s)"
        using None adv by (subst aq_enqueue_loop.simps) simp
      moreover have "aq_range ?s" using rg' by (simp add: aq_range_def)
      ultimately show ?thesis
        using None rg by (intro exI [of _ True] exI [of _ ?s]) (simp add: aq_items_store)
    next
      case (Some x)
      have "?n - aq_dist ?q < ?n - aq_dist q" using dist' room by simp
      then obtain r q' where "aq_enqueue_loop v ?q = Some (r, q')" and "aq_range q'"
        and "aq_size q' = ?n"
        and "if r then mset (aq_items (aq_buf q')) = add_mset v (mset (aq_items (aq_buf q)))
             else aq_buf q' = aq_buf q \<and> aq_isFull q'"
        using less.hyps [of ?q] rg' by auto
      moreover from this Some adv have "aq_enqueue_loop v q = Some (r, q')"
        by (subst aq_enqueue_loop.simps) auto
      ultimately show ?thesis by (intro exI [of _ r] exI [of _ q']) simp
    qed
  qed
qed

lemma aq_dequeue_returns:
  assumes "aq_range q"
  shows "\<exists>r q'. aq_dequeue q = Some (r, q') \<and> aq_range q' \<and> aq_size q' = aq_size q \<and>
           (case r of
              Some v \<Rightarrow> mset (aq_items (aq_buf q)) = add_mset v (mset (aq_items (aq_buf q')))
            | None \<Rightarrow> aq_items (aq_buf q) = [] \<and> aq_items (aq_buf q') = [])"
  using assms
proof (induction "aq_dist q" arbitrary: q rule: less_induct)
  case less
  let ?n = "aq_size q"
  let ?q = "q\<lparr>aq_ix := (aq_ix q)\<lparr>rindex := index_advance_eq ?n (rindex (aq_ix q))\<rparr>\<rparr>"
  have rg: "0 < ?n" "?n \<le> 65535" "length (aq_buf q) = ?n" "aq_r q < ?n" "aq_w q < ?n"
    using less.prems by (auto simp: aq_range_def)
  show ?case
  proof (cases "windex (aq_ix q) = rindex (aq_ix q)")
    case True
    obtain loc where rec: "aq_recover_r q = Some loc"
      using aq_recover_find [OF less.prems] by simp
    show ?thesis
    proof (cases loc)
      case None
      with rec aq_recover_NoneD [OF less.prems] have "aq_items (aq_buf q) = []" by simp
      moreover have "aq_dequeue q = Some (None, q)"
        using True rec None by (subst aq_dequeue.simps) (simp add: aq_propose_r_def)
      ultimately show ?thesis
        using less.prems by (intro exI [of _ None] exI [of _ q]) simp
    next
      case (Some l)
      then obtain v where "l < ?n" and "aq_buf q ! l = Some v"
        using rec aq_recover_SomeD [OF less.prems] by auto
      moreover from this True rec Some
      have "aq_dequeue q = Some (Some v, q\<lparr>aq_buf := (aq_buf q)[l := None]\<rparr>)"
        by (subst aq_dequeue.simps) (simp add: aq_propose_r_def)
      ultimately show ?thesis
        using rg by (intro exI [of _ "Some v"] exI [of _ "q\<lparr>aq_buf := (aq_buf q)[l := None]\<rparr>"])
          (simp add: aq_items_clear aq_range_def)
    qed
  next
    case False
    then have pos: "0 < aq_dist q" using rg
      by (metis neq0_conv ring_dist_0 word_unat_eq_iff)
    have r': "aq_r ?q = Suc (aq_r q) mod ?n" using rg by (simp add: index_advance_eq_same)
    have rg': "aq_range ?q" using rg r' by (simp add: aq_range_def)
    have dist': "aq_dist ?q = aq_dist q - 1"
      using ring_dist_advance_r [of "aq_r q" ?n "aq_w q"] rg pos r' by simp
    have adv: "aq_propose_r q = Some (Some (aq_r q), ?q)"
      using False by (simp add: aq_propose_r_def Let_def)
    show ?thesis
    proof (cases "aq_buf q ! aq_r q")
      case (Some v)
      let ?s = "?q\<lparr>aq_buf := (aq_buf q)[aq_r q := None]\<rparr>"
      have "aq_dequeue q = Some (Some v, ?s)"
        using Some adv by (subst aq_dequeue.simps) simp
      moreover have "aq_range ?s" using rg' by (simp add: aq_range_def)
      ultimately show ?thesis
        using Some rg by (intro exI [of _ "Some v"] exI [of _ ?s]) (simp add: aq_items_clear)
    next
      case None
      have "aq_dist ?q < aq_dist q" using dist' pos by simp
      from less.hyps [OF this rg'] have "\<exists>r q'. aq_dequeue ?q = Some (r, q') \<and> aq_range q' \<and> aq_size q' = ?n \<and>
        (case r of Some v \<Rightarrow> mset (aq_items (aq_buf q)) = add_mset v (mset (aq_items (aq_buf q')))
           | None \<Rightarrow> aq_items (aq_buf q) = [] \<and> aq_items (aq_buf q') = [])"
        by (simp cong: option.case_cong)
      then obtain r q' where IH: "aq_dequeue ?q = Some (r, q')" "aq_range q'" "aq_size q' = ?n"
        "case r of Some v \<Rightarrow> mset (aq_items (aq_buf q)) = add_mset v (mset (aq_items (aq_buf q')))
           | None \<Rightarrow> aq_items (aq_buf q) = [] \<and> aq_items (aq_buf q') = []"
        by blast
      have "aq_dequeue q = Some (r, q')" using IH(1) None adv by (subst aq_dequeue.simps) simp
      with IH show ?thesis by (intro exI [of _ r] exI [of _ q']) simp
    qed
  qed
qed

section \<open>Tidy states: the queue does what the multi-writer single-reader queue does\<close>

definition as_mwsr :: "'a atomic_queue \<Rightarrow> 'a mwsr" where
  "as_mwsr q = \<lparr>mw_size = aq_size q, mw_buf = aq_buf q, mw_ix = aq_ix q\<rparr>"

definition tidy :: "'a atomic_queue \<Rightarrow> bool" where
  "tidy q \<longleftrightarrow> aq_size q \<le> 65535 \<and> mw_inv (as_mwsr q)"

fun aq_do :: "'a queue_call \<Rightarrow> 'a atomic_queue \<Rightarrow> ('a queue_result \<times> 'a atomic_queue) option" where
  "aq_do (Enqueue v) q = map_option (\<lambda>(ok, q'). (Flag ok, q')) (aq_enqueue v q)"
| "aq_do Dequeue q = map_option (\<lambda>(v, q'). (Popped v, q')) (aq_dequeue q)"
| "aq_do IsFull q = Some (Flag (aq_isFull q), q)"
| "aq_do IsEmpty q = map_option (\<lambda>b. (Flag b, q)) (aq_isEmpty q)"
| "aq_do Capacity q = Some (Count (aq_capacity q), q)"
| "aq_do QSize q = Some (Count (aq_count q), q)"
| "aq_do Clear q = Some (Done, aq_clear q)"

fun aq_run :: "'a queue_call list \<Rightarrow> 'a atomic_queue \<Rightarrow> ('a queue_result list \<times> 'a atomic_queue) option" where
  "aq_run [] q = Some ([], q)"
| "aq_run (c # cs) q =
     (case aq_do c q of None \<Rightarrow> None
      | Some (r, q') \<Rightarrow> map_option (\<lambda>(rs, q''). (r # rs, q'')) (aq_run cs q'))"

lemma as_mwsr_sel [simp]:
  "mw_size (as_mwsr q) = aq_size q" "mw_buf (as_mwsr q) = aq_buf q" "mw_ix (as_mwsr q) = aq_ix q"
  by (simp_all add: as_mwsr_def)

lemma tidy_range: "tidy q \<Longrightarrow> aq_range q"
  by (auto simp: tidy_def aq_range_def mw_inv_def)

lemma tidy_slot:
  assumes "tidy q"
  shows "windex (aq_ix q) \<noteq> rindex (aq_ix q) \<Longrightarrow> aq_buf q ! aq_r q \<noteq> None"
    and "\<not> ring_full (aq_size q) (aq_ix q) \<Longrightarrow> aq_buf q ! aq_w q = None"
proof -
  let ?m = "as_mwsr q"
  have inv: "mw_inv ?m" using assms by (simp add: tidy_def)
  have d: "aq_dist q < aq_size q" using inv by (simp add: mw_inv_def ring_dist_less)
  { assume "windex (aq_ix q) \<noteq> rindex (aq_ix q)"
    then have "0 < mw_dist ?m" using mw_isEmpty_dist [OF inv] by (simp add: mw_isEmpty_def)
    then have "aq_r q \<in> set (mw_slots ?m)"
      using inv by (auto simp: mw_slots_def ring_slots_def mw_inv_def intro!: image_eqI [of _ _ 0])
    with inv show "aq_buf q ! aq_r q \<noteq> None" by (auto simp: mw_inv_def) }
  { assume "\<not> ring_full (aq_size q) (aq_ix q)"
    have "(aq_r q + aq_dist q) mod aq_size q = aq_w q"
      using inv by (intro ring_dist_end) (auto simp: mw_inv_def)
    with ring_slots_fresh [OF d, of "aq_r q"] have "aq_w q \<notin> set (mw_slots ?m)"
      by (simp add: mw_slots_def)
    with inv show "aq_buf q ! aq_w q = None" by (auto simp: mw_inv_def) }
qed

lemma tidy_enqueue:
  assumes "tidy q"
  shows "\<exists>ok q'. aq_enqueue v q = Some (ok, q') \<and> mw_enqueue v (as_mwsr q) = (ok, as_mwsr q')"
proof (cases v)
  case None
  then show ?thesis
    by (intro exI [of _ False] exI [of _ q]) (simp add: aq_enqueue_def mw_enqueue_def)
next
  case (Some x)
  have adv: "index_advance_eq (aq_size q) (windex (aq_ix q)) = index_advance (aq_size q) (windex (aq_ix q))"
    using tidy_range [OF assms] by (intro index_advance_eq_same) (auto simp: aq_range_def)
  show ?thesis
  proof (cases "ring_full (aq_size q) (aq_ix q)")
    case True
    with Some show ?thesis
      by (intro exI [of _ False] exI [of _ q])
        (simp add: aq_enqueue_def aq_propose_w_def mw_enqueue_def mw_advance_w_def aq_enqueue_loop.simps)
  next
    case False
    with tidy_slot(2) [OF assms] have "aq_buf q ! aq_w q = None" by simp
    with False Some adv show ?thesis
      by (intro exI [of _ True]) (simp add: aq_enqueue_def aq_enqueue_loop.simps aq_propose_w_def mw_enqueue_def
          mw_advance_w_def mw_next_w_def as_mwsr_def Let_def)
  qed
qed

lemma tidy_empty:
  assumes "tidy q" and "windex (aq_ix q) = rindex (aq_ix q)"
  shows "aq_recover_r q = Some None" and "aq_buf q ! aq_r q = None"
proof -
  let ?m = "as_mwsr q"
  have inv: "mw_inv ?m" using assms by (simp add: tidy_def)
  have "mw_slots ?m = []" using assms(2) by (simp add: mw_slots_def ring_slots_def)
  with inv have free: "i < aq_size q \<Longrightarrow> aq_buf q ! i = None" for i by (auto simp: mw_inv_def)
  with tidy_range [OF assms(1)] show "aq_buf q ! aq_r q = None" by (auto simp: aq_range_def)
  show "aq_recover_r q = Some None"
    using tidy_range [OF assms(1)] free
    by (auto simp: aq_recover_find find_None_iff aq_range_def)
qed

lemma tidy_dequeue:
  assumes "tidy q"
  shows "\<exists>r q'. aq_dequeue q = Some (r, q') \<and> mw_dequeue (as_mwsr q) = (r, as_mwsr q')"
proof (cases "windex (aq_ix q) = rindex (aq_ix q)")
  case True
  with tidy_empty [OF assms True] show ?thesis
    by (simp add: aq_dequeue.simps aq_propose_r_def mw_dequeue_def mw_advance_r_def Let_def)
next
  case False
  have adv: "index_advance_eq (aq_size q) (rindex (aq_ix q)) = index_advance (aq_size q) (rindex (aq_ix q))"
    using tidy_range [OF assms] by (intro index_advance_eq_same) (auto simp: aq_range_def)
  from tidy_slot(1) [OF assms False] obtain v where "aq_buf q ! aq_r q = Some v" by auto
  with False adv show ?thesis
    by (simp add: aq_dequeue.simps aq_propose_r_def mw_dequeue_def mw_advance_r_def mw_next_r_def
        as_mwsr_def Let_def)
qed

lemma tidy_do_matches:
  assumes "tidy q"
  shows "\<exists>r q'. aq_do c q = Some (r, q') \<and> queue_do mwsr_api c (as_mwsr q) = (r, as_mwsr q')"
proof (cases c)
  case (Enqueue v)
  with tidy_enqueue [OF assms, of v] show ?thesis by (auto simp: mwsr_api_def)
next
  case Dequeue
  with tidy_dequeue [OF assms] show ?thesis by (auto simp: mwsr_api_def)
next
  case IsEmpty
  with tidy_empty(1) [OF assms] show ?thesis
    by (auto simp: mwsr_api_def aq_isEmpty_def mw_isEmpty_def)
next
  case QSize
  have inv: "mw_inv (as_mwsr q)" using assms by (simp add: tidy_def)
  let ?slots = "mw_slots (as_mwsr q)"
  have "aq_count q = card {i. i < aq_size q \<and> aq_buf q ! i \<noteq> None}"
    using tidy_range [OF assms]
    by (simp add: aq_count_items aq_items_def length_filter_conv_card aq_range_def)
  also have "\<dots> = card (set ?slots)"
    using inv by (intro arg_cong [of _ _ card]) (auto simp: mw_inv_def mw_slots_def dest: ring_slots_less)
  also have "\<dots> = mw_dist (as_mwsr q)"
    using inv ring_slots_distinct [of "mw_dist (as_mwsr q)" "aq_size q" "aq_r q"]
      ring_dist_less [of "aq_r q" "aq_size q" "aq_w q"]
    by (simp add: mw_slots_def distinct_card mw_inv_def)
  finally show ?thesis using QSize mw_count_dist [OF inv] by (simp add: mwsr_api_def)
qed (auto simp: mwsr_api_def aq_isFull_def mw_isFull_def aq_capacity_def mw_capacity_def
      aq_clear_def mw_clear_def as_mwsr_def)

lemma tidy_do_keeps:
  assumes "tidy q" and "aq_do c q = Some (r, q')" and "queue_do mwsr_api c (as_mwsr q) = (r, as_mwsr q')"
  shows "tidy q'"
proof -
  have inv: "mw_inv (as_mwsr q)" using assms(1) by (simp add: tidy_def)
  obtain m r' where "queue_do mwsr_api c (as_mwsr q) = (r', m)" and "mw_inv m"
    and "q_capacity mwsr_api m = q_capacity mwsr_api (as_mwsr q)"
    using mwsr.do_refines [OF inv refl] by metis
  with assms inv show ?thesis by (auto simp: tidy_def mwsr_api_def mw_capacity_def mw_inv_def)
qed

lemma tidy_run:
  "tidy q \<Longrightarrow> \<exists>q'. aq_run cs q = Some (fst (queue_run mwsr_api cs (as_mwsr q)), q') \<and> tidy q'"
proof (induction cs arbitrary: q)
  case (Cons c cs)
  obtain r q1 where do1: "aq_do c q = Some (r, q1)" "queue_do mwsr_api c (as_mwsr q) = (r, as_mwsr q1)"
    using tidy_do_matches [OF Cons.prems] by blast
  then have "tidy q1" using Cons.prems tidy_do_keeps by blast
  with Cons.IH [of q1] do1 show ?case by (auto split: prod.split)
qed simp

section \<open>Properties\<close>

text \<open>No pointer is ever lost in \<^verbatim>\<open>AtomicQueue\<close>. From any state of the ring, whatever out-of-order
  pointers and gaps earlier races have left in it, \<^verbatim>\<open>enqueue\<close> and \<^verbatim>\<open>dequeue\<close> return; an
  accepted pointer is added to the stored ones, a delivered one is removed from them and all
  others stay, and \<^verbatim>\<open>dequeue\<close> reports an empty queue only when no pointer is stored at all, which
  is also when \<^verbatim>\<open>size\<close> is 0.\<close>

theorem atomic_queue_loses_nothing:
  assumes "aq_range q"
  shows "(\<exists>ok q'. aq_enqueue (Some v) q = Some (ok, q') \<and> aq_range q' \<and>
            mset (aq_items (aq_buf q')) = (if ok then {#v#} else {#}) + mset (aq_items (aq_buf q))) \<and>
         (\<exists>r q'. aq_dequeue q = Some (r, q') \<and> aq_range q' \<and>
            mset (aq_items (aq_buf q)) = (case r of Some x \<Rightarrow> {#x#} | None \<Rightarrow> {#}) + mset (aq_items (aq_buf q')) \<and>
            (r = None \<longleftrightarrow> aq_count q = 0))"
proof
  obtain ok q' where "aq_enqueue_loop v q = Some (ok, q')" and "aq_range q'"
    and "if ok then mset (aq_items (aq_buf q')) = add_mset v (mset (aq_items (aq_buf q)))
         else aq_buf q' = aq_buf q \<and> aq_isFull q'"
    using aq_enqueue_loop_returns [OF assms] by blast
  then show "\<exists>ok q'. aq_enqueue (Some v) q = Some (ok, q') \<and> aq_range q' \<and>
            mset (aq_items (aq_buf q')) = (if ok then {#v#} else {#}) + mset (aq_items (aq_buf q))"
    by (intro exI [of _ ok] exI [of _ q']) (auto simp: aq_enqueue_def split: if_splits)
next
  obtain r q' where "aq_dequeue q = Some (r, q')" and "aq_range q'"
    and "case r of Some v \<Rightarrow> mset (aq_items (aq_buf q)) = add_mset v (mset (aq_items (aq_buf q')))
         | None \<Rightarrow> aq_items (aq_buf q) = [] \<and> aq_items (aq_buf q') = []"
    using aq_dequeue_returns [OF assms] by blast
  then show "\<exists>r q'. aq_dequeue q = Some (r, q') \<and> aq_range q' \<and>
      mset (aq_items (aq_buf q)) = (case r of Some x \<Rightarrow> {#x#} | None \<Rightarrow> {#}) + mset (aq_items (aq_buf q')) \<and>
      (r = None \<longleftrightarrow> aq_count q = 0)"
    using aq_count_items [OF assms]
    by (intro exI [of _ r] exI [of _ q']) (auto split: option.splits)
qed

text \<open>A ring with its indices equal and one stray pointer.\<close>

theorem atomic_queue_loses_nothing_witness:
  "\<exists>r q'. aq_dequeue \<lparr>aq_size = 3, aq_buf = [None, None, Some (9::nat)],
                      aq_ix = \<lparr>windex = 1, rindex = 1\<rparr>\<rparr> = Some (r, q') \<and> r = Some 9"
proof -
  define q where "q = \<lparr>aq_size = 3, aq_buf = [None, None, Some (9::nat)],
                       aq_ix = \<lparr>windex = 1, rindex = 1\<rparr>\<rparr>"
  have items: "aq_items (aq_buf q) = [9]" and count: "aq_count q = 1" and range: "aq_range q"
    by (simp_all add: q_def aq_range_def aq_items_def aq_count_def)
  obtain r q' where deq: "aq_dequeue q = Some (r, q')"
    and m: "mset (aq_items (aq_buf q)) = (case r of Some x \<Rightarrow> {#x#} | None \<Rightarrow> {#}) + mset (aq_items (aq_buf q'))"
    and e: "r = None \<longleftrightarrow> aq_count q = 0"
    using conjunct2 [OF atomic_queue_loses_nothing [OF range, of 0]]
    by (elim exE conjE) (rule that)
  from e count obtain x where "r = Some x" by (cases r) auto
  with m items have "r = Some 9" by (simp add: single_eq_add_mset)
  with deq show ?thesis unfolding q_def by blast
qed

text \<open>used without interference, \<^verbatim>\<open>AtomicQueue\<close> is a bounded first-in first-out queue: every
  sequence of calls on a new queue returns, and its results are those of the same calls on a
  list of at most \<open>sz\<close> elements. The proof goes through the multi-writer single-reader queue,
  with which it agrees state by state.\<close>

theorem atomic_queue_behaves_as_list:
  assumes "sz < 65535"
  shows "map_option fst (aq_run cs (aq_new g sz)) = Some (fst (queue_run (list_queue sz) cs []))"
proof -
  have new: "as_mwsr (aq_new g sz) = mw_new g sz"
    by (simp add: as_mwsr_def aq_new_def mw_new_def aq_clear_def mw_clear_def)
  have "mw_inv (mw_new g sz)" and "mw_elems (mw_new g sz) = []" and "mw_capacity (mw_new g sz) = sz"
    using mw_new_inv [of sz g] assms by auto
  moreover from this have "tidy (aq_new g sz)"
    using assms by (simp add: tidy_def new) (simp add: aq_new_def aq_clear_def)
  ultimately show ?thesis
    using tidy_run [of "aq_new g sz" cs] mwsr.run_refines [of "mw_new g sz" sz cs] new
    by (auto simp: mwsr_api_def)
qed

theorem atomic_queue_behaves_as_list_witness:
  "map_option fst (aq_run [Enqueue (Some 4), Enqueue (Some 5), Dequeue, IsEmpty] (aq_new None 1)) =
   Some [Flag True, Flag False, Popped (Some (4::nat)), Flag True]"
proof -
  have "(1::nat) < 65535" by simp
  show ?thesis
    unfolding atomic_queue_behaves_as_list [OF \<open>1 < 65535\<close>] by (simp add: list_queue_def)
qed

end
