(* ===== verification/BufferSpec.thy ===== *)
theory BufferSpec
  imports OroPrelude "HOL-Library.Monad_Syntax"
begin

text \<open>
  The interface \<^verbatim>\<open>base::BufferInterface<T>\<close> (\<^verbatim>\<open>rtt/base/BufferInterface.hpp\<close>). Its virtual
  functions are the fields of \<open>buffer_api\<close>, over a buffer type \<open>'b\<close>, a pointer type \<open>'p\<close> for
  \<^verbatim>\<open>PopWithoutRelease\<close> and values \<open>'a\<close>. The locale \<open>sample_buffer\<close> is what a user of the
  interface may rely on while it keeps the discipline \<open>disciplined\<close>: the buffer is a list bounded by its capacity that refuses or, when
  circular, drops the oldest element, and a popped sample stays readable through its pointer
  while it is outstanding and no other one is popped.
\<close>

record ('a, 'p, 'b) buffer_api =
  b_push :: "'a \<Rightarrow> 'b \<Rightarrow> (bool \<times> 'b) option"
  b_push_list :: "'a list \<Rightarrow> 'b \<Rightarrow> (nat \<times> 'b) option"
  b_pop :: "'b \<Rightarrow> ('a option \<times> 'b) option"
  b_pop_list :: "'b \<Rightarrow> ('a list \<times> nat \<times> 'b) option"
  b_pop_without_release :: "'b \<Rightarrow> ('p option \<times> 'b) option"
  b_release :: "'p \<Rightarrow> 'b \<Rightarrow> 'b option"
  b_deref :: "'b \<Rightarrow> 'p \<Rightarrow> 'a"
  b_data_sample :: "'a \<Rightarrow> 'b \<Rightarrow> 'b option"
  b_capacity :: "'b \<Rightarrow> nat"
  b_size :: "'b \<Rightarrow> nat"
  b_empty :: "'b \<Rightarrow> bool"
  b_full :: "'b \<Rightarrow> bool"
  b_clear :: "'b \<Rightarrow> 'b option"

section \<open>The specification\<close>

definition spec_push :: "nat \<Rightarrow> bool \<Rightarrow> 'a \<Rightarrow> 'a list \<Rightarrow> bool \<times> 'a list" where
  "spec_push cap circ x xs =
     (if length xs < cap then (True, xs @ [x])
      else if circ then (True, tl xs @ [x])
      else (False, xs))"

fun spec_push_each :: "nat \<Rightarrow> bool \<Rightarrow> 'a list \<Rightarrow> 'a list \<Rightarrow> nat \<times> 'a list" where
  "spec_push_each cap circ [] xs = (0, xs)"
| "spec_push_each cap circ (y # ys) xs =
     (case spec_push cap circ y xs of
        (False, xs') \<Rightarrow> (0, xs')
      | (True, xs') \<Rightarrow> (case spec_push_each cap circ ys xs' of (n, xs'') \<Rightarrow> (Suc n, xs'')))"

text \<open>The closed form: a circular buffer keeps the newest \<open>cap\<close> elements, any other one takes
  as many as it has room for.\<close>

lemma spec_push_each_circular:
  assumes "0 < cap" and "length xs \<le> cap"
  shows "spec_push_each cap True ys xs = (length ys, drop (length xs + length ys - cap) (xs @ ys))"
  using assms
proof (induction ys arbitrary: xs)
  case Nil
  then show ?case by simp
next
  case (Cons y ys)
  show ?case
  proof (cases "length xs < cap")
    case True
    with Cons.IH [of "xs @ [y]"] Cons.prems show ?thesis by (simp add: spec_push_def)
  next
    case False
    with Cons.prems obtain x zs where xs: "xs = x # zs" and cap: "cap = Suc (length zs)"
      by (cases xs) auto
    from Cons.IH [of "zs @ [y]"] show ?thesis by (simp add: spec_push_def xs cap)
  qed
qed

lemma spec_push_each_plain:
  "length xs \<le> cap \<Longrightarrow>
   spec_push_each cap False ys xs = (min (cap - length xs) (length ys), xs @ take (cap - length xs) ys)"
proof (induction ys arbitrary: xs)
  case Nil
  then show ?case by simp
next
  case (Cons y ys)
  show ?case
  proof (cases "length xs < cap")
    case True
    then obtain m where "cap - length xs = Suc m" and "cap - length (xs @ [y]) = m"
      by (auto dest: less_imp_Suc_add)
    with Cons.IH [of "xs @ [y]"] True show ?thesis by (simp add: spec_push_def)
  next
    case False
    with Cons.prems show ?thesis by (simp add: spec_push_def)
  qed
qed

lemma spec_push_length: "0 < cap \<Longrightarrow> length xs \<le> cap \<Longrightarrow> length (snd (spec_push cap circ x xs)) \<le> cap"
  by (auto simp: spec_push_def)

text \<open>The buffer that is only its list; the pointer to a popped sample is the sample.\<close>

definition list_buffer :: "nat \<Rightarrow> bool \<Rightarrow> ('a, 'a, 'a list) buffer_api" where
  "list_buffer cap circ =
     \<lparr>b_push = (\<lambda>x xs. Some (spec_push cap circ x xs)),
      b_push_list = (\<lambda>ys xs. Some (spec_push_each cap circ ys xs)),
      b_pop = (\<lambda>xs. Some (case xs of [] \<Rightarrow> None | x # _ \<Rightarrow> Some x, tl xs)),
      b_pop_list = (\<lambda>xs. Some (xs, length xs, [])),
      b_pop_without_release = (\<lambda>xs. Some (case xs of [] \<Rightarrow> None | x # _ \<Rightarrow> Some x, tl xs)),
      b_release = (\<lambda>_ xs. Some xs), b_deref = (\<lambda>_ x. x), b_data_sample = (\<lambda>_ _. Some []),
      b_capacity = (\<lambda>_. cap), b_size = length, b_empty = (\<lambda>xs. xs = []),
      b_full = (\<lambda>xs. length xs = cap), b_clear = (\<lambda>_. Some [])\<rparr>"

section \<open>Sequences of calls\<close>

text \<open>The state of a user of the buffer is the pointer of its last \<^verbatim>\<open>PopWithoutRelease\<close> and the
  buffer. Every call is executed; \<^verbatim>\<open>Release\<close> is given this pointer, and without one there is
  nothing to call it with, which is \<open>None\<close>.\<close>

datatype 'a buffer_call =
  BPush 'a | BPushList "'a list" | BPop | BPopList | BHold | BLook | BRelease | BClear | BSize
  | BCapacity | BEmpty | BFull | BDataSample 'a

datatype 'a buffer_result =
  BFlag bool | BCount nat | BValue "'a option" | BValues "'a list" nat | BDone

fun buffer_do :: "('a, 'p, 'b) buffer_api \<Rightarrow> 'a buffer_call \<Rightarrow> 'p option \<times> 'b \<Rightarrow>
    ('a buffer_result \<times> 'p option \<times> 'b) option" where
  "buffer_do B (BPush x) (h, b) = do { (ok, b') \<leftarrow> b_push B x b; Some (BFlag ok, h, b') }"
| "buffer_do B (BPushList xs) (h, b) = do { (n, b') \<leftarrow> b_push_list B xs b; Some (BCount n, h, b') }"
| "buffer_do B BPop (h, b) = do { (v, b') \<leftarrow> b_pop B b; Some (BValue v, h, b') }"
| "buffer_do B BPopList (h, b) = do { (vs, n, b') \<leftarrow> b_pop_list B b; Some (BValues vs n, h, b') }"
| "buffer_do B BHold (h, b) =
     do { (p, b') \<leftarrow> b_pop_without_release B b; Some (BFlag (p \<noteq> None), p, b') }"
| "buffer_do B BLook (h, b) = Some (BValue (map_option (b_deref B b) h), h, b)"
| "buffer_do B BRelease (h, b) =
     do { p \<leftarrow> h; b' \<leftarrow> b_release B p b; Some (BDone, None, b') }"
| "buffer_do B BClear (h, b) = do { b' \<leftarrow> b_clear B b; Some (BDone, h, b') }"
| "buffer_do B BSize (h, b) = Some (BCount (b_size B b), h, b)"
| "buffer_do B BCapacity (h, b) = Some (BCount (b_capacity B b), h, b)"
| "buffer_do B BEmpty (h, b) = Some (BFlag (b_empty B b), h, b)"
| "buffer_do B BFull (h, b) = Some (BFlag (b_full B b), h, b)"
| "buffer_do B (BDataSample x) (h, b) =
     do { b' \<leftarrow> b_data_sample B x b; Some (BDone, h, b') }"

fun buffer_run :: "('a, 'p, 'b) buffer_api \<Rightarrow> 'a buffer_call list \<Rightarrow> 'p option \<times> 'b \<Rightarrow>
    ('a buffer_result list \<times> 'p option \<times> 'b) option" where
  "buffer_run B [] s = Some ([], s)"
| "buffer_run B (c # cs) s =
     do { (r, s') \<leftarrow> buffer_do B c s; (rs, s'') \<leftarrow> buffer_run B cs s'; Some (r # rs, s'') }"

text \<open>What a user has to keep to: it pops the next sample with \<^verbatim>\<open>PopWithoutRelease\<close> only after
  it released the last one, as the documentation of the interface asks, releases only what it popped,
  and gives the buffer a new data sample only while the buffer is empty and it holds nothing. The
  discipline is judged on the bounded list.\<close>

fun proper_call :: "'a buffer_call \<Rightarrow> 'a option \<times> 'a list \<Rightarrow> bool" where
  "proper_call BHold (h, xs) \<longleftrightarrow> h = None"
| "proper_call BRelease (h, xs) \<longleftrightarrow> h \<noteq> None"
| "proper_call (BDataSample x) (h, xs) \<longleftrightarrow> h = None \<and> xs = []"
| "proper_call _ _ \<longleftrightarrow> True"

fun disciplined :: "nat \<Rightarrow> bool \<Rightarrow> 'a buffer_call list \<Rightarrow> 'a option \<times> 'a list \<Rightarrow> bool" where
  "disciplined cap circ [] s \<longleftrightarrow> True"
| "disciplined cap circ (c # cs) s \<longleftrightarrow> proper_call c s \<and>
     (case buffer_do (list_buffer cap circ) c s of None \<Rightarrow> True | Some (r, s') \<Rightarrow> disciplined cap circ cs s')"

section \<open>The contract\<close>

definition held_list :: "'p option \<Rightarrow> 'p list" where
  "held_list h = (case h of None \<Rightarrow> [] | Some p \<Rightarrow> [p])"

lemma held_list_simps [simp]: "held_list None = []" "held_list (Some p) = [p]"
  "length (held_list h) \<le> 1"
  by (auto simp: held_list_def split: option.split)

locale sample_buffer =
  fixes B :: "('a, 'p, 'b) buffer_api"
    and circ :: "'b \<Rightarrow> bool"
    and contents :: "'b \<Rightarrow> 'a list"
    and valid :: "'b \<Rightarrow> 'p list \<Rightarrow> bool"
  assumes bound: "valid b ps \<Longrightarrow> 0 < b_capacity B b \<and> length (contents b) \<le> b_capacity B b"
    and push: "valid b ps \<Longrightarrow> length ps \<le> 1 \<Longrightarrow>
      \<exists>ok b'. b_push B x b = Some (ok, b') \<and> valid b' ps \<and>
        (ok, contents b') = spec_push (b_capacity B b) (circ b) x (contents b) \<and>
        b_capacity B b' = b_capacity B b \<and> circ b' = circ b \<and>
        (\<forall>p \<in> set ps. b_deref B b' p = b_deref B b p)"
    and push_list: "valid b ps \<Longrightarrow> length ps \<le> 1 \<Longrightarrow>
      \<exists>n b'. b_push_list B xs b = Some (n, b') \<and> valid b' ps \<and>
        (n, contents b') = spec_push_each (b_capacity B b) (circ b) xs (contents b) \<and>
        b_capacity B b' = b_capacity B b \<and> circ b' = circ b \<and>
        (\<forall>p \<in> set ps. b_deref B b' p = b_deref B b p)"
    and pop: "valid b ps \<Longrightarrow>
      \<exists>b'. b_pop B b = Some (case contents b of [] \<Rightarrow> None | x # _ \<Rightarrow> Some x, b') \<and> valid b' ps \<and>
        contents b' = tl (contents b) \<and> b_capacity B b' = b_capacity B b \<and> circ b' = circ b \<and>
        (\<forall>p \<in> set ps. b_deref B b' p = b_deref B b p)"
    and pop_list: "valid b ps \<Longrightarrow>
      \<exists>b'. b_pop_list B b = Some (contents b, length (contents b), b') \<and> valid b' ps \<and>
        contents b' = [] \<and> b_capacity B b' = b_capacity B b \<and> circ b' = circ b \<and>
        (\<forall>p \<in> set ps. b_deref B b' p = b_deref B b p)"
    and pop_without_release_empty: "valid b ps \<Longrightarrow> contents b = [] \<Longrightarrow>
      b_pop_without_release B b = Some (None, b)"
    and pop_without_release_first: "valid b ps \<Longrightarrow> length ps \<le> 1 \<Longrightarrow> contents b = x # xs \<Longrightarrow>
      \<exists>p b'. b_pop_without_release B b = Some (Some p, b') \<and> valid b' (ps @ [p]) \<and>
        contents b' = xs \<and> b_deref B b' p = x \<and> b_capacity B b' = b_capacity B b \<and> circ b' = circ b"
    and release: "valid b (p # ps) \<Longrightarrow>
      \<exists>b'. b_release B p b = Some b' \<and> valid b' ps \<and> contents b' = contents b \<and>
        b_capacity B b' = b_capacity B b \<and> circ b' = circ b \<and>
        (\<forall>q \<in> set ps. b_deref B b' q = b_deref B b q)"
    and clear: "valid b ps \<Longrightarrow>
      \<exists>b'. b_clear B b = Some b' \<and> valid b' ps \<and> contents b' = [] \<and>
        b_capacity B b' = b_capacity B b \<and> circ b' = circ b \<and>
        (\<forall>q \<in> set ps. b_deref B b' q = b_deref B b q)"
    and data_sample: "valid b [] \<Longrightarrow> contents b = [] \<Longrightarrow>
      \<exists>b'. b_data_sample B x b = Some b' \<and> valid b' [] \<and> contents b' = [] \<and>
        b_capacity B b' = b_capacity B b \<and> circ b' = circ b"
    and size_contents: "valid b ps \<Longrightarrow> b_size B b = length (contents b)"
    and empty_contents: "valid b ps \<Longrightarrow> b_empty B b \<longleftrightarrow> contents b = []"
    and full_contents: "valid b ps \<Longrightarrow> b_full B b \<longleftrightarrow> length (contents b) = b_capacity B b"

begin

lemma held_list_deref:
  "(\<forall>p \<in> set (held_list h). b_deref B b' p = b_deref B b p) \<longleftrightarrow>
   map_option (b_deref B b') h = map_option (b_deref B b) h"
  by (cases h) auto

text \<open>One call on the buffer and the same call on its list give the same result.\<close>

lemma do_refines:
  assumes v: "valid b (held_list h)" and cap: "b_capacity B b = cap" and c: "circ b = cc"
    and proper: "proper_call call (map_option (b_deref B b) h, contents b)"
  obtains r h' b' where "buffer_do B call (h, b) = Some (r, h', b')" and "valid b' (held_list h')"
    and "b_capacity B b' = cap" and "circ b' = cc"
    and "buffer_do (list_buffer cap cc) call (map_option (b_deref B b) h, contents b) =
         Some (r, map_option (b_deref B b') h', contents b')"
proof (cases call)
  case (BPush x)
  from push [OF v held_list_simps(3), of x] obtain ok b' where "b_push B x b = Some (ok, b')" and "valid b' (held_list h)"
    and "spec_push cap cc x (contents b) = (ok, contents b')" and "b_capacity B b' = cap" and "circ b' = cc"
    and "map_option (b_deref B b') h = map_option (b_deref B b) h"
    using cap c by (auto simp: held_list_deref)
  with BPush show ?thesis by (intro that [of "BFlag ok" h b']) (auto simp: list_buffer_def)
next
  case (BPushList xs)
  from push_list [OF v held_list_simps(3), of xs] obtain n b' where "b_push_list B xs b = Some (n, b')"
    and "valid b' (held_list h)" and "spec_push_each cap cc xs (contents b) = (n, contents b')"
    and "b_capacity B b' = cap" and "circ b' = cc"
    and "map_option (b_deref B b') h = map_option (b_deref B b) h"
    using cap c by (auto simp: held_list_deref)
  with BPushList show ?thesis by (intro that [of "BCount n" h b']) (auto simp: list_buffer_def)
next
  case BPop
  from pop [OF v] obtain b' where
    "b_pop B b = Some (case contents b of [] \<Rightarrow> None | x # _ \<Rightarrow> Some x, b')" and "valid b' (held_list h)"
    and "contents b' = tl (contents b)" and "b_capacity B b' = cap" and "circ b' = cc"
    and "map_option (b_deref B b') h = map_option (b_deref B b) h"
    using cap c by (auto simp: held_list_deref)
  with BPop show ?thesis
    by (intro that [of "BValue (case contents b of [] \<Rightarrow> None | x # _ \<Rightarrow> Some x)" h b'])
      (auto simp: list_buffer_def)
next
  case BPopList
  from pop_list [OF v] obtain b' where "b_pop_list B b = Some (contents b, length (contents b), b')"
    and "valid b' (held_list h)" and "contents b' = []" and "b_capacity B b' = cap" and "circ b' = cc"
    and "map_option (b_deref B b') h = map_option (b_deref B b) h"
    using cap c by (auto simp: held_list_deref)
  with BPopList show ?thesis
    by (intro that [of "BValues (contents b) (length (contents b))" h b']) (auto simp: list_buffer_def)
next
  case BHold
  with proper have None: "h = None" by simp
  show ?thesis
  proof (cases "contents b")
    case Nil
    with None BHold v cap c pop_without_release_empty [OF v] show ?thesis
      by (intro that [of "BFlag False" None b]) (auto simp: list_buffer_def)
  next
    case (Cons x xs)
    with pop_without_release_first [OF v _ Cons] None obtain p b' where
      "b_pop_without_release B b = Some (Some p, b')" and "valid b' [p]" and "contents b' = xs"
      and "b_deref B b' p = x" and "b_capacity B b' = cap" and "circ b' = cc"
      using cap c by auto
    with Cons None BHold show ?thesis
      by (intro that [of "BFlag True" "Some p" b']) (auto simp: list_buffer_def)
  qed
next
  case BRelease
  with proper obtain p where Some: "h = Some p" by (cases h) auto
  with v release [of b p "[]"] obtain b' where "b_release B p b = Some b'" and "valid b' []"
    and "contents b' = contents b" and "b_capacity B b' = cap" and "circ b' = cc"
    using cap c by auto
  with Some BRelease show ?thesis by (intro that [of BDone None b']) (auto simp: list_buffer_def)
next
  case BClear
  from clear [OF v] obtain b' where "b_clear B b = Some b'" and "valid b' (held_list h)"
    and "contents b' = []" and "b_capacity B b' = cap" and "circ b' = cc"
    and "map_option (b_deref B b') h = map_option (b_deref B b) h"
    using cap c by (auto simp: held_list_deref)
  with BClear show ?thesis by (intro that [of BDone h b']) (auto simp: list_buffer_def)
next
  case (BDataSample x)
  with proper have True: "contents b = []" "h = None" by simp_all
  with v data_sample [of b x] obtain b' where "b_data_sample B x b = Some b'" and "valid b' []"
    and "contents b' = []" and "b_capacity B b' = cap" and "circ b' = cc"
    using cap c by auto
  with True BDataSample show ?thesis by (intro that [of BDone None b']) (auto simp: list_buffer_def)
qed (use v cap c that in \<open>auto simp: list_buffer_def size_contents empty_contents full_contents option.map_ident\<close>)

theorem run_refines:
  assumes "valid b (held_list h)" and "b_capacity B b = cap" and "circ b = cc"
    and "disciplined cap cc calls (map_option (b_deref B b) h, contents b)"
  shows "map_option fst (buffer_run B calls (h, b)) =
         map_option fst (buffer_run (list_buffer cap cc) calls (map_option (b_deref B b) h, contents b))
       \<and> buffer_run B calls (h, b) \<noteq> None"
  using assms
proof (induction calls arbitrary: h b)
  case Nil
  then show ?case by simp
next
  case (Cons call calls)
  from Cons.prems(4) have "proper_call call (map_option (b_deref B b) h, contents b)" by simp
  then obtain r h' b' where "buffer_do B call (h, b) = Some (r, h', b')" and "valid b' (held_list h')"
    and "b_capacity B b' = cap" and "circ b' = cc"
    and "buffer_do (list_buffer cap cc) call (map_option (b_deref B b) h, contents b) =
         Some (r, map_option (b_deref B b') h', contents b')"
    using do_refines [OF Cons.prems(1-3)] by metis
  with Cons.IH [of b' h'] Cons.prems(4) show ?case
    by (auto simp: map_option_case split: option.splits)
qed

end

end
