(* ===== verification/BufferLocked.thy ===== *)
theory BufferLocked
  imports BufferSpec
begin

text \<open>
  \<^verbatim>\<open>base::BufferLocked<T>\<close> and \<^verbatim>\<open>base::BufferUnSync<T>\<close> (\<^verbatim>\<open>rtt/base/BufferLocked.hpp\<close>,
  \<^verbatim>\<open>rtt/base/BufferUnSync.hpp\<close>): a \<^verbatim>\<open>std::deque\<close> of at most \<^verbatim>\<open>cap\<close> elements. Every member
  function of \<^verbatim>\<open>BufferLocked\<close> holds the mutex for its whole body, so each call is one atomic
  step; \<^verbatim>\<open>BufferUnSync\<close> has the same bodies without the mutex, except for \<^verbatim>\<open>data_sample\<close>. The only
  pointer handed out is \<^verbatim>\<open>&lastSample\<close>, the value of type \<open>unit\<close>. A \<^verbatim>\<open>pop_front\<close> on an empty
  deque is undefined, as is an iterator outside the given vector.
\<close>

section \<open>State and operations\<close>

record 'a locked_buffer =
  lb_cap :: nat
  lb_buf :: "'a list"
  lb_last :: 'a
  lb_circular :: bool

definition deque_pop_front :: "'a list \<Rightarrow> 'a list option" where
  "deque_pop_front xs = (case xs of [] \<Rightarrow> None | _ # ys \<Rightarrow> Some ys)"

text \<open>\<^verbatim>\<open>data_sample(sample)\<close>: \<^verbatim>\<open>resize(cap, sample)\<close> and \<^verbatim>\<open>resize(0)\<close> leave the deque
  empty. \<^verbatim>\<open>BufferUnSync\<close> does not set \<^verbatim>\<open>lastSample\<close>.\<close>

definition deque_resize :: "nat \<Rightarrow> 'a \<Rightarrow> 'a list \<Rightarrow> 'a list" where
  "deque_resize n x xs = take n xs @ replicate (n - length xs) x"

definition lb_data_sample :: "'a \<Rightarrow> 'a locked_buffer \<Rightarrow> 'a locked_buffer" where
  "lb_data_sample x b =
     b\<lparr>lb_buf := deque_resize 0 x (deque_resize (lb_cap b) x (lb_buf b)), lb_last := x\<rparr>"

definition ub_data_sample :: "'a \<Rightarrow> 'a locked_buffer \<Rightarrow> 'a locked_buffer" where
  "ub_data_sample x b = b\<lparr>lb_buf := deque_resize 0 x (deque_resize (lb_cap b) x (lb_buf b))\<rparr>"

definition lb_new :: "'a \<Rightarrow> nat \<Rightarrow> 'a \<Rightarrow> bool \<Rightarrow> 'a locked_buffer" where
  "lb_new d sz x circ = lb_data_sample x \<lparr>lb_cap = sz, lb_buf = [], lb_last = d, lb_circular = circ\<rparr>"

definition ub_new :: "'a \<Rightarrow> nat \<Rightarrow> 'a \<Rightarrow> bool \<Rightarrow> 'a locked_buffer" where
  "ub_new d sz x circ = ub_data_sample x \<lparr>lb_cap = sz, lb_buf = [], lb_last = d, lb_circular = circ\<rparr>"

definition lb_push :: "'a \<Rightarrow> 'a locked_buffer \<Rightarrow> (bool \<times> 'a locked_buffer) option" where
  "lb_push x b =
     (if lb_cap b = length (lb_buf b) then
        if \<not> lb_circular b then Some (False, b)
        else do { buf \<leftarrow> deque_pop_front (lb_buf b); Some (True, b\<lparr>lb_buf := buf @ [x]\<rparr>) }
      else Some (True, b\<lparr>lb_buf := lb_buf b @ [x]\<rparr>))"

text \<open>The loops of \<^verbatim>\<open>Push(const std::vector<T>&)\<close>: make room at the front, then append while
  there is room. \<open>taken\<close> counts the steps of the iterator.\<close>

fun lb_drop_excess :: "nat \<Rightarrow> nat \<Rightarrow> 'a list \<Rightarrow> 'a list option" where
  "lb_drop_excess cap n [] = (if cap < n then None else Some [])"
| "lb_drop_excess cap n (x # xs) =
     (if cap < length (x # xs) + n then lb_drop_excess cap n xs else Some (x # xs))"

fun lb_append_loop :: "nat \<Rightarrow> 'a list \<Rightarrow> 'a list \<Rightarrow> nat \<times> 'a list" where
  "lb_append_loop cap buf [] = (0, buf)"
| "lb_append_loop cap buf (x # xs) =
     (if length buf = cap then (0, buf)
      else case lb_append_loop cap (buf @ [x]) xs of (n, buf') \<Rightarrow> (Suc n, buf'))"

definition lb_push_list_from :: "bool \<Rightarrow> 'a list \<Rightarrow> 'a locked_buffer \<Rightarrow> (nat \<times> 'a locked_buffer) option" where
  "lb_push_list_from check items b =
     do {
       (start, buf) \<leftarrow>
         (if lb_circular b \<and> lb_cap b \<le> length items
          then Some (length items - lb_cap b, [])
          else if lb_circular b \<and> lb_cap b < length (lb_buf b) + length items
          then do { buf \<leftarrow> lb_drop_excess (lb_cap b) (length items) (lb_buf b); Some (0, buf) }
          else Some (0, lb_buf b));
       let (n, buf') = lb_append_loop (lb_cap b) buf (drop start items);
       if check \<and> lb_circular b \<and> start + n \<noteq> length items then None
       else Some (start + n, b\<lparr>lb_buf := buf'\<rparr>)
     }"

definition lb_push_list :: "'a list \<Rightarrow> 'a locked_buffer \<Rightarrow> (nat \<times> 'a locked_buffer) option" where
  "lb_push_list = lb_push_list_from True"

definition ub_push_list :: "'a list \<Rightarrow> 'a locked_buffer \<Rightarrow> (nat \<times> 'a locked_buffer) option" where
  "ub_push_list = lb_push_list_from False"

definition lb_pop :: "'a locked_buffer \<Rightarrow> ('a option \<times> 'a locked_buffer) option" where
  "lb_pop b =
     (case lb_buf b of
        [] \<Rightarrow> Some (None, b)
      | x # _ \<Rightarrow> do { buf \<leftarrow> deque_pop_front (lb_buf b); Some (Some x, b\<lparr>lb_buf := buf\<rparr>) })"

fun lb_pop_loop :: "'a list \<Rightarrow> 'a list \<Rightarrow> nat \<Rightarrow> 'a list \<times> nat" where
  "lb_pop_loop [] items quant = (items, quant)"
| "lb_pop_loop (x # buf) items quant = lb_pop_loop buf (items @ [x]) (quant + 1)"

definition lb_pop_list :: "'a locked_buffer \<Rightarrow> ('a list \<times> nat \<times> 'a locked_buffer) option" where
  "lb_pop_list b = (case lb_pop_loop (lb_buf b) [] 0 of (items, n) \<Rightarrow> Some (items, n, b\<lparr>lb_buf := []\<rparr>))"

definition lb_pop_without_release :: "'a locked_buffer \<Rightarrow> (unit option \<times> 'a locked_buffer) option" where
  "lb_pop_without_release b =
     (case lb_buf b of
        [] \<Rightarrow> Some (None, b)
      | x # _ \<Rightarrow> do {
          let b1 = b\<lparr>lb_last := x\<rparr>;
          buf \<leftarrow> deque_pop_front (lb_buf b1);
          Some (Some (), b1\<lparr>lb_buf := buf\<rparr>) })"

definition lb_release :: "unit \<Rightarrow> 'a locked_buffer \<Rightarrow> 'a locked_buffer option" where
  "lb_release p b = (if p = () then Some b else None)"

definition lb_clear :: "'a locked_buffer \<Rightarrow> 'a locked_buffer" where
  "lb_clear b = b\<lparr>lb_buf := []\<rparr>"

definition locked_api :: "('a, unit, 'a locked_buffer) buffer_api" where
  "locked_api = \<lparr>b_push = lb_push, b_push_list = lb_push_list, b_pop = lb_pop,
     b_pop_list = lb_pop_list, b_pop_without_release = lb_pop_without_release,
     b_release = lb_release, b_deref = (\<lambda>b _. lb_last b),
     b_data_sample = (\<lambda>x b. Some (lb_data_sample x b)), b_capacity = lb_cap,
     b_size = (\<lambda>b. length (lb_buf b)), b_empty = (\<lambda>b. lb_buf b = []),
     b_full = (\<lambda>b. length (lb_buf b) = lb_cap b), b_clear = (\<lambda>b. Some (lb_clear b))\<rparr>"

definition unsync_api :: "('a, unit, 'a locked_buffer) buffer_api" where
  "unsync_api = locked_api\<lparr>b_push_list := ub_push_list,
                           b_data_sample := (\<lambda>x b. Some (ub_data_sample x b))\<rparr>"

section \<open>Each operation against the list specification\<close>

definition lb_valid :: "'a locked_buffer \<Rightarrow> unit list \<Rightarrow> bool" where
  "lb_valid b ps \<longleftrightarrow> 0 < lb_cap b \<and> length (lb_buf b) \<le> lb_cap b"

lemma lb_push_spec:
  assumes "lb_valid b ps"
  shows "\<exists>ok b'. lb_push x b = Some (ok, b') \<and> lb_valid b' ps \<and>
     (ok, lb_buf b') = spec_push (lb_cap b) (lb_circular b) x (lb_buf b) \<and>
     lb_cap b' = lb_cap b \<and> lb_circular b' = lb_circular b \<and> lb_last b' = lb_last b"
  using assms
  by (cases "lb_buf b") (auto simp: lb_push_def lb_valid_def spec_push_def deque_pop_front_def)

lemma lb_drop_excess_drop:
  "n \<le> cap \<Longrightarrow> lb_drop_excess cap n xs = Some (drop (length xs + n - cap) xs)"
  by (induction xs) (auto simp: Suc_diff_le drop_Cons')

lemma lb_append_loop_take:
  "length buf \<le> cap \<Longrightarrow>
   lb_append_loop cap buf xs = (min (cap - length buf) (length xs), buf @ take (cap - length buf) xs)"
  by (induction xs arbitrary: buf)
    (auto simp: Suc_diff_Suc take_Cons' Suc_diff_le simp flip: append.append_Cons)

lemma lb_push_list_spec:
  assumes "lb_valid b ps"
  shows "\<exists>n b'. lb_push_list_from check xs b = Some (n, b') \<and> lb_valid b' ps \<and>
     (n, lb_buf b') = spec_push_each (lb_cap b) (lb_circular b) xs (lb_buf b) \<and>
     lb_cap b' = lb_cap b \<and> lb_circular b' = lb_circular b \<and> lb_last b' = lb_last b"
  using assms
  by (cases "lb_circular b")
    (auto simp: lb_push_list_from_def lb_valid_def spec_push_each_circular spec_push_each_plain
      lb_drop_excess_drop lb_append_loop_take)

lemma lb_pop_loop_all: "lb_pop_loop buf items quant = (items @ buf, quant + length buf)"
  by (induction buf arbitrary: items quant) auto

lemma lb_pop_spec:
  "\<exists>b'. lb_pop b = Some (case lb_buf b of [] \<Rightarrow> None | x # _ \<Rightarrow> Some x, b') \<and>
        lb_buf b' = tl (lb_buf b) \<and> lb_cap b' = lb_cap b \<and> lb_circular b' = lb_circular b \<and>
        lb_last b' = lb_last b"
  by (cases "lb_buf b") (auto simp: lb_pop_def deque_pop_front_def)

lemma lb_pop_list_spec:
  "lb_pop_list b = Some (lb_buf b, length (lb_buf b), b\<lparr>lb_buf := []\<rparr>)"
  by (simp add: lb_pop_list_def lb_pop_loop_all)

lemma lb_pop_without_release_spec:
  "lb_pop_without_release b =
     Some (case lb_buf b of [] \<Rightarrow> (None, b) | x # xs \<Rightarrow> (Some (), b\<lparr>lb_last := x, lb_buf := xs\<rparr>))"
  by (simp add: lb_pop_without_release_def deque_pop_front_def split: list.split)

lemmas locked_api_simps = locked_api_def unsync_api_def

interpretation locked: sample_buffer locked_api lb_circular lb_buf lb_valid
proof unfold_locales
  fix b :: "'a locked_buffer" and ps :: "unit list" and x :: 'a and xs :: "'a list"
  assume v: "lb_valid b ps"
  then show "0 < b_capacity locked_api b \<and> length (lb_buf b) \<le> b_capacity locked_api b"
    by (simp add: locked_api_def lb_valid_def)
  from v lb_push_spec [of b ps x]
  show "\<exists>ok b'. b_push locked_api x b = Some (ok, b') \<and> lb_valid b' ps \<and>
      (ok, lb_buf b') = spec_push (b_capacity locked_api b) (lb_circular b) x (lb_buf b) \<and>
      b_capacity locked_api b' = b_capacity locked_api b \<and> lb_circular b' = lb_circular b \<and>
      (\<forall>p\<in>set ps. b_deref locked_api b' p = b_deref locked_api b p)"
    by (auto simp: locked_api_def)
  from v lb_push_list_spec [of b ps True xs]
  show "\<exists>n b'. b_push_list locked_api xs b = Some (n, b') \<and> lb_valid b' ps \<and>
      (n, lb_buf b') = spec_push_each (b_capacity locked_api b) (lb_circular b) xs (lb_buf b) \<and>
      b_capacity locked_api b' = b_capacity locked_api b \<and> lb_circular b' = lb_circular b \<and>
      (\<forall>p\<in>set ps. b_deref locked_api b' p = b_deref locked_api b p)"
    by (auto simp: locked_api_def lb_push_list_def)
  from v lb_pop_spec [of b]
  show "\<exists>b'. b_pop locked_api b = Some (case lb_buf b of [] \<Rightarrow> None | x # _ \<Rightarrow> Some x, b') \<and>
      lb_valid b' ps \<and> lb_buf b' = tl (lb_buf b) \<and> b_capacity locked_api b' = b_capacity locked_api b \<and>
      lb_circular b' = lb_circular b \<and> (\<forall>p\<in>set ps. b_deref locked_api b' p = b_deref locked_api b p)"
    by (auto simp: locked_api_def lb_valid_def)
next
  fix b :: "'a locked_buffer" and ps :: "unit list" and x :: 'a and xs :: "'a list"
  assume "lb_valid b ps" and "lb_buf b = x # xs"
  then show "\<exists>p b'. b_pop_without_release locked_api b = Some (Some p, b') \<and> lb_valid b' (ps @ [p]) \<and>
      lb_buf b' = xs \<and> b_deref locked_api b' p = x \<and>
      b_capacity locked_api b' = b_capacity locked_api b \<and> lb_circular b' = lb_circular b"
    by (auto simp: locked_api_def lb_pop_without_release_spec lb_valid_def)
qed (auto simp: locked_api_def lb_pop_list_spec lb_pop_without_release_spec lb_release_def lb_clear_def
      lb_data_sample_def deque_resize_def lb_valid_def)

interpretation unsync: sample_buffer unsync_api lb_circular lb_buf lb_valid
proof unfold_locales
  fix b :: "'a locked_buffer" and ps :: "unit list" and x :: 'a and xs :: "'a list"
  assume v: "lb_valid b ps"
  then show "0 < b_capacity unsync_api b \<and> length (lb_buf b) \<le> b_capacity unsync_api b"
    by (simp add: locked_api_simps lb_valid_def)
  from v lb_push_spec [of b ps x]
  show "\<exists>ok b'. b_push unsync_api x b = Some (ok, b') \<and> lb_valid b' ps \<and>
      (ok, lb_buf b') = spec_push (b_capacity unsync_api b) (lb_circular b) x (lb_buf b) \<and>
      b_capacity unsync_api b' = b_capacity unsync_api b \<and> lb_circular b' = lb_circular b \<and>
      (\<forall>p\<in>set ps. b_deref unsync_api b' p = b_deref unsync_api b p)"
    by (auto simp: locked_api_simps)
  from v lb_push_list_spec [of b ps False xs]
  show "\<exists>n b'. b_push_list unsync_api xs b = Some (n, b') \<and> lb_valid b' ps \<and>
      (n, lb_buf b') = spec_push_each (b_capacity unsync_api b) (lb_circular b) xs (lb_buf b) \<and>
      b_capacity unsync_api b' = b_capacity unsync_api b \<and> lb_circular b' = lb_circular b \<and>
      (\<forall>p\<in>set ps. b_deref unsync_api b' p = b_deref unsync_api b p)"
    by (auto simp: locked_api_simps ub_push_list_def)
  from v lb_pop_spec [of b]
  show "\<exists>b'. b_pop unsync_api b = Some (case lb_buf b of [] \<Rightarrow> None | x # _ \<Rightarrow> Some x, b') \<and>
      lb_valid b' ps \<and> lb_buf b' = tl (lb_buf b) \<and> b_capacity unsync_api b' = b_capacity unsync_api b \<and>
      lb_circular b' = lb_circular b \<and> (\<forall>p\<in>set ps. b_deref unsync_api b' p = b_deref unsync_api b p)"
    by (auto simp: locked_api_simps lb_valid_def)
next
  fix b :: "'a locked_buffer" and ps :: "unit list" and x :: 'a and xs :: "'a list"
  assume "lb_valid b ps" and "lb_buf b = x # xs"
  then show "\<exists>p b'. b_pop_without_release unsync_api b = Some (Some p, b') \<and> lb_valid b' (ps @ [p]) \<and>
      lb_buf b' = xs \<and> b_deref unsync_api b' p = x \<and>
      b_capacity unsync_api b' = b_capacity unsync_api b \<and> lb_circular b' = lb_circular b"
    by (auto simp: locked_api_simps lb_pop_without_release_spec lb_valid_def)
qed (auto simp: locked_api_simps lb_pop_list_spec lb_pop_without_release_spec lb_release_def lb_clear_def
      ub_data_sample_def deque_resize_def lb_valid_def)

section \<open>Properties\<close>

lemma lb_new_valid:
  assumes "0 < sz"
  shows "lb_valid (lb_new d sz x circ) []" and "lb_buf (lb_new d sz x circ) = []"
    and "lb_cap (lb_new d sz x circ) = sz" and "lb_circular (lb_new d sz x circ) = circ"
    and "lb_valid (ub_new d sz x circ) []" and "lb_buf (ub_new d sz x circ) = []"
    and "lb_cap (ub_new d sz x circ) = sz" and "lb_circular (ub_new d sz x circ) = circ"
  using assms
  by (simp_all add: lb_new_def ub_new_def lb_data_sample_def ub_data_sample_def deque_resize_def lb_valid_def)

text \<open>a locked and an unsynchronised buffer of at least one element keep the contract of
  \<^verbatim>\<open>BufferInterface\<close>: no disciplined sequence of calls can tell either from the bounded list, and no call
  pops an empty deque or moves an iterator out of its vector.\<close>

theorem locked_behaves_as_list:
  assumes "0 < sz" and "disciplined sz circ calls (None, [])"
  shows "map_option fst (buffer_run locked_api calls (None, lb_new d sz x circ)) =
         map_option fst (buffer_run (list_buffer sz circ) calls (None, []))
       \<and> map_option fst (buffer_run unsync_api calls (None, ub_new d sz x circ)) =
         map_option fst (buffer_run (list_buffer sz circ) calls (None, []))
       \<and> buffer_run locked_api calls (None, lb_new d sz x circ) \<noteq> None
       \<and> buffer_run unsync_api calls (None, ub_new d sz x circ) \<noteq> None"
  using locked.run_refines [of "lb_new d sz x circ" None sz circ calls]
    unsync.run_refines [of "ub_new d sz x circ" None sz circ calls]
  by (simp add: locked_api_simps lb_new_valid [OF assms(1)] assms(2))

theorem locked_behaves_as_list_witness:
  "map_option fst (buffer_run locked_api [BPush 1, BPushList [2, 3], BPop, BFull] (None, lb_new 0 2 0 True)) =
   Some [BFlag True, BCount 2, BValue (Some (2::nat)), BFlag False]"
proof -
  have "0 < (2::nat)" "disciplined 2 True [BPush 1, BPushList [2, 3], BPop, BFull] (None, [] :: nat list)"
    by (simp_all add: list_buffer_def spec_push_def)
  note same = locked_behaves_as_list [OF this, THEN conjunct1]
  show ?thesis unfolding same by (simp add: list_buffer_def spec_push_def)
qed

end
