(* ===== verification/BufferLockFree.thy ===== *)
theory BufferLockFree
  imports MWSRQueue TsPool BufferSpec
begin

text \<open>
  \<^verbatim>\<open>base::BufferLockFree<T>\<close> (\<^verbatim>\<open>rtt/base/BufferLockFree.hpp\<close>): a queue of pointers
  (\<open>MWSRQueue\<close>) into a memory pool with one item more than the queue can hold (\<open>TsPool\<close>).
  A pointer is the index of its item. Each call is executed without interference here; the
  interleavings of the two structures are the theories \<open>TsPoolConc\<close> and \<open>MWSRQueueConc\<close>.
  The result \<open>None\<close> is a failed \<^verbatim>\<open>assert\<close>, undefined behaviour or a loop that never ends.
\<close>

section \<open>State and operations\<close>

record 'a lock_free_buffer =
  bufs :: "nat mwsr"
  mpool :: "'a tspool"
  mcircular :: bool

definition lf_capacity :: "'a lock_free_buffer \<Rightarrow> nat" where
  "lf_capacity b = mw_capacity (bufs b)"

definition lf_size :: "'a lock_free_buffer \<Rightarrow> nat" where
  "lf_size b = mw_count (bufs b)"

definition lf_data_sample :: "'a \<Rightarrow> 'a lock_free_buffer \<Rightarrow> 'a lock_free_buffer option" where
  "lf_data_sample x b = do { p \<leftarrow> tspool_data_sample x (mpool b); Some (b\<lparr>mpool := p\<rparr>) }"

definition lf_new :: "'a \<Rightarrow> nat \<Rightarrow> 'a \<Rightarrow> bool \<Rightarrow> 'a lock_free_buffer option" where
  "lf_new d bufsize x circ =
     do {
       p \<leftarrow> tspool_new d (bufsize + 1) d;
       p \<leftarrow> tspool_data_sample x p;
       Some \<lparr>bufs = mw_new None bufsize, mpool = p, mcircular = circ\<rparr>
     }"

text \<open>\<^verbatim>\<open>data_sample() const\<close> borrows an item of the pool to read a sample.\<close>

definition lf_sample :: "'a \<Rightarrow> 'a lock_free_buffer \<Rightarrow> ('a \<times> 'a lock_free_buffer) option" where
  "lf_sample d b =
     do {
       (mitem, p) \<leftarrow> tspool_allocate (mpool b);
       case mitem of
         None \<Rightarrow> Some (d, b\<lparr>mpool := p\<rparr>)
       | Some i \<Rightarrow> do { (_, p') \<leftarrow> tspool_deallocate (Some i) p; Some (item_read p i, b\<lparr>mpool := p'\<rparr>) }
     }"

partial_function (option) lf_clear :: "'a lock_free_buffer \<Rightarrow> 'a lock_free_buffer option" where
  "lf_clear b =
     (case mw_dequeue (bufs b) of
        (None, q) \<Rightarrow> Some (b\<lparr>bufs := q\<rparr>)
      | (Some i, q) \<Rightarrow>
          do { (_, p) \<leftarrow> tspool_deallocate (Some i) (mpool b); lf_clear (b\<lparr>bufs := q, mpool := p\<rparr>) })"

text \<open>The loop \<^verbatim>\<open>do { dequeue(itmp); deallocate(itmp); } while (enqueue(mitem) == false)\<close>: a
  failed \<^verbatim>\<open>dequeue\<close> leaves \<^verbatim>\<open>itmp\<close> as it was.\<close>

partial_function (option) lf_make_room ::
  "nat \<Rightarrow> nat option \<Rightarrow> 'a lock_free_buffer \<Rightarrow> 'a lock_free_buffer option" where
  "lf_make_room mitem itmp b =
     (case mw_dequeue (bufs b) of (r, q) \<Rightarrow>
        let itmp' = (case r of None \<Rightarrow> itmp | Some _ \<Rightarrow> r) in
        do {
          (_, p) \<leftarrow> tspool_deallocate itmp' (mpool b);
          case mw_enqueue (Some mitem) q of (ok, q') \<Rightarrow>
            if ok then Some (b\<lparr>mpool := p, bufs := q'\<rparr>)
            else lf_make_room mitem itmp' (b\<lparr>mpool := p, bufs := q'\<rparr>)
        })"

declare lf_clear.simps [code] lf_make_room.simps [code]

definition lf_store :: "'a \<Rightarrow> nat \<Rightarrow> 'a lock_free_buffer \<Rightarrow> (bool \<times> 'a lock_free_buffer) option" where
  "lf_store x mitem b =
     (let b1 = b\<lparr>mpool := item_write mitem x (mpool b)\<rparr> in
      case mw_enqueue (Some mitem) (bufs b1) of
        (True, q) \<Rightarrow> Some (True, b1\<lparr>bufs := q\<rparr>)
      | (False, q) \<Rightarrow>
          if \<not> mcircular b1 then
            do { (_, p) \<leftarrow> tspool_deallocate (Some mitem) (mpool b1); Some (False, b1\<lparr>bufs := q, mpool := p\<rparr>) }
          else do { b2 \<leftarrow> lf_make_room mitem None (b1\<lparr>bufs := q\<rparr>); Some (True, b2) })"

definition lf_push :: "'a \<Rightarrow> 'a lock_free_buffer \<Rightarrow> (bool \<times> 'a lock_free_buffer) option" where
  "lf_push x b =
     (if lf_capacity b = lf_size b \<and> \<not> mcircular b then Some (False, b)
      else do {
        (mitem, p) \<leftarrow> tspool_allocate (mpool b);
        let b1 = b\<lparr>mpool := p\<rparr>;
        case mitem of
          Some i \<Rightarrow> lf_store x i b1
        | None \<Rightarrow>
            if \<not> mcircular b1 then Some (False, b1)
            else (case mw_dequeue (bufs b1) of
                    (None, q) \<Rightarrow> Some (False, b1\<lparr>bufs := q\<rparr>)
                  | (Some i, q) \<Rightarrow> lf_store x i (b1\<lparr>bufs := q\<rparr>))
      })"

text \<open>\<^verbatim>\<open>Push(const std::vector<T>&)\<close> returns how many items were pushed before the first
  refusal.\<close>

fun lf_push_list :: "'a list \<Rightarrow> 'a lock_free_buffer \<Rightarrow> (nat \<times> 'a lock_free_buffer) option" where
  "lf_push_list [] b = Some (0, b)"
| "lf_push_list (x # xs) b =
     do {
       (ok, b1) \<leftarrow> lf_push x b;
       if \<not> ok then Some (0, b1)
       else do { (n, b2) \<leftarrow> lf_push_list xs b1; Some (Suc n, b2) }
     }"

definition lf_release :: "nat \<Rightarrow> 'a lock_free_buffer \<Rightarrow> 'a lock_free_buffer option" where
  "lf_release i b =
     do {
       (ok, p) \<leftarrow> tspool_deallocate (Some i) (mpool b);
       if ok then Some (b\<lparr>mpool := p\<rparr>) else None
     }"

definition lf_pop_without_release ::
  "'a lock_free_buffer \<Rightarrow> (nat option \<times> 'a lock_free_buffer) option" where
  "lf_pop_without_release b =
     (case mw_dequeue (bufs b) of (ipop, q) \<Rightarrow> Some (ipop, b\<lparr>bufs := q\<rparr>))"

definition lf_pop :: "'a lock_free_buffer \<Rightarrow> ('a option \<times> 'a lock_free_buffer) option" where
  "lf_pop b =
     (case mw_dequeue (bufs b) of
        (None, q) \<Rightarrow> Some (None, b\<lparr>bufs := q\<rparr>)
      | (Some i, q) \<Rightarrow>
          do {
            (ok, p) \<leftarrow> tspool_deallocate (Some i) (mpool b);
            if ok then Some (Some (item_read (mpool b) i), b\<lparr>bufs := q, mpool := p\<rparr>) else None
          })"

partial_function (option) lf_pop_loop ::
  "'a list \<Rightarrow> 'a lock_free_buffer \<Rightarrow> ('a list \<times> 'a lock_free_buffer) option" where
  "lf_pop_loop items b =
     (case mw_dequeue (bufs b) of
        (None, q) \<Rightarrow> Some (items, b\<lparr>bufs := q\<rparr>)
      | (Some i, q) \<Rightarrow>
          do {
            (ok, p) \<leftarrow> tspool_deallocate (Some i) (mpool b);
            if ok then lf_pop_loop (items @ [item_read (mpool b) i]) (b\<lparr>bufs := q, mpool := p\<rparr>) else None
          })"

declare lf_pop_loop.simps [code]

definition lf_pop_list :: "'a lock_free_buffer \<Rightarrow> ('a list \<times> nat \<times> 'a lock_free_buffer) option" where
  "lf_pop_list b = do { (items, b') \<leftarrow> lf_pop_loop [] b; Some (items, length items, b') }"

definition lock_free_api :: "('a, nat, 'a lock_free_buffer) buffer_api" where
  "lock_free_api = \<lparr>b_push = lf_push, b_push_list = lf_push_list, b_pop = lf_pop,
     b_pop_list = lf_pop_list, b_pop_without_release = lf_pop_without_release,
     b_release = lf_release, b_deref = (\<lambda>b. item_read (mpool b)),
     b_data_sample = lf_data_sample, b_capacity = lf_capacity, b_size = lf_size,
     b_empty = (\<lambda>b. mw_isEmpty (bufs b)), b_full = (\<lambda>b. mw_isFull (bufs b)), b_clear = lf_clear\<rparr>"

section \<open>Who owns an item\<close>

text \<open>Every item of the pool is free (\<open>fl\<close>), in the queue, or handed out to a caller of
  \<^verbatim>\<open>PopWithoutRelease\<close> (\<open>ps\<close>), and in one place only.\<close>

definition lf_owns :: "'a lock_free_buffer \<Rightarrow> nat list \<Rightarrow> nat list \<Rightarrow> bool" where
  "lf_owns b fl ps \<longleftrightarrow>
     mw_inv (bufs b) \<and> pool_wf (mpool b) fl \<and>
     pool_capacity (mpool b) = mw_capacity (bufs b) + 1 \<and>
     distinct (fl @ mw_elems (bufs b) @ ps) \<and>
     set (fl @ mw_elems (bufs b) @ ps) = {..<pool_capacity (mpool b)}"

definition lf_valid :: "'a lock_free_buffer \<Rightarrow> nat list \<Rightarrow> bool" where
  "lf_valid b ps \<longleftrightarrow> 0 < lf_capacity b \<and> (\<exists>fl. lf_owns b fl ps)"

definition lf_contents :: "'a lock_free_buffer \<Rightarrow> 'a list" where
  "lf_contents b = map (item_read (mpool b)) (mw_elems (bufs b))"

lemma lf_owns_count:
  assumes "lf_owns b fl ps"
  shows "length fl + length (mw_elems (bufs b)) + length ps = lf_capacity b + 1"
proof -
  have "card (set (fl @ mw_elems (bufs b) @ ps)) = lf_capacity b + 1"
    using assms by (simp add: lf_owns_def lf_capacity_def)
  moreover have "card (set (fl @ mw_elems (bufs b) @ ps)) = length (fl @ mw_elems (bufs b) @ ps)"
    using assms by (intro distinct_card) (simp add: lf_owns_def)
  ultimately show ?thesis by simp
qed

lemma lf_owns_range: "lf_owns b fl ps \<Longrightarrow> i \<in> set (fl @ mw_elems (bufs b) @ ps) \<Longrightarrow> i < length (pool (mpool b))"
  by (auto simp: lf_owns_def pool_wf_def)

text \<open>Taking an item out of the queue, putting one in, and giving one back to the pool.\<close>

lemma lf_dequeue_cases:
  assumes own: "lf_owns b fl ps"
  obtains (empty) "mw_elems (bufs b) = []" and "mw_dequeue (bufs b) = (None, bufs b)"
  | (first) i "is" q where "mw_elems (bufs b) = i # is" and "mw_dequeue (bufs b) = (Some i, q)"
      and "mw_elems q = is" and "mw_capacity q = mw_capacity (bufs b)"
      and "lf_owns (b\<lparr>bufs := q\<rparr>) fl (i # ps)"
proof -
  have inv: "mw_inv (bufs b)" using own by (simp add: lf_owns_def)
  show ?thesis
  proof (cases "mw_elems (bufs b)")
    case Nil
    with inv empty show ?thesis by (simp add: mw_dequeue_empty)
  next
    case (Cons i "is")
    with inv obtain q where "mw_dequeue (bufs b) = (Some i, q)" and "mw_inv q" and "mw_elems q = is"
      and "mw_capacity q = mw_capacity (bufs b)" using mw_dequeue_first by metis
    with own Cons first show ?thesis by (auto simp: lf_owns_def)
  qed
qed

lemma lf_deallocate:
  assumes own: "lf_owns b fl (i # ps)"
  obtains p where "tspool_deallocate (Some i) (mpool b) = Some (True, p)"
    and "lf_owns (b\<lparr>mpool := p\<rparr>) (i # fl) ps" and "item_read p = item_read (mpool b)"
proof -
  from own have "pool_wf (mpool b) fl" and "i < pool_capacity (mpool b)" and "i \<notin> set fl"
    by (auto simp: lf_owns_def)
  then obtain p where "tspool_deallocate (Some i) (mpool b) = Some (True, p)" and "pool_wf p (i # fl)"
    and "\<And>j. item_read p j = item_read (mpool b) j" and "pool_capacity p = pool_capacity (mpool b)"
    by (rule deallocate_pushes) blast
  with own show ?thesis by (intro that [of p]) (auto simp: lf_owns_def)
qed

lemma lf_enqueue_cases:
  assumes own: "lf_owns b fl (i # ps)"
  obtains (full) "length (mw_elems (bufs b)) = lf_capacity b" and "mw_enqueue (Some i) (bufs b) = (False, bufs b)"
  | (room) q where "length (mw_elems (bufs b)) < lf_capacity b" and "mw_enqueue (Some i) (bufs b) = (True, q)"
      and "mw_elems q = mw_elems (bufs b) @ [i]" and "mw_capacity q = mw_capacity (bufs b)"
      and "lf_owns (b\<lparr>bufs := q\<rparr>) fl ps"
proof -
  have inv: "mw_inv (bufs b)" using own by (simp add: lf_owns_def)
  show ?thesis
  proof (cases "mw_dist (bufs b) < mw_capacity (bufs b)")
    case False
    with mw_dist_le [OF inv] have "mw_dist (bufs b) = mw_capacity (bufs b)" by simp
    with inv full show ?thesis by (simp add: mw_enqueue_full lf_capacity_def)
  next
    case True
    with inv obtain q where "mw_enqueue (Some i) (bufs b) = (True, q)" and "mw_inv q"
      and "mw_elems q = mw_elems (bufs b) @ [i]" and "mw_capacity q = mw_capacity (bufs b)"
      using mw_enqueue_room by metis
    with own room True show ?thesis by (auto simp: lf_owns_def lf_capacity_def)
  qed
qed

lemma lf_owns_write [simp]: "lf_owns (b\<lparr>mpool := item_write i x (mpool b)\<rparr>) fl ps = lf_owns b fl ps"
  by (simp add: lf_owns_def)

lemma lf_read_write:
  assumes "lf_owns b fl (i # ps)"
  shows "item_read (item_write i x (mpool b)) i = x"
    and "j \<in> set (mw_elems (bufs b) @ ps) \<Longrightarrow> item_read (item_write i x (mpool b)) j = item_read (mpool b) j"
proof -
  have "i < length (pool (mpool b))" using lf_owns_range [OF assms, of i] by simp
  then show "item_read (item_write i x (mpool b)) i = x"
    and "j \<in> set (mw_elems (bufs b) @ ps) \<Longrightarrow> item_read (item_write i x (mpool b)) j = item_read (mpool b) j"
    using assms by (auto simp: item_read_write lf_owns_def)
qed

lemma lf_contents_write:
  assumes "lf_owns b fl (i # ps)"
  shows "map (item_read (item_write i x (mpool b))) (mw_elems (bufs b)) = lf_contents b"
  using lf_read_write(2) [OF assms] by (simp add: lf_contents_def)

section \<open>Push\<close>

lemma lf_make_room_drops_oldest:
  assumes own: "lf_owns b fl (i # ps)" and full: "length (mw_elems (bufs b)) = lf_capacity b"
    and pos: "0 < lf_capacity b"
  obtains j "is" b' where "mw_elems (bufs b) = j # is" and "lf_make_room i itmp b = Some b'"
    and "lf_owns b' (j # fl) ps" and "mw_elems (bufs b') = is @ [i]"
    and "item_read (mpool b') = item_read (mpool b)" and "mcircular b' = mcircular b"
    and "lf_capacity b' = lf_capacity b"
  using own
proof (cases rule: lf_dequeue_cases)
  case empty
  with full pos show ?thesis by simp
next
  case (first j "is" q)
  from first(5) obtain p where p: "tspool_deallocate (Some j) (mpool b) = Some (True, p)"
      "lf_owns (b\<lparr>bufs := q, mpool := p\<rparr>) (j # fl) (i # ps)" "item_read p = item_read (mpool b)"
    by (rule lf_deallocate) simp
  from p(2) show ?thesis
  proof (cases rule: lf_enqueue_cases)
    case full
    with first assms(2) show ?thesis by (simp add: lf_capacity_def)
  next
    case (room q')
    have "lf_make_room i itmp b = Some (b\<lparr>mpool := p, bufs := q'\<rparr>)"
      using first p room by (subst lf_make_room.simps) simp
    with first p room that show ?thesis by (simp add: lf_capacity_def)
  qed
qed

lemma lf_store_spec:
  assumes own: "lf_owns b fl (i # ps)" and pos: "0 < lf_capacity b"
  obtains ok b' fl' where "lf_store x i b = Some (ok, b')" and "lf_owns b' fl' ps"
    and "(ok, lf_contents b') = spec_push (lf_capacity b) (mcircular b) x (lf_contents b)"
    and "lf_capacity b' = lf_capacity b" and "mcircular b' = mcircular b"
    and "\<And>p. p \<in> set ps \<Longrightarrow> item_read (mpool b') p = item_read (mpool b) p"
proof -
  define b1 where "b1 = b\<lparr>mpool := item_write i x (mpool b)\<rparr>"
  have b1: "bufs b1 = bufs b" "mcircular b1 = mcircular b" "lf_capacity b1 = lf_capacity b"
    by (simp_all add: b1_def lf_capacity_def)
  have upd: "b1\<lparr>bufs := bufs b\<rparr> = b1" by (cases b) (simp add: b1_def)
  have own1: "lf_owns b1 fl (i # ps)" using own by (simp add: b1_def)
  have wr: "item_read (mpool b1) i = x" "map (item_read (mpool b1)) (mw_elems (bufs b)) = lf_contents b"
    "\<And>p. p \<in> set ps \<Longrightarrow> item_read (mpool b1) p = item_read (mpool b) p"
    using lf_read_write [OF own] lf_contents_write [OF own] by (auto simp: b1_def)
  have len: "length (lf_contents b) = length (mw_elems (bufs b))" by (simp add: lf_contents_def)
  have store: "lf_store x i b =
      (case mw_enqueue (Some i) (bufs b1) of
        (True, q) \<Rightarrow> Some (True, b1\<lparr>bufs := q\<rparr>)
      | (False, q) \<Rightarrow>
          if \<not> mcircular b1 then
            do { (_, p) \<leftarrow> tspool_deallocate (Some i) (mpool b1); Some (False, b1\<lparr>bufs := q, mpool := p\<rparr>) }
          else do { b2 \<leftarrow> lf_make_room i None (b1\<lparr>bufs := q\<rparr>); Some (True, b2) })"
    unfolding lf_store_def Let_def b1_def ..
  from own1 show ?thesis
  proof (cases rule: lf_enqueue_cases)
    case (room q)
    then show ?thesis
      using store wr b1 len
      by (intro that [of True "b1\<lparr>bufs := q\<rparr>" fl]) (auto simp: spec_push_def lf_contents_def lf_capacity_def)
  next
    case full
    show ?thesis
    proof (cases "mcircular b")
      case False
      from own1 obtain p where "tspool_deallocate (Some i) (mpool b1) = Some (True, p)"
        and "lf_owns (b1\<lparr>mpool := p\<rparr>) (i # fl) ps" and "item_read p = item_read (mpool b1)"
        by (rule lf_deallocate)
      then show ?thesis
        using store wr b1 len full False
        by (intro that [of False "b1\<lparr>mpool := p\<rparr>" "i # fl"])
          (auto simp: spec_push_def lf_contents_def lf_capacity_def)
    next
      case True
      have "length (mw_elems (bufs b1)) = lf_capacity b1" and "0 < lf_capacity b1"
        using full pos b1 by auto
      with own1 obtain j "is" b2 where "mw_elems (bufs b1) = j # is" and "lf_make_room i None b1 = Some b2"
        and "lf_owns b2 (j # fl) ps" and "mw_elems (bufs b2) = is @ [i]"
        and "item_read (mpool b2) = item_read (mpool b1)" and "mcircular b2 = mcircular b1"
        and "lf_capacity b2 = lf_capacity b1"
        by (rule lf_make_room_drops_oldest)
      moreover have "lf_store x i b = do { b2 \<leftarrow> lf_make_room i None (b1\<lparr>bufs := bufs b\<rparr>); Some (True, b2) }"
        using store b1 full True by simp
      note this [unfolded upd]
      ultimately show ?thesis
        using wr b1 len full True
        by (intro that [of True b2 "j # fl"]) (auto simp: spec_push_def lf_contents_def map_tl)
    qed
  qed
qed

lemma lf_push_spec:
  assumes v: "lf_valid b ps" and one: "length ps \<le> 1"
  shows "\<exists>ok b'. lf_push x b = Some (ok, b') \<and> lf_valid b' ps \<and>
      (ok, lf_contents b') = spec_push (lf_capacity b) (mcircular b) x (lf_contents b) \<and>
      lf_capacity b' = lf_capacity b \<and> mcircular b' = mcircular b \<and>
      (\<forall>p\<in>set ps. item_read (mpool b') p = item_read (mpool b) p)"
proof -
  obtain fl where own: "lf_owns b fl ps" and pos: "0 < lf_capacity b" using v by (auto simp: lf_valid_def)
  have size: "lf_size b = length (lf_contents b)"
    using own mw_count_dist [of "bufs b"] by (simp add: lf_owns_def lf_size_def lf_contents_def)
  show ?thesis
  proof (cases "lf_capacity b = lf_size b \<and> \<not> mcircular b")
    case True
    with v size show ?thesis by (auto simp: lf_push_def spec_push_def)
  next
    case go: False
    show ?thesis
    proof (cases fl)
      case (Cons i fl')
      define b1 where "b1 = b\<lparr>mpool := (mpool b)\<lparr>pool_head := alloc_next (mpool b) (pool_head (mpool b))\<rparr>\<rparr>"
      have b1: "bufs b1 = bufs b" "mcircular b1 = mcircular b" "lf_capacity b1 = lf_capacity b"
        "item_read (mpool b1) = item_read (mpool b)" "lf_contents b1 = lf_contents b"
        by (auto simp: b1_def lf_capacity_def lf_contents_def item_read_def fun_eq_iff)
      have alloc: "tspool_allocate (mpool b) = Some (Some i, mpool b1)" and own1: "lf_owns b1 fl' (i # ps)"
        using own allocate_takes_first [of "mpool b" i fl'] Cons by (auto simp: lf_owns_def b1_def)
      have "b\<lparr>mpool := mpool b1\<rparr> = b1" by (simp add: b1_def)
      with alloc go have "lf_push x b = lf_store x i b1" by (auto simp: lf_push_def)
      moreover have "0 < lf_capacity b1" using pos b1 by simp
      with own1 obtain ok b' fl'' where "lf_store x i b1 = Some (ok, b')" and "lf_owns b' fl'' ps"
        and "(ok, lf_contents b') = spec_push (lf_capacity b1) (mcircular b1) x (lf_contents b1)"
        and "lf_capacity b' = lf_capacity b1" and "mcircular b' = mcircular b1"
        and "\<And>p. p \<in> set ps \<Longrightarrow> item_read (mpool b') p = item_read (mpool b1) p"
        by (rule lf_store_spec) blast
      ultimately show ?thesis using b1 pos by (auto simp: lf_valid_def)
    next
      case Nil
      with lf_owns_count [OF own] one have full: "length (lf_contents b) \<ge> lf_capacity b"
        by (simp add: lf_contents_def)
      have le: "length (mw_elems (bufs b)) \<le> lf_capacity b"
        using own mw_dist_le [of "bufs b"] by (simp add: lf_owns_def lf_capacity_def)
      with full size go have circ: "mcircular b" by (auto simp: lf_contents_def)
      have alloc: "tspool_allocate (mpool b) = Some (None, mpool b)"
        using own Nil allocate_empty [of "mpool b"] by (simp add: lf_owns_def)
      from own show ?thesis
      proof (cases rule: lf_dequeue_cases)
        case empty
        with full pos show ?thesis by (simp add: lf_contents_def)
      next
        case (first i "is" q)
        let ?b1 = "b\<lparr>bufs := q\<rparr>"
        have push: "lf_push x b = lf_store x i ?b1" using alloc circ first by (simp add: lf_push_def)
        have cap1: "lf_capacity ?b1 = lf_capacity b" using first by (simp add: lf_capacity_def)
        have c: "lf_contents b = item_read (mpool b) i # lf_contents ?b1"
          using first by (simp add: lf_contents_def)
        have lt: "length (lf_contents ?b1) < lf_capacity b"
          using le first(1,3) unfolding lf_contents_def by simp
        have "0 < lf_capacity ?b1" using pos cap1 by simp
        with first(5) obtain ok b' fl'' where "lf_store x i ?b1 = Some (ok, b')" and "lf_owns b' fl'' ps"
          and "(ok, lf_contents b') = spec_push (lf_capacity ?b1) (mcircular ?b1) x (lf_contents ?b1)"
          and "lf_capacity b' = lf_capacity ?b1" and "mcircular b' = mcircular ?b1"
          and "\<And>p. p \<in> set ps \<Longrightarrow> item_read (mpool b') p = item_read (mpool ?b1) p"
          by (rule lf_store_spec) blast
        moreover have "spec_push (lf_capacity b) True x (lf_contents ?b1) =
            spec_push (lf_capacity b) True x (lf_contents b)"
          using c lt full by (simp add: spec_push_def)
        ultimately show ?thesis using push cap1 pos circ by (auto simp: lf_valid_def)
      qed
    qed
  qed
qed

lemma lf_push_list_spec:
  assumes "lf_valid b ps" and "length ps \<le> 1"
  shows "\<exists>n b'. lf_push_list xs b = Some (n, b') \<and> lf_valid b' ps \<and>
      (n, lf_contents b') = spec_push_each (lf_capacity b) (mcircular b) xs (lf_contents b) \<and>
      lf_capacity b' = lf_capacity b \<and> mcircular b' = mcircular b \<and>
      (\<forall>p\<in>set ps. item_read (mpool b') p = item_read (mpool b) p)"
  using assms(1)
proof (induction xs arbitrary: b)
  case Nil
  then show ?case by simp
next
  case (Cons x xs)
  obtain ok b1 where push: "lf_push x b = Some (ok, b1)" and v1: "lf_valid b1 ps"
    and spec: "spec_push (lf_capacity b) (mcircular b) x (lf_contents b) = (ok, lf_contents b1)"
    and same: "lf_capacity b1 = lf_capacity b" "mcircular b1 = mcircular b"
      "\<forall>p\<in>set ps. item_read (mpool b1) p = item_read (mpool b) p"
    using lf_push_spec [OF Cons.prems assms(2), of x] by metis
  show ?case
  proof (cases ok)
    case False
    with push v1 spec same show ?thesis by simp
  next
    case True
    from Cons.IH [OF v1] obtain n b2 where "lf_push_list xs b1 = Some (n, b2)" and "lf_valid b2 ps"
      and "spec_push_each (lf_capacity b1) (mcircular b1) xs (lf_contents b1) = (n, lf_contents b2)"
      and "lf_capacity b2 = lf_capacity b1" "mcircular b2 = mcircular b1"
      and "\<forall>p\<in>set ps. item_read (mpool b2) p = item_read (mpool b1) p" by metis
    with True push spec same show ?thesis by simp
  qed
qed

section \<open>Pop\<close>

text \<open>Taking the oldest item and giving it back to the pool: the common body of \<^verbatim>\<open>Pop\<close> and
  \<^verbatim>\<open>clear\<close>.\<close>

lemma lf_take_first:
  assumes "lf_owns b fl ps"
  obtains (empty) "lf_contents b = []" and "mw_dequeue (bufs b) = (None, bufs b)"
  | (first) i q p where "mw_dequeue (bufs b) = (Some i, q)"
      and "tspool_deallocate (Some i) (mpool b) = Some (True, p)"
      and "lf_owns (b\<lparr>bufs := q, mpool := p\<rparr>) (i # fl) ps"
      and "lf_contents b = item_read (mpool b) i # lf_contents (b\<lparr>bufs := q, mpool := p\<rparr>)"
      and "lf_capacity (b\<lparr>bufs := q, mpool := p\<rparr>) = lf_capacity b"
      and "item_read p = item_read (mpool b)"
  using assms
proof (cases rule: lf_dequeue_cases)
  case empty
  with that(1) show ?thesis by (simp add: lf_contents_def)
next
  case (first i "is" q)
  from first(5) obtain p where "tspool_deallocate (Some i) (mpool b) = Some (True, p)"
    and "lf_owns (b\<lparr>bufs := q, mpool := p\<rparr>) (i # fl) ps" and "item_read p = item_read (mpool b)"
    by (rule lf_deallocate) simp
  with first that(2) show ?thesis by (simp add: lf_contents_def lf_capacity_def)
qed

lemma lf_pop_spec:
  assumes v: "lf_valid b ps"
  shows "\<exists>b'. lf_pop b = Some (case lf_contents b of [] \<Rightarrow> None | x # _ \<Rightarrow> Some x, b') \<and>
      lf_valid b' ps \<and> lf_contents b' = tl (lf_contents b) \<and> lf_capacity b' = lf_capacity b \<and>
      mcircular b' = mcircular b \<and> (\<forall>p\<in>set ps. item_read (mpool b') p = item_read (mpool b) p)"
proof -
  obtain fl where own: "lf_owns b fl ps" using v by (auto simp: lf_valid_def)
  then show ?thesis
  proof (cases rule: lf_take_first)
    case empty
    with v show ?thesis by (intro exI [of _ b]) (simp add: lf_pop_def)
  next
    case (first i q p)
    with v show ?thesis
      by (intro exI [of _ "b\<lparr>bufs := q, mpool := p\<rparr>"]) (auto simp: lf_pop_def lf_valid_def)
  qed
qed

lemma lf_clear_spec:
  assumes "lf_owns b fl ps"
  shows "\<exists>b' fl'. lf_clear b = Some b' \<and> lf_owns b' fl' ps \<and> lf_contents b' = [] \<and>
      lf_capacity b' = lf_capacity b \<and> mcircular b' = mcircular b \<and>
      item_read (mpool b') = item_read (mpool b)"
  using assms
proof (induction "length (lf_contents b)" arbitrary: b fl)
  case 0
  from 0(2) show ?case
    by (cases rule: lf_take_first) (use 0 in \<open>auto simp: lf_clear.simps\<close>)
next
  case (Suc n)
  from Suc.prems show ?case
  proof (cases rule: lf_take_first)
    case empty
    with Suc.hyps show ?thesis by simp
  next
    case (first i q p)
    with Suc.hyps(2) have "n = length (lf_contents (b\<lparr>bufs := q, mpool := p\<rparr>))" by simp
    from Suc.hyps(1) [OF this first(3)] first show ?thesis by (subst lf_clear.simps) auto
  qed
qed

lemma lf_pop_loop_spec:
  assumes "lf_owns b fl ps"
  shows "\<exists>b' fl'. lf_pop_loop items b = Some (items @ lf_contents b, b') \<and> lf_owns b' fl' ps \<and>
      lf_contents b' = [] \<and> lf_capacity b' = lf_capacity b \<and> mcircular b' = mcircular b \<and>
      item_read (mpool b') = item_read (mpool b)"
  using assms
proof (induction "length (lf_contents b)" arbitrary: items b fl)
  case 0
  from 0(2) show ?case
    by (cases rule: lf_take_first) (use 0 in \<open>auto simp: lf_pop_loop.simps\<close>)
next
  case (Suc n)
  from Suc.prems show ?case
  proof (cases rule: lf_take_first)
    case empty
    with Suc.hyps show ?thesis by simp
  next
    case (first i q p)
    with Suc.hyps(2) have "n = length (lf_contents (b\<lparr>bufs := q, mpool := p\<rparr>))" by simp
    from Suc.hyps(1) [OF this first(3), of "items @ [item_read (mpool b) i]"] first
    show ?thesis by (subst lf_pop_loop.simps) auto
  qed
qed

section \<open>The contract of the buffer\<close>

interpretation lock_free: sample_buffer lock_free_api mcircular lf_contents lf_valid
proof unfold_locales
  fix b :: "'a lock_free_buffer" and ps :: "nat list" and p :: nat and x :: 'a and xs :: "'a list"
  assume v: "lf_valid b ps"
  then obtain fl where own: "lf_owns b fl ps" and pos: "0 < lf_capacity b" by (auto simp: lf_valid_def)
  then have inv: "mw_inv (bufs b)" by (simp add: lf_owns_def)
  show "0 < b_capacity lock_free_api b \<and> length (lf_contents b) \<le> b_capacity lock_free_api b"
    using mw_dist_le [OF inv] pos by (simp add: lock_free_api_def lf_contents_def lf_capacity_def)
  show "b_size lock_free_api b = length (lf_contents b)"
    using mw_count_dist [OF inv] by (simp add: lock_free_api_def lf_size_def lf_contents_def)
  show "b_empty lock_free_api b \<longleftrightarrow> lf_contents b = []"
    using mw_isEmpty_dist [OF inv] by (simp add: lock_free_api_def lf_contents_def flip: length_0_conv)
  show "b_full lock_free_api b \<longleftrightarrow> length (lf_contents b) = b_capacity lock_free_api b"
    using mw_isFull_dist [OF inv] by (simp add: lock_free_api_def lf_contents_def lf_capacity_def)
  show "\<exists>b'. b_pop lock_free_api b = Some (case lf_contents b of [] \<Rightarrow> None | x # _ \<Rightarrow> Some x, b') \<and>
      lf_valid b' ps \<and> lf_contents b' = tl (lf_contents b) \<and>
      b_capacity lock_free_api b' = b_capacity lock_free_api b \<and> mcircular b' = mcircular b \<and>
      (\<forall>p\<in>set ps. b_deref lock_free_api b' p = b_deref lock_free_api b p)"
    using lf_pop_spec [OF v] by (simp add: lock_free_api_def)
  show "\<exists>b'. b_pop_list lock_free_api b = Some (lf_contents b, length (lf_contents b), b') \<and>
      lf_valid b' ps \<and> lf_contents b' = [] \<and> b_capacity lock_free_api b' = b_capacity lock_free_api b \<and>
      mcircular b' = mcircular b \<and> (\<forall>p\<in>set ps. b_deref lock_free_api b' p = b_deref lock_free_api b p)"
    using lf_pop_loop_spec [OF own, of "[]"] pos by (auto simp: lock_free_api_def lf_pop_list_def lf_valid_def)
  show "\<exists>b'. b_clear lock_free_api b = Some b' \<and> lf_valid b' ps \<and> lf_contents b' = [] \<and>
      b_capacity lock_free_api b' = b_capacity lock_free_api b \<and> mcircular b' = mcircular b \<and>
      (\<forall>q\<in>set ps. b_deref lock_free_api b' q = b_deref lock_free_api b q)"
    using lf_clear_spec [OF own] pos by (auto simp: lock_free_api_def lf_valid_def)
next
  fix b :: "'a lock_free_buffer" and ps :: "nat list" and x :: 'a and xs :: "'a list"
  assume v: "lf_valid b ps" and one: "length ps \<le> 1"
  show "\<exists>ok b'. b_push lock_free_api x b = Some (ok, b') \<and> lf_valid b' ps \<and>
      (ok, lf_contents b') = spec_push (b_capacity lock_free_api b) (mcircular b) x (lf_contents b) \<and>
      b_capacity lock_free_api b' = b_capacity lock_free_api b \<and> mcircular b' = mcircular b \<and>
      (\<forall>p\<in>set ps. b_deref lock_free_api b' p = b_deref lock_free_api b p)"
    using lf_push_spec [OF v one, of x] by (simp add: lock_free_api_def)
  show "\<exists>n b'. b_push_list lock_free_api xs b = Some (n, b') \<and> lf_valid b' ps \<and>
      (n, lf_contents b') = spec_push_each (b_capacity lock_free_api b) (mcircular b) xs (lf_contents b) \<and>
      b_capacity lock_free_api b' = b_capacity lock_free_api b \<and> mcircular b' = mcircular b \<and>
      (\<forall>p\<in>set ps. b_deref lock_free_api b' p = b_deref lock_free_api b p)"
    using lf_push_list_spec [OF v one, of xs] by (simp add: lock_free_api_def)
next
  fix b :: "'a lock_free_buffer" and ps :: "nat list"
  assume v: "lf_valid b ps" and e: "lf_contents b = []"
  then obtain fl where own: "lf_owns b fl ps" by (auto simp: lf_valid_def)
  then show "b_pop_without_release lock_free_api b = Some (None, b)"
    by (cases rule: lf_dequeue_cases)
      (use e in \<open>auto simp: lock_free_api_def lf_pop_without_release_def lf_contents_def\<close>)
next
  fix b :: "'a lock_free_buffer" and ps :: "nat list" and x :: 'a and xs :: "'a list"
  assume v: "lf_valid b ps" and c: "lf_contents b = x # xs"
  then obtain fl where own: "lf_owns b fl ps" by (auto simp: lf_valid_def)
  then show "\<exists>p b'. b_pop_without_release lock_free_api b = Some (Some p, b') \<and> lf_valid b' (ps @ [p]) \<and>
      lf_contents b' = xs \<and> b_deref lock_free_api b' p = x \<and>
      b_capacity lock_free_api b' = b_capacity lock_free_api b \<and> mcircular b' = mcircular b"
  proof (cases rule: lf_dequeue_cases)
    case empty
    with c show ?thesis by (simp add: lf_contents_def)
  next
    case (first i "is" q)
    then have "lf_owns (b\<lparr>bufs := q\<rparr>) fl (ps @ [i])" by (auto simp: lf_owns_def)
    with v first(4) have "lf_valid (b\<lparr>bufs := q\<rparr>) (ps @ [i])" by (auto simp: lf_valid_def lf_capacity_def)
    moreover have "item_read (mpool b) i = x" and "lf_contents (b\<lparr>bufs := q\<rparr>) = xs"
      using first(1,3) c by (simp_all add: lf_contents_def)
    moreover have "lf_capacity (b\<lparr>bufs := q\<rparr>) = lf_capacity b" using first(4) by (simp add: lf_capacity_def)
    ultimately show ?thesis
      using first(2) by (intro exI [of _ i] exI [of _ "b\<lparr>bufs := q\<rparr>"])
        (simp add: lock_free_api_def lf_pop_without_release_def)
  qed
next
  fix b :: "'a lock_free_buffer" and p :: nat and ps :: "nat list"
  assume "lf_valid b (p # ps)"
  then obtain fl where own: "lf_owns b fl (p # ps)" and pos: "0 < lf_capacity b" by (auto simp: lf_valid_def)
  from own obtain mp where "tspool_deallocate (Some p) (mpool b) = Some (True, mp)"
    and "lf_owns (b\<lparr>mpool := mp\<rparr>) (p # fl) ps" and "item_read mp = item_read (mpool b)"
    by (rule lf_deallocate)
  with pos show "\<exists>b'. b_release lock_free_api p b = Some b' \<and> lf_valid b' ps \<and> lf_contents b' = lf_contents b \<and>
      b_capacity lock_free_api b' = b_capacity lock_free_api b \<and> mcircular b' = mcircular b \<and>
      (\<forall>q\<in>set ps. b_deref lock_free_api b' q = b_deref lock_free_api b q)"
    by (auto simp: lock_free_api_def lf_release_def lf_valid_def lf_contents_def lf_capacity_def)
next
  fix b :: "'a lock_free_buffer" and x :: 'a
  assume "lf_valid b []" and e: "lf_contents b = []"
  then obtain fl where own: "lf_owns b fl []" and pos: "0 < lf_capacity b" by (auto simp: lf_valid_def)
  have wf: "pool_wf (mpool b) fl" using own by (simp add: lf_owns_def)
  then have "length (pool (mpool b)) = pool_capacity (mpool b)" "0 < pool_capacity (mpool b)"
    "pool_capacity (mpool b) \<le> 65535" by (auto simp: pool_wf_def)
  then obtain p where p: "tspool_data_sample x (mpool b) = Some p" "pool_wf p [0..<pool_capacity (mpool b)]"
    "pool_capacity p = pool_capacity (mpool b)" by (rule data_sample_frees_all) blast
  have e': "mw_elems (bufs b) = []" using e by (simp add: lf_contents_def)
  have "mw_inv (bufs b)" and "pool_capacity (mpool b) = mw_capacity (bufs b) + 1"
    using own by (simp_all add: lf_owns_def)
  with p e' have "lf_owns (b\<lparr>mpool := p\<rparr>) [0..<pool_capacity (mpool b)] []"
    by (simp add: lf_owns_def lessThan_atLeast0 del: upt_Suc)
  with pos have "lf_valid (b\<lparr>mpool := p\<rparr>) []" by (auto simp: lf_valid_def lf_capacity_def)
  with p(1) e' show "\<exists>b'. b_data_sample lock_free_api x b = Some b' \<and> lf_valid b' [] \<and> lf_contents b' = [] \<and>
      b_capacity lock_free_api b' = b_capacity lock_free_api b \<and> mcircular b' = mcircular b"
    by (simp add: lock_free_api_def lf_data_sample_def lf_contents_def lf_capacity_def)
qed

lemma lf_new_valid:
  assumes "0 < bufsize" and "bufsize < 65535"
  obtains b where "lf_new d bufsize x circ = Some b" and "lf_valid b []" and "lf_contents b = []"
    and "lf_capacity b = bufsize" and "mcircular b = circ"
proof -
  have n: "0 < bufsize + 1" "bufsize + 1 \<le> 65535" using assms by auto
  obtain p1 where p1: "tspool_new d (bufsize + 1) d = Some p1" "pool_wf p1 [0..<bufsize + 1]"
    "pool_capacity p1 = bufsize + 1" by (rule new_frees_all [OF n, of d d]) blast
  then have "length (pool p1) = pool_capacity p1" "0 < pool_capacity p1" "pool_capacity p1 \<le> 65535"
    using n by (auto simp: pool_wf_def)
  then obtain p2 where p2: "tspool_data_sample x p1 = Some p2" "pool_wf p2 [0..<pool_capacity p1]"
    "pool_capacity p2 = pool_capacity p1" by (rule data_sample_frees_all) blast
  let ?b = "\<lparr>bufs = mw_new None bufsize, mpool = p2, mcircular = circ\<rparr>"
  have new: "mw_inv (mw_new None bufsize :: nat mwsr)" "mw_elems (mw_new None bufsize :: nat mwsr) = []"
    "mw_capacity (mw_new None bufsize :: nat mwsr) = bufsize"
    using mw_new_inv [of bufsize None] assms by auto
  with p1 p2 have "lf_owns ?b [0..<bufsize + 1] []"
    by (simp add: lf_owns_def lessThan_atLeast0 del: upt_Suc)
  then have "lf_valid ?b []" using assms new by (auto simp: lf_valid_def lf_capacity_def)
  with p1 p2 new show ?thesis
    by (intro that [of ?b]) (simp_all add: lf_new_def lf_contents_def lf_capacity_def)
qed

section \<open>Properties\<close>



text \<open>\<^verbatim>\<open>data_sample(sample)\<close> on a lock-free buffer that still holds samples leaves the
  buffer's size as it was and breaks it: the pool counts every item as free while the queue
  still points to some of them, so that no assignment of owners to the items is consistent
  any more. \<^verbatim>\<open>BufferLocked\<close> empties itself, as the interface documents.\<close>

theorem lock_free_data_sample_breaks:
  assumes "lf_valid b []" and "lf_contents b \<noteq> []"
  shows "\<exists>b'. lf_data_sample x b = Some b' \<and> lf_size b' = lf_size b \<and> 0 < lf_size b' \<and>
              tspool_size (mpool b') = Some (lf_capacity b' + 1) \<and> (\<forall>ps. \<not> lf_valid b' ps)"
proof -
  from assms obtain fl where own: "lf_owns b fl []" and pos: "0 < lf_capacity b" by (auto simp: lf_valid_def)
  then have "pool_wf (mpool b) fl" and inv: "mw_inv (bufs b)"
    and cap: "pool_capacity (mpool b) = mw_capacity (bufs b) + 1" by (auto simp: lf_owns_def)
  then have "length (pool (mpool b)) = pool_capacity (mpool b)" "0 < pool_capacity (mpool b)"
    "pool_capacity (mpool b) \<le> 65535" by (auto simp: pool_wf_def)
  then obtain p where p: "tspool_data_sample x (mpool b) = Some p" "pool_wf p [0..<pool_capacity (mpool b)]"
    "pool_capacity p = pool_capacity (mpool b)" by (rule data_sample_frees_all) blast
  have size: "0 < lf_size b"
    using assms(2) mw_count_dist [OF inv] by (simp add: lf_size_def lf_contents_def flip: length_0_conv)
  obtain i where i: "i \<in> set (mw_elems (bufs b))" using assms(2) by (cases "mw_elems (bufs b)") (auto simp: lf_contents_def)
  have "\<not> lf_owns (b\<lparr>mpool := p\<rparr>) fl' ps" for fl' ps
  proof
    assume o: "lf_owns (b\<lparr>mpool := p\<rparr>) fl' ps"
    then have "fl' = [0..<pool_capacity (mpool b)]" using p(2) pool_wf_unique by (auto simp: lf_owns_def)
    moreover have "i < pool_capacity (mpool b)" using own i unfolding lf_owns_def by auto
    moreover have "i \<notin> set fl'" using o i by (auto simp: lf_owns_def)
    ultimately show False by simp
  qed
  then have "\<forall>ps. \<not> lf_valid (b\<lparr>mpool := p\<rparr>) ps" by (auto simp: lf_valid_def)
  moreover have "tspool_size p = Some (lf_capacity b + 1)"
    using tspool_size_free [OF p(2)] cap by (simp add: lf_capacity_def)
  ultimately show ?thesis
    using p(1) size by (simp add: lf_data_sample_def lf_size_def lf_capacity_def)
qed

theorem lock_free_data_sample_breaks_witness:
  "\<exists>b b'. do { b \<leftarrow> lf_new 0 2 0 False; lf_push (1::nat) b } = Some (True, b) \<and>
          lf_data_sample 0 b = Some b' \<and> lf_size b' = 1 \<and> tspool_size (mpool b') = Some 3"
proof -
  have "0 < (2::nat)" and "(2::nat) < 65535" by simp_all
  then obtain b where b: "lf_new 0 2 (0::nat) False = Some b" "lf_valid b []" "lf_contents b = []"
    "lf_capacity b = 2" "mcircular b = False" by (rule lf_new_valid)
  from lf_push_spec [OF b(2), of 1] b obtain b1 where b1: "lf_push 1 b = Some (True, b1)"
    "lf_valid b1 []" "lf_contents b1 = [1]" "lf_capacity b1 = 2" by (auto simp: spec_push_def)
  then have "lf_size b1 = 1" using lock_free.size_contents [of b1 "[]"] by (simp add: lock_free_api_def)
  moreover have "lf_contents b1 \<noteq> []" using b1 by simp
  from lock_free_data_sample_breaks [OF b1(2) this, of 0] obtain b2 where
    "lf_data_sample 0 b1 = Some b2" "lf_size b2 = lf_size b1" "tspool_size (mpool b2) = Some (lf_capacity b2 + 1)"
    by blast
  moreover from this b1(4) have "lf_capacity b2 = 2"
    by (auto simp: lf_data_sample_def lf_capacity_def bind_eq_Some_conv)
  ultimately show ?thesis using b(1) b1(1) by auto
qed

text \<open>What a reader then sees: the sample 1 pushed before \<^verbatim>\<open>data_sample\<close> is replaced by the
  sample 2 pushed after it, which is delivered twice.\<close>

definition corrupt_run :: "(nat \<times> nat option \<times> nat option) option" where
  "corrupt_run = do {
     b \<leftarrow> lf_new 0 2 0 False;
     (_, b) \<leftarrow> lf_push 1 b;
     b \<leftarrow> lf_data_sample 0 b;
     let n = lf_size b;
     (_, b) \<leftarrow> lf_push 2 b;
     (v, b) \<leftarrow> lf_pop b;
     (w, b) \<leftarrow> lf_pop b;
     Some (n, v, w) }"

lemma corrupt_run_duplicates: "corrupt_run = Some (1, Some 2, Some 2)"
  by code_simp

text \<open>A circular lock-free buffer of capacity 0 never returns from \<^verbatim>\<open>Push\<close>: the loop that makes
  room pops nothing and can never enqueue.\<close>

lemma lf_make_room_never_returns:
  assumes "bufs b = mw_new None 0"
  shows "lf_make_room i None b = None"
proof -
  have "\<not> (bufs b = mw_new None 0 \<and> itmp = None)" if "lf_make_room i itmp b = Some b'" for i itmp b and b' :: "'a lock_free_buffer"
    using that
  proof (rule lf_make_room.raw_induct [rotated])
    fix rec :: "nat \<Rightarrow> nat option \<Rightarrow> 'a lock_free_buffer \<Rightarrow> 'a lock_free_buffer option"
      and i itmp and b y :: "'a lock_free_buffer"
    assume ih: "\<And>i itmp b y. rec i itmp b = Some y \<Longrightarrow> \<not> (bufs b = mw_new None 0 \<and> itmp = None)"
      and body: "(case mw_dequeue (bufs b) of (r, q) \<Rightarrow>
        let itmp' = (case r of None \<Rightarrow> itmp | Some _ \<Rightarrow> r) in
        do { (_, p) \<leftarrow> tspool_deallocate itmp' (mpool b);
             case mw_enqueue (Some i) q of (ok, q') \<Rightarrow>
               if ok then Some (b\<lparr>mpool := p, bufs := q'\<rparr>)
               else rec i itmp' (b\<lparr>mpool := p, bufs := q'\<rparr>) }) = Some y"
    have deq: "mw_dequeue (mw_new None 0 :: nat mwsr) = (None, mw_new None 0)"
      and enq: "mw_enqueue (Some i) (mw_new None 0) = (False, mw_new None 0)" for i :: nat
      by (simp_all add: mw_new_def mw_clear_def array_for_Suc mw_dequeue_def mw_advance_r_def
          mw_enqueue_def mw_advance_w_def ring_full_def Let_def)
    show "\<not> (bufs b = mw_new None 0 \<and> itmp = None)"
      using body ih [of i None "b\<lparr>mpool := mpool b, bufs := mw_new None 0\<rparr>" y] by (cases itmp) (auto simp: deq enq)
  qed
  with assms show ?thesis by (cases "lf_make_room i None b") auto
qed

end
