(* ===== verification/DataObject.thy ===== *)
theory DataObject
  imports OroPrelude "HOL-Library.Monad_Syntax"
begin

text \<open>
  The data objects of \<^verbatim>\<open>rtt/base\<close>: one shared value behind \<^verbatim>\<open>DataObjectInterface<T>\<close>.
  \<^verbatim>\<open>DataObjectLocked\<close> and \<^verbatim>\<open>DataObjectUnSync\<close> store the value, \<^verbatim>\<open>DataObjectLockFree\<close> keeps a
  ring of cells, of which the writer fills one while readers copy others. This theory runs
  each call without interference; \<open>DataObjectConc\<close> interleaves a writer with its readers. The
  result \<open>None\<close> of \<^verbatim>\<open>Set\<close> is a loop that never ends.
\<close>

section \<open>The interface\<close>

record ('a, 'o) data_object_api =
  o_get :: "'o \<Rightarrow> 'a \<times> 'o"
  o_set :: "'a \<Rightarrow> 'o \<Rightarrow> 'o option"
  o_data_sample :: "'a \<Rightarrow> 'o \<Rightarrow> 'o option"

locale data_object =
  fixes D :: "('a, 'o) data_object_api"
    and current :: "'o \<Rightarrow> 'a"
    and valid :: "'o \<Rightarrow> bool"
  assumes get: "valid d \<Longrightarrow> \<exists>d'. o_get D d = (current d, d') \<and> valid d' \<and> current d' = current d"
    and set: "valid d \<Longrightarrow> \<exists>d'. o_set D x d = Some d' \<and> valid d' \<and> current d' = x"
    and data_sample: "valid d \<Longrightarrow> \<exists>d'. o_data_sample D x d = Some d' \<and> valid d' \<and> current d' = x"

section \<open>Locked and unsynchronised objects\<close>

record 'a plain_object =
  po_data :: 'a

definition po_get :: "'a plain_object \<Rightarrow> 'a \<times> 'a plain_object" where
  "po_get d = (po_data d, d)"

definition po_set :: "'a \<Rightarrow> 'a plain_object \<Rightarrow> 'a plain_object" where
  "po_set x d = d\<lparr>po_data := x\<rparr>"

definition po_data_sample :: "'a \<Rightarrow> 'a plain_object \<Rightarrow> 'a plain_object" where
  "po_data_sample x d = po_set x d"

definition plain_object_api :: "('a, 'a plain_object) data_object_api" where
  "plain_object_api = \<lparr>o_get = po_get, o_set = (\<lambda>x d. Some (po_set x d)),
                       o_data_sample = (\<lambda>x d. Some (po_data_sample x d))\<rparr>"

interpretation plain_object: data_object plain_object_api po_data "\<lambda>_. True"
  by unfold_locales (auto simp: plain_object_api_def po_get_def po_set_def po_data_sample_def)

section \<open>The lock-free object\<close>

record 'a data_buf =
  cell_data :: 'a
  cell_counter :: int
  cell_next :: nat

record 'a lf_object =
  max_threads :: nat
  read_ptr :: nat
  write_ptr :: nat
  cells :: "'a data_buf list"

definition buf_len :: "'a lf_object \<Rightarrow> nat" where
  "buf_len d = max_threads d + 2"

definition set_cell :: "'a \<Rightarrow> nat \<Rightarrow> 'a data_buf \<Rightarrow> 'a data_buf" where
  "set_cell x next c = c\<lparr>cell_data := x, cell_next := next\<rparr>"

definition dl_data_sample :: "'a \<Rightarrow> 'a lf_object \<Rightarrow> 'a lf_object" where
  "dl_data_sample x d =
     (let n = buf_len d;
          linked = array_for (n - 1) (\<lambda>i. set_cell x (i + 1)) (cells d)
      in d\<lparr>cells := linked[n - 1 := set_cell x 0 (linked ! (n - 1))]\<rparr>)"

text \<open>The constructor; \<open>v\<close> is what the default constructor leaves in a cell.\<close>

definition dl_new :: "'a \<Rightarrow> 'a \<Rightarrow> nat \<Rightarrow> 'a lf_object" where
  "dl_new v x threads =
     dl_data_sample x
       \<lparr>max_threads = threads, read_ptr = 0, write_ptr = 1,
        cells = replicate (threads + 2) \<lparr>cell_data = v, cell_counter = 0, cell_next = 0\<rparr>\<rparr>"

definition cell_add :: "nat \<Rightarrow> int \<Rightarrow> 'a lf_object \<Rightarrow> 'a lf_object" where
  "cell_add i k d = d\<lparr>cells := (cells d)[i := (cells d ! i)\<lparr>cell_counter := cell_counter (cells d ! i) + k\<rparr>]\<rparr>"

definition cell_store :: "nat \<Rightarrow> 'a \<Rightarrow> 'a lf_object \<Rightarrow> 'a lf_object" where
  "cell_store i x d = d\<lparr>cells := (cells d)[i := (cells d ! i)\<lparr>cell_data := x\<rparr>]\<rparr>"

text \<open>\<^verbatim>\<open>Get\<close>: without interference the pointer read is the pointer found by the second read.\<close>

definition dl_get :: "'a lf_object \<Rightarrow> 'a \<times> 'a lf_object" where
  "dl_get d =
     (let reading = read_ptr d;
          d1 = cell_add reading 1 d;
          pull = cell_data (cells d1 ! reading)
      in (pull, cell_add reading (- 1) d1))"

text \<open>The condition of the loop of \<^verbatim>\<open>Set\<close>, and the loop. \<open>False\<close> is the early return.\<close>

definition next_busy :: "'a lf_object \<Rightarrow> bool" where
  "next_busy d \<longleftrightarrow>
     (let nxt = cell_next (cells d ! write_ptr d)
      in cell_counter (cells d ! nxt) \<noteq> 0 \<or> nxt = read_ptr d)"

definition step_write_ptr :: "'a lf_object \<Rightarrow> 'a lf_object" where
  "step_write_ptr d = d\<lparr>write_ptr := cell_next (cells d ! write_ptr d)\<rparr>"

partial_function (option) dl_scan :: "nat \<Rightarrow> 'a lf_object \<Rightarrow> (bool \<times> 'a lf_object) option" where
  "dl_scan wrote d =
     (if next_busy d then
        (let d' = step_write_ptr d in
         if write_ptr d' = wrote then Some (False, d') else dl_scan wrote d')
      else Some (True, d))"

declare dl_scan.simps [code]

definition dl_set :: "'a \<Rightarrow> 'a lf_object \<Rightarrow> 'a lf_object option" where
  "dl_set x d =
     do {
       let d1 = cell_store (write_ptr d) x d;
       let wrote = write_ptr d1;
       (found, d2) \<leftarrow> dl_scan wrote d1;
       if \<not> found then Some d2
       else Some (step_write_ptr (d2\<lparr>read_ptr := wrote\<rparr>))
     }"

definition lf_object_api :: "('a, 'a lf_object) data_object_api" where
  "lf_object_api = \<lparr>o_get = dl_get, o_set = dl_set, o_data_sample = (\<lambda>x d. Some (dl_data_sample x d))\<rparr>"

section \<open>The ring of cells\<close>

definition cell_ring :: "'a lf_object \<Rightarrow> bool" where
  "cell_ring d \<longleftrightarrow>
     length (cells d) = buf_len d \<and> read_ptr d < buf_len d \<and> write_ptr d < buf_len d \<and>
     (\<forall>i < buf_len d. cell_next (cells d ! i) = Suc i mod buf_len d)"

lemma cell_ring_next: "cell_ring d \<Longrightarrow> i < buf_len d \<Longrightarrow> cell_next (cells d ! i) = Suc i mod buf_len d"
  by (simp add: cell_ring_def)

lemma buf_len_pos [simp]: "0 < buf_len d" and buf_len_gt1: "1 < buf_len d"
  by (simp_all add: buf_len_def)

text \<open>Between calls no reader is active; from three cells on the writer never owns the
  published cell.\<close>

definition quiet_object :: "'a lf_object \<Rightarrow> bool" where
  "quiet_object d \<longleftrightarrow>
     cell_ring d \<and> 1 \<le> max_threads d \<and> write_ptr d \<noteq> read_ptr d \<and>
     (\<forall>i < buf_len d. cell_counter (cells d ! i) = 0)"

definition published_data :: "'a lf_object \<Rightarrow> 'a" where
  "published_data d = cell_data (cells d ! read_ptr d)"

lemma dl_data_sample_ring:
  assumes "length (cells d) = buf_len d"
  shows "i < buf_len d \<Longrightarrow> cells (dl_data_sample x d) ! i =
           \<lparr>cell_data = x, cell_counter = cell_counter (cells d ! i), cell_next = Suc i mod buf_len d\<rparr>"
    and "length (cells (dl_data_sample x d)) = buf_len d"
    and "read_ptr (dl_data_sample x d) = read_ptr d" and "write_ptr (dl_data_sample x d) = write_ptr d"
    and "max_threads (dl_data_sample x d) = max_threads d"
  using assms buf_len_gt1 [of d]
  by (auto simp: dl_data_sample_def Let_def nth_list_update set_cell_def)

lemma dl_data_sample_quiet:
  assumes "quiet_object d"
  shows "quiet_object (dl_data_sample x d)" and "published_data (dl_data_sample x d) = x"
proof -
  have len: "length (cells d) = buf_len d" using assms by (simp add: quiet_object_def cell_ring_def)
  have n: "buf_len (dl_data_sample x d) = buf_len d" by (simp add: buf_len_def dl_data_sample_ring [OF len])
  show "quiet_object (dl_data_sample x d)" and "published_data (dl_data_sample x d) = x"
    using assms
    by (simp_all add: quiet_object_def cell_ring_def published_data_def n dl_data_sample_ring [OF len])
qed

lemma dl_new_quiet:
  assumes "1 \<le> threads"
  shows "quiet_object (dl_new v x threads)" and "published_data (dl_new v x threads) = x"
    and "max_threads (dl_new v x threads) = threads"
proof -
  define d where "d = \<lparr>max_threads = threads, read_ptr = 0, write_ptr = 1,
        cells = replicate (threads + 2) \<lparr>cell_data = v, cell_counter = 0, cell_next = 0\<rparr>\<rparr>"
  have new: "dl_new v x threads = dl_data_sample x d" by (simp add: dl_new_def d_def)
  have n: "buf_len d = threads + 2" and len: "length (cells d) = buf_len d"
    and ptr: "read_ptr d = 0" "write_ptr d = 1" "max_threads d = threads"
    and cnt: "\<And>i. i < threads + 2 \<Longrightarrow> cell_counter (cells d ! i) = 0"
    by (simp_all add: d_def buf_len_def del: replicate_Suc)
  have n': "buf_len (dl_data_sample x d) = threads + 2"
    using ptr by (simp add: buf_len_def dl_data_sample_ring [OF len])
  show "quiet_object (dl_new v x threads)" and "published_data (dl_new v x threads) = x"
    and "max_threads (dl_new v x threads) = threads"
    using assms n n' ptr cnt
    by (simp_all add: new quiet_object_def cell_ring_def published_data_def dl_data_sample_ring [OF len])
qed

lemma dl_get_quiet:
  assumes "quiet_object d"
  shows "dl_get d = (published_data d, d)"
proof -
  have "read_ptr d < length (cells d)" using assms by (simp add: quiet_object_def cell_ring_def)
  then show ?thesis by (simp add: dl_get_def cell_add_def published_data_def)
qed

lemma dl_set_quiet:
  assumes q: "quiet_object d"
  shows "\<exists>d'. dl_set x d = Some d' \<and> quiet_object d' \<and> published_data d' = x \<and> max_threads d' = max_threads d"
proof -
  let ?n = "buf_len d" and ?w = "write_ptr d" and ?r = "read_ptr d"
  let ?d1 = "cell_store ?w x d" and ?m = "Suc (write_ptr d) mod buf_len d"
  have n3: "3 \<le> ?n" and ring: "cell_ring d" and wr: "?w \<noteq> ?r" and free: "\<forall>i < ?n. cell_counter (cells d ! i) = 0"
    using q by (auto simp: quiet_object_def buf_len_def)
  have bnd: "?w < ?n" "?r < ?n" "length (cells d) = ?n" using ring by (auto simp: cell_ring_def)
  have n1: "buf_len ?d1 = ?n" by (simp add: cell_store_def buf_len_def)
  have c1: "i < ?n \<Longrightarrow> cells ?d1 ! i = (if i = ?w then (cells d ! i)\<lparr>cell_data := x\<rparr> else cells d ! i)" for i
    using bnd by (auto simp: cell_store_def nth_list_update)
  have nx: "i < ?n \<Longrightarrow> cell_next (cells ?d1 ! i) = Suc i mod ?n" for i
    using cell_ring_next [OF ring] by (simp add: c1)
  have cnt: "i < ?n \<Longrightarrow> cell_counter (cells ?d1 ! i) = 0" for i using free by (simp add: c1)
  have p1: "write_ptr ?d1 = ?w" "read_ptr ?d1 = ?r" "length (cells ?d1) = ?n" "max_threads ?d1 = max_threads d"
    using bnd by (simp_all add: cell_store_def)
  have ne: "?m \<noteq> ?w" "Suc ?m mod ?n \<noteq> ?w" "Suc ?m mod ?n \<noteq> ?m"
    using n3 bnd by (auto simp: mod_Suc)
  have scan: "\<exists>w'. w' < ?n \<and> dl_scan ?w ?d1 = Some (True, ?d1\<lparr>write_ptr := w'\<rparr>) \<and>
        Suc w' mod ?n \<noteq> ?w \<and> Suc w' mod ?n \<noteq> ?r"
  proof (cases "?m = ?r")
    case False
    then have "dl_scan ?w ?d1 = Some (True, ?d1)"
      using bnd by (subst dl_scan.simps) (simp add: next_busy_def p1 nx cnt Let_def)
    moreover have "?d1\<lparr>write_ptr := ?w\<rparr> = ?d1" by (simp add: cell_store_def)
    ultimately show ?thesis using False ne bnd by (intro exI [of _ ?w]) simp
  next
    case True
    let ?d2 = "?d1\<lparr>write_ptr := ?m\<rparr>"
    have m: "?m < ?n" by simp
    have "dl_scan ?w ?d1 = dl_scan ?w ?d2"
      using True ne bnd by (subst dl_scan.simps) (simp add: next_busy_def p1 nx cnt Let_def step_write_ptr_def)
    also have "\<dots> = Some (True, ?d2)"
      using True ne m by (subst dl_scan.simps) (simp add: next_busy_def p1 nx cnt Let_def)
    finally show ?thesis using True ne m by (intro exI [of _ ?m]) simp
  qed
  then obtain w' where w': "w' < ?n" "dl_scan ?w ?d1 = Some (True, ?d1\<lparr>write_ptr := w'\<rparr>)"
    "Suc w' mod ?n \<noteq> ?w" "Suc w' mod ?n \<noteq> ?r" by blast
  let ?d' = "step_write_ptr (?d1\<lparr>write_ptr := w', read_ptr := ?w\<rparr>)"
  have "dl_set x d = Some ?d'" using w'(2) by (simp add: dl_set_def p1 Let_def)
  moreover have "buf_len ?d' = ?n" by (simp add: buf_len_def step_write_ptr_def p1)
  then have "quiet_object ?d'"
    using w' q bnd by (simp add: quiet_object_def cell_ring_def p1 nx cnt step_write_ptr_def)
  moreover have "published_data ?d' = x" using bnd by (simp add: published_data_def step_write_ptr_def c1)
  moreover have "max_threads ?d' = max_threads d" by (simp add: step_write_ptr_def p1)
  ultimately show ?thesis by blast
qed

interpretation lf_object: data_object lf_object_api published_data quiet_object
proof unfold_locales
  fix d :: "'a lf_object" and x :: 'a
  assume q: "quiet_object d"
  show "\<exists>d'. o_get lf_object_api d = (published_data d, d') \<and> quiet_object d' \<and> published_data d' = published_data d"
    using q dl_get_quiet [OF q] by (simp add: lf_object_api_def)
  show "\<exists>d'. o_set lf_object_api x d = Some d' \<and> quiet_object d' \<and> published_data d' = x"
    using dl_set_quiet [OF q] by (simp add: lf_object_api_def) blast
  show "\<exists>d'. o_data_sample lf_object_api x d = Some d' \<and> quiet_object d' \<and> published_data d' = x"
    using dl_data_sample_quiet [OF q] by (simp add: lf_object_api_def)
qed

end
