(* ===== verification/ChannelElements.thy ===== *)
theory ChannelElements
  imports BufferLocked BufferLockFree DataObject
begin

text \<open>
  The elements of a connection between two ports: \<^verbatim>\<open>internal::ChannelBufferElement\<close>,
  \<^verbatim>\<open>internal::ChannelDataElement\<close> (\<^verbatim>\<open>rtt/internal\<close>) and the generic \<^verbatim>\<open>base::ChannelElement\<close>
  (\<^verbatim>\<open>rtt/base/ChannelElement.hpp\<close>, \<^verbatim>\<open>ChannelInterface.cpp\<close>). A storage element is parameterised by
  the buffer or the data object it uses, so that the same definitions cover the lock-free,
  the locked and the unsynchronised connection. A sample is returned through a reference
  argument: \<^verbatim>\<open>read\<close> takes the value the reference has before the call and returns the one it
  has afterwards.
\<close>

section \<open>Storage elements\<close>

datatype flow_status = NoData | OldData | NewData

fun status_level :: "flow_status \<Rightarrow> nat" where
  "status_level NoData = 0"
| "status_level OldData = 1"
| "status_level NewData = 2"

text \<open>The virtual functions of an element, as far as they act on the element itself. The flag
  of \<^verbatim>\<open>write\<close> says whether the element then calls \<^verbatim>\<open>signal()\<close>.\<close>

record ('a, 'c) store_api =
  s_write :: "'a \<Rightarrow> 'c \<Rightarrow> (bool \<times> 'c) option"
  s_read :: "bool \<Rightarrow> 'a \<Rightarrow> 'c \<Rightarrow> (flow_status \<times> 'a \<times> 'c) option"
  s_clear :: "'c \<Rightarrow> 'c option"
  s_data_sample :: "'a \<Rightarrow> 'c \<Rightarrow> 'c option"

subsection \<open>\<^verbatim>\<open>ChannelBufferElement\<close>\<close>

record ('p, 'b) buffer_element =
  be_buffer :: 'b
  last_sample_p :: "'p option"

definition be_release_last :: "('a, 'p, 'b) buffer_api \<Rightarrow> 'p option \<Rightarrow> 'b \<Rightarrow> 'b option" where
  "be_release_last B l b = (case l of None \<Rightarrow> Some b | Some p \<Rightarrow> b_release B p b)"

definition be_write :: "('a, 'p, 'b) buffer_api \<Rightarrow> 'a \<Rightarrow> ('p, 'b) buffer_element \<Rightarrow>
    (bool \<times> ('p, 'b) buffer_element) option" where
  "be_write B x e = do { (ok, b) \<leftarrow> b_push B x (be_buffer e); Some (ok, e\<lparr>be_buffer := b\<rparr>) }"

definition be_read :: "('a, 'p, 'b) buffer_api \<Rightarrow> bool \<Rightarrow> 'a \<Rightarrow> ('p, 'b) buffer_element \<Rightarrow>
    (flow_status \<times> 'a \<times> ('p, 'b) buffer_element) option" where
  "be_read B copy_old sample e =
     do {
       (new_sample_p, b) \<leftarrow> b_pop_without_release B (be_buffer e);
       case new_sample_p of
         Some p \<Rightarrow> do {
           b' \<leftarrow> be_release_last B (last_sample_p e) b;
           Some (NewData, b_deref B b' p, \<lparr>be_buffer = b', last_sample_p = Some p\<rparr>) }
       | None \<Rightarrow>
           let e' = e\<lparr>be_buffer := b\<rparr> in
           case last_sample_p e of
             Some l \<Rightarrow> Some (OldData, if copy_old then b_deref B b l else sample, e')
           | None \<Rightarrow> Some (NoData, sample, e')
     }"

definition be_clear :: "('a, 'p, 'b) buffer_api \<Rightarrow> ('p, 'b) buffer_element \<Rightarrow>
    ('p, 'b) buffer_element option" where
  "be_clear B e =
     do {
       b \<leftarrow> be_release_last B (last_sample_p e) (be_buffer e);
       b' \<leftarrow> b_clear B b;
       Some \<lparr>be_buffer = b', last_sample_p = None\<rparr>
     }"

definition be_data_sample :: "('a, 'p, 'b) buffer_api \<Rightarrow> 'a \<Rightarrow> ('p, 'b) buffer_element \<Rightarrow>
    ('p, 'b) buffer_element option" where
  "be_data_sample B x e = do { b \<leftarrow> b_data_sample B x (be_buffer e); Some (e\<lparr>be_buffer := b\<rparr>) }"

definition be_new :: "'b \<Rightarrow> ('p, 'b) buffer_element" where
  "be_new b = \<lparr>be_buffer = b, last_sample_p = None\<rparr>"

definition buffer_store :: "('a, 'p, 'b) buffer_api \<Rightarrow> ('a, ('p, 'b) buffer_element) store_api" where
  "buffer_store B = \<lparr>s_write = be_write B, s_read = be_read B, s_clear = be_clear B,
                     s_data_sample = be_data_sample B\<rparr>"

subsection \<open>\<^verbatim>\<open>ChannelDataElement\<close>\<close>

record 'o data_element =
  de_written :: bool
  de_mread :: bool
  de_data :: 'o

definition de_new :: "'o \<Rightarrow> 'o data_element" where
  "de_new d = \<lparr>de_written = False, de_mread = False, de_data = d\<rparr>"

definition de_write :: "('a, 'o) data_object_api \<Rightarrow> 'a \<Rightarrow> 'o data_element \<Rightarrow> (bool \<times> 'o data_element) option" where
  "de_write D x e =
     do {
       d \<leftarrow> o_set D x (de_data e);
       Some (True, \<lparr>de_written = True, de_mread = False, de_data = d\<rparr>)
     }"

definition de_read :: "('a, 'o) data_object_api \<Rightarrow> bool \<Rightarrow> 'a \<Rightarrow> 'o data_element \<Rightarrow>
    (flow_status \<times> 'a \<times> 'o data_element) option" where
  "de_read D copy_old sample e =
     (if de_written e then
        if \<not> de_mread e then
          (case o_get D (de_data e) of (v, d) \<Rightarrow> Some (NewData, v, e\<lparr>de_data := d, de_mread := True\<rparr>))
        else if copy_old then (case o_get D (de_data e) of (v, d) \<Rightarrow> Some (OldData, v, e\<lparr>de_data := d\<rparr>))
        else Some (OldData, sample, e)
      else Some (NoData, sample, e))"

definition de_clear :: "'o data_element \<Rightarrow> 'o data_element option" where
  "de_clear e = Some (e\<lparr>de_written := False, de_mread := False\<rparr>)"

definition de_data_sample :: "('a, 'o) data_object_api \<Rightarrow> 'a \<Rightarrow> 'o data_element \<Rightarrow> 'o data_element option" where
  "de_data_sample D x e = do { d \<leftarrow> o_data_sample D x (de_data e); Some (e\<lparr>de_data := d\<rparr>) }"

definition data_store :: "('a, 'o) data_object_api \<Rightarrow> ('a, 'o data_element) store_api" where
  "data_store D = \<lparr>s_write = de_write D, s_read = de_read D, s_clear = de_clear,
                   s_data_sample = de_data_sample D\<rparr>"

section \<open>What a storage element promises\<close>

text \<open>\<open>fresh\<close> are the samples a reader has not seen, \<open>stale\<close> is the one it saw last; \<open>keep\<close> says
  what a write does to the fresh samples, and whether the reader is signalled.\<close>

locale channel_store =
  fixes S :: "('a, 'c) store_api"
    and keep :: "'a \<Rightarrow> 'a list \<Rightarrow> bool \<times> 'a list"
    and fresh :: "'c \<Rightarrow> 'a list"
    and stale :: "'c \<Rightarrow> 'a option"
    and valid :: "'c \<Rightarrow> bool"
  assumes written: "valid c \<Longrightarrow> \<exists>sig c'. s_write S x c = Some (sig, c') \<and> valid c' \<and>
      keep x (fresh c) = (sig, fresh c') \<and> fresh c' \<noteq> []"
    and read_fresh: "valid c \<Longrightarrow> fresh c = y # ys \<Longrightarrow>
      \<exists>c'. s_read S copy old c = Some (NewData, y, c') \<and> valid c' \<and> fresh c' = ys \<and> stale c' = Some y"
    and read_stale: "valid c \<Longrightarrow> fresh c = [] \<Longrightarrow> stale c = Some y \<Longrightarrow>
      \<exists>c'. s_read S copy old c = Some (OldData, if copy then y else old, c') \<and> valid c' \<and>
        fresh c' = [] \<and> stale c' = Some y"
    and read_none: "valid c \<Longrightarrow> fresh c = [] \<Longrightarrow> stale c = None \<Longrightarrow>
      \<exists>c'. s_read S copy old c = Some (NoData, old, c') \<and> valid c' \<and> fresh c' = [] \<and> stale c' = None"
    and clear: "valid c \<Longrightarrow> \<exists>c'. s_clear S c = Some c' \<and> valid c' \<and> fresh c' = [] \<and> stale c' = None"
    and sampled: "valid c \<Longrightarrow> fresh c = [] \<Longrightarrow> stale c = None \<Longrightarrow>
      \<exists>c'. s_data_sample S x c = Some c' \<and> valid c' \<and> fresh c' = [] \<and> stale c' = None"

section \<open>Sequences of calls\<close>

datatype 'a store_call = SWrite 'a | SRead bool 'a | SClear

datatype 'a store_result = SWrote bool | SGot flow_status 'a | SCleared

fun store_do :: "('a, 'c) store_api \<Rightarrow> 'a store_call \<Rightarrow> 'c \<Rightarrow> ('a store_result \<times> 'c) option" where
  "store_do S (SWrite x) c = do { (sig, c') \<leftarrow> s_write S x c; Some (SWrote sig, c') }"
| "store_do S (SRead copy old) c = do { (st, v, c') \<leftarrow> s_read S copy old c; Some (SGot st v, c') }"
| "store_do S SClear c = do { c' \<leftarrow> s_clear S c; Some (SCleared, c') }"

fun store_run :: "('a, 'c) store_api \<Rightarrow> 'a store_call list \<Rightarrow> 'c \<Rightarrow> ('a store_result list \<times> 'c) option" where
  "store_run S [] c = Some ([], c)"
| "store_run S (a # as) c =
     do { (r, c') \<leftarrow> store_do S a c; (rs, c'') \<leftarrow> store_run S as c'; Some (r # rs, c'') }"

text \<open>The specification: the unread samples and the last one read.\<close>

fun spec_do :: "('a \<Rightarrow> 'a list \<Rightarrow> bool \<times> 'a list) \<Rightarrow> 'a store_call \<Rightarrow> 'a list \<times> 'a option \<Rightarrow>
    'a store_result \<times> 'a list \<times> 'a option" where
  "spec_do keep (SWrite x) (xs, l) = (case keep x xs of (sig, xs') \<Rightarrow> (SWrote sig, xs', l))"
| "spec_do keep (SRead copy old) (y # ys, l) = (SGot NewData y, ys, Some y)"
| "spec_do keep (SRead copy old) ([], Some y) = (SGot OldData (if copy then y else old), [], Some y)"
| "spec_do keep (SRead copy old) ([], None) = (SGot NoData old, [], None)"
| "spec_do keep SClear s = (SCleared, [], None)"

fun spec_run :: "('a \<Rightarrow> 'a list \<Rightarrow> bool \<times> 'a list) \<Rightarrow> 'a store_call list \<Rightarrow> 'a list \<times> 'a option \<Rightarrow>
    'a store_result list" where
  "spec_run keep [] s = []"
| "spec_run keep (a # as) s = (case spec_do keep a s of (r, s') \<Rightarrow> r # spec_run keep as s')"

context channel_store
begin

text \<open>The last sample read matters only while there is no unread one.\<close>

definition agrees :: "'c \<Rightarrow> 'a list \<times> 'a option \<Rightarrow> bool" where
  "agrees c s \<longleftrightarrow> valid c \<and> fst s = fresh c \<and> (fresh c = [] \<longrightarrow> snd s = stale c)"

lemma do_refines:
  assumes "agrees c s"
  obtains r c' where "store_do S a c = Some (r, c')" and "fst (spec_do keep a s) = r"
    and "agrees c' (snd (spec_do keep a s))"
proof -
  have v: "valid c" and s: "fst s = fresh c" "fresh c = [] \<Longrightarrow> snd s = stale c"
    using assms by (auto simp: agrees_def)
  show ?thesis
  proof (cases a)
    case (SWrite x)
    from written [OF v, of x] obtain sig c' where "s_write S x c = Some (sig, c')" "valid c'"
      "keep x (fresh c) = (sig, fresh c')" "fresh c' \<noteq> []" by blast
    with SWrite s show ?thesis
      by (intro that [of "SWrote sig" c']) (cases s; auto simp: agrees_def)+
  next
    case (SRead copy old)
    show ?thesis
    proof (cases "fresh c")
      case (Cons y ys)
      from read_fresh [OF v Cons, of copy old] obtain c' where "s_read S copy old c = Some (NewData, y, c')"
        "valid c'" "fresh c' = ys" "stale c' = Some y" by blast
      with SRead s Cons show ?thesis
        by (intro that [of "SGot NewData y" c']) (cases s; auto simp: agrees_def)+
    next
      case Nil
      show ?thesis
      proof (cases "stale c")
        case None
        from read_none [OF v Nil None, of copy old] obtain c' where "s_read S copy old c = Some (NoData, old, c')"
          "valid c'" "fresh c' = []" "stale c' = None" by blast
        with SRead s Nil None show ?thesis
          by (intro that [of "SGot NoData old" c']) (cases s; auto simp: agrees_def)+
      next
        case (Some y)
        from read_stale [OF v Nil Some, of copy old] obtain c' where
          "s_read S copy old c = Some (OldData, if copy then y else old, c')"
          "valid c'" "fresh c' = []" "stale c' = Some y" by blast
        with SRead s Nil Some show ?thesis
          by (intro that [of "SGot OldData (if copy then y else old)" c']) (cases s; auto simp: agrees_def)+
      qed
    qed
  next
    case SClear
    from clear [OF v] obtain c' where "s_clear S c = Some c'" "valid c'" "fresh c' = []" "stale c' = None"
      by blast
    with SClear show ?thesis by (intro that [of SCleared c']) (auto simp: agrees_def)
  qed
qed

lemma run_refines:
  assumes "agrees c s"
  shows "map_option fst (store_run S as c) = Some (spec_run keep as s)"
  using assms
proof (induction as arbitrary: c s)
  case Nil
  then show ?case by simp
next
  case (Cons a as)
  from Cons.prems obtain r c' where "store_do S a c = Some (r, c')" "fst (spec_do keep a s) = r"
    "agrees c' (snd (spec_do keep a s))" by (rule do_refines)
  with Cons.IH [of c' "snd (spec_do keep a s)"] show ?case
    by (auto simp: map_option_case split: option.splits prod.splits)
qed

end

section \<open>Buffers and data objects give storage elements\<close>

sublocale sample_buffer \<subseteq> element: channel_store "buffer_store B" "spec_push cap cc"
    "\<lambda>e. contents (be_buffer e)" "\<lambda>e. map_option (b_deref B (be_buffer e)) (last_sample_p e)"
    "\<lambda>e. valid (be_buffer e) (held_list (last_sample_p e)) \<and> b_capacity B (be_buffer e) = cap \<and>
         circ (be_buffer e) = cc"
  for cap cc
proof (unfold_locales, goal_cases)
  case (1 e x)
  then have v: "valid (be_buffer e) (held_list (last_sample_p e))" by simp
  from push [OF v held_list_simps(3), of x] obtain ok b where
    "b_push B x (be_buffer e) = Some (ok, b)" "valid b (held_list (last_sample_p e))"
    "(ok, contents b) = spec_push cap cc x (contents (be_buffer e))" "b_capacity B b = cap" "circ b = cc"
    using 1 by blast
  moreover from this bound [OF v] 1 have "contents b \<noteq> []" by (auto simp: spec_push_def split: if_splits)
  ultimately show ?case
    by (intro exI [of _ ok] exI [of _ "e\<lparr>be_buffer := b\<rparr>"]) (simp add: buffer_store_def be_write_def)
next
  case (2 e y ys copy old)
  then have v: "valid (be_buffer e) (held_list (last_sample_p e))" by simp
  from pop_without_release_first [OF v held_list_simps(3) 2(2)] obtain p b where
    pop: "b_pop_without_release B (be_buffer e) = Some (Some p, b)"
    "valid b (held_list (last_sample_p e) @ [p])" "contents b = ys" "b_deref B b p = y"
    "b_capacity B b = cap" "circ b = cc" using 2 by auto
  have "\<exists>b'. be_release_last B (last_sample_p e) b = Some b' \<and> valid b' [p] \<and> contents b' = ys \<and>
      b_deref B b' p = y \<and> b_capacity B b' = cap \<and> circ b' = cc"
  proof (cases "last_sample_p e")
    case None
    with pop show ?thesis by (simp add: be_release_last_def)
  next
    case (Some l)
    with pop release [of b l "[p]"] show ?thesis by (auto simp: be_release_last_def)
  qed
  then obtain b' where "be_release_last B (last_sample_p e) b = Some b'" "valid b' [p]" "contents b' = ys"
    "b_deref B b' p = y" "b_capacity B b' = cap" "circ b' = cc" by blast
  with pop show ?case
    by (intro exI [of _ "\<lparr>be_buffer = b', last_sample_p = Some p\<rparr>"]) (simp add: buffer_store_def be_read_def)
next
  case (3 e y copy old)
  then show ?case
    using pop_without_release_empty [of "be_buffer e"]
    by (intro exI [of _ e]) (auto simp: buffer_store_def be_read_def Let_def)
next
  case (4 e copy old)
  then show ?case
    using pop_without_release_empty [of "be_buffer e"]
    by (intro exI [of _ e]) (auto simp: buffer_store_def be_read_def Let_def)
next
  case (5 e)
  have "\<exists>b. be_release_last B (last_sample_p e) (be_buffer e) = Some b \<and> valid b [] \<and>
      b_capacity B b = cap \<and> circ b = cc"
  proof (cases "last_sample_p e")
    case None
    with 5 show ?thesis by (simp add: be_release_last_def)
  next
    case (Some l)
    with 5 release [of "be_buffer e" l "[]"] show ?thesis by (auto simp: be_release_last_def)
  qed
  then obtain b where b: "be_release_last B (last_sample_p e) (be_buffer e) = Some b" "valid b []"
    "b_capacity B b = cap" "circ b = cc" by blast
  from clear [OF b(2)] b obtain b' where "b_clear B b = Some b'" "valid b' []" "contents b' = []"
    "b_capacity B b' = cap" "circ b' = cc" by blast
  with b show ?case
    by (intro exI [of _ "be_new b'"]) (simp add: buffer_store_def be_clear_def be_new_def)
next
  case (6 e x)
  then have none: "last_sample_p e = None" and v: "valid (be_buffer e) []" by auto
  from data_sample [OF v, of x] 6 obtain b where "b_data_sample B x (be_buffer e) = Some b" "valid b []"
    "contents b = []" "b_capacity B b = cap" "circ b = cc" by auto
  with none show ?case
    by (intro exI [of _ "e\<lparr>be_buffer := b\<rparr>"]) (simp add: buffer_store_def be_data_sample_def)
qed

sublocale data_object \<subseteq> element: channel_store "data_store D" "\<lambda>x _. (True, [x])"
    "\<lambda>e. if de_written e \<and> \<not> de_mread e then [current (de_data e)] else []"
    "\<lambda>e. if de_written e \<and> de_mread e then Some (current (de_data e)) else None"
    "\<lambda>e. valid (de_data e)"
proof (unfold_locales, goal_cases)
  case (1 e x)
  with set [of "de_data e" x] obtain d where "o_set D x (de_data e) = Some d" "valid d" "current d = x" by blast
  then show ?case
    by (intro exI [of _ True] exI [of _ "\<lparr>de_written = True, de_mread = False, de_data = d\<rparr>"])
      (simp add: data_store_def de_write_def)
next
  case (2 e y ys copy old)
  with get [of "de_data e"] show ?case by (auto simp: data_store_def de_read_def split: if_splits)
next
  case (3 e y copy old)
  with get [of "de_data e"] show ?case by (auto simp: data_store_def de_read_def split: if_splits)
next
  case (4 e copy old)
  then show ?case by (auto simp: data_store_def de_read_def split: if_splits)
next
  case (5 e)
  then show ?case by (auto simp: data_store_def de_clear_def)
next
  case (6 e x)
  then have "\<not> de_written e" and v: "valid (de_data e)" by (auto split: if_splits)
  moreover from data_sample [OF v, of x] obtain d where "o_data_sample D x (de_data e) = Some d" "valid d" by blast
  ultimately show ?case
    by (intro exI [of _ "e\<lparr>de_data := d\<rparr>"]) (simp add: data_store_def de_data_sample_def)
qed

section \<open>Delivery\<close>

text \<open>What a buffer keeps of a sequence of writes, and what a sequence of reads then returns.\<close>

definition kept :: "nat \<Rightarrow> bool \<Rightarrow> 'a list \<Rightarrow> 'a list" where
  "kept cap circ ws = (if circ then drop (length ws - cap) ws else take cap ws)"

fun reads_of :: "'a list \<Rightarrow> 'a option \<Rightarrow> 'a list \<Rightarrow> 'a store_result list" where
  "reads_of xs l [] = []"
| "reads_of (x # xs) l (old # olds) = SGot NewData x # reads_of xs (Some x) olds"
| "reads_of [] (Some y) (old # olds) = SGot OldData y # reads_of [] (Some y) olds"
| "reads_of [] None (old # olds) = SGot NoData old # reads_of [] None olds"

lemma spec_run_reads: "spec_run keep (map (SRead True) olds) (xs, l) = reads_of xs l olds"
  by (induction xs l olds rule: reads_of.induct) auto

lemma spec_run_writes:
  assumes "0 < cap" and "length xs \<le> cap"
  shows "drop (length ws) (spec_run (spec_push cap circ) (map SWrite ws @ as) (xs, l)) =
         spec_run (spec_push cap circ) as
           (if circ then drop (length xs + length ws - cap) (xs @ ws) else xs @ take (cap - length xs) ws, l)"
  using assms(2)
proof (induction ws arbitrary: xs)
  case Nil
  then show ?case by simp
next
  case (Cons w ws)
  show ?case
  proof (cases "length xs < cap")
    case True
    then obtain m where "cap - length xs = Suc m" "cap - Suc (length xs) = m"
      by (auto dest: less_imp_Suc_add)
    moreover have "spec_push cap circ w xs = (True, xs @ [w])" using True by (simp add: spec_push_def)
    ultimately show ?thesis using Cons.IH [of "xs @ [w]"] True by simp
  next
    case False
    with Cons.prems have len: "length xs = cap" by simp
    then obtain y ys where xs: "xs = y # ys" using assms(1) by (cases xs) auto
    show ?thesis
    proof (cases circ)
      case True
      have "spec_push cap circ w xs = (True, ys @ [w])" using True len xs by (simp add: spec_push_def)
      with Cons.IH [of "ys @ [w]"] len [symmetric] xs True show ?thesis by simp
    next
      case False
      have "spec_push cap circ w xs = (False, xs)" using False len by (simp add: spec_push_def)
      with Cons.IH [of xs] len False show ?thesis by simp
    qed
  qed
qed

section \<open>Properties\<close>

text \<open>C25: a buffered connection behaves the same whichever lock policy it was built with: for
  every sequence of writes, reads and clears, the elements on top of a lock-free, a locked
  and an unsynchronised buffer all give the results of the specification, in which a reader
  gets every kept sample once as \<^verbatim>\<open>NewData\<close>, then the last one as \<^verbatim>\<open>OldData\<close>. No call fails.\<close>

theorem buffer_connections_agree:
  assumes "0 < n" and "n < 65535"
  shows "map_option fst (do { b \<leftarrow> lf_new d n x circ; store_run (buffer_store lock_free_api) as (be_new b) }) =
           Some (spec_run (spec_push n circ) as ([], None))
       \<and> map_option fst (store_run (buffer_store locked_api) as (be_new (lb_new d n x circ))) =
           Some (spec_run (spec_push n circ) as ([], None))
       \<and> map_option fst (store_run (buffer_store unsync_api) as (be_new (ub_new d n x circ))) =
           Some (spec_run (spec_push n circ) as ([], None))"
proof -
  obtain b where b: "lf_new d n x circ = Some b" "lf_valid b []" "lf_contents b = []"
    "lf_capacity b = n" "mcircular b = circ" using lf_new_valid [OF assms] by metis
  have "lock_free.element.agrees n circ (be_new b) ([], None)"
    unfolding lock_free.element.agrees_def using b by (simp add: be_new_def lock_free_api_def)
  moreover have "locked.element.agrees n circ (be_new (lb_new d n x circ)) ([], None)"
    unfolding locked.element.agrees_def by (simp add: be_new_def locked_api_simps lb_new_valid [OF assms(1)])
  moreover have "unsync.element.agrees n circ (be_new (ub_new d n x circ)) ([], None)"
    unfolding unsync.element.agrees_def by (simp add: be_new_def locked_api_simps lb_new_valid [OF assms(1)])
  ultimately show ?thesis
    using b(1) lock_free.element.run_refines [of n circ "be_new b" "([], None)" as]
      locked.element.run_refines [of n circ "be_new (lb_new d n x circ)" "([], None)" as]
      unsync.element.run_refines [of n circ "be_new (ub_new d n x circ)" "([], None)" as]
    by simp
qed

theorem buffer_connections_agree_witness:
  "map_option fst (do { b \<leftarrow> lf_new 0 2 0 True;
       store_run (buffer_store lock_free_api)
         [SRead True 9, SWrite 1, SWrite 2, SWrite 3, SRead True 9, SRead True 9, SRead True 9] (be_new b) }) =
   Some [SGot NoData 9, SWrote True, SWrote True, SWrote True, SGot NewData 2, SGot NewData 3, SGot OldData (3::nat)]"
proof -
  have "0 < (2::nat)" and "(2::nat) < 65535" by simp_all
  note same = buffer_connections_agree [OF this, THEN conjunct1]
  show ?thesis unfolding same by (simp add: spec_push_def)
qed

text \<open>a buffered connection delivers in order and never twice: after the writes \<open>ws\<close> on a
  new lock-free connection, the reads return as \<^verbatim>\<open>NewData\<close> exactly the samples the buffer kept (the
  first \<open>n\<close> of them, or the last \<open>n\<close> when it is circular), and from then on the last of these as
  \<^verbatim>\<open>OldData\<close>, or \<^verbatim>\<open>NoData\<close> when nothing was written.\<close>

theorem buffer_connection_delivers_in_order:
  assumes "0 < n" and "n < 65535"
  shows "map_option (drop (length ws) \<circ> fst)
           (do { b \<leftarrow> lf_new d n x circ;
                 store_run (buffer_store lock_free_api) (map SWrite ws @ map (SRead True) olds) (be_new b) }) =
         Some (reads_of (kept n circ ws) None olds)"
proof -
  obtain b where b: "lf_new d n x circ = Some b" "lf_valid b []" "lf_contents b = []"
    "lf_capacity b = n" "mcircular b = circ" using lf_new_valid [OF assms] by metis
  have "lock_free.element.agrees n circ (be_new b) ([], None)"
    unfolding lock_free.element.agrees_def using b by (simp add: be_new_def lock_free_api_def)
  from lock_free.element.run_refines [OF this, of "map SWrite ws @ map (SRead True) olds"]
  have "map_option fst (store_run (buffer_store lock_free_api) (map SWrite ws @ map (SRead True) olds) (be_new b)) =
        Some (spec_run (spec_push n circ) (map SWrite ws @ map (SRead True) olds) ([], None))" .
  then show ?thesis
    using b(1) spec_run_writes [OF assms(1), of "[]" ws circ "map (SRead True) olds" None]
    by (auto simp: kept_def spec_run_reads map_option_case split: option.splits if_splits)
qed

theorem buffer_connection_delivers_in_order_witness:
  "map_option (drop (length [1, 2, 3::nat]) \<circ> fst)
     (do { b \<leftarrow> lf_new 0 2 0 False;
           store_run (buffer_store lock_free_api) (map SWrite [1, 2, 3::nat] @ map (SRead True) [9, 9, 9]) (be_new b) }) =
   Some [SGot NewData 1, SGot NewData 2, SGot OldData 2]"
proof -
  have "0 < (2::nat)" and "(2::nat) < 65535" by simp_all
  note same = buffer_connection_delivers_in_order [OF this, where ws = "[1, 2, 3::nat]" and olds = "[9, 9, 9]"]
  show ?thesis unfolding same by (simp add: kept_def)
qed

text \<open>a data connection behaves the same with a lock-free, a locked and an unsynchronised
  data object, and it keeps exactly the last sample written: it is read as \<^verbatim>\<open>NewData\<close> once after
  each write, as \<^verbatim>\<open>OldData\<close> afterwards, and there is \<^verbatim>\<open>NoData\<close> before the first write and after a
  clear.\<close>

theorem data_connections_agree:
  assumes "1 \<le> threads"
  shows "map_option fst (store_run (data_store lf_object_api) as (de_new (dl_new v x threads))) =
           Some (spec_run (\<lambda>x _. (True, [x])) as ([], None))
       \<and> map_option fst (store_run (data_store plain_object_api) as (de_new \<lparr>po_data = x\<rparr>)) =
           Some (spec_run (\<lambda>x _. (True, [x])) as ([], None))"
proof -
  have "lf_object.element.agrees (de_new (dl_new v x threads)) ([], None)"
    unfolding lf_object.element.agrees_def using dl_new_quiet [OF assms] by (simp add: de_new_def)
  moreover have "plain_object.element.agrees (de_new \<lparr>po_data = x\<rparr>) ([], None)"
    unfolding plain_object.element.agrees_def by (simp add: de_new_def)
  ultimately show ?thesis
    using lf_object.element.run_refines [of "de_new (dl_new v x threads)" "([], None)" as]
      plain_object.element.run_refines [of "de_new \<lparr>po_data = x\<rparr>" "([], None)" as]
    by simp
qed

theorem data_connections_agree_witness:
  "map_option fst (store_run (data_store lf_object_api) [SRead True 9, SWrite 1, SWrite 2, SRead True 9, SRead False 9]
     (de_new (dl_new 0 0 2))) =
   Some [SGot NoData 9, SWrote True, SWrote True, SGot NewData 2, SGot OldData (9::nat)]"
proof -
  have "1 \<le> (2::nat)" by simp
  note same = data_connections_agree [OF this, THEN conjunct1]
  show ?thesis unfolding same by simp
qed

text \<open>\<^verbatim>\<open>data_sample\<close> on a data connection that has been written to is delivered to the reader: it
  overwrites the stored sample but not the \<^verbatim>\<open>written\<close> flag, so the next read returns it as if it
  had been written (\<^verbatim>\<open>OutputPort::setDataSample\<close> documents that it is not delivered).\<close>

theorem data_sample_is_delivered:
  assumes "1 \<le> threads"
  shows "\<exists>e1 e2 e3. de_write lf_object_api y (de_new (dl_new v x threads)) = Some (True, e1) \<and>
           de_data_sample lf_object_api z e1 = Some e2 \<and>
           de_read lf_object_api copy old e2 = Some (NewData, z, e3)"
proof -
  note q = dl_new_quiet(1) [OF assms, of v x]
  from lf_object.set [OF q, of y] obtain d1 where d1: "o_set lf_object_api y (dl_new v x threads) = Some d1"
    "quiet_object d1" by blast
  from lf_object.data_sample [OF d1(2), of z] obtain d2 where d2: "o_data_sample lf_object_api z d1 = Some d2"
    "quiet_object d2" "published_data d2 = z" by blast
  from lf_object.get [OF d2(2)] d2(3) obtain d3 where "o_get lf_object_api d2 = (z, d3)" by auto
  with d1 d2 show ?thesis by (simp add: de_write_def de_new_def de_data_sample_def de_read_def)
qed

theorem data_sample_is_delivered_witness:
  "\<exists>e1 e2 e3. de_write lf_object_api 7 (de_new (dl_new 0 0 2)) = Some (True, e1) \<and>
     de_data_sample lf_object_api 8 e1 = Some e2 \<and>
     de_read lf_object_api True 9 e2 = Some (NewData, 8::nat, e3)"
  using data_sample_is_delivered [of 2 7 "0::nat" 0 8 True 9] by simp

end
