(* ===== verification/DataStorage.thy ===== *)
theory DataStorage
  imports ChannelElements
begin

text \<open>
  The storage of a connection as \<^verbatim>\<open>ConnFactory::buildDataStorage\<close> (\<^verbatim>\<open>rtt/internal/ConnFactory.hpp\<close>) builds
  it from a \<^verbatim>\<open>ConnPolicy\<close> (\<^verbatim>\<open>rtt/ConnPolicy.hpp\<close>): one of six elements, behind the virtual functions of
  \<^verbatim>\<open>ChannelElement\<close>. The contract \<open>channel_store\<close> holds of each of them, with the kind of storage saying what
  a write keeps.
\<close>

section \<open>Policies\<close>

datatype policy_type = DATA | BUFFER | CIRCULAR_BUFFER

datatype lock_policy = UNSYNC | LOCKED | LOCK_FREE

record conn_policy =
  cp_type :: policy_type
  cp_init :: bool
  cp_lock :: lock_policy
  cp_size :: nat

section \<open>Storage\<close>

datatype 'a storage =
    FreeBuffer "(nat, 'a lock_free_buffer) buffer_element"
  | LockBuffer "(unit, 'a locked_buffer) buffer_element"
  | PlainBuffer "(unit, 'a locked_buffer) buffer_element"
  | FreeData "'a lf_object data_element"
  | LockData "'a plain_object data_element"
  | PlainData "'a plain_object data_element"

text \<open>\<open>d\<close> is the default value of the sample type.\<close>

definition buildDataStorage :: "'a \<Rightarrow> conn_policy \<Rightarrow> 'a \<Rightarrow> 'a storage option" where
  "buildDataStorage d policy x =
     (let circ = (cp_type policy = CIRCULAR_BUFFER) in
      case cp_type policy of
        DATA \<Rightarrow>
          Some (case cp_lock policy of
            LOCK_FREE \<Rightarrow> FreeData (de_new (dl_new d x 2))
          | LOCKED \<Rightarrow> LockData (de_new \<lparr>po_data = x\<rparr>)
          | UNSYNC \<Rightarrow> PlainData (de_new \<lparr>po_data = x\<rparr>))
      | _ \<Rightarrow>
          (case cp_lock policy of
            LOCK_FREE \<Rightarrow> map_option (\<lambda>b. FreeBuffer (be_new b)) (lf_new d (cp_size policy) x circ)
          | LOCKED \<Rightarrow> Some (LockBuffer (be_new (lb_new d (cp_size policy) x circ)))
          | UNSYNC \<Rightarrow> Some (PlainBuffer (be_new (ub_new d (cp_size policy) x circ)))))"

text \<open>The virtual functions.\<close>

definition in_storage :: "('e \<Rightarrow> 'a storage) \<Rightarrow> ('r \<times> 'e) option \<Rightarrow> ('r \<times> 'a storage) option" where
  "in_storage C = map_option (\<lambda>(r, e). (r, C e))"

fun storage_write :: "'a \<Rightarrow> 'a storage \<Rightarrow> (bool \<times> 'a storage) option" where
  "storage_write x (FreeBuffer e) = in_storage FreeBuffer (be_write lock_free_api x e)"
| "storage_write x (LockBuffer e) = in_storage LockBuffer (be_write locked_api x e)"
| "storage_write x (PlainBuffer e) = in_storage PlainBuffer (be_write unsync_api x e)"
| "storage_write x (FreeData e) = in_storage FreeData (de_write lf_object_api x e)"
| "storage_write x (LockData e) = in_storage LockData (de_write plain_object_api x e)"
| "storage_write x (PlainData e) = in_storage PlainData (de_write plain_object_api x e)"

definition in_storage2 :: "('e \<Rightarrow> 'a storage) \<Rightarrow> ('s \<times> 'r \<times> 'e) option \<Rightarrow> ('s \<times> 'r \<times> 'a storage) option" where
  "in_storage2 C = map_option (\<lambda>(s, r, e). (s, r, C e))"

fun storage_read :: "bool \<Rightarrow> 'a \<Rightarrow> 'a storage \<Rightarrow> (flow_status \<times> 'a \<times> 'a storage) option" where
  "storage_read copy old (FreeBuffer e) = in_storage2 FreeBuffer (be_read lock_free_api copy old e)"
| "storage_read copy old (LockBuffer e) = in_storage2 LockBuffer (be_read locked_api copy old e)"
| "storage_read copy old (PlainBuffer e) = in_storage2 PlainBuffer (be_read unsync_api copy old e)"
| "storage_read copy old (FreeData e) = in_storage2 FreeData (de_read lf_object_api copy old e)"
| "storage_read copy old (LockData e) = in_storage2 LockData (de_read plain_object_api copy old e)"
| "storage_read copy old (PlainData e) = in_storage2 PlainData (de_read plain_object_api copy old e)"

fun storage_clear :: "'a storage \<Rightarrow> 'a storage option" where
  "storage_clear (FreeBuffer e) = map_option FreeBuffer (be_clear lock_free_api e)"
| "storage_clear (LockBuffer e) = map_option LockBuffer (be_clear locked_api e)"
| "storage_clear (PlainBuffer e) = map_option PlainBuffer (be_clear unsync_api e)"
| "storage_clear (FreeData e) = map_option FreeData (de_clear e)"
| "storage_clear (LockData e) = map_option LockData (de_clear e)"
| "storage_clear (PlainData e) = map_option PlainData (de_clear e)"

fun storage_data_sample :: "'a \<Rightarrow> 'a storage \<Rightarrow> 'a storage option" where
  "storage_data_sample x (FreeBuffer e) = map_option FreeBuffer (be_data_sample lock_free_api x e)"
| "storage_data_sample x (LockBuffer e) = map_option LockBuffer (be_data_sample locked_api x e)"
| "storage_data_sample x (PlainBuffer e) = map_option PlainBuffer (be_data_sample unsync_api x e)"
| "storage_data_sample x (FreeData e) = map_option FreeData (de_data_sample lf_object_api x e)"
| "storage_data_sample x (LockData e) = map_option LockData (de_data_sample plain_object_api x e)"
| "storage_data_sample x (PlainData e) = map_option PlainData (de_data_sample plain_object_api x e)"

definition storage_api :: "('a, 'a storage) store_api" where
  "storage_api = \<lparr>s_write = storage_write, s_read = storage_read, s_clear = storage_clear,
                  s_data_sample = storage_data_sample\<rparr>"

section \<open>The contract\<close>

text \<open>A family of contracts, one for each kind of element.\<close>

locale typed_store =
  fixes S :: "('a, 'c) store_api"
    and kind :: "'c \<Rightarrow> 'k"
    and keep :: "'k \<Rightarrow> 'a \<Rightarrow> 'a list \<Rightarrow> bool \<times> 'a list"
    and fresh :: "'c \<Rightarrow> 'a list"
    and stale :: "'c \<Rightarrow> 'a option"
    and valid :: "'c \<Rightarrow> bool"
  assumes stores: "channel_store S (keep k) fresh stale (\<lambda>c. valid c \<and> kind c = k)"
begin

lemma written:
  "valid c \<Longrightarrow> \<exists>sig c'. s_write S x c = Some (sig, c') \<and> valid c' \<and> kind c' = kind c \<and>
    keep (kind c) x (fresh c) = (sig, fresh c') \<and> fresh c' \<noteq> []"
  using channel_store.written [OF stores [of "kind c"], of c x] by blast

lemma read_fresh:
  "valid c \<Longrightarrow> fresh c = y # ys \<Longrightarrow>
   \<exists>c'. s_read S copy old c = Some (NewData, y, c') \<and> valid c' \<and> kind c' = kind c \<and> fresh c' = ys \<and> stale c' = Some y"
  using channel_store.read_fresh [OF stores [of "kind c"], of c y ys copy old] by blast

lemma read_old:
  "valid c \<Longrightarrow> fresh c = [] \<Longrightarrow>
   \<exists>c'. s_read S copy old c =
       Some (case stale c of None \<Rightarrow> (NoData, old, c') | Some y \<Rightarrow> (OldData, if copy then y else old, c')) \<and>
     valid c' \<and> kind c' = kind c \<and> fresh c' = [] \<and> stale c' = stale c"
  using channel_store.read_stale [OF stores [of "kind c"], of c _ copy old]
    channel_store.read_none [OF stores [of "kind c"], of c copy old]
  by (cases "stale c") force+

lemma cleared:
  "valid c \<Longrightarrow> \<exists>c'. s_clear S c = Some c' \<and> valid c' \<and> kind c' = kind c \<and> fresh c' = [] \<and> stale c' = None"
  using channel_store.clear [OF stores [of "kind c"], of c] by blast

lemma sampled:
  "valid c \<Longrightarrow> fresh c = [] \<Longrightarrow> stale c = None \<Longrightarrow>
   \<exists>c'. s_data_sample S x c = Some c' \<and> valid c' \<and> kind c' = kind c \<and> fresh c' = [] \<and> stale c' = None"
  using channel_store.sampled [OF stores [of "kind c"], of c x] by blast

end

datatype storage_kind = KData | KBuffer nat bool

fun st_kind :: "'a storage \<Rightarrow> storage_kind" where
  "st_kind (FreeBuffer e) = KBuffer (lf_capacity (be_buffer e)) (mcircular (be_buffer e))"
| "st_kind (LockBuffer e) = KBuffer (lb_cap (be_buffer e)) (lb_circular (be_buffer e))"
| "st_kind (PlainBuffer e) = KBuffer (lb_cap (be_buffer e)) (lb_circular (be_buffer e))"
| "st_kind _ = KData"

fun st_keep :: "storage_kind \<Rightarrow> 'a \<Rightarrow> 'a list \<Rightarrow> bool \<times> 'a list" where
  "st_keep KData x xs = (True, [x])"
| "st_keep (KBuffer cap circ) x xs = spec_push cap circ x xs"

fun st_fresh :: "'a storage \<Rightarrow> 'a list" where
  "st_fresh (FreeBuffer e) = lf_contents (be_buffer e)"
| "st_fresh (LockBuffer e) = lb_buf (be_buffer e)"
| "st_fresh (PlainBuffer e) = lb_buf (be_buffer e)"
| "st_fresh (FreeData e) = (if de_written e \<and> \<not> de_mread e then [published_data (de_data e)] else [])"
| "st_fresh (LockData e) = (if de_written e \<and> \<not> de_mread e then [po_data (de_data e)] else [])"
| "st_fresh (PlainData e) = (if de_written e \<and> \<not> de_mread e then [po_data (de_data e)] else [])"

fun st_stale :: "'a storage \<Rightarrow> 'a option" where
  "st_stale (FreeBuffer e) = map_option (b_deref lock_free_api (be_buffer e)) (last_sample_p e)"
| "st_stale (LockBuffer e) = map_option (b_deref locked_api (be_buffer e)) (last_sample_p e)"
| "st_stale (PlainBuffer e) = map_option (b_deref unsync_api (be_buffer e)) (last_sample_p e)"
| "st_stale (FreeData e) = (if de_written e \<and> de_mread e then Some (published_data (de_data e)) else None)"
| "st_stale (LockData e) = (if de_written e \<and> de_mread e then Some (po_data (de_data e)) else None)"
| "st_stale (PlainData e) = (if de_written e \<and> de_mread e then Some (po_data (de_data e)) else None)"

fun st_valid :: "'a storage \<Rightarrow> bool" where
  "st_valid (FreeBuffer e) \<longleftrightarrow> lf_valid (be_buffer e) (held_list (last_sample_p e))"
| "st_valid (LockBuffer e) \<longleftrightarrow> lb_valid (be_buffer e) (held_list (last_sample_p e))"
| "st_valid (PlainBuffer e) \<longleftrightarrow> lb_valid (be_buffer e) (held_list (last_sample_p e))"
| "st_valid (FreeData e) \<longleftrightarrow> quiet_object (de_data e)"
| "st_valid _ \<longleftrightarrow> True"

lemmas storage_defs = storage_api_def in_storage_def in_storage2_def
  buffer_store_def data_store_def

text \<open>An element keeps its contract when it is wrapped into a constructor of \<^typ>\<open>'a storage\<close>.\<close>

definition wraps :: "('a, 'e) store_api \<Rightarrow> ('e \<Rightarrow> 'a storage) \<Rightarrow> bool" where
  "wraps A C \<longleftrightarrow>
     (\<forall>x e. storage_write x (C e) = in_storage C (s_write A x e)) \<and>
     (\<forall>copy old e. storage_read copy old (C e) = in_storage2 C (s_read A copy old e)) \<and>
     (\<forall>e. storage_clear (C e) = map_option C (s_clear A e)) \<and>
     (\<forall>x e. storage_data_sample x (C e) = map_option C (s_data_sample A x e))"

lemma wraps_storage:
  "wraps (buffer_store lock_free_api) FreeBuffer" "wraps (buffer_store locked_api) LockBuffer"
  "wraps (buffer_store unsync_api) PlainBuffer" "wraps (data_store lf_object_api) FreeData"
  "wraps (data_store plain_object_api) LockData" "wraps (data_store plain_object_api) PlainData"
  by (simp_all add: wraps_def buffer_store_def data_store_def)

lemma wrapped_laws:
  assumes w: "wraps A C" and A: "channel_store A keep (\<lambda>e. fresh (C e)) (\<lambda>e. stale (C e)) (\<lambda>e. valid (C e))"
    and v: "valid (C e)"
  shows "\<exists>sig c'. s_write storage_api x (C e) = Some (sig, c') \<and> valid c' \<and> keep x (fresh (C e)) = (sig, fresh c') \<and> fresh c' \<noteq> []"
    and "fresh (C e) = y # ys \<Longrightarrow> \<exists>c'. s_read storage_api copy old (C e) = Some (NewData, y, c') \<and> valid c' \<and> fresh c' = ys \<and> stale c' = Some y"
    and "fresh (C e) = [] \<Longrightarrow> stale (C e) = Some y \<Longrightarrow>
      \<exists>c'. s_read storage_api copy old (C e) = Some (OldData, if copy then y else old, c') \<and> valid c' \<and> fresh c' = [] \<and> stale c' = Some y"
    and "fresh (C e) = [] \<Longrightarrow> stale (C e) = None \<Longrightarrow>
      \<exists>c'. s_read storage_api copy old (C e) = Some (NoData, old, c') \<and> valid c' \<and> fresh c' = [] \<and> stale c' = None"
    and "\<exists>c'. s_clear storage_api (C e) = Some c' \<and> valid c' \<and> fresh c' = [] \<and> stale c' = None"
    and "fresh (C e) = [] \<Longrightarrow> stale (C e) = None \<Longrightarrow>
      \<exists>c'. s_data_sample storage_api x (C e) = Some c' \<and> valid c' \<and> fresh c' = [] \<and> stale c' = None"
  using w channel_store.written [OF A v, of x] channel_store.read_fresh [OF A v, of y ys copy old]
    channel_store.read_stale [OF A v, of y copy old] channel_store.read_none [OF A v, of copy old]
    channel_store.clear [OF A v] channel_store.sampled [OF A v, of x]
  by (auto simp: wraps_def storage_api_def in_storage_def in_storage2_def)

lemma buffer_laws:
  "channel_store (buffer_store lock_free_api) (spec_push cap circ) (\<lambda>e. st_fresh (FreeBuffer e)) (\<lambda>e. st_stale (FreeBuffer e))
     (\<lambda>e. st_valid (FreeBuffer e) \<and> st_kind (FreeBuffer e) = KBuffer cap circ)"
  "channel_store (buffer_store locked_api) (spec_push cap circ) (\<lambda>e. st_fresh (LockBuffer e)) (\<lambda>e. st_stale (LockBuffer e))
     (\<lambda>e. st_valid (LockBuffer e) \<and> st_kind (LockBuffer e) = KBuffer cap circ)"
  "channel_store (buffer_store unsync_api) (spec_push cap circ) (\<lambda>e. st_fresh (PlainBuffer e)) (\<lambda>e. st_stale (PlainBuffer e))
     (\<lambda>e. st_valid (PlainBuffer e) \<and> st_kind (PlainBuffer e) = KBuffer cap circ)"
  using lock_free.element.channel_store_axioms [of cap circ] locked.element.channel_store_axioms [of cap circ]
    unsync.element.channel_store_axioms [of cap circ]
  by (simp_all add: lock_free_api_def locked_api_def unsync_api_def)

lemma data_laws:
  "channel_store (data_store lf_object_api) (\<lambda>x _. (True, [x])) (\<lambda>e. st_fresh (FreeData e)) (\<lambda>e. st_stale (FreeData e))
     (\<lambda>e. st_valid (FreeData e))"
  "channel_store (data_store plain_object_api) (\<lambda>x _. (True, [x])) (\<lambda>e. st_fresh (LockData e)) (\<lambda>e. st_stale (LockData e))
     (\<lambda>e. st_valid (LockData e))"
  "channel_store (data_store plain_object_api) (\<lambda>x _. (True, [x])) (\<lambda>e. st_fresh (PlainData e)) (\<lambda>e. st_stale (PlainData e))
     (\<lambda>e. st_valid (PlainData e))"
  using lf_object.element.channel_store_axioms plain_object.element.channel_store_axioms by simp_all

lemma storage_laws:
  fixes c :: "'a storage"
  assumes v: "st_valid c" and k: "st_kind c = k"
  shows "\<exists>sig c'. s_write storage_api x c = Some (sig, c') \<and> (st_valid c' \<and> st_kind c' = k) \<and>
      st_keep k x (st_fresh c) = (sig, st_fresh c') \<and> st_fresh c' \<noteq> []" (is "?written c")
    and "st_fresh c = y # ys \<Longrightarrow> \<exists>c'. s_read storage_api copy old c = Some (NewData, y, c') \<and>
      (st_valid c' \<and> st_kind c' = k) \<and> st_fresh c' = ys \<and> st_stale c' = Some y" (is "_ \<Longrightarrow> ?fresh c")
    and "st_fresh c = [] \<Longrightarrow> st_stale c = Some y \<Longrightarrow>
      \<exists>c'. s_read storage_api copy old c = Some (OldData, if copy then y else old, c') \<and>
      (st_valid c' \<and> st_kind c' = k) \<and> st_fresh c' = [] \<and> st_stale c' = Some y" (is "_ \<Longrightarrow> _ \<Longrightarrow> ?stale c")
    and "st_fresh c = [] \<Longrightarrow> st_stale c = None \<Longrightarrow>
      \<exists>c'. s_read storage_api copy old c = Some (NoData, old, c') \<and> (st_valid c' \<and> st_kind c' = k) \<and>
      st_fresh c' = [] \<and> st_stale c' = None" (is "_ \<Longrightarrow> _ \<Longrightarrow> ?none c")
    and "\<exists>c'. s_clear storage_api c = Some c' \<and> (st_valid c' \<and> st_kind c' = k) \<and> st_fresh c' = [] \<and> st_stale c' = None"
      (is "?clear c")
    and "st_fresh c = [] \<Longrightarrow> st_stale c = None \<Longrightarrow>
      \<exists>c'. s_data_sample storage_api x c = Some c' \<and> (st_valid c' \<and> st_kind c' = k) \<and> st_fresh c' = [] \<and> st_stale c' = None"
      (is "_ \<Longrightarrow> _ \<Longrightarrow> ?sampled c")
proof -
  define V where "V = (\<lambda>c :: 'a storage. st_valid c \<and> st_kind c = k)"
  have all: "?written c \<and> (st_fresh c = y # ys \<longrightarrow> ?fresh c) \<and> (st_fresh c = [] \<longrightarrow> st_stale c = Some y \<longrightarrow> ?stale c) \<and>
      (st_fresh c = [] \<longrightarrow> st_stale c = None \<longrightarrow> ?none c) \<and> ?clear c \<and>
      (st_fresh c = [] \<longrightarrow> st_stale c = None \<longrightarrow> ?sampled c)"
    if w: "wraps A C" and A: "channel_store A (st_keep k) (\<lambda>e. st_fresh (C e)) (\<lambda>e. st_stale (C e)) (\<lambda>e. V (C e))"
      and c: "c = C e" for A :: "('a, 'e) store_api" and C e
  proof -
    have "V (C e)" using v k c by (simp add: V_def)
    note laws = wrapped_laws [where fresh = st_fresh and stale = st_stale, OF w A this]
    show ?thesis unfolding c V_def [symmetric]
      using laws(1) [of x] laws(2) [of y ys copy old] laws(3) [of y copy old] laws(4) [of copy old] laws(5) laws(6) [of x]
      unfolding V_def by blast
  qed
  have keepD: "st_keep KData = (\<lambda>x _. (True, [x]))" and keepB: "st_keep (KBuffer cap circ) = spec_push cap circ" for cap circ
    by (auto simp: fun_eq_iff)
  have conj: "?written c \<and> (st_fresh c = y # ys \<longrightarrow> ?fresh c) \<and> (st_fresh c = [] \<longrightarrow> st_stale c = Some y \<longrightarrow> ?stale c) \<and>
      (st_fresh c = [] \<longrightarrow> st_stale c = None \<longrightarrow> ?none c) \<and> ?clear c \<and>
      (st_fresh c = [] \<longrightarrow> st_stale c = None \<longrightarrow> ?sampled c)"
  proof (cases c)
    case (FreeBuffer e)
    obtain cap circ where kb: "k = KBuffer cap circ" using k FreeBuffer by auto
    show ?thesis
      by (rule all [OF wraps_storage(1) _ FreeBuffer]) (use buffer_laws(1) [of cap circ] in \<open>simp only: V_def kb keepB\<close>)
  next
    case (LockBuffer e)
    obtain cap circ where kb: "k = KBuffer cap circ" using k LockBuffer by auto
    show ?thesis
      by (rule all [OF wraps_storage(2) _ LockBuffer]) (use buffer_laws(2) [of cap circ] in \<open>simp only: V_def kb keepB\<close>)
  next
    case (PlainBuffer e)
    obtain cap circ where kb: "k = KBuffer cap circ" using k PlainBuffer by auto
    show ?thesis
      by (rule all [OF wraps_storage(3) _ PlainBuffer]) (use buffer_laws(3) [of cap circ] in \<open>simp only: V_def kb keepB\<close>)
  next
    case (FreeData e)
    then have kd: "k = KData" using k by auto
    show ?thesis
      by (rule all [OF wraps_storage(4) _ FreeData]) (use data_laws(1) in \<open>simp add: V_def kd keepD\<close>)
  next
    case (LockData e)
    then have kd: "k = KData" using k by auto
    show ?thesis
      by (rule all [OF wraps_storage(5) _ LockData]) (use data_laws(2) in \<open>simp add: V_def kd keepD\<close>)
  next
    case (PlainData e)
    then have kd: "k = KData" using k by auto
    show ?thesis
      by (rule all [OF wraps_storage(6) _ PlainData]) (use data_laws(3) in \<open>simp add: V_def kd keepD\<close>)
  qed
  from conj show "?written c" and "st_fresh c = y # ys \<Longrightarrow> ?fresh c" and "st_fresh c = [] \<Longrightarrow> st_stale c = Some y \<Longrightarrow> ?stale c"
    and "st_fresh c = [] \<Longrightarrow> st_stale c = None \<Longrightarrow> ?none c" and "?clear c"
    and "st_fresh c = [] \<Longrightarrow> st_stale c = None \<Longrightarrow> ?sampled c"
    by (simp_all only:)
qed

interpretation storage: typed_store storage_api st_kind st_keep st_fresh st_stale st_valid
proof (unfold_locales, unfold_locales, goal_cases)
  case (1 k c x)
  then show ?case by (elim conjE) (rule storage_laws(1))
next
  case (2 k c y ys copy old)
  then show ?case by (elim conjE) (rule storage_laws(2))
next
  case (3 k c y copy old)
  then show ?case by (elim conjE) (rule storage_laws(3))
next
  case (4 k c copy old)
  then show ?case by (elim conjE) (rule storage_laws(4))
next
  case (5 k c)
  then show ?case by (elim conjE) (rule storage_laws(5))
next
  case (6 k c x)
  then show ?case by (elim conjE) (rule storage_laws(6))
qed

text \<open>\<^verbatim>\<open>data_sample\<close> on storage that may hold samples. A lock-free buffer must hold none, and none
  that was read last; the others keep sound in every state.\<close>

fun sample_ready :: "'a storage \<Rightarrow> bool" where
  "sample_ready (FreeBuffer e) \<longleftrightarrow> lf_contents (be_buffer e) = [] \<and> last_sample_p e = None"
| "sample_ready c \<longleftrightarrow> True"

lemma storage_resampled:
  assumes "st_valid c" and "sample_ready c"
  shows "\<exists>c'. s_data_sample storage_api x c = Some c' \<and> st_valid c' \<and> st_kind c' = st_kind c"
proof (cases c)
  case (FreeBuffer e)
  with assms show ?thesis using storage.sampled [of c x] by auto
next
  case (FreeData e)
  with assms lf_object.data_sample [of "de_data e" x] show ?thesis
    by (auto simp: storage_api_def de_data_sample_def)
qed (use assms in \<open>simp_all add: storage_api_def be_data_sample_def de_data_sample_def locked_api_def unsync_api_def
      plain_object_api_def lb_data_sample_def ub_data_sample_def deque_resize_def lb_valid_def\<close>)

section \<open>New storage\<close>

text \<open>A policy that asks for a buffer must ask for room; the indices of the lock-free buffer have 16 bits.\<close>

definition sound_policy :: "conn_policy \<Rightarrow> bool" where
  "sound_policy policy \<longleftrightarrow>
     cp_type policy = DATA \<or> (0 < cp_size policy \<and> (cp_lock policy = LOCK_FREE \<longrightarrow> cp_size policy < 65535))"

lemma sound_policy_code [code]:
  "sound_policy policy \<longleftrightarrow>
     cp_type policy = DATA \<or> (0 < cp_size policy \<and> (cp_lock policy = LOCK_FREE \<longrightarrow> int (cp_size policy) < 65535))"
  by (auto simp: sound_policy_def)

definition policy_kind :: "conn_policy \<Rightarrow> storage_kind" where
  "policy_kind policy =
     (case cp_type policy of DATA \<Rightarrow> KData | t \<Rightarrow> KBuffer (cp_size policy) (t = CIRCULAR_BUFFER))"

lemma build_storage:
  assumes "sound_policy policy"
  obtains c where "buildDataStorage d policy x = Some c" "st_valid c" "st_kind c = policy_kind policy"
    "st_fresh c = []" "st_stale c = None"
proof (cases "cp_type policy = DATA")
  case True
  have q: "quiet_object (dl_new d x 2)" by (rule dl_new_quiet) simp
  show ?thesis
    by (rule that [of "case cp_lock policy of LOCK_FREE \<Rightarrow> FreeData (de_new (dl_new d x 2))
          | LOCKED \<Rightarrow> LockData (de_new \<lparr>po_data = x\<rparr>) | UNSYNC \<Rightarrow> PlainData (de_new \<lparr>po_data = x\<rparr>)"])
      (use True q in \<open>auto simp: buildDataStorage_def de_new_def policy_kind_def split: lock_policy.split\<close>)
next
  case False
  let ?circ = "cp_type policy = CIRCULAR_BUFFER"
  have pos: "0 < cp_size policy" using assms False by (simp add: sound_policy_def)
  have k: "policy_kind policy = KBuffer (cp_size policy) ?circ"
    using False by (simp add: policy_kind_def split: policy_type.split)
  have b: "buildDataStorage d policy x =
      (case cp_lock policy of
         LOCK_FREE \<Rightarrow> map_option (\<lambda>b. FreeBuffer (be_new b)) (lf_new d (cp_size policy) x ?circ)
       | LOCKED \<Rightarrow> Some (LockBuffer (be_new (lb_new d (cp_size policy) x ?circ)))
       | UNSYNC \<Rightarrow> Some (PlainBuffer (be_new (ub_new d (cp_size policy) x ?circ))))"
    using False by (cases "cp_type policy"; cases "cp_lock policy") (simp_all add: buildDataStorage_def Let_def)
  show ?thesis
  proof (cases "cp_lock policy")
    case LOCK_FREE
    then have "cp_size policy < 65535" using assms False by (simp add: sound_policy_def)
    from lf_new_valid [OF pos this, of d x ?circ] obtain bf where "lf_new d (cp_size policy) x ?circ = Some bf"
      "lf_valid bf []" "lf_contents bf = []" "lf_capacity bf = cp_size policy" "mcircular bf = ?circ" by blast
    with LOCK_FREE b k show ?thesis by (intro that [of "FreeBuffer (be_new bf)"]) (simp_all add: be_new_def)
  next
    case LOCKED
    with b k show ?thesis
      by (intro that [of "LockBuffer (be_new (lb_new d (cp_size policy) x ?circ))"])
        (simp_all add: be_new_def lb_new_valid [OF pos])
  next
    case UNSYNC
    with b k show ?thesis
      by (intro that [of "PlainBuffer (be_new (ub_new d (cp_size policy) x ?circ))"])
        (simp_all add: be_new_def lb_new_valid [OF pos])
  qed
qed

end
