(* ===== verification/DataObjectConc.thy ===== *)
theory DataObjectConc
  imports DataObject
begin

text \<open>
  \<^verbatim>\<open>DataObjectLockFree\<close> with one writer calling \<^verbatim>\<open>Set\<close> and \<open>R\<close> readers calling \<^verbatim>\<open>Get\<close> at the
  same time. A thread performs one access to shared memory per step; the data type is one
  whose assignment is not atomic, a pair that is copied half by half, so that a reader could
  see a mixture of two samples. \<open>published\<close> lists the values that \<^verbatim>\<open>Set\<close> has made visible and
  is not part of the program; a reader remembers the newest of them at the moment its second
  read of \<^verbatim>\<open>read_ptr\<close> succeeds.
\<close>

section \<open>Threads and steps\<close>

datatype 'a get_pc =
    GetLoop                           \<comment> \<open>not in \<open>Get\<close>, or at the top of its loop\<close>
  | GetLoaded nat                     \<comment> \<open>has copied \<open>read_ptr\<close>\<close>
  | GetPinned nat                     \<comment> \<open>has incremented the counter\<close>
  | GetMissed nat                     \<comment> \<open>has seen that \<open>read_ptr\<close> changed\<close>
  | GetCopy nat "'a \<times> 'a"
  | GetHalf nat 'a "'a \<times> 'a"
  | GetCopied nat "'a \<times> 'a" "'a \<times> 'a"
  | GetDone "'a \<times> 'a" "'a \<times> 'a"      \<comment> \<open>the value returned and the remembered one\<close>

datatype 'a set_pc =
    SetIdle
  | SetFirst "'a \<times> 'a"
  | SetSecond "'a \<times> 'a"
  | SetScan "'a \<times> 'a" nat             \<comment> \<open>in the loop, with \<open>wrote_ptr\<close>\<close>
  | SetPublish "'a \<times> 'a" nat
  | SetAdvance

record 'a do_sys =
  obj :: "('a \<times> 'a) lf_object"
  set_pc :: "'a set_pc"
  get_pcs :: "nat \<Rightarrow> 'a get_pc"
  published :: "('a \<times> 'a) list"

abbreviation get_goto :: "nat \<Rightarrow> 'a get_pc \<Rightarrow> 'a do_sys \<Rightarrow> 'a do_sys" where
  "get_goto t q s \<equiv> s\<lparr>get_pcs := (get_pcs s)(t := q)\<rparr>"

abbreviation cell_value :: "'a lf_object \<Rightarrow> nat \<Rightarrow> 'a" where
  "cell_value d i \<equiv> cell_data (cells d ! i)"

definition do_init :: "nat \<Rightarrow> 'a \<times> 'a \<Rightarrow> 'a \<times> 'a \<Rightarrow> 'a do_sys \<Rightarrow> bool" where
  "do_init threads v x s \<longleftrightarrow>
     s = \<lparr>obj = dl_new v x threads, set_pc = SetIdle, get_pcs = (\<lambda>_. GetLoop), published = [x]\<rparr>"

inductive do_step :: "nat \<Rightarrow> 'a do_sys \<Rightarrow> 'a do_sys \<Rightarrow> bool" for R :: nat where
  get_load: "t < R \<Longrightarrow> get_pcs s t = GetLoop \<Longrightarrow>
    do_step R s (get_goto t (GetLoaded (read_ptr (obj s))) s)"
| get_inc: "t < R \<Longrightarrow> get_pcs s t = GetLoaded i \<Longrightarrow>
    do_step R s (s\<lparr>obj := cell_add i 1 (obj s), get_pcs := (get_pcs s)(t := GetPinned i)\<rparr>)"
| get_check: "t < R \<Longrightarrow> get_pcs s t = GetPinned i \<Longrightarrow>
    do_step R s
      (get_goto t (if i \<noteq> read_ptr (obj s) then GetMissed i else GetCopy i (last (published s))) s)"
| get_back: "t < R \<Longrightarrow> get_pcs s t = GetMissed i \<Longrightarrow>
    do_step R s (s\<lparr>obj := cell_add i (- 1) (obj s), get_pcs := (get_pcs s)(t := GetLoop)\<rparr>)"
| get_first: "t < R \<Longrightarrow> get_pcs s t = GetCopy i e \<Longrightarrow>
    do_step R s (get_goto t (GetHalf i (fst (cell_value (obj s) i)) e) s)"
| get_second: "t < R \<Longrightarrow> get_pcs s t = GetHalf i a e \<Longrightarrow>
    do_step R s (get_goto t (GetCopied i (a, snd (cell_value (obj s) i)) e) s)"
| get_release: "t < R \<Longrightarrow> get_pcs s t = GetCopied i v e \<Longrightarrow>
    do_step R s (s\<lparr>obj := cell_add i (- 1) (obj s), get_pcs := (get_pcs s)(t := GetDone v e)\<rparr>)"
| get_return: "t < R \<Longrightarrow> get_pcs s t = GetDone v e \<Longrightarrow> do_step R s (get_goto t GetLoop s)"
| set_call: "set_pc s = SetIdle \<Longrightarrow> do_step R s (s\<lparr>set_pc := SetFirst x\<rparr>)"
| set_first: "set_pc s = SetFirst x \<Longrightarrow>
    do_step R s
      (s\<lparr>obj := cell_store (write_ptr (obj s)) (fst x, snd (cell_value (obj s) (write_ptr (obj s)))) (obj s),
         set_pc := SetSecond x\<rparr>)"
| set_second: "set_pc s = SetSecond x \<Longrightarrow>
    do_step R s
      (s\<lparr>obj := cell_store (write_ptr (obj s)) (fst (cell_value (obj s) (write_ptr (obj s))), snd x) (obj s),
         set_pc := SetScan x (write_ptr (obj s))\<rparr>)"
| set_busy: "set_pc s = SetScan x wrote \<Longrightarrow> next_busy (obj s) \<Longrightarrow>
    do_step R s
      (s\<lparr>obj := step_write_ptr (obj s),
         set_pc := (if write_ptr (step_write_ptr (obj s)) = wrote then SetIdle else SetScan x wrote)\<rparr>)"
| set_free: "set_pc s = SetScan x wrote \<Longrightarrow> \<not> next_busy (obj s) \<Longrightarrow>
    do_step R s (s\<lparr>set_pc := SetPublish x wrote\<rparr>)"
| set_publish: "set_pc s = SetPublish x wrote \<Longrightarrow>
    do_step R s
      (s\<lparr>obj := (obj s)\<lparr>read_ptr := wrote\<rparr>, set_pc := SetAdvance, published := published s @ [x]\<rparr>)"
| set_advance: "set_pc s = SetAdvance \<Longrightarrow>
    do_step R s (s\<lparr>obj := step_write_ptr (obj s), set_pc := SetIdle\<rparr>)"

section \<open>The invariant\<close>

text \<open>The cell a reader has a pointer to, whether it has counted itself there, and whether
  its second read of \<^verbatim>\<open>read_ptr\<close> confirmed it.\<close>

fun points_to :: "'a get_pc \<Rightarrow> nat option" where
  "points_to (GetLoaded i) = Some i"
| "points_to (GetPinned i) = Some i"
| "points_to (GetMissed i) = Some i"
| "points_to (GetCopy i e) = Some i"
| "points_to (GetHalf i a e) = Some i"
| "points_to (GetCopied i v e) = Some i"
| "points_to _ = None"

fun pinned :: "'a get_pc \<Rightarrow> nat option" where
  "pinned (GetLoaded i) = None"
| "pinned q = points_to q"

fun confirmed :: "'a get_pc \<Rightarrow> nat option" where
  "confirmed (GetCopy i e) = Some i"
| "confirmed (GetHalf i a e) = Some i"
| "confirmed (GetCopied i v e) = Some i"
| "confirmed _ = None"

lemma confirmed_pinned: "confirmed q = Some i \<Longrightarrow> pinned q = Some i"
  by (cases q) auto

lemma pinned_points_to: "pinned q = Some i \<Longrightarrow> points_to q = Some i"
  by (cases q) auto

text \<open>What a reader that is copying may rely on.\<close>

fun get_ok :: "('a \<times> 'a) lf_object \<Rightarrow> ('a \<times> 'a) list \<Rightarrow> 'a get_pc \<Rightarrow> bool" where
  "get_ok d pub (GetCopy i e) \<longleftrightarrow> cell_value d i = e \<and> e \<in> set pub"
| "get_ok d pub (GetHalf i a e) \<longleftrightarrow> cell_value d i = e \<and> a = fst e \<and> e \<in> set pub"
| "get_ok d pub (GetCopied i v e) \<longleftrightarrow> v = e \<and> e \<in> set pub"
| "get_ok d pub (GetDone v e) \<longleftrightarrow> v = e \<and> e \<in> set pub"
| "get_ok d pub _ \<longleftrightarrow> True"

text \<open>A cell is the writer's alone when it is not published and no reader is confirmed on it.\<close>

definition unshared :: "nat \<Rightarrow> 'a do_sys \<Rightarrow> nat \<Rightarrow> bool" where
  "unshared R s i \<longleftrightarrow> i \<noteq> read_ptr (obj s) \<and> (\<forall>t<R. confirmed (get_pcs s t) \<noteq> Some i)"

text \<open>Somewhere after the cell where the scan stands and before the cell that was written there is one
  that no reader points to.\<close>

definition room_ahead :: "nat \<Rightarrow> 'a do_sys \<Rightarrow> nat \<Rightarrow> bool" where
  "room_ahead R s wrote \<longleftrightarrow>
     (\<exists>j k. j < k \<and> k < buf_len (obj s) \<and>
        write_ptr (obj s) = (wrote + j) mod buf_len (obj s) \<and>
        (wrote + k) mod buf_len (obj s) \<noteq> read_ptr (obj s) \<and>
        (\<forall>t<R. points_to (get_pcs s t) \<noteq> Some ((wrote + k) mod buf_len (obj s))))"

abbreviation next_write :: "'a do_sys \<Rightarrow> nat" where
  "next_write s \<equiv> Suc (write_ptr (obj s)) mod buf_len (obj s)"

fun set_ok :: "nat \<Rightarrow> 'a do_sys \<Rightarrow> 'a set_pc \<Rightarrow> bool" where
  "set_ok R s SetIdle = unshared R s (write_ptr (obj s))"
| "set_ok R s (SetFirst x) = unshared R s (write_ptr (obj s))"
| "set_ok R s (SetSecond x) =
     (unshared R s (write_ptr (obj s)) \<and> fst (cell_value (obj s) (write_ptr (obj s))) = fst x)"
| "set_ok R s (SetScan x wrote) =
     (wrote < buf_len (obj s) \<and> cell_value (obj s) wrote = x \<and> unshared R s wrote \<and> room_ahead R s wrote)"
| "set_ok R s (SetPublish x wrote) =
     (wrote < buf_len (obj s) \<and> cell_value (obj s) wrote = x \<and> unshared R s wrote \<and>
      unshared R s (next_write s) \<and> next_write s \<noteq> wrote)"
| "set_ok R s SetAdvance = unshared R s (next_write s)"

definition pin_count :: "nat \<Rightarrow> (nat \<Rightarrow> 'a get_pc) \<Rightarrow> nat \<Rightarrow> int" where
  "pin_count R f i = int (card {t. t < R \<and> pinned (f t) = Some i})"

definition do_cells_ok :: "nat \<Rightarrow> nat \<Rightarrow> 'a do_sys \<Rightarrow> bool" where
  "do_cells_ok R threads s \<longleftrightarrow>
     cell_ring (obj s) \<and> max_threads (obj s) = threads \<and>
     (\<forall>i < buf_len (obj s). cell_counter (cells (obj s) ! i) = pin_count R (get_pcs s) i) \<and>
     (\<forall>t<R. \<forall>i. points_to (get_pcs s t) = Some i \<longrightarrow> i < buf_len (obj s))"

definition do_values_ok :: "nat \<Rightarrow> 'a do_sys \<Rightarrow> bool" where
  "do_values_ok R s \<longleftrightarrow>
     published s \<noteq> [] \<and> cell_value (obj s) (read_ptr (obj s)) = last (published s) \<and>
     (\<forall>t<R. get_ok (obj s) (published s) (get_pcs s t))"

definition do_inv :: "nat \<Rightarrow> nat \<Rightarrow> 'a do_sys \<Rightarrow> bool" where
  "do_inv R threads s \<longleftrightarrow>
     do_cells_ok R threads s \<and> do_values_ok R s \<and> set_ok R s (set_pc s)"

section \<open>Counting readers\<close>

lemma pin_count_other:
  assumes "pinned q = pinned (f t)"
  shows "pin_count R (f(t := q)) i = pin_count R f i"
proof -
  have "{u. u < R \<and> pinned ((f(t := q)) u) = Some i} = {u. u < R \<and> pinned (f u) = Some i}"
    using assms by (auto simp: fun_upd_apply split: if_splits)
  then show ?thesis by (simp add: pin_count_def)
qed

lemma pin_count_enter:
  assumes "t < R" and "pinned (f t) = None" and "pinned q = Some j"
  shows "pin_count R (f(t := q)) i = pin_count R f i + (if i = j then 1 else 0)"
proof -
  have "{u. u < R \<and> pinned ((f(t := q)) u) = Some i} =
        (if i = j then insert t {u. u < R \<and> pinned (f u) = Some i} else {u. u < R \<and> pinned (f u) = Some i})"
    using assms by (auto simp: fun_upd_apply split: if_splits)
  moreover have "card (insert t {u. u < R \<and> pinned (f u) = Some i}) = Suc (card {u. u < R \<and> pinned (f u) = Some i})"
    using assms by (subst card_insert_disjoint) auto
  ultimately show ?thesis by (cases "i = j") (simp_all add: pin_count_def)
qed

lemma pin_count_leave:
  assumes "t < R" and "pinned (f t) = Some j" and "pinned q = None"
  shows "pin_count R (f(t := q)) i = pin_count R f i - (if i = j then 1 else 0)"
  using pin_count_enter [of t R "f(t := q)" "f t" j i] assms by simp

lemma pin_count_0:
  assumes "pin_count R f i = 0" and "t < R"
  shows "pinned (f t) \<noteq> Some i"
proof -
  have "{t. t < R \<and> pinned (f t) = Some i} = {}"
    using assms(1) by (simp add: pin_count_def)
  with assms(2) show ?thesis by blast
qed

lemma pin_count_none: "(\<And>t. t < R \<Longrightarrow> pinned (f t) \<noteq> Some i) \<Longrightarrow> pin_count R f i = 0"
  by (simp add: pin_count_def)

text \<open>With fewer readers than \<^verbatim>\<open>MAX_THREADS\<close> there is a cell that nobody needs.\<close>

lemma spare_cell:
  fixes R threads w r :: nat and p :: "nat \<Rightarrow> nat option"
  assumes "R < threads"
  obtains c where "c < threads + 2" and "c \<noteq> w" and "c \<noteq> r" and "\<And>t. t < R \<Longrightarrow> p t \<noteq> Some c"
proof -
  let ?used = "{w, r} \<union> (\<lambda>t. the (p t)) ` {..<R}"
  have "card ?used \<le> card {w, r} + card ((\<lambda>t. the (p t)) ` {..<R})" by (rule card_Un_le)
  also have "\<dots> \<le> 2 + R"
    by (intro add_mono) (auto simp: card_insert_if intro: order.trans [OF card_image_le])
  also have "\<dots> < card {..<threads + 2}" using assms by simp
  finally have "\<not> {..<threads + 2} \<subseteq> ?used"
    by (meson card_mono finite.emptyI finite_UnI finite_imageI finite_insert finite_lessThan not_le)
  then obtain c where c: "c < threads + 2" "c \<notin> ?used" by blast
  moreover have "p t \<noteq> Some c" if "t < R" for t
    using c(2) that by (metis Un_iff image_eqI lessThan_iff option.sel)
  ultimately show ?thesis using that by blast
qed

section \<open>A step of a reader\<close>

definition same_but_counters :: "'a lf_object \<Rightarrow> 'a lf_object \<Rightarrow> bool" where
  "same_but_counters d d' \<longleftrightarrow>
     max_threads d' = max_threads d \<and> read_ptr d' = read_ptr d \<and> write_ptr d' = write_ptr d \<and>
     cell_ring d' \<and> (\<forall>i < buf_len d. cell_value d' i = cell_value d i)"

lemma cell_add_same: "cell_ring d \<Longrightarrow> i < buf_len d \<Longrightarrow> same_but_counters d (cell_add i k d)"
  by (auto simp: same_but_counters_def cell_ring_def cell_add_def buf_len_def nth_list_update)

lemma cell_add_counter:
  "cell_ring d \<Longrightarrow> i < buf_len d \<Longrightarrow> j < buf_len d \<Longrightarrow>
   cell_counter (cells (cell_add i k d) ! j) = cell_counter (cells d ! j) + (if j = i then k else 0)"
  by (auto simp: cell_ring_def cell_add_def nth_list_update)

lemma same_but_counters_refl: "cell_ring d \<Longrightarrow> same_but_counters d d"
  by (simp add: same_but_counters_def)

lemma same_but_counters_buf_len: "same_but_counters d d' \<Longrightarrow> buf_len d' = buf_len d"
  by (simp add: same_but_counters_def buf_len_def)

lemma get_ok_cong:
  "(\<And>i. confirmed q = Some i \<Longrightarrow> cell_value d' i = cell_value d i) \<Longrightarrow> set pub \<subseteq> set pub' \<Longrightarrow>
   get_ok d pub q \<Longrightarrow> get_ok d' pub' q"
  by (cases q) auto

lemma do_invD:
  assumes "do_inv R threads s"
  shows "cell_ring (obj s)" and "max_threads (obj s) = threads" and "buf_len (obj s) = threads + 2"
    and "read_ptr (obj s) < buf_len (obj s)" and "write_ptr (obj s) < buf_len (obj s)"
    and "length (cells (obj s)) = buf_len (obj s)"
    and "i < buf_len (obj s) \<Longrightarrow> cell_counter (cells (obj s) ! i) = pin_count R (get_pcs s) i"
    and "t < R \<Longrightarrow> points_to (get_pcs s t) = Some i \<Longrightarrow> i < buf_len (obj s)"
    and "t < R \<Longrightarrow> get_ok (obj s) (published s) (get_pcs s t)"
    and "published s \<noteq> []" and "cell_value (obj s) (read_ptr (obj s)) = last (published s)"
    and "set_ok R s (set_pc s)"
  using assms by (auto simp: do_inv_def do_cells_ok_def do_values_ok_def cell_ring_def buf_len_def)

lemma reader_step_inv:
  assumes inv: "do_inv R threads s" and t: "t < R"
    and same: "same_but_counters (obj s) d'"
    and count: "\<And>i. i < buf_len (obj s) \<Longrightarrow> cell_counter (cells d' ! i) = pin_count R ((get_pcs s)(t := q)) i"
    and pts: "\<And>i. points_to q = Some i \<Longrightarrow> i = read_ptr (obj s) \<or> points_to (get_pcs s t) = Some i"
    and conf: "\<And>i. confirmed q = Some i \<Longrightarrow> i = read_ptr (obj s) \<or> confirmed (get_pcs s t) = Some i"
    and ok: "get_ok (obj s) (published s) q"
  shows "do_inv R threads (s\<lparr>obj := d', get_pcs := (get_pcs s)(t := q)\<rparr>)"
proof -
  let ?s = "s\<lparr>obj := d', get_pcs := (get_pcs s)(t := q)\<rparr>"
  note D = do_invD [OF inv]
  have n: "buf_len d' = buf_len (obj s)" by (rule same_but_counters_buf_len [OF same])
  have same': "read_ptr d' = read_ptr (obj s)" "write_ptr d' = write_ptr (obj s)"
    "max_threads d' = max_threads (obj s)" "cell_ring d'"
    and val: "\<And>i. i < buf_len (obj s) \<Longrightarrow> cell_value d' i = cell_value (obj s) i"
    using same by (auto simp: same_but_counters_def)
  have range: "i < buf_len (obj s)" if "points_to (((get_pcs s)(t := q)) u) = Some i" "u < R" for u i
    using that D(4,8) pts t by (cases "u = t") (auto dest: D(8))
  have "do_cells_ok R threads ?s" using same' D(2) n count range by (simp add: do_cells_ok_def)
  moreover have "get_ok d' (published s) (((get_pcs s)(t := q)) u)" if u: "u < R" for u
  proof (rule get_ok_cong)
    show "get_ok (obj s) (published s) (((get_pcs s)(t := q)) u)" using D(9) ok u by simp
    show "cell_value d' i = cell_value (obj s) i" if "confirmed (((get_pcs s)(t := q)) u) = Some i" for i
      using that range [OF pinned_points_to [OF confirmed_pinned]] u val by blast
  qed simp
  then have "do_values_ok R ?s" using D(4,10,11) same' val by (simp add: do_values_ok_def)
  moreover have uns: "unshared R ?s i" if "unshared R s i" for i
    using that conf t same' by (auto simp: unshared_def)
  have "room_ahead R ?s w" if "room_ahead R s w" for w
  proof -
    from that obtain j k where jk: "j < k" "k < buf_len (obj s)" "write_ptr (obj s) = (w + j) mod buf_len (obj s)"
      "(w + k) mod buf_len (obj s) \<noteq> read_ptr (obj s)"
      "\<forall>t<R. points_to (get_pcs s t) \<noteq> Some ((w + k) mod buf_len (obj s))"
      by (auto simp: room_ahead_def)
    then have "points_to q \<noteq> Some ((w + k) mod buf_len (obj s))" using pts t by blast
    with jk show ?thesis using same' n unfolding room_ahead_def
      by (intro exI [of _ j] exI [of _ k]) simp
  qed
  with uns D(4,12) same' n val have "set_ok R ?s (set_pc ?s)"
    by (cases "set_pc s") (auto simp: D(5))
  ultimately show ?thesis by (simp add: do_inv_def)
qed

lemma reader_moves_inv:
  assumes inv: "do_inv R threads s" and t: "t < R" and pin: "pinned q = pinned (get_pcs s t)"
    and pts: "\<And>i. points_to q = Some i \<Longrightarrow> i = read_ptr (obj s) \<or> points_to (get_pcs s t) = Some i"
    and conf: "\<And>i. confirmed q = Some i \<Longrightarrow> i = read_ptr (obj s) \<or> confirmed (get_pcs s t) = Some i"
    and ok: "get_ok (obj s) (published s) q"
  shows "do_inv R threads (get_goto t q s)"
proof -
  have "do_inv R threads (s\<lparr>obj := obj s, get_pcs := (get_pcs s)(t := q)\<rparr>)"
    using do_invD [OF inv] pin pts conf ok
    by (intro reader_step_inv inv t same_but_counters_refl) (auto simp: pin_count_other)
  then show ?thesis by simp
qed

lemma reader_enters_inv:
  assumes inv: "do_inv R threads s" and t: "t < R" and pc: "get_pcs s t = GetLoaded i"
  shows "do_inv R threads (s\<lparr>obj := cell_add i 1 (obj s), get_pcs := (get_pcs s)(t := GetPinned i)\<rparr>)"
proof -
  note D = do_invD [OF inv]
  have i: "i < buf_len (obj s)" using D(8) [OF t] pc by simp
  show ?thesis
    using pc D i t
    by (intro reader_step_inv inv t cell_add_same) (auto simp: cell_add_counter pin_count_enter)
qed

lemma reader_leaves_inv:
  assumes inv: "do_inv R threads s" and t: "t < R" and pc: "pinned (get_pcs s t) = Some i"
    and q: "points_to q = None" "get_ok (obj s) (published s) q"
  shows "do_inv R threads (s\<lparr>obj := cell_add i (- 1) (obj s), get_pcs := (get_pcs s)(t := q)\<rparr>)"
proof -
  note D = do_invD [OF inv]
  have i: "i < buf_len (obj s)" using D(8) [OF t] pinned_points_to [OF pc] by simp
  have q': "pinned q = None" "confirmed q = None" using q(1) by (cases q; simp)+
  show ?thesis
    using pc D i t q q'
    by (intro reader_step_inv inv t cell_add_same) (auto simp: cell_add_counter pin_count_leave)
qed

section \<open>A step of the writer\<close>

lemma cell_store_same:
  "cell_ring d \<Longrightarrow> i < buf_len d \<Longrightarrow>
   cell_ring (cell_store i x d) \<and> max_threads (cell_store i x d) = max_threads d \<and>
   read_ptr (cell_store i x d) = read_ptr d \<and> write_ptr (cell_store i x d) = write_ptr d \<and>
   buf_len (cell_store i x d) = buf_len d"
  by (auto simp: cell_ring_def cell_store_def buf_len_def nth_list_update)

lemma cell_store_nth:
  "cell_ring d \<Longrightarrow> i < buf_len d \<Longrightarrow> j < buf_len d \<Longrightarrow>
   cells (cell_store i x d) ! j = (if j = i then (cells d ! i)\<lparr>cell_data := x\<rparr> else cells d ! j)"
  by (auto simp: cell_ring_def cell_store_def)

lemma writer_store_inv:
  assumes inv: "do_inv R threads s" and uns: "unshared R s (write_ptr (obj s))"
    and s': "s' = s\<lparr>obj := cell_store (write_ptr (obj s)) x (obj s), set_pc := q\<rparr>"
    and q: "unshared R s' (write_ptr (obj s')) \<Longrightarrow> cell_value (obj s') (write_ptr (obj s')) = x \<Longrightarrow> set_ok R s' q"
  shows "do_inv R threads s'"
proof -
  note D = do_invD [OF inv]
  let ?w = "write_ptr (obj s)"
  note same = cell_store_same [OF D(1) D(5), of x]
  note nth = cell_store_nth [OF D(1) D(5), of _ x]
  have wr: "?w \<noteq> read_ptr (obj s)" using uns by (simp add: unshared_def)
  have "do_cells_ok R threads s'"
    using D(2,7,8) same by (simp add: do_cells_ok_def s' nth)
  moreover have "get_ok (obj s') (published s) (get_pcs s t)" if t: "t < R" for t
  proof (rule get_ok_cong [OF _ _ D(9) [OF t]])
    fix i assume c: "confirmed (get_pcs s t) = Some i"
    then have "i \<noteq> ?w" using uns t by (auto simp: unshared_def)
    moreover have "i < buf_len (obj s)" using D(8) [OF t] c by (simp add: confirmed_pinned pinned_points_to)
    ultimately show "cell_value (obj s') i = cell_value (obj s) i" by (simp add: s' nth)
  qed simp
  then have "do_values_ok R s'"
    using D(4,10,11) same wr by (simp add: do_values_ok_def s' nth)
  moreover have "unshared R s' (write_ptr (obj s'))" using uns same by (simp add: unshared_def s')
  moreover have "cell_value (obj s') (write_ptr (obj s')) = x" using same D(5) by (simp add: s' nth)
  ultimately show ?thesis using q by (simp add: do_inv_def s')
qed

lemma scan_starts_with_room:
  assumes inv: "do_inv R threads s" and R: "R < threads"
  shows "room_ahead R s (write_ptr (obj s))"
proof -
  note D = do_invD [OF inv]
  let ?n = "buf_len (obj s)" and ?w = "write_ptr (obj s)"
  obtain c where c: "c < ?n" "c \<noteq> ?w" "c \<noteq> read_ptr (obj s)"
    "\<And>t. t < R \<Longrightarrow> points_to (get_pcs s t) \<noteq> Some c"
    using spare_cell [OF R, of "?w" "read_ptr (obj s)" "\<lambda>t. points_to (get_pcs s t)"] D(3) by metis
  define k where "k = (if ?w < c then c - ?w else c + ?n - ?w)"
  have "0 < k" "k < ?n" "(?w + k) mod ?n = c" using c D(5) by (auto simp: k_def)
  with c D(5) show ?thesis unfolding room_ahead_def by (intro exI [of _ 0] exI [of _ k]) simp
qed

text \<open>One round of the scan: it neither returns to the cell that was written nor passes the
  last free cell.\<close>

lemma scan_round:
  assumes inv: "do_inv R threads s" and room: "room_ahead R s w" and w: "w < buf_len (obj s)"
  shows "next_write s \<noteq> w" and "next_busy (obj s) \<Longrightarrow> room_ahead R (s\<lparr>obj := step_write_ptr (obj s), set_pc := q\<rparr>) w"
    and "\<not> next_busy (obj s) \<Longrightarrow> unshared R s (next_write s)"
    and "write_ptr (step_write_ptr (obj s)) = next_write s"
proof -
  note D = do_invD [OF inv]
  let ?n = "buf_len (obj s)"
  from room obtain j k where jk: "j < k" "k < ?n" "write_ptr (obj s) = (w + j) mod ?n"
    "(w + k) mod ?n \<noteq> read_ptr (obj s)" "\<forall>t<R. points_to (get_pcs s t) \<noteq> Some ((w + k) mod ?n)"
    by (auto simp: room_ahead_def)
  have next': "next_write s = (w + Suc j) mod ?n" using jk(3) by (simp add: mod_Suc_eq)
  have cnext: "cell_next (cells (obj s) ! write_ptr (obj s)) = next_write s"
    using cell_ring_next [OF D(1) D(5)] .
  then show step: "write_ptr (step_write_ptr (obj s)) = next_write s" by (simp add: step_write_ptr_def)
  show "next_write s \<noteq> w"
  proof
    assume "next_write s = w"
    then show False using next' w jk(1,2) by (cases "w + Suc j < ?n") (auto simp: le_mod_geq)
  qed
  have lt: "next_write s < ?n" by simp
  show "unshared R s (next_write s)" if "\<not> next_busy (obj s)"
    using that D(7) [OF lt] pin_count_0 [of R "get_pcs s" "next_write s"]
    by (auto simp: next_busy_def Let_def cnext unshared_def dest: confirmed_pinned)
  show "room_ahead R (s\<lparr>obj := step_write_ptr (obj s), set_pc := q\<rparr>) w" if busy: "next_busy (obj s)"
  proof -
    have "Suc j \<noteq> k"
    proof
      assume k: "Suc j = k"
      have "pin_count R (get_pcs s) (next_write s) = 0"
        using jk(5) next' k by (intro pin_count_none) (auto dest: pinned_points_to)
      then have "cell_counter (cells (obj s) ! next_write s) = 0" using D(7) [OF lt] by simp
      with busy jk(4) next' k show False by (simp add: next_busy_def Let_def cnext)
    qed
    with jk step next' show ?thesis unfolding room_ahead_def
      by (intro exI [of _ "Suc j"] exI [of _ k]) (simp add: step_write_ptr_def buf_len_def)
  qed
qed

lemma writer_moves_inv:
  assumes inv: "do_inv R threads s"
    and s': "s' = s\<lparr>obj := (obj s)\<lparr>write_ptr := w\<rparr>, set_pc := q\<rparr>" and w: "w < buf_len (obj s)"
    and q: "set_ok R s' q"
  shows "do_inv R threads s'"
proof -
  note D = do_invD [OF inv]
  have n: "buf_len (obj s') = buf_len (obj s)" by (simp add: s' buf_len_def)
  have "do_cells_ok R threads s'" using inv w n by (simp add: do_inv_def do_cells_ok_def s' cell_ring_def)
  moreover have "get_ok (obj s') (published s) (get_pcs s t)" if t: "t < R" for t
    by (rule get_ok_cong [OF _ _ D(9) [OF t]]) (simp_all add: s')
  then have "do_values_ok R s'" using D(10,11) by (simp add: do_values_ok_def s')
  ultimately show ?thesis using q by (simp add: do_inv_def s')
qed

lemma writer_publish_inv:
  assumes inv: "do_inv R threads s" and pc: "set_pc s = SetPublish x w"
  shows "do_inv R threads (s\<lparr>obj := (obj s)\<lparr>read_ptr := w\<rparr>, set_pc := SetAdvance, published := published s @ [x]\<rparr>)"
    (is "do_inv R threads ?s")
proof -
  note D = do_invD [OF inv]
  have w: "w < buf_len (obj s)" "cell_value (obj s) w = x" "unshared R s (next_write s)" "next_write s \<noteq> w"
    using D(12) pc by auto
  have n: "buf_len (obj ?s) = buf_len (obj s)" by (simp add: buf_len_def)
  have "do_cells_ok R threads ?s" using inv w n by (simp add: do_inv_def do_cells_ok_def cell_ring_def)
  moreover have "get_ok (obj ?s) (published ?s) (get_pcs s t)" if t: "t < R" for t
    by (rule get_ok_cong [OF _ _ D(9) [OF t]]) auto
  then have "do_values_ok R ?s" using w by (simp add: do_values_ok_def)
  moreover have "set_ok R ?s SetAdvance" using w n by (simp add: unshared_def)
  ultimately show ?thesis by (simp add: do_inv_def)
qed

lemma set_ok_set_pc [simp]: "set_ok R (s\<lparr>set_pc := q\<rparr>) p = set_ok R s p"
  by (cases p) (simp_all add: unshared_def room_ahead_def)

lemma writer_pc_inv: "do_inv R threads s \<Longrightarrow> set_ok R s q \<Longrightarrow> do_inv R threads (s\<lparr>set_pc := q\<rparr>)"
  by (simp add: do_inv_def do_cells_ok_def do_values_ok_def)

lemma do_init_inv:
  assumes "do_init threads v x s" and "1 \<le> threads"
  shows "do_inv R threads s"
proof -
  note q = dl_new_quiet [OF assms(2), of v x]
  have "obj s = dl_new v x threads" "set_pc s = SetIdle" "get_pcs s = (\<lambda>_. GetLoop)" "published s = [x]"
    using assms(1) by (auto simp: do_init_def)
  with q show ?thesis
    by (auto simp: do_inv_def do_cells_ok_def do_values_ok_def quiet_object_def published_data_def
        unshared_def intro!: pin_count_none)
qed

lemma step_write_ptr_eq:
  "do_inv R threads s \<Longrightarrow> step_write_ptr (obj s) = (obj s)\<lparr>write_ptr := next_write s\<rparr>"
  using do_invD(1,5) [of R threads s] cell_ring_next by (fastforce simp: step_write_ptr_def)

lemma do_step_inv:
  assumes "do_step R s s'" and inv: "do_inv R threads s" and R: "R < threads"
  shows "do_inv R threads s'"
  using assms(1)
proof cases
  case (get_load t)
  with inv show ?thesis by (auto intro: reader_moves_inv)
next
  case (get_inc t i)
  with inv show ?thesis by (simp add: reader_enters_inv)
next
  case (get_check t i)
  show ?thesis
  proof (cases "i = read_ptr (obj s)")
    case True
    then show ?thesis using get_check do_invD(10,11) [OF inv] by (auto intro!: reader_moves_inv inv)
  next
    case False
    then show ?thesis using get_check by (auto intro!: reader_moves_inv inv)
  qed
next
  case (get_back t i)
  with inv show ?thesis by (simp add: reader_leaves_inv)
next
  case (get_first t i e)
  with do_invD(9) [OF inv, of t] show ?thesis by (auto intro!: reader_moves_inv inv)
next
  case (get_second t i a e)
  with do_invD(9) [OF inv, of t] show ?thesis by (auto intro!: reader_moves_inv inv)
next
  case (get_release t i v e)
  with do_invD(9) [OF inv, of t] show ?thesis by (simp add: reader_leaves_inv inv)
next
  case (get_return t v e)
  with inv show ?thesis by (auto intro: reader_moves_inv)
next
  case (set_call x)
  with do_invD(12) [OF inv] show ?thesis by (simp add: writer_pc_inv inv)
next
  case (set_first x)
  with do_invD(12) [OF inv] show ?thesis by (auto intro!: writer_store_inv [OF inv])
next
  case (set_second x)
  let ?w = "write_ptr (obj s)"
  have w: "unshared R s ?w" "fst (cell_value (obj s) ?w) = fst x" using do_invD(12) [OF inv] set_second by auto
  let ?s = "s\<lparr>obj := cell_store ?w (fst (cell_value (obj s) ?w), snd x) (obj s), set_pc := SetIdle\<rparr>"
  have inv': "do_inv R threads ?s"
    using w by (intro writer_store_inv [OF inv w(1)]) (rule refl, simp)
  have "do_inv R threads (?s\<lparr>set_pc := SetScan x (write_ptr (obj ?s))\<rparr>)"
  proof (rule writer_pc_inv [OF inv'])
    note D = do_invD [OF inv]
    have "cell_value (obj ?s) ?w = x" using w D(1,5) by (simp add: cell_store_nth prod_eq_iff)
    moreover have "write_ptr (obj ?s) = ?w" using cell_store_same [OF D(1,5)] by simp
    ultimately show "set_ok R ?s (SetScan x (write_ptr (obj ?s)))"
      using scan_starts_with_room [OF inv' R] do_invD(5,12) [OF inv'] by simp
  qed
  moreover have "write_ptr (obj ?s) = ?w" using cell_store_same [OF do_invD(1,5) [OF inv]] by simp
  ultimately show ?thesis using set_second(1) by simp
next
  case (set_busy x w)
  then have "room_ahead R s w" "w < buf_len (obj s)" "cell_value (obj s) w = x" "unshared R s w"
    using do_invD(12) [OF inv] by auto
  with scan_round(1,3,4) [OF inv this(1,2)] scan_round(2) [OF inv this(1,2), of "SetScan x w"] set_busy
  show ?thesis
    by (auto intro!: writer_moves_inv [OF inv, where w = "next_write s"]
        simp: step_write_ptr_eq [OF inv] unshared_def buf_len_def)
next
  case (set_free x w)
  with do_invD(12) [OF inv] scan_round [OF inv, of w] show ?thesis by (auto intro!: writer_pc_inv inv)
next
  case (set_publish x w)
  with writer_publish_inv [OF inv] show ?thesis by simp
next
  case set_advance
  with do_invD(12) [OF inv] show ?thesis
    by (auto intro!: writer_moves_inv [OF inv, where w = "next_write s"]
        simp: step_write_ptr_eq [OF inv] unshared_def buf_len_def)
qed

interpretation data_object_threads:
  invariant_of "\<lambda>s. do_init threads v x s \<and> 1 \<le> threads \<and> R < threads" "do_step R"
    "\<lambda>s. do_inv R threads s \<and> R < threads"
  by unfold_locales (auto intro: do_init_inv do_step_inv)

section \<open>Schedules\<close>

text \<open>The step of a given thread is a function; a schedule names the threads in the order in
  which they step. \<open>Writer x\<close> calls \<^verbatim>\<open>Set(x)\<close> when the writer is idle.\<close>

datatype 'a turn = Reader nat | Writer "'a \<times> 'a"

fun do_next :: "nat \<Rightarrow> 'a turn \<Rightarrow> 'a do_sys \<Rightarrow> 'a do_sys" where
  "do_next R (Reader t) s =
     (case get_pcs s t of
        GetLoop \<Rightarrow> get_goto t (GetLoaded (read_ptr (obj s))) s
      | GetLoaded i \<Rightarrow> s\<lparr>obj := cell_add i 1 (obj s), get_pcs := (get_pcs s)(t := GetPinned i)\<rparr>
      | GetPinned i \<Rightarrow>
          get_goto t (if i \<noteq> read_ptr (obj s) then GetMissed i else GetCopy i (last (published s))) s
      | GetMissed i \<Rightarrow> s\<lparr>obj := cell_add i (- 1) (obj s), get_pcs := (get_pcs s)(t := GetLoop)\<rparr>
      | GetCopy i e \<Rightarrow> get_goto t (GetHalf i (fst (cell_value (obj s) i)) e) s
      | GetHalf i a e \<Rightarrow> get_goto t (GetCopied i (a, snd (cell_value (obj s) i)) e) s
      | GetCopied i v e \<Rightarrow> s\<lparr>obj := cell_add i (- 1) (obj s), get_pcs := (get_pcs s)(t := GetDone v e)\<rparr>
      | GetDone v e \<Rightarrow> get_goto t GetLoop s)"
| "do_next R (Writer x) s =
     (let w = write_ptr (obj s) in
      case set_pc s of
        SetIdle \<Rightarrow> s\<lparr>set_pc := SetFirst x\<rparr>
      | SetFirst y \<Rightarrow> s\<lparr>obj := cell_store w (fst y, snd (cell_value (obj s) w)) (obj s), set_pc := SetSecond y\<rparr>
      | SetSecond y \<Rightarrow> s\<lparr>obj := cell_store w (fst (cell_value (obj s) w), snd y) (obj s), set_pc := SetScan y w\<rparr>
      | SetScan y wrote \<Rightarrow>
          if next_busy (obj s) then
            s\<lparr>obj := step_write_ptr (obj s),
              set_pc := (if write_ptr (step_write_ptr (obj s)) = wrote then SetIdle else SetScan y wrote)\<rparr>
          else s\<lparr>set_pc := SetPublish y wrote\<rparr>
      | SetPublish y wrote \<Rightarrow>
          s\<lparr>obj := (obj s)\<lparr>read_ptr := wrote\<rparr>, set_pc := SetAdvance, published := published s @ [y]\<rparr>
      | SetAdvance \<Rightarrow> s\<lparr>obj := step_write_ptr (obj s), set_pc := SetIdle\<rparr>)"

fun turn_ok :: "nat \<Rightarrow> 'a turn \<Rightarrow> bool" where
  "turn_ok R (Reader t) \<longleftrightarrow> t < R"
| "turn_ok R (Writer x) \<longleftrightarrow> True"

lemma do_next_step: "turn_ok R a \<Longrightarrow> do_step R s (do_next R a s)"
proof (cases a)
  case (Reader t)
  assume "turn_ok R a"
  with Reader show ?thesis
    by (cases "get_pcs s t") (use get_check [of t R s] in \<open>auto intro: do_step.intros\<close>)
next
  case (Writer x)
  then show ?thesis
    by (cases "set_pc s") (use set_busy [of s _ _ R] in \<open>auto simp: Let_def intro: do_step.intros\<close>)
qed

fun do_schedule :: "nat \<Rightarrow> 'a turn list \<Rightarrow> 'a do_sys \<Rightarrow> 'a do_sys" where
  "do_schedule R [] s = s"
| "do_schedule R (a # as) s = do_schedule R as (do_next R a s)"

lemma do_schedule_reachable:
  "reachable init (do_step R) s \<Longrightarrow> list_all (turn_ok R) as \<Longrightarrow> reachable init (do_step R) (do_schedule R as s)"
proof (induction as arbitrary: s)
  case (Cons a as)
  then have "reachable init (do_step R) (do_next R a s)"
    by (intro reachable_step [OF Cons.prems(1)] do_next_step) simp
  with Cons show ?case by simp
qed simp

definition do_start :: "nat \<Rightarrow> (nat \<times> nat) \<Rightarrow> nat do_sys" where
  "do_start threads x =
     \<lparr>obj = dl_new (0, 0) x threads, set_pc = SetIdle, get_pcs = (\<lambda>_. GetLoop), published = [x]\<rparr>"

lemma do_start_reachable: "reachable (do_init threads (0, 0) x) (do_step R) (do_start threads x)"
  by (intro reachable_init) (simp add: do_init_def do_start_def)

section \<open>Properties\<close>

lemma reachable_do_inv:
  assumes "reachable (do_init threads v x) (do_step R) s" and "R < threads"
  shows "do_inv R threads s"
proof -
  have "reachable (\<lambda>s. do_init threads v x s \<and> 1 \<le> threads \<and> R < threads) (do_step R) s"
    using assms by (auto intro: reachable_weaken [OF assms(1)])
  then show ?thesis by (rule data_object_threads.reachable_inv [THEN conjunct1])
qed

text \<open>C3: with one writer and fewer readers than \<^verbatim>\<open>MAX_THREADS\<close>, \<^verbatim>\<open>Get\<close> on the lock-free data
  object never returns a mixture of two samples: the pair it returns is the newest one that
  \<^verbatim>\<open>Set\<close> had published at the moment the reader's second look at \<^verbatim>\<open>read_ptr\<close> succeeded, however
  the copying of the reader and later calls of \<^verbatim>\<open>Set\<close> interleave.\<close>

theorem get_returns_published_sample:
  assumes "reachable (do_init threads v x) (do_step R) s" and "R < threads"
    and "t < R" and "get_pcs s t = GetDone got remembered"
  shows "got = remembered \<and> got \<in> set (published s)"
  using do_invD(9) [OF reachable_do_inv [OF assms(1,2)] assms(3)] assms(4) by simp

definition get_demo :: "nat do_sys" where
  "get_demo = do_schedule 1
     ([Reader 0, Reader 0, Reader 0, Reader 0, Writer (5, 6), Writer (5, 6), Writer (5, 6), Writer (5, 6),
       Writer (5, 6), Writer (5, 6), Reader 0, Reader 0]) (do_start 2 (3, 4))"

theorem get_returns_published_sample_witness:
  "get_pcs get_demo 0 = GetDone (3, 4) (3, 4) \<and> (3, 4) \<in> set (published get_demo)"
proof -
  have pc: "get_pcs get_demo 0 = GetDone (3, 4) (3, 4)" by code_simp
  have "reachable (do_init 2 (0, 0) (3, 4)) (do_step 1) get_demo"
    unfolding get_demo_def by (rule do_schedule_reachable [OF do_start_reachable]) simp
  from get_returns_published_sample [OF this _ _ pc] pc show ?thesis by simp
qed

text \<open>\<^verbatim>\<open>Set\<close> of the lock-free data object is wait-free and never drops a sample when there
  are fewer readers than \<^verbatim>\<open>MAX_THREADS\<close>: its search for a free cell never comes back to the cell
  it has written (the exit commented ``nothing found''), each round leaves it in the search or
  at the publication of its sample, and it never settles on the published cell.\<close>

theorem set_finds_a_free_cell:
  assumes "reachable (do_init threads v x) (do_step R) s" and "R < threads"
    and "set_pc s = SetScan y wrote"
  shows "write_ptr (step_write_ptr (obj s)) \<noteq> wrote
         \<and> set_pc (do_next R (Writer z) s) \<in> {SetScan y wrote, SetPublish y wrote}
         \<and> wrote \<noteq> read_ptr (obj s)
         \<and> (\<exists>j k. j < k \<and> k < buf_len (obj s) \<and> write_ptr (obj s) = (wrote + j) mod buf_len (obj s) \<and>
              cell_counter (cells (obj s) ! ((wrote + k) mod buf_len (obj s))) = 0)"
proof -
  note inv = reachable_do_inv [OF assms(1,2)]
  note D = do_invD [OF inv]
  have sc: "room_ahead R s wrote" "wrote < buf_len (obj s)" "unshared R s wrote" using D(12) assms(3) by auto
  from sc(1) obtain j k where jk: "j < k" "k < buf_len (obj s)" "write_ptr (obj s) = (wrote + j) mod buf_len (obj s)"
      "\<forall>t<R. points_to (get_pcs s t) \<noteq> Some ((wrote + k) mod buf_len (obj s))"
    by (auto simp: room_ahead_def)
  have "pin_count R (get_pcs s) ((wrote + k) mod buf_len (obj s)) = 0"
    using jk(4) by (intro pin_count_none) (auto dest: pinned_points_to)
  then have "cell_counter (cells (obj s) ! ((wrote + k) mod buf_len (obj s))) = 0" using D(7) by simp
  with jk have "\<exists>j k. j < k \<and> k < buf_len (obj s) \<and> write_ptr (obj s) = (wrote + j) mod buf_len (obj s) \<and>
      cell_counter (cells (obj s) ! ((wrote + k) mod buf_len (obj s))) = 0" by blast
  then show ?thesis
    using scan_round(1,4) [OF inv sc(1,2)] sc(3) assms(3) by (simp add: unshared_def)
qed

definition scan_demo :: "nat do_sys" where
  "scan_demo = do_schedule 1 [Reader 0, Reader 0, Writer (5, 6), Writer (5, 6), Writer (5, 6)] (do_start 2 (3, 4))"

theorem set_finds_a_free_cell_witness:
  "set_pc scan_demo = SetScan (5, 6) 1 \<and> write_ptr (step_write_ptr (obj scan_demo)) \<noteq> 1"
proof -
  have pc: "set_pc scan_demo = SetScan (5, 6) 1" by code_simp
  have "reachable (do_init 2 (0, 0) (3, 4)) (do_step 1) scan_demo"
    unfolding scan_demo_def by (rule do_schedule_reachable [OF do_start_reachable]) simp
  from set_finds_a_free_cell [OF this _ pc] pc show ?thesis by simp
qed

definition set_whole :: "nat \<times> nat \<Rightarrow> nat turn list" where
  "set_whole x = replicate 6 (Writer x)"

definition torn_run :: "nat turn list" where
  "torn_run =
     [Reader 0, Reader 0, Reader 0] @ set_whole (1, 1) @ [Reader 1, Reader 1, Reader 1] @ set_whole (2, 2) @
     replicate 9 (Writer (3, 3)) @ replicate 8 (Reader 0) @
     replicate 3 (Writer (4, 4)) @ replicate 2 (Reader 0)"

text \<open>As many readers as \<^verbatim>\<open>MAX_THREADS\<close> are too many. In the default configuration
  (\<^verbatim>\<open>max_threads = 2\<close>, four cells, which is the \<^verbatim>\<open>readers+2*writers\<close> that the class documents for
  two readers and one writer) the search of \<^verbatim>\<open>Set\<close> can end on the cell it has just written; the
  published cell is then also the one the next \<^verbatim>\<open>Set\<close> writes to, and \<^verbatim>\<open>Get\<close> returns one half of
  each of two samples.\<close>

theorem two_readers_can_tear:
  "\<exists>(s :: nat do_sys) got remembered. reachable (do_init 2 (0, 0) (0, 0)) (do_step 2) s \<and>
     get_pcs s 0 = GetDone got remembered \<and> got = (3, 4) \<and> published s = [(0, 0), (1, 1), (2, 2), (3, 3)] \<and>
     got \<notin> set (published s)"
proof -
  let ?s = "do_schedule 2 torn_run (do_start 2 (0, 0))"
  have "reachable (do_init 2 (0, 0) (0, 0)) (do_step 2) ?s"
    by (rule do_schedule_reachable [OF do_start_reachable]) (auto simp: torn_run_def set_whole_def list_all_iff)
  moreover have "get_pcs ?s 0 = GetDone (3, 4) (3, 3) \<and> published ?s = [(0, 0), (1, 1), (2, 2), (3, 3)]"
    by code_simp
  ultimately show ?thesis by auto
qed

end
