(* ===== verification/TaskCore.thy ===== *)
theory TaskCore
  imports OroPrelude
begin

text \<open>
  The life cycle of a component: \<^verbatim>\<open>base::TaskCore\<close> (\<^verbatim>\<open>rtt/base/TaskCore.hpp\<close>,
  \<^verbatim>\<open>TaskCore.cpp\<close>) and the part of \<^verbatim>\<open>ExecutionEngine::processChildren\<close> that runs one component.
  The hooks of the component are user code and the activity that owns the engine is another
  class: both are functions of the record \<open>task_env\<close>, which act on a world of type \<open>'w\<close>. A hook
  also gets the component's own state, since it may call \<^verbatim>\<open>error()\<close>, \<^verbatim>\<open>fatal()\<close> and the other
  operations. Exceptions are caught (\<^verbatim>\<open>TRY\<close> without \<^verbatim>\<open>RTT_IGNORE_EXCEPTION\<close>); a hook that returns
  \<^verbatim>\<open>void\<close> is one whose result is ignored.
\<close>

section \<open>States\<close>

datatype task_state =
  Init | PreOperational | FatalError | Exception | Stopped | Running | RunTimeError

text \<open>The order of the enumeration, which the code compares with.\<close>

instantiation task_state :: linorder
begin

fun state_rank :: "task_state \<Rightarrow> nat" where
  "state_rank Init = 0"
| "state_rank PreOperational = 1"
| "state_rank FatalError = 2"
| "state_rank Exception = 3"
| "state_rank Stopped = 4"
| "state_rank Running = 5"
| "state_rank RunTimeError = 6"

definition less_eq_task_state :: "task_state \<Rightarrow> task_state \<Rightarrow> bool" where
  "less_eq_task_state s t \<longleftrightarrow> state_rank s \<le> state_rank t"

definition less_task_state :: "task_state \<Rightarrow> task_state \<Rightarrow> bool" where
  "less_task_state s t \<longleftrightarrow> state_rank s < state_rank t"

lemma state_rank_inject: "state_rank s = state_rank t \<Longrightarrow> s = t"
  by (cases s; cases t) auto

instance
  by standard (auto simp: less_eq_task_state_def less_task_state_def intro: state_rank_inject)

end

lemma Running_le_iff [simp]: "Running \<le> s \<longleftrightarrow> s = Running \<or> s = RunTimeError"
  by (cases s) (auto simp: less_eq_task_state_def)

lemma Stopped_le_iff [simp]: "Stopped \<le> s \<longleftrightarrow> s = Stopped \<or> s = Running \<or> s = RunTimeError"
  by (cases s) (auto simp: less_eq_task_state_def)

lemma less_Running_iff [simp]: "s < Running \<longleftrightarrow> s \<noteq> Running \<and> s \<noteq> RunTimeError"
  by (cases s) (auto simp: less_task_state_def)

record task =
  mTaskState :: task_state
  mInitialState :: task_state
  mTargetState :: task_state

definition task_new :: "task_state \<Rightarrow> task" where
  "task_new s = \<lparr>mTaskState = s, mInitialState = s, mTargetState = s\<rparr>"

definition go_to :: "task_state \<Rightarrow> task \<Rightarrow> task" where
  "go_to s t = t\<lparr>mTargetState := s, mTaskState := s\<rparr>"

definition isRunning :: "task \<Rightarrow> bool" where
  "isRunning t \<longleftrightarrow> Running \<le> mTaskState t"

definition isConfigured :: "task \<Rightarrow> bool" where
  "isConfigured t \<longleftrightarrow> Stopped \<le> mTaskState t"

section \<open>Hooks and activity\<close>

datatype 'w hook_result = Returned bool task 'w | Threw task 'w

record 'w task_env =
  configureHook :: "task \<Rightarrow> 'w \<Rightarrow> 'w hook_result"
  startHook :: "task \<Rightarrow> 'w \<Rightarrow> 'w hook_result"
  stopHook :: "task \<Rightarrow> 'w \<Rightarrow> 'w hook_result"
  cleanupHook :: "task \<Rightarrow> 'w \<Rightarrow> 'w hook_result"
  exceptionHook :: "task \<Rightarrow> 'w \<Rightarrow> 'w hook_result"
  prepareUpdateHook :: "task \<Rightarrow> 'w \<Rightarrow> 'w hook_result"
  updateHook :: "task \<Rightarrow> 'w \<Rightarrow> 'w hook_result"
  errorHook :: "task \<Rightarrow> 'w \<Rightarrow> 'w hook_result"
  act_present :: "'w \<Rightarrow> bool"
  act_stop :: "'w \<Rightarrow> bool \<times> 'w"
  act_start :: "'w \<Rightarrow> bool \<times> 'w"
  act_trigger :: "'w \<Rightarrow> bool \<times> 'w"

section \<open>Operations\<close>

text \<open>\<^verbatim>\<open>ExecutionEngine::stopTask\<close>.\<close>

definition stopTask :: "'w task_env \<Rightarrow> 'w \<Rightarrow> bool \<times> 'w" where
  "stopTask E w =
     (if act_present E w then
        (case act_stop E w of (ok, w1) \<Rightarrow> if ok then (True, snd (act_start E w1)) else (False, w1))
      else (False, w))"

definition tc_trigger :: "'w task_env \<Rightarrow> 'w \<Rightarrow> bool \<times> 'w" where
  "tc_trigger E w = (if \<not> act_present E w then (False, w) else act_trigger E w)"

definition tc_fatal :: "'w task_env \<Rightarrow> task \<Rightarrow> 'w \<Rightarrow> task \<times> 'w" where
  "tc_fatal E t w =
     (let t1 = go_to FatalError t in
      if act_present E w then (t1, snd (act_stop E w)) else (t1, w))"

definition tc_error :: "task \<Rightarrow> task" where
  "tc_error t = (if mTargetState t < Running then t else go_to RunTimeError t)"

text \<open>A hook that is called when a condition holds; a throw skips what follows.\<close>

definition call_if :: "bool \<Rightarrow> (task \<Rightarrow> 'w \<Rightarrow> 'w hook_result) \<Rightarrow> 'w hook_result \<Rightarrow> 'w hook_result" where
  "call_if c h r = (case r of Threw t w \<Rightarrow> r | Returned b t w \<Rightarrow> if c then h t w else r)"

definition tc_exception :: "'w task_env \<Rightarrow> task \<Rightarrow> 'w \<Rightarrow> task \<times> 'w" where
  "tc_exception E t w =
     (let copy = mTaskState t;
          r0 = Returned True (go_to Exception t) w;
          r1 = call_if (Running \<le> copy) (stopHook E) r0;
          r2 = call_if (Stopped \<le> copy \<and> mInitialState t = PreOperational) (cleanupHook E) r1;
          r3 = call_if True (exceptionHook E) r2
      in case r3 of Returned _ t' w' \<Rightarrow> (t', w') | Threw t' w' \<Rightarrow> tc_fatal E t' w')"

text \<open>The common end of the \<^verbatim>\<open>catch\<close> clauses: enter the exception state, report failure.\<close>

definition tc_caught :: "'w task_env \<Rightarrow> task \<Rightarrow> 'w \<Rightarrow> bool \<times> task \<times> 'w" where
  "tc_caught E t w = (False, tc_exception E t w)"

definition tc_configure :: "'w task_env \<Rightarrow> task \<Rightarrow> 'w \<Rightarrow> bool \<times> task \<times> 'w" where
  "tc_configure E t w =
     (if mTaskState t = Stopped \<or> mTaskState t = PreOperational then
        (case configureHook E (t\<lparr>mTargetState := Stopped\<rparr>) w of
           Returned True t' w' \<Rightarrow> (True, t'\<lparr>mTaskState := Stopped\<rparr>, w')
         | Returned False t' w' \<Rightarrow> (False, go_to PreOperational t', w')
         | Threw t' w' \<Rightarrow> tc_caught E t' w')
      else (False, t, w))"

definition tc_cleanup :: "'w task_env \<Rightarrow> task \<Rightarrow> 'w \<Rightarrow> bool \<times> task \<times> 'w" where
  "tc_cleanup E t w =
     (if mTaskState t = Stopped then
        (case cleanupHook E (t\<lparr>mTargetState := PreOperational\<rparr>) w of
           Returned _ t' w' \<Rightarrow> (True, t'\<lparr>mTaskState := PreOperational\<rparr>, w')
         | Threw t' w' \<Rightarrow> tc_caught E t' w')
      else (False, t, w))"

definition tc_recover :: "task \<Rightarrow> bool \<times> task" where
  "tc_recover t =
     (if mTaskState t = Exception then (True, go_to (mInitialState t) t)
      else if mTaskState t = RunTimeError then (True, go_to Running t)
      else (False, t))"

definition tc_start :: "'w task_env \<Rightarrow> task \<Rightarrow> 'w \<Rightarrow> bool \<times> task \<times> 'w" where
  "tc_start E t w =
     (if mTaskState t = Stopped then
        (case startHook E (t\<lparr>mTargetState := Running\<rparr>) w of
           Returned True t' w' \<Rightarrow> (True, t'\<lparr>mTaskState := Running\<rparr>, snd (tc_trigger E w'))
         | Returned False t' w' \<Rightarrow> (False, t'\<lparr>mTargetState := Stopped\<rparr>, w')
         | Threw t' w' \<Rightarrow> tc_caught E t' w')
      else (False, t, w))"

definition tc_stop :: "'w task_env \<Rightarrow> task \<Rightarrow> 'w \<Rightarrow> bool \<times> task \<times> 'w" where
  "tc_stop E t w =
     (let orig = mTaskState t in
      if Running \<le> orig then
        (case stopTask E w of (ok, w1) \<Rightarrow>
           if ok then
             (case stopHook E (t\<lparr>mTargetState := Stopped\<rparr>) w1 of
                Returned _ t' w' \<Rightarrow> (True, t'\<lparr>mTaskState := Stopped\<rparr>, w')
              | Threw t' w' \<Rightarrow> tc_caught E t' w')
           else (False, go_to orig t, w1))
      else (False, t, w))"

text \<open>One component in \<^verbatim>\<open>ExecutionEngine::processChildren\<close>.\<close>

definition run_or_except :: "'w task_env \<Rightarrow> 'w hook_result \<Rightarrow> task \<times> 'w" where
  "run_or_except E r = (case r of Returned _ t w \<Rightarrow> (t, w) | Threw t w \<Rightarrow> tc_exception E t w)"

definition tc_process :: "'w task_env \<Rightarrow> task \<Rightarrow> 'w \<Rightarrow> task \<times> 'w" where
  "tc_process E t w =
     (case (if mTaskState t = Running \<and> mTargetState t = Running then
              run_or_except E (call_if True (updateHook E) (prepareUpdateHook E t w))
            else (t, w)) of
        (t1, w1) \<Rightarrow>
          if mTaskState t1 = RunTimeError then run_or_except E (errorHook E t1 w1) else (t1, w1))"

section \<open>Sequences of calls\<close>

text \<open>The public operations, one round of the engine, and the protected operations that the
  component's code or an operation of it may call between two rounds.\<close>

datatype task_call =
  Configure | Start | Stop | Cleanup | Recover | Process | Error | Fatal | Except

fun task_do :: "'w task_env \<Rightarrow> task_call \<Rightarrow> task \<times> 'w \<Rightarrow> task \<times> 'w" where
  "task_do E Configure (t, w) = snd (tc_configure E t w)"
| "task_do E Start (t, w) = snd (tc_start E t w)"
| "task_do E Stop (t, w) = snd (tc_stop E t w)"
| "task_do E Cleanup (t, w) = snd (tc_cleanup E t w)"
| "task_do E Recover (t, w) = (snd (tc_recover t), w)"
| "task_do E Process (t, w) = tc_process E t w"
| "task_do E Error (t, w) = (tc_error t, w)"
| "task_do E Fatal (t, w) = tc_fatal E t w"
| "task_do E Except (t, w) = tc_exception E t w"

fun task_run :: "'w task_env \<Rightarrow> task_call list \<Rightarrow> task \<times> 'w \<Rightarrow> task \<times> 'w" where
  "task_run E [] s = s"
| "task_run E (c # cs) s = task_run E cs (task_do E c s)"

section \<open>Hooks that do not call back\<close>

text \<open>An environment whose hooks only record that they were called and how they ended. The
  outcome of the next hook is an arbitrary function of the record: it may return either value or
  throw (\<open>None\<close>). The activity's answers are arbitrary functions of it as well.\<close>

datatype hook = HConfigure | HStart | HStop | HCleanup | HException | HPrepare | HUpdate | HError

type_synonym hook_log = "(hook \<times> bool option) list"

definition logging_hook :: "(hook_log \<Rightarrow> bool option) \<Rightarrow> hook \<Rightarrow> task \<Rightarrow> hook_log \<Rightarrow> hook_log hook_result" where
  "logging_hook decide h t log =
     (case decide log of
        Some b \<Rightarrow> Returned b t (log @ [(h, Some b)])
      | None \<Rightarrow> Threw t (log @ [(h, None)]))"

definition logging_env :: "(hook_log \<Rightarrow> bool option) \<Rightarrow> (hook_log \<Rightarrow> bool) \<Rightarrow> (hook_log \<Rightarrow> bool) \<Rightarrow>
    hook_log task_env" where
  "logging_env decide present stops =
     \<lparr>configureHook = logging_hook decide HConfigure, startHook = logging_hook decide HStart,
      stopHook = logging_hook decide HStop, cleanupHook = logging_hook decide HCleanup,
      exceptionHook = logging_hook decide HException, prepareUpdateHook = logging_hook decide HPrepare,
      updateHook = logging_hook decide HUpdate, errorHook = logging_hook decide HError,
      act_present = present, act_stop = (\<lambda>w. (stops w, w)), act_start = (\<lambda>w. (True, w)),
      act_trigger = (\<lambda>w. (True, w))\<rparr>"

text \<open>The life cycle a component may rely on, as an automaton that reads the record: the
  component is unconfigured, configured, or running.\<close>

datatype phase = Unconfigured | Configured | Active

fun phase_step :: "phase \<Rightarrow> hook \<times> bool option \<Rightarrow> phase option" where
  "phase_step Active (HConfigure, r) = None"
| "phase_step p (HConfigure, Some True) = Some Configured"
| "phase_step p (HConfigure, Some False) = Some Unconfigured"
| "phase_step p (HConfigure, None) = Some p"
| "phase_step Configured (HStart, Some True) = Some Active"
| "phase_step Configured (HStart, r) = Some Configured"
| "phase_step p (HStart, r) = None"
| "phase_step Active (HStop, Some b) = Some Configured"
| "phase_step Active (HStop, None) = Some Active"
| "phase_step p (HStop, r) = None"
| "phase_step Configured (HCleanup, Some b) = Some Unconfigured"
| "phase_step Configured (HCleanup, None) = Some Configured"
| "phase_step p (HCleanup, r) = None"
| "phase_step Active (HPrepare, r) = Some Active"
| "phase_step Active (HUpdate, r) = Some Active"
| "phase_step Active (HError, r) = Some Active"
| "phase_step p (HPrepare, r) = None"
| "phase_step p (HUpdate, r) = None"
| "phase_step p (HError, r) = None"
| "phase_step p (HException, r) = Some p"

fun phase_run :: "phase \<Rightarrow> hook_log \<Rightarrow> phase option" where
  "phase_run p [] = Some p"
| "phase_run p (e # es) = (case phase_step p e of None \<Rightarrow> None | Some q \<Rightarrow> phase_run q es)"

lemma phase_run_snoc [simp]:
  "phase_run p (es @ [e]) = (case phase_run p es of None \<Rightarrow> None | Some q \<Rightarrow> phase_step q e)"
  by (induction es arbitrary: p) (auto split: option.split)

lemma phase_total [simp]:
  "\<exists>q. phase_step Active (HStop, v) = Some q" "\<exists>q. phase_step Configured (HCleanup, v) = Some q"
  "\<exists>q. phase_step p (HException, v) = Some q" "\<exists>q. phase_step Active (HPrepare, v) = Some q"
  "\<exists>q. phase_step Active (HUpdate, v) = Some q" "\<exists>q. phase_step Active (HError, v) = Some q"
  by (cases v; cases p; simp)+

section \<open>The invariant of the life cycle\<close>

fun phase_of :: "task_state \<Rightarrow> phase \<Rightarrow> bool" where
  "phase_of Init p = False"
| "phase_of FatalError p = True"
| "phase_of Stopped p = (p = Configured)"
| "phase_of Running p = (p = Active)"
| "phase_of RunTimeError p = (p = Active)"
| "phase_of PreOperational p = (p = Unconfigured)"
| "phase_of Exception p = (p = Unconfigured)"

definition cycle_inv :: "task \<times> hook_log \<Rightarrow> bool" where
  "cycle_inv s \<longleftrightarrow>
     (case s of (t, log) \<Rightarrow>
        mInitialState t = PreOperational \<and> mTargetState t = mTaskState t \<and>
        (\<exists>p. phase_run Unconfigured log = Some p \<and> phase_of (mTaskState t) p))"

lemma go_to_simps [simp]:
  "mTaskState (go_to s t) = s" "mTargetState (go_to s t) = s" "mInitialState (go_to s t) = mInitialState t"
  by (simp_all add: go_to_def)

lemma logging_env_hooks [simp]:
  "configureHook (logging_env d p q) = logging_hook d HConfigure"
  "startHook (logging_env d p q) = logging_hook d HStart"
  "stopHook (logging_env d p q) = logging_hook d HStop"
  "cleanupHook (logging_env d p q) = logging_hook d HCleanup"
  "exceptionHook (logging_env d p q) = logging_hook d HException"
  "prepareUpdateHook (logging_env d p q) = logging_hook d HPrepare"
  "updateHook (logging_env d p q) = logging_hook d HUpdate"
  "errorHook (logging_env d p q) = logging_hook d HError"
  "act_present (logging_env d p q) = p"
  "act_stop (logging_env d p q) w = (q w, w)"
  "act_start (logging_env d p q) w = (True, w)"
  "act_trigger (logging_env d p q) w = (True, w)"
  by (simp_all add: logging_env_def)

lemma logging_hookE:
  obtains (returns) b where "logging_hook d h t log = Returned b t (log @ [(h, Some b)])"
  | (throws) "logging_hook d h t log = Threw t (log @ [(h, None)])"
  by (cases "d log") (auto simp: logging_hook_def)

text \<open>Handling an exception leaves the component in \<open>Exception\<close> or \<open>FatalError\<close>, with the hooks
  that the state before it calls for.\<close>

lemma fatal_logging:
  "tc_fatal (logging_env d p q) t w = (go_to FatalError t, w)"
  by (simp add: tc_fatal_def Let_def)

text \<open>\<open>ended r t ph thrown\<close>: the call left the component's state at \<open>t\<close> and the record in phase \<open>ph\<close>.\<close>

fun ended :: "hook_log hook_result \<Rightarrow> task \<Rightarrow> phase \<Rightarrow> bool \<Rightarrow> bool" where
  "ended (Returned b t' log) t ph thrown \<longleftrightarrow> \<not> thrown \<and> t' = t \<and> phase_run Unconfigured log = Some ph"
| "ended (Threw t' log) t ph thrown \<longleftrightarrow> thrown \<and> t' = t \<and> phase_run Unconfigured log = Some ph"

lemma call_if_thrown: "ended r t ph True \<Longrightarrow> ended (call_if c h r) t ph True"
  by (cases r) (auto simp: call_if_def)

lemma call_if_ended:
  assumes "ended r t ph False" and "\<And>v. c \<Longrightarrow> phase_step ph (h, v) \<noteq> None"
  obtains th ph' where "ended (call_if c (logging_hook d h) r) t ph' th"
    and "\<not> c \<Longrightarrow> ph' = ph \<and> \<not> th"
    and "c \<Longrightarrow> \<exists>b. phase_step ph (h, if th then None else Some b) = Some ph'"
proof (cases r)
  case (Threw t' log)
  with assms show ?thesis by simp
next
  case (Returned b t' log)
  with assms have r: "t' = t" "phase_run Unconfigured log = Some ph" by auto
  show ?thesis
  proof (cases c)
    case False
    with Returned r show ?thesis by (intro that [of ph False]) (auto simp: call_if_def)
  next
    case True
    show ?thesis
    proof (cases "d log")
      case None
      with True assms(2) [of None] obtain ph' where "phase_step ph (h, None) = Some ph'" by auto
      with None True Returned r show ?thesis
        by (intro that [of ph' True]) (auto simp: call_if_def logging_hook_def)
    next
      case (Some b')
      with True assms(2) [of "Some b'"] obtain ph' where "phase_step ph (h, Some b') = Some ph'" by auto
      with Some True Returned r show ?thesis
        by (intro that [of ph' False]) (auto simp: call_if_def logging_hook_def)
    qed
  qed
qed

lemma exception_ends:
  assumes "ended r t ph th" and "th \<or> ph = Unconfigured" and "mTaskState t = Exception"
    and "mTargetState t = Exception" and "mInitialState t = PreOperational"
  shows "cycle_inv (case r of Returned _ t' w' \<Rightarrow> (t', w') | Threw t' w' \<Rightarrow> tc_fatal (logging_env d p q) t' w')"
  using assms by (cases r) (auto simp: cycle_inv_def fatal_logging)

lemma exception_cycle:
  assumes init: "mInitialState t = PreOperational" and log: "phase_run Unconfigured log = Some ph"
    and ph: "phase_of (mTaskState t) ph" and nf: "mTaskState t \<noteq> FatalError"
  shows "cycle_inv (tc_exception (logging_env d p q) t log)"
proof -
  let ?t = "go_to Exception t" and ?run = "Running \<le> mTaskState t" and ?conf = "Stopped \<le> mTaskState t"
  let ?r0 = "Returned True ?t log"
  let ?r1 = "call_if ?run (logging_hook d HStop) ?r0"
  let ?r2 = "call_if (?conf \<and> mInitialState t = PreOperational) (logging_hook d HCleanup) ?r1"
  let ?r3 = "call_if True (logging_hook d HException) ?r2"
  have r0: "ended ?r0 ?t ph False" using log by simp
  have act: "?run \<Longrightarrow> ph = Active" "\<not> ?run \<Longrightarrow> ?conf \<Longrightarrow> ph = Configured" "\<not> ?conf \<Longrightarrow> ph = Unconfigured"
    using ph nf by (cases "mTaskState t"; simp)+
  obtain th1 ph1 where r1: "ended ?r1 ?t ph1 th1" "\<not> ?run \<Longrightarrow> ph1 = ph \<and> \<not> th1"
    "?run \<Longrightarrow> \<exists>b. phase_step ph (HStop, if th1 then None else Some b) = Some ph1"
    by (rule call_if_ended [OF r0, where c = ?run and h = HStop and d = d])
      (use act(1) in \<open>auto split: option.split\<close>)
  have ph1: "th1 \<or> ph1 = (if ?conf then Configured else Unconfigured)"
    using r1(2,3) act by (cases ?run; cases th1) auto
  have "\<exists>th2 ph2. ended ?r2 ?t ph2 th2 \<and> (th2 \<or> ph2 = Unconfigured)"
  proof (cases th1)
    case True
    with r1(1) have "ended ?r1 ?t ph1 True" by simp
    then show ?thesis by (blast intro: call_if_thrown)
  next
    case False
    with r1(1) have e: "ended ?r1 ?t ph1 False" by simp
    obtain th2 ph2 where "ended ?r2 ?t ph2 th2"
      "\<not> (?conf \<and> mInitialState t = PreOperational) \<Longrightarrow> ph2 = ph1 \<and> \<not> th2"
      "?conf \<and> mInitialState t = PreOperational \<Longrightarrow>
       \<exists>b. phase_step ph1 (HCleanup, if th2 then None else Some b) = Some ph2"
      by (rule call_if_ended [OF e, where c = "?conf \<and> mInitialState t = PreOperational" and h = HCleanup and d = d])
        (use ph1 False in \<open>auto split: if_splits option.split\<close>)
    with ph1 False init show ?thesis by (cases th2; cases ?conf) auto
  qed
  then obtain th2 ph2 where r2: "ended ?r2 ?t ph2 th2" "th2 \<or> ph2 = Unconfigured" by blast
  have "\<exists>th3 ph3. ended ?r3 ?t ph3 th3 \<and> (th3 \<or> ph3 = Unconfigured)"
  proof (cases th2)
    case True
    with r2(1) have "ended ?r2 ?t ph2 True" by simp
    then show ?thesis by (blast intro: call_if_thrown)
  next
    case False
    with r2(1) have e: "ended ?r2 ?t ph2 False" by simp
    obtain th3 ph3 where "ended ?r3 ?t ph3 th3"
      "\<exists>b. phase_step ph2 (HException, if th3 then None else Some b) = Some ph3"
      by (rule call_if_ended [OF e, where c = True and h = HException and d = d]) (cases ph2; auto)+
    with r2(2) False show ?thesis by auto
  qed
  then obtain th3 ph3 where "ended ?r3 ?t ph3 th3" "th3 \<or> ph3 = Unconfigured" by blast
  from exception_ends [OF this, of d p q] init show ?thesis
    unfolding tc_exception_def Let_def by simp
qed

section \<open>Every call keeps it\<close>

lemma cycle_caught:
  assumes "mInitialState t = PreOperational" and "phase_run Unconfigured log = Some ph"
    and "phase_of (mTaskState t) ph" and "mTaskState t \<noteq> FatalError"
  shows "cycle_inv (snd (tc_caught (logging_env d p q) t log))"
  using exception_cycle [OF assms] by (simp add: tc_caught_def)

lemma cycle_invE:
  assumes "cycle_inv (t, log)"
  obtains ph where "mInitialState t = PreOperational" and "mTargetState t = mTaskState t"
    and "phase_run Unconfigured log = Some ph" and "phase_of (mTaskState t) ph"
  using assms by (auto simp: cycle_inv_def)

lemma cycle_configure:
  assumes inv: "cycle_inv (t, log)"
  shows "cycle_inv (snd (tc_configure (logging_env d p q) t log))"
proof (cases "mTaskState t = Stopped \<or> mTaskState t = PreOperational")
  case False
  with inv show ?thesis by (simp add: tc_configure_def)
next
  case True
  from inv obtain ph where t: "mInitialState t = PreOperational" "phase_run Unconfigured log = Some ph"
    "phase_of (mTaskState t) ph" by (rule cycle_invE)
  let ?t = "t\<lparr>mTargetState := Stopped\<rparr>"
  have ph: "ph = Configured \<or> ph = Unconfigured" using True t(3) by auto
  show ?thesis
  proof (cases rule: logging_hookE [of d HConfigure ?t log])
    case (returns b)
    with True t ph show ?thesis by (cases b) (auto simp: tc_configure_def cycle_inv_def)
  next
    case throws
    have "phase_run Unconfigured (log @ [(HConfigure, None)]) = Some ph" using t ph by auto
    with throws True t cycle_caught [of ?t _ ph d p q] show ?thesis
      by (auto simp: tc_configure_def)
  qed
qed

lemma cycle_start:
  assumes inv: "cycle_inv (t, log)"
  shows "cycle_inv (snd (tc_start (logging_env d p q) t log))"
proof (cases "mTaskState t = Stopped")
  case False
  with inv show ?thesis by (simp add: tc_start_def)
next
  case True
  from inv obtain ph where t: "mInitialState t = PreOperational" "phase_run Unconfigured log = Some ph"
    "phase_of (mTaskState t) ph" by (rule cycle_invE)
  let ?t = "t\<lparr>mTargetState := Running\<rparr>"
  have ph: "ph = Configured" using True t(3) by auto
  show ?thesis
  proof (cases rule: logging_hookE [of d HStart ?t log])
    case (returns b)
    with True t ph show ?thesis by (cases b) (auto simp: tc_start_def cycle_inv_def tc_trigger_def)
  next
    case throws
    have "phase_run Unconfigured (log @ [(HStart, None)]) = Some ph" using t ph by auto
    with throws True t cycle_caught [of ?t _ ph d p q] show ?thesis
      by (auto simp: tc_start_def)
  qed
qed

lemma cycle_cleanup:
  assumes inv: "cycle_inv (t, log)"
  shows "cycle_inv (snd (tc_cleanup (logging_env d p q) t log))"
proof (cases "mTaskState t = Stopped")
  case False
  with inv show ?thesis by (simp add: tc_cleanup_def)
next
  case True
  from inv obtain ph where t: "mInitialState t = PreOperational" "phase_run Unconfigured log = Some ph"
    "phase_of (mTaskState t) ph" by (rule cycle_invE)
  let ?t = "t\<lparr>mTargetState := PreOperational\<rparr>"
  have ph: "ph = Configured" using True t(3) by auto
  show ?thesis
  proof (cases rule: logging_hookE [of d HCleanup ?t log])
    case (returns b)
    with True t ph show ?thesis by (auto simp: tc_cleanup_def cycle_inv_def)
  next
    case throws
    have "phase_run Unconfigured (log @ [(HCleanup, None)]) = Some ph" using t ph by auto
    with throws True t cycle_caught [of ?t _ ph d p q] show ?thesis
      by (auto simp: tc_cleanup_def)
  qed
qed

lemma stopTask_logging: "stopTask (logging_env d p q) w = (p w \<and> q w, w)"
  by (simp add: stopTask_def)

lemma cycle_stop:
  assumes inv: "cycle_inv (t, log)"
  shows "cycle_inv (snd (tc_stop (logging_env d p q) t log))"
proof (cases "Running \<le> mTaskState t \<and> p log \<and> q log")
  case False
  with inv show ?thesis by (auto simp: tc_stop_def Let_def stopTask_logging cycle_inv_def)
next
  case True
  from inv obtain ph where t: "mInitialState t = PreOperational" "phase_run Unconfigured log = Some ph"
    "phase_of (mTaskState t) ph" by (rule cycle_invE)
  let ?t = "t\<lparr>mTargetState := Stopped\<rparr>"
  have ph: "ph = Active" using True t(3) by auto
  show ?thesis
  proof (cases rule: logging_hookE [of d HStop ?t log])
    case (returns b)
    with True t ph show ?thesis by (auto simp: tc_stop_def Let_def stopTask_logging cycle_inv_def)
  next
    case throws
    have "phase_run Unconfigured (log @ [(HStop, None)]) = Some ph" using t ph by auto
    with throws True t cycle_caught [of ?t _ ph d p q] show ?thesis
      by (auto simp: tc_stop_def Let_def stopTask_logging)
  qed
qed

text \<open>One round of the engine.\<close>

lemma run_or_except_cycle:
  assumes "ended r t Active th" and "mInitialState t = PreOperational" and "mTargetState t = mTaskState t"
    and "Running \<le> mTaskState t"
  shows "cycle_inv (run_or_except (logging_env d p q) r)"
proof (cases r)
  case (Returned b t' log)
  with assms show ?thesis by (auto simp: run_or_except_def cycle_inv_def)
next
  case (Threw t' log)
  with assms exception_cycle [of t log Active d p q] show ?thesis by (auto simp: run_or_except_def)
qed

lemma active_hook:
  assumes "h \<in> {HPrepare, HUpdate, HError}" and "phase_run Unconfigured log = Some Active"
  shows "\<exists>th. ended (logging_hook d h t log) t Active th"
  using assms by (cases rule: logging_hookE [of d h t log]) auto

lemma cycle_process:
  assumes inv: "cycle_inv (t, log)"
  shows "cycle_inv (tc_process (logging_env d p q) t log)"
proof -
  let ?E = "logging_env d p q"
  let ?first = "if mTaskState t = Running \<and> mTargetState t = Running then
      run_or_except ?E (call_if True (updateHook ?E) (prepareUpdateHook ?E t log)) else (t, log)"
  from inv obtain ph where t: "mInitialState t = PreOperational" "mTargetState t = mTaskState t"
    "phase_run Unconfigured log = Some ph" "phase_of (mTaskState t) ph" by (rule cycle_invE)
  have first: "cycle_inv ?first"
  proof (cases "mTaskState t = Running")
    case False
    with inv show ?thesis by simp
  next
    case True
    with t have log: "phase_run Unconfigured log = Some Active" by simp
    from active_hook [OF _ this, of HPrepare] obtain th where
      e: "ended (logging_hook d HPrepare t log) t Active th" by blast
    have "\<exists>th'. ended (call_if True (logging_hook d HUpdate) (logging_hook d HPrepare t log)) t Active th'"
    proof (cases th)
      case True
      with e have "ended (logging_hook d HPrepare t log) t Active True" by simp
      then show ?thesis by (blast intro: call_if_thrown)
    next
      case False
      with e obtain b log' where "logging_hook d HPrepare t log = Returned b t log'"
        "phase_run Unconfigured log' = Some Active"
        by (cases "logging_hook d HPrepare t log") auto
      with active_hook [of HUpdate log' d t] show ?thesis by (simp add: call_if_def)
    qed
    with True t show ?thesis by (auto intro: run_or_except_cycle)
  qed
  obtain t1 log1 where s1: "?first = (t1, log1)" by fastforce
  with first have inv1: "cycle_inv (t1, log1)" by simp
  show ?thesis
  proof (cases "mTaskState t1 = RunTimeError")
    case False
    with inv1 s1 show ?thesis by (simp add: tc_process_def)
  next
    case True
    from inv1 obtain ph1 where t1: "mInitialState t1 = PreOperational" "mTargetState t1 = mTaskState t1"
      "phase_run Unconfigured log1 = Some ph1" "phase_of (mTaskState t1) ph1" by (rule cycle_invE)
    with True active_hook [of HError log1 d t1] obtain th where
      "ended (logging_hook d HError t1 log1) t1 Active th" by auto
    with True t1 have "cycle_inv (run_or_except ?E (logging_hook d HError t1 log1))"
      by (auto intro: run_or_except_cycle)
    with True s1 show ?thesis by (simp add: tc_process_def)
  qed
qed

lemma cycle_do:
  assumes inv: "cycle_inv (t, log)" and ok: "c = Except \<Longrightarrow> mTaskState t \<noteq> FatalError"
  shows "cycle_inv (task_do (logging_env d p q) c (t, log))"
proof (cases c)
  case Recover
  then show ?thesis using inv by (auto simp: tc_recover_def cycle_inv_def)
next
  case Error
  then show ?thesis using inv by (auto simp: tc_error_def cycle_inv_def)
next
  case Fatal
  then show ?thesis using inv by (auto simp: fatal_logging cycle_inv_def)
next
  case Except
  then show ?thesis using inv ok by (auto elim!: cycle_invE intro: exception_cycle)
qed (use inv in \<open>simp_all add: cycle_configure cycle_start cycle_stop cycle_cleanup cycle_process\<close>)

text \<open>An operation in progress may throw after \<^verbatim>\<open>fatal()\<close>; the engine refuses new ones.\<close>

fun no_throw_after_fatal :: "'w task_env \<Rightarrow> task_call list \<Rightarrow> task \<times> 'w \<Rightarrow> bool" where
  "no_throw_after_fatal E [] s \<longleftrightarrow> True"
| "no_throw_after_fatal E (c # cs) s \<longleftrightarrow>
     (c = Except \<longrightarrow> mTaskState (fst s) \<noteq> FatalError) \<and> no_throw_after_fatal E cs (task_do E c s)"

lemma cycle_run:
  "cycle_inv s \<Longrightarrow> no_throw_after_fatal (logging_env d p q) cs s \<Longrightarrow> cycle_inv (task_run (logging_env d p q) cs s)"
proof (induction cs arbitrary: s)
  case Nil
  then show ?case by simp
next
  case (Cons c cs)
  obtain t log where s: "s = (t, log)" by fastforce
  with Cons.prems have "cycle_inv (task_do (logging_env d p q) c s)" by (auto intro: cycle_do)
  with Cons show ?case by simp
qed

section \<open>Properties\<close>

text \<open>C4: the life cycle of a component that starts \<^verbatim>\<open>PreOperational\<close> and whose hooks do not call
  its operations themselves. Whatever the hooks return or throw, whatever the activity answers and in
  whatever order the operations, error calls and rounds of the engine come, as long as
  \<^verbatim>\<open>exception()\<close> is not called in the state \<^verbatim>\<open>FatalError\<close> (an operation that throws after it has
  called \<^verbatim>\<open>fatal()\<close>; \<open>fatal_then_throw_recovers\<close> shows what happens then), the hooks are called in the documented order: \<^verbatim>\<open>startHook\<close> only after a
  successful \<^verbatim>\<open>configureHook\<close>, \<^verbatim>\<open>updateHook\<close> and \<^verbatim>\<open>errorHook\<close> only between a successful \<^verbatim>\<open>startHook\<close>
  and the \<^verbatim>\<open>stopHook\<close>, \<^verbatim>\<open>cleanupHook\<close> only when configured and stopped; and between two calls the
  target state is the state, which agrees with where the hooks have brought the component.\<close>

theorem life_cycle_respected:
  assumes "no_throw_after_fatal (logging_env decide present stops) cs (task_new PreOperational, [])"
    and "task_run (logging_env decide present stops) cs (task_new PreOperational, []) = (t, log)"
  shows "mTargetState t = mTaskState t \<and>
         (\<exists>p. phase_run Unconfigured log = Some p \<and> phase_of (mTaskState t) p)"
proof -
  have "cycle_inv (task_new PreOperational, [])" by (simp add: cycle_inv_def task_new_def)
  from cycle_run [OF this assms(1)] assms(2) show ?thesis by (simp add: cycle_inv_def)
qed

definition demo_calls :: "task_call list" where
  "demo_calls = [Configure, Start, Process, Error, Process, Recover, Process, Stop, Start, Except, Recover]"

definition demo_env :: "hook_log task_env" where
  "demo_env = logging_env (\<lambda>log. if length log = 8 then None else Some True) (\<lambda>_. True) (\<lambda>_. True)"

theorem life_cycle_respected_witness:
  "\<exists>t log. task_run demo_env demo_calls (task_new PreOperational, []) = (t, log) \<and> mTaskState t = PreOperational \<and>
     mTargetState t = PreOperational \<and> length log = 12 \<and> (\<exists>p. phase_run Unconfigured log = Some p)"
proof -
  obtain t log where r: "task_run demo_env demo_calls (task_new PreOperational, []) = (t, log)" by fastforce
  have ok: "no_throw_after_fatal demo_env demo_calls (task_new PreOperational, [])" by code_simp
  have "case task_run demo_env demo_calls (task_new PreOperational, []) of (t, log) \<Rightarrow>
      mTaskState t = PreOperational \<and> length log = 12" by code_simp
  with r life_cycle_respected [OF ok [unfolded demo_env_def] r [unfolded demo_env_def]] show ?thesis by auto
qed

text \<open>An operation that reports success has brought the component to the state it promises, for
  every behaviour of the hooks and of the activity: \<^verbatim>\<open>configure\<close> and \<^verbatim>\<open>stop\<close> to \<^verbatim>\<open>Stopped\<close>, \<^verbatim>\<open>start\<close> to
  \<^verbatim>\<open>Running\<close>, \<^verbatim>\<open>cleanup\<close> to \<^verbatim>\<open>PreOperational\<close>; and an operation that the state does not allow
  reports failure and has no effect at all.\<close>

theorem operations_report_state:
  "(fst (tc_configure E t w) \<longrightarrow> mTaskState (fst (snd (tc_configure E t w))) = Stopped) \<and>
   (fst (tc_start E t w) \<longrightarrow> mTaskState (fst (snd (tc_start E t w))) = Running) \<and>
   (fst (tc_stop E t w) \<longrightarrow> mTaskState (fst (snd (tc_stop E t w))) = Stopped) \<and>
   (fst (tc_cleanup E t w) \<longrightarrow> mTaskState (fst (snd (tc_cleanup E t w))) = PreOperational) \<and>
   (mTaskState t \<notin> {Stopped, PreOperational} \<longrightarrow> tc_configure E t w = (False, t, w)) \<and>
   (mTaskState t \<noteq> Stopped \<longrightarrow> tc_start E t w = (False, t, w) \<and> tc_cleanup E t w = (False, t, w)) \<and>
   (\<not> isRunning t \<longrightarrow> tc_stop E t w = (False, t, w))"
  by (auto simp: tc_configure_def tc_start_def tc_stop_def tc_cleanup_def tc_caught_def isRunning_def Let_def
      split: hook_result.splits bool.splits prod.splits if_splits)

theorem operations_report_state_witness:
  "mTaskState (fst (snd (tc_configure demo_env (task_new PreOperational) []))) = Stopped"
proof -
  have "fst (tc_configure demo_env (task_new PreOperational) [])" by code_simp
  with operations_report_state [of demo_env "task_new PreOperational" "[]"] show ?thesis by blast
qed

text \<open>\<^verbatim>\<open>error()\<close> called from a \<^verbatim>\<open>startHook\<close> that then succeeds leaves the component stuck: \<^verbatim>\<open>start\<close>
  returns true with state \<^verbatim>\<open>Running\<close> and target \<^verbatim>\<open>RunTimeError\<close>, and from then on no round of the
  engine calls \<^verbatim>\<open>updateHook\<close> or \<^verbatim>\<open>errorHook\<close>, and \<^verbatim>\<open>recover()\<close> refuses.\<close>

theorem error_in_start_is_stuck:
  assumes "mTaskState t = Stopped"
    and "startHook E (t\<lparr>mTargetState := Running\<rparr>) w = Returned True (tc_error (t\<lparr>mTargetState := Running\<rparr>)) w'"
  shows "\<exists>t1 w1. tc_start E t w = (True, t1, w1) \<and> isRunning t1 \<and> mTaskState t1 = Running \<and>
           mTargetState t1 = RunTimeError \<and> (\<forall>w2. tc_process E t1 w2 = (t1, w2)) \<and> tc_recover t1 = (False, t1)"
  using assms
  by (simp add: tc_start_def tc_error_def go_to_def isRunning_def tc_process_def tc_recover_def)

definition erring_env :: "hook_log task_env" where
  "erring_env = demo_env\<lparr>startHook := (\<lambda>t w. Returned True (tc_error t) w)\<rparr>"

theorem error_in_start_is_stuck_witness:
  "\<exists>t1 w1. tc_start erring_env (task_new Stopped) [] = (True, t1, w1) \<and> tc_process erring_env t1 [] = (t1, [])"
  using error_in_start_is_stuck [of "task_new Stopped" erring_env "[]" "[]"]
  by (auto simp: erring_env_def task_new_def)

text \<open>From \<^verbatim>\<open>FatalError\<close> there is no way back, says the documentation. But an \<^verbatim>\<open>updateHook\<close> that calls
  \<^verbatim>\<open>fatal()\<close> and then throws brings the component to \<^verbatim>\<open>Exception\<close>: no \<^verbatim>\<open>stopHook\<close> or \<^verbatim>\<open>cleanupHook\<close> is called,
  since the state before was \<^verbatim>\<open>FatalError\<close>, and \<^verbatim>\<open>recover()\<close> and \<^verbatim>\<open>configure()\<close> succeed, so that
  \<^verbatim>\<open>configureHook\<close> is called on a component that was never stopped.\<close>

definition fatal_env :: "hook_log task_env" where
  "fatal_env = (let E = logging_env (\<lambda>_. Some True) (\<lambda>_. True) (\<lambda>_. True) in
     E\<lparr>updateHook := (\<lambda>t w. case tc_fatal E t (w @ [(HUpdate, None)]) of (t', w') \<Rightarrow> Threw t' w')\<rparr>)"

lemma fatal_then_throw_recovers:
  "\<exists>t log. task_run fatal_env [Configure, Start, Process] (task_new PreOperational, []) = (t, log) \<and>
     mTaskState t = Exception \<and> HStop \<notin> fst ` set log \<and>
     (\<exists>t' log'. task_run fatal_env [Recover, Configure] (t, log) = (t', log') \<and> mTaskState t' = Stopped \<and>
        phase_run Unconfigured log' = None)"
  by (simp add: fatal_env_def Let_def task_new_def tc_configure_def tc_start_def tc_trigger_def tc_process_def
      tc_exception_def run_or_except_def call_if_def logging_hook_def tc_fatal_def go_to_def tc_recover_def)

text \<open>When the same hook returns false instead, \<^verbatim>\<open>start\<close> reports failure and yet the component counts
  as running, in \<^verbatim>\<open>RunTimeError\<close>.\<close>

lemma error_in_failed_start:
  assumes "mTaskState t = Stopped"
    and "startHook E (t\<lparr>mTargetState := Running\<rparr>) w = Returned False (tc_error (t\<lparr>mTargetState := Running\<rparr>)) w'"
  shows "\<exists>t1. tc_start E t w = (False, t1, w') \<and> isRunning t1 \<and> mTaskState t1 = RunTimeError"
  using assms by (simp add: tc_start_def tc_error_def go_to_def isRunning_def)

end
