(* ===== verification/ExecutionEngine.thy ===== *)
theory ExecutionEngine
  imports TaskCore MWSRQueue "HOL-Library.Monad_Syntax" "HOL-Library.Multiset"
begin

text \<open>
  The engine of a component, \<^verbatim>\<open>RTT::ExecutionEngine\<close> (\<^verbatim>\<open>rtt/ExecutionEngine.hpp\<close>, \<^verbatim>\<open>.cpp\<close>): a
  queue of messages, a queue of loaded functions, the owner and its children. Functions and
  messages are user objects, named by numbers; what they do when they run is given by the
  record \<open>engine_env\<close> and may be anything, including calls of the engine's operations. The
  member \<^verbatim>\<open>engine\<close> of a function (is it loaded?) is the set \<open>loaded\<close>. Waiting and waking
  (\<^verbatim>\<open>msg_lock\<close>, \<^verbatim>\<open>msg_cond\<close>, the functions \<^verbatim>\<open>waitFor...\<close>) are in the theory \<open>MessageWait\<close>. The result
  \<open>None\<close> is a failed assertion or a loop that never ends.
\<close>

section \<open>State\<close>

record 'w engine =
  mqueue :: "nat mwsr"
  f_queue :: "nat mwsr"
  taskc :: "task option"
  children :: "task list"
  loaded :: "nat set"
  world :: 'w

record 'w engine_env =
  execute :: "nat \<Rightarrow> 'w engine \<Rightarrow> bool \<times> 'w engine"
  loading :: "nat \<Rightarrow> 'w engine \<Rightarrow> 'w engine"
  unloading :: "nat \<Rightarrow> 'w engine \<Rightarrow> 'w engine"
  executeAndDispose :: "nat \<Rightarrow> 'w engine \<Rightarrow> 'w engine"
  taskc_env :: "'w task_env"
  child_env :: "nat \<Rightarrow> 'w task_env"
  has_activity :: "'w \<Rightarrow> bool"
  activity_active :: "'w \<Rightarrow> bool"
  activity_running :: "'w \<Rightarrow> bool"
  trigger_activity :: "'w \<Rightarrow> 'w"

definition ORONUM_EE_MQUEUE_SIZE :: nat where
  "ORONUM_EE_MQUEUE_SIZE = 100"

definition ee_new :: "task option \<Rightarrow> 'w \<Rightarrow> 'w engine" where
  "ee_new owner w =
     \<lparr>mqueue = mw_new None ORONUM_EE_MQUEUE_SIZE, f_queue = mw_new None ORONUM_EE_MQUEUE_SIZE,
      taskc = owner, children = [], loaded = {}, world = w\<rparr>"

definition in_fatal_error :: "'w engine \<Rightarrow> bool" where
  "in_fatal_error e = (case taskc e of None \<Rightarrow> False | Some t \<Rightarrow> mTaskState t = FatalError)"

definition ee_trigger :: "'w engine_env \<Rightarrow> 'w engine \<Rightarrow> 'w engine" where
  "ee_trigger X e = e\<lparr>world := trigger_activity X (world e)\<rparr>"

section \<open>Functions\<close>

definition fn_loaded :: "'w engine_env \<Rightarrow> nat \<Rightarrow> 'w engine \<Rightarrow> 'w engine" where
  "fn_loaded X f e = loading X f (e\<lparr>loaded := insert f (loaded e)\<rparr>)"

definition fn_unloaded :: "'w engine_env \<Rightarrow> nat \<Rightarrow> 'w engine \<Rightarrow> 'w engine" where
  "fn_unloaded X f e = (let e' = unloading X f e in e'\<lparr>loaded := loaded e' - {f}\<rparr>)"

text \<open>The loop of \<^verbatim>\<open>processFunctions\<close>; \<open>nbr\<close> is an \<^verbatim>\<open>int\<close>.\<close>

partial_function (option) function_loop :: "'w engine_env \<Rightarrow> int \<Rightarrow> 'w engine \<Rightarrow> 'w engine option" where
  "function_loop X nbr e =
     (case mw_dequeue (f_queue e) of
        (None, q) \<Rightarrow> Some (e\<lparr>f_queue := q\<rparr>)
      | (Some foo, q) \<Rightarrow>
          (case execute X foo (e\<lparr>f_queue := q\<rparr>) of (again, e1) \<Rightarrow>
             let e2 = (if \<not> again then fn_unloaded X foo e1
                       else e1\<lparr>f_queue := snd (mw_enqueue (Some foo) (f_queue e1))\<rparr>)
             in if nbr - 1 = 0 then Some e2 else function_loop X (nbr - 1) e2))"

declare function_loop.simps [code]

definition processFunctions :: "'w engine_env \<Rightarrow> 'w engine \<Rightarrow> 'w engine option" where
  "processFunctions X e = function_loop X (int (mw_count (f_queue e))) e"

definition runFunction :: "'w engine_env \<Rightarrow> nat option \<Rightarrow> 'w engine \<Rightarrow> bool \<times> 'w engine" where
  "runFunction X fp e =
     (case fp of
        None \<Rightarrow> (False, e)
      | Some f \<Rightarrow>
          if \<not> has_activity X (world e) then (False, e)
          else if in_fatal_error e then (False, e)
          else
            let e1 = fn_loaded X f e in
            case mw_enqueue (Some f) (f_queue e1) of
              (result, q) \<Rightarrow> (result, ee_trigger X (e1\<lparr>f_queue := q\<rparr>)))"

fun remove_loop :: "nat \<Rightarrow> nat \<Rightarrow> nat mwsr \<Rightarrow> bool \<times> nat mwsr" where
  "remove_loop f 0 q = (True, q)"
| "remove_loop f (Suc nbr) q =
     (case mw_dequeue q of
        (None, q1) \<Rightarrow> (False, q1)
      | (Some foo, q1) \<Rightarrow>
          if f = foo then (True, q1)
          else remove_loop f nbr (snd (mw_enqueue (Some foo) q1)))"

definition removeSelfFunction :: "nat option \<Rightarrow> 'w engine \<Rightarrow> bool \<times> 'w engine" where
  "removeSelfFunction fp e =
     (case fp of
        None \<Rightarrow> (False, e)
      | Some f \<Rightarrow>
          (case remove_loop f (mw_count (f_queue e)) (f_queue e) of (ok, q) \<Rightarrow> (ok, e\<lparr>f_queue := q\<rparr>)))"

text \<open>\<^verbatim>\<open>removeFunction\<close> while the activity is not active; while it is, the same removal is sent to
  the engine's thread as a message and waited for.\<close>

definition removeFunction_inactive :: "'w engine_env \<Rightarrow> nat option \<Rightarrow> 'w engine \<Rightarrow> bool \<times> 'w engine" where
  "removeFunction_inactive X fp e =
     (case fp of
        None \<Rightarrow> (False, e)
      | Some f \<Rightarrow>
          if f \<notin> loaded e then (True, e)
          else (case removeSelfFunction (Some f) e of (ok, e1) \<Rightarrow>
                  if \<not> ok then (False, e1) else (True, fn_unloaded X f e1)))"

section \<open>Messages\<close>

partial_function (option) processMessages :: "'w engine_env \<Rightarrow> 'w engine \<Rightarrow> 'w engine option" where
  "processMessages X e =
     (case mw_dequeue (mqueue e) of
        (None, q) \<Rightarrow> Some (e\<lparr>mqueue := q\<rparr>)
      | (Some com, q) \<Rightarrow> processMessages X (executeAndDispose X com (e\<lparr>mqueue := q\<rparr>)))"

declare processMessages.simps [code]

definition ee_process :: "'w engine_env \<Rightarrow> nat option \<Rightarrow> 'w engine \<Rightarrow> bool \<times> 'w engine" where
  "ee_process X cp e =
     (case cp of
        None \<Rightarrow> (False, e)
      | Some c \<Rightarrow>
          if \<not> has_activity X (world e) then (False, e)
          else if in_fatal_error e then (False, e)
          else (case mw_enqueue (Some c) (mqueue e) of
                  (result, q) \<Rightarrow> (result, ee_trigger X (e\<lparr>mqueue := q\<rparr>))))"

definition hasWork :: "'w engine \<Rightarrow> bool" where
  "hasWork e = (\<not> mw_isEmpty (mqueue e))"

section \<open>One round\<close>

fun children_loop :: "'w engine_env \<Rightarrow> nat \<Rightarrow> task list \<Rightarrow> 'w \<Rightarrow> task list \<times> 'w" where
  "children_loop X i [] w = ([], w)"
| "children_loop X i (t # ts) w =
     (case tc_process (child_env X i) t w of (t', w') \<Rightarrow>
        if \<not> has_activity X w' \<or> \<not> activity_running X w' then (t' # ts, w')
        else (case children_loop X (Suc i) ts w' of (ts', w'') \<Rightarrow> (t' # ts', w'')))"

definition processChildren :: "'w engine_env \<Rightarrow> 'w engine \<Rightarrow> 'w engine" where
  "processChildren X e =
     (let e1 = (case taskc e of
                  None \<Rightarrow> e
                | Some t \<Rightarrow> (case tc_process (taskc_env X) t (world e) of
                              (t', w') \<Rightarrow> e\<lparr>taskc := Some t', world := w'\<rparr>))
      in if \<not> has_activity X (world e1) \<or> \<not> activity_running X (world e1) then e1
         else (case children_loop X 0 (children e1) (world e1) of
                 (ts, w) \<Rightarrow> e1\<lparr>children := ts, world := w\<rparr>))"

definition ee_step :: "'w engine_env \<Rightarrow> 'w engine \<Rightarrow> 'w engine option" where
  "ee_step X e = do { e1 \<leftarrow> processMessages X e; e2 \<leftarrow> processFunctions X e1; Some (processChildren X e2) }"

definition setExceptionTask :: "'w engine_env \<Rightarrow> 'w engine \<Rightarrow> 'w engine" where
  "setExceptionTask X e =
     (case taskc e of
        None \<Rightarrow> e
      | Some t \<Rightarrow> (case tc_exception (taskc_env X) t (world e) of (t', w') \<Rightarrow> e\<lparr>taskc := Some t', world := w'\<rparr>))"

definition addChild :: "task \<Rightarrow> 'w engine \<Rightarrow> 'w engine" where
  "addChild t e = e\<lparr>children := children e @ [t]\<rparr>"

section \<open>The queues as lists\<close>

lemma dequeue_cases:
  assumes "mw_inv q"
  obtains (empty) "mw_elems q = []" and "mw_dequeue q = (None, q)"
  | (first) x xs q' where "mw_elems q = x # xs" and "mw_dequeue q = (Some x, q')" and "mw_inv q'"
      and "mw_elems q' = xs" and "mw_capacity q' = mw_capacity q"
  using mwsr.dequeueE [OF assms] by (auto simp: mwsr_api_def)

lemma enqueue_cases:
  assumes "mw_inv q"
  obtains (room) q' where "length (mw_elems q) < mw_capacity q" and "mw_enqueue (Some x) q = (True, q')"
      and "mw_inv q'" and "mw_elems q' = mw_elems q @ [x]" and "mw_capacity q' = mw_capacity q"
  | (full) "length (mw_elems q) = mw_capacity q" and "mw_enqueue (Some x) q = (False, q)"
  using mwsr.enqueueE [OF assms, of x] by (auto simp: mwsr_api_def)

lemma remove_loop_spec:
  assumes "mw_inv q" and "n \<le> length (mw_elems q)" and "f \<notin> set (drop n (mw_elems q))"
  shows "\<exists>q'. remove_loop f n q = (True, q') \<and> mw_inv q' \<and> mw_capacity q' = mw_capacity q \<and>
      mw_elems q' = (if f \<in> set (take n (mw_elems q))
                     then tl (dropWhile (\<lambda>g. g \<noteq> f) (mw_elems q)) @ takeWhile (\<lambda>g. g \<noteq> f) (mw_elems q)
                     else drop n (mw_elems q) @ take n (mw_elems q))"
  using assms
proof (induction n arbitrary: q)
  case 0
  then show ?case by simp
next
  case (Suc n)
  from Suc.prems(1) show ?case
  proof (cases rule: dequeue_cases)
    case empty
    with Suc.prems(2) show ?thesis by (metis list.size(3) not_less_eq_eq zero_le)
  next
    case (first x xs q')
    show ?thesis
    proof (cases "f = x")
      case True
      with first show ?thesis by simp
    next
      case False
      have n: "n \<le> length xs" using Suc.prems(2) first(1) by (metis Suc_le_mono length_Cons)
      from first(3) show ?thesis
      proof (cases rule: enqueue_cases [where x = x])
        case full
        have "length (mw_elems q) \<le> mw_capacity q" using mw_dist_le [OF Suc.prems(1)] by simp
        with full first show ?thesis by (metis Suc_n_not_le_n length_Cons)
      next
        case (room q'')
        have e: "mw_elems q'' = xs @ [x]" using room first by simp
        have "n \<le> length (mw_elems q'')" and "f \<notin> set (drop n (mw_elems q''))"
          unfolding e using n Suc.prems(3) first(1) False by auto
        from Suc.IH [OF room(3) this] obtain r where r: "remove_loop f n q'' = (True, r)" "mw_inv r"
          "mw_capacity r = mw_capacity q''"
          "mw_elems r = (if f \<in> set (take n (mw_elems q''))
             then tl (dropWhile (\<lambda>g. g \<noteq> f) (mw_elems q'')) @ takeWhile (\<lambda>g. g \<noteq> f) (mw_elems q'')
             else drop n (mw_elems q'') @ take n (mw_elems q''))" by blast
        have loop: "remove_loop f (Suc n) q = (True, r)" using first(2) room(2) r(1) False by simp
        have res: "mw_elems r = (if f \<in> set (take (Suc n) (mw_elems q))
             then tl (dropWhile (\<lambda>g. g \<noteq> f) (mw_elems q)) @ takeWhile (\<lambda>g. g \<noteq> f) (mw_elems q)
             else drop (Suc n) (mw_elems q) @ take (Suc n) (mw_elems q))"
        proof (cases "f \<in> set (take n xs)")
          case True
          then have "f \<in> set xs" by (meson in_set_takeD)
          with True False n show ?thesis
            unfolding r(4) e first(1)
            by (simp add: dropWhile_append takeWhile_append) (auto simp: dropWhile_eq_Nil_conv tl_append split: list.split)
        next
          case f: False
          with False n show ?thesis unfolding r(4) e first(1) by simp
        qed
        show ?thesis
          using loop res r(2,3) room(5) first(5) by (intro exI [of _ r]) simp
      qed
    qed
  qed
qed

section \<open>Functions that leave the queues alone\<close>

text \<open>Functions and messages that only record that they ran; whether a function wants to run
  again is an arbitrary function of the record.\<close>

definition recording :: "(nat \<Rightarrow> nat list \<Rightarrow> bool) \<Rightarrow> nat list engine_env \<Rightarrow> bool" where
  "recording again X \<longleftrightarrow>
     (\<forall>f e. execute X f e = (again f (world e), e\<lparr>world := world e @ [f]\<rparr>)) \<and>
     (\<forall>f e. loading X f e = e) \<and> (\<forall>f e. unloading X f e = e) \<and>
     (\<forall>c e. executeAndDispose X c e = e\<lparr>world := world e @ [c]\<rparr>)"

fun keep_running :: "(nat \<Rightarrow> nat list \<Rightarrow> bool) \<Rightarrow> nat list \<Rightarrow> nat list \<Rightarrow> nat list" where
  "keep_running again log [] = []"
| "keep_running again log (f # fs) =
     (if again f log then f # keep_running again (log @ [f]) fs else keep_running again (log @ [f]) fs)"

lemma keep_running_length: "length (keep_running again log fs) \<le> length fs"
  by (induction fs arbitrary: log) (auto intro: le_SucI)

lemma function_loop_round:
  assumes rec: "recording again X" and inv: "mw_inv (f_queue e)" and elems: "mw_elems (f_queue e) = fs @ gs"
    and fs: "fs \<noteq> []"
  shows "\<exists>e'. function_loop X (int (length fs)) e = Some e' \<and> world e' = world e @ fs \<and> mw_inv (f_queue e') \<and>
      mw_elems (f_queue e') = gs @ keep_running again (world e) fs \<and>
      mw_capacity (f_queue e') = mw_capacity (f_queue e) \<and> mqueue e' = mqueue e \<and>
      loaded e' \<subseteq> loaded e \<and> loaded e - set fs \<subseteq> loaded e'"
  using inv elems fs
proof (induction fs arbitrary: e gs)
  case Nil
  then show ?case by simp
next
  case (Cons f fs)
  from Cons.prems(1) show ?case
  proof (cases rule: dequeue_cases)
    case empty
    with Cons.prems show ?thesis by simp
  next
    case (first x xs q)
    with Cons.prems have x: "x = f" "xs = fs @ gs" by auto
    define e1 where "e1 = (if again f (world e) then e\<lparr>world := world e @ [f], f_queue := snd (mw_enqueue (Some f) q)\<rparr>
       else e\<lparr>f_queue := q, world := world e @ [f], loaded := loaded e - {f}\<rparr>)"
    have e1: "world e1 = world e @ [f]" "mw_inv (f_queue e1)"
      "mw_elems (f_queue e1) = fs @ gs @ (if again f (world e) then [f] else [])"
      "mw_capacity (f_queue e1) = mw_capacity (f_queue e)" "mqueue e1 = mqueue e"
      "loaded e1 \<subseteq> loaded e" "loaded e - {f} \<subseteq> loaded e1"
    proof -
      have "\<exists>q'. mw_enqueue (Some f) q = (True, q') \<and> mw_inv q' \<and> mw_elems q' = mw_elems q @ [f] \<and>
          mw_capacity q' = mw_capacity q"
        using first(3)
      proof (cases rule: enqueue_cases [where x = f])
        case full
        have "length (mw_elems (f_queue e)) \<le> mw_capacity (f_queue e)"
          using mw_dist_le [OF Cons.prems(1)] by simp
        with full first show ?thesis by (metis Suc_n_not_le_n length_Cons)
      qed auto
      with first x show "world e1 = world e @ [f]" "mw_inv (f_queue e1)"
        "mw_elems (f_queue e1) = fs @ gs @ (if again f (world e) then [f] else [])"
        "mw_capacity (f_queue e1) = mw_capacity (f_queue e)" "mqueue e1 = mqueue e"
        "loaded e1 \<subseteq> loaded e" "loaded e - {f} \<subseteq> loaded e1" by (auto simp: e1_def)
    qed
    have loop: "function_loop X (int (length (f # fs))) e =
        (if fs = [] then Some e1 else function_loop X (int (length fs)) e1)"
      using rec first x
      by (subst function_loop.simps) (simp add: recording_def fn_unloaded_def e1_def Let_def)
    show ?thesis
    proof (cases "fs = []")
      case True
      with loop e1 show ?thesis by (intro exI [of _ e1]) auto
    next
      case False
      from Cons.IH [OF e1(2) e1(3) False] obtain e' where
        "function_loop X (int (length fs)) e1 = Some e'" "world e' = world e1 @ fs" "mw_inv (f_queue e')"
        "mw_elems (f_queue e') = (gs @ (if again f (world e) then [f] else [])) @ keep_running again (world e1) fs"
        "mw_capacity (f_queue e') = mw_capacity (f_queue e1)" "mqueue e' = mqueue e1"
        "loaded e' \<subseteq> loaded e1" "loaded e1 - set fs \<subseteq> loaded e'" by blast
      with loop False e1 show ?thesis by (intro exI [of _ e']) auto
    qed
  qed
qed

lemma processMessages_drains:
  assumes rec: "recording again X" and inv: "mw_inv (mqueue e)"
  shows "\<exists>e'. processMessages X e = Some e' \<and> world e' = world e @ mw_elems (mqueue e) \<and>
      mw_elems (mqueue e') = [] \<and> mw_inv (mqueue e') \<and> mw_capacity (mqueue e') = mw_capacity (mqueue e) \<and>
      f_queue e' = f_queue e \<and> loaded e' = loaded e"
  using inv
proof (induction "mw_elems (mqueue e)" arbitrary: e)
  case Nil
  from Nil(2) show ?case
  proof (cases rule: dequeue_cases)
    case empty
    with Nil show ?thesis by (subst processMessages.simps) auto
  next
    case (first x xs q)
    with Nil show ?thesis by simp
  qed
next
  case (Cons c cs)
  from Cons(3) show ?case
  proof (cases rule: dequeue_cases)
    case empty
    with Cons show ?thesis by simp
  next
    case (first x xs q)
    with Cons(2) have x: "x = c" "xs = cs" by auto
    let ?e = "e\<lparr>mqueue := q, world := world e @ [c]\<rparr>"
    have "processMessages X e = processMessages X ?e"
      using rec first x by (subst processMessages.simps) (simp add: recording_def)
    with Cons(1) [of ?e] first x show ?thesis by auto
  qed
qed

section \<open>Properties\<close>

text \<open>C22: one round of the engine over its functions. When the loaded functions leave the engine's
  queue alone, \<^verbatim>\<open>processFunctions\<close> returns, has run each of them exactly once in the order of the
  queue, and the queue then holds exactly those that want to run again, still in that order.\<close>

theorem functions_run_once_in_order:
  assumes "recording again X" and "mw_inv (f_queue e)"
  shows "\<exists>e'. processFunctions X e = Some e' \<and> world e' = world e @ mw_elems (f_queue e) \<and>
           mw_elems (f_queue e') = keep_running again (world e) (mw_elems (f_queue e)) \<and>
           mw_inv (f_queue e') \<and> loaded e - set (mw_elems (f_queue e)) \<subseteq> loaded e'"
proof (cases "mw_elems (f_queue e)")
  case Nil
  then have "mw_dequeue (f_queue e) = (None, f_queue e)"
    using assms(2) by (rule mw_dequeue_empty [rotated])
  with Nil assms(2) show ?thesis
    by (intro exI [of _ e]) (simp add: processFunctions_def function_loop.simps)
next
  case (Cons f fs)
  have "mw_count (f_queue e) = length (mw_elems (f_queue e))"
    using mw_count_dist [OF assms(2)] by simp
  with function_loop_round [OF assms, of "mw_elems (f_queue e)" "[]"] Cons show ?thesis
    unfolding processFunctions_def by auto
qed

definition recording_env :: "(nat \<Rightarrow> nat list \<Rightarrow> bool) \<Rightarrow> nat list engine_env" where
  "recording_env again =
     \<lparr>execute = (\<lambda>f e. (again f (world e), e\<lparr>world := world e @ [f]\<rparr>)), loading = (\<lambda>_ e. e),
      unloading = (\<lambda>_ e. e), executeAndDispose = (\<lambda>c e. e\<lparr>world := world e @ [c]\<rparr>),
      taskc_env = undefined, child_env = undefined, has_activity = (\<lambda>_. True),
      activity_active = (\<lambda>_. True), activity_running = (\<lambda>_. True), trigger_activity = id\<rparr>"

definition two_functions :: "nat list engine" where
  "two_functions = snd (runFunction (recording_env (\<lambda>_ _. True)) (Some 8)
     (snd (runFunction (recording_env (\<lambda>_ _. True)) (Some 7) (ee_new None []))))"

lemma two_functions_elems: "mw_inv (f_queue two_functions) \<and> mw_elems (f_queue two_functions) = [7, 8]"
proof -
  have n: "mw_inv (mw_new None 100 :: nat mwsr)" "mw_elems (mw_new None 100 :: nat mwsr) = []"
    "mw_capacity (mw_new None 100 :: nat mwsr) = 100" using mw_new_inv [of 100 None] by auto
  then obtain q1 where q1: "mw_enqueue (Some (7::nat)) (mw_new None 100) = (True, q1)" "mw_inv q1"
    "mw_elems q1 = [7]" "mw_capacity q1 = 100"
    using mw_enqueue_room [of "mw_new None 100" "7::nat"] by (metis append_Nil length_mw_elems list.size(3) zero_less_numeral)
  have "mw_dist q1 = 1" using length_mw_elems [of q1] q1(3) by simp
  with q1(4) have "mw_dist q1 < mw_capacity q1" by simp
  then obtain q2 where q2: "mw_enqueue (Some (8::nat)) q1 = (True, q2)" "mw_inv q2" "mw_elems q2 = [7] @ [8]"
    using mw_enqueue_room [OF q1(2)] q1(3) by metis
  have "f_queue two_functions = q2"
    using q1 q2 by (simp add: two_functions_def runFunction_def ee_new_def ORONUM_EE_MQUEUE_SIZE_def
        recording_env_def fn_loaded_def in_fatal_error_def ee_trigger_def Let_def)
  with q2 show ?thesis by simp
qed

theorem functions_run_once_in_order_witness:
  "\<exists>e'. processFunctions (recording_env (\<lambda>f log. f = 8)) two_functions = Some e' \<and>
        mw_elems (f_queue e') = [8]"
proof -
  have "recording (\<lambda>f log. f = 8) (recording_env (\<lambda>f log. f = 8))" by (simp add: recording_def recording_env_def)
  from functions_run_once_in_order [OF this, of two_functions] two_functions_elems show ?thesis by auto
qed

text \<open>\<^verbatim>\<open>processMessages\<close> returns after it has executed every message that was queued, exactly
  once and in the order in which they were sent, and leaves no message behind; a message sent
  with success by \<^verbatim>\<open>process\<close> is the last of them.\<close>

theorem messages_executed_in_order:
  assumes "recording again X" and "mw_inv (mqueue e)" and "ee_process X (Some c) e = (True, e1)"
    and "trigger_activity X = id"
  shows "\<exists>e2. processMessages X e1 = Some e2 \<and> world e2 = world e @ mw_elems (mqueue e) @ [c] \<and>
           \<not> hasWork e2 \<and> f_queue e2 = f_queue e"
proof -
  obtain q where q: "mw_enqueue (Some c) (mqueue e) = (True, q)" and e1: "e1 = ee_trigger X (e\<lparr>mqueue := q\<rparr>)"
    using assms(3) by (auto simp: ee_process_def split: if_splits prod.splits)
  from assms(2) have q': "mw_inv q \<and> mw_elems q = mw_elems (mqueue e) @ [c]"
    by (cases rule: enqueue_cases [where x = c]) (use q in auto)
  have "mqueue e1 = q" "world e1 = world e" "f_queue e1 = f_queue e" using e1 assms(4) by (simp_all add: ee_trigger_def)
  with processMessages_drains [OF assms(1), of e1] q' obtain e2 where
    "processMessages X e1 = Some e2" "world e2 = world e @ mw_elems (mqueue e) @ [c]" "mw_elems (mqueue e2) = []"
    "mw_inv (mqueue e2)" "f_queue e2 = f_queue e" by auto
  moreover from this have "\<not> hasWork e2"
    using mw_isEmpty_dist [of "mqueue e2"] length_mw_elems [of "mqueue e2"] by (simp add: hasWork_def del: length_mw_elems)
  ultimately show ?thesis by blast
qed

theorem messages_executed_in_order_witness:
  "\<exists>e2. processMessages (recording_env (\<lambda>_ _. True))
           (snd (ee_process (recording_env (\<lambda>_ _. True)) (Some 4) (ee_new None []))) = Some e2 \<and> world e2 = [4]"
proof -
  let ?X = "recording_env (\<lambda>_ _. True)" and ?e = "ee_new None [] :: nat list engine"
  have inv: "mw_inv (mqueue ?e)" and elems: "mw_elems (mqueue ?e) = []" and w: "world ?e = []"
    using mw_new_inv [of 100 "None :: nat option"] by (simp_all add: ee_new_def ORONUM_EE_MQUEUE_SIZE_def)
  have rec: "recording (\<lambda>_ _. True) ?X" and trig: "trigger_activity ?X = id"
    by (simp_all add: recording_def recording_env_def)
  have "fst (ee_process ?X (Some 4) ?e)"
    using inv
  proof (cases rule: enqueue_cases [where x = 4])
    case room
    then show ?thesis by (simp add: ee_process_def recording_env_def in_fatal_error_def ee_new_def)
  next
    case full
    moreover have "mw_capacity (mqueue ?e) = 100"
      using mw_new_inv [of 100 "None :: nat option"] by (simp add: ee_new_def ORONUM_EE_MQUEUE_SIZE_def)
    ultimately show ?thesis using elems by (metis list.size(3) zero_neq_numeral)
  qed
  then obtain e1 where "ee_process ?X (Some 4) ?e = (True, e1)" by (metis prod.collapse)
  from messages_executed_in_order [OF rec inv this trig] this elems w show ?thesis by auto
qed

text \<open>\<^verbatim>\<open>removeSelfFunction\<close> takes the given function out of the queue (its first occurrence) and
  keeps all others: those after it come first, those before it last, which is the same circular
  order. It reports success also when the function was not there, and then changes nothing.\<close>

theorem remove_function_keeps_others:
  assumes "mw_inv (f_queue e)"
  shows "\<exists>e'. removeSelfFunction (Some f) e = (True, e') \<and> mw_inv (f_queue e') \<and>
           mset (mw_elems (f_queue e')) = mset (mw_elems (f_queue e)) - {#f#} \<and>
           (f \<notin> set (mw_elems (f_queue e)) \<longrightarrow> mw_elems (f_queue e') = mw_elems (f_queue e)) \<and>
           (\<forall>xs ys. mw_elems (f_queue e) = xs @ f # ys \<and> f \<notin> set xs \<longrightarrow> mw_elems (f_queue e') = ys @ xs)"
proof -
  let ?q = "f_queue e"
  have "mw_count ?q = length (mw_elems ?q)" using mw_count_dist [OF assms] by simp
  with remove_loop_spec [OF assms, of "length (mw_elems ?q)" f] obtain q' where
    "remove_loop f (mw_count ?q) ?q = (True, q')" and inv: "mw_inv q'"
    and elems: "mw_elems q' = (if f \<in> set (mw_elems ?q)
       then tl (dropWhile (\<lambda>g. g \<noteq> f) (mw_elems ?q)) @ takeWhile (\<lambda>g. g \<noteq> f) (mw_elems ?q) else mw_elems ?q)"
    by (auto simp del: length_mw_elems)
  moreover have split: "tl (dropWhile (\<lambda>g. g \<noteq> f) zs) @ takeWhile (\<lambda>g. g \<noteq> f) zs = ys @ xs"
    if "zs = xs @ f # ys" "f \<notin> set xs" for xs ys zs
    using that by (simp add: dropWhile_append takeWhile_append)
  moreover have "mset (mw_elems q') = mset (mw_elems ?q) - {#f#}"
  proof (cases "f \<in> set (mw_elems ?q)")
    case False
    with elems show ?thesis by simp
  next
    case True
    then obtain xs ys where "mw_elems ?q = xs @ f # ys" "f \<notin> set xs" by (meson split_list_first)
    with split [of "mw_elems ?q" xs ys] elems show ?thesis by simp
  qed
  ultimately show ?thesis
    by (intro exI [of _ "e\<lparr>f_queue := q'\<rparr>"]) (auto simp: removeSelfFunction_def)
qed

theorem remove_function_keeps_others_witness:
  "mw_elems (f_queue (snd (removeSelfFunction (Some 7) two_functions))) = [8]"
  using remove_function_keeps_others [of two_functions 7] two_functions_elems by force

text \<open>a full function queue. \<^verbatim>\<open>runFunction\<close> then returns false but has already marked the function
  as loaded, and nothing unloads it: it counts as loaded and is in no queue.\<close>

theorem refused_function_stays_loaded:
  assumes "mw_inv (f_queue e)" and "length (mw_elems (f_queue e)) = mw_capacity (f_queue e)"
    and "has_activity X (world e)" and "\<not> in_fatal_error e"
    and "\<And>e. loading X f e = e" and "f \<notin> set (mw_elems (f_queue e))"
  shows "\<exists>e'. runFunction X (Some f) e = (False, e') \<and> f \<in> loaded e' \<and> f \<notin> set (mw_elems (f_queue e'))"
proof -
  from assms(1) have "mw_enqueue (Some f) (f_queue e) = (False, f_queue e)"
    by (cases rule: enqueue_cases [where x = f]) (use assms(2) in auto)
  with assms show ?thesis by (simp add: runFunction_def fn_loaded_def Let_def ee_trigger_def)
qed

definition full_engine :: "nat list engine" where
  "full_engine = (ee_new None [])\<lparr>f_queue := mw_new None 0\<rparr>"

theorem refused_function_stays_loaded_witness:
  "\<exists>e'. runFunction (recording_env (\<lambda>_ _. True)) (Some 3) full_engine = (False, e') \<and> 3 \<in> loaded e'"
proof -
  have q: "mw_inv (f_queue full_engine)" "mw_elems (f_queue full_engine) = []" "mw_capacity (f_queue full_engine) = 0"
    using mw_new_inv [of 0 "None :: nat option"] by (simp_all add: full_engine_def)
  then have "length (mw_elems (f_queue full_engine)) = mw_capacity (f_queue full_engine)" by (metis list.size(3))
  from refused_function_stays_loaded [OF q(1) this, of "recording_env (\<lambda>_ _. True)" 3] q show ?thesis
    by (auto simp: recording_env_def in_fatal_error_def full_engine_def ee_new_def)
qed

text \<open>a function that loads another one while the queue is full is lost: it was taken out of the
  queue to run, its place goes to the new function, and putting it back fails without notice. It
  is no longer executed, and it is never told that it was unloaded.\<close>

theorem running_function_lost:
  assumes "mw_inv (f_queue e)" and "mw_elems (f_queue e) = f # fs"
    and "length (mw_elems (f_queue e)) = mw_capacity (f_queue e)"
    and "f \<in> loaded e" and "f \<notin> set fs" and "g \<noteq> f"
    and "\<And>e. execute X f e = (True, snd (runFunction X (Some g) e))"
    and "\<And>e. loading X g e = e" and "\<And>w. has_activity X w" and "\<not> in_fatal_error e"
  shows "\<exists>e'. function_loop X 1 e = Some e' \<and> mw_elems (f_queue e') = fs @ [g] \<and>
           f \<notin> set (mw_elems (f_queue e')) \<and> f \<in> loaded e'"
  using assms(1)
proof (cases rule: dequeue_cases)
  case empty
  with assms(2) show ?thesis by simp
next
  case (first x xs q)
  then have x: "x = f" "xs = fs" using assms(2) by auto
  have len: "length (mw_elems q) < mw_capacity q"
    using first(4,5) x assms(2,3) by (metis impossible_Cons less_le_not_le linorder_not_le)
  from first(3) obtain q1 where q1: "mw_enqueue (Some g) q = (True, q1)" "mw_inv q1" "mw_elems q1 = fs @ [g]"
    "mw_capacity q1 = mw_capacity q"
  proof (cases rule: enqueue_cases [where x = g])
    case full
    with len show ?thesis by simp
  next
    case (room q1)
    with first(4) x that show ?thesis by simp
  qed
  have "length (mw_elems q1) = mw_capacity q1"
    using q1(3,4) first(5) assms(2,3) by (metis length_append_singleton length_Cons)
  with q1(2) have "mw_enqueue (Some f) q1 = (False, q1)"
    by (cases rule: enqueue_cases [where x = f]) auto
  with first(2) x q1 assms(4-) show ?thesis
    by (subst function_loop.simps)
      (simp add: runFunction_def fn_loaded_def in_fatal_error_def ee_trigger_def Let_def)
qed

definition spawning_env :: "nat \<Rightarrow> nat list engine_env" where
  "spawning_env g = (recording_env (\<lambda>_ _. True))
     \<lparr>execute := (\<lambda>f e. (True, snd (runFunction (recording_env (\<lambda>_ _. True)) (Some g) e)))\<rparr>"

theorem running_function_lost_witness:
  "\<exists>e e'. loaded e = {7} \<and> mw_elems (f_queue e) = [7] \<and> function_loop (spawning_env 9) 1 e = Some e' \<and>
     mw_elems (f_queue e') = [9] \<and> 7 \<in> loaded e'"
proof -
  have n: "mw_inv (mw_new None 1 :: nat mwsr)" "mw_elems (mw_new None 1 :: nat mwsr) = []"
    "mw_capacity (mw_new None 1 :: nat mwsr) = 1" using mw_new_inv [of 1 "None :: nat option"] by auto
  have "mw_dist (mw_new None 1 :: nat mwsr) = 0" using n(2) length_mw_elems [of "mw_new None 1 :: nat mwsr"] by simp
  with n obtain q where q: "mw_inv q" "mw_elems q = [7::nat]" "mw_capacity q = 1"
    using mw_enqueue_room [OF n(1), of "7::nat"] by (metis append_Nil zero_less_one)
  define e where "e = (ee_new None [] :: nat list engine)\<lparr>f_queue := q, loaded := {7}\<rparr>"
  have e: "mw_inv (f_queue e)" "mw_elems (f_queue e) = 7 # []" "loaded e = {7}" "\<not> in_fatal_error e"
    using q by (simp_all add: e_def in_fatal_error_def ee_new_def)
  have "length (mw_elems (f_queue e)) = mw_capacity (f_queue e)" using q by (simp add: e_def del: length_mw_elems)
  from running_function_lost [OF e(1,2) this _ _ _ _ _ _ e(4), of 9 "spawning_env 9"] e show ?thesis
    by (force simp: spawning_env_def recording_env_def runFunction_def fn_loaded_def ee_trigger_def Let_def in_fatal_error_def)
qed

end
