(* ===== verification/StateMachine.thy ===== *)
theory StateMachine
  imports OroPrelude "HOL-Library.Monad_Syntax"
begin

text \<open>
  The interpreter of hierarchical state machines, \<^verbatim>\<open>scripting::StateMachine\<close>
  (\<^verbatim>\<open>rtt/scripting/StateMachine.hpp\<close>, \<^verbatim>\<open>StateMachine.cpp\<close>): states with entry, run, handle and exit
  programs, transitions with guards, preconditions and priorities, and the machine's own status.

  States, programs, conditions and event handles are objects of other classes and are named by
  numbers. The record \<open>sm_env\<close> holds their virtual functions (\<^verbatim>\<open>ProgramInterface\<close>,
  \<^verbatim>\<open>ConditionInterface\<close>, \<^verbatim>\<open>StateInterface\<close>), which act on a world of type \<open>'w\<close>; a program or condition that
  calls back into its own machine is not modelled. A null pointer is \<open>None\<close>, and the result
  \<open>None\<close> of an operation is a failed assertion on a null state. The iterator pair
  \<^verbatim>\<open>reqstep\<close>, \<^verbatim>\<open>reqend\<close> is a position in the transitions of the state \<open>req_of\<close>.
\<close>

section \<open>State\<close>

datatype sm_status =
  Inactive | Stopping | SmStopped | Requesting | SmRunning | Paused | SmActive | Activating
  | Deactivating | Resetting | SmError | Unloaded

datatype sm_pending = Nill | Pausing | Gostop | Goreset

record transition =
  tr_cond :: nat
  tr_to :: "nat option"
  tr_priority :: int
  tr_line :: int
  tr_prog :: "nat option"

record 'w sm_env =
  getEntryProgram :: "nat \<Rightarrow> nat option"
  getExitProgram :: "nat \<Rightarrow> nat option"
  getRunProgram :: "nat \<Rightarrow> nat option"
  getHandleProgram :: "nat \<Rightarrow> nat option"
  cnd_reset :: "nat \<Rightarrow> 'w \<Rightarrow> 'w"
  cnd_evaluate :: "nat \<Rightarrow> 'w \<Rightarrow> bool \<times> 'w"
  prog_reset :: "nat \<Rightarrow> 'w \<Rightarrow> 'w"
  prog_start :: "nat \<Rightarrow> 'w \<Rightarrow> bool \<times> 'w"
  prog_execute :: "nat \<Rightarrow> 'w \<Rightarrow> 'w"
  prog_step :: "nat \<Rightarrow> 'w \<Rightarrow> 'w"
  prog_pause :: "nat \<Rightarrow> 'w \<Rightarrow> 'w"
  prog_inError :: "nat \<Rightarrow> 'w \<Rightarrow> bool"
  prog_isStopped :: "nat \<Rightarrow> 'w \<Rightarrow> bool"
  init_command :: "('w \<Rightarrow> bool \<times> 'w) option"

record 'w sm =
  smpStatus :: sm_pending
  smStatus :: sm_status
  initstate :: "nat option"
  finistate :: "nat option"
  current :: "nat option"
  nextst :: "nat option"
  currentProg :: "nat option"
  currentExit :: "nat option"
  currentHandle :: "nat option"
  currentEntry :: "nat option"
  currentRun :: "nat option"
  currentTrans :: "nat option"
  req_of :: "nat option"
  reqstep :: nat
  prec_left :: "(nat \<times> int) list"
  checking_precond :: bool
  mstep :: bool
  evaluating :: int
  stateMap :: "nat option \<Rightarrow> transition list"
  precondMap :: "nat option \<Rightarrow> (nat \<times> int) list"
  eventMap :: "nat option \<Rightarrow> nat list"
  connected :: "nat set"
  sm_world :: 'w

definition sm_new :: "'w \<Rightarrow> 'w sm" where
  "sm_new w =
     \<lparr>smpStatus = Nill, smStatus = Unloaded, initstate = None, finistate = None, current = None,
      nextst = None, currentProg = None, currentExit = None, currentHandle = None,
      currentEntry = None, currentRun = None, currentTrans = None, req_of = None, reqstep = 0,
      prec_left = [], checking_precond = False, mstep = False, evaluating = 0,
      stateMap = (\<lambda>_. []), precondMap = (\<lambda>_. []), eventMap = (\<lambda>_. []), connected = {}, sm_world = w\<rparr>"

definition loading :: "'w sm \<Rightarrow> 'w sm" where
  "loading m = m\<lparr>smStatus := Inactive\<rparr>"

definition inError :: "'w sm \<Rightarrow> bool" where
  "inError m \<longleftrightarrow> smStatus m = SmError"

definition isActive :: "'w sm \<Rightarrow> bool" where
  "isActive m \<longleftrightarrow> current m \<noteq> None"

definition inTransition :: "'w sm \<Rightarrow> bool" where
  "inTransition m \<longleftrightarrow>
     currentProg m \<noteq> None \<and> currentProg m \<noteq> currentRun m \<and> currentProg m \<noteq> currentHandle m"

definition interruptible :: "'w sm \<Rightarrow> bool" where
  "interruptible m \<longleftrightarrow> currentProg m = None \<or> currentProg m = currentRun m"

section \<open>Building the machine\<close>

definition preconditionSet :: "nat option \<Rightarrow> nat \<Rightarrow> int \<Rightarrow> 'w sm \<Rightarrow> 'w sm" where
  "preconditionSet s c line m =
     (if current m \<noteq> None then m
      else m\<lparr>precondMap := (precondMap m)(s := precondMap m s @ [(c, line)])\<rparr>)"

fun insert_transition :: "transition \<Rightarrow> transition list \<Rightarrow> transition list" where
  "insert_transition t [] = [t]"
| "insert_transition t (u # us) =
     (if tr_priority t \<le> tr_priority u then u # insert_transition t us else t # u # us)"

definition transitionSet :: "nat option \<Rightarrow> nat option \<Rightarrow> nat \<Rightarrow> nat option \<Rightarrow> int \<Rightarrow> int \<Rightarrow> 'w sm \<Rightarrow> 'w sm" where
  "transitionSet from to c p priority line m =
     (if current m \<noteq> None then m
      else m\<lparr>stateMap := (stateMap m)(from := insert_transition
        \<lparr>tr_cond = c, tr_to = to, tr_priority = priority, tr_line = line, tr_prog = p\<rparr> (stateMap m from))\<rparr>)"

definition setInitialState :: "nat option \<Rightarrow> 'w sm \<Rightarrow> 'w sm" where
  "setInitialState s m = m\<lparr>initstate := s\<rparr>"

definition setFinalState :: "nat option \<Rightarrow> 'w sm \<Rightarrow> 'w sm" where
  "setFinalState s m = m\<lparr>finistate := s\<rparr>"

section \<open>Programs and conditions\<close>

definition world_do :: "('w \<Rightarrow> 'w) \<Rightarrow> 'w sm \<Rightarrow> 'w sm" where
  "world_do f m = m\<lparr>sm_world := f (sm_world m)\<rparr>"

definition evaluate :: "'w sm_env \<Rightarrow> nat \<Rightarrow> 'w sm \<Rightarrow> bool \<times> 'w sm" where
  "evaluate E c m = (case cnd_evaluate E c (sm_world m) of (b, w) \<Rightarrow> (b, m\<lparr>sm_world := w\<rparr>))"

definition reset_all :: "'w sm_env \<Rightarrow> transition list \<Rightarrow> 'w sm \<Rightarrow> 'w sm" where
  "reset_all E ts m = fold (\<lambda>t. world_do (cnd_reset E (tr_cond t))) ts m"

definition enableEvents :: "nat option \<Rightarrow> 'w sm \<Rightarrow> 'w sm" where
  "enableEvents s m = m\<lparr>connected := connected m \<union> set (eventMap m s)\<rparr>"

definition disableEvents :: "nat option \<Rightarrow> 'w sm \<Rightarrow> 'w sm" where
  "disableEvents s m = m\<lparr>connected := connected m - set (eventMap m s)\<rparr>"

text \<open>Resetting and starting a program; a program that does not start is an error.\<close>

definition restart :: "'w sm_env \<Rightarrow> nat \<Rightarrow> 'w sm \<Rightarrow> 'w sm" where
  "restart E p m =
     (case prog_start E p (prog_reset E p (sm_world m)) of
        (ok, w) \<Rightarrow> (if ok then m\<lparr>sm_world := w\<rparr> else m\<lparr>sm_world := w, smStatus := SmError\<rparr>))"

text \<open>The common end of the four scheduling functions below.\<close>

definition schedule :: "'w sm_env \<Rightarrow> nat option \<Rightarrow> 'w sm \<Rightarrow> 'w sm" where
  "schedule E prog m =
     (case prog of
        None \<Rightarrow> m
      | Some p \<Rightarrow>
          let m1 = restart E p m
          in if currentProg m1 = None then m1\<lparr>currentProg := Some p\<rparr> else m1)"

definition leaveState :: "'w sm_env \<Rightarrow> nat option \<Rightarrow> 'w sm \<Rightarrow> 'w sm option" where
  "leaveState E s m =
     (case s of
        None \<Rightarrow> None
      | Some st \<Rightarrow>
          let m1 = (disableEvents s m)\<lparr>currentExit := getExitProgram E st\<rparr>
          in Some (schedule E (currentExit m1) m1))"

definition runState :: "'w sm_env \<Rightarrow> nat option \<Rightarrow> 'w sm \<Rightarrow> 'w sm option" where
  "runState E s m =
     (case s of
        None \<Rightarrow> None
      | Some st \<Rightarrow>
          let m1 = m\<lparr>currentRun := getRunProgram E st\<rparr>
          in Some (schedule E (currentRun m1) m1))"

definition handleState :: "'w sm_env \<Rightarrow> nat option \<Rightarrow> 'w sm \<Rightarrow> 'w sm option" where
  "handleState E s m =
     (case s of
        None \<Rightarrow> None
      | Some st \<Rightarrow>
          let m1 = m\<lparr>currentHandle := getHandleProgram E st\<rparr>
          in Some (schedule E (currentHandle m1) m1))"

definition enterState :: "'w sm_env \<Rightarrow> nat option \<Rightarrow> 'w sm \<Rightarrow> 'w sm option" where
  "enterState E s m =
     (case s of
        None \<Rightarrow> None
      | Some st \<Rightarrow>
          let m1 = enableEvents s (reset_all E (stateMap m s) m);
              m2 = m1\<lparr>nextst := s, currentEntry := getEntryProgram E st\<rparr>
          in Some (schedule E (currentEntry m2) m2))"

section \<open>Pending programs\<close>

text \<open>\<^verbatim>\<open>executeProgram\<close> takes one of the \<^verbatim>\<open>current...\<close> members by reference.\<close>

datatype slot = STrans | SExit | SEntry | SHandle | SRun

fun slot_get :: "slot \<Rightarrow> 'w sm \<Rightarrow> nat option" where
  "slot_get STrans m = currentTrans m"
| "slot_get SExit m = currentExit m"
| "slot_get SEntry m = currentEntry m"
| "slot_get SHandle m = currentHandle m"
| "slot_get SRun m = currentRun m"

fun slot_clear :: "slot \<Rightarrow> 'w sm \<Rightarrow> 'w sm" where
  "slot_clear STrans m = m\<lparr>currentTrans := None\<rparr>"
| "slot_clear SExit m = m\<lparr>currentExit := None\<rparr>"
| "slot_clear SEntry m = m\<lparr>currentEntry := None\<rparr>"
| "slot_clear SHandle m = m\<lparr>currentHandle := None\<rparr>"
| "slot_clear SRun m = m\<lparr>currentRun := None\<rparr>"

definition executeProgram :: "'w sm_env \<Rightarrow> slot \<Rightarrow> bool \<Rightarrow> 'w sm \<Rightarrow> bool \<times> 'w sm" where
  "executeProgram E sl stepping m =
     (case slot_get sl m of
        None \<Rightarrow> (False, m)
      | Some p \<Rightarrow>
          let m1 = world_do (if stepping then prog_step E p else prog_execute E p) (m\<lparr>currentProg := Some p\<rparr>)
          in if prog_inError E p (sm_world m1) then (False, m1\<lparr>smStatus := SmError, smpStatus := Nill\<rparr>)
             else if \<not> prog_isStopped E p (sm_world m1) then (False, m1)
             else (True, (slot_clear sl m1)\<lparr>currentProg := None\<rparr>))"

definition first_of :: "nat option \<Rightarrow> nat option \<Rightarrow> nat option" where
  "first_of a b = (if a \<noteq> None then a else b)"

text \<open>\<^verbatim>\<open>executePending\<close> in its five parts. Each part runs one program if there is one; it continues
  with the next part unless the program is unfinished or the machine is stepping.\<close>

definition pending_part :: "'w sm_env \<Rightarrow> slot \<Rightarrow> bool \<Rightarrow> ('w sm \<Rightarrow> nat option) \<Rightarrow> ('w sm \<Rightarrow> bool \<times> 'w sm) \<Rightarrow>
    'w sm \<Rightarrow> bool \<times> 'w sm" where
  "pending_part E sl stepping following k m =
     (if slot_get sl m = None then k m
      else (case executeProgram E sl stepping m of (finished, m1) \<Rightarrow>
              if \<not> finished then (False, m1)
              else if stepping then (False, m1\<lparr>currentProg := following m1\<rparr>)
              else k m1))"

definition pending_run :: "'w sm_env \<Rightarrow> bool \<Rightarrow> 'w sm \<Rightarrow> bool \<times> 'w sm" where
  "pending_run E stepping m = pending_part E SRun stepping currentProg (\<lambda>m. (True, m)) m"

definition pending_handle :: "'w sm_env \<Rightarrow> bool \<Rightarrow> 'w sm \<Rightarrow> bool \<times> 'w sm" where
  "pending_handle E stepping m = pending_part E SHandle stepping currentRun (pending_run E stepping) m"

definition pending_entry :: "'w sm_env \<Rightarrow> bool \<Rightarrow> 'w sm \<Rightarrow> bool \<times> 'w sm" where
  "pending_entry E stepping m = pending_part E SEntry stepping currentRun (pending_handle E stepping) m"

definition pending_change :: "'w sm_env \<Rightarrow> bool \<Rightarrow> 'w sm \<Rightarrow> bool \<times> 'w sm" where
  "pending_change E stepping m =
     (if current m \<noteq> nextst m then
        (case nextst m of
           None \<Rightarrow> (True, m\<lparr>current := None\<rparr>)
         | Some st \<Rightarrow>
             let m1 = m\<lparr>req_of := Some st, reqstep := 0,
                        evaluating := (case stateMap m (Some st) of [] \<Rightarrow> 0 | t # _ \<Rightarrow> tr_line t)\<rparr>
             in pending_entry E stepping (m1\<lparr>current := Some st\<rparr>))
      else pending_entry E stepping m)"

definition pending_exit :: "'w sm_env \<Rightarrow> bool \<Rightarrow> 'w sm \<Rightarrow> bool \<times> 'w sm" where
  "pending_exit E stepping m =
     pending_part E SExit stepping (\<lambda>m. first_of (currentEntry m) (currentRun m)) (pending_change E stepping) m"

definition executePending :: "'w sm_env \<Rightarrow> bool \<Rightarrow> 'w sm \<Rightarrow> bool \<times> 'w sm" where
  "executePending E stepping m =
     (if inError m then (False, m)
      else if currentTrans m = None then pending_exit E stepping m
      else (case executeProgram E (if currentHandle m \<noteq> None then SHandle else STrans) stepping m of
              (finished, m1) \<Rightarrow>
                if \<not> finished then (False, m1)
                else if stepping then
                  (False, m1\<lparr>currentProg := first_of (currentExit m1) (first_of (currentEntry m1) (currentRun m1))\<rparr>)
                else pending_exit E stepping m1))"

section \<open>Changing state\<close>

definition start_transition :: "'w sm_env \<Rightarrow> nat option \<Rightarrow> 'w sm \<Rightarrow> 'w sm" where
  "start_transition E transProg m = (case transProg of None \<Rightarrow> m | Some p \<Rightarrow> restart E p m)"

definition changeState :: "'w sm_env \<Rightarrow> nat option \<Rightarrow> nat option \<Rightarrow> bool \<Rightarrow> 'w sm \<Rightarrow> 'w sm option" where
  "changeState E newState transProg stepping m =
     do {
       m1 \<leftarrow>
         (if newState = current m then
            (if transProg \<noteq> None then
               Some ((start_transition E transProg m)\<lparr>currentTrans := transProg, currentProg := transProg,
                        req_of := current m, reqstep := 0\<rparr>)
             else if currentHandle m = None then handleState E (current m) m
             else Some m)
          else do {
            let m2 = (start_transition E transProg (m\<lparr>currentRun := None, currentHandle := None\<rparr>))
                       \<lparr>currentTrans := transProg\<rparr>;
            m3 \<leftarrow> (if (case currentExit m2 of None \<Rightarrow> False | Some p \<Rightarrow> prog_inError E p (sm_world m2))
                   then Some (m2\<lparr>currentExit := None\<rparr>)
                   else leaveState E (current m2) m2);
            enterState E newState m3
          });
       let m4 = (if \<not> stepping then snd (executePending E stepping m1) else m1);
       runState E newState m4
     }"

section \<open>Choosing a transition\<close>

text \<open>\<^verbatim>\<open>checkConditions\<close>: 1 is success, -1 failure, 0 (only when stepping) not decided yet.\<close>

function check_loop :: "'w sm_env \<Rightarrow> bool \<Rightarrow> 'w sm \<Rightarrow> int \<times> 'w sm" where
  "check_loop E stepping m =
     (case prec_left m of
        [] \<Rightarrow> (1, m\<lparr>checking_precond := False\<rparr>)
      | (c, line) # rest \<Rightarrow>
          if \<not> checking_precond m \<and> stepping then (0, m\<lparr>evaluating := line, checking_precond := True\<rparr>)
          else
            (case evaluate E c m of (ok, m1) \<Rightarrow>
               if \<not> ok then (- 1, m1\<lparr>checking_precond := False\<rparr>)
               else
                 let m2 = m1\<lparr>prec_left := rest\<rparr> in
                 if stepping then
                   (0, m2\<lparr>evaluating := (case rest of [] \<Rightarrow> evaluating m2 | (_, l) # _ \<Rightarrow> l),
                          checking_precond := True\<rparr>)
                 else check_loop E stepping m2))"
  by pat_completeness auto
termination
  by (relation "measure (\<lambda>(E, stepping, m). length (prec_left m))") auto

declare check_loop.simps [simp del]

definition checkConditions :: "'w sm_env \<Rightarrow> nat option \<Rightarrow> bool \<Rightarrow> 'w sm \<Rightarrow> int \<times> 'w sm" where
  "checkConditions E state stepping m =
     check_loop E stepping
       (if \<not> checking_precond m \<or> \<not> stepping then m\<lparr>prec_left := precondMap m state\<rparr> else m)"

text \<open>The first transition of a list whose guard and whose target's preconditions hold.\<close>

fun first_enabled :: "'w sm_env \<Rightarrow> (transition \<Rightarrow> bool) \<Rightarrow> transition list \<Rightarrow> 'w sm \<Rightarrow> transition option \<times> 'w sm" where
  "first_enabled E P [] m = (None, m)"
| "first_enabled E P (t # ts) m =
     (if \<not> P t then first_enabled E P ts m
      else case evaluate E (tr_cond t) m of (ok, m1) \<Rightarrow>
        if \<not> ok then first_enabled E P ts m1
        else case checkConditions E (tr_to t) False m1 of (cres, m2) \<Rightarrow>
          if cres = 1 then (Some t, m2) else first_enabled E P ts m2)"

text \<open>The global transitions, and the default when none is enabled.\<close>

definition try_globals :: "'w sm_env \<Rightarrow> bool \<Rightarrow> bool \<Rightarrow> 'w sm \<Rightarrow> 'w sm option" where
  "try_globals E stepping restart_list m =
     (case first_enabled E (\<lambda>_. True) (stateMap m None) m of
        (Some t, m1) \<Rightarrow>
          changeState E (if tr_to t = None then current m1 else tr_to t) (tr_prog t) stepping m1
      | (None, m1) \<Rightarrow>
          let m2 = (if restart_list
                    then m1\<lparr>req_of := current m1, reqstep := 0,
                            evaluating := (case stateMap m1 (current m1) of [] \<Rightarrow> 0 | t # _ \<Rightarrow> tr_line t)\<rparr>
                    else m1)
          in changeState E (current m2) None stepping m2)"

text \<open>The loop of \<^verbatim>\<open>requestNextState\<close> over the transitions from \<^verbatim>\<open>reqstep\<close> on; it is entered with at
  least one of them left.\<close>

fun next_loop :: "'w sm_env \<Rightarrow> bool \<Rightarrow> transition list \<Rightarrow> 'w sm \<Rightarrow> 'w sm option" where
  "next_loop E stepping [] m = None"
| "next_loop E stepping (t # rest) m =
     (let decline = (\<lambda>m1.
            case rest of
              [] \<Rightarrow> try_globals E stepping True m1
            | u # _ \<Rightarrow>
                let m2 = m1\<lparr>reqstep := reqstep m1 + 1, evaluating := tr_line u\<rparr>
                in if stepping then Some m2 else next_loop E stepping rest m2)
      in case evaluate E (tr_cond t) m of (ok, m1) \<Rightarrow>
           if \<not> ok then decline m1
           else case checkConditions E (tr_to t) stepping m1 of (cres, m2) \<Rightarrow>
             if cres = 0 then Some m2
             else if cres = 1 then changeState E (tr_to t) (tr_prog t) stepping m2
             else decline m2)"

definition requestNextState :: "'w sm_env \<Rightarrow> bool \<Rightarrow> 'w sm \<Rightarrow> 'w sm option" where
  "requestNextState E stepping m =
     (if current m = None then Some m
      else if \<not> interruptible m \<or> currentTrans m \<noteq> None then Some m
      else
        let m1 = (if req_of m = current m \<and> reqstep m = 0 then reset_all E (stateMap m None) m else m)
        in if reqstep m1 = length (stateMap m1 (req_of m1)) then try_globals E stepping False m1
           else next_loop E stepping (drop (reqstep m1) (stateMap m1 (req_of m1))) m1)"

definition requestStateChange :: "'w sm_env \<Rightarrow> nat option \<Rightarrow> 'w sm \<Rightarrow> (bool \<times> 'w sm) option" where
  "requestStateChange E s_n m =
     (if current m = None then Some (False, m)
      else if \<not> interruptible m then Some (False, m)
      else if current m = s_n then do { m1 \<leftarrow> changeState E s_n None False m; Some (True, m1) }
      else
        case first_enabled E (\<lambda>t. tr_to t = s_n) (stateMap m (current m)) m of
          (Some t, m1) \<Rightarrow> do { m2 \<leftarrow> changeState E s_n (tr_prog t) False m1; Some (True, m2) }
        | (None, m1) \<Rightarrow>
            (case first_enabled E (\<lambda>t. tr_to t = s_n) (stateMap m1 None) (reset_all E (stateMap m1 None) m1) of
               (Some t, m2) \<Rightarrow> do { m3 \<leftarrow> changeState E s_n (tr_prog t) False m2; Some (True, m3) }
             | (None, m2) \<Rightarrow>
                 if finistate m2 = s_n \<or> (initstate m2 = s_n \<and> current m2 = finistate m2)
                 then do { m3 \<leftarrow> changeState E s_n None False m2; Some (True, m3) }
                 else Some (False, m2)))"

definition nextState :: "'w sm_env \<Rightarrow> 'w sm \<Rightarrow> nat option \<times> 'w sm" where
  "nextState E m =
     (if current m = None then (None, m)
      else case first_enabled E (\<lambda>_. True) (stateMap m (current m)) m of
             (Some t, m1) \<Rightarrow> (tr_to t, m1)
           | (None, m1) \<Rightarrow>
               (case first_enabled E (\<lambda>_. True) (stateMap m1 None) m1 of
                  (Some t, m2) \<Rightarrow> (tr_to t, m2)
                | (None, m2) \<Rightarrow> (current m2, m2)))"

text \<open>An event handler: the \<^verbatim>\<open>else\<close> target and program are parameters that the body does not use.\<close>

definition eventTransition :: "'w sm_env \<Rightarrow> nat option \<Rightarrow> nat \<Rightarrow> nat option \<Rightarrow> nat option \<Rightarrow> nat option \<Rightarrow>
    nat option \<Rightarrow> 'w sm \<Rightarrow> 'w sm option" where
  "eventTransition E from c p to elsep elseto m =
     (if current m = None then Some m
      else
        let from' = (if from = None then current m else from);
            to' = (if to = None then current m else to)
        in if from' = current m \<and> \<not> inTransition m then
             (case evaluate E c m of (ok, m1) \<Rightarrow>
                if \<not> ok then Some m1
                else case checkConditions E to' False m1 of (cres, m2) \<Rightarrow>
                  if cres = 1 then changeState E to' p False m2 else Some m2)
           else Some m)"

section \<open>Operations\<close>

definition requestInitialState :: "'w sm_env \<Rightarrow> 'w sm \<Rightarrow> (bool \<times> 'w sm) option" where
  "requestInitialState E m =
     (if interruptible m \<and> (current m = initstate m \<or> current m = finistate m) then
        do { (_, m1) \<leftarrow> requestStateChange E (initstate m) m; Some (True, m1) }
      else Some (False, m))"

definition requestFinalState :: "'w sm_env \<Rightarrow> 'w sm \<Rightarrow> (bool \<times> 'w sm) option" where
  "requestFinalState E m =
     (if current m = None \<or> (\<not> inError m \<and> \<not> interruptible m) then Some (False, m)
      else requestStateChange E (finistate m) m)"

definition not_usable :: "'w sm \<Rightarrow> bool" where
  "not_usable m \<longleftrightarrow> smStatus m = Inactive \<or> smStatus m = Unloaded"

definition pause :: "'w sm_env \<Rightarrow> 'w sm \<Rightarrow> bool \<times> 'w sm" where
  "pause E m =
     (if not_usable m then (False, m)
      else
        let m1 = (case currentProg m of None \<Rightarrow> m
                  | Some p \<Rightarrow> world_do (prog_execute E p) (world_do (prog_pause E p) m))
        in (True, m1\<lparr>smpStatus := Pausing\<rparr>))"

definition step :: "'w sm \<Rightarrow> bool \<times> 'w sm" where
  "step m =
     (if smStatus m = Paused \<and> \<not> mstep m then (True, m\<lparr>mstep := True\<rparr>)
      else if smStatus m = SmActive then (True, m\<lparr>smStatus := Requesting\<rparr>)
      else (False, m))"

definition automatic :: "'w sm_env \<Rightarrow> 'w sm \<Rightarrow> (bool \<times> 'w sm) option" where
  "automatic E m =
     (if not_usable m \<or> smStatus m = SmError then Some (False, m)
      else do { m1 \<leftarrow> runState E (current m) (m\<lparr>smStatus := SmRunning\<rparr>); Some (True, m1) })"

definition reactive :: "'w sm \<Rightarrow> bool \<times> 'w sm" where
  "reactive m =
     (if not_usable m \<or> smStatus m = SmError then (False, m) else (True, m\<lparr>smStatus := SmActive\<rparr>))"

definition stop :: "'w sm \<Rightarrow> bool \<times> 'w sm" where
  "stop m = (if not_usable m then (False, m) else (True, m\<lparr>smpStatus := Gostop\<rparr>))"

definition reset :: "'w sm \<Rightarrow> bool \<times> 'w sm" where
  "reset m = (if smStatus m = SmStopped then (True, m\<lparr>smpStatus := Goreset\<rparr>) else (False, m))"

definition execute_pending_status :: "'w sm_env \<Rightarrow> 'w sm \<Rightarrow> 'w sm option" where
  "execute_pending_status E m =
     (case smpStatus m of
        Pausing \<Rightarrow> Some (m\<lparr>smStatus := Paused, smpStatus := Nill\<rparr>)
      | Gostop \<Rightarrow>
          do {
            (ok, m1) \<leftarrow> requestFinalState E (snd (executePending E False m));
            Some (if ok then m1\<lparr>smStatus := (if inTransition m1 then Stopping else SmStopped), smpStatus := Nill\<rparr>
                  else m1)
          }
      | Goreset \<Rightarrow>
          (case executePending E False m of (done, m1) \<Rightarrow>
             do {
               m2 \<leftarrow> (if done then
                        do {
                          (_, m3) \<leftarrow> requestInitialState E m1;
                          Some (m3\<lparr>smStatus := (if inTransition m3 then Resetting else SmActive)\<rparr>)
                        }
                      else Some m1);
               Some (m2\<lparr>smpStatus := Nill\<rparr>)
             })
      | Nill \<Rightarrow> Some m)"

definition execute_status :: "'w sm_env \<Rightarrow> 'w sm \<Rightarrow> 'w sm option" where
  "execute_status E m =
     (let pend = executePending E False m; done = fst pend; m1 = snd pend in
      case smStatus m of
        Requesting \<Rightarrow>
          if done then do { m2 \<leftarrow> requestNextState E False m1; Some (m2\<lparr>smStatus := SmActive\<rparr>) } else Some m1
      | SmActive \<Rightarrow> Some m1
      | SmRunning \<Rightarrow> if \<not> done then Some m1 else requestNextState E False m1
      | Paused \<Rightarrow>
          if mstep m then
            (case executePending E True m of (ok, m2) \<Rightarrow>
               do { m3 \<leftarrow> (if ok then requestNextState E True m2 else Some m2); Some (m3\<lparr>mstep := False\<rparr>) })
          else Some m
      | Activating \<Rightarrow> Some (if \<not> inTransition m1 then m1\<lparr>smStatus := SmActive\<rparr> else m1)
      | Stopping \<Rightarrow> Some (if done then m1\<lparr>smStatus := SmStopped\<rparr> else m1)
      | Deactivating \<Rightarrow> Some (if done then m1\<lparr>smStatus := Inactive\<rparr> else m1)
      | Resetting \<Rightarrow> Some (if done then m1\<lparr>smStatus := SmActive\<rparr> else m1)
      | SmStopped \<Rightarrow> Some (if current m1 \<noteq> finistate m1 then m1\<lparr>smStatus := SmActive\<rparr> else m1)
      | _ \<Rightarrow> Some m)"

definition execute :: "'w sm_env \<Rightarrow> 'w sm \<Rightarrow> 'w sm option" where
  "execute E m =
     (if not_usable m then Some (m\<lparr>smpStatus := Nill\<rparr>)
      else if smpStatus m \<noteq> Nill then execute_pending_status E m
      else execute_status E m)"

definition activate :: "'w sm_env \<Rightarrow> 'w sm \<Rightarrow> (bool \<times> 'w sm) option" where
  "activate E m =
     (if smStatus m \<noteq> Inactive then Some (False, m)
      else
        case checkConditions E (initstate m) False (m\<lparr>smpStatus := Nill\<rparr>) of (cres, m1) \<Rightarrow>
          if cres \<noteq> 1 then Some (False, m1)
          else
            (case (case init_command E of None \<Rightarrow> (True, m1)
                   | Some c \<Rightarrow> (case c (sm_world m1) of (ok, w) \<Rightarrow> (ok, m1\<lparr>sm_world := w\<rparr>))) of
               (ok, m2) \<Rightarrow>
                 if \<not> ok then Some (False, m2)
                 else do {
                   m3 \<leftarrow> enterState E (initstate m2) m2;
                   let m4 = enableEvents None (m3\<lparr>req_of := nextst m3, reqstep := 0\<rparr>);
                   Some (True,
                     if inError m4 then m4
                     else case executePending E False m4 of (done, m5) \<Rightarrow>
                       if done then m5\<lparr>smStatus := SmActive\<rparr>
                       else if \<not> inError m5 then m5\<lparr>smStatus := Activating\<rparr> else m5)
                 }))"

definition drop_if_error :: "'w sm_env \<Rightarrow> 'w sm \<Rightarrow> nat option \<Rightarrow> nat option" where
  "drop_if_error E m po = (case po of None \<Rightarrow> None | Some p \<Rightarrow> if prog_inError E p (sm_world m) then None else Some p)"

definition deactivate :: "'w sm_env \<Rightarrow> 'w sm \<Rightarrow> (bool \<times> 'w sm) option" where
  "deactivate E m =
     (if smStatus m = Inactive then Some (False, m)
      else do {
        let m1 = disableEvents None m;
        let m2 = m1\<lparr>currentExit := drop_if_error E m1 (currentExit m1), currentTrans := drop_if_error E m1 (currentTrans m1)\<rparr>;
        m3 \<leftarrow> (if nextst m2 \<noteq> None \<and> current m2 \<noteq> None then leaveState E (current m2) m2
               else Some (m2\<lparr>currentExit := None, currentTrans := None\<rparr>));
        let m4 = m3\<lparr>currentProg := None, currentEntry := None, currentHandle := None, currentRun := None, nextst := None\<rparr>;
        Some (True, case executePending E False m4 of (done, m5) \<Rightarrow>
                      m5\<lparr>smStatus := (if done then Inactive else Deactivating)\<rparr>)
      })"

text \<open>What happens when the engine unloads the machine.\<close>

definition unloading :: "'w sm_env \<Rightarrow> 'w sm \<Rightarrow> 'w sm option" where
  "unloading E m =
     (if \<not> isActive m then Some m
      else do {
        m1 \<leftarrow> (if smStatus m \<noteq> SmRunning then map_option snd (requestFinalState E m) else Some m);
        let m2 = (if smStatus m1 = SmRunning then snd (stop m1) else m1);
        if current m2 \<noteq> finistate m2 then execute E m2 else Some m2
      })"

end
