(* ===== verification/StateMachineSpec.thy ===== *)
theory StateMachineSpec
  imports StateMachine "HOL-Library.Multiset"
begin

text \<open>
  What a state machine means: a reference semantics of one round of an automatic machine, in
  which programs finish at once, and the proof that the interpreter of theory \<open>StateMachine\<close>
  implements it; and the order in which transitions are tried.
\<close>

section \<open>Priorities\<close>

text \<open>A declaration of a transition: source, target, guard, program, priority, line.\<close>

type_synonym trans_decl = "nat option \<times> transition"

definition declare_transition :: "trans_decl \<Rightarrow> 'w sm \<Rightarrow> 'w sm" where
  "declare_transition d m =
     (case d of (from, t) \<Rightarrow>
        transitionSet from (tr_to t) (tr_cond t) (tr_prog t) (tr_priority t) (tr_line t) m)"

lemma insert_transition_sort_key:
  "insert_transition t (sort_key (\<lambda>t. - tr_priority t) ts) = sort_key (\<lambda>t. - tr_priority t) (ts @ [t])"
proof -
  let ?k = "\<lambda>t. - tr_priority t"
  have set: "set (insert_transition t us) = insert t (set us)" for us
    by (induction us) auto
  have srt: "sorted (map ?k (insert_transition t us))" if "sorted (map ?k us)" for us
    using that by (induction us) (auto simp: set)
  have fil: "filter (\<lambda>u. ?k u = k) (insert_transition t us) =
      filter (\<lambda>u. ?k u = k) us @ (if ?k t = k then [t] else [])" if "sorted (map ?k us)" for us k
    using that
  proof (induction us)
    case (Cons u us)
    show ?case
    proof (cases "tr_priority t \<le> tr_priority u")
      case False
      then have "\<forall>v \<in> set (u # us). ?k v \<noteq> ?k t" using Cons.prems by auto
      then have "filter (\<lambda>u. ?k u = ?k t) (u # us) = []" by (simp add: filter_empty_conv)
      with False show ?thesis by auto
    qed (use Cons in auto)
  qed simp
  show ?thesis
  proof (rule sym, rule properties_for_sort_key)
    show "mset (insert_transition t (sort_key ?k ts)) = mset (ts @ [t])"
    proof -
      have "mset (insert_transition t us) = add_mset t (mset us)" for us by (induction us) auto
      then show ?thesis by simp
    qed
    show "filter (\<lambda>y. ?k x = ?k y) (insert_transition t (sort_key ?k ts)) = filter (\<lambda>y. ?k x = ?k y) (ts @ [t])"
      if "x \<in> set (insert_transition t (sort_key ?k ts))" for x
    proof -
      have e: "(\<lambda>y. ?k x = ?k y) = (\<lambda>y. ?k y = ?k x)" by auto
      have "filter (\<lambda>y. ?k y = ?k x) (sort_key ?k ts) = filter (\<lambda>y. ?k y = ?k x) ts"
        by (rule sort_key_stable)
      then show ?thesis unfolding e fil [OF sorted_sort_key] by auto
    qed
    show "sorted (map ?k (insert_transition t (sort_key ?k ts)))" by (rule srt) simp
  qed
qed

lemma declared_transitions:
  "current m = None \<Longrightarrow>
   stateMap (fold declare_transition ds m) src =
     fold insert_transition (map snd (filter (\<lambda>d. fst d = src) ds)) (stateMap m src)
   \<and> current (fold declare_transition ds m) = None"
proof (induction ds arbitrary: m)
  case Nil
  then show ?case by simp
next
  case (Cons d ds)
  obtain f t where d: "d = (f, t)" by fastforce
  have m: "current (declare_transition d m) = None"
    "stateMap (declare_transition d m) = (stateMap m)(f := insert_transition t (stateMap m f))"
    using Cons.prems by (cases t, auto simp: declare_transition_def transitionSet_def d)+
  from Cons.IH [OF m(1)] m(2) d show ?case by auto
qed

lemma fold_insert_transition:
  "fold insert_transition ts (sort_key (\<lambda>t. - tr_priority t) us) = sort_key (\<lambda>t. - tr_priority t) (us @ ts)"
proof (induction ts arbitrary: us)
  case (Cons t ts)
  from Cons [of "us @ [t]"] show ?case by (simp only: fold_simps insert_transition_sort_key append_assoc append_Cons append_Nil)
qed simp

text \<open>The transitions of a state are tried in the order of their priority, and those of equal
  priority in the order in which they were declared: however the calls of \<^verbatim>\<open>transitionSet\<close> for
  different states are mixed, the list of a state is its declarations stably sorted.\<close>

theorem transitions_in_priority_order:
  "stateMap (fold declare_transition ds (sm_new w)) src =
   sort_key (\<lambda>t. - tr_priority t) (map snd (filter (\<lambda>d. fst d = src) ds))"
  using declared_transitions [of "sm_new w" ds src]
    fold_insert_transition [of "map snd (filter (\<lambda>d. fst d = src) ds)" "[]"]
  by (simp add: sm_new_def)

section \<open>Programs that finish at once\<close>

text \<open>The world records which programs were executed; guards and preconditions are arbitrary
  functions of the record.\<close>

definition instant :: "(nat \<Rightarrow> nat list \<Rightarrow> bool) \<Rightarrow> nat list sm_env \<Rightarrow> bool" where
  "instant holds E \<longleftrightarrow>
     (\<forall>p w. prog_execute E p w = w @ [p] \<and> prog_reset E p w = w \<and> prog_start E p w = (True, w) \<and>
            \<not> prog_inError E p w \<and> prog_isStopped E p w) \<and>
     (\<forall>c w. cnd_reset E c w = w \<and> cnd_evaluate E c w = (holds c w, w)) \<and> init_command E = None"

lemma instantD:
  assumes "instant holds E"
  shows "prog_execute E p w = w @ [p]" "prog_reset E p w = w" "prog_start E p w = (True, w)"
    "\<not> prog_inError E p w" "prog_isStopped E p w" "cnd_reset E c w = w"
    "cnd_evaluate E c w = (holds c w, w)" "init_command E = None"
  using assms by (auto simp: instant_def)

fun opt :: "nat option \<Rightarrow> nat list" where
  "opt None = []"
| "opt (Some p) = [p]"

definition enabled :: "(nat \<Rightarrow> nat list \<Rightarrow> bool) \<Rightarrow> (nat option \<Rightarrow> (nat \<times> int) list) \<Rightarrow> nat list \<Rightarrow> transition \<Rightarrow> bool" where
  "enabled holds pre log t \<longleftrightarrow> holds (tr_cond t) log \<and> list_all (\<lambda>c. holds (fst c) log) (pre (tr_to t))"

subsection \<open>The reference semantics\<close>

text \<open>One round in state \<open>s\<close>: run, then the first enabled transition, or the handle program.\<close>

definition macro_round :: "nat list sm_env \<Rightarrow> (nat \<Rightarrow> nat list \<Rightarrow> bool) \<Rightarrow> (nat option \<Rightarrow> (nat \<times> int) list) \<Rightarrow>
    (nat option \<Rightarrow> transition list) \<Rightarrow> nat \<times> nat list \<Rightarrow> nat \<times> nat list" where
  "macro_round E holds pre tr c =
     (case c of (s, log) \<Rightarrow>
        let log1 = log @ opt (getRunProgram E s) in
        case find (enabled holds pre log1) (tr (Some s) @ tr None) of
          None \<Rightarrow> (s, log1 @ opt (getHandleProgram E s))
        | Some t \<Rightarrow>
            let s' = (case tr_to t of None \<Rightarrow> s | Some x \<Rightarrow> x) in
            if s' = s then (s, log1 @ (if tr_prog t = None then opt (getHandleProgram E s) else opt (tr_prog t)))
            else (s', log1 @ opt (tr_prog t) @ opt (getExitProgram E s) @ opt (getEntryProgram E s')))"

fun macro_rounds :: "nat list sm_env \<Rightarrow> (nat \<Rightarrow> nat list \<Rightarrow> bool) \<Rightarrow> (nat option \<Rightarrow> (nat \<times> int) list) \<Rightarrow>
    (nat option \<Rightarrow> transition list) \<Rightarrow> nat \<Rightarrow> nat \<times> nat list \<Rightarrow> nat \<times> nat list" where
  "macro_rounds E holds pre tr 0 c = c"
| "macro_rounds E holds pre tr (Suc n) c = macro_rounds E holds pre tr n (macro_round E holds pre tr c)"

fun execute_rounds :: "'w sm_env \<Rightarrow> nat \<Rightarrow> 'w sm \<Rightarrow> 'w sm option" where
  "execute_rounds E 0 m = Some m"
| "execute_rounds E (Suc n) m = do { m1 \<leftarrow> execute E m; execute_rounds E n m1 }"

subsection \<open>The interpreter on instant programs\<close>

text \<open>Between rounds: in state \<open>s\<close> with at most its run program pending, the search for a
  transition at position \<open>j\<close>. \<open>resting\<close> is the same with nothing
  pending, \<open>idle\<close> with the search for a transition under way.\<close>

definition idle :: "nat list sm \<Rightarrow> nat \<Rightarrow> bool" where
  "idle m s \<longleftrightarrow>
     current m = Some s \<and> nextst m = Some s \<and> currentProg m = None \<and> currentRun m = None \<and>
     currentTrans m = None \<and> currentExit m = None \<and> currentEntry m = None \<and> currentHandle m = None \<and>
     req_of m = Some s \<and> smStatus m \<noteq> SmError \<and> \<not> checking_precond m"

definition resting_at :: "nat list sm \<Rightarrow> nat \<Rightarrow> nat \<Rightarrow> bool" where
  "resting_at m s j \<longleftrightarrow> idle m s \<and> reqstep m = j"

abbreviation resting :: "nat list sm \<Rightarrow> nat \<Rightarrow> bool" where
  "resting m s \<equiv> resting_at m s 0"

definition settled_at :: "nat list sm_env \<Rightarrow> nat list sm \<Rightarrow> nat \<Rightarrow> nat \<Rightarrow> bool" where
  "settled_at E m s j \<longleftrightarrow>
     current m = Some s \<and> nextst m = Some s \<and> currentProg m = getRunProgram E s \<and> currentRun m = getRunProgram E s \<and>
     currentTrans m = None \<and> currentExit m = None \<and> currentEntry m = None \<and> currentHandle m = None \<and>
     req_of m = Some s \<and> reqstep m = j \<and> smStatus m \<noteq> SmError \<and> \<not> checking_precond m"

abbreviation settled :: "nat list sm_env \<Rightarrow> nat list sm \<Rightarrow> nat \<Rightarrow> bool" where
  "settled E m s \<equiv> settled_at E m s 0"

text \<open>What a round does not change.\<close>

definition same_machine :: "'w sm \<Rightarrow> 'w sm \<Rightarrow> bool" where
  "same_machine m m' \<longleftrightarrow>
     stateMap m' = stateMap m \<and> precondMap m' = precondMap m \<and> initstate m' = initstate m \<and>
     finistate m' = finistate m \<and> smpStatus m' = smpStatus m \<and> smStatus m' = smStatus m \<and> mstep m' = mstep m"

lemma same_machine_refl [simp]: "same_machine m m"
  by (simp add: same_machine_def)

lemma same_machine_trans: "same_machine a b \<Longrightarrow> same_machine b c \<Longrightarrow> same_machine a c"
  by (simp add: same_machine_def)

lemma reset_all_instant: "instant holds E \<Longrightarrow> reset_all E ts m = m"
  by (induction ts arbitrary: m) (auto simp: reset_all_def world_do_def instantD)

lemma restart_instant: "instant holds E \<Longrightarrow> restart E p m = m"
  by (simp add: restart_def instantD)

lemma start_transition_instant: "instant holds E \<Longrightarrow> start_transition E po m = m"
  by (cases po) (simp_all add: start_transition_def restart_instant)

lemma schedule_instant:
  "instant holds E \<Longrightarrow> schedule E po m =
     (if po \<noteq> None \<and> currentProg m = None then m\<lparr>currentProg := po\<rparr> else m)"
  by (cases po) (simp_all add: schedule_def restart_instant Let_def)

lemma executeProgram_instant:
  "instant holds E \<Longrightarrow> executeProgram E sl False m =
     (case slot_get sl m of None \<Rightarrow> (False, m)
      | Some p \<Rightarrow> (True, (slot_clear sl (world_do (\<lambda>w. w @ [p]) m))\<lparr>currentProg := None\<rparr>))"
  by (cases sl; cases m)
    (auto simp: executeProgram_def instantD world_do_def Let_def split: option.split)

lemmas run_defs = executePending_def pending_exit_def pending_change_def pending_entry_def pending_handle_def
  pending_run_def pending_part_def inError_def

lemma pending_settled:
  assumes i: "instant holds E" and s: "settled_at E m s j"
  shows "\<exists>m'. executePending E False m = (True, m') \<and> resting_at m' s j \<and> same_machine m m' \<and>
      sm_world m' = sm_world m @ opt (getRunProgram E s)"
  using s
  by (cases "getRunProgram E s")
    (auto simp: run_defs settled_at_def resting_at_def idle_def executeProgram_instant [OF i] world_do_def same_machine_def)

lemma runState_resting:
  assumes i: "instant holds E" and r: "resting_at m s j"
  shows "\<exists>m'. runState E (Some s) m = Some m' \<and> settled_at E m' s j \<and> same_machine m m' \<and> sm_world m' = sm_world m"
  using r
  by (cases "getRunProgram E s")
    (auto simp: runState_def schedule_instant [OF i] settled_at_def resting_at_def idle_def same_machine_def Let_def)

lemma runState_then:
  assumes i: "instant holds E" and m1: "executePending E False m1 = (d, m2)" and r: "resting_at m2 s j"
  shows "\<exists>m'. runState E (Some s) (snd (executePending E False m1)) = Some m' \<and> settled_at E m' s j \<and>
      same_machine m2 m' \<and> sm_world m' = sm_world m2"
  using runState_resting [OF i r] m1 by simp

lemma change_other:
  assumes i: "instant holds E" and r: "idle m s" and ne: "s' \<noteq> s"
  shows "\<exists>m'. changeState E (Some s') po False m = Some m' \<and> settled E m' s' \<and> same_machine m m' \<and>
      sm_world m' = sm_world m @ opt po @ opt (getExitProgram E s) @ opt (getEntryProgram E s')"
proof -
  define m2 where "m2 = m\<lparr>currentRun := None, currentHandle := None, currentTrans := po\<rparr>"
  define m3 where "m3 = (disableEvents (Some s) m2)\<lparr>currentExit := getExitProgram E s, currentProg := getExitProgram E s\<rparr>"
  define m4 where "m4 = (enableEvents (Some s') m3)\<lparr>nextst := Some s', currentEntry := getEntryProgram E s',
      currentProg := (if currentProg m3 = None then getEntryProgram E s' else currentProg m3)\<rparr>"
  have leave: "leaveState E (current m2) m2 = Some m3"
    using r by (cases "getExitProgram E s")
      (auto simp: leaveState_def schedule_instant [OF i] m2_def m3_def resting_at_def idle_def disableEvents_def Let_def)
  have enter: "enterState E (Some s') m3 = Some m4"
    by (cases "getEntryProgram E s'")
      (auto simp: enterState_def schedule_instant [OF i] reset_all_instant [OF i] m4_def Let_def enableEvents_def)
  obtain m5 where m5: "executePending E False m4 = (True, m5)" "resting m5 s'" "same_machine m m5"
    "sm_world m5 = sm_world m @ opt po @ opt (getExitProgram E s) @ opt (getEntryProgram E s')"
  proof -
    have "\<exists>m5. executePending E False m4 = (True, m5) \<and> resting m5 s' \<and> same_machine m m5 \<and>
      sm_world m5 = sm_world m @ opt po @ opt (getExitProgram E s) @ opt (getEntryProgram E s')"
      using r ne
      by (cases po; cases "getExitProgram E s"; cases "getEntryProgram E s'")
        (auto simp: run_defs resting_at_def idle_def m2_def m3_def m4_def enableEvents_def disableEvents_def
          executeProgram_instant [OF i] world_do_def same_machine_def Let_def)
    then show ?thesis using that by blast
  qed
  have "currentExit m2 = None" "current m2 = Some s" using r by (simp_all add: m2_def resting_at_def idle_def)
  then have "changeState E (Some s') po False m = runState E (Some s') (snd (executePending E False m4))"
    using r ne leave enter start_transition_instant [OF i, of po]
    by (simp add: changeState_def resting_at_def idle_def Let_def m2_def [symmetric])
  with runState_then [OF i m5(1,2)] m5(3,4) same_machine_trans show ?thesis by metis
qed

lemma change_handle:
  assumes i: "instant holds E" and r: "resting_at m s j"
  shows "\<exists>m'. changeState E (Some s) None False m = Some m' \<and> settled_at E m' s j \<and> same_machine m m' \<and>
      sm_world m' = sm_world m @ opt (getHandleProgram E s)"
proof -
  define m1 where "m1 = m\<lparr>currentHandle := getHandleProgram E s, currentProg := getHandleProgram E s\<rparr>"
  have h: "handleState E (Some s) m = Some m1"
    using r by (cases "getHandleProgram E s")
      (auto simp: handleState_def schedule_instant [OF i] m1_def resting_at_def idle_def Let_def)
  obtain m2 where m2: "executePending E False m1 = (True, m2)" "resting_at m2 s j" "same_machine m m2"
    "sm_world m2 = sm_world m @ opt (getHandleProgram E s)"
  proof -
    have "\<exists>m2. executePending E False m1 = (True, m2) \<and> resting_at m2 s j \<and> same_machine m m2 \<and>
        sm_world m2 = sm_world m @ opt (getHandleProgram E s)"
      using r by (cases "getHandleProgram E s")
        (auto simp: run_defs resting_at_def idle_def m1_def executeProgram_instant [OF i] world_do_def same_machine_def)
    then show ?thesis using that by blast
  qed
  have "changeState E (Some s) None False m = runState E (Some s) (snd (executePending E False m1))"
    using r h by (simp add: changeState_def resting_at_def idle_def Let_def)
  with runState_then [OF i m2(1,2)] m2(3,4) same_machine_trans show ?thesis by (metis (mono_tags, lifting))
qed

lemma change_self:
  assumes i: "instant holds E" and r: "idle m s" and Some: "po = Some p"
  shows "\<exists>m'. changeState E (Some s) po False m = Some m' \<and> settled E m' s \<and> same_machine m m' \<and>
      sm_world m' = sm_world m @ [p]"
proof -
  define m1 where "m1 = m\<lparr>currentTrans := po, currentProg := po, req_of := Some s, reqstep := 0\<rparr>"
  obtain m2 where m2: "executePending E False m1 = (True, m2)" "resting m2 s" "same_machine m m2"
    "sm_world m2 = sm_world m @ [p]"
  proof -
    have "\<exists>m2. executePending E False m1 = (True, m2) \<and> resting m2 s \<and> same_machine m m2 \<and>
        sm_world m2 = sm_world m @ [p]"
      using r Some
      by (auto simp: run_defs resting_at_def idle_def m1_def executeProgram_instant [OF i] world_do_def same_machine_def)
    then show ?thesis using that by blast
  qed
  have "changeState E (Some s) po False m = runState E (Some s) (snd (executePending E False m1))"
    using r Some start_transition_instant [OF i, of po m]
    by (simp add: changeState_def resting_at_def idle_def Let_def m1_def)
  with runState_then [OF i m2(1,2)] m2(3,4) same_machine_trans show ?thesis by (metis (mono_tags, lifting))
qed

text \<open>Choosing.\<close>

definition bookkeeping :: "'w sm \<Rightarrow> 'w sm \<Rightarrow> bool" where
  "bookkeeping m m' \<longleftrightarrow>
     (\<exists>pl ev rs. m' = m\<lparr>prec_left := pl, evaluating := ev, reqstep := rs\<rparr>)"

lemma bookkeeping_refl [simp]: "bookkeeping m m"
  unfolding bookkeeping_def by (intro exI [of _ "prec_left m"] exI [of _ "evaluating m"] exI [of _ "reqstep m"]) simp

lemma bookkeeping_trans: "bookkeeping a b \<Longrightarrow> bookkeeping b c \<Longrightarrow> bookkeeping a c"
  unfolding bookkeeping_def by fastforce

lemma bookkeepingD:
  assumes "bookkeeping m m'"
  shows "current m' = current m" "sm_world m' = sm_world m" "stateMap m' = stateMap m" "precondMap m' = precondMap m"
    "req_of m' = req_of m" "checking_precond m' = checking_precond m" "same_machine m m'"
  using assms by (auto simp: bookkeeping_def same_machine_def)

lemma bookkeeping_position: "bookkeeping n (n\<lparr>reqstep := r, evaluating := e\<rparr>)"
  unfolding bookkeeping_def by (intro exI [of _ "prec_left n"] exI [of _ e] exI [of _ r]) (cases n, simp)

lemma bookkeeping_prec: "bookkeeping m (m\<lparr>prec_left := cs\<rparr>)"
  unfolding bookkeeping_def by (intro exI [of _ cs] exI [of _ "evaluating m"] exI [of _ "reqstep m"]) simp

lemma check_loop_instant:
  assumes i: "instant holds E" and "\<not> checking_precond m"
  shows "\<exists>m'. check_loop E False m =
      (if list_all (\<lambda>c. holds (fst c) (sm_world m)) (prec_left m) then 1 else - 1, m') \<and>
      bookkeeping m m' \<and> reqstep m' = reqstep m"
  using assms(2)
proof (induction "prec_left m" arbitrary: m)
  case Nil
  then have m: "m\<lparr>checking_precond := False\<rparr> = m" by (cases m) simp
  have pl: "prec_left m = []" using Nil by simp
  then have "check_loop E False m = (1, m\<lparr>checking_precond := False\<rparr>)" by (subst check_loop.simps) simp
  then have "check_loop E False m = (1, m)" unfolding m .
  with pl show ?case by simp
next
  case (Cons c cs)
  obtain k l where c: "c = (k, l)" by fastforce
  have pl: "prec_left m = (k, l) # cs" using Cons.hyps(2) c by simp
  have ev: "evaluate E k m = (holds k (sm_world m), m)" by (simp add: evaluate_def instantD [OF i])
  let ?m = "m\<lparr>prec_left := cs\<rparr>"
  have m: "m\<lparr>checking_precond := False\<rparr> = m" using Cons.prems by (cases m) simp
  show ?case
  proof (cases "holds k (sm_world m)")
    case False
    then have "check_loop E False m = (- 1, m\<lparr>checking_precond := False\<rparr>)"
      using pl ev Cons.prems by (subst check_loop.simps) simp
    then have "check_loop E False m = (- 1, m)" unfolding m .
    with pl False show ?thesis by simp
  next
    case True
    have "check_loop E False m = check_loop E False ?m"
      using pl ev True Cons.prems by (subst check_loop.simps) simp
    moreover from Cons.hyps(1) [of ?m] Cons.prems obtain m' where
      "check_loop E False ?m = (if list_all (\<lambda>c. holds (fst c) (sm_world m)) cs then 1 else - 1, m')"
      "bookkeeping ?m m'" "reqstep m' = reqstep m" by auto
    ultimately show ?thesis using pl True bookkeeping_trans [OF bookkeeping_prec] by auto
  qed
qed

lemma checkConditions_instant:
  assumes i: "instant holds E" and c: "\<not> checking_precond m"
  shows "\<exists>m'. checkConditions E s False m =
      (if list_all (\<lambda>c. holds (fst c) (sm_world m)) (precondMap m s) then 1 else - 1, m') \<and>
      bookkeeping m m' \<and> reqstep m' = reqstep m"
  using check_loop_instant [OF i, of "m\<lparr>prec_left := precondMap m s\<rparr>"] c
    bookkeeping_trans [OF bookkeeping_prec [of m "precondMap m s"]]
  by (auto simp: checkConditions_def)

lemma first_enabled_instant:
  assumes i: "instant holds E" and "\<not> checking_precond m"
  shows "\<exists>m'. first_enabled E P ts m =
      (find (\<lambda>t. P t \<and> enabled holds (precondMap m) (sm_world m) t) ts, m') \<and>
      bookkeeping m m' \<and> reqstep m' = reqstep m"
  using assms(2)
proof (induction ts arbitrary: m)
  case Nil
  then show ?case by simp
next
  case (Cons t ts)
  have ev: "evaluate E (tr_cond t) m = (holds (tr_cond t) (sm_world m), m)" by (simp add: evaluate_def instantD [OF i])
  obtain m1 where m1: "checkConditions E (tr_to t) False m =
      (if list_all (\<lambda>c. holds (fst c) (sm_world m)) (precondMap m (tr_to t)) then 1 else - 1, m1)"
    "bookkeeping m m1" "reqstep m1 = reqstep m"
    using checkConditions_instant [OF i Cons.prems] by blast
  note b = bookkeepingD [OF m1(2)]
  from Cons.IH [of m1] Cons.prems b obtain m2 where m2: "first_enabled E P ts m1 =
      (find (\<lambda>t. P t \<and> enabled holds (precondMap m) (sm_world m) t) ts, m2)" "bookkeeping m1 m2"
    "reqstep m2 = reqstep m1" by auto
  from Cons.IH [OF Cons.prems] m1 m2 ev bookkeeping_trans [OF m1(2) m2(2)] show ?case
    by (auto simp: enabled_def)
qed

lemma bookkeeping_idle: "bookkeeping m m' \<Longrightarrow> idle m s \<Longrightarrow> idle m' s"
  by (auto simp: bookkeeping_def idle_def)

lemma next_loop_instant:
  assumes i: "instant holds E" and "\<not> checking_precond m" and "ts \<noteq> []"
  shows "\<exists>m'. bookkeeping m m' \<and> next_loop E False ts m =
      (case find (enabled holds (precondMap m) (sm_world m)) ts of
         Some t \<Rightarrow> changeState E (tr_to t) (tr_prog t) False m'
       | None \<Rightarrow> try_globals E False True m') \<and>
      (enabled holds (precondMap m) (sm_world m) (hd ts) \<or> length ts = 1 \<longrightarrow> reqstep m' = reqstep m)"
  using assms(2,3)
proof (induction ts arbitrary: m)
  case Nil
  then show ?case by simp
next
  case (Cons t ts)
  let ?P = "enabled holds (precondMap m) (sm_world m)"
  have ev: "evaluate E (tr_cond t) m = (holds (tr_cond t) (sm_world m), m)" by (simp add: evaluate_def instantD [OF i])
  obtain m1 where m1: "checkConditions E (tr_to t) False m =
      (if list_all (\<lambda>c. holds (fst c) (sm_world m)) (precondMap m (tr_to t)) then 1 else - 1, m1)"
    "bookkeeping m m1" "reqstep m1 = reqstep m"
    using checkConditions_instant [OF i Cons.prems(1)] by blast
  have decline: "\<exists>m'. bookkeeping m m' \<and> (case ts of [] \<Rightarrow> try_globals E False True n
        | u # _ \<Rightarrow> next_loop E False ts (n\<lparr>reqstep := reqstep n + 1, evaluating := tr_line u\<rparr>)) =
      (case find ?P ts of Some t \<Rightarrow> changeState E (tr_to t) (tr_prog t) False m' | None \<Rightarrow> try_globals E False True m') \<and>
      (ts = [] \<longrightarrow> reqstep m' = reqstep n)"
    if bk: "bookkeeping m n" for n
  proof (cases ts)
    case Nil
    with bk show ?thesis by auto
  next
    case (Cons u us)
    let ?n = "n\<lparr>reqstep := reqstep n + 1, evaluating := tr_line u\<rparr>"
    have bk1: "bookkeeping m ?n" by (rule bookkeeping_trans [OF bk bookkeeping_position])
    note b = bookkeepingD [OF bk1]
    from Cons.IH [of ?n] Cons b Cons.prems(1) have "\<exists>m'. bookkeeping ?n m' \<and> next_loop E False ts ?n =
      (case find ?P ts of Some t \<Rightarrow> changeState E (tr_to t) (tr_prog t) False m' | None \<Rightarrow> try_globals E False True m')"
      by auto
    then obtain m' where "bookkeeping ?n m'" and e: "next_loop E False ts ?n =
      (case find ?P ts of Some t \<Rightarrow> changeState E (tr_to t) (tr_prog t) False m' | None \<Rightarrow> try_globals E False True m')"
      by blast
    then have "bookkeeping m m'" by (blast intro: bookkeeping_trans [OF bk1])
    moreover have "(case ts of [] \<Rightarrow> try_globals E False True n
        | u # _ \<Rightarrow> next_loop E False ts (n\<lparr>reqstep := reqstep n + 1, evaluating := tr_line u\<rparr>)) = next_loop E False ts ?n"
      unfolding Cons list.case ..
    ultimately show ?thesis using e Cons by (intro exI [of _ m']) (simp del: next_loop.simps)
  qed
  show ?case
  proof (cases "?P t")
    case True
    with ev m1 have "next_loop E False (t # ts) m = changeState E (tr_to t) (tr_prog t) False m1"
      by (simp add: enabled_def Let_def)
    with True m1(2,3) show ?thesis by auto
  next
    case False
    obtain n where "bookkeeping m n" "reqstep n = reqstep m" "next_loop E False (t # ts) m =
        (case ts of [] \<Rightarrow> try_globals E False True n
         | u # _ \<Rightarrow> next_loop E False ts (n\<lparr>reqstep := reqstep n + 1, evaluating := tr_line u\<rparr>))"
    proof (cases "holds (tr_cond t) (sm_world m)")
      case True
      with False ev m1 show ?thesis by (intro that [of m1]) (simp_all add: enabled_def Let_def split: list.split)
    next
      case False
      with ev show ?thesis by (intro that [of m]) (simp_all add: Let_def split: list.split)
    qed
    with decline [of n] False show ?thesis by auto
  qed
qed

text \<open>A transition without a program that leads back to its own state does not restart the search at
  the first transition of the state. That is harmless only where the search was at the first one
  anyway; the reference semantics is for machines where it is.\<close>

definition well_formed :: "(nat option \<Rightarrow> transition list) \<Rightarrow> bool" where
  "well_formed tr \<longleftrightarrow>
     (\<forall>s. (\<forall>t \<in> set (tr (Some s)). tr_to t \<noteq> None) \<and>
          (\<forall>t \<in> set (tl (tr (Some s))). tr_to t = Some s \<longrightarrow> tr_prog t \<noteq> None) \<and>
          (\<forall>t \<in> set (tr None). tr_prog t = None \<and> (tr_to t = None \<or> tr_to t = Some s) \<longrightarrow> length (tr (Some s)) \<le> 1))"

text \<open>The effect of taking transition \<open>t\<close> in state \<open>s\<close>, or none.\<close>

definition taken :: "nat list sm_env \<Rightarrow> nat \<Rightarrow> transition option \<Rightarrow> nat list \<Rightarrow> nat \<times> nat list" where
  "taken E s to log =
     (case to of
        None \<Rightarrow> (s, log @ opt (getHandleProgram E s))
      | Some t \<Rightarrow>
          let s' = (case tr_to t of None \<Rightarrow> s | Some x \<Rightarrow> x) in
          if s' = s then (s, log @ (if tr_prog t = None then opt (getHandleProgram E s) else opt (tr_prog t)))
          else (s', log @ opt (tr_prog t) @ opt (getExitProgram E s) @ opt (getEntryProgram E s')))"

lemma macro_round_taken:
  "macro_round E holds pre tr (s, log) =
     (let log1 = log @ opt (getRunProgram E s)
      in taken E s (find (enabled holds pre log1) (tr (Some s) @ tr None)) log1)"
  by (simp add: macro_round_def taken_def Let_def split: option.split)

lemma changeState_taken:
  assumes i: "instant holds E" and r: "idle m s" and to: "target = (case tr_to t of None \<Rightarrow> s | Some x \<Rightarrow> x)"
    and rs: "target = s \<Longrightarrow> tr_prog t = None \<Longrightarrow> reqstep m = 0"
  shows "\<exists>m' s' log. changeState E (Some target) (tr_prog t) False m = Some m' \<and>
      taken E s (Some t) (sm_world m) = (s', log) \<and> settled E m' s' \<and> same_machine m m' \<and> sm_world m' = log"
proof (cases "target = s")
  case True
  show ?thesis
  proof (cases "tr_prog t")
    case None
    with True rs r have "resting m s" by (simp add: resting_at_def)
    with change_handle [OF i this] True None to show ?thesis by (auto simp: taken_def)
  next
    case (Some p)
    with change_self [OF i r Some] True to show ?thesis by (auto simp: taken_def)
  qed
next
  case False
  with change_other [OF i r False, of "tr_prog t"] to show ?thesis by (auto simp: taken_def Let_def)
qed

lemma try_globals_taken:
  assumes i: "instant holds E" and r: "idle m s" and again: "again \<or> reqstep m = 0"
    and wf: "\<And>t. t \<in> set (stateMap m None) \<Longrightarrow> tr_prog t = None \<Longrightarrow> tr_to t = None \<or> tr_to t = Some s \<Longrightarrow> reqstep m = 0"
  shows "\<exists>m' s' log. try_globals E False again m = Some m' \<and>
      taken E s (find (enabled holds (precondMap m) (sm_world m)) (stateMap m None)) (sm_world m) = (s', log) \<and>
      settled E m' s' \<and> same_machine m m' \<and> sm_world m' = log"
proof -
  have cp: "\<not> checking_precond m" using r by (simp add: idle_def)
  obtain m1 where m1: "first_enabled E (\<lambda>_. True) (stateMap m None) m =
      (find (enabled holds (precondMap m) (sm_world m)) (stateMap m None), m1)" "bookkeeping m m1"
    "reqstep m1 = reqstep m"
    using first_enabled_instant [OF i cp, of "\<lambda>_. True" "stateMap m None"] by auto
  note b = bookkeepingD [OF m1(2)]
  have r1: "idle m1 s" by (rule bookkeeping_idle [OF m1(2) r])
  have cur: "current m1 = Some s" using r1 by (simp add: idle_def)
  show ?thesis
  proof (cases "find (enabled holds (precondMap m) (sm_world m)) (stateMap m None)")
    case (Some t)
    then have t: "t \<in> set (stateMap m None)" using find_SomeD by fast
    let ?to = "case tr_to t of None \<Rightarrow> s | Some x \<Rightarrow> x"
    have "(if tr_to t = None then current m1 else tr_to t) = Some ?to" using cur by (auto split: option.split)
    moreover have "\<exists>m' s' log. changeState E (Some ?to) (tr_prog t) False m1 = Some m' \<and>
      taken E s (Some t) (sm_world m1) = (s', log) \<and> settled E m' s' \<and> same_machine m1 m' \<and> sm_world m' = log"
      by (rule changeState_taken [OF i r1 refl]) (use wf [OF t] m1(3) in \<open>auto split: option.splits\<close>)
    ultimately show ?thesis
      using Some m1(1) b(2,7) same_machine_trans by (fastforce simp: try_globals_def)
  next
    case None
    define m2 where "m2 = (if again then m1\<lparr>req_of := current m1, reqstep := 0,
        evaluating := (case stateMap m1 (current m1) of [] \<Rightarrow> 0 | t # _ \<Rightarrow> tr_line t)\<rparr> else m1)"
    have r2: "resting m2 s" and same: "same_machine m m2" and w: "sm_world m2 = sm_world m" and c2: "current m2 = Some s"
      using r1 again m1(3) b(2,7) by (auto simp: m2_def resting_at_def idle_def same_machine_def)
    have "try_globals E False again m = changeState E (Some s) None False m2"
      using None m1(1) c2 by (simp add: try_globals_def Let_def m2_def [symmetric])
    with change_handle [OF i r2] None same w same_machine_trans show ?thesis by (fastforce simp: taken_def)
  qed
qed

lemma find_append_case: "find P (xs @ ys) = (case find P xs of None \<Rightarrow> find P ys | Some x \<Rightarrow> Some x)"
  by (induction xs) auto

lemma well_formed_global:
  "well_formed tr \<Longrightarrow> t \<in> set (tr None) \<Longrightarrow> tr_prog t = None \<Longrightarrow> tr_to t = None \<or> tr_to t = Some s \<Longrightarrow>
   length (tr (Some s)) \<le> 1"
  by (auto simp: well_formed_def)

lemma well_formed_local:
  "well_formed tr \<Longrightarrow> tr (Some s) = t # ts \<Longrightarrow> u \<in> set (t # ts) \<Longrightarrow>
   tr_to u \<noteq> None \<and> (tr_to u = Some s \<longrightarrow> tr_prog u = None \<longrightarrow> u \<notin> set ts)"
  unfolding well_formed_def by (drule spec [of _ s]) auto

lemma requestNextState_taken:
  assumes i: "instant holds E" and r: "resting m s" and wf: "well_formed (stateMap m)"
  shows "\<exists>m' s' log. requestNextState E False m = Some m' \<and>
      taken E s (find (enabled holds (precondMap m) (sm_world m)) (stateMap m (Some s) @ stateMap m None)) (sm_world m)
        = (s', log) \<and> settled E m' s' \<and> same_machine m m' \<and> sm_world m' = log"
proof -
  let ?P = "enabled holds (precondMap m) (sm_world m)"
  let ?ts = "stateMap m (Some s)"
  have idle: "idle m s" and r0: "reqstep m = 0" using r by (simp_all add: resting_at_def)
  have st: "current m = Some s" "req_of m = Some s" "interruptible m" "currentTrans m = None" "\<not> checking_precond m"
    using idle by (simp_all add: idle_def interruptible_def)
  show ?thesis
  proof (cases ?ts)
    case Nil
    then have "requestNextState E False m = try_globals E False False m"
      using st r0 by (simp add: requestNextState_def reset_all_instant [OF i] Let_def)
    with try_globals_taken [OF i idle, of False] r0 Nil show ?thesis by simp
  next
    case (Cons t ts)
    then have nx: "requestNextState E False m = next_loop E False ?ts m"
      using st r0 by (simp add: requestNextState_def reset_all_instant [OF i] Let_def del: next_loop.simps)
    from next_loop_instant [OF i st(5), of ?ts] Cons obtain m1 where m1: "bookkeeping m m1"
      "next_loop E False ?ts m = (case find ?P ?ts of
           Some t \<Rightarrow> changeState E (tr_to t) (tr_prog t) False m1 | None \<Rightarrow> try_globals E False True m1)"
      and pos: "?P t \<or> ts = [] \<Longrightarrow> reqstep m1 = reqstep m"
      by (auto simp del: next_loop.simps)
    note b = bookkeepingD [OF m1(1)]
    have i1: "idle m1 s" by (rule bookkeeping_idle [OF m1(1) idle])
    show ?thesis
    proof (cases "find ?P ?ts")
      case None
      have "\<exists>m' s' log. try_globals E False True m1 = Some m' \<and>
          taken E s (find (enabled holds (precondMap m1) (sm_world m1)) (stateMap m1 None)) (sm_world m1) = (s', log) \<and>
          settled E m' s' \<and> same_machine m1 m' \<and> sm_world m' = log"
      proof (rule try_globals_taken [OF i i1])
        fix g assume "g \<in> set (stateMap m1 None)" "tr_prog g = None" "tr_to g = None \<or> tr_to g = Some s"
        with well_formed_global [OF wf] b(3) have "length ?ts \<le> 1" by metis
        with Cons pos r0 show "reqstep m1 = 0" by simp
      qed simp
      with None nx m1(2) b same_machine_trans [OF b(7)] show ?thesis by (auto simp: find_append_case)
    next
      case (Some u)
      then have u: "u \<in> set (t # ts)" "?P u" using Cons find_SomeD by (metis, fast)
      obtain x where x: "tr_to u = Some x" using well_formed_local [OF wf Cons u(1)] by auto
      have rs: "x = s \<Longrightarrow> tr_prog u = None \<Longrightarrow> reqstep m1 = 0"
        using well_formed_local [OF wf Cons u(1)] x u Cons pos r0 by auto
      have "\<exists>m' s' log. changeState E (Some x) (tr_prog u) False m1 = Some m' \<and>
          taken E s (Some u) (sm_world m1) = (s', log) \<and> settled E m' s' \<and> same_machine m1 m' \<and> sm_world m' = log"
        by (rule changeState_taken [OF i i1]) (use x rs in auto)
      with Some nx m1(2) x b same_machine_trans [OF b(7)] show ?thesis by (auto simp: find_append_case)
    qed
  qed
qed

lemma execute_macro_round:
  assumes i: "instant holds E" and s: "settled E m s" and wf: "well_formed (stateMap m)"
    and st: "smpStatus m = Nill" "smStatus m = SmRunning"
  shows "\<exists>m' s'. execute E m = Some m' \<and> settled E m' s' \<and> same_machine m m' \<and>
      macro_round E holds (precondMap m) (stateMap m) (s, sm_world m) = (s', sm_world m')"
proof -
  obtain m1 where m1: "executePending E False m = (True, m1)" "resting m1 s" "same_machine m m1"
    "sm_world m1 = sm_world m @ opt (getRunProgram E s)"
    using pending_settled [OF i s] by blast
  have e: "execute E m = requestNextState E False m1"
    using m1(1) st by (simp add: execute_def not_usable_def execute_status_def)
  have maps: "stateMap m1 = stateMap m" "precondMap m1 = precondMap m" using m1(3) by (simp_all add: same_machine_def)
  from requestNextState_taken [OF i m1(2)] wf maps obtain m' s' log where
    "requestNextState E False m1 = Some m'" "settled E m' s'" "same_machine m1 m'" "sm_world m' = log"
    "taken E s (find (enabled holds (precondMap m) (sm_world m1)) (stateMap m (Some s) @ stateMap m None)) (sm_world m1) = (s', log)"
    by auto
  with e m1(3,4) same_machine_trans [OF m1(3)] show ?thesis by (auto simp: macro_round_taken)
qed

lemma execute_rounds_macro:
  assumes i: "instant holds E"
  shows "settled E m s \<Longrightarrow> well_formed (stateMap m) \<Longrightarrow> smpStatus m = Nill \<Longrightarrow> smStatus m = SmRunning \<Longrightarrow>
   \<exists>m' s'. execute_rounds E n m = Some m' \<and> settled E m' s' \<and> same_machine m m' \<and>
     macro_rounds E holds (precondMap m) (stateMap m) n (s, sm_world m) = (s', sm_world m')"
proof (induction n arbitrary: m s)
  case 0
  then show ?case by auto
next
  case (Suc n)
  from execute_macro_round [OF i Suc.prems] obtain m1 s1 where m1: "execute E m = Some m1" "settled E m1 s1"
    "same_machine m m1" "macro_round E holds (precondMap m) (stateMap m) (s, sm_world m) = (s1, sm_world m1)"
    by blast
  then have "well_formed (stateMap m1)" "smpStatus m1 = Nill" "smStatus m1 = SmRunning"
    using Suc.prems by (simp_all add: same_machine_def)
  from Suc.IH [OF m1(2) this] obtain m' s' where "execute_rounds E n m1 = Some m'" "settled E m' s'" "same_machine m1 m'"
    "macro_rounds E holds (precondMap m1) (stateMap m1) n (s1, sm_world m1) = (s', sm_world m')"
    by blast
  moreover have "precondMap m1 = precondMap m" "stateMap m1 = stateMap m"
    using m1(3) by (simp_all add: same_machine_def)
  ultimately show ?case using m1 same_machine_trans [OF m1(3)] by auto
qed

end
