(* ===== verification/StateMachineRuns.thy ===== *)
theory StateMachineRuns
  imports StateMachineSpec
begin

text \<open>
  Whole runs of a state machine: activation, automatic execution, stop and deactivation, related to
  the reference semantics of theory \<open>StateMachineSpec\<close>; and the runs in which the interpreter departs from it.
\<close>

section \<open>Activation\<close>

definition loaded :: "nat list sm \<Rightarrow> nat \<Rightarrow> bool" where
  "loaded m s \<longleftrightarrow>
     smStatus m = Inactive \<and> initstate m = Some s \<and> current m = None \<and> nextst m = None \<and> currentProg m = None \<and>
     currentExit m = None \<and> currentHandle m = None \<and> currentEntry m = None \<and> currentRun m = None \<and>
     currentTrans m = None \<and> \<not> checking_precond m"

definition preconditions_hold :: "(nat \<Rightarrow> nat list \<Rightarrow> bool) \<Rightarrow> nat list sm \<Rightarrow> nat \<Rightarrow> bool" where
  "preconditions_hold holds m s \<longleftrightarrow> list_all (\<lambda>c. holds (fst c) (sm_world m)) (precondMap m (Some s))"

definition run_machine :: "'w sm_env \<Rightarrow> nat \<Rightarrow> 'w sm \<Rightarrow> 'w sm option" where
  "run_machine E n m = do { (_, m1) \<leftarrow> activate E m; (_, m2) \<leftarrow> automatic E m1; execute_rounds E n m2 }"

definition same_tables :: "'w sm \<Rightarrow> 'w sm \<Rightarrow> bool" where
  "same_tables m m' \<longleftrightarrow>
     stateMap m' = stateMap m \<and> precondMap m' = precondMap m \<and> initstate m' = initstate m \<and> finistate m' = finistate m"

lemma same_machine_tables: "same_machine m m' \<Longrightarrow> same_tables m m'"
  by (simp add: same_machine_def same_tables_def)

lemma activate_instant:
  assumes i: "instant holds E" and l: "loaded m s" and p: "preconditions_hold holds m s"
  shows "\<exists>m'. activate E m = Some (True, m') \<and> resting m' s \<and> smStatus m' = SmActive \<and> smpStatus m' = Nill \<and>
      same_tables m m' \<and> sm_world m' = sm_world m @ opt (getEntryProgram E s)"
proof -
  let ?m = "m\<lparr>smpStatus := Nill\<rparr>"
  have "\<not> checking_precond ?m" using l by (simp add: loaded_def)
  then obtain m1 where m1: "checkConditions E (Some s) False ?m = (1, m1)" "bookkeeping ?m m1"
    using checkConditions_instant [OF i, of ?m "Some s"] p by (auto simp: preconditions_hold_def)
  have f: "smStatus m1 = Inactive" "initstate m1 = Some s" "current m1 = None" "nextst m1 = None" "currentProg m1 = None"
    "currentExit m1 = None" "currentHandle m1 = None" "currentEntry m1 = None" "currentRun m1 = None"
    "currentTrans m1 = None" "\<not> checking_precond m1"
    and same: "same_machine ?m m1" and w: "sm_world m1 = sm_world m"
    using l m1(2) by (auto simp: loaded_def bookkeeping_def same_machine_def)
  define m3 where "m3 = (enableEvents (Some s) m1)\<lparr>nextst := Some s,
      currentEntry := getEntryProgram E s, currentProg := getEntryProgram E s\<rparr>"
  define m4 where "m4 = enableEvents None (m3\<lparr>req_of := nextst m3, reqstep := 0\<rparr>)"
  define m5 where "m5 = snd (executePending E False m4)"
  have e: "executePending E False m4 = (True, m5) \<and> resting (m5\<lparr>smStatus := SmActive\<rparr>) s \<and> same_machine m1 m5 \<and>
    sm_world m5 = sm_world m1 @ opt (getEntryProgram E s)"
    using f
    by (cases "getEntryProgram E s")
      (simp_all add: run_defs resting_at_def idle_def m3_def m4_def m5_def executeProgram_instant [OF i] world_do_def
        same_machine_def enableEvents_def)
  have ent: "enterState E (Some s) m1 = Some m3"
    using f by (cases "getEntryProgram E s")
      (simp_all add: enterState_def schedule_instant [OF i] reset_all_instant [OF i] Let_def enableEvents_def m3_def)
  have "\<not> inError m4" using f by (simp add: inError_def m3_def m4_def enableEvents_def)
  with l m1(1) f(2) e ent have "activate E m = Some (True, m5\<lparr>smStatus := SmActive\<rparr>)"
    by (simp add: activate_def loaded_def instantD [OF i] m4_def [symmetric] Let_def)
  with e same w show ?thesis by (auto simp: same_machine_def same_tables_def)
qed

lemma automatic_instant:
  assumes i: "instant holds E" and r: "resting m s" and st: "smStatus m = SmActive"
  shows "\<exists>m'. automatic E m = Some (True, m') \<and> settled E m' s \<and> smStatus m' = SmRunning \<and>
      smpStatus m' = smpStatus m \<and> same_tables m m' \<and> sm_world m' = sm_world m"
proof -
  have r1: "resting (m\<lparr>smStatus := SmRunning\<rparr>) s" using r by (simp add: resting_at_def idle_def)
  have "current m = Some s" using r by (simp add: resting_at_def idle_def)
  with runState_resting [OF i r1] st show ?thesis
    by (auto simp: automatic_def not_usable_def same_machine_def same_tables_def)
qed

text \<open>C14: an automatic machine implements the reference semantics, in which programs finish at once:
  activating a loaded machine runs the entry program of the
  initial state; each \<^verbatim>\<open>execute()\<close> then runs the run program of the current state, takes the first
  transition, local ones before global ones, whose guard and whose target's preconditions hold (transition, exit, entry
  programs in this order; only the transition or handle program when it leads back), or else runs the
  handle program. Nothing else is executed, and no assertion fails, however long it runs. It is shown under these
  conditions. Every program finishes at its first execution and never fails, there is no initialisation command, and guards and
  preconditions, which may depend on all that was executed before, have no effects (\<open>instant\<close>). The machine is loaded and not
  activated yet (\<open>loaded\<close>), and the preconditions of the initial state hold. The tables are \<open>well_formed\<close>: every local
  transition has a target; a transition without a program that leads back to its own state is the first local one of this
  state; and if there is a global one without a program that leads back to a state (or to no particular state), this state has
  at most one local transition. Tables that are not well formed are where the interpreter departs from the semantics: after such
  a transition it does not try those before it again (\<open>self_transition_starves\<close>).\<close>

theorem automatic_machine_implements_rounds:
  assumes "instant holds E" and "loaded m s" and "preconditions_hold holds m s" and "well_formed (stateMap m)"
  shows "\<exists>m' s'. run_machine E n m = Some m' \<and> current m' = Some s' \<and> smStatus m' = SmRunning \<and>
    macro_rounds E holds (precondMap m) (stateMap m) n (s, sm_world m @ opt (getEntryProgram E s)) = (s', sm_world m')"
proof -
  obtain m1 where m1: "activate E m = Some (True, m1)" "resting m1 s" "smStatus m1 = SmActive" "smpStatus m1 = Nill"
    "same_tables m m1" "sm_world m1 = sm_world m @ opt (getEntryProgram E s)"
    using activate_instant [OF assms(1-3)] by blast
  obtain m2 where m2: "automatic E m1 = Some (True, m2)" "settled E m2 s" "smStatus m2 = SmRunning"
    "smpStatus m2 = smpStatus m1" "same_tables m1 m2" "sm_world m2 = sm_world m1"
    using automatic_instant [OF assms(1) m1(2,3)] by blast
  have "well_formed (stateMap m2)" using assms(4) m1(5) m2(5) by (simp add: same_tables_def)
  from execute_rounds_macro [OF assms(1) m2(2) this _ m2(3), of n] m1(4) m2(4) obtain m' s' where
    "execute_rounds E n m2 = Some m'" "settled E m' s'" "same_machine m2 m'"
    "macro_rounds E holds (precondMap m2) (stateMap m2) n (s, sm_world m2) = (s', sm_world m')" by auto
  with m1 m2 show ?thesis by (auto simp: run_machine_def same_tables_def same_machine_def settled_at_def)
qed

section \<open>Stopping\<close>

definition shutdown :: "'w sm_env \<Rightarrow> 'w sm \<Rightarrow> ('w sm \<times> bool \<times> 'w sm) option" where
  "shutdown E m = do { m1 \<leftarrow> execute E (snd (stop m)); (ok, m2) \<leftarrow> deactivate E m1; Some (m1, ok, m2) }"

definition final_log :: "nat list sm_env \<Rightarrow> (nat \<Rightarrow> nat list \<Rightarrow> bool) \<Rightarrow> (nat option \<Rightarrow> (nat \<times> int) list) \<Rightarrow>
    (nat option \<Rightarrow> transition list) \<Rightarrow> nat \<Rightarrow> nat \<Rightarrow> nat list \<Rightarrow> nat list" where
  "final_log E holds pre tr f s log =
     (if s = f then log @ opt (getHandleProgram E s)
      else log @ (case find (\<lambda>t. tr_to t = Some f \<and> enabled holds pre log t) (tr (Some s) @ tr None) of
                    None \<Rightarrow> [] | Some t \<Rightarrow> opt (tr_prog t)) @
           opt (getExitProgram E s) @ opt (getEntryProgram E f))"

lemma request_final_instant:
  assumes i: "instant holds E" and r: "resting m s" and f: "finistate m = Some f"
  shows "\<exists>m'. requestFinalState E m = Some (True, m') \<and> settled E m' f \<and> same_machine m m' \<and>
      sm_world m' = final_log E holds (precondMap m) (stateMap m) f s (sm_world m)"
proof -
  let ?P = "\<lambda>t. tr_to t = Some f \<and> enabled holds (precondMap m) (sm_world m) t"
  have st: "current m = Some s" "interruptible m" "\<not> checking_precond m" "\<not> inError m" and idle: "idle m s"
    using r by (simp_all add: resting_at_def idle_def interruptible_def inError_def)
  have e: "requestFinalState E m = requestStateChange E (Some f) m" using st f by (simp add: requestFinalState_def)
  show ?thesis
  proof (cases "s = f")
    case True
    with change_handle [OF i r] e st show ?thesis by (auto simp: requestStateChange_def final_log_def)
  next
    case False
    obtain m1 where m1: "first_enabled E (\<lambda>t. tr_to t = Some f) (stateMap m (Some s)) m =
        (find ?P (stateMap m (Some s)), m1)" "bookkeeping m m1"
      using first_enabled_instant [OF i st(3), of "\<lambda>t. tr_to t = Some f"] by blast
    note b1 = bookkeepingD [OF m1(2)]
    have "\<not> checking_precond m1" using b1 st by simp
    then obtain m2 where m2: "first_enabled E (\<lambda>t. tr_to t = Some f) (stateMap m1 None) m1 =
        (find ?P (stateMap m None), m2)" "bookkeeping m1 m2"
      using first_enabled_instant [OF i, of m1 "\<lambda>t. tr_to t = Some f" "stateMap m1 None"] b1 by auto
    have bk2: "bookkeeping m m2" by (rule bookkeeping_trans [OF m1(2) m2(2)])
    note b2 = bookkeepingD [OF bk2]
    have fin: "finistate m2 = Some f" using b2(7) f by (simp add: same_machine_def)
    have change: "\<exists>m'. changeState E (Some f) po False n = Some m' \<and> settled E m' f \<and> same_machine m m' \<and>
        sm_world m' = sm_world m @ opt po @ opt (getExitProgram E s) @ opt (getEntryProgram E f)"
      if "bookkeeping m n" for n po
      using change_other [OF i bookkeeping_idle [OF that idle] False [symmetric], of po] bookkeepingD [OF that]
        same_machine_trans by metis
    have fork: "requestStateChange E (Some f) m =
        (case find ?P (stateMap m (Some s)) of
           Some t \<Rightarrow> map_option (Pair True) (changeState E (Some f) (tr_prog t) False m1)
         | None \<Rightarrow> (case find ?P (stateMap m None) of
              Some t \<Rightarrow> map_option (Pair True) (changeState E (Some f) (tr_prog t) False m2)
            | None \<Rightarrow> map_option (Pair True) (changeState E (Some f) None False m2)))"
      using st False fin by (simp add: requestStateChange_def m1(1) m2(1) reset_all_instant [OF i]
          map_option_case split: option.split bind_splits)
    show ?thesis
    proof (cases "find ?P (stateMap m (Some s))")
      case (Some t)
      with change [OF m1(2), of "tr_prog t"] fork e False show ?thesis
        by (auto simp: final_log_def find_append_case)
    next
      case None
      show ?thesis
      proof (cases "find ?P (stateMap m None)")
        case (Some t)
        with None change [OF bk2, of "tr_prog t"] fork e False show ?thesis
          by (auto simp: final_log_def find_append_case)
      next
        case none: None
        with None change [OF bk2, of None] fork e False show ?thesis
          by (auto simp: final_log_def find_append_case)
      qed
    qed
  qed
qed

lemma deactivate_instant:
  assumes i: "instant holds E" and s: "settled E m s" and st: "smStatus m = SmStopped"
  shows "\<exists>m'. deactivate E m = Some (True, m') \<and> current m' = None \<and> smStatus m' = Inactive \<and>
      sm_world m' = sm_world m @ opt (getExitProgram E s)"
proof -
  have "\<exists>m'. deactivate E m = Some (True, m') \<and> current m' = None \<and> smStatus m' = Inactive \<and>
      sm_world m' = sm_world m @ opt (getExitProgram E s)"
    using s st
    by (cases "getExitProgram E s"; cases "getRunProgram E s")
      (simp_all add: settled_at_def deactivate_def disableEvents_def drop_if_error_def leaveState_def
        schedule_instant [OF i] run_defs executeProgram_instant [OF i] world_do_def Let_def)
  then show ?thesis .
qed

text \<open>C38: a running machine that has a final state and is between two rounds, of whose programs every one finishes at its
  first execution and never fails, and whose guards and preconditions have no effects (\<open>settled\<close>, \<open>instant\<close>), can
  be stopped, whatever its guards say: after \<^verbatim>\<open>stop()\<close>, the next
  \<^verbatim>\<open>execute()\<close> leaves the current state through its exit program and enters the final state, with the
  program of the first enabled transition to the final state if there is one; the machine then is stopped
  in the final state, and \<^verbatim>\<open>deactivate()\<close> runs the final state's exit program and leaves it inactive and
  in no state, so that it can be activated again. Programs that need several executions or fail are not covered.\<close>

theorem stop_reaches_final_state:
  assumes "instant holds E" and "settled E m s" and "smStatus m = SmRunning" and "finistate m = Some f"
  shows "\<exists>m1 m2. shutdown E m = Some (m1, True, m2) \<and>
    smStatus m1 = SmStopped \<and> current m1 = Some f \<and>
    sm_world m1 = final_log E holds (precondMap m) (stateMap m) f s (sm_world m @ opt (getRunProgram E s)) \<and>
    smStatus m2 = Inactive \<and> current m2 = None \<and> sm_world m2 = sm_world m1 @ opt (getExitProgram E f)"
proof -
  define m0 where "m0 = m\<lparr>smpStatus := Gostop\<rparr>"
  have "settled E m0 s" using assms(2) by (simp add: m0_def settled_at_def)
  then obtain m1 where m1: "executePending E False m0 = (True, m1)" "resting m1 s" "same_machine m0 m1"
    "sm_world m1 = sm_world m0 @ opt (getRunProgram E s)"
    using pending_settled [OF assms(1)] by blast
  have tabs: "finistate m1 = Some f" "precondMap m1 = precondMap m" "stateMap m1 = stateMap m"
    using m1(3) assms(4) by (simp_all add: same_machine_def m0_def)
  from request_final_instant [OF assms(1) m1(2) tabs(1)] tabs obtain m2 where m2:
    "requestFinalState E m1 = Some (True, m2)" "settled E m2 f"
    "sm_world m2 = final_log E holds (precondMap m) (stateMap m) f s (sm_world m1)"
    by auto
  have nt: "\<not> inTransition m2" using m2(2) by (auto simp: settled_at_def inTransition_def)
  define m3 where "m3 = m2\<lparr>smStatus := SmStopped, smpStatus := Nill\<rparr>"
  have ex: "execute E (snd (stop m)) = Some m3"
    using assms(3) m1(1) m2(1) nt
    by (simp add: stop_def not_usable_def execute_def execute_pending_status_def m0_def [symmetric] m3_def)
      (simp add: m0_def)
  have s3: "settled E m3 f" "smStatus m3 = SmStopped" using m2(2) by (simp_all add: m3_def settled_at_def)
  from deactivate_instant [OF assms(1) s3] obtain m4 where "deactivate E m3 = Some (True, m4)" "current m4 = None"
    "smStatus m4 = Inactive" "sm_world m4 = sm_world m3 @ opt (getExitProgram E f)" by blast
  with ex s3 m2(3) m1(4) show ?thesis
    by (intro exI [of _ m3] exI [of _ m4]) (simp add: shutdown_def settled_at_def m3_def m0_def)
qed

section \<open>A concrete machine\<close>

text \<open>Two states: program 1 enters state 0, 7 is its run program, 2 its exit program; 3 enters state 1,
  which runs 6. Condition 0 holds always, condition 1 once four programs were executed.\<close>

definition demo_holds :: "nat \<Rightarrow> nat list \<Rightarrow> bool" where
  "demo_holds c log \<longleftrightarrow> c = 0 \<or> length log \<ge> 4"

definition demo_env :: "nat list sm_env" where
  "demo_env =
     \<lparr>getEntryProgram = (\<lambda>s. if s = 0 then Some 1 else Some 3), getExitProgram = (\<lambda>s. if s = 0 then Some 2 else None),
      getRunProgram = (\<lambda>s. if s = 0 then Some 7 else Some 6), getHandleProgram = (\<lambda>_. None),
      cnd_reset = (\<lambda>_ w. w), cnd_evaluate = (\<lambda>c w. (demo_holds c w, w)), prog_reset = (\<lambda>_ w. w),
      prog_start = (\<lambda>_ w. (True, w)), prog_execute = (\<lambda>p w. w @ [p]), prog_step = (\<lambda>p w. w @ [p]),
      prog_pause = (\<lambda>_ w. w), prog_inError = (\<lambda>_ _. False), prog_isStopped = (\<lambda>_ _. True), init_command = None\<rparr>"

definition demo_machine :: "nat option \<Rightarrow> nat list sm" where
  "demo_machine self_prog =
     loading (setFinalState (Some 1) (setInitialState (Some 0)
       (transitionSet (Some 0) (Some 0) 0 self_prog 1 20
         (transitionSet (Some 0) (Some 1) 1 None 2 10 (sm_new [])))))"

lemma demo_instant: "instant demo_holds demo_env"
  by (simp add: instant_def demo_env_def)

lemmas demo_defs = demo_machine_def transitionSet_def sm_new_def loading_def setInitialState_def setFinalState_def

lemma demo_loaded: "loaded (demo_machine p) 0" "preconditions_hold demo_holds (demo_machine p) 0"
  by (simp_all add: demo_defs loaded_def preconditions_hold_def)

lemma demo_tables:
  "stateMap (demo_machine p) = (\<lambda>_. [])(Some 0 :=
     [\<lparr>tr_cond = 1, tr_to = Some 1, tr_priority = 2, tr_line = 10, tr_prog = None\<rparr>,
      \<lparr>tr_cond = 0, tr_to = Some 0, tr_priority = 1, tr_line = 20, tr_prog = p\<rparr>])"
  "precondMap (demo_machine p) = (\<lambda>_. [])" "sm_world (demo_machine p) = []" "finistate (demo_machine p) = Some 1"
  by (simp_all add: demo_defs fun_eq_iff)

lemma demo_well_formed: "well_formed (stateMap (demo_machine (Some 8)))"
  by (simp add: demo_tables well_formed_def)

lemma demo_rounds:
  "macro_rounds demo_env demo_holds (\<lambda>_. []) (stateMap (demo_machine (Some 8))) 3 (0, [1]) = (1, [1, 7, 8, 7, 2, 3, 6])"
  by (simp add: eval_nat_numeral macro_round_def enabled_def demo_tables demo_env_def demo_holds_def Let_def)

lemma automatic_machine_implements_rounds_witness:
  "\<exists>m. run_machine demo_env 3 (demo_machine (Some 8)) = Some m \<and> current m = Some 1 \<and> sm_world m = [1, 7, 8, 7, 2, 3, 6]"
proof -
  have "getEntryProgram demo_env 0 = Some 1" by (simp add: demo_env_def)
  with automatic_machine_implements_rounds [OF demo_instant demo_loaded demo_well_formed, of 3] demo_rounds
  show ?thesis by (auto simp: demo_tables)
qed

text \<open>The machine after activation and \<open>n\<close> rounds.\<close>

lemma demo_started:
  obtains m where "run_machine demo_env 0 (demo_machine p) = Some m" "settled demo_env m 0" "smStatus m = SmRunning"
    "smpStatus m = Nill" "same_tables (demo_machine p) m" "sm_world m = [1]"
proof -
  obtain m1 where m1: "activate demo_env (demo_machine p) = Some (True, m1)" "resting m1 0" "smStatus m1 = SmActive"
    "smpStatus m1 = Nill" "same_tables (demo_machine p) m1"
    "sm_world m1 = sm_world (demo_machine p) @ opt (getEntryProgram demo_env 0)"
    using activate_instant [OF demo_instant demo_loaded] by blast
  obtain m2 where m2: "automatic demo_env m1 = Some (True, m2)" "settled demo_env m2 0" "smStatus m2 = SmRunning"
    "smpStatus m2 = smpStatus m1" "same_tables m1 m2" "sm_world m2 = sm_world m1"
    using automatic_instant [OF demo_instant m1(2,3)] by blast
  show ?thesis
    by (rule that [of m2]) (use m1 m2 in \<open>simp_all add: run_machine_def same_tables_def demo_tables demo_env_def\<close>)
qed

lemma stop_reaches_final_state_witness:
  "\<exists>m m1 m2. run_machine demo_env 0 (demo_machine (Some 8)) = Some m \<and> shutdown demo_env m = Some (m1, True, m2) \<and>
     smStatus m1 = SmStopped \<and> current m1 = Some 1 \<and> sm_world m1 = [1, 7, 2, 3] \<and> smStatus m2 = Inactive"
proof -
  obtain m where m: "run_machine demo_env 0 (demo_machine (Some 8)) = Some m" "settled demo_env m 0"
    "smStatus m = SmRunning" "same_tables (demo_machine (Some 8)) m" "sm_world m = [1]"
    using demo_started by blast
  from m(4) have t: "finistate m = Some 1" "stateMap m = stateMap (demo_machine (Some 8))" "precondMap m = (\<lambda>_. [])"
    by (simp_all add: same_tables_def demo_tables)
  have log: "final_log demo_env demo_holds (precondMap m) (stateMap m) 1 0 ([1] @ opt (getRunProgram demo_env 0)) = [1, 7, 2, 3]"
    unfolding t by (simp add: final_log_def demo_tables demo_env_def enabled_def demo_holds_def)
  from stop_reaches_final_state [OF demo_instant m(2,3) t(1)] log m(1,5) show ?thesis by auto
qed

section \<open>Departures\<close>

lemma stuck_round:
  assumes i: "instant holds E" and s: "settled_at E m s j" and st: "smpStatus m = Nill" "smStatus m = SmRunning"
    and t: "j < length (stateMap m (Some s))" "tr_to (stateMap m (Some s) ! j) = Some s"
      "tr_prog (stateMap m (Some s) ! j) = None" "\<And>log. enabled holds (precondMap m) log (stateMap m (Some s) ! j)"
  shows "\<exists>m'. execute E m = Some m' \<and> settled_at E m' s j \<and> same_machine m m'"
proof -
  let ?t = "stateMap m (Some s) ! j"
  obtain m1 where m1: "executePending E False m = (True, m1)" "resting_at m1 s j" "same_machine m m1"
    using pending_settled [OF i s] by blast
  have e: "execute E m = requestNextState E False m1"
    using m1(1) st by (simp add: execute_def not_usable_def execute_status_def)
  have maps: "stateMap m1 = stateMap m" "precondMap m1 = precondMap m" using m1(3) by (simp_all add: same_machine_def)
  have r: "current m1 = Some s" "req_of m1 = Some s" "reqstep m1 = j" "interruptible m1" "currentTrans m1 = None"
    "\<not> checking_precond m1" "idle m1 s"
    using m1(2) by (simp_all add: resting_at_def idle_def interruptible_def)
  have d: "drop j (stateMap m (Some s)) = ?t # drop (Suc j) (stateMap m (Some s))" using t(1) by (simp add: Cons_nth_drop_Suc)
  obtain m2 where m2: "checkConditions E (Some s) False m1 = (1, m2)" "bookkeeping m1 m2" "reqstep m2 = reqstep m1"
    using checkConditions_instant [OF i r(6), of "Some s"] t(2,4) maps by (auto simp: enabled_def)
  have ev: "evaluate E (tr_cond ?t) m1 = (True, m1)" using t(4) by (simp add: evaluate_def instantD [OF i] enabled_def)
  have "requestNextState E False m1 = next_loop E False (drop j (stateMap m (Some s))) m1"
    using r t(1) by (auto simp add: requestNextState_def reset_all_instant [OF i] maps Let_def simp del: next_loop.simps)
  also have "\<dots> = next_loop E False (?t # drop (Suc j) (stateMap m (Some s))) m1" unfolding d ..
  also have "\<dots> = changeState E (Some s) None False m2" using ev m2(1) t(2,3) by (simp add: Let_def)
  finally have n: "requestNextState E False m1 = changeState E (Some s) None False m2" .
  have "resting_at m2 s j" using bookkeeping_idle [OF m2(2) r(7)] m2(3) r(3) by (simp add: resting_at_def)
  with change_handle [OF i this] n e m1(3) bookkeepingD(7) [OF m2(2)] show ?thesis by (auto simp: same_machine_def)
qed

text \<open>A transition without a program that leads back to its own state does not set the search back to
  the first transition, although the code's comment calls that necessary ("or the next iteration would skip
  transition checks"). If its guard always holds, the machine never leaves the state again, and transitions
  of higher priority are never tried, whatever becomes of their guards.\<close>

theorem self_transition_starves:
  assumes "instant holds E" and "settled_at E m s j" and "smpStatus m = Nill" and "smStatus m = SmRunning"
    and "j < length (stateMap m (Some s))" and "tr_to (stateMap m (Some s) ! j) = Some s"
    and "tr_prog (stateMap m (Some s) ! j) = None"
    and "\<And>log. enabled holds (precondMap m) log (stateMap m (Some s) ! j)"
  shows "\<exists>m'. execute_rounds E n m = Some m' \<and> current m' = Some s \<and> reqstep m' = j"
  using assms(2-)
proof (induction n arbitrary: m)
  case 0
  then show ?case by (simp add: settled_at_def)
next
  case (Suc n)
  from stuck_round [OF assms(1) Suc.prems] obtain m1 where m1: "execute E m = Some m1" "settled_at E m1 s j" "same_machine m m1"
    by blast
  from m1(3) have eqs: "stateMap m1 = stateMap m" "precondMap m1 = precondMap m" "smpStatus m1 = smpStatus m"
    "smStatus m1 = smStatus m" by (simp_all add: same_machine_def)
  have "\<exists>m'. execute_rounds E n m1 = Some m' \<and> current m' = Some s \<and> reqstep m' = j"
    by (rule Suc.IH) (use m1(2) Suc.prems eqs in simp_all)
  with m1(1) show ?case by simp
qed

text \<open>After one round the machine below is in state 0 with its search at the self transition.\<close>

lemma self_transition_starves_witness:
  "\<exists>m. run_machine demo_env 1 (demo_machine None) = Some m \<and>
     (\<forall>n. \<exists>m'. execute_rounds demo_env n m = Some m' \<and> current m' = Some 0) \<and>
     (\<forall>log. length log \<ge> 4 \<longrightarrow> enabled demo_holds (precondMap m) log (stateMap m (Some 0) ! 0))"
proof -
  obtain m0 where m0: "run_machine demo_env 0 (demo_machine None) = Some m0" "settled demo_env m0 0"
    "smStatus m0 = SmRunning" "smpStatus m0 = Nill" "same_tables (demo_machine None) m0" "sm_world m0 = [1]"
    using demo_started by blast
  have t: "stateMap m0 = stateMap (demo_machine None)" "precondMap m0 = (\<lambda>_. [])"
    using m0(5) by (simp_all add: same_tables_def demo_tables)
  obtain m1 where m1: "executePending demo_env False m0 = (True, m1)" "resting_at m1 0 0" "same_machine m0 m1"
    "sm_world m1 = [1, 7]"
    using pending_settled [OF demo_instant m0(2)] m0(6) by (auto simp: demo_env_def)
  have r: "current m1 = Some 0" "req_of m1 = Some 0" "reqstep m1 = 0" "interruptible m1" "currentTrans m1 = None"
    "\<not> checking_precond m1" "idle m1 0"
    using m1(2) by (simp_all add: resting_at_def idle_def interruptible_def)
  have t1: "stateMap m1 = stateMap m0" "precondMap m1 = (\<lambda>_. [])" using m1(3) t by (simp_all add: same_machine_def)
  define m2 where "m2 = m1\<lparr>reqstep := 1, evaluating := 20, prec_left := [], checking_precond := False\<rparr>"
  have ev: "evaluate demo_env 1 m1 = (False, m1)" "evaluate demo_env 0 m = (True, m)" for m
    by (simp_all add: evaluate_def demo_env_def demo_holds_def m1(4))
  have nx: "requestNextState demo_env False m1 = changeState demo_env (Some 0) None False m2"
    using r ev
    by (simp add: requestNextState_def reset_all_instant [OF demo_instant] t1 t demo_tables Let_def checkConditions_def
        check_loop.simps m2_def)
  have "resting_at m2 0 1" using r(7) by (simp add: resting_at_def m2_def idle_def)
  from change_handle [OF demo_instant this] nx obtain m3 where m3: "requestNextState demo_env False m1 = Some m3"
    "settled_at demo_env m3 0 1" "same_machine m2 m3" by auto
  have e: "execute demo_env m0 = Some m3"
    using m1(1) m0(3,4) m3(1) by (simp add: execute_def not_usable_def execute_status_def)
  have same: "same_machine m0 m3" using m1(3) m3(3) by (simp add: same_machine_def m2_def)
  then have k: "smpStatus m3 = Nill" "smStatus m3 = SmRunning" "stateMap m3 = stateMap (demo_machine None)"
    "precondMap m3 = (\<lambda>_. [])" using m0 t by (simp_all add: same_machine_def)
  have "\<exists>m'. execute_rounds demo_env n m3 = Some m' \<and> current m' = Some 0 \<and> reqstep m' = 1" for n
    by (rule self_transition_starves [OF demo_instant m3(2) k(1,2)])
      (simp_all add: k demo_tables enabled_def demo_holds_def)
  moreover have "run_machine demo_env 1 (demo_machine None) = Some m3"
    using m0(1) e by (auto simp: run_machine_def split: bind_splits)
  ultimately show ?thesis by (intro exI [of _ m3]) (auto simp: k demo_tables enabled_def demo_holds_def)
qed

text \<open>a machine that was never loaded cannot be activated, but \<^verbatim>\<open>deactivate()\<close> accepts it and
  leaves it inactive, the status that stands for loaded; from then on \<^verbatim>\<open>activate()\<close> does not refuse it.\<close>

theorem deactivate_hides_unloaded:
  "activate E (sm_new w) = Some (False, sm_new w) \<and>
   (\<exists>m. deactivate E (sm_new w) = Some (True, m) \<and> smStatus m = Inactive \<and> current m = None)"
  by (simp add: activate_def deactivate_def sm_new_def disableEvents_def drop_if_error_def run_defs Let_def)

text \<open>Switching to automatic mode while a state is being left: exit program 2 now takes two executions.\<close>

definition slow_env :: "nat list sm_env" where
  "slow_env = demo_env\<lparr>prog_isStopped := (\<lambda>p w. p = 2 \<longrightarrow> length (filter ((=) 2) w) \<ge> 2)\<rparr>"

definition slow_machine :: "nat list sm" where
  "slow_machine = loading (setInitialState (Some 0) (transitionSet (Some 0) (Some 1) 0 None 1 10 (sm_new [])))"

text \<open>\<^verbatim>\<open>automatic()\<close> schedules the run program of the state that is still current. When the machine
  is between two states, that is the state being left, and its run program 7 is executed after the new state has been
  entered (program 3), in place of the new state's own run program 6.\<close>

theorem automatic_in_transition_runs_old_state:
  "map_option (\<lambda>m. (current m, sm_world m))
     (do { (_, m1) \<leftarrow> activate slow_env slow_machine; (_, m2) \<leftarrow> automatic slow_env m1; m3 \<leftarrow> execute slow_env m2;
           (_, m4) \<leftarrow> automatic slow_env m3; execute slow_env m4 }) = Some (Some 1, [1, 7, 2, 2, 3, 7])"
  by code_simp

end
