(* ===== verification/FunctionGraph.thy ===== *)
theory FunctionGraph
  imports OroPrelude "HOL-Library.Monad_Syntax"
begin

text \<open>
  The interpreter of compiled scripts, \<^verbatim>\<open>FunctionGraph\<close> (\<^verbatim>\<open>rtt/scripting/FunctionGraph.cpp\<close>,
  \<^verbatim>\<open>ProgramInterface.hpp\<close>): a graph whose vertices hold commands and whose edges hold conditions, walked
  from a start to an exit vertex, with start, pause, step, stop and error states.

  Vertices and edges are numbers. The commands and conditions (\<^verbatim>\<open>ActionInterface\<close>,
  \<^verbatim>\<open>ConditionInterface\<close>) are parameters, collected in the record \<open>graph_env\<close>; they act on a world of type
  \<open>'w\<close>, and a command may also call operations of its own program. A result flag \<open>False\<close>, or \<open>None\<close> for
  a condition, stands for an exception.
\<close>

section \<open>State\<close>

datatype program_status = Unknown | PStopped | PPaused | PRunning | PError

record 'w function_graph =
  pStatus :: program_status
  fg_current :: nat
  fg_previous :: nat
  startv :: nat
  exitv :: nat
  pausing :: bool
  fg_mstep :: bool
  munload_on_stop :: bool
  isLoaded :: bool
  fg_world :: 'w

record 'w graph_env =
  out_edges :: "nat \<Rightarrow> (nat \<times> nat) list"
  startExecution :: "nat \<Rightarrow> 'w \<Rightarrow> bool \<times> 'w"
  cmd_execute :: "nat \<Rightarrow> 'w function_graph \<Rightarrow> bool \<times> 'w function_graph"
  isValid :: "nat \<Rightarrow> 'w \<Rightarrow> bool"
  cond_reset :: "nat \<Rightarrow> 'w \<Rightarrow> 'w"
  cond_evaluate :: "nat \<Rightarrow> 'w \<Rightarrow> bool option \<times> 'w"

section \<open>Control\<close>

definition fg_stop :: "'w function_graph \<Rightarrow> bool \<times> 'w function_graph" where
  "fg_stop m = (True, m\<lparr>pStatus := PStopped\<rparr>)"

definition fg_reset :: "'w function_graph \<Rightarrow> 'w function_graph" where
  "fg_reset m = snd (fg_stop (m\<lparr>fg_current := startv m, fg_previous := exitv m\<rparr>))"

definition fg_start :: "'w function_graph \<Rightarrow> bool \<times> 'w function_graph" where
  "fg_start m =
     (if \<not> isLoaded m then (False, m)
      else
        let m1 = (if pStatus m = PStopped then fg_reset m else m)
        in if pStatus m1 = PStopped \<or> pStatus m1 = PPaused then (True, m1\<lparr>pStatus := PRunning\<rparr>) else (False, m1))"

definition fg_pause :: "'w function_graph \<Rightarrow> bool \<times> 'w function_graph" where
  "fg_pause m =
     (if isLoaded m then (True, (if pStatus m = PStopped then fg_reset m else m)\<lparr>pausing := True\<rparr>) else (False, m))"

definition fg_step :: "'w function_graph \<Rightarrow> bool \<times> 'w function_graph" where
  "fg_step m =
     (if isLoaded m \<and> pStatus m = PPaused \<and> \<not> fg_mstep m then (True, m\<lparr>fg_mstep := True\<rparr>) else (False, m))"

definition stepDone :: "'w function_graph \<Rightarrow> bool" where
  "stepDone m \<longleftrightarrow> \<not> fg_mstep m"

text \<open>The vertices of a new graph; and those of a copy, where both searches of the copy constructor
  advance the iterator \<^verbatim>\<open>it\<close> but take the vertex of \<^verbatim>\<open>v1\<close>, the first one.\<close>

definition fg_new :: "bool \<Rightarrow> nat \<Rightarrow> nat \<Rightarrow> 'w \<Rightarrow> 'w function_graph" where
  "fg_new unload s e w =
     \<lparr>pStatus = PStopped, fg_current = s, fg_previous = e, startv = s, exitv = e, pausing = False, fg_mstep = False,
      munload_on_stop = unload, isLoaded = False, fg_world = w\<rparr>"

definition fg_finish :: "'w function_graph \<Rightarrow> 'w function_graph" where
  "fg_finish m = fg_reset m"

definition fg_clone :: "nat list \<Rightarrow> bool \<Rightarrow> bool \<Rightarrow> bool \<Rightarrow> 'w \<Rightarrow> 'w function_graph" where
  "fg_clone vertices pausing0 mstep0 unload0 w =
     fg_finish \<lparr>pStatus = PStopped, fg_current = 0, fg_previous = 0, startv = hd vertices, exitv = hd vertices,
       pausing = pausing0, fg_mstep = mstep0, munload_on_stop = unload0, isLoaded = False, fg_world = w\<rparr>"

definition fg_loading :: "'w function_graph \<Rightarrow> 'w function_graph" where
  "fg_loading m =
     (let m1 = m\<lparr>isLoaded := True\<rparr> in if munload_on_stop m1 then snd (fg_start m1) else m1)"

definition needsStart :: "'w function_graph \<Rightarrow> bool" where
  "needsStart m \<longleftrightarrow> \<not> munload_on_stop m"

section \<open>Walking the graph\<close>

text \<open>At a vertex that was just reached: reset the conditions of its edges and prepare its command.\<close>

definition enter_vertex :: "'w graph_env \<Rightarrow> 'w function_graph \<Rightarrow> bool \<times> 'w function_graph" where
  "enter_vertex E m =
     (if fg_previous m \<noteq> fg_current m then
        (case startExecution E (fg_current m) (fold (\<lambda>(e, _). cond_reset E e) (out_edges E (fg_current m)) (fg_world m)) of
           (ok, w) \<Rightarrow> (ok, m\<lparr>fg_world := w\<rparr>))
      else (True, m))"

datatype branch = Taken nat | NoBranch | Threw

fun select_branch :: "'w graph_env \<Rightarrow> (nat \<times> nat) list \<Rightarrow> 'w \<Rightarrow> branch \<times> 'w" where
  "select_branch E [] w = (NoBranch, w)"
| "select_branch E ((e, t) # es) w =
     (case cond_evaluate E e w of
        (None, w1) \<Rightarrow> (Threw, w1)
      | (Some b, w1) \<Rightarrow> if b then (Taken t, w1) else select_branch E es w1)"

text \<open>One vertex: enter, execute, branch. \<open>False\<close> is an exception, which leaves the program in error.\<close>

definition visit :: "'w graph_env \<Rightarrow> 'w function_graph \<Rightarrow> bool \<times> 'w function_graph" where
  "visit E m =
     (case enter_vertex E m of (ok, m1) \<Rightarrow>
        if \<not> ok then (False, m1\<lparr>pStatus := PError\<rparr>)
        else (case cmd_execute E (fg_current m1) (m1\<lparr>fg_previous := fg_current m1\<rparr>) of (ok, m2) \<Rightarrow>
          if \<not> ok then (False, m2\<lparr>pStatus := PError\<rparr>)
          else if \<not> isValid E (fg_current m2) (fg_world m2) then (True, m2)
          else (case select_branch E (out_edges E (fg_current m2)) (fg_world m2) of (b, w) \<Rightarrow>
            (case b of
               Taken t \<Rightarrow> (True, m2\<lparr>fg_world := w, fg_current := t\<rparr>)
             | NoBranch \<Rightarrow> (True, m2\<lparr>fg_world := w\<rparr>)
             | Threw \<Rightarrow> (False, m2\<lparr>fg_world := w, pStatus := PError\<rparr>)))))"

text \<open>The loop of \<^verbatim>\<open>executeUntil\<close> may not end: a cycle of the graph whose conditions stay true.\<close>

partial_function (option) until_loop :: "'w graph_env \<Rightarrow> 'w function_graph \<Rightarrow> (bool \<times> 'w function_graph) option" where
  "until_loop E m =
     (case visit E m of (ok, m1) \<Rightarrow>
        if \<not> ok then Some (False, m1)
        else if fg_previous m1 \<noteq> fg_current m1 \<and> pStatus m1 = PRunning \<and> \<not> pausing m1 then until_loop E m1
        else Some (True, m1))"

definition executeUntil :: "'w graph_env \<Rightarrow> 'w function_graph \<Rightarrow> (bool \<times> 'w function_graph) option" where
  "executeUntil E m =
     do {
       (ok, m1) \<leftarrow> until_loop E m;
       Some (if \<not> ok then (False, m1)
             else if fg_current m1 = exitv m1 then (\<not> munload_on_stop m1, snd (fg_stop m1))
             else (True, m1))
     }"

definition executeStep :: "'w graph_env \<Rightarrow> 'w function_graph \<Rightarrow> bool \<times> 'w function_graph" where
  "executeStep E m =
     (case visit E m of (ok, m1) \<Rightarrow>
        if \<not> ok then (False, m1)
        else (True, if fg_current m1 = exitv m1 then snd (fg_stop m1) else m1))"

definition fg_execute :: "'w graph_env \<Rightarrow> 'w function_graph \<Rightarrow> (bool \<times> 'w function_graph) option" where
  "fg_execute E m =
     (if pausing m then Some (True, m\<lparr>pStatus := PPaused, pausing := False\<rparr>)
      else case pStatus m of
        PRunning \<Rightarrow> executeUntil E m
      | PPaused \<Rightarrow> Some (True, if fg_mstep m then snd (executeStep E (m\<lparr>fg_mstep := False\<rparr>)) else m)
      | _ \<Rightarrow> Some (\<not> munload_on_stop m, m))"

section \<open>Scripts that never wait\<close>

text \<open>The world is the list of executed vertices; conditions are arbitrary functions of it.\<close>

definition tracing :: "(nat \<Rightarrow> nat list \<Rightarrow> bool) \<Rightarrow> nat list graph_env \<Rightarrow> bool" where
  "tracing holds E \<longleftrightarrow>
     (\<forall>v w. startExecution E v w = (True, w) \<and> isValid E v w) \<and>
     (\<forall>v m. cmd_execute E v m = (True, m\<lparr>fg_world := fg_world m @ [v]\<rparr>)) \<and>
     (\<forall>e w. cond_reset E e w = w \<and> cond_evaluate E e w = (Some (holds e w), w))"

text \<open>The reference: from vertex \<open>v\<close>, execute and follow the first edge whose condition holds, at most \<open>n\<close>
  times; the result is the vertex where no edge leads on and what was executed.\<close>

definition next_vertex :: "'w graph_env \<Rightarrow> (nat \<Rightarrow> 'w \<Rightarrow> bool) \<Rightarrow> nat \<Rightarrow> 'w \<Rightarrow> nat option" where
  "next_vertex E holds v w = map_option snd (find (\<lambda>(e, _). holds e w) (out_edges E v))"

fun path_run :: "nat list graph_env \<Rightarrow> (nat \<Rightarrow> nat list \<Rightarrow> bool) \<Rightarrow> nat \<Rightarrow> nat \<Rightarrow> nat list \<Rightarrow> (nat \<times> nat list) option" where
  "path_run E holds 0 v w = None"
| "path_run E holds (Suc n) v w =
     (case next_vertex E holds v (w @ [v]) of
        None \<Rightarrow> Some (v, w @ [v])
      | Some t \<Rightarrow> if t = v then Some (v, w @ [v]) else path_run E holds n t (w @ [v]))"

lemma tracing_resets: "tracing holds E \<Longrightarrow> fold (\<lambda>(e, _). cond_reset E e) es w = w"
  by (induction es arbitrary: w) (auto simp: tracing_def)

lemma tracing_select:
  "tracing holds E \<Longrightarrow> select_branch E es w =
     (case map_option snd (find (\<lambda>(e, _). holds e w) es) of None \<Rightarrow> NoBranch | Some t \<Rightarrow> Taken t, w)"
  by (induction es) (auto simp: tracing_def)

lemma tracing_visit:
  assumes "tracing holds E"
  shows "visit E m = (True, m\<lparr>fg_previous := fg_current m, fg_world := fg_world m @ [fg_current m],
    fg_current := (case next_vertex E holds (fg_current m) (fg_world m @ [fg_current m]) of
                     None \<Rightarrow> fg_current m | Some t \<Rightarrow> t)\<rparr>)"
proof -
  have e: "enter_vertex E m = (True, m)"
    using assms by (simp add: enter_vertex_def tracing_resets [OF assms]) (simp add: tracing_def)
  have "cmd_execute E v n = (True, n\<lparr>fg_world := fg_world n @ [v]\<rparr>)" "isValid E v w" for v n w
    using assms by (simp_all add: tracing_def)
  moreover have "m\<lparr>fg_previous := a, fg_world := w, fg_current := fg_current m\<rparr> = m\<lparr>fg_previous := a, fg_world := w\<rparr>" for a w
    by (cases m) simp
  ultimately show ?thesis
    by (simp add: visit_def e tracing_select [OF assms] next_vertex_def split: option.split)
qed

lemma until_loop_path:
  assumes t: "tracing holds E"
  shows "path_run E holds n (fg_current m) (fg_world m) = Some (v, w) \<Longrightarrow> pStatus m = PRunning \<Longrightarrow> \<not> pausing m \<Longrightarrow>
    until_loop E m = Some (True, m\<lparr>fg_current := v, fg_previous := v, fg_world := w\<rparr>)"
proof (induction n arbitrary: m)
  case (Suc n)
  let ?w = "fg_world m @ [fg_current m]"
  show ?case
  proof (cases "next_vertex E holds (fg_current m) ?w")
    case None
    with Suc.prems show ?thesis by (cases m) (subst until_loop.simps, simp add: tracing_visit [OF t])
  next
    case (Some u)
    show ?thesis
    proof (cases "u = fg_current m")
      case True
      with Some Suc.prems show ?thesis by (cases m) (subst until_loop.simps, simp add: tracing_visit [OF t])
    next
      case False
      let ?m = "m\<lparr>fg_previous := fg_current m, fg_world := ?w, fg_current := u\<rparr>"
      have "until_loop E m = until_loop E ?m"
        using False Some Suc.prems by (subst until_loop.simps) (simp add: tracing_visit [OF t])
      moreover have "until_loop E ?m = Some (True, ?m\<lparr>fg_current := v, fg_previous := v, fg_world := w\<rparr>)"
        by (rule Suc.IH) (use Suc.prems Some False in simp_all)
      ultimately show ?thesis by (cases m) simp
    qed
  qed
qed simp

text \<open>C28: one \<^verbatim>\<open>execute()\<close> of a started script walks the whole path. With commands that complete at once
  and arbitrary conditions, a loaded script that is started executes the command of every vertex
  of the path that the conditions select from the start vertex, each once and in order, and if the path ends in the exit
  vertex the script is stopped and reports whether it stays loaded; otherwise it waits, running, at the last vertex.
  It returns whenever the path is finite.\<close>

theorem execute_walks_path:
  assumes "tracing holds E" and "isLoaded m" and "pStatus m = PStopped" and "\<not> pausing m"
    and "path_run E holds n (startv m) (fg_world m) = Some (v, w)"
  shows "\<exists>m'. fg_execute E (snd (fg_start m)) = Some (v \<noteq> exitv m \<or> \<not> munload_on_stop m, m') \<and>
    fg_world m' = w \<and> fg_current m' = v \<and> pStatus m' = (if v = exitv m then PStopped else PRunning)"
proof -
  define m1 where "m1 = m\<lparr>fg_current := startv m, fg_previous := exitv m, pStatus := PRunning\<rparr>"
  have s: "snd (fg_start m) = m1" using assms(2,3) by (simp add: fg_start_def fg_reset_def fg_stop_def m1_def)
  have "until_loop E m1 = Some (True, m1\<lparr>fg_current := v, fg_previous := v, fg_world := w\<rparr>)"
    by (rule until_loop_path [OF assms(1)]) (use assms(4,5) in \<open>simp_all add: m1_def\<close>)
  moreover have "pStatus m1 = PRunning" "\<not> pausing m1" "exitv m1 = exitv m" "munload_on_stop m1 = munload_on_stop m"
    using assms(4) by (simp_all add: m1_def)
  ultimately show ?thesis using s by (simp add: fg_execute_def executeUntil_def fg_stop_def)
qed

section \<open>Stepping\<close>

definition step_once :: "'w graph_env \<Rightarrow> 'w function_graph \<Rightarrow> 'w function_graph option" where
  "step_once E m = map_option snd (fg_execute E (snd (fg_step m)))"

fun step_times :: "'w graph_env \<Rightarrow> nat \<Rightarrow> 'w function_graph \<Rightarrow> 'w function_graph option" where
  "step_times E 0 m = Some m"
| "step_times E (Suc k) m = do { m1 \<leftarrow> step_once E m; step_times E k m1 }"

lemma step_times_path:
  assumes t: "tracing holds E"
  shows "path_run E holds n (fg_current m) (fg_world m) = Some (exitv m, w) \<Longrightarrow> fg_current m \<noteq> exitv m \<Longrightarrow>
    out_edges E (exitv m) = [] \<Longrightarrow>
    isLoaded m \<Longrightarrow> pStatus m = PPaused \<Longrightarrow> \<not> pausing m \<Longrightarrow> \<not> fg_mstep m \<Longrightarrow>
    \<exists>k m'. k < n \<and> step_times E k m = Some m' \<and> pStatus m' = PStopped \<and> fg_current m' = exitv m \<and> fg_world m' @ [exitv m] = w"
proof (induction n arbitrary: m)
  case (Suc n)
  let ?w = "fg_world m @ [fg_current m]"
  from Suc.prems obtain u where u: "next_vertex E holds (fg_current m) ?w = Some u" "u \<noteq> fg_current m"
    "path_run E holds n u ?w = Some (exitv m, w)"
    by (auto split: option.splits if_splits)
  let ?m = "m\<lparr>fg_previous := fg_current m, fg_world := ?w, fg_current := u\<rparr>"
  have once: "step_once E m = Some (if u = exitv m then ?m\<lparr>pStatus := PStopped\<rparr> else ?m)"
    using Suc.prems u(1)
    by (cases m) (simp add: step_once_def fg_step_def fg_execute_def executeStep_def tracing_visit [OF t] fg_stop_def)
  show ?case
  proof (cases "u = exitv m")
    case True
    obtain n' where n: "n = Suc n'" using u(3) by (cases n) auto
    have "next_vertex E holds u w' = None" for w' using Suc.prems(3) True by (simp add: next_vertex_def)
    with u(3) True n have "?w @ [exitv m] = w" by simp
    with once True n show ?thesis by (intro exI [of _ 1] exI [of _ "?m\<lparr>pStatus := PStopped\<rparr>"]) simp
  next
    case False
    have "\<exists>k m'. k < n \<and> step_times E k ?m = Some m' \<and> pStatus m' = PStopped \<and> fg_current m' = exitv ?m \<and>
        fg_world m' @ [exitv ?m] = w"
      by (rule Suc.IH) (use Suc.prems u False in simp_all)
    then obtain k m' where "k < n" "step_times E k ?m = Some m'" "pStatus m' = PStopped" "fg_current m' = exitv m"
      "fg_world m' @ [exitv m] = w" by auto
    with once False show ?thesis by (intro exI [of _ "Suc k"] exI [of _ m']) simp
  qed
qed simp

text \<open>Stepping executes what running executes. A script that is paused before it starts and then
  stepped until it stops executes, one per step, the same commands in the same order as one
  that is started and executed, save the command of the exit vertex, which only a running script executes.\<close>

theorem stepping_follows_path:
  assumes "tracing holds E" and "isLoaded m" and "pStatus m = PStopped" and "\<not> fg_mstep m" and "startv m \<noteq> exitv m"
    and "out_edges E (exitv m) = []" and "path_run E holds n (startv m) (fg_world m) = Some (exitv m, w)"
  shows "\<exists>m1 k m'. fg_execute E (snd (fg_pause m)) = Some (True, m1) \<and> k < n \<and> step_times E k m1 = Some m' \<and>
    pStatus m' = PStopped \<and> fg_current m' = exitv m \<and> fg_world m' @ [exitv m] = w"
proof -
  define m1 where "m1 = m\<lparr>fg_current := startv m, fg_previous := exitv m, pStatus := PPaused, pausing := False\<rparr>"
  have p: "fg_execute E (snd (fg_pause m)) = Some (True, m1)"
    using assms(2,3) by (simp add: fg_pause_def fg_reset_def fg_stop_def fg_execute_def m1_def)
  have "\<exists>k m'. k < n \<and> step_times E k m1 = Some m' \<and> pStatus m' = PStopped \<and> fg_current m' = exitv m1 \<and>
      fg_world m' @ [exitv m1] = w"
    by (rule step_times_path [OF assms(1)]) (use assms in \<open>simp_all add: m1_def\<close>)
  with p show ?thesis by (auto simp: m1_def)
qed

section \<open>Errors\<close>

lemma visit_error: "visit E m = (False, m') \<Longrightarrow> pStatus m' = PError"
  by (auto simp: visit_def split: prod.splits if_splits branch.splits)

lemma until_loop_error:
  assumes "until_loop E m = Some r"
  shows "\<not> fst r \<longrightarrow> pStatus (snd r) = PError"
proof (rule until_loop.raw_induct [where P = "\<lambda>_ _ r. \<not> fst r \<longrightarrow> pStatus (snd r) = PError", OF _ assms])
  fix loop :: "'a graph_env \<Rightarrow> 'a function_graph \<Rightarrow> (bool \<times> 'a function_graph) option" and E m r
  assume IH: "\<And>E m r. loop E m = Some r \<Longrightarrow> \<not> fst r \<longrightarrow> pStatus (snd r) = PError"
    and body: "(case visit E m of (ok, m1) \<Rightarrow>
        if \<not> ok then Some (False, m1)
        else if fg_previous m1 \<noteq> fg_current m1 \<and> pStatus m1 = PRunning \<and> \<not> pausing m1 then loop E m1
        else Some (True, m1)) = Some r"
  obtain ok m1 where v: "visit E m = (ok, m1)" by fastforce
  show "\<not> fst r \<longrightarrow> pStatus (snd r) = PError"
  proof (cases "ok \<and> fg_previous m1 \<noteq> fg_current m1 \<and> pStatus m1 = PRunning \<and> \<not> pausing m1")
    case True
    with body v have "loop E m1 = Some r" by simp
    then show ?thesis by (rule IH)
  next
    case False
    with body v visit_error [of E m m1] show ?thesis by (cases ok) auto
  qed
qed

text \<open>an exception in a command or a condition stops the script for good. If \<^verbatim>\<open>execute()\<close> of a running
  script ends with an exception, the script is in error; in that state \<^verbatim>\<open>execute()\<close> does nothing, and \<^verbatim>\<open>start()\<close> and \<^verbatim>\<open>step()\<close>
  are refused until it is reset.\<close>

theorem script_error_is_sticky:
  assumes "until_loop E m = Some (False, m')" and "pStatus m = PRunning" and "\<not> pausing m"
  shows "fg_execute E m = Some (False, m') \<and> pStatus m' = PError \<and>
    \<not> fst (fg_start m') \<and> snd (fg_start m') = m' \<and> \<not> fst (fg_step m') \<and>
    (\<not> pausing m' \<longrightarrow> fg_execute E m' = Some (\<not> munload_on_stop m', m'))"
proof -
  have e: "pStatus m' = PError" using until_loop_error [OF assms(1)] by simp
  have "fg_execute E m = Some (False, m')" using assms by (simp add: fg_execute_def executeUntil_def)
  with e show ?thesis by (simp add: fg_start_def fg_step_def fg_execute_def)
qed

section \<open>A concrete script\<close>

text \<open>From 0 through 1 and back once, then to the exit 2.\<close>

definition script_env :: "nat list graph_env" where
  "script_env =
     \<lparr>out_edges = (\<lambda>v. if v = 0 then [(10, 1)] else if v = 1 then [(11, 0), (12, 2)] else []),
      startExecution = (\<lambda>_ w. (True, w)), cmd_execute = (\<lambda>v m. (True, m\<lparr>fg_world := fg_world m @ [v]\<rparr>)),
      isValid = (\<lambda>_ _. True), cond_reset = (\<lambda>_ w. w),
      cond_evaluate = (\<lambda>e w. (Some (e \<noteq> 11 \<or> length w < 3), w))\<rparr>"

definition script :: "nat list function_graph" where
  "script = fg_loading (fg_finish (fg_new False 0 2 []))"

lemma script_tracing: "tracing (\<lambda>e w. e \<noteq> 11 \<or> length w < 3) script_env"
  by (simp add: tracing_def script_env_def)

lemma script_path: "path_run script_env (\<lambda>e w. e \<noteq> 11 \<or> length w < 3) 9 0 [] = Some (2, [0, 1, 0, 1, 2])"
  by (simp add: eval_nat_numeral next_vertex_def script_env_def)

lemma script_ready:
  "isLoaded script" "pStatus script = PStopped" "\<not> pausing script" "\<not> fg_mstep script" "startv script = 0"
  "exitv script = 2" "fg_world script = []" "\<not> munload_on_stop script"
  by (simp_all add: script_def fg_loading_def fg_finish_def fg_new_def fg_reset_def fg_stop_def)

lemma execute_walks_path_witness:
  "\<exists>m'. fg_execute script_env (snd (fg_start script)) = Some (True, m') \<and> fg_world m' = [0, 1, 0, 1, 2] \<and>
     pStatus m' = PStopped"
  using execute_walks_path [OF script_tracing script_ready(1-3), of 9 2 "[0, 1, 0, 1, 2]"] script_path
  by (auto simp: script_ready)

lemma stepping_follows_path_witness:
  "\<exists>m1 k m'. fg_execute script_env (snd (fg_pause script)) = Some (True, m1) \<and> k < 9 \<and>
     step_times script_env k m1 = Some m' \<and> pStatus m' = PStopped \<and> fg_world m' = [0, 1, 0, 1]"
proof -
  have "out_edges script_env (exitv script) = []" by (simp add: script_ready script_env_def)
  from stepping_follows_path [OF script_tracing script_ready(1,2,4) _ this, of 9 "[0, 1, 0, 1, 2]"] script_path
  show ?thesis by (auto simp: script_ready)
qed

definition throwing_env :: "nat list graph_env" where
  "throwing_env = script_env\<lparr>cmd_execute := (\<lambda>v m. (v \<noteq> 1, m\<lparr>fg_world := fg_world m @ [v]\<rparr>))\<rparr>"

lemma script_error_is_sticky_witness:
  "\<exists>m'. fg_execute throwing_env (snd (fg_start script)) = Some (False, m') \<and> pStatus m' = PError \<and> \<not> fst (fg_start m')"
proof -
  let ?m = "snd (fg_start script)"
  have m: "?m = \<lparr>pStatus = PRunning, fg_current = 0, fg_previous = 2, startv = 0, exitv = 2, pausing = False,
      fg_mstep = False, munload_on_stop = False, isLoaded = True, fg_world = []\<rparr>"
    by (simp add: script_def fg_loading_def fg_finish_def fg_new_def fg_reset_def fg_stop_def fg_start_def)
  have "\<exists>m'. until_loop throwing_env ?m = Some (False, m')" unfolding m
    by (subst until_loop.simps, simp add: visit_def enter_vertex_def throwing_env_def script_env_def,
        subst until_loop.simps, simp add: visit_def enter_vertex_def)
  then obtain m' where m': "until_loop throwing_env ?m = Some (False, m')" ..
  have "pStatus ?m = PRunning" "\<not> pausing ?m" using m by simp_all
  from script_error_is_sticky [OF m' this] show ?thesis by blast
qed

section \<open>Copies\<close>

lemma until_loop_stuck:
  "path_run E holds n (fg_current m) (fg_world m) = Some (v, w) \<Longrightarrow> tracing holds E \<Longrightarrow> v \<noteq> exitv m \<Longrightarrow>
   pStatus m = PRunning \<Longrightarrow> \<not> pausing m \<Longrightarrow>
   fg_execute E m = Some (True, m\<lparr>fg_current := v, fg_previous := v, fg_world := w\<rparr>)"
  by (simp add: fg_execute_def executeUntil_def until_loop_path)

text \<open>The copy constructor does not find the exit vertex: both of its searches yield the first vertex
  of the graph, so that a copy has its start vertex as its exit. A copy of a script that ends in its own exit vertex
  executes the path like the original, but it does not stop there: it stays running, and each further \<^verbatim>\<open>execute()\<close>
  executes the exit vertex again.\<close>

theorem cloned_script_never_stops:
  assumes "tracing holds E" and "out_edges E x = []" and "x \<noteq> s"
    and "path_run E holds n s w = Some (x, w')"
  shows "\<exists>m'. fg_execute E (snd (fg_start (fg_loading (fg_clone (s # vs) False False False w)))) = Some (True, m') \<and>
    pStatus m' = PRunning \<and> fg_world m' = w' \<and>
    (\<exists>m''. fg_execute E m' = Some (True, m'') \<and> pStatus m'' = PRunning \<and> fg_world m'' = w' @ [x])"
proof -
  define m0 where "m0 = snd (fg_start (fg_loading (fg_clone (s # vs) False False False w)))"
  have m0: "fg_current m0 = s" "exitv m0 = s" "pStatus m0 = PRunning" "\<not> pausing m0" "fg_world m0 = w"
    by (simp_all add: m0_def fg_loading_def fg_clone_def fg_finish_def fg_reset_def fg_stop_def fg_start_def Let_def)
  let ?m1 = "m0\<lparr>fg_current := x, fg_previous := x, fg_world := w'\<rparr>"
  have 1: "fg_execute E m0 = Some (True, ?m1)"
    by (rule until_loop_stuck [where n = n and holds = holds]) (use assms m0 in simp_all)
  have "next_vertex E holds x (w' @ [x]) = None" using assms(2) by (simp add: next_vertex_def)
  then have "fg_execute E ?m1 = Some (True, ?m1\<lparr>fg_current := x, fg_previous := x, fg_world := w' @ [x]\<rparr>)"
    by (intro until_loop_stuck [where n = 1 and holds = holds]) (use assms m0 in simp_all)
  with 1 m0 show ?thesis by (simp add: m0_def [symmetric])
qed

lemma cloned_script_never_stops_witness:
  "\<exists>m'. fg_execute script_env (snd (fg_start (fg_loading (fg_clone [0, 2, 1] False False False [])))) = Some (True, m') \<and>
     pStatus m' = PRunning \<and> fg_world m' = [0, 1, 0, 1, 2]"
proof -
  have "out_edges script_env 2 = []" by (simp add: script_env_def)
  from cloned_script_never_stops [OF script_tracing this _ script_path, of "[2, 1]"] show ?thesis by auto
qed

end
