(* ===== verification/MachinePrograms.thy ===== *)
theory MachinePrograms
  imports StateMachine FunctionGraph
begin

text \<open>
  State machines whose programs are function graphs: the virtual functions of
  \<^verbatim>\<open>ProgramInterface\<close> that theory \<open>StateMachine\<close> takes as parameters, given by theory \<open>FunctionGraph\<close>, and what
  becomes of single-stepping when the two are put together.
\<close>

text \<open>The world is the table of all programs; \<open>E\<close> gives the states and conditions.\<close>

type_synonym 'w programs = "nat \<Rightarrow> 'w function_graph"

definition graph_programs :: "'w graph_env \<Rightarrow> 'w programs sm_env \<Rightarrow> 'w programs sm_env" where
  "graph_programs G E = E\<lparr>
     prog_reset := (\<lambda>p W. W(p := fg_reset (W p))),
     prog_start := (\<lambda>p W. case fg_start (W p) of (ok, m) \<Rightarrow> (ok, W(p := m))),
     prog_execute := (\<lambda>p W. case fg_execute G (W p) of Some (_, m) \<Rightarrow> W(p := m) | None \<Rightarrow> W),
     prog_step := (\<lambda>p W. W(p := snd (fg_step (W p)))),
     prog_pause := (\<lambda>p W. W(p := snd (fg_pause (W p)))),
     prog_inError := (\<lambda>p W. pStatus (W p) = PError),
     prog_isStopped := (\<lambda>p W. pStatus (W p) = PStopped)\<rparr>"

fun step_rounds :: "'w sm_env \<Rightarrow> nat \<Rightarrow> 'w sm \<Rightarrow> 'w sm option" where
  "step_rounds E 0 m = Some m"
| "step_rounds E (Suc n) m = do { m1 \<leftarrow> execute E (snd (step m)); step_rounds E n m1 }"

definition paused_in_run :: "'w programs sm \<Rightarrow> nat \<Rightarrow> nat \<Rightarrow> bool" where
  "paused_in_run m s p \<longleftrightarrow>
     smStatus m = Paused \<and> smpStatus m = Nill \<and> \<not> mstep m \<and> current m = Some s \<and> nextst m = Some s \<and>
     currentTrans m = None \<and> currentExit m = None \<and> currentEntry m = None \<and> currentHandle m = None \<and>
     currentRun m = Some p \<and> pStatus (sm_world m p) = PPaused"

lemma fg_step_keeps:
  "pStatus (snd (fg_step m)) = pStatus m" "fg_world (snd (fg_step m)) = fg_world m"
  "fg_current (snd (fg_step m)) = fg_current m"
  by (simp_all add: fg_step_def)

lemma step_round:
  assumes "paused_in_run m s p"
  shows "\<exists>m'. execute (graph_programs G E) (snd (step m)) = Some m' \<and> paused_in_run m' s p \<and>
    (\<forall>q. fg_world (sm_world m' q) = fg_world (sm_world m q) \<and> fg_current (sm_world m' q) = fg_current (sm_world m q))"
proof -
  define m1 where "m1 = m\<lparr>mstep := True\<rparr>"
  define m2 where "m2 = m1\<lparr>currentProg := Some p, sm_world := (sm_world m1)(p := snd (fg_step (sm_world m1 p)))\<rparr>"
  note [simp] = fg_step_keeps
  have s: "snd (step m) = m1" using assms by (simp add: step_def paused_in_run_def m1_def)
  have "executePending (graph_programs G E) True m1 = (False, m2)"
    using assms
    by (simp add: executePending_def inError_def pending_exit_def pending_part_def pending_change_def pending_entry_def
        pending_handle_def pending_run_def executeProgram_def world_do_def graph_programs_def paused_in_run_def
        m1_def m2_def Let_def)
  moreover have "mstep m1" "smStatus m1 = Paused" "smpStatus m1 = Nill" using assms by (simp_all add: m1_def paused_in_run_def)
  ultimately have "execute (graph_programs G E) m1 = Some (m2\<lparr>mstep := False\<rparr>)"
    by (simp add: execute_def not_usable_def execute_status_def Let_def)
  with s assms show ?thesis by (intro exI [of _ "m2\<lparr>mstep := False\<rparr>"]) (simp add: paused_in_run_def m1_def m2_def)
qed

text \<open>A state machine cannot be single-stepped through its programs. When the machine is stepping,
  \<^verbatim>\<open>executeProgram\<close> calls only \<^verbatim>\<open>step()\<close> of the program, which for a function graph records the request and
  executes nothing: the program would execute its step in \<^verbatim>\<open>execute()\<close>, which is not called. However often a
  machine that was paused in a run program is stepped, no command is executed and it stays where it is.\<close>

theorem paused_machine_cannot_step:
  assumes "paused_in_run m s p"
  shows "\<exists>m'. step_rounds (graph_programs G E) n m = Some m' \<and> smStatus m' = Paused \<and> current m' = Some s \<and>
    currentRun m' = Some p \<and> (\<forall>q. fg_world (sm_world m' q) = fg_world (sm_world m q) \<and>
      fg_current (sm_world m' q) = fg_current (sm_world m q))"
  using assms
proof (induction n arbitrary: m)
  case 0
  then show ?case by (simp add: paused_in_run_def)
next
  case (Suc n)
  from step_round [OF Suc.prems] obtain m1 where m1: "execute (graph_programs G E) (snd (step m)) = Some m1"
    "paused_in_run m1 s p" "\<forall>q. fg_world (sm_world m1 q) = fg_world (sm_world m q) \<and>
      fg_current (sm_world m1 q) = fg_current (sm_world m q)" by blast
  from Suc.IH [OF m1(2)] m1(1,3) show ?case by auto
qed

text \<open>A machine with the script of theory \<open>FunctionGraph\<close> as the run program of its only state, paused by its user.\<close>

definition scripted_states :: "nat list programs sm_env" where
  "scripted_states =
     \<lparr>getEntryProgram = (\<lambda>_. None), getExitProgram = (\<lambda>_. None), getRunProgram = (\<lambda>_. Some 7),
      getHandleProgram = (\<lambda>_. None), cnd_reset = (\<lambda>_ W. W), cnd_evaluate = (\<lambda>_ W. (True, W)),
      prog_reset = (\<lambda>_ W. W), prog_start = (\<lambda>_ W. (True, W)), prog_execute = (\<lambda>_ W. W), prog_step = (\<lambda>_ W. W),
      prog_pause = (\<lambda>_ W. W), prog_inError = (\<lambda>_ _. False), prog_isStopped = (\<lambda>_ _. True), init_command = None\<rparr>"

definition scripted_machine :: "nat list programs sm option" where
  "scripted_machine =
     (let E = graph_programs script_env scripted_states in
      do {
        (_, m1) \<leftarrow> activate E (loading (setInitialState (Some 0) (sm_new (\<lambda>_. script))));
        (_, m2) \<leftarrow> automatic E m1;
        execute E (snd (pause E m2))
      })"

lemma scripted_machine_paused: "\<exists>m. scripted_machine = Some m \<and> paused_in_run m 0 7"
proof -
  have "map_option (\<lambda>m. paused_in_run m 0 7) scripted_machine = Some True" by code_simp
  then show ?thesis by (cases scripted_machine) auto
qed

lemma paused_machine_cannot_step_witness:
  "\<exists>m. scripted_machine = Some m \<and>
     (\<forall>n. \<exists>m'. step_rounds (graph_programs script_env scripted_states) n m = Some m' \<and> smStatus m' = Paused \<and>
        fg_world (sm_world m' 7) = fg_world (sm_world m 7))"
  using scripted_machine_paused paused_machine_cannot_step by blast

end
