(* ===== verification/Ports.thy ===== *)
theory Ports
  imports DataStorage
begin

text \<open>
  Data flow ports and their connections: \<^verbatim>\<open>OutputPort\<close>, \<^verbatim>\<open>InputPort\<close> (\<^verbatim>\<open>rtt/OutputPort.hpp\<close>,
  \<^verbatim>\<open>InputPort.hpp\<close>, \<^verbatim>\<open>rtt/base/*PortInterface.cpp\<close>), \<^verbatim>\<open>internal::ConnectionManager\<close>, the elements at the
  ends of a connection (\<^verbatim>\<open>ConnInputEndPoint.hpp\<close>, \<^verbatim>\<open>ConnOutputEndPoint.hpp\<close>) and the local part of
  \<^verbatim>\<open>ConnFactory\<close>.

  Ports and connections are numbered. A connection is a chain of three elements, the input endpoint
  at the output port, the storage, and the output endpoint at the input port; the record \<open>link\<close> holds the
  pointers between them. The storage is any element with the virtual functions \<open>store_api\<close>. All ports are local
  and of one sample type. The mutex of a manager and the reference counts are not modelled.
\<close>

section \<open>State\<close>

text \<open>A connection descriptor: the id of the connection, which is the port at the other end
  (\<^verbatim>\<open>LocalConnID\<close>), and the channel.\<close>

record manager =
  connections :: "(nat \<times> nat) list"
  cur_channel :: "nat option"

record 'a out_port =
  op_manager :: manager
  has_last_written_value :: bool
  has_initial_sample :: bool
  keeps_next_written_value :: bool
  keeps_last_written_value :: bool
  op_sample :: 'a

record 'c link =
  l_store :: 'c
  ie_port :: "nat option"
  ie_cid :: nat
  ie_output :: bool
  st_input :: bool
  st_output :: bool
  oe_port :: "nat option"
  oe_cid :: nat
  oe_input :: bool

record ('a, 'c) net =
  outs :: "nat \<Rightarrow> 'a out_port"
  ins :: "nat \<Rightarrow> manager"
  links :: "nat \<Rightarrow> 'c link"
  next_link :: nat
  signalled :: "nat list"

definition manager_new :: manager where
  "manager_new = \<lparr>connections = [], cur_channel = None\<rparr>"

definition out_port_new :: "'a \<Rightarrow> bool \<Rightarrow> 'a out_port" where
  "out_port_new d keep_last =
     \<lparr>op_manager = manager_new, has_last_written_value = False, has_initial_sample = False,
      keeps_next_written_value = False, keeps_last_written_value = keep_last, op_sample = d\<rparr>"

definition set_link :: "nat \<Rightarrow> ('c link \<Rightarrow> 'c link) \<Rightarrow> ('a, 'c) net \<Rightarrow> ('a, 'c) net" where
  "set_link l f n = n\<lparr>links := (links n)(l := f (links n l))\<rparr>"

definition set_out :: "nat \<Rightarrow> ('a out_port \<Rightarrow> 'a out_port) \<Rightarrow> ('a, 'c) net \<Rightarrow> ('a, 'c) net" where
  "set_out p f n = n\<lparr>outs := (outs n)(p := f (outs n p))\<rparr>"

definition set_in :: "nat \<Rightarrow> (manager \<Rightarrow> manager) \<Rightarrow> ('a, 'c) net \<Rightarrow> ('a, 'c) net" where
  "set_in p f n = n\<lparr>ins := (ins n)(p := f (ins n p))\<rparr>"

section \<open>\<^verbatim>\<open>ConnectionManager\<close>\<close>

definition cm_add :: "nat \<Rightarrow> nat \<Rightarrow> manager \<Rightarrow> manager" where
  "cm_add cid ch m =
     \<lparr>connections = connections m @ [(cid, ch)],
      cur_channel = (if connections m = [] then Some ch else cur_channel m)\<rparr>"

fun erase_first :: "nat \<Rightarrow> (nat \<times> nat) list \<Rightarrow> nat option \<times> (nat \<times> nat) list" where
  "erase_first cid [] = (None, [])"
| "erase_first cid (d # ds) =
     (if fst d = cid then (Some (snd d), ds)
      else case erase_first cid ds of (found, ds') \<Rightarrow> (found, d # ds'))"

definition updateCurrentChannel :: "bool \<Rightarrow> manager \<Rightarrow> manager" where
  "updateCurrentChannel reset_current m =
     (case connections m of
        [] \<Rightarrow> m\<lparr>cur_channel := None\<rparr>
      | d # _ \<Rightarrow> if reset_current then m\<lparr>cur_channel := Some (snd d)\<rparr> else m)"

text \<open>The locked part of \<^verbatim>\<open>removeConnection\<close>.\<close>

definition cm_take :: "nat \<Rightarrow> manager \<Rightarrow> nat option \<times> manager" where
  "cm_take cid m =
     (case erase_first cid (connections m) of
        (None, _) \<Rightarrow> (None, m)
      | (Some ch, ds) \<Rightarrow> (Some ch, updateCurrentChannel (cur_channel m = Some ch) (m\<lparr>connections := ds\<rparr>)))"

definition cm_connected :: "manager \<Rightarrow> bool" where
  "cm_connected m \<longleftrightarrow> connections m \<noteq> []"

section \<open>Disconnecting\<close>

text \<open>The member functions that call each other when a connection is taken down: \<^verbatim>\<open>disconnect(forward)\<close>
  of the three elements and \<^verbatim>\<open>removeConnection\<close> of the two ports.\<close>

datatype net_call =
  IeDisconnect nat bool | StDisconnect nat bool | OeDisconnect nat bool | OutRemove nat nat | InRemove nat nat

partial_function (option) net_do :: "net_call \<Rightarrow> ('a, 'c) net \<Rightarrow> ('a, 'c) net option" where
  "net_do c n =
     (case c of
        IeDisconnect l forward \<Rightarrow>
          do {
            n1 \<leftarrow> (if forward \<and> ie_output (links n l) then net_do (StDisconnect l True) n else Some n);
            let n2 = set_link l (ie_output_update (\<lambda>_. False)) n1;
            case ie_port (links n2 l) of
              None \<Rightarrow> Some n2
            | Some p \<Rightarrow>
                if forward then Some n2
                else net_do (OutRemove p (ie_cid (links n2 l))) (set_link l (ie_port_update (\<lambda>_. None)) n2)
          }
      | StDisconnect l forward \<Rightarrow>
          do {
            n1 \<leftarrow> (if forward then (if st_output (links n l) then net_do (OeDisconnect l True) n else Some n)
                   else (if st_input (links n l) then net_do (IeDisconnect l False) n else Some n));
            Some (set_link l (st_output_update (\<lambda>_. False)) (set_link l (st_input_update (\<lambda>_. False)) n1))
          }
      | OeDisconnect l forward \<Rightarrow>
          do {
            n1 \<leftarrow> (if \<not> forward \<and> oe_input (links n l) then net_do (StDisconnect l False) n else Some n);
            let n2 = set_link l (oe_input_update (\<lambda>_. False)) n1;
            case oe_port (links n2 l) of
              None \<Rightarrow> Some n2
            | Some p \<Rightarrow>
                if \<not> forward then Some n2
                else net_do (InRemove p (oe_cid (links n2 l))) (set_link l (oe_port_update (\<lambda>_. None)) n2)
          }
      | OutRemove p cid \<Rightarrow>
          (case cm_take cid (op_manager (outs n p)) of
             (None, _) \<Rightarrow> Some n
           | (Some l, m) \<Rightarrow> net_do (IeDisconnect l True) (set_out p (op_manager_update (\<lambda>_. m)) n))
      | InRemove p cid \<Rightarrow>
          (case cm_take cid (ins n p) of
             (None, _) \<Rightarrow> Some n
           | (Some l, m) \<Rightarrow> net_do (OeDisconnect l False) (set_in p (\<lambda>_. m) n)))"

declare net_do.simps [code]

text \<open>\<^verbatim>\<open>disconnect(port)\<close> of the two kinds of ports; the flag is the result.\<close>

definition out_disconnect :: "nat \<Rightarrow> nat \<Rightarrow> ('a, 'c) net \<Rightarrow> (bool \<times> ('a, 'c) net) option" where
  "out_disconnect p other n =
     do { n' \<leftarrow> net_do (OutRemove p other) n; Some (fst (cm_take other (op_manager (outs n p))) \<noteq> None, n') }"

definition in_disconnect :: "nat \<Rightarrow> nat \<Rightarrow> ('a, 'c) net \<Rightarrow> (bool \<times> ('a, 'c) net) option" where
  "in_disconnect p other n =
     do { n' \<leftarrow> net_do (InRemove p other) n; Some (fst (cm_take other (ins n p)) \<noteq> None, n') }"

text \<open>\<^verbatim>\<open>disconnect()\<close>: the list is moved away first, then every channel is disconnected.\<close>

fun net_do_all :: "net_call list \<Rightarrow> ('a, 'c) net \<Rightarrow> ('a, 'c) net option" where
  "net_do_all [] n = Some n"
| "net_do_all (c # cs) n = do { n' \<leftarrow> net_do c n; net_do_all cs n' }"

definition out_disconnect_all :: "nat \<Rightarrow> ('a, 'c) net \<Rightarrow> ('a, 'c) net option" where
  "out_disconnect_all p n =
     net_do_all (map (\<lambda>d. IeDisconnect (snd d) True) (connections (op_manager (outs n p))))
       (set_out p (op_manager_update (\<lambda>_. manager_new)) n)"

definition in_disconnect_all :: "nat \<Rightarrow> ('a, 'c) net \<Rightarrow> ('a, 'c) net option" where
  "in_disconnect_all p n =
     net_do_all (map (\<lambda>d. OeDisconnect (snd d) False) (connections (ins n p))) (set_in p (\<lambda>_. manager_new) n)"

section \<open>Writing\<close>

definition link_signal :: "nat \<Rightarrow> ('a, 'c) net \<Rightarrow> ('a, 'c) net" where
  "link_signal l n =
     (case oe_port (links n l) of
        None \<Rightarrow> n
      | Some p \<Rightarrow> if st_output (links n l) then n\<lparr>signalled := signalled n @ [p]\<rparr> else n)"

definition link_write :: "('a, 'c) store_api \<Rightarrow> 'a \<Rightarrow> nat \<Rightarrow> ('a, 'c) net \<Rightarrow> (bool \<times> ('a, 'c) net) option" where
  "link_write S x l n =
     (if \<not> ie_output (links n l) then Some (False, n)
      else do {
        (sig, c) \<leftarrow> s_write S x (l_store (links n l));
        let n1 = set_link l (l_store_update (\<lambda>_. c)) n;
        Some (True, if sig then link_signal l n1 else n1)
      })"

definition link_data_sample :: "('a, 'c) store_api \<Rightarrow> 'a \<Rightarrow> nat \<Rightarrow> ('a, 'c) net \<Rightarrow> (bool \<times> ('a, 'c) net) option" where
  "link_data_sample S x l n =
     (if \<not> ie_output (links n l) then Some (False, n)
      else do {
        c \<leftarrow> s_data_sample S x (l_store (links n l));
        Some (st_output (links n l), set_link l (l_store_update (\<lambda>_. c)) n)
      })"

text \<open>\<^verbatim>\<open>delete_if\<close> with a predicate that acts on the channel: what it accepts stays.\<close>

fun keep_if :: "(nat \<Rightarrow> ('a, 'c) net \<Rightarrow> (bool \<times> ('a, 'c) net) option) \<Rightarrow> (nat \<times> nat) list \<Rightarrow> ('a, 'c) net \<Rightarrow>
    ((nat \<times> nat) list \<times> ('a, 'c) net) option" where
  "keep_if f [] n = Some ([], n)"
| "keep_if f (d # ds) n =
     do { (ok, n1) \<leftarrow> f (snd d) n; (ds', n2) \<leftarrow> keep_if f ds n1; Some (if ok then d # ds' else ds', n2) }"

definition out_delete_if :: "(nat \<Rightarrow> ('a, 'c) net \<Rightarrow> (bool \<times> ('a, 'c) net) option) \<Rightarrow> nat \<Rightarrow> ('a, 'c) net \<Rightarrow>
    ('a, 'c) net option" where
  "out_delete_if f p n =
     do { (ds, n1) \<leftarrow> keep_if f (connections (op_manager (outs n p))) n;
          Some (set_out p (op_manager_update (connections_update (\<lambda>_. ds))) n1) }"

definition out_write :: "('a, 'c) store_api \<Rightarrow> 'a \<Rightarrow> nat \<Rightarrow> ('a, 'c) net \<Rightarrow> ('a, 'c) net option" where
  "out_write S x p n =
     (let o1 = outs n p;
          o2 = (if keeps_last_written_value o1 \<or> keeps_next_written_value o1
                then o1\<lparr>has_initial_sample := True, keeps_next_written_value := False, op_sample := x\<rparr> else o1);
          o3 = o2\<lparr>has_last_written_value := keeps_last_written_value o2\<rparr>
      in out_delete_if (link_write S x) p (set_out p (\<lambda>_. o3) n))"

definition setDataSample :: "('a, 'c) store_api \<Rightarrow> 'a \<Rightarrow> nat \<Rightarrow> ('a, 'c) net \<Rightarrow> ('a, 'c) net option" where
  "setDataSample S x p n =
     out_delete_if (link_data_sample S x) p
       (set_out p (\<lambda>q. q\<lparr>has_last_written_value := False, has_initial_sample := True, op_sample := x\<rparr>) n)"

definition keepLastWrittenValue :: "bool \<Rightarrow> nat \<Rightarrow> ('a, 'c) net \<Rightarrow> ('a, 'c) net" where
  "keepLastWrittenValue keep p n = set_out p (keeps_last_written_value_update (\<lambda>_. keep)) n"

definition keepNextWrittenValue :: "bool \<Rightarrow> nat \<Rightarrow> ('a, 'c) net \<Rightarrow> ('a, 'c) net" where
  "keepNextWrittenValue keep p n = set_out p (keeps_next_written_value_update (\<lambda>_. keep)) n"

definition getLastWrittenValue :: "'a out_port \<Rightarrow> 'a option" where
  "getLastWrittenValue q = (if has_last_written_value q then Some (op_sample q) else None)"

section \<open>Reading\<close>

definition link_read :: "('a, 'c) store_api \<Rightarrow> bool \<Rightarrow> 'a \<Rightarrow> nat \<Rightarrow> ('a, 'c) net \<Rightarrow>
    (flow_status \<times> 'a \<times> ('a, 'c) net) option" where
  "link_read S copy sample l n =
     (if \<not> oe_input (links n l) then Some (NoData, sample, n)
      else do {
        (st, v, c) \<leftarrow> s_read S copy sample (l_store (links n l));
        Some (st, v, set_link l (l_store_update (\<lambda>_. c)) n)
      })"

text \<open>The predicate passed to \<^verbatim>\<open>select_reader_channel\<close>: \<open>sample\<close> and \<open>result\<close> are bound by reference.\<close>

definition do_read :: "('a, 'c) store_api \<Rightarrow> bool \<Rightarrow> nat \<Rightarrow> 'a \<times> flow_status \<times> ('a, 'c) net \<Rightarrow>
    (bool \<times> 'a \<times> flow_status \<times> ('a, 'c) net) option" where
  "do_read S copy l s =
     (case s of (sample, result, n) \<Rightarrow>
        do {
          (tresult, v, n1) \<leftarrow> link_read S copy sample l n;
          Some (tresult = NewData, v, if tresult = NewData \<or> status_level result < status_level tresult then tresult else result, n1)
        })"

fun find_in_list :: "('a, 'c) store_api \<Rightarrow> (nat \<times> nat) list \<Rightarrow> 'a \<times> flow_status \<times> ('a, 'c) net \<Rightarrow>
    (nat option \<times> 'a \<times> flow_status \<times> ('a, 'c) net) option" where
  "find_in_list S [] s = Some (None, s)"
| "find_in_list S (d # ds) s =
     do { (ok, s1) \<leftarrow> do_read S False (snd d) s; if ok then Some (Some (snd d), s1) else find_in_list S ds s1 }"

definition cm_find_if :: "('a, 'c) store_api \<Rightarrow> bool \<Rightarrow> manager \<Rightarrow> 'a \<times> flow_status \<times> ('a, 'c) net \<Rightarrow>
    (nat option \<times> 'a \<times> flow_status \<times> ('a, 'c) net) option" where
  "cm_find_if S copy_old_data m s =
     (case cur_channel m of
        None \<Rightarrow> find_in_list S (connections m) s
      | Some l \<Rightarrow>
          do { (ok, s1) \<leftarrow> do_read S copy_old_data l s;
               if ok then Some (Some l, s1) else find_in_list S (connections m) s1 })"

definition select_reader_channel :: "('a, 'c) store_api \<Rightarrow> bool \<Rightarrow> nat \<Rightarrow> 'a \<Rightarrow> ('a, 'c) net \<Rightarrow>
    (flow_status \<times> 'a \<times> ('a, 'c) net) option" where
  "select_reader_channel S copy_old_data p sample n =
     do {
       (found, v, result, n1) \<leftarrow> cm_find_if S copy_old_data (ins n p) (sample, NoData, n);
       Some (result, v,
         case found of None \<Rightarrow> n1 | Some l \<Rightarrow> set_in p (cur_channel_update (\<lambda>_. Some l)) n1)
     }"

definition in_read :: "('a, 'c) store_api \<Rightarrow> bool \<Rightarrow> 'a \<Rightarrow> nat \<Rightarrow> ('a, 'c) net \<Rightarrow>
    (flow_status \<times> 'a \<times> ('a, 'c) net) option" where
  "in_read S copy_old_data sample p n = select_reader_channel S copy_old_data p sample n"

partial_function (option) read_all :: "('a, 'c) store_api \<Rightarrow> 'a \<Rightarrow> nat \<Rightarrow> ('a, 'c) net \<Rightarrow> ('a \<times> ('a, 'c) net) option" where
  "read_all S sample p n =
     do { (st, v, n1) \<leftarrow> in_read S False sample p n; if st = NewData then read_all S v p n1 else Some (v, n1) }"

declare read_all.simps [code]

definition readNewest :: "('a, 'c) store_api \<Rightarrow> bool \<Rightarrow> 'a \<Rightarrow> nat \<Rightarrow> ('a, 'c) net \<Rightarrow>
    (flow_status \<times> 'a \<times> ('a, 'c) net) option" where
  "readNewest S copy_old_data sample p n =
     do {
       (result, v, n1) \<leftarrow> in_read S copy_old_data sample p n;
       if result \<noteq> NewData then Some (result, v, n1)
       else do { (v', n2) \<leftarrow> read_all S v p n1; Some (NewData, v', n2) }
     }"

fun clear_links :: "('a, 'c) store_api \<Rightarrow> (nat \<times> nat) list \<Rightarrow> ('a, 'c) net \<Rightarrow> ('a, 'c) net option" where
  "clear_links S [] n = Some n"
| "clear_links S (d # ds) n =
     do {
       n1 \<leftarrow> (if oe_input (links n (snd d))
              then do { c \<leftarrow> s_clear S (l_store (links n (snd d))); Some (set_link (snd d) (l_store_update (\<lambda>_. c)) n) }
              else Some n);
       clear_links S ds n1
     }"

definition in_clear :: "('a, 'c) store_api \<Rightarrow> nat \<Rightarrow> ('a, 'c) net \<Rightarrow> ('a, 'c) net option" where
  "in_clear S p n = clear_links S (connections (ins n p)) n"

section \<open>Connecting\<close>

text \<open>\<^verbatim>\<open>buildBufferedChannelOutput\<close> and \<^verbatim>\<open>buildChannelInput\<close>: the three elements, linked.\<close>

definition build_link :: "nat \<Rightarrow> nat \<Rightarrow> 'c \<Rightarrow> 'c link" where
  "build_link p q c =
     \<lparr>l_store = c, ie_port = Some p, ie_cid = q, ie_output = True, st_input = True, st_output = True,
      oe_port = Some q, oe_cid = p, oe_input = True\<rparr>"

definition connectionAdded :: "('a, 'c) store_api \<Rightarrow> 'a \<Rightarrow> bool \<Rightarrow> nat \<Rightarrow> nat \<Rightarrow> ('a, 'c) net \<Rightarrow>
    (bool \<times> ('a, 'c) net) option" where
  "connectionAdded S d policy_init p l n =
     (let q = outs n p in
      if has_initial_sample q then
        do {
          (ok, n1) \<leftarrow> link_data_sample S (op_sample q) l n;
          if ok then (if has_last_written_value q \<and> policy_init then link_write S (op_sample q) l n1 else Some (True, n1))
          else Some (False, n1)
        }
      else link_data_sample S d l n)"

definition out_addConnection :: "('a, 'c) store_api \<Rightarrow> 'a \<Rightarrow> bool \<Rightarrow> nat \<Rightarrow> nat \<Rightarrow> nat \<Rightarrow> ('a, 'c) net \<Rightarrow>
    (bool \<times> ('a, 'c) net) option" where
  "out_addConnection S d policy_init p cid l n =
     do {
       (ok, n1) \<leftarrow> connectionAdded S d policy_init p l n;
       Some (ok, if ok then set_out p (op_manager_update (cm_add cid l)) n1 else n1)
     }"

text \<open>\<^verbatim>\<open>inputReady\<close> of the output endpoint registers the connection, then asks upstream.\<close>

definition oe_inputReady :: "nat \<Rightarrow> ('a, 'c) net \<Rightarrow> bool \<times> ('a, 'c) net" where
  "oe_inputReady l n =
     (let n1 = (case oe_port (links n l) of None \<Rightarrow> n | Some q \<Rightarrow> set_in q (cm_add (oe_cid (links n l)) l) n)
      in (oe_input (links n1 l) \<and> st_input (links n1 l), n1))"

definition channelReady :: "nat \<Rightarrow> ('a, 'c) net \<Rightarrow> (bool \<times> ('a, 'c) net) option" where
  "channelReady l n =
     (case oe_inputReady l n of (ok, n1) \<Rightarrow>
        if ok then Some (True, n1)
        else do { n2 \<leftarrow> net_do (OeDisconnect l False) n1; n3 \<leftarrow> net_do (OeDisconnect l True) n2; Some (False, n3) })"

definition createAndCheckConnection :: "('a, 'c) store_api \<Rightarrow> 'a \<Rightarrow> bool \<Rightarrow> nat \<Rightarrow> nat \<Rightarrow> nat \<Rightarrow> ('a, 'c) net \<Rightarrow>
    (bool \<times> ('a, 'c) net) option" where
  "createAndCheckConnection S d policy_init p q l n =
     do {
       (added, n1) \<leftarrow> out_addConnection S d policy_init p q l n;
       if added then
         do {
           (ready, n2) \<leftarrow> channelReady l n1;
           if ready then Some (True, n2)
           else do { (_, n3) \<leftarrow> out_disconnect p q n2; Some (False, n3) }
         }
       else do { n2 \<leftarrow> net_do (IeDisconnect l True) n1; Some (False, n2) }
     }"

text \<open>\<^verbatim>\<open>createConnection\<close> of two local ports, with the storage that the policy asks for.\<close>

definition createConnection :: "('a, 'c) store_api \<Rightarrow> 'a \<Rightarrow> bool \<Rightarrow> nat \<Rightarrow> nat \<Rightarrow> 'c option \<Rightarrow> ('a, 'c) net \<Rightarrow>
    (bool \<times> ('a, 'c) net) option" where
  "createConnection S d policy_init p q storage n =
     do {
       c \<leftarrow> storage;
       let l = next_link n;
       createAndCheckConnection S d policy_init p q l
         (n\<lparr>links := (links n)(l := build_link p q c), next_link := l + 1\<rparr>)
     }"

definition connect_ports :: "'a \<Rightarrow> conn_policy \<Rightarrow> nat \<Rightarrow> nat \<Rightarrow> ('a, 'a storage) net \<Rightarrow> (bool \<times> ('a, 'a storage) net) option" where
  "connect_ports d policy p q n =
     createConnection storage_api d (cp_init policy) p q (buildDataStorage d policy (op_sample (outs n p))) n"

end
