(* ===== verification/PortsSpec.thy ===== *)
theory PortsSpec
  imports Ports
begin

text \<open>
  What ports promise: both ends of every connection agree on it, whatever is connected and disconnected from
  either end; a write reaches every connection; a read takes the first unread sample it can find. The lemmas are
  proved for any storage that keeps the contract \<open>typed_store\<close>, and hold of the storage of theory \<open>DataStorage\<close>.
\<close>

section \<open>Agreement\<close>

definition between :: "nat \<Rightarrow> (nat \<times> nat) list \<Rightarrow> nat list" where
  "between cid ds = map snd (filter (\<lambda>d. fst d = cid) ds)"

lemma between_simps [simp]:
  "between cid [] = []"
  "between cid (d # ds) = (if fst d = cid then snd d # between cid ds else between cid ds)"
  "between cid (xs @ ys) = between cid xs @ between cid ys"
  by (simp_all add: between_def)

lemma set_between: "l \<in> set (between cid ds) \<longleftrightarrow> (cid, l) \<in> set ds"
  by (induction ds) auto

abbreviation out_conns :: "('a, 'c) net \<Rightarrow> nat \<Rightarrow> (nat \<times> nat) list" where
  "out_conns n p \<equiv> connections (op_manager (outs n p))"

abbreviation in_conns :: "('a, 'c) net \<Rightarrow> nat \<Rightarrow> (nat \<times> nat) list" where
  "in_conns n q \<equiv> connections (ins n q)"

definition attached :: "('a, 'c) net \<Rightarrow> nat \<Rightarrow> nat \<Rightarrow> nat \<Rightarrow> bool" where
  "attached n p q l \<longleftrightarrow>
     ie_port (links n l) = Some p \<and> ie_cid (links n l) = q \<and> ie_output (links n l) \<and> st_input (links n l) \<and>
     st_output (links n l) \<and> oe_port (links n l) = Some q \<and> oe_cid (links n l) = p \<and> oe_input (links n l)"

definition current_ok :: "manager \<Rightarrow> bool" where
  "current_ok m \<longleftrightarrow>
     (case cur_channel m of None \<Rightarrow> connections m = [] | Some l \<Rightarrow> l \<in> snd ` set (connections m))"

definition consistent :: "('a, 'c) net \<Rightarrow> bool" where
  "consistent n \<longleftrightarrow>
     (\<forall>p q l. (q, l) \<in> set (out_conns n p) \<longrightarrow> attached n p q l \<and> l < next_link n) \<and>
     (\<forall>p q. between q (out_conns n p) = between p (in_conns n q)) \<and>
     (\<forall>p. distinct (map snd (out_conns n p))) \<and> (\<forall>q. distinct (map snd (in_conns n q))) \<and>
     (\<forall>q. current_ok (ins n q))"

lemma consistentD:
  assumes "consistent n"
  shows "(q, l) \<in> set (out_conns n p) \<Longrightarrow> attached n p q l" "(q, l) \<in> set (out_conns n p) \<Longrightarrow> l < next_link n"
    "between q (out_conns n p) = between p (in_conns n q)"
    "(p, l) \<in> set (in_conns n q) \<longleftrightarrow> (q, l) \<in> set (out_conns n p)"
    "distinct (map snd (out_conns n p))" "distinct (map snd (in_conns n q))" "current_ok (ins n q)"
  using assms unfolding consistent_def by (blast, blast, blast, metis set_between, blast, blast, blast)

subsection \<open>Taking a connection out of a manager\<close>

lemma erase_first_between:
  "erase_first cid ds =
     (case between cid ds of [] \<Rightarrow> (None, ds) | l # _ \<Rightarrow> (Some l, snd (erase_first cid ds)))"
  by (induction ds) (auto split: list.split prod.split)

lemma erase_first_rest:
  "between cid (snd (erase_first cid ds)) = tl (between cid ds)"
  "c \<noteq> cid \<Longrightarrow> between c (snd (erase_first cid ds)) = between c ds"
  "set (snd (erase_first cid ds)) \<subseteq> set ds"
  "distinct (map snd ds) \<Longrightarrow> distinct (map snd (snd (erase_first cid ds)))"
proof -
  show 1: "set (snd (erase_first cid ds)) \<subseteq> set ds" for ds
    by (induction ds) (auto split: prod.split)
  show "between cid (snd (erase_first cid ds)) = tl (between cid ds)"
    by (induction ds) (auto split: prod.split)
  show "c \<noteq> cid \<Longrightarrow> between c (snd (erase_first cid ds)) = between c ds"
    by (induction ds) (auto split: prod.split)
  show "distinct (map snd ds) \<Longrightarrow> distinct (map snd (snd (erase_first cid ds)))"
  proof (induction ds)
    case (Cons d ds)
    moreover have "snd d \<notin> snd ` set (snd (erase_first cid ds))" using 1 [of ds] Cons.prems by auto
    ultimately show ?case by (simp split: prod.split) auto
  qed simp
qed

lemma erase_first_other:
  "distinct (map snd ds) \<Longrightarrow> between cid ds = l # ls \<Longrightarrow> d \<in> set ds \<Longrightarrow> snd d \<noteq> l \<Longrightarrow> d \<in> set (snd (erase_first cid ds))"
  by (induction ds) (auto split: prod.split if_splits)

lemma erase_first_gone:
  "distinct (map snd ds) \<Longrightarrow> between cid ds = l # ls \<Longrightarrow> l \<notin> snd ` set (snd (erase_first cid ds))"
proof (induction ds)
  case (Cons d ds)
  show ?case
  proof (cases "fst d = cid")
    case True
    with Cons.prems show ?thesis by auto
  next
    case False
    then have b: "between cid ds = l # ls" using Cons.prems by simp
    then have "l \<in> set (between cid ds)" by simp
    then have "(cid, l) \<in> set ds" by (simp add: set_between)
    then have "l \<in> snd ` set ds" by force
    with Cons.prems have "snd d \<noteq> l" by auto
    moreover have "l \<notin> snd ` set (snd (erase_first cid ds))" using Cons.IH Cons.prems b by simp
    ultimately show ?thesis using False by (simp split: prod.split) auto
  qed
qed simp

lemma cm_take_some:
  assumes "between cid (connections m) = l # ls"
  shows "cm_take cid m = (Some l, updateCurrentChannel (cur_channel m = Some l)
     (m\<lparr>connections := snd (erase_first cid (connections m))\<rparr>))"
  using erase_first_between [of cid "connections m"] assms by (simp add: cm_take_def split: prod.split) auto

lemma cm_take_none: "between cid (connections m) = [] \<Longrightarrow> cm_take cid m = (None, m)"
  using erase_first_between [of cid "connections m"] by (simp add: cm_take_def split: prod.split)

lemma updateCurrentChannel_connections [simp]: "connections (updateCurrentChannel r m) = connections m"
  by (simp add: updateCurrentChannel_def split: list.split)

lemma cm_take_connections:
  "connections (snd (cm_take cid m)) = (if between cid (connections m) = [] then connections m
     else snd (erase_first cid (connections m)))"
  by (cases "between cid (connections m)") (simp_all add: cm_take_some cm_take_none)

lemma cm_take_current:
  assumes "current_ok m" and d: "distinct (map snd (connections m))"
  shows "current_ok (snd (cm_take cid m))"
proof (cases "between cid (connections m)")
  case Nil
  with assms show ?thesis by (simp add: cm_take_none)
next
  case (Cons l ls)
  let ?ds = "snd (erase_first cid (connections m))"
  have "connections m \<noteq> []" using Cons by auto
  then obtain c where c: "cur_channel m = Some c" "c \<in> snd ` set (connections m)"
    using assms by (auto simp: current_ok_def split: option.splits)
  have "c \<in> snd ` set ?ds" if "c \<noteq> l" using erase_first_other [OF d Cons] c(2) that by force
  with c(1) show ?thesis
    by (cases ?ds) (auto simp: cm_take_some [OF Cons] updateCurrentChannel_def current_ok_def)
qed

section \<open>Removing a connection\<close>

definition removed :: "nat \<Rightarrow> nat \<Rightarrow> nat \<Rightarrow> 'c link \<Rightarrow> ('a, 'c) net \<Rightarrow> ('a, 'c) net" where
  "removed p q l r n =
     set_link l (\<lambda>_. r) (set_in q (\<lambda>m. snd (cm_take p m)) (set_out p (\<lambda>u. u\<lparr>op_manager := snd (cm_take q (op_manager u))\<rparr>) n))"

lemmas net_updates = set_link_def set_out_def set_in_def

lemma out_remove_none: "between q (out_conns n p) = [] \<Longrightarrow> net_do (OutRemove p q) n = Some n"
  by (subst net_do.simps) (simp add: cm_take_none)

lemma in_remove_none: "between p (in_conns n q) = [] \<Longrightarrow> net_do (InRemove q p) n = Some n"
  by (subst net_do.simps) (simp add: cm_take_none)

text \<open>Once an endpoint has lost its port and its link, disconnecting it again does nothing.\<close>

lemma link_idle:
  "\<not> oe_input k \<Longrightarrow> k\<lparr>oe_input := False\<rparr> = k" "\<not> ie_output k \<Longrightarrow> k\<lparr>ie_output := False\<rparr> = k"
  by (cases k, simp)+

lemma oe_dead: "\<not> oe_input (links n l) \<Longrightarrow> oe_port (links n l) = None \<Longrightarrow> net_do (OeDisconnect l f) n = Some n"
  by (subst net_do.simps) (simp add: net_updates link_idle)

lemma ie_dead: "\<not> ie_output (links n l) \<Longrightarrow> ie_port (links n l) = None \<Longrightarrow> net_do (IeDisconnect l f) n = Some n"
  by (subst net_do.simps) (simp add: net_updates link_idle)

lemma disconnect_forward:
  assumes a: "attached n p q l" and b: "between p (in_conns n q) = l # ls"
  shows "\<exists>r. net_do (IeDisconnect l True) n = Some (set_link l (\<lambda>_. r) (set_in q (\<lambda>m. snd (cm_take p m)) n))"
proof -
  define n1 where "n1 = set_link l (oe_port_update (\<lambda>_. None)) (set_link l (oe_input_update (\<lambda>_. False)) n)"
  define n2 where "n2 = set_in q (\<lambda>m. snd (cm_take p m)) n1"
  have oe1: "net_do (InRemove q p) n1 = net_do (OeDisconnect l False) n2"
    using cm_take_some [OF b] by (subst net_do.simps) (simp add: n1_def n2_def net_updates)
  have oe2: "net_do (OeDisconnect l False) n2 = Some n2"
    by (rule oe_dead) (simp_all add: n1_def n2_def net_updates)
  have "net_do (OeDisconnect l True) n = net_do (InRemove q p) n1"
    using a by (subst net_do.simps) (simp add: attached_def n1_def net_updates)
  with oe1 oe2 have oe: "net_do (OeDisconnect l True) n = Some n2" by simp
  define n3 where "n3 = set_link l (st_output_update (\<lambda>_. False)) (set_link l (st_input_update (\<lambda>_. False)) n2)"
  have st: "net_do (StDisconnect l True) n = Some n3"
    using a oe by (subst net_do.simps) (simp add: attached_def n3_def)
  have "net_do (IeDisconnect l True) n = Some (set_link l (ie_output_update (\<lambda>_. False)) n3)"
    using a st by (subst net_do.simps) (simp add: attached_def n1_def n2_def n3_def net_updates)
  then show ?thesis
    by (intro exI [of _ "links (set_link l (ie_output_update (\<lambda>_. False)) n3) l"])
      (simp add: n1_def n2_def n3_def net_updates)
qed

lemma disconnect_backward:
  assumes a: "attached n p q l" and b: "between q (out_conns n p) = l # ls"
  shows "\<exists>r. net_do (OeDisconnect l False) n =
    Some (set_link l (\<lambda>_. r) (set_out p (\<lambda>u. u\<lparr>op_manager := snd (cm_take q (op_manager u))\<rparr>) n))"
proof -
  define n1 where "n1 = set_link l (ie_port_update (\<lambda>_. None)) (set_link l (ie_output_update (\<lambda>_. False)) n)"
  define n2 where "n2 = set_out p (\<lambda>u. u\<lparr>op_manager := snd (cm_take q (op_manager u))\<rparr>) n1"
  have ie1: "net_do (OutRemove p q) n1 = net_do (IeDisconnect l True) n2"
    using cm_take_some [OF b] by (subst net_do.simps) (simp add: n1_def n2_def net_updates)
  have ie2: "net_do (IeDisconnect l True) n2 = Some n2"
    by (rule ie_dead) (simp_all add: n1_def n2_def net_updates)
  have "net_do (IeDisconnect l False) n = net_do (OutRemove p q) n1"
    using a by (subst net_do.simps) (simp add: attached_def n1_def net_updates)
  with ie1 ie2 have ie: "net_do (IeDisconnect l False) n = Some n2" by simp
  define n3 where "n3 = set_link l (st_output_update (\<lambda>_. False)) (set_link l (st_input_update (\<lambda>_. False)) n2)"
  have st: "net_do (StDisconnect l False) n = Some n3"
    using a ie by (subst net_do.simps) (simp add: attached_def n3_def)
  have "net_do (OeDisconnect l False) n = Some (set_link l (oe_input_update (\<lambda>_. False)) n3)"
    using a st by (subst net_do.simps) (simp add: attached_def n1_def n2_def n3_def net_updates)
  then show ?thesis
    by (intro exI [of _ "links (set_link l (oe_input_update (\<lambda>_. False)) n3) l"])
      (simp add: n1_def n2_def n3_def net_updates)
qed

lemma attached_cong: "links n' l = links n l \<Longrightarrow> attached n' p q l = attached n p q l"
  by (simp add: attached_def)

lemma out_remove:
  assumes c: "consistent n" and b: "between q (out_conns n p) = l # ls"
  shows "\<exists>r. net_do (OutRemove p q) n = Some (removed p q l r n)"
proof -
  have "l \<in> set (between q (out_conns n p))" using b by simp
  then have a: "attached n p q l" using consistentD(1) [OF c] by (simp add: set_between)
  let ?n = "set_out p (\<lambda>u. u\<lparr>op_manager := snd (cm_take q (op_manager u))\<rparr>) n"
  have "net_do (OutRemove p q) n = net_do (IeDisconnect l True) ?n"
    using cm_take_some [OF b] by (subst net_do.simps) (simp add: net_updates)
  moreover have "attached ?n p q l" using a by (simp add: attached_def net_updates)
  moreover have "between p (in_conns ?n q) = l # ls" using consistentD(3) [OF c, of q p] b by (simp add: net_updates)
  ultimately show ?thesis using disconnect_forward [of ?n p q l ls] by (simp add: removed_def)
qed

lemma in_remove:
  assumes c: "consistent n" and b: "between q (out_conns n p) = l # ls"
  shows "\<exists>r. net_do (InRemove q p) n = Some (removed p q l r n)"
proof -
  have "l \<in> set (between q (out_conns n p))" using b by simp
  then have a: "attached n p q l" using consistentD(1) [OF c] by (simp add: set_between)
  have b': "between p (in_conns n q) = l # ls" using consistentD(3) [OF c, of q p] b by simp
  let ?n = "set_in q (\<lambda>m. snd (cm_take p m)) n"
  have "net_do (InRemove q p) n = net_do (OeDisconnect l False) ?n"
    using cm_take_some [OF b'] by (subst net_do.simps) (simp add: net_updates)
  moreover have "attached ?n p q l" using a by (simp add: attached_def net_updates)
  moreover have "between q (out_conns ?n p) = l # ls" using b by (simp add: net_updates)
  ultimately obtain r where "net_do (InRemove q p) n =
      Some (set_link l (\<lambda>_. r) (set_out p (\<lambda>u. u\<lparr>op_manager := snd (cm_take q (op_manager u))\<rparr>) ?n))"
    using disconnect_backward [of ?n p q l ls] by auto
  then show ?thesis by (intro exI [of _ r]) (simp add: removed_def net_updates)
qed

lemma removed_consistent:
  assumes c: "consistent n" and b: "between q (out_conns n p) = l # ls"
  shows "consistent (removed p q l r n)"
proof -
  let ?n = "removed p q l r n"
  have b': "between p (in_conns n q) = l # ls" using consistentD(3) [OF c, of q p] b by simp
  have "l \<in> set (between q (out_conns n p))" using b by simp
  then have a: "attached n p q l" using consistentD(1) [OF c] by (simp add: set_between)
  have oc: "out_conns ?n p' = (if p' = p then snd (erase_first q (out_conns n p)) else out_conns n p')" for p'
    using b by (simp add: removed_def net_updates cm_take_connections)
  have ic: "in_conns ?n q' = (if q' = q then snd (erase_first p (in_conns n q)) else in_conns n q')" for q'
    using b' by (simp add: removed_def net_updates cm_take_connections)
  have sub: "set (out_conns ?n p') \<subseteq> set (out_conns n p')" for p' by (simp add: oc erase_first_rest(3))
  have gone: "(q', l) \<notin> set (out_conns ?n p')" for p' q'
  proof
    assume m: "(q', l) \<in> set (out_conns ?n p')"
    then have "attached n p' q' l" using sub consistentD(1) [OF c] by blast
    then have "p' = p" using a by (simp add: attached_def)
    with m erase_first_gone [OF consistentD(5) [OF c] b] show False by (force simp: oc)
  qed
  have lk: "l' \<noteq> l \<Longrightarrow> links ?n l' = links n l'" for l' by (simp add: removed_def net_updates)
  have nl: "next_link ?n = next_link n" by (simp add: removed_def net_updates)
  have "attached ?n p' q' l' \<and> l' < next_link ?n" if "(q', l') \<in> set (out_conns ?n p')" for p' q' l'
  proof -
    have "l' \<noteq> l" using that gone by auto
    moreover have "(q', l') \<in> set (out_conns n p')" using that sub by blast
    ultimately show ?thesis using consistentD(1,2) [OF c] attached_cong [of ?n l' n] lk nl by metis
  qed
  moreover have "between q' (out_conns ?n p') = between p' (in_conns ?n q')" for p' q'
    using consistentD(3) [OF c, of q' p'] b b' by (auto simp: oc ic erase_first_rest(1,2))
  moreover have "distinct (map snd (out_conns ?n p'))" "distinct (map snd (in_conns ?n q'))" for p' q'
    using consistentD(5,6) [OF c] by (simp_all add: oc ic erase_first_rest(4))
  moreover have "current_ok (ins ?n q')" for q'
    using consistentD(6,7) [OF c] by (simp add: removed_def net_updates cm_take_current)
  ultimately show ?thesis unfolding consistent_def by blast
qed

end
