(* ===== verification/PortsFlow.thy ===== *)
theory PortsFlow
  imports PortsSpec
begin

text \<open>
  Reading and writing through ports whose connections hold any storage that keeps the contract
  \<open>typed_store\<close>: what \<^verbatim>\<open>write\<close>, \<^verbatim>\<open>read\<close>, \<^verbatim>\<open>readNewest\<close> and \<^verbatim>\<open>clear\<close> do to the
  unread samples of every connection, and what a new connection starts with.
\<close>

section \<open>Wiring\<close>

abbreviation store_of :: "('a, 'c) net \<Rightarrow> nat \<Rightarrow> 'c" where
  "store_of n l \<equiv> l_store (links n l)"

text \<open>Nothing but stored samples and signals has changed.\<close>

definition same_wiring :: "('a, 'c) net \<Rightarrow> ('a, 'c) net \<Rightarrow> bool" where
  "same_wiring n n' \<longleftrightarrow>
     outs n' = outs n \<and> ins n' = ins n \<and> next_link n' = next_link n \<and>
     (\<forall>l. links n' l = (links n l)\<lparr>l_store := store_of n' l\<rparr>)"

lemma link_self [simp]: "k\<lparr>l_store := l_store k\<rparr> = k" for k :: "'c link"
  by (cases k) simp

lemma same_wiring_refl [simp]: "same_wiring n n"
  by (simp add: same_wiring_def)

lemma same_wiring_trans:
  assumes a: "same_wiring n1 n2" and b: "same_wiring n2 n3"
  shows "same_wiring n1 n3"
proof -
  have "links n3 l = (links n1 l)\<lparr>l_store := store_of n3 l\<rparr>" for l
  proof -
    have "links n2 l = (links n1 l)\<lparr>l_store := store_of n2 l\<rparr>" using a unfolding same_wiring_def by blast
    moreover have "links n3 l = (links n2 l)\<lparr>l_store := store_of n3 l\<rparr>" using b unfolding same_wiring_def by blast
    ultimately have "links n3 l = ((links n1 l)\<lparr>l_store := store_of n2 l\<rparr>)\<lparr>l_store := store_of n3 l\<rparr>" by metis
    then show ?thesis by simp
  qed
  then show ?thesis using a b by (simp add: same_wiring_def)
qed

lemma same_wiring_store: "same_wiring n (set_link l (\<lambda>u. u\<lparr>l_store := c\<rparr>) n)"
  by (simp add: same_wiring_def net_updates)

lemma same_wiring_signal: "same_wiring n (link_signal l n)"
  by (simp add: same_wiring_def link_signal_def split: option.split)

lemma wiring_link:
  assumes "same_wiring n n'"
  shows "ie_output (links n' l) = ie_output (links n l)" "st_output (links n' l) = st_output (links n l)"
    "st_input (links n' l) = st_input (links n l)" "oe_port (links n' l) = oe_port (links n l)"
    "oe_cid (links n' l) = oe_cid (links n l)" "oe_input (links n' l) = oe_input (links n l)"
    "ie_port (links n' l) = ie_port (links n l)" "ie_cid (links n' l) = ie_cid (links n l)"
proof -
  have "links n' l = (links n l)\<lparr>l_store := store_of n' l\<rparr>" using assms unfolding same_wiring_def by blast
  then obtain c where "links n' l = (links n l)\<lparr>l_store := c\<rparr>" ..
  then show "ie_output (links n' l) = ie_output (links n l)" "st_output (links n' l) = st_output (links n l)"
    "st_input (links n' l) = st_input (links n l)" "oe_port (links n' l) = oe_port (links n l)"
    "oe_cid (links n' l) = oe_cid (links n l)" "oe_input (links n' l) = oe_input (links n l)"
    "ie_port (links n' l) = ie_port (links n l)" "ie_cid (links n' l) = ie_cid (links n l)"
    by simp_all
qed

lemma wiring_attached: "same_wiring n n' \<Longrightarrow> attached n' p q l = attached n p q l"
  using wiring_link [of n n' l] by (simp add: attached_def)

lemma wiring_consistent: "same_wiring n n' \<Longrightarrow> consistent n' = consistent n"
  by (simp add: consistent_def wiring_attached) (simp add: same_wiring_def)

text \<open>All connections hold sound storage.\<close>

definition good :: "('c \<Rightarrow> bool) \<Rightarrow> ('a, 'c) net \<Rightarrow> bool" where
  "good ok n \<longleftrightarrow> consistent n \<and> (\<forall>p q l. (q, l) \<in> set (out_conns n p) \<longrightarrow> ok (store_of n l))"

lemma goodD:
  assumes "good ok n"
  shows "consistent n" "(q, l) \<in> set (out_conns n p) \<Longrightarrow> ok (store_of n l)"
    "(p, l) \<in> set (in_conns n q) \<Longrightarrow> ok (store_of n l)"
    "(p, l) \<in> set (in_conns n q) \<Longrightarrow> attached n p q l"
  using assms consistentD(4) [of n p l q] consistentD(1) [of n q l p] unfolding good_def by blast+

section \<open>Writing\<close>

text \<open>A descriptor \<open>(q, l)\<close> whose link is whole.\<close>

definition whole :: "('c \<Rightarrow> bool) \<Rightarrow> ('a, 'c) net \<Rightarrow> nat \<times> nat \<Rightarrow> bool" where
  "whole ok n d \<longleftrightarrow>
     ie_output (links n (snd d)) \<and> st_output (links n (snd d)) \<and> oe_port (links n (snd d)) = Some (fst d) \<and>
     ok (store_of n (snd d))"

lemma good_whole: "good ok n \<Longrightarrow> d \<in> set (out_conns n p) \<Longrightarrow> whole ok n d"
  using consistentD(1) [of n "fst d" "snd d" p] goodD(1) [of ok n] goodD(2) [of ok n "fst d" "snd d" p]
  by (cases d) (simp add: whole_def attached_def)

text \<open>What \<^verbatim>\<open>result\<close> becomes when none of the connections has new data; \<open>old\<close> gives the sample
  that a connection returned last.\<close>

definition old_status :: "(nat \<Rightarrow> 'a option) \<Rightarrow> nat list \<Rightarrow> flow_status \<Rightarrow> flow_status" where
  "old_status old ls res = (if res = NoData \<and> list_ex (\<lambda>l. old l \<noteq> None) ls then OldData else res)"

lemma old_status_append: "old_status old (ls @ ls') res = old_status old ls' (old_status old ls res)"
  by (cases "res = NoData"; cases "list_ex (\<lambda>l. old l \<noteq> None) ls") (simp_all only: old_status_def list_ex_append simp_thms if_True if_False refl flow_status.distinct)

text \<open>The order in which a read looks at the connections: the current one first, then the list.\<close>

definition read_order :: "manager \<Rightarrow> nat list" where
  "read_order m = (case cur_channel m of None \<Rightarrow> [] | Some l \<Rightarrow> [l]) @ map snd (connections m)"

definition cur_old :: "(nat \<Rightarrow> 'a option) \<Rightarrow> manager \<Rightarrow> 'a option" where
  "cur_old old m = Option.bind (cur_channel m) old"

text \<open>What successive reads deliver.\<close>

definition backlog :: "(nat \<Rightarrow> 'a list) \<Rightarrow> manager \<Rightarrow> 'a list" where
  "backlog f m =
     (case cur_channel m of None \<Rightarrow> [] | Some c \<Rightarrow> f c) @
     concat (map f (filter (\<lambda>l. cur_channel m \<noteq> Some l) (map snd (connections m))))"

lemma find_split: "find P xs = Some x \<Longrightarrow> \<exists>pre post. xs = pre @ x # post \<and> P x \<and> (\<forall>y \<in> set pre. \<not> P y)"
proof (induction xs)
  case (Cons a xs)
  show ?case
  proof (cases "P a")
    case True
    with Cons.prems show ?thesis by (intro exI [of _ "[]"] exI [of _ xs]) simp
  next
    case False
    with Cons obtain pre post where "xs = pre @ x # post" "P x" "\<forall>y \<in> set pre. \<not> P y" by auto
    with False show ?thesis by (intro exI [of _ "a # pre"] exI [of _ post]) simp
  qed
qed simp

lemma concat_silent: "\<forall>y \<in> set ls. f y = [] \<Longrightarrow> concat (map f (filter P ls)) = []"
  by (induction ls) simp_all

lemma backlog_none:
  assumes "find (\<lambda>l. f l \<noteq> []) (read_order m) = None"
  shows "backlog f m = []"
proof -
  have "\<forall>l \<in> set (read_order m). f l = []" using assms by (simp add: find_None_iff)
  then show ?thesis
    by (cases "cur_channel m") (auto simp: backlog_def read_order_def concat_silent simp del: filter_map)
qed

lemma backlog_step:
  assumes found: "find (\<lambda>l. f l \<noteq> []) (read_order m) = Some l" and d: "distinct (map snd (connections m))"
  shows "backlog f m = hd (f l) # backlog (f(l := tl (f l))) (m\<lparr>cur_channel := Some l\<rparr>)"
proof -
  obtain y ys where y: "f l = y # ys" using find_split [OF found] by (cases "f l") auto
  show ?thesis
  proof (cases "cur_channel m = Some l")
    case True
    have "map (f(l := ys)) (filter (\<lambda>k. k \<noteq> l) (map snd (connections m))) = map f (filter (\<lambda>k. k \<noteq> l) (map snd (connections m)))"
      by (rule map_cong) auto
    then show ?thesis using True y by (simp add: backlog_def eq_commute [of l] del: filter_map map_map)
  next
    case False
    have quiet: "f c = []" if "cur_channel m = Some c" for c
      using found False that by (cases "f c") (auto simp: read_order_def)
    have "find (\<lambda>l. f l \<noteq> []) (map snd (connections m)) = Some l"
      using found quiet by (simp add: read_order_def split: option.splits)
    then obtain pre post where ls: "map snd (connections m) = pre @ l # post" "\<forall>k \<in> set pre. f k = []"
      using find_split by force
    have new: "l \<notin> set pre" "l \<notin> set post" using d unfolding ls(1) by auto
    have "concat (map f (filter (\<lambda>k. cur_channel m \<noteq> Some k) post)) = concat (map f post)"
      using quiet by (induction post) auto
    then have b1: "backlog f m = (y # ys) @ concat (map f post)"
      using quiet False y ls(2) by (simp add: backlog_def ls(1) concat_silent split: option.split)
    have p: "filter (\<lambda>k. k \<noteq> l) pre = pre" "filter (\<lambda>k. k \<noteq> l) post = post" using new by (auto simp: filter_id_conv)
    have q: "map (f(l := ys)) pre = map f pre" "map (f(l := ys)) post = map f post" using new by simp_all
    have r: "concat (map f pre) = []" using ls(2) by simp
    have "backlog (f(l := ys)) (m\<lparr>cur_channel := Some l\<rparr>) = ys @ concat (map f post)"
      by (simp add: backlog_def ls(1) eq_commute [of l] p q r)
    with b1 y show ?thesis by simp
  qed
qed

context typed_store
begin

definition unread :: "('a, 'c) net \<Rightarrow> nat \<Rightarrow> 'a list" where
  "unread n l = fresh (store_of n l)"

definition last_read :: "('a, 'c) net \<Rightarrow> nat \<Rightarrow> 'a option" where
  "last_read n l = stale (store_of n l)"

definition link_kind :: "('a, 'c) net \<Rightarrow> nat \<Rightarrow> 'k" where
  "link_kind n l = kind (store_of n l)"

text \<open>What a write makes of a connection, and whether it signals the reader.\<close>

definition after_write :: "('a, 'c) net \<Rightarrow> 'a \<Rightarrow> nat \<Rightarrow> bool \<times> 'a list" where
  "after_write n x l = keep (link_kind n l) x (unread n l)"

lemma link_write_spec:
  assumes w: "whole valid n d"
  obtains n' where "link_write S x (snd d) n = Some (True, n')" "same_wiring n n'"
    "\<And>l. l \<noteq> snd d \<Longrightarrow> links n' l = links n l" "valid (store_of n' (snd d))"
    "link_kind n' (snd d) = link_kind n (snd d)" "unread n' (snd d) = snd (after_write n x (snd d))"
    "unread n' (snd d) \<noteq> []"
    "signalled n' = signalled n @ (if fst (after_write n x (snd d)) then [fst d] else [])"
proof -
  let ?l = "snd d"
  from w have v: "valid (store_of n ?l)" and e: "ie_output (links n ?l)" "st_output (links n ?l)" "oe_port (links n ?l) = Some (fst d)"
    by (simp_all add: whole_def)
  obtain sig c' where c: "s_write S x (store_of n ?l) = Some (sig, c')" "valid c'" "kind c' = kind (store_of n ?l)"
      "keep (kind (store_of n ?l)) x (fresh (store_of n ?l)) = (sig, fresh c')" "fresh c' \<noteq> []"
    using written [OF v, of x] by blast
  let ?n1 = "set_link ?l (\<lambda>u. u\<lparr>l_store := c'\<rparr>) n"
  let ?n' = "if sig then link_signal ?l ?n1 else ?n1"
  have n': "links ?n' = links ?n1" "outs ?n' = outs ?n1" "ins ?n' = ins ?n1" "next_link ?n' = next_link ?n1"
      "signalled ?n' = signalled n @ (if sig then [fst d] else [])"
    using e by (simp_all add: link_signal_def net_updates)
  have sw: "same_wiring n ?n'" using same_wiring_store [of n ?l c'] n' by (simp add: same_wiring_def)
  have ln: "links ?n1 = (links n)(?l := (links n ?l)\<lparr>l_store := c'\<rparr>)" by (simp add: net_updates)
  have st: "store_of ?n' ?l = c'" unfolding n'(1) ln by simp
  have up: "l_store_update (\<lambda>_. c') = (\<lambda>u. u\<lparr>l_store := c'\<rparr>)" by simp
  show thesis
  proof (rule that [of ?n'])
    show "link_write S x ?l n = Some (True, ?n')"
      using e c(1) by (simp add: link_write_def)
    show "links ?n' l = links n l" if "l \<noteq> ?l" for l unfolding n'(1) ln using that by simp
    show "unread ?n' ?l = snd (after_write n x ?l)" "unread ?n' ?l \<noteq> []"
      unfolding unread_def st after_write_def link_kind_def using c(4,5) by simp_all
    show "valid (store_of ?n' ?l)" "link_kind ?n' ?l = link_kind n ?l" unfolding link_kind_def st using c(2,3) by simp_all
    show "signalled ?n' = signalled n @ (if fst (after_write n x ?l) then [fst d] else [])"
      unfolding n'(5) after_write_def link_kind_def unread_def using c(4) by simp
  qed (rule sw)
qed

lemma view_cong:
  assumes "links n' l = links n l"
  shows "unread n' l = unread n l" "last_read n' l = last_read n l" "link_kind n' l = link_kind n l"
    "after_write n' x l = after_write n x l" "whole ok n' (q, l) = whole ok n (q, l)"
  using assms by (simp_all add: unread_def last_read_def link_kind_def after_write_def whole_def)

lemma write_loop:
  assumes "\<And>d. d \<in> set ds \<Longrightarrow> whole valid n d" and "distinct (map snd ds)"
  shows "\<exists>n'. keep_if (link_write S x) ds n = Some (ds, n') \<and> same_wiring n n' \<and>
    (\<forall>l. l \<notin> snd ` set ds \<longrightarrow> links n' l = links n l) \<and>
    (\<forall>l \<in> snd ` set ds. valid (store_of n' l) \<and> link_kind n' l = link_kind n l \<and>
       unread n' l = snd (after_write n x l) \<and> unread n' l \<noteq> []) \<and>
    signalled n' = signalled n @ map fst (filter (\<lambda>d. fst (after_write n x (snd d))) ds)"
  using assms
proof (induction ds arbitrary: n)
  case Nil
  then show ?case by simp
next
  case (Cons d ds)
  obtain n1 where n1: "link_write S x (snd d) n = Some (True, n1)" "same_wiring n n1"
      "\<And>l. l \<noteq> snd d \<Longrightarrow> links n1 l = links n l" "valid (store_of n1 (snd d))"
      "link_kind n1 (snd d) = link_kind n (snd d)" "unread n1 (snd d) = snd (after_write n x (snd d))"
      "unread n1 (snd d) \<noteq> []"
      "signalled n1 = signalled n @ (if fst (after_write n x (snd d)) then [fst d] else [])"
    using link_write_spec [of n d x] Cons.prems(1) by (metis list.set_intros(1))
  have ne: "snd d' \<noteq> snd d" if "d' \<in> set ds" for d'
  proof -
    have "snd d' \<in> snd ` set ds" using that by (rule imageI)
    moreover have "snd d \<notin> snd ` set ds" using Cons.prems(2) by simp
    ultimately show ?thesis by metis
  qed
  have same: "after_write n1 x (snd d') = after_write n x (snd d')" "link_kind n1 (snd d') = link_kind n (snd d')"
      "whole valid n1 d' = whole valid n d'" if "d' \<in> set ds" for d'
    using view_cong [OF n1(3) [OF ne [OF that]]] by (simp_all add: view_cong(5) n1(3) ne that whole_def)
  have "\<And>d'. d' \<in> set ds \<Longrightarrow> whole valid n1 d'" using Cons.prems(1) same(3) by simp
  moreover have dist: "distinct (map snd ds)" using Cons.prems(2) by simp
  ultimately obtain n' where n': "keep_if (link_write S x) ds n1 = Some (ds, n')" "same_wiring n1 n'"
      "\<forall>l. l \<notin> snd ` set ds \<longrightarrow> links n' l = links n1 l"
      "\<forall>l \<in> snd ` set ds. valid (store_of n' l) \<and> link_kind n' l = link_kind n1 l \<and>
         unread n' l = snd (after_write n1 x l) \<and> unread n' l \<noteq> []"
      "signalled n' = signalled n1 @ map fst (filter (\<lambda>d. fst (after_write n1 x (snd d))) ds)"
    using Cons.IH [of n1] by blast
  have "snd d \<notin> snd ` set ds" using Cons.prems(2) by simp
  then have dl: "links n' (snd d) = links n1 (snd d)" using n'(3) by blast
  have "filter (\<lambda>d. fst (after_write n1 x (snd d))) ds = filter (\<lambda>d. fst (after_write n x (snd d))) ds"
    by (rule filter_cong) (simp_all add: same)
  then have sg: "signalled n' = signalled n @ map fst (filter (\<lambda>d. fst (after_write n x (snd d))) (d # ds))"
    using n'(5) n1(8) by simp
  have d: "valid (store_of n' (snd d)) \<and> link_kind n' (snd d) = link_kind n (snd d) \<and>
      unread n' (snd d) = snd (after_write n x (snd d)) \<and> unread n' (snd d) \<noteq> []"
    using n1(4-7) view_cong [OF dl] dl by simp
  have rest: "valid (store_of n' l) \<and> link_kind n' l = link_kind n l \<and>
      unread n' l = snd (after_write n x l) \<and> unread n' l \<noteq> []" if "l \<in> snd ` set ds" for l
    using n'(4) that same by (metis (no_types, lifting) imageE)
  show ?case
  proof (intro exI [of _ n'] conjI)
    show "keep_if (link_write S x) (d # ds) n = Some (d # ds, n')" using n1(1) n'(1) by simp
    show "\<forall>l. l \<notin> snd ` set (d # ds) \<longrightarrow> links n' l = links n l"
    proof (intro allI impI)
      fix l assume "l \<notin> snd ` set (d # ds)"
      then have "l \<notin> snd ` set ds" "l \<noteq> snd d" by auto
      then show "links n' l = links n l" using n'(3) n1(3) by metis
    qed
    show "\<forall>l \<in> snd ` set (d # ds). valid (store_of n' l) \<and> link_kind n' l = link_kind n l \<and>
        unread n' l = snd (after_write n x l) \<and> unread n' l \<noteq> []"
    proof
      fix l assume "l \<in> snd ` set (d # ds)"
      then have "l = snd d \<or> l \<in> snd ` set ds" by auto
      then show "valid (store_of n' l) \<and> link_kind n' l = link_kind n l \<and>
          unread n' l = snd (after_write n x l) \<and> unread n' l \<noteq> []" using d rest [of l] by metis
    qed
  qed (rule same_wiring_trans [OF n1(2) n'(2)], rule sg)
qed

lemma out_write_spec:
  assumes g: "good valid n"
  obtains n' where "out_write S x p n = Some n'" "good valid n'" "ins n' = ins n" "next_link n' = next_link n"
    "\<And>p'. op_manager (outs n' p') = op_manager (outs n p')"
    "\<And>l. l \<notin> snd ` set (out_conns n p) \<Longrightarrow> links n' l = links n l"
    "\<And>l. l \<in> snd ` set (out_conns n p) \<Longrightarrow> link_kind n' l = link_kind n l \<and>
       unread n' l = snd (after_write n x l) \<and> unread n' l \<noteq> []"
    "signalled n' = signalled n @ map fst (filter (\<lambda>d. fst (after_write n x (snd d))) (out_conns n p))"
    "keeps_last_written_value (outs n p) \<Longrightarrow>
       has_initial_sample (outs n' p) \<and> has_last_written_value (outs n' p) \<and> op_sample (outs n' p) = x"
proof -
  define o2 where "o2 = (if keeps_last_written_value (outs n p) \<or> keeps_next_written_value (outs n p)
      then (outs n p)\<lparr>has_initial_sample := True, keeps_next_written_value := False, op_sample := x\<rparr> else outs n p)"
  define o3 where "o3 = o2\<lparr>has_last_written_value := keeps_last_written_value o2\<rparr>"
  define n0 where "n0 = set_out p (\<lambda>_. o3) n"
  have m3: "op_manager o3 = op_manager (outs n p)" by (simp add: o3_def o2_def)
  have n0: "links n0 = links n" "ins n0 = ins n" "next_link n0 = next_link n" "signalled n0 = signalled n"
    by (simp_all add: n0_def net_updates)
  have m0: "op_manager (outs n0 p') = op_manager (outs n p')" for p' by (simp add: n0_def net_updates m3)
  have g0: "good valid n0"
    using g by (simp add: good_def consistent_def attached_def n0 m0)
  let ?ds = "out_conns n p"
  have ds0: "out_conns n0 p = ?ds" by (simp add: m0)
  have "\<And>d. d \<in> set ?ds \<Longrightarrow> whole valid n0 d" using good_whole [OF g0, of _ p] by (simp add: m0)
  moreover have "distinct (map snd ?ds)" using consistentD(5) [OF goodD(1) [OF g]] .
  ultimately obtain n1 where n1: "keep_if (link_write S x) ?ds n0 = Some (?ds, n1)" "same_wiring n0 n1"
    "\<forall>l. l \<notin> snd ` set ?ds \<longrightarrow> links n1 l = links n0 l"
    "\<forall>l \<in> snd ` set ?ds. valid (store_of n1 l) \<and> link_kind n1 l = link_kind n0 l \<and>
       unread n1 l = snd (after_write n0 x l) \<and> unread n1 l \<noteq> []"
    "signalled n1 = signalled n0 @ map fst (filter (\<lambda>d. fst (after_write n0 x (snd d))) ?ds)"
    using write_loop [of ?ds n0 x] by blast
  have aw: "after_write n0 x = after_write n x" "link_kind n0 = link_kind n"
    by (simp_all add: fun_eq_iff after_write_def link_kind_def unread_def n0)
  have outs1: "outs n1 = (outs n)(p := o3)" using n1(2) by (simp add: same_wiring_def n0_def net_updates)
  have same: "set_out p (op_manager_update (connections_update (\<lambda>_. ?ds))) n1 = n1"
  proof -
    have "connections_update (\<lambda>_. ?ds) (op_manager o3) = op_manager o3" unfolding m3 by (cases "op_manager (outs n p)") simp
    then have "op_manager_update (connections_update (\<lambda>_. ?ds)) o3 = o3" by (cases o3) simp
    then show ?thesis using outs1 by (cases n1) (simp add: net_updates)
  qed
  have w: "out_write S x p n = Some n1"
    unfolding out_write_def Let_def out_delete_if_def
    unfolding o2_def [symmetric] unfolding o3_def [symmetric] unfolding n0_def [symmetric]
    using n1(1) same by (simp add: ds0 m0)
  have c1: "consistent n1" using wiring_consistent [OF n1(2)] goodD(1) [OF g0] by simp
  have oc1: "out_conns n1 p' = out_conns n p'" for p' using outs1 m3 by simp
  have ok1: "valid (store_of n1 l)" if m: "(q', l) \<in> set (out_conns n1 p')" for p' q' l
  proof (cases "l \<in> snd ` set ?ds")
    case True
    then show ?thesis using n1(4) by blast
  next
    case False
    then have "links n1 l = links n l" using n1(3) n0(1) by simp
    then show ?thesis using goodD(2) [OF g, of q' l p'] m oc1 by simp
  qed
  show thesis
  proof (rule that [OF w])
    show "good valid n1" unfolding good_def using c1 ok1 by blast
    show "ins n1 = ins n" "next_link n1 = next_link n" using n1(2) n0 by (simp_all add: same_wiring_def)
    show "op_manager (outs n1 p') = op_manager (outs n p')" for p' using outs1 m3 by simp
    show "links n1 l = links n l" if "l \<notin> snd ` set ?ds" for l using n1(3) that n0(1) by simp
    show "link_kind n1 l = link_kind n l \<and> unread n1 l = snd (after_write n x l) \<and> unread n1 l \<noteq> []"
      if "l \<in> snd ` set ?ds" for l using n1(4) that aw by metis
    show "signalled n1 = signalled n @ map fst (filter (\<lambda>d. fst (after_write n x (snd d))) ?ds)"
      using n1(5) aw n0(4) by simp
    show "has_initial_sample (outs n1 p) \<and> has_last_written_value (outs n1 p) \<and> op_sample (outs n1 p) = x"
      if "keeps_last_written_value (outs n p)"
      using that outs1 by (simp add: o3_def o2_def)
  qed
qed

section \<open>Reading\<close>

definition reads_only :: "('a, 'c) net \<Rightarrow> ('a, 'c) net \<Rightarrow> bool" where
  "reads_only n n' \<longleftrightarrow>
     same_wiring n n' \<and> link_kind n' = link_kind n \<and> signalled n' = signalled n \<and>
     (\<forall>l. valid (store_of n l) \<longrightarrow> valid (store_of n' l))"

lemma reads_only_refl [simp]: "reads_only n n"
  by (simp add: reads_only_def)

lemma reads_only_trans: "reads_only n1 n2 \<Longrightarrow> reads_only n2 n3 \<Longrightarrow> reads_only n1 n3"
  unfolding reads_only_def using same_wiring_trans by metis

definition readable :: "('a, 'c) net \<Rightarrow> nat \<Rightarrow> bool" where
  "readable n l \<longleftrightarrow> oe_input (links n l) \<and> valid (store_of n l)"

lemma readable_after: "reads_only n n' \<Longrightarrow> readable n l \<Longrightarrow> readable n' l"
  using wiring_link(6) [of n n' l] by (simp add: reads_only_def readable_def)

lemma store_change:
  assumes "valid c'" "kind c' = kind (store_of n l)"
  shows "reads_only n (set_link l (\<lambda>u. u\<lparr>l_store := c'\<rparr>) n)"
    "unread (set_link l (\<lambda>u. u\<lparr>l_store := c'\<rparr>) n) = (unread n)(l := fresh c')"
    "last_read (set_link l (\<lambda>u. u\<lparr>l_store := c'\<rparr>) n) = (last_read n)(l := stale c')"
  using assms same_wiring_store [of n l c']
  by (auto simp: reads_only_def link_kind_def unread_def last_read_def net_updates fun_eq_iff)

lemma do_read_new:
  assumes r: "readable n l" and u: "unread n l \<noteq> []"
  shows "\<exists>n'. do_read S copy l (v, res, n) = Some (True, hd (unread n l), NewData, n') \<and> reads_only n n' \<and>
    unread n' = (unread n)(l := tl (unread n l)) \<and> last_read n' = (last_read n)(l := Some (hd (unread n l)))"
proof -
  obtain y ys where y: "fresh (store_of n l) = y # ys" using u by (cases "unread n l") (auto simp: unread_def)
  with r obtain c' where c': "s_read S copy v (store_of n l) = Some (NewData, y, c')" "valid c'"
      "kind c' = kind (store_of n l)" "fresh c' = ys" "stale c' = Some y"
    using read_fresh [of "store_of n l" y ys copy v] by (auto simp: readable_def)
  let ?n = "set_link l (\<lambda>u. u\<lparr>l_store := c'\<rparr>) n"
  have "do_read S copy l (v, res, n) = Some (True, y, NewData, ?n)"
    using r c'(1) by (simp add: do_read_def link_read_def readable_def)
  then show ?thesis using store_change [OF c'(2,3)] c'(4,5) y
    by (intro exI [of _ ?n]) (simp add: unread_def [of n l])
qed

lemma do_read_old:
  assumes r: "readable n l" and u: "unread n l = []"
  shows "\<exists>n'. do_read S copy l (v, res, n) =
      Some (False, (case last_read n l of Some y \<Rightarrow> if copy then y else v | None \<Rightarrow> v), old_status (last_read n) [l] res, n') \<and>
    reads_only n n' \<and> unread n' = unread n \<and> last_read n' = last_read n"
proof -
  obtain c' where c': "s_read S copy v (store_of n l) =
       Some (case stale (store_of n l) of None \<Rightarrow> (NoData, v, c') | Some y \<Rightarrow> (OldData, if copy then y else v, c'))"
      "valid c'" "kind c' = kind (store_of n l)" "fresh c' = []" "stale c' = stale (store_of n l)"
    using read_old [of "store_of n l" copy v] r u by (auto simp: readable_def unread_def)
  let ?n = "set_link l (\<lambda>u. u\<lparr>l_store := c'\<rparr>) n"
  have "do_read S copy l (v, res, n) =
      Some (False, (case last_read n l of Some y \<Rightarrow> if copy then y else v | None \<Rightarrow> v), old_status (last_read n) [l] res, ?n)"
    using r c'(1) by (cases res; cases "stale (store_of n l)")
      (simp_all add: do_read_def link_read_def readable_def old_status_def last_read_def)
  then show ?thesis using store_change [OF c'(2,3)] c'(4,5) u
    by (intro exI [of _ ?n]) (auto simp: unread_def last_read_def fun_eq_iff)
qed

lemma find_in_list_spec:
  assumes "\<And>d. d \<in> set ds \<Longrightarrow> readable n (snd d)"
  shows "\<exists>n'. reads_only n n' \<and>
    (case find (\<lambda>l. unread n l \<noteq> []) (map snd ds) of
       Some l \<Rightarrow> find_in_list S ds (v, res, n) = Some (Some l, hd (unread n l), NewData, n') \<and>
         unread n' = (unread n)(l := tl (unread n l)) \<and> last_read n' = (last_read n)(l := Some (hd (unread n l)))
     | None \<Rightarrow> find_in_list S ds (v, res, n) = Some (None, v, old_status (last_read n) (map snd ds) res, n') \<and>
         unread n' = unread n \<and> last_read n' = last_read n)"
  using assms
proof (induction ds arbitrary: n res)
  case Nil
  then show ?case by (intro exI [of _ n]) (simp add: old_status_def)
next
  case (Cons d ds)
  have r: "readable n (snd d)" using Cons.prems by simp
  show ?case
  proof (cases "unread n (snd d) = []")
    case False
    then show ?thesis using do_read_new [OF r False, of False v res] by auto
  next
    case True
    obtain n1 where n1: "do_read S False (snd d) (v, res, n) = Some (False, v, old_status (last_read n) [snd d] res, n1)"
        "reads_only n n1" "unread n1 = unread n" "last_read n1 = last_read n"
      using do_read_old [OF r True, of False v res] by (auto split: option.splits)
    have "\<And>d'. d' \<in> set ds \<Longrightarrow> readable n1 (snd d')" using Cons.prems readable_after [OF n1(2)] by simp
    from Cons.IH [OF this] obtain n' where n': "reads_only n1 n'"
      "case find (\<lambda>l. unread n1 l \<noteq> []) (map snd ds) of
         Some l \<Rightarrow> find_in_list S ds (v, old_status (last_read n) [snd d] res, n1) = Some (Some l, hd (unread n1 l), NewData, n') \<and>
           unread n' = (unread n1)(l := tl (unread n1 l)) \<and> last_read n' = (last_read n1)(l := Some (hd (unread n1 l)))
       | None \<Rightarrow> find_in_list S ds (v, old_status (last_read n) [snd d] res, n1) =
           Some (None, v, old_status (last_read n1) (map snd ds) (old_status (last_read n) [snd d] res), n') \<and>
           unread n' = unread n1 \<and> last_read n' = last_read n1"
      by blast
    have "old_status (last_read n1) (map snd ds) (old_status (last_read n) [snd d] res) = old_status (last_read n) (map snd (d # ds)) res"
      using old_status_append [of "last_read n" "[snd d]" "map snd ds" res] n1(4) by simp
    then show ?thesis
      using True n1 n' reads_only_trans [OF n1(2) n'(1)]
      by (intro exI [of _ n']) (simp split: option.splits)
  qed
qed

lemma cm_find_if_spec:
  assumes "\<forall>l \<in> set (read_order m). readable n l"
  shows "\<exists>n'. reads_only n n' \<and>
    (case find (\<lambda>l. unread n l \<noteq> []) (read_order m) of
       Some l \<Rightarrow> cm_find_if S copy m (v, NoData, n) = Some (Some l, hd (unread n l), NewData, n') \<and>
         unread n' = (unread n)(l := tl (unread n l)) \<and> last_read n' = (last_read n)(l := Some (hd (unread n l)))
     | None \<Rightarrow> cm_find_if S copy m (v, NoData, n) =
         Some (None, (case cur_old (last_read n) m of Some y \<Rightarrow> if copy then y else v | None \<Rightarrow> v),
           old_status (last_read n) (read_order m) NoData, n') \<and> unread n' = unread n \<and> last_read n' = last_read n)"
proof (cases "cur_channel m")
  case None
  then have e: "cm_find_if S copy m (v, NoData, n) = find_in_list S (connections m) (v, NoData, n)"
      "read_order m = map snd (connections m)" "cur_old (last_read n) m = None"
    by (simp_all add: cm_find_if_def read_order_def cur_old_def)
  show ?thesis
    unfolding e option.case by (rule find_in_list_spec) (use assms e in simp)
next
  case (Some c)
  have r: "readable n c" using assms Some by (simp add: read_order_def)
  show ?thesis
  proof (cases "unread n c = []")
    case False
    then show ?thesis
      using do_read_new [OF r False, of copy v NoData] Some by (auto simp: cm_find_if_def read_order_def)
  next
    case True
    define v1 where "v1 = (case last_read n c of Some y \<Rightarrow> if copy then y else v | None \<Rightarrow> v)"
    obtain n1 where n1: "do_read S copy c (v, NoData, n) = Some (False, v1, old_status (last_read n) [c] NoData, n1)"
        "reads_only n n1" "unread n1 = unread n" "last_read n1 = last_read n"
      using do_read_old [OF r True, of copy v NoData] by (auto simp: v1_def)
    have "\<And>d. d \<in> set (connections m) \<Longrightarrow> readable n1 (snd d)"
      using assms readable_after [OF n1(2)] by (simp add: read_order_def)
    from find_in_list_spec [OF this, where v = v1 and res = "old_status (last_read n) [c] NoData"] obtain n' where n': "reads_only n1 n'"
      "case find (\<lambda>l. unread n1 l \<noteq> []) (map snd (connections m)) of
         Some l \<Rightarrow> find_in_list S (connections m) (v1, old_status (last_read n) [c] NoData, n1) =
             Some (Some l, hd (unread n1 l), NewData, n') \<and>
           unread n' = (unread n1)(l := tl (unread n1 l)) \<and> last_read n' = (last_read n1)(l := Some (hd (unread n1 l)))
       | None \<Rightarrow> find_in_list S (connections m) (v1, old_status (last_read n) [c] NoData, n1) =
           Some (None, v1, old_status (last_read n1) (map snd (connections m)) (old_status (last_read n) [c] NoData), n') \<and>
           unread n' = unread n1 \<and> last_read n' = last_read n1"
      by blast
    have os: "old_status (last_read n) (map snd (connections m)) (old_status (last_read n) [c] NoData) = old_status (last_read n) (read_order m) NoData"
      using Some old_status_append [of "last_read n" "[c]" "map snd (connections m)" NoData] by (simp add: read_order_def)
    have e: "cm_find_if S copy m (v, NoData, n) = find_in_list S (connections m) (v1, old_status (last_read n) [c] NoData, n1)"
      using Some n1(1) by (simp add: cm_find_if_def)
    have v1: "(case cur_old (last_read n) m of Some y \<Rightarrow> if copy then y else v | None \<Rightarrow> v) = v1"
      using Some by (simp add: cur_old_def v1_def)
    have f: "find (\<lambda>l. unread n l \<noteq> []) (read_order m) = find (\<lambda>l. unread n l \<noteq> []) (map snd (connections m))"
      using Some True by (simp add: read_order_def)
    show ?thesis
      unfolding e f v1 using n'(2) reads_only_trans [OF n1(2) n'(1)]
      by (intro exI [of _ n']) (simp only: os n1(3,4) simp_thms)
  qed
qed

lemma good_readable:
  assumes g: "good valid n" and l: "l \<in> set (read_order (ins n q))"
  shows "readable n l"
proof -
  have "l \<in> snd ` set (in_conns n q)"
    using l consistentD(7) [OF goodD(1) [OF g], of q]
    by (auto simp: read_order_def current_ok_def split: option.splits)
  then obtain p where "(p, l) \<in> set (in_conns n q)" by force
  then show ?thesis using goodD(3,4) [OF g] by (auto simp: readable_def attached_def)
qed

lemma good_readable_all: "good valid n \<Longrightarrow> \<forall>l \<in> set (read_order (ins n q)). readable n l"
  using good_readable by blast

lemma good_reads_only:
  assumes g: "good valid n" and r: "reads_only n n1"
  shows "good valid n1"
  using g r wiring_consistent [of n n1] unfolding good_def reads_only_def by (simp add: same_wiring_def)

lemma good_current:
  assumes g: "good valid n" and l: "l \<in> snd ` set (in_conns n q)"
  shows "good valid (set_in q (\<lambda>m. m\<lparr>cur_channel := Some l\<rparr>) n)"
  using g l by (simp add: good_def consistent_def net_updates attached_def current_ok_def)

text \<open>A read changes samples and the current channel of the port, and nothing else.\<close>

definition read_frame :: "nat \<Rightarrow> ('a, 'c) net \<Rightarrow> ('a, 'c) net \<Rightarrow> bool" where
  "read_frame q n n' \<longleftrightarrow>
     good valid n' \<and> outs n' = outs n \<and> next_link n' = next_link n \<and> signalled n' = signalled n \<and>
     link_kind n' = link_kind n \<and> in_conns n' q = in_conns n q \<and> (\<forall>k. k \<noteq> q \<longrightarrow> ins n' k = ins n k)"

lemma read_frame_trans: "read_frame q n1 n2 \<Longrightarrow> read_frame q n2 n3 \<Longrightarrow> read_frame q n1 n3"
  unfolding read_frame_def by simp

lemma read_frame_reads_only: "good valid n \<Longrightarrow> reads_only n n' \<Longrightarrow> read_frame q n n'"
  using good_reads_only [of n n'] by (simp add: read_frame_def reads_only_def same_wiring_def)

lemma in_read_new:
  assumes g: "good valid n" and f: "find (\<lambda>l. unread n l \<noteq> []) (read_order (ins n q)) = Some l"
  obtains n' where "in_read S copy v q n = Some (NewData, hd (unread n l), n')" "read_frame q n n'"
    "ins n' q = (ins n q)\<lparr>cur_channel := Some l\<rparr>" "unread n' = (unread n)(l := tl (unread n l))"
    "last_read n' = (last_read n)(l := Some (hd (unread n l)))"
proof -
  obtain n1 where n1: "reads_only n n1"
      "cm_find_if S copy (ins n q) (v, NoData, n) = Some (Some l, hd (unread n l), NewData, n1)"
      "unread n1 = (unread n)(l := tl (unread n l))" "last_read n1 = (last_read n)(l := Some (hd (unread n l)))"
    using cm_find_if_spec [OF good_readable_all [OF g, of q], of copy v] f by auto
  have "l \<in> set (read_order (ins n q))" using find_split [OF f] by auto
  then have l: "l \<in> snd ` set (in_conns n q)"
    using consistentD(7) [OF goodD(1) [OF g], of q] by (auto simp: read_order_def current_ok_def split: option.splits)
  let ?n' = "set_in q (\<lambda>m. m\<lparr>cur_channel := Some l\<rparr>) n1"
  have same: "ins n1 = ins n" using n1(1) by (simp add: reads_only_def same_wiring_def)
  have "good valid ?n'" by (rule good_current [OF good_reads_only [OF g n1(1)]]) (simp add: same l)
  then have "read_frame q n ?n'"
    using n1(1) by (simp add: read_frame_def reads_only_def same_wiring_def net_updates link_kind_def fun_eq_iff)
  moreover have "in_read S copy v q n = Some (NewData, hd (unread n l), ?n')"
    using n1(2) by (simp add: in_read_def select_reader_channel_def)
  moreover have "links ?n' = links n1" "ins ?n' q = (ins n q)\<lparr>cur_channel := Some l\<rparr>" by (simp_all add: net_updates same)
  moreover from this(1) have "unread ?n' = unread n1" "last_read ?n' = last_read n1"
    by (simp_all add: fun_eq_iff unread_def last_read_def)
  ultimately show thesis using that [of ?n'] n1(3,4) by simp
qed

lemma in_read_old:
  assumes g: "good valid n" and f: "find (\<lambda>l. unread n l \<noteq> []) (read_order (ins n q)) = None"
  obtains n' where "in_read S copy v q n = Some (old_status (last_read n) (read_order (ins n q)) NoData,
      (case cur_old (last_read n) (ins n q) of Some y \<Rightarrow> if copy then y else v | None \<Rightarrow> v), n')"
    "read_frame q n n'" "ins n' = ins n" "unread n' = unread n" "last_read n' = last_read n"
proof -
  obtain n1 where n1: "reads_only n n1"
      "cm_find_if S copy (ins n q) (v, NoData, n) =
         Some (None, (case cur_old (last_read n) (ins n q) of Some y \<Rightarrow> if copy then y else v | None \<Rightarrow> v),
           old_status (last_read n) (read_order (ins n q)) NoData, n1)"
      "unread n1 = unread n" "last_read n1 = last_read n"
    using cm_find_if_spec [OF good_readable_all [OF g, of q], of copy v] f by auto
  show thesis
    by (rule that [of n1])
      (use n1 in \<open>simp_all add: in_read_def select_reader_channel_def read_frame_reads_only [OF g]\<close>,
       simp add: reads_only_def same_wiring_def)
qed

text \<open>\<^verbatim>\<open>read_all\<close> returns: every round takes one sample of the backlog.\<close>

lemma read_all_spec:
  assumes "good valid n"
  shows "\<exists>n'. read_all S v q n = Some (last (v # backlog (unread n) (ins n q)), n') \<and> read_frame q n n' \<and>
    backlog (unread n') (ins n' q) = []"
  using assms
proof (induction "length (backlog (unread n) (ins n q))" arbitrary: n v rule: less_induct)
  case less
  let ?o = "find (\<lambda>l. unread n l \<noteq> []) (read_order (ins n q))"
  show ?case
  proof (cases ?o)
    case None
    have "(case cur_old (last_read n) (ins n q) of Some y \<Rightarrow> if False then y else v | None \<Rightarrow> v) = v"
      by (simp split: option.split)
    then obtain n' where n': "in_read S False v q n = Some (old_status (last_read n) (read_order (ins n q)) NoData, v, n')"
        "read_frame q n n'" "ins n' = ins n" "unread n' = unread n"
      using in_read_old [OF less.prems None, of False v] by metis
    have "old_status (last_read n) (read_order (ins n q)) NoData \<noteq> NewData" by (simp add: old_status_def)
    then show ?thesis
      using n' backlog_none [OF None] by (subst read_all.simps) simp
  next
    case (Some l)
    obtain n1 where n1: "in_read S False v q n = Some (NewData, hd (unread n l), n1)" "read_frame q n n1"
        "ins n1 q = (ins n q)\<lparr>cur_channel := Some l\<rparr>" "unread n1 = (unread n)(l := tl (unread n l))"
      using in_read_new [OF less.prems Some, of False v] by metis
    have b: "backlog (unread n) (ins n q) = hd (unread n l) # backlog (unread n1) (ins n1 q)"
      using backlog_step [OF Some consistentD(6) [OF goodD(1) [OF less.prems]]] n1(3,4) by simp
    have "good valid n1" using n1(2) by (simp add: read_frame_def)
    moreover have "length (backlog (unread n1) (ins n1 q)) < length (backlog (unread n) (ins n q))" using b by simp
    ultimately obtain n' where n': "read_all S (hd (unread n l)) q n1 =
        Some (last (hd (unread n l) # backlog (unread n1) (ins n1 q)), n')" "read_frame q n1 n'"
        "backlog (unread n') (ins n' q) = []"
      using less.hyps [of n1 "hd (unread n l)"] by blast
    have "read_all S v q n = read_all S (hd (unread n l)) q n1" using n1(1) by (subst read_all.simps) simp
    then show ?thesis using n' b read_frame_trans [OF n1(2) n'(2)] by simp
  qed
qed

end

end
