(* ===== verification/PortsNet.thy ===== *)
theory PortsNet
  imports PortsFlow
begin

text \<open>
  The remaining operations of ports: \<^verbatim>\<open>readNewest\<close>, \<^verbatim>\<open>clear\<close>, \<^verbatim>\<open>createConnection\<close> and
  \<^verbatim>\<open>disconnect\<close>, and networks of ports on which any sequence of calls is made.
\<close>

section \<open>Creating a connection\<close>

lemma cm_add_current: "current_ok m \<Longrightarrow> current_ok (cm_add p l m)"
  by (cases "connections m") (auto simp: cm_add_def current_ok_def split: option.splits)

lemma added_consistent:
  assumes c: "consistent n" and l: "l = next_link n"
    and o: "\<And>p'. op_manager (outs n' p') = (if p' = p then cm_add q l (op_manager (outs n p)) else op_manager (outs n p'))"
    and i: "\<And>q'. ins n' q' = (if q' = q then cm_add p l (ins n q) else ins n q')"
    and nl: "next_link n' = l + 1" and lk: "\<And>k. k \<noteq> l \<Longrightarrow> links n' k = links n k" and a: "attached n' p q l"
  shows "consistent n'"
proof -
  have oc: "out_conns n' p' = out_conns n p' @ (if p' = p then [(q, l)] else [])" for p' by (simp add: o cm_add_def)
  have ic: "in_conns n' q' = in_conns n q' @ (if q' = q then [(p, l)] else [])" for q' by (simp add: i cm_add_def)
  have oldo: "k < l" if "(q', k) \<in> set (out_conns n p')" for p' q' k using consistentD(2) [OF c that] l by simp
  have oldi: "k < l" if "(p', k) \<in> set (in_conns n q')" for p' q' k
    using that oldo [of q' k p'] consistentD(4) [OF c, of p' k q'] by simp
  have "attached n' p' q' k \<and> k < next_link n'" if m: "(q', k) \<in> set (out_conns n' p')" for p' q' k
  proof (cases "(q', k) \<in> set (out_conns n p')")
    case True
    then have "k < l" by (rule oldo)
    then have "links n' k = links n k" using lk [of k] by simp
    then show ?thesis using consistentD(1) [OF c True] oldo [OF True] nl attached_cong [of n' k n] by simp
  next
    case False
    then show ?thesis using m a nl by (auto simp: oc split: if_splits)
  qed
  moreover have "between q' (out_conns n' p') = between p' (in_conns n' q')" for p' q'
    using consistentD(3) [OF c, of q' p'] by (auto simp: oc ic)
  moreover have "distinct (map snd (out_conns n' p'))" for p'
    using consistentD(5) [OF c, of p'] oldo [of _ l p'] by (auto simp: oc)
  moreover have "distinct (map snd (in_conns n' q'))" for q'
    using consistentD(6) [OF c, of q'] oldi [of _ l q'] by (auto simp: ic)
  moreover have "current_ok (ins n' q')" for q'
    by (simp add: i cm_add_current consistentD(7) [OF c])
  ultimately show ?thesis unfolding consistent_def by blast
qed

text \<open>The sample that a new connection is given.\<close>

definition first_sample :: "bool \<Rightarrow> 'a out_port \<Rightarrow> 'a option" where
  "first_sample policy_init u =
     (if has_initial_sample u \<and> has_last_written_value u \<and> policy_init then Some (op_sample u) else None)"

context typed_store
begin

lemma link_data_sample_spec:
  assumes w: "whole valid n (q, l)" and e: "unread n l = []" "last_read n l = None"
  obtains n' where "link_data_sample S x l n = Some (True, n')" "same_wiring n n'"
    "\<And>k. k \<noteq> l \<Longrightarrow> links n' k = links n k" "valid (store_of n' l)" "link_kind n' l = link_kind n l"
    "unread n' l = []" "last_read n' l = None" "signalled n' = signalled n"
proof -
  have v: "valid (store_of n l)" "fresh (store_of n l) = []" "stale (store_of n l) = None"
    using w e by (simp_all add: whole_def unread_def last_read_def)
  obtain c' where c': "s_data_sample S x (store_of n l) = Some c'" "valid c'" "kind c' = kind (store_of n l)"
      "fresh c' = []" "stale c' = None" using sampled [OF v, of x] by blast
  let ?n' = "set_link l (\<lambda>u. u\<lparr>l_store := c'\<rparr>) n"
  have "link_data_sample S x l n = Some (True, ?n')" using w c'(1) by (simp add: link_data_sample_def whole_def)
  then show thesis
    using that [of ?n'] c' same_wiring_store [of n l c']
    by (simp add: net_updates unread_def last_read_def link_kind_def)
qed

lemma connectionAdded_spec:
  assumes w: "whole valid n (q, l)" and e: "unread n l = []" "last_read n l = None"
  obtains n' where "connectionAdded S d ini p l n = Some (True, n')" "same_wiring n n'"
    "\<And>k. k \<noteq> l \<Longrightarrow> links n' k = links n k" "valid (store_of n' l)" "link_kind n' l = link_kind n l"
    "unread n' l = (case first_sample ini (outs n p) of None \<Rightarrow> [] | Some x \<Rightarrow> snd (keep (link_kind n l) x []))"
    "signalled n' = signalled n @ (case first_sample ini (outs n p) of None \<Rightarrow> []
       | Some x \<Rightarrow> if fst (keep (link_kind n l) x []) then [q] else [])"
proof (cases "has_initial_sample (outs n p)")
  case False
  then show thesis
    using link_data_sample_spec [OF w e, of d] that by (auto simp: connectionAdded_def first_sample_def)
next
  case True
  let ?x = "op_sample (outs n p)"
  obtain n1 where n1: "link_data_sample S ?x l n = Some (True, n1)" "same_wiring n n1"
    "\<And>k. k \<noteq> l \<Longrightarrow> links n1 k = links n k" "valid (store_of n1 l)" "link_kind n1 l = link_kind n l"
    "unread n1 l = []" "last_read n1 l = None" "signalled n1 = signalled n"
    using link_data_sample_spec [OF w e, of ?x] by blast
  show thesis
  proof (cases "has_last_written_value (outs n p) \<and> ini")
    case False
    then show thesis using True n1 that [of n1] by (auto simp: connectionAdded_def first_sample_def)
  next
    case f: True
    have w1: "whole valid n1 (q, l)" using w n1(4) wiring_link [OF n1(2), of l] by (simp add: whole_def)
    obtain n2 where n2: "link_write S ?x l n1 = Some (True, n2)" "same_wiring n1 n2"
        "\<And>k. k \<noteq> l \<Longrightarrow> links n2 k = links n1 k" "valid (store_of n2 l)"
        "link_kind n2 l = link_kind n1 l" "unread n2 l = snd (after_write n1 ?x l)"
        "signalled n2 = signalled n1 @ (if fst (after_write n1 ?x l) then [q] else [])"
      using link_write_spec [OF w1, of ?x] by (metis fst_conv snd_conv)
    show thesis
      by (rule that [of n2])
        (use True f n1 n2 same_wiring_trans [OF n1(2) n2(2)] in
          \<open>auto simp: connectionAdded_def first_sample_def after_write_def\<close>)
  qed
qed

lemma createConnection_spec:
  assumes g: "good valid n" and c: "valid c" "fresh c = []" "stale c = None"
  obtains n' where "createConnection S d ini p q (Some c) n = Some (True, n')" "good valid n'"
    "out_conns n' p = out_conns n p @ [(q, next_link n)]" "in_conns n' q = in_conns n q @ [(p, next_link n)]"
    "\<And>k. k \<noteq> p \<Longrightarrow> outs n' k = outs n k" "\<And>k. k \<noteq> q \<Longrightarrow> ins n' k = ins n k"
    "\<And>k. k \<noteq> next_link n \<Longrightarrow> links n' k = links n k" "link_kind n' (next_link n) = kind c"
    "unread n' (next_link n) = (case first_sample ini (outs n p) of None \<Rightarrow> [] | Some x \<Rightarrow> snd (keep (kind c) x []))"
proof -
  define l where "l = next_link n"
  define n0 where "n0 = n\<lparr>links := (links n)(l := build_link p q c), next_link := l + 1\<rparr>"
  have l0: "links n0 l = build_link p q c" "outs n0 = outs n" "ins n0 = ins n" "next_link n0 = l + 1"
      "k \<noteq> l \<Longrightarrow> links n0 k = links n k" for k by (simp_all add: n0_def)
  have w: "whole valid n0 (q, l)" and a0: "attached n0 p q l" and e: "unread n0 l = []" "last_read n0 l = None" "link_kind n0 l = kind c"
    using c by (simp_all add: whole_def attached_def l0(1) build_link_def unread_def last_read_def link_kind_def)
  obtain n1 where n1: "connectionAdded S d ini p l n0 = Some (True, n1)" "same_wiring n0 n1"
      "\<And>k. k \<noteq> l \<Longrightarrow> links n1 k = links n0 k" "valid (store_of n1 l)" "link_kind n1 l = link_kind n0 l"
      "unread n1 l = (case first_sample ini (outs n0 p) of None \<Rightarrow> [] | Some x \<Rightarrow> snd (keep (link_kind n0 l) x []))"
    using connectionAdded_spec [OF w e(1,2), of d ini p] by blast
  define n2 where "n2 = set_out p (op_manager_update (cm_add q l)) n1"
  define n3 where "n3 = set_in q (cm_add p l) n2"
  have a1: "attached n1 p q l" using a0 wiring_attached [OF n1(2)] by simp
  have l2: "links n2 = links n1" "links n3 = links n1" by (simp_all add: n2_def n3_def net_updates)
  have "oe_inputReady l n2 = (True, n3)"
    using a1 by (simp add: oe_inputReady_def attached_def l2 n3_def Let_def) (simp add: net_updates l2)
  moreover have "createConnection S d ini p q (Some c) n = createAndCheckConnection S d ini p q l n0"
    by (simp add: createConnection_def l_def n0_def Let_def)
  ultimately have run: "createConnection S d ini p q (Some c) n = Some (True, n3)"
    using n1(1) by (simp add: createAndCheckConnection_def out_addConnection_def channelReady_def n2_def [symmetric])
  have w1: "outs n1 = outs n" "ins n1 = ins n" "next_link n1 = l + 1" using n1(2) l0 by (simp_all add: same_wiring_def)
  have o3: "outs n3 k = (if k = p then op_manager_update (cm_add q l) (outs n p) else outs n k)" for k
    by (simp add: n3_def n2_def net_updates w1)
  have i3: "ins n3 k = (if k = q then cm_add p l (ins n q) else ins n k)" for k
    by (simp add: n3_def n2_def net_updates w1)
  have k3: "links n3 k = links n k" if "k \<noteq> l" for k using that n1(3) l0(5) l2 by simp
  have "consistent n3"
  proof (rule added_consistent [OF goodD(1) [OF g] l_def])
    show "op_manager (outs n3 k) = (if k = p then cm_add q l (op_manager (outs n p)) else op_manager (outs n k))" for k
      by (simp add: o3)
    show "next_link n3 = l + 1" by (simp add: n3_def n2_def net_updates w1)
    show "attached n3 p q l" using a1 attached_cong [of n3 l n1] l2 by simp
  qed (rule i3, rule k3)
  moreover have "valid (store_of n3 k)" if m: "(q', k) \<in> set (out_conns n3 p')" for p' q' k
  proof (cases "k = l")
    case True
    then show ?thesis using n1(4) l2 by simp
  next
    case False
    then have "(q', k) \<in> set (out_conns n p')" using m by (auto simp: o3 cm_add_def split: if_splits)
    then show ?thesis using goodD(2) [OF g] k3 [OF False] by simp
  qed
  ultimately have "good valid n3" unfolding good_def by blast
  moreover have "link_kind n3 l = kind c" "unread n3 l = unread n1 l"
    using n1(5) e(3) l2 by (simp_all add: link_kind_def unread_def)
  ultimately show thesis
    using that [of n3] run n1(6) [unfolded e(3) l0(2)] k3 by (simp add: o3 i3 cm_add_def l_def [symmetric])
qed

text \<open>\<^verbatim>\<open>clear()\<close> empties every connection of the port.\<close>

lemma clear_links_spec:
  assumes "\<forall>d \<in> set ds. readable n (snd d)"
  shows "\<exists>n'. clear_links S ds n = Some n' \<and> reads_only n n' \<and>
    (\<forall>l. l \<notin> snd ` set ds \<longrightarrow> links n' l = links n l) \<and>
    (\<forall>l \<in> snd ` set ds. unread n' l = [] \<and> last_read n' l = None)"
  using assms
proof (induction ds arbitrary: n)
  case Nil
  then show ?case by simp
next
  case (Cons d ds)
  have r: "readable n (snd d)" using Cons.prems by simp
  then obtain c' where c': "s_clear S (store_of n (snd d)) = Some c'" "valid c'" "kind c' = kind (store_of n (snd d))"
      "fresh c' = []" "stale c' = None" using cleared by (auto simp: readable_def)
  define n1 where "n1 = set_link (snd d) (\<lambda>u. u\<lparr>l_store := c'\<rparr>) n"
  have n1: "reads_only n n1" unfolding n1_def by (rule store_change(1) [OF c'(2,3)])
  have l1: "unread n1 (snd d) = []" "last_read n1 (snd d) = None" "k \<noteq> snd d \<Longrightarrow> links n1 k = links n k" for k
    using c'(4,5) by (simp_all add: n1_def net_updates unread_def last_read_def)
  have "\<forall>d' \<in> set ds. readable n1 (snd d')" using Cons.prems readable_after [OF n1] by simp
  from Cons.IH [OF this] obtain n' where n': "clear_links S ds n1 = Some n'" "reads_only n1 n'"
      "\<forall>l. l \<notin> snd ` set ds \<longrightarrow> links n' l = links n1 l"
      "\<forall>l \<in> snd ` set ds. unread n' l = [] \<and> last_read n' l = None" by blast
  have run: "clear_links S (d # ds) n = Some n'"
    using r c'(1) n'(1) by (simp add: readable_def n1_def)
  have "unread n' l = [] \<and> last_read n' l = None" if "l \<in> snd ` set (d # ds)" for l
  proof (cases "l \<in> snd ` set ds")
    case True
    with n'(4) show ?thesis by (rule bspec)
  next
    case False
    then have "l = snd d" "links n' l = links n1 l" using that n'(3) by auto
    then show ?thesis using view_cong(1,2) [of n' l n1] l1 by simp
  qed
  moreover have "links n' l = links n l" if "l \<notin> snd ` set (d # ds)" for l
  proof -
    have "l \<notin> snd ` set ds" "l \<noteq> snd d" using that by auto
    then show ?thesis using n'(3) l1(3) [of l] by simp
  qed
  moreover note run reads_only_trans [OF n1 n'(2)]
  ultimately show ?case by (intro exI [of _ n'] conjI ballI allI impI) simp_all
qed

lemma in_clear_spec:
  assumes g: "good valid n"
  obtains n' where "in_clear S q n = Some n'" "read_frame q n n'" "ins n' = ins n"
    "\<And>l. l \<notin> snd ` set (in_conns n q) \<Longrightarrow> links n' l = links n l"
    "\<And>l. l \<in> snd ` set (in_conns n q) \<Longrightarrow> unread n' l = [] \<and> last_read n' l = None"
proof -
  have "\<forall>d \<in> set (in_conns n q). readable n (snd d)"
    using good_readable [OF g, of _ q] by (simp add: read_order_def)
  from clear_links_spec [OF this] obtain n' where n': "clear_links S (in_conns n q) n = Some n'" "reads_only n n'"
      "\<forall>l. l \<notin> snd ` set (in_conns n q) \<longrightarrow> links n' l = links n l"
      "\<forall>l \<in> snd ` set (in_conns n q). unread n' l = [] \<and> last_read n' l = None" by blast
  show thesis
  proof (rule that [of n'])
    show "in_clear S q n = Some n'" using n'(1) by (simp add: in_clear_def)
    show "ins n' = ins n" using n'(2) by (simp add: reads_only_def same_wiring_def)
    show "links n' l = links n l" if "l \<notin> snd ` set (in_conns n q)" for l using n'(3) that by simp
    show "unread n' l = [] \<and> last_read n' l = None" if "l \<in> snd ` set (in_conns n q)" for l
      using n'(4) that by (rule bspec)
  qed (rule read_frame_reads_only [OF g n'(2)])
qed

lemma backlog_find: "good valid n \<Longrightarrow> backlog (unread n) (ins n q) = [] \<Longrightarrow>
    find (\<lambda>l. unread n l \<noteq> []) (read_order (ins n q)) = None"
  using backlog_step [of "unread n" "ins n q"] consistentD(6) [OF goodD(1), of valid n q]
  by (cases "find (\<lambda>l. unread n l \<noteq> []) (read_order (ins n q))") auto

lemma readNewest_new:
  assumes g: "good valid n" and b: "backlog (unread n) (ins n q) \<noteq> []"
  obtains n' where "readNewest S copy v q n = Some (NewData, last (backlog (unread n) (ins n q)), n')"
    "read_frame q n n'" "backlog (unread n') (ins n' q) = []"
proof -
  obtain l where l: "find (\<lambda>l. unread n l \<noteq> []) (read_order (ins n q)) = Some l"
    using b backlog_none [of "unread n" "ins n q"] by blast
  obtain n1 where n1: "in_read S copy v q n = Some (NewData, hd (unread n l), n1)" "read_frame q n n1"
      "ins n1 q = (ins n q)\<lparr>cur_channel := Some l\<rparr>" "unread n1 = (unread n)(l := tl (unread n l))"
    using in_read_new [OF g l, of copy v] by metis
  have bl: "backlog (unread n) (ins n q) = hd (unread n l) # backlog (unread n1) (ins n1 q)"
    using backlog_step [OF l consistentD(6) [OF goodD(1) [OF g]]] n1(3,4) by simp
  obtain n2 where n2: "read_all S (hd (unread n l)) q n1 =
        Some (last (hd (unread n l) # backlog (unread n1) (ins n1 q)), n2)"
      "read_frame q n1 n2" "backlog (unread n2) (ins n2 q) = []"
    using read_all_spec [of n1 "hd (unread n l)" q] n1(2) by (auto simp: read_frame_def)
  show thesis
    using that [of n2] n1(1) n2 read_frame_trans [OF n1(2) n2(2)] by (simp add: readNewest_def bl)
qed

lemma readNewest_old:
  assumes g: "good valid n" and b: "backlog (unread n) (ins n q) = []"
  shows "readNewest S copy v q n = in_read S copy v q n"
proof -
  obtain st v' n' where r: "in_read S copy v q n = Some (st, v', n')" "st \<noteq> NewData"
    using in_read_old [OF g backlog_find [OF g b], of copy v] by (metis flow_status.distinct(3,5) old_status_def)
  then show ?thesis by (simp add: readNewest_def)
qed

end

section \<open>Disconnecting\<close>

lemma removed_good:
  assumes g: "good ok n" and b: "between q (out_conns n p) = l # ls"
  shows "good ok (removed p q l r n)"
proof -
  let ?n = "removed p q l r n"
  have c: "consistent ?n" by (rule removed_consistent [OF goodD(1) [OF g] b])
  have d: "distinct (map snd (out_conns n p))" by (rule consistentD(5) [OF goodD(1) [OF g]])
  have oc: "out_conns ?n p' = (if p' = p then snd (erase_first q (out_conns n p)) else out_conns n p')" for p'
    using b by (simp add: removed_def net_updates cm_take_connections)
  have "l \<in> set (between q (out_conns n p))" using b by simp
  then have a: "attached n p q l" using consistentD(1) [OF goodD(1) [OF g]] by (simp add: set_between)
  have "ok (store_of ?n k)" if m: "(q', k) \<in> set (out_conns ?n p')" for p' q' k
  proof -
    have m': "(q', k) \<in> set (out_conns n p')"
      using m erase_first_rest(3) [of q "out_conns n p"] by (auto simp: oc split: if_splits)
    have "k \<noteq> l"
    proof
      assume k: "k = l"
      then have "p' = p" using consistentD(1) [OF goodD(1) [OF g] m'] a by (simp add: attached_def)
      then show False using m k erase_first_gone [OF d b] by (force simp: oc)
    qed
    then have "links ?n k = links n k" by (simp add: removed_def net_updates)
    then show ?thesis using goodD(2) [OF g m'] by simp
  qed
  with c show ?thesis unfolding good_def by blast
qed

lemma good_cong:
  assumes "good ok n" and "\<And>p. out_conns n' p = out_conns n p" and "ins n' = ins n" and "links n' = links n"
    and "next_link n' = next_link n"
  shows "good ok n'"
  using assms by (simp add: good_def consistent_def attached_def)

text \<open>\<^verbatim>\<open>disconnect()\<close> takes the list away first: as long as the rest of the list is still thought of as
  the list of the port, both ends agree.\<close>

lemma out_drain:
  assumes "good ok (set_out p (\<lambda>u. u\<lparr>op_manager := m\<rparr>) n)"
  shows "\<exists>n' m'. net_do_all (map (\<lambda>d. IeDisconnect (snd d) True) (connections m)) n = Some n' \<and> connections m' = [] \<and>
    good ok (set_out p (\<lambda>u. u\<lparr>op_manager := m'\<rparr>) n') \<and> outs n' = outs n"
  using assms
proof (induction "connections m" arbitrary: m n)
  case Nil
  then show ?case by (intro exI [of _ n] exI [of _ m]) simp
next
  case (Cons d ds)
  obtain q l where d: "d = (q, l)" by (cases d)
  let ?N = "set_out p (\<lambda>u. u\<lparr>op_manager := m\<rparr>) n"
  have cons: "connections m = (q, l) # ds" using Cons.hyps(2) d by simp
  have b: "between q (out_conns ?N p) = l # between q ds" by (simp add: net_updates cons)
  have "(q, l) \<in> set (out_conns ?N p)" by (simp add: net_updates cons)
  then have "attached ?N p q l" using consistentD(1) [OF goodD(1) [OF Cons.prems]] by blast
  then have a: "attached n p q l" by (simp add: attached_def net_updates)
  have bi: "between p (in_conns n q) = l # between q ds"
    using consistentD(3) [OF goodD(1) [OF Cons.prems], of q p] b by (simp add: net_updates)
  obtain r where r: "net_do (IeDisconnect l True) n = Some (set_link l (\<lambda>_. r) (set_in q (\<lambda>m. snd (cm_take p m)) n))"
    using disconnect_forward [OF a bi] by blast
  let ?n1 = "set_link l (\<lambda>_. r) (set_in q (\<lambda>m. snd (cm_take p m)) n)"
  let ?m1 = "snd (cm_take q m)"
  have m1: "connections ?m1 = ds" by (simp add: cm_take_connections cons)
  have "set_out p (\<lambda>u. u\<lparr>op_manager := ?m1\<rparr>) ?n1 = removed p q l r ?N" by (simp add: removed_def net_updates)
  then have "good ok (set_out p (\<lambda>u. u\<lparr>op_manager := ?m1\<rparr>) ?n1)" using removed_good [OF Cons.prems b] by simp
  from Cons.hyps(1) [OF m1 [symmetric] this] obtain n' m' where
    "net_do_all (map (\<lambda>d. IeDisconnect (snd d) True) ds) ?n1 = Some n'" "connections m' = []"
    "good ok (set_out p (\<lambda>u. u\<lparr>op_manager := m'\<rparr>) n')" "outs n' = outs ?n1" using m1 by auto
  then show ?case using r by (intro exI [of _ n'] exI [of _ m']) (simp add: cons net_updates)
qed

lemma in_drain:
  assumes "good ok (set_in q (\<lambda>_. m) n)"
  shows "\<exists>n' m'. net_do_all (map (\<lambda>d. OeDisconnect (snd d) False) (connections m)) n = Some n' \<and> connections m' = [] \<and>
    good ok (set_in q (\<lambda>_. m') n') \<and> ins n' = ins n"
  using assms
proof (induction "connections m" arbitrary: m n)
  case Nil
  then show ?case by (intro exI [of _ n] exI [of _ m]) simp
next
  case (Cons d ds)
  obtain p l where d: "d = (p, l)" by (cases d)
  let ?N = "set_in q (\<lambda>_. m) n"
  have cons: "connections m = (p, l) # ds" using Cons.hyps(2) d by simp
  have b: "between q (out_conns ?N p) = l # between p ds"
    using consistentD(3) [OF goodD(1) [OF Cons.prems], of q p] by (simp add: net_updates cons)
  have "(p, l) \<in> set (in_conns ?N q)" by (simp add: net_updates cons)
  then have "attached ?N p q l" using goodD(4) [OF Cons.prems] by blast
  then have a: "attached n p q l" by (simp add: attached_def net_updates)
  have bo: "between q (out_conns n p) = l # between p ds" using b by (simp add: net_updates)
  obtain r where r: "net_do (OeDisconnect l False) n =
      Some (set_link l (\<lambda>_. r) (set_out p (\<lambda>u. u\<lparr>op_manager := snd (cm_take q (op_manager u))\<rparr>) n))"
    using disconnect_backward [OF a bo] by blast
  let ?n1 = "set_link l (\<lambda>_. r) (set_out p (\<lambda>u. u\<lparr>op_manager := snd (cm_take q (op_manager u))\<rparr>) n)"
  let ?m1 = "snd (cm_take p m)"
  have m1: "connections ?m1 = ds" by (simp add: cm_take_connections cons)
  have "set_in q (\<lambda>_. ?m1) ?n1 = removed p q l r ?N" by (simp add: removed_def net_updates)
  then have "good ok (set_in q (\<lambda>_. ?m1) ?n1)" using removed_good [OF Cons.prems b] by simp
  from Cons.hyps(1) [OF m1 [symmetric] this] obtain n' m' where
    "net_do_all (map (\<lambda>d. OeDisconnect (snd d) False) ds) ?n1 = Some n'" "connections m' = []"
    "good ok (set_in q (\<lambda>_. m') n')" "ins n' = ins ?n1" using m1 by auto
  then show ?case using r by (intro exI [of _ n'] exI [of _ m']) (simp add: cons net_updates)
qed

lemma out_disconnect_all_spec:
  assumes g: "good ok n"
  obtains n' where "out_disconnect_all p n = Some n'" "good ok n'" "out_conns n' p = []"
    "\<And>k. k \<noteq> p \<Longrightarrow> outs n' k = outs n k"
proof -
  let ?n0 = "set_out p (op_manager_update (\<lambda>_. manager_new)) n"
  have "set_out p (\<lambda>u. u\<lparr>op_manager := op_manager (outs n p)\<rparr>) ?n0 = n" by (cases n) (simp add: net_updates)
  with g have "good ok (set_out p (\<lambda>u. u\<lparr>op_manager := op_manager (outs n p)\<rparr>) ?n0)" by simp
  from out_drain [OF this] obtain n' m' where n': "out_disconnect_all p n = Some n'" "connections m' = []"
      "good ok (set_out p (\<lambda>u. u\<lparr>op_manager := m'\<rparr>) n')" "outs n' = outs ?n0"
    unfolding out_disconnect_all_def by blast
  have "good ok n'"
    by (rule good_cong [OF n'(3)]) (use n'(2,4) in \<open>simp_all add: net_updates manager_new_def\<close>)
  then show thesis using that n' by (simp add: net_updates manager_new_def)
qed

lemma in_disconnect_all_spec:
  assumes g: "good ok n"
  obtains n' where "in_disconnect_all q n = Some n'" "good ok n'" "in_conns n' q = []"
    "\<And>k. k \<noteq> q \<Longrightarrow> ins n' k = ins n k"
proof -
  let ?n0 = "set_in q (\<lambda>_. manager_new) n"
  have "set_in q (\<lambda>_. ins n q) ?n0 = n" by (cases n) (simp add: net_updates)
  with g have "good ok (set_in q (\<lambda>_. ins n q) ?n0)" by simp
  from in_drain [OF this] obtain n' m' where n': "in_disconnect_all q n = Some n'" "connections m' = []"
      "good ok (set_in q (\<lambda>_. m') n')" "ins n' = ins ?n0"
    unfolding in_disconnect_all_def by blast
  have "current_ok m'" using consistentD(7) [OF goodD(1) [OF n'(3)], of q] by (simp add: net_updates)
  then have "m' = manager_new" using n'(2) by (cases m') (simp add: current_ok_def manager_new_def split: option.splits)
  then have "set_in q (\<lambda>_. m') n' = n'" using n'(4) by (cases n') (simp add: net_updates)
  then show thesis using that n' by (simp add: net_updates manager_new_def)
qed

lemma out_disconnect_spec:
  assumes g: "good ok n"
  obtains n' where "out_disconnect p q n = Some (between q (out_conns n p) \<noteq> [], n')" "good ok n'"
    "between q (out_conns n' p) = tl (between q (out_conns n p))"
proof (cases "between q (out_conns n p)")
  case Nil
  then show thesis using that [of n] g by (simp add: out_disconnect_def out_remove_none cm_take_none)
next
  case (Cons l ls)
  obtain r where r: "net_do (OutRemove p q) n = Some (removed p q l r n)" using out_remove [OF goodD(1) [OF g] Cons] by blast
  show thesis
    by (rule that [OF _ removed_good [OF g Cons, of r]])
      (use r Cons in \<open>simp_all add: out_disconnect_def cm_take_some [OF Cons] removed_def net_updates erase_first_rest\<close>)
qed

lemma in_disconnect_spec:
  assumes g: "good ok n"
  obtains n' where "in_disconnect q p n = Some (between p (in_conns n q) \<noteq> [], n')" "good ok n'"
    "between p (in_conns n' q) = tl (between p (in_conns n q))"
proof (cases "between p (in_conns n q)")
  case Nil
  then show thesis using that [of n] g by (simp add: in_disconnect_def in_remove_none cm_take_none)
next
  case (Cons l ls)
  have b: "between q (out_conns n p) = l # ls" using consistentD(3) [OF goodD(1) [OF g], of q p] Cons by simp
  obtain r where r: "net_do (InRemove q p) n = Some (removed p q l r n)" using in_remove [OF goodD(1) [OF g] b] by blast
  show thesis
    by (rule that [OF _ removed_good [OF g b, of r]])
      (use r Cons in \<open>simp_all add: in_disconnect_def cm_take_some [OF Cons] removed_def net_updates erase_first_rest\<close>)
qed

end
