(* ===== verification/PortsRuns.thy ===== *)
theory PortsRuns
  imports PortsNet
begin

text \<open>
  Networks of ports whose connections are built by \<^verbatim>\<open>ConnFactory::buildDataStorage\<close>: any sequence of calls,
  and what a write, a read and a new connection do in the networks so reached. A call of \<^verbatim>\<open>setDataSample\<close> is
  sound only while the lock-free buffers of the port hold no sample: it breaks one that does (theory
  \<open>BufferLockFree\<close>).
\<close>

section \<open>Calls\<close>

datatype 'a port_call =
    Connect conn_policy nat nat
  | DisconnectOut nat nat
  | DisconnectIn nat nat
  | DisconnectAllOut nat
  | DisconnectAllIn nat
  | WriteTo nat 'a
  | ReadFrom nat bool 'a
  | ReadNewest nat bool 'a
  | ClearIn nat
  | KeepLast nat bool
  | KeepNext nat bool
  | SetSample nat 'a

fun port_do :: "'a \<Rightarrow> 'a port_call \<Rightarrow> ('a, 'a storage) net \<Rightarrow> ('a, 'a storage) net option" where
  "port_do d (Connect policy p q) n = map_option snd (connect_ports d policy p q n)"
| "port_do d (DisconnectOut p q) n = map_option snd (out_disconnect p q n)"
| "port_do d (DisconnectIn q p) n = map_option snd (in_disconnect q p n)"
| "port_do d (DisconnectAllOut p) n = out_disconnect_all p n"
| "port_do d (DisconnectAllIn q) n = in_disconnect_all q n"
| "port_do d (WriteTo p x) n = out_write storage_api x p n"
| "port_do d (ReadFrom q copy x) n = map_option (\<lambda>(_, _, n'). n') (in_read storage_api copy x q n)"
| "port_do d (ReadNewest q copy x) n = map_option (\<lambda>(_, _, n'). n') (readNewest storage_api copy x q n)"
| "port_do d (ClearIn q) n = in_clear storage_api q n"
| "port_do d (KeepLast p b) n = Some (keepLastWrittenValue b p n)"
| "port_do d (KeepNext p b) n = Some (keepNextWrittenValue b p n)"
| "port_do d (SetSample p x) n = setDataSample storage_api x p n"

fun port_run :: "'a \<Rightarrow> 'a port_call list \<Rightarrow> ('a, 'a storage) net \<Rightarrow> ('a, 'a storage) net option" where
  "port_run d [] n = Some n"
| "port_run d (c # cs) n = Option.bind (port_do d c n) (port_run d cs)"

text \<open>What is asked of a call in a network.\<close>

fun sound_call :: "'a port_call \<Rightarrow> ('a, 'a storage) net \<Rightarrow> bool" where
  "sound_call (Connect policy p q) n \<longleftrightarrow> sound_policy policy"
| "sound_call (SetSample p x) n \<longleftrightarrow> (\<forall>d \<in> set (out_conns n p). sample_ready (store_of n (snd d)))"
| "sound_call _ n \<longleftrightarrow> True"

fun sound_run :: "'a \<Rightarrow> 'a port_call list \<Rightarrow> ('a, 'a storage) net \<Rightarrow> bool" where
  "sound_run d [] n \<longleftrightarrow> True"
| "sound_run d (c # cs) n \<longleftrightarrow> sound_call c n \<and>
     (case port_do d c n of None \<Rightarrow> True | Some n' \<Rightarrow> sound_run d cs n')"

text \<open>Ports that nothing is connected to.\<close>

definition net_new :: "'a \<Rightarrow> bool \<Rightarrow> ('a, 'a storage) net" where
  "net_new d keep_last =
     \<lparr>outs = (\<lambda>_. out_port_new d keep_last), ins = (\<lambda>_. manager_new),
      links = (\<lambda>_. build_link 0 0 (PlainData (de_new \<lparr>po_data = d\<rparr>))), next_link = 0, signalled = []\<rparr>"

lemma net_new_good: "good ok (net_new d keep_last)"
  by (simp add: good_def consistent_def net_new_def out_port_new_def manager_new_def current_ok_def)

lemma connect_ports_spec:
  assumes g: "good st_valid n" and s: "sound_policy policy"
  obtains n' where "connect_ports d policy p q n = Some (True, n')" "good st_valid n'"
    "out_conns n' p = out_conns n p @ [(q, next_link n)]" "in_conns n' q = in_conns n q @ [(p, next_link n)]"
    "\<And>k. k \<noteq> next_link n \<Longrightarrow> links n' k = links n k" "st_kind (store_of n' (next_link n)) = policy_kind policy"
    "st_fresh (store_of n' (next_link n)) = (if has_initial_sample (outs n p) \<and> has_last_written_value (outs n p) \<and> cp_init policy
       then [op_sample (outs n p)] else [])"
proof -
  obtain c where c: "buildDataStorage d policy (op_sample (outs n p)) = Some c" "st_valid c" "st_kind c = policy_kind policy"
      "st_fresh c = []" "st_stale c = None" by (rule build_storage [OF s])
  have k: "snd (st_keep (policy_kind policy) x []) = [x]" for x :: 'a
    using s by (cases "cp_type policy") (simp_all add: policy_kind_def sound_policy_def spec_push_def)
  show thesis
  proof (rule storage.createConnection_spec [OF g c(2,4,5), of d "cp_init policy" p q])
    fix n'
    assume n': "createConnection storage_api d (cp_init policy) p q (Some c) n = Some (True, n')" "good st_valid n'"
      "out_conns n' p = out_conns n p @ [(q, next_link n)]" "in_conns n' q = in_conns n q @ [(p, next_link n)]"
      and other: "\<And>k. k \<noteq> next_link n \<Longrightarrow> links n' k = links n k"
      and new: "storage.link_kind n' (next_link n) = st_kind c"
        "storage.unread n' (next_link n) = (case first_sample (cp_init policy) (outs n p) of None \<Rightarrow> []
           | Some x \<Rightarrow> snd (st_keep (st_kind c) x []))"
    show thesis
    proof (rule that [of n'])
      show "connect_ports d policy p q n = Some (True, n')" using n'(1) c(1) by (simp add: connect_ports_def)
      show "st_kind (store_of n' (next_link n)) = policy_kind policy"
        using new(1) c(3) by (simp add: storage.link_kind_def)
      show "st_fresh (store_of n' (next_link n)) = (if has_initial_sample (outs n p) \<and> has_last_written_value (outs n p) \<and>
          cp_init policy then [op_sample (outs n p)] else [])"
        using new(2) by (simp add: storage.unread_def first_sample_def c(3) k)
    qed (rule n'(2), rule n'(3), rule n'(4), rule other)
  qed
qed

text \<open>Without \<^verbatim>\<open>setDataSample\<close> it depends on the calls alone.\<close>

fun plain_call :: "'a port_call \<Rightarrow> bool" where
  "plain_call (Connect policy p q) \<longleftrightarrow> sound_policy policy"
| "plain_call (SetSample p x) \<longleftrightarrow> False"
| "plain_call _ \<longleftrightarrow> True"

lemma plain_sound: "list_all plain_call cs \<Longrightarrow> sound_run d cs n"
proof (induction cs arbitrary: n)
  case (Cons c cs)
  then show ?case by (cases c) (auto split: option.split)
qed simp

lemma sample_loop:
  assumes "\<And>d. d \<in> set ds \<Longrightarrow> whole st_valid n d \<and> sample_ready (store_of n (snd d))" and "distinct (map snd ds)"
  shows "\<exists>n'. keep_if (link_data_sample storage_api x) ds n = Some (ds, n') \<and> same_wiring n n' \<and>
    (\<forall>l. l \<notin> snd ` set ds \<longrightarrow> links n' l = links n l) \<and> (\<forall>l \<in> snd ` set ds. st_valid (store_of n' l))"
  using assms
proof (induction ds arbitrary: n)
  case (Cons d ds)
  let ?l = "snd d"
  have w: "ie_output (links n ?l)" "st_output (links n ?l)" "st_valid (store_of n ?l)" "sample_ready (store_of n ?l)"
    using Cons.prems(1) [of d] by (simp_all add: whole_def)
  obtain c where c: "s_data_sample storage_api x (store_of n ?l) = Some c" "st_valid c"
    using storage_resampled [OF w(3,4), of x] by blast
  define n1 where "n1 = set_link ?l (\<lambda>u. u\<lparr>l_store := c\<rparr>) n"
  have n1: "links n1 = (links n)(?l := (links n ?l)\<lparr>l_store := c\<rparr>)" by (simp add: n1_def net_updates)
  have new: "?l \<notin> snd ` set ds" using Cons.prems(2) by simp
  then have ne: "snd d' \<noteq> ?l" if "d' \<in> set ds" for d' using that by (metis imageI)
  have "whole st_valid n1 d' \<and> sample_ready (store_of n1 (snd d'))" if "d' \<in> set ds" for d'
    using Cons.prems(1) [of d'] that by (simp add: n1 whole_def ne)
  then obtain n' where n': "keep_if (link_data_sample storage_api x) ds n1 = Some (ds, n')" "same_wiring n1 n'"
    "\<forall>l. l \<notin> snd ` set ds \<longrightarrow> links n' l = links n1 l" "\<forall>l \<in> snd ` set ds. st_valid (store_of n' l)"
    using Cons.IH [of n1] Cons.prems(2) by auto
  have "link_data_sample storage_api x ?l n = Some (True, n1)" using w c by (simp add: link_data_sample_def n1_def)
  moreover have "same_wiring n n1" unfolding n1_def by (rule same_wiring_store)
  moreover have "st_valid (store_of n' ?l)" using n'(3) new c(2) by (simp add: n1)
  moreover have "links n' l = links n l" if "l \<notin> snd ` set (d # ds)" for l using n'(3) that by (simp add: n1)
  ultimately show ?case using n'(1,2,4) same_wiring_trans [of n n1 n'] by auto
qed simp

lemma setDataSample_spec:
  assumes g: "good st_valid n" and r: "\<forall>d \<in> set (out_conns n p). sample_ready (store_of n (snd d))"
  shows "\<exists>n'. setDataSample storage_api x p n = Some n' \<and> good st_valid n'"
proof -
  let ?ds = "out_conns n p"
  define n0 where "n0 = set_out p (\<lambda>q. q\<lparr>has_last_written_value := False, has_initial_sample := True, op_sample := x\<rparr>) n"
  have n0: "links n0 = links n" "op_manager (outs n0 k) = op_manager (outs n k)" for k by (simp_all add: n0_def net_updates)
  have g0: "good st_valid n0" by (rule good_cong [OF g]) (simp_all add: n0_def net_updates)
  have "whole st_valid n0 d \<and> sample_ready (store_of n0 (snd d))" if "d \<in> set ?ds" for d
    using good_whole [OF g0, of d p] that r by (simp add: n0)
  moreover have "distinct (map snd ?ds)" using consistentD(5) [OF goodD(1) [OF g]] .
  ultimately obtain n1 where n1: "keep_if (link_data_sample storage_api x) ?ds n0 = Some (?ds, n1)" "same_wiring n0 n1"
    "\<forall>l. l \<notin> snd ` set ?ds \<longrightarrow> links n1 l = links n0 l" "\<forall>l \<in> snd ` set ?ds. st_valid (store_of n1 l)"
    using sample_loop [of ?ds n0 x] by blast
  let ?n2 = "set_out p (op_manager_update (connections_update (\<lambda>_. ?ds))) n1"
  have out1: "outs n1 = outs n0" using n1(2) by (simp add: same_wiring_def)
  have same: "connections (op_manager (outs n1 p)) = ?ds" by (simp add: out1 n0)
  have "st_valid (store_of n1 l)" if "(q, l) \<in> set (out_conns n1 k)" for q l k
  proof (cases "l \<in> snd ` set ?ds")
    case False
    then show ?thesis using n1(3) goodD(2) [OF g0, of q l k] that by (simp add: out1)
  qed (use n1(4) in blast)
  then have g1: "good st_valid n1"
    using wiring_consistent [OF n1(2)] goodD(1) [OF g0] unfolding good_def by blast
  have "good st_valid ?n2"
    by (rule good_cong [OF g1]) (simp_all add: net_updates same flip: same)
  moreover have "setDataSample storage_api x p n = Some ?n2"
    unfolding setDataSample_def out_delete_if_def n0_def [symmetric] using n1(1) by (simp add: n0)
  ultimately show ?thesis by blast
qed

lemma call_good:
  assumes g: "good st_valid n" and s: "sound_call c n"
  shows "\<exists>n'. port_do d c n = Some n' \<and> good st_valid n'"
proof (cases c)
  case (Connect policy p q)
  then obtain n' where "connect_ports d policy p q n = Some (True, n')" "good st_valid n'"
    using connect_ports_spec [OF g, of policy d p q] s by (metis sound_call.simps(1))
  with Connect show ?thesis by simp
next
  case (DisconnectOut p q)
  obtain b n' where "out_disconnect p q n = Some (b, n')" "good st_valid n'" using out_disconnect_spec [OF g] by metis
  with DisconnectOut show ?thesis by simp
next
  case (DisconnectIn q p)
  obtain b n' where "in_disconnect q p n = Some (b, n')" "good st_valid n'" using in_disconnect_spec [OF g] by metis
  with DisconnectIn show ?thesis by simp
next
  case (DisconnectAllOut p)
  then show ?thesis using out_disconnect_all_spec [OF g] by (metis port_do.simps(4))
next
  case (DisconnectAllIn q)
  then show ?thesis using in_disconnect_all_spec [OF g] by (metis port_do.simps(5))
next
  case (WriteTo p x)
  then show ?thesis using storage.out_write_spec [OF g] by (metis port_do.simps(6))
next
  case (ReadFrom q copy x)
  obtain st v n' where "in_read storage_api copy x q n = Some (st, v, n')" "storage.read_frame q n n'"
    using storage.in_read_new [OF g, of q _ copy x] storage.in_read_old [OF g, of q copy x]
    by (metis option.exhaust)
  with ReadFrom show ?thesis by (simp add: storage.read_frame_def)
next
  case (ReadNewest q copy x)
  obtain st v n' where "readNewest storage_api copy x q n = Some (st, v, n')" "storage.read_frame q n n'"
    using storage.in_read_old [OF g storage.backlog_find [OF g], of q copy x] storage.readNewest_old [OF g, of q copy x]
      storage.readNewest_new [OF g, of q copy x] by metis
  with ReadNewest show ?thesis by (simp add: storage.read_frame_def)
next
  case (ClearIn q)
  obtain n' where "in_clear storage_api q n = Some n'" "storage.read_frame q n n'" using storage.in_clear_spec [OF g] by metis
  with ClearIn show ?thesis by (simp add: storage.read_frame_def)
next
  case (KeepLast p b)
  have "good st_valid (keepLastWrittenValue b p n)"
    by (rule good_cong [OF g]) (simp_all add: keepLastWrittenValue_def net_updates)
  with KeepLast show ?thesis by simp
next
  case (KeepNext p b)
  have "good st_valid (keepNextWrittenValue b p n)"
    by (rule good_cong [OF g]) (simp_all add: keepNextWrittenValue_def net_updates)
  with KeepNext show ?thesis by simp
next
  case (SetSample p x)
  then show ?thesis using setDataSample_spec [OF g, of p x] s by simp
qed

lemma run_good:
  assumes "good st_valid n" and "sound_run d cs n"
  shows "\<exists>n'. port_run d cs n = Some n' \<and> good st_valid n'"
  using assms
proof (induction cs arbitrary: n)
  case (Cons c cs)
  then obtain n1 where n1: "port_do d c n = Some n1" "good st_valid n1" using call_good [of n c d] by auto
  with Cons.IH [OF n1(2)] Cons.prems show ?case by auto
qed auto

lemma reached_good:
  "sound_run d calls (net_new d keep_last) \<Longrightarrow> port_run d calls (net_new d keep_last) = Some n \<Longrightarrow> good st_valid n"
  using run_good [OF net_new_good, of d calls d keep_last] by auto

text \<open>A read that reports OldData may leave the sample alone although old data is asked for: the old sample is that
  of another connection than the current one. Here the port has read from the second and then from the third of its
  connections, and the third is disconnected; the first, which holds nothing, becomes the current one.\<close>

abbreviation locked_data :: conn_policy where
  "locked_data \<equiv> \<lparr>cp_type = DATA, cp_init = False, cp_lock = LOCKED, cp_size = 0\<rparr>"

lemma old_data_not_copied:
  "map_option (\<lambda>(status, sample, _). (status, sample))
     (Option.bind
       (port_run (0::nat) [Connect locked_data 0 1, Connect locked_data 2 1, Connect locked_data 3 1, WriteTo 2 5,
          ReadFrom 1 False 0, WriteTo 3 6, ReadFrom 1 False 0, DisconnectIn 1 3] (net_new 0 False))
       (in_read storage_api True 99 1)) = Some (OldData, 99)"
  by code_simp

section \<open>Properties\<close>


abbreviation data_policy :: conn_policy where
  "data_policy \<equiv> \<lparr>cp_type = DATA, cp_init = True, cp_lock = LOCK_FREE, cp_size = 0\<rparr>"

abbreviation buffer_policy :: conn_policy where
  "buffer_policy \<equiv> \<lparr>cp_type = BUFFER, cp_init = False, cp_lock = LOCKED, cp_size = 2\<rparr>"



text \<open>C34: In every network that calls can reach, a write returns, drops no connection, and puts the sample into
  each connection of the port as its kind of storage says (a data connection then holds just this sample, a buffer has it
  appended, replacing the oldest when it is full and circular, or refuses it when it is full); it touches no
  other connection, and signals exactly the readers whose storage took the sample, in the order of the list.\<close>

theorem write_reaches_every_connection:
  assumes sound: "sound_run d calls (net_new d keep_last)" and run: "port_run d calls (net_new d keep_last) = Some n"
  shows "\<exists>n'. out_write storage_api x p n = Some n' \<and>
    (\<forall>k. op_manager (outs n' k) = op_manager (outs n k)) \<and> ins n' = ins n \<and>
    (\<forall>l. st_fresh (store_of n' l) =
      (if l \<in> snd ` set (out_conns n p) then snd (st_keep (st_kind (store_of n l)) x (st_fresh (store_of n l)))
       else st_fresh (store_of n l))) \<and>
    signalled n' = signalled n @
      [q. (q, l) \<leftarrow> out_conns n p, fst (st_keep (st_kind (store_of n l)) x (st_fresh (store_of n l)))]"
proof -
  obtain n' where n': "out_write storage_api x p n = Some n'" "ins n' = ins n"
    "\<And>k. op_manager (outs n' k) = op_manager (outs n k)"
    "\<And>l. l \<notin> snd ` set (out_conns n p) \<Longrightarrow> links n' l = links n l"
    "\<And>l. l \<in> snd ` set (out_conns n p) \<Longrightarrow> storage.unread n' l = snd (storage.after_write n x l)"
    "signalled n' = signalled n @ map fst (filter (\<lambda>d. fst (storage.after_write n x (snd d))) (out_conns n p))"
    using storage.out_write_spec [OF reached_good [OF sound run], of x p] by metis
  have lc: "map fst (filter (\<lambda>d. P (snd d)) ds) = [q. (q, l) \<leftarrow> ds, P l]" for P and ds :: "(nat \<times> nat) list"
    by (induction ds) auto
  have "st_fresh (store_of n' l) = (if l \<in> snd ` set (out_conns n p)
      then snd (st_keep (st_kind (store_of n l)) x (st_fresh (store_of n l))) else st_fresh (store_of n l))" for l
    using n'(4,5) [of l] by (simp add: storage.unread_def storage.after_write_def storage.link_kind_def)
  moreover have "signalled n' = signalled n @
      [q. (q, l) \<leftarrow> out_conns n p, fst (st_keep (st_kind (store_of n l)) x (st_fresh (store_of n l)))]"
    using n'(6) lc [of "\<lambda>l. fst (st_keep (st_kind (store_of n l)) x (st_fresh (store_of n l)))" "out_conns n p"]
    by (simp add: storage.unread_def storage.after_write_def storage.link_kind_def)
  ultimately show ?thesis using n'(1-3) by blast
qed

theorem write_reaches_every_connection_witness:
  "\<exists>n n'. port_run 0 [Connect data_policy 0 1, Connect buffer_policy 0 2] (net_new (0::nat) False) = Some n \<and>
    out_write storage_api 7 0 n = Some n' \<and> ins n' = ins n"
proof -
  have s: "sound_run 0 [Connect data_policy 0 1, Connect buffer_policy 0 2] (net_new (0 :: nat) False)"
    by (rule plain_sound) (simp add: sound_policy_def)
  obtain n where "port_run 0 [Connect data_policy 0 1, Connect buffer_policy 0 2] (net_new (0::nat) False) = Some n"
    using run_good [OF net_new_good s] by blast
  with write_reaches_every_connection [OF s this, where x = 7 and p = 0] show ?thesis by blast
qed

text \<open>C11: A read, in every network that calls can reach, looks at the current connection first and then at all
  of them in the order they were made. If one of these has a sample that was not read, the first such delivers its
  oldest one as NewData and becomes the current connection, and nothing else changes. Otherwise the read
  reports OldData if any connection has been read from since it was cleared and NoData if none has; the
  sample is then only assigned when old data is asked for and the current connection has some.\<close>

theorem read_takes_new_data_first:
  assumes sound: "sound_run d calls (net_new d keep_last)" and run: "port_run d calls (net_new d keep_last) = Some n"
  shows "\<exists>n'. case find (\<lambda>l. st_fresh (store_of n l) \<noteq> []) (read_order (ins n q)) of
      Some l \<Rightarrow>
        in_read storage_api copy v q n = Some (NewData, hd (st_fresh (store_of n l)), n') \<and>
        ins n' = (ins n)(q := (ins n q)\<lparr>cur_channel := Some l\<rparr>) \<and>
        (\<forall>k. st_fresh (store_of n' k) = (if k = l then tl (st_fresh (store_of n l)) else st_fresh (store_of n k)))
    | None \<Rightarrow>
        in_read storage_api copy v q n =
          Some (if list_ex (\<lambda>l. st_stale (store_of n l) \<noteq> None) (read_order (ins n q)) then OldData else NoData,
            case cur_channel (ins n q) of None \<Rightarrow> v
            | Some l \<Rightarrow> (case st_stale (store_of n l) of Some y \<Rightarrow> if copy then y else v | None \<Rightarrow> v), n') \<and>
        ins n' = ins n \<and> (\<forall>k. st_fresh (store_of n' k) = st_fresh (store_of n k))"
proof -
  note g = reached_good [OF sound run]
  have u: "storage.unread n = (\<lambda>l. st_fresh (store_of n l))" "storage.last_read n = (\<lambda>l. st_stale (store_of n l))" for n :: "('a, 'a storage) net"
    by (simp_all add: fun_eq_iff storage.unread_def storage.last_read_def)
  show ?thesis
  proof (cases "find (\<lambda>l. st_fresh (store_of n l) \<noteq> []) (read_order (ins n q))")
    case (Some l)
    then have "find (\<lambda>l. storage.unread n l \<noteq> []) (read_order (ins n q)) = Some l" by (simp add: u)
    then obtain n' where n': "in_read storage_api copy v q n = Some (NewData, hd (storage.unread n l), n')"
      "storage.read_frame q n n'" "ins n' q = (ins n q)\<lparr>cur_channel := Some l\<rparr>"
      "storage.unread n' = (storage.unread n)(l := tl (storage.unread n l))"
      using storage.in_read_new [OF g, of q l copy v] by metis
    have "ins n' = (ins n)(q := (ins n q)\<lparr>cur_channel := Some l\<rparr>)"
      using n'(2,3) by (simp add: fun_eq_iff storage.read_frame_def)
    moreover have "st_fresh (store_of n' k) = (if k = l then tl (st_fresh (store_of n l)) else st_fresh (store_of n k))" for k
      using fun_cong [OF n'(4), of k] by (simp add: u)
    ultimately show ?thesis unfolding Some option.case using n'(1) by (intro exI [of _ n']) (simp add: u)
  next
    case None
    then have f: "find (\<lambda>l. storage.unread n l \<noteq> []) (read_order (ins n q)) = None" by (simp add: u)
    obtain n' where n': "in_read storage_api copy v q n = Some (old_status (storage.last_read n) (read_order (ins n q)) NoData,
        (case cur_old (storage.last_read n) (ins n q) of Some y \<Rightarrow> if copy then y else v | None \<Rightarrow> v), n')"
      "ins n' = ins n" "storage.unread n' = storage.unread n"
      using storage.in_read_old [OF g f, of copy v] by metis
    have "(case cur_old (storage.last_read n) (ins n q) of Some y \<Rightarrow> if copy then y else v | None \<Rightarrow> v) =
        (case cur_channel (ins n q) of None \<Rightarrow> v
         | Some l \<Rightarrow> (case st_stale (store_of n l) of Some y \<Rightarrow> if copy then y else v | None \<Rightarrow> v))"
      by (cases "cur_channel (ins n q)") (simp_all add: cur_old_def u)
    moreover have "st_fresh (store_of n' k) = st_fresh (store_of n k)" for k
      using fun_cong [OF n'(3), of k] by (simp add: u)
    ultimately show ?thesis unfolding None option.case using n'(1,2)
      by (intro exI [of _ n']) (simp add: old_status_def u(2))
  qed
qed

theorem read_takes_new_data_first_witness:
  "\<exists>n st v n'. port_run 0 [Connect buffer_policy 0 1, WriteTo 0 7] (net_new (0::nat) False) = Some n \<and>
    in_read storage_api True 0 1 n = Some (st, v, n')"
proof -
  have s: "sound_run 0 [Connect buffer_policy 0 1, WriteTo 0 7] (net_new (0 :: nat) False)"
    by (rule plain_sound) (simp add: sound_policy_def)
  obtain n where n: "port_run 0 [Connect buffer_policy 0 1, WriteTo 0 7] (net_new (0::nat) False) = Some n"
    using run_good [OF net_new_good s] by blast
  show ?thesis using read_takes_new_data_first [OF s n, where q = 1 and copy = True and v = 0] n by (auto split: option.splits)
qed

text \<open>A port that keeps its last value gives it to a connection made later: after a write,
  \<^verbatim>\<open>createConnection\<close> with a policy that asks for initialisation succeeds, appends the connection to both
  ends, and the only unread sample of the new connection is the one that was written.\<close>

theorem late_reader_gets_last_value:
  assumes sound: "sound_run d calls (net_new d keep_last)" and run: "port_run d calls (net_new d keep_last) = Some n"
    and keeps: "keeps_last_written_value (outs n p)" and policy: "sound_policy policy" "cp_init policy"
  shows "\<exists>n1 n2. out_write storage_api x p n = Some n1 \<and> connect_ports d policy p q n1 = Some (True, n2) \<and>
    out_conns n2 p = out_conns n p @ [(q, next_link n)] \<and> in_conns n2 q = in_conns n q @ [(p, next_link n)] \<and>
    st_fresh (store_of n2 (next_link n)) = [x]"
proof -
  obtain n1 where n1: "out_write storage_api x p n = Some n1" "good st_valid n1" "ins n1 = ins n" "next_link n1 = next_link n"
      "op_manager (outs n1 p) = op_manager (outs n p)"
      "has_initial_sample (outs n1 p) \<and> has_last_written_value (outs n1 p) \<and> op_sample (outs n1 p) = x"
    using storage.out_write_spec [OF reached_good [OF sound run], of x p] keeps by metis
  obtain n2 where "connect_ports d policy p q n1 = Some (True, n2)"
      "out_conns n2 p = out_conns n1 p @ [(q, next_link n1)]" "in_conns n2 q = in_conns n1 q @ [(p, next_link n1)]"
      "st_fresh (store_of n2 (next_link n1)) = (if has_initial_sample (outs n1 p) \<and> has_last_written_value (outs n1 p) \<and>
         cp_init policy then [op_sample (outs n1 p)] else [])"
    using connect_ports_spec [OF n1(2) policy(1), of d p q] by metis
  with n1 policy(2) show ?thesis by (intro exI [of _ n1] exI [of _ n2]) simp
qed

theorem late_reader_gets_last_value_witness:
  "\<exists>n1 n2. out_write storage_api (7::nat) 0 (net_new 0 True) = Some n1 \<and>
    connect_ports 0 data_policy 0 1 n1 = Some (True, n2) \<and> st_fresh (store_of n2 0) = [7]"
  using late_reader_gets_last_value [of 0 "[]" True "net_new (0::nat) True" 0 data_policy 7 1]
  by (auto simp: sound_policy_def net_new_def out_port_new_def)

end
