(* ===== verification/GraphBuilder.thy ===== *)
theory GraphBuilder
  imports FunctionGraph
begin

text \<open>
  How scripts become graphs: \<^verbatim>\<open>FunctionGraphBuilder\<close> (\<^verbatim>\<open>rtt/scripting/FunctionGraphBuilder.cpp\<close>) with the
  commands and conditions it puts into vertices and edges (\<^verbatim>\<open>CommandDataSource.hpp\<close>, \<^verbatim>\<open>TryCommand.cpp\<close>,
  \<^verbatim>\<open>ConditionOnce.cpp\<close>), and the graph that the interpreter of theory \<open>FunctionGraph\<close> then walks.

  Vertices and edges are numbered in the order in which they are made; numbers are not used again, as the vertices
  of one function are not those of another. An object that a command and a condition share (the result of
  an evaluation) is known by the number of the command's vertex. The function \<^verbatim>\<open>top()\<close> of an empty stack is
  undefined: \<open>None\<close>. Line numbers, and \<^verbatim>\<open>appendFunction\<close>, which copies the graph of a function for the
  deprecated keyword \<^verbatim>\<open>call\<close>, are not modelled.
\<close>

section \<open>Commands and conditions\<close>

text \<open>\<open>'a\<close> are the actions that expressions and assignments become, \<open>'e\<close> the boolean expressions.\<close>

datatype ('a, 'e) command =
    CommandNOP
  | CommandAction 'a
  | EvalCommand nat 'e
  | TryCommand nat 'e

datatype edge_condition =
    ConditionTrue
  | ConditionFalse
  | ConditionOnce bool
  | EvalCommandResult nat
  | TryCommandResult nat bool

text \<open>What actions and expressions do to the world of the script, with \<open>False\<close> and \<open>None\<close> for an exception.\<close>

record ('a, 'e, 'w) script_env =
  a_read :: "'a \<Rightarrow> 'w \<Rightarrow> bool \<times> 'w"
  a_exec :: "'a \<Rightarrow> 'w \<Rightarrow> bool \<times> 'w"
  e_evaluate :: "'e \<Rightarrow> 'w \<Rightarrow> bool option \<times> 'w"

text \<open>The data of commands and conditions beside it: the values of expressions, the results that are kept for
  conditions, and the flag of each \<^verbatim>\<open>ConditionOnce\<close>.\<close>

record 'w script_world =
  user :: 'w
  ds_value :: "nat \<Rightarrow> bool"
  result :: "nat \<Rightarrow> bool"
  ran :: "nat \<Rightarrow> bool"

text \<open>\<^verbatim>\<open>VertexNode::startExecution\<close>: \<^verbatim>\<open>reset\<close> and \<^verbatim>\<open>readArguments\<close>.\<close>

fun command_start :: "('a, 'e, 'w) script_env \<Rightarrow> ('a, 'e) command \<Rightarrow> 'w script_world \<Rightarrow> bool \<times> 'w script_world" where
  "command_start E CommandNOP w = (True, w)"
| "command_start E (CommandAction a) w = (case a_read E a (user w) of (ok, u) \<Rightarrow> (ok, w\<lparr>user := u\<rparr>))"
| "command_start E (EvalCommand v e) w =
     (let w1 = w\<lparr>result := (result w)(v := False)\<rparr> in
      case e_evaluate E e (user w1) of
        (None, u) \<Rightarrow> (False, w1\<lparr>user := u\<rparr>)
      | (Some x, u) \<Rightarrow> (True, w1\<lparr>user := u, ds_value := (ds_value w1)(v := x)\<rparr>))"
| "command_start E (TryCommand v e) w =
     (let w1 = w\<lparr>result := (result w)(v := True)\<rparr> in
      case e_evaluate E e (user w1) of
        (None, u) \<Rightarrow> (True, w1\<lparr>user := u, result := (result w1)(v := False)\<rparr>)
      | (Some x, u) \<Rightarrow> (True, w1\<lparr>user := u, ds_value := (ds_value w1)(v := x), result := (result w1)(v := True)\<rparr>))"

fun command_execute :: "('a, 'e, 'w) script_env \<Rightarrow> ('a, 'e) command \<Rightarrow> 'w script_world \<Rightarrow> bool \<times> 'w script_world" where
  "command_execute E CommandNOP w = (True, w)"
| "command_execute E (CommandAction a) w = (case a_exec E a (user w) of (ok, u) \<Rightarrow> (ok, w\<lparr>user := u\<rparr>))"
| "command_execute E (EvalCommand v e) w = (True, w\<lparr>result := (result w)(v := ds_value w v)\<rparr>)"
| "command_execute E (TryCommand v e) w =
     (True, if result w v then w\<lparr>result := (result w)(v := True)\<rparr> else w)"

fun condition_reset :: "edge_condition \<Rightarrow> nat \<Rightarrow> 'w script_world \<Rightarrow> 'w script_world" where
  "condition_reset (ConditionOnce what) e w = w\<lparr>ran := (ran w)(e := False)\<rparr>"
| "condition_reset c e w = w"

fun condition_evaluate :: "edge_condition \<Rightarrow> nat \<Rightarrow> 'w script_world \<Rightarrow> bool \<times> 'w script_world" where
  "condition_evaluate ConditionTrue e w = (True, w)"
| "condition_evaluate ConditionFalse e w = (False, w)"
| "condition_evaluate (ConditionOnce what) e w =
     (if ran w e then (\<not> what, w) else (what, w\<lparr>ran := (ran w)(e := True)\<rparr>))"
| "condition_evaluate (EvalCommandResult v) e w = (result w v, w)"
| "condition_evaluate (TryCommandResult v invert) e w = (invert \<noteq> result w v, w)"

section \<open>The builder\<close>

record ('a, 'e) builder =
  g_command :: "nat \<Rightarrow> ('a, 'e) command"
  g_out :: "nat \<Rightarrow> (nat \<times> nat) list"
  g_condition :: "nat \<Rightarrow> edge_condition"
  g_vertices :: "nat list"
  g_vcount :: nat
  g_ecount :: nat
  f_start :: nat
  f_exit :: nat
  b_build :: nat
  b_next :: nat
  branch_stack :: "nat list"
  break_stack :: "nat list"

definition add_vertex :: "('a, 'e, 'z) builder_scheme \<Rightarrow> nat \<times> ('a, 'e, 'z) builder_scheme" where
  "add_vertex b =
     (g_vcount b,
      b\<lparr>g_command := (g_command b)(g_vcount b := CommandNOP), g_out := (g_out b)(g_vcount b := []),
        g_vertices := g_vertices b @ [g_vcount b], g_vcount := g_vcount b + 1\<rparr>)"

definition add_edge :: "nat \<Rightarrow> nat \<Rightarrow> edge_condition \<Rightarrow> ('a, 'e, 'z) builder_scheme \<Rightarrow> ('a, 'e, 'z) builder_scheme" where
  "add_edge v t c b =
     b\<lparr>g_out := (g_out b)(v := g_out b v @ [(g_ecount b, t)]), g_condition := (g_condition b)(g_ecount b := c),
       g_ecount := g_ecount b + 1\<rparr>"

definition startFunction :: "('a, 'e, 'z) builder_scheme \<Rightarrow> ('a, 'e, 'z) builder_scheme" where
  "startFunction b =
     (case add_vertex (b\<lparr>g_vertices := []\<rparr>) of (s, b1) \<Rightarrow>
      case add_vertex b1 of (x, b2) \<Rightarrow>
      case add_vertex b2 of (n, b3) \<Rightarrow> b3\<lparr>f_start := s, f_exit := x, b_build := s, b_next := n\<rparr>)"

definition returnFunction :: "edge_condition \<Rightarrow> ('a, 'e, 'z) builder_scheme \<Rightarrow> ('a, 'e, 'z) builder_scheme" where
  "returnFunction c b = add_edge (b_build b) (f_exit b) c b"

definition endFunction :: "('a, 'e, 'z) builder_scheme \<Rightarrow> ('a, 'e, 'z) builder_scheme" where
  "endFunction b = b\<lparr>g_vertices := filter (\<lambda>v. v \<noteq> b_build b \<and> v \<noteq> b_next b) (g_vertices b)\<rparr>"

definition setCommand :: "('a, 'e) command \<Rightarrow> ('a, 'e, 'z) builder_scheme \<Rightarrow> ('a, 'e, 'z) builder_scheme" where
  "setCommand c b = b\<lparr>g_command := (g_command b)(b_build b := c)\<rparr>"

definition addConditionEdge :: "edge_condition \<Rightarrow> nat \<Rightarrow> ('a, 'e, 'z) builder_scheme \<Rightarrow> ('a, 'e, 'z) builder_scheme" where
  "addConditionEdge c v b = add_edge (b_build b) v c b"

definition moveTo :: "nat \<Rightarrow> nat \<Rightarrow> ('a, 'e, 'z) builder_scheme \<Rightarrow> ('a, 'e, 'z) builder_scheme" where
  "moveTo build next b = b\<lparr>b_build := build, b_next := next\<rparr>"

definition proceedToNext :: "('a, 'e, 'z) builder_scheme \<Rightarrow> ('a, 'e, 'z) builder_scheme" where
  "proceedToNext b =
     (case add_vertex (b\<lparr>b_build := b_next b\<rparr>) of (n, b1) \<Rightarrow> b1\<lparr>b_next := n\<rparr>)"

definition proceedToNext_if :: "edge_condition \<Rightarrow> ('a, 'e, 'z) builder_scheme \<Rightarrow> ('a, 'e, 'z) builder_scheme" where
  "proceedToNext_if c b = proceedToNext (add_edge (b_build b) (b_next b) c b)"

definition addCommand :: "edge_condition \<Rightarrow> ('a, 'e) command \<Rightarrow> ('a, 'e, 'z) builder_scheme \<Rightarrow> ('a, 'e, 'z) builder_scheme" where
  "addCommand c com b =
     (case add_vertex (setCommand com ((add_edge (b_build b) (b_next b) c b)\<lparr>b_build := b_next b\<rparr>)) of
        (n, b1) \<Rightarrow> b1\<lparr>b_next := n\<rparr>)"

definition connectToNext :: "nat \<Rightarrow> edge_condition \<Rightarrow> ('a, 'e, 'z) builder_scheme \<Rightarrow> ('a, 'e, 'z) builder_scheme" where
  "connectToNext v c b = add_edge v (b_next b) c b"

definition buildEdges :: "('a, 'e, 'z) builder_scheme \<Rightarrow> nat" where
  "buildEdges b = length (g_out b (b_build b))"

definition startIfStatement :: "edge_condition \<Rightarrow> ('a, 'e, 'z) builder_scheme \<Rightarrow> ('a, 'e, 'z) builder_scheme" where
  "startIfStatement c b =
     (case add_vertex b of (else_node, b1) \<Rightarrow>
      case add_vertex b1 of (after_else_node, b2) \<Rightarrow>
        proceedToNext
          (addConditionEdge ConditionTrue else_node
            (addConditionEdge c (b_next b2)
              (b2\<lparr>branch_stack := after_else_node # else_node # branch_stack b2\<rparr>))))"

definition endIfBlock :: "('a, 'e, 'z) builder_scheme \<Rightarrow> ('a, 'e, 'z) builder_scheme option" where
  "endIfBlock b =
     (case branch_stack b of
        after_else_node # else_node # rest \<Rightarrow>
          Some ((moveTo else_node (b_next b) (addConditionEdge ConditionTrue after_else_node b))
            \<lparr>branch_stack := after_else_node # rest\<rparr>)
      | _ \<Rightarrow> None)"

definition endElseBlock :: "('a, 'e, 'z) builder_scheme \<Rightarrow> ('a, 'e, 'z) builder_scheme option" where
  "endElseBlock b =
     (case branch_stack b of
        after_else_node # rest \<Rightarrow>
          Some ((moveTo after_else_node (b_next b) (addConditionEdge ConditionTrue after_else_node b))
            \<lparr>branch_stack := rest\<rparr>)
      | _ \<Rightarrow> None)"

definition startWhileStatement :: "edge_condition \<Rightarrow> ('a, 'e, 'z) builder_scheme \<Rightarrow> ('a, 'e, 'z) builder_scheme" where
  "startWhileStatement c b =
     (case add_vertex b of (after_while_node, b1) \<Rightarrow>
        proceedToNext
          (addConditionEdge ConditionTrue after_while_node
            (addConditionEdge c (b_next b1)
              (b1\<lparr>branch_stack := b_build b1 # after_while_node # branch_stack b1,
                  break_stack := after_while_node # break_stack b1\<rparr>))))"

definition endWhileBlock :: "('a, 'e, 'z) builder_scheme \<Rightarrow> ('a, 'e, 'z) builder_scheme option" where
  "endWhileBlock b =
     (case (branch_stack b, break_stack b) of
        (start_of_while # after_while_node # rest, _ # rest') \<Rightarrow>
          Some ((moveTo after_while_node (b_next b) (addConditionEdge ConditionTrue start_of_while b))
            \<lparr>branch_stack := rest, break_stack := rest'\<rparr>)
      | _ \<Rightarrow> None)"

definition inLoop :: "('a, 'e, 'z) builder_scheme \<Rightarrow> bool" where
  "inLoop b \<longleftrightarrow> break_stack b \<noteq> []"

definition breakLoop :: "('a, 'e, 'z) builder_scheme \<Rightarrow> bool \<times> ('a, 'e, 'z) builder_scheme" where
  "breakLoop b = (if \<not> inLoop b then (False, b) else (True, addConditionEdge ConditionTrue (hd (break_stack b)) b))"

section \<open>The graph as the interpreter sees it\<close>

definition script_graph :: "('a, 'e, 'w) script_env \<Rightarrow> ('a, 'e, 'z) builder_scheme \<Rightarrow> 'w script_world graph_env" where
  "script_graph E b =
     \<lparr>out_edges = g_out b,
      startExecution = (\<lambda>v w. command_start E (g_command b v) w),
      cmd_execute = (\<lambda>v m. case command_execute E (g_command b v) (fg_world m) of (ok, w) \<Rightarrow> (ok, m\<lparr>fg_world := w\<rparr>)),
      isValid = (\<lambda>v w. True),
      cond_reset = (\<lambda>e w. condition_reset (g_condition b e) e w),
      cond_evaluate = (\<lambda>e w. case condition_evaluate (g_condition b e) e w of (x, w1) \<Rightarrow> (Some x, w1))\<rparr>"

end
