(* ===== verification/ScriptParser.thy ===== *)
theory ScriptParser
  imports GraphBuilder
begin

text \<open>
  The semantic actions of \<^verbatim>\<open>ProgramGraphParser\<close> (\<^verbatim>\<open>rtt/scripting/ProgramGraphParser.cpp\<close>), called in
  the order in which its grammar (\<^verbatim>\<open>ProgramGraphParser2.cpp\<close>) recognises the statements of a script; and what
  the statements mean. The text of a script and the parsers of its expressions are not modelled: a script is its
  syntax tree. A syntax error is \<open>None\<close>.
\<close>

section \<open>Semantic actions\<close>

record ('a, 'e) program_parser = "('a, 'e) builder" +
  for_init_command :: "'a option"
  for_incr_command :: "'a option list"
  try_cond :: "edge_condition option"

definition seenstatement :: "'a \<Rightarrow> ('a, 'e) program_parser \<Rightarrow> ('a, 'e) program_parser" where
  "seenstatement a p =
     (let p1 = setCommand (CommandAction a) p in
      if buildEdges p1 = 0 then proceedToNext_if ConditionTrue p1 else proceedToNext p1)"

definition seenyield :: "('a, 'e) program_parser \<Rightarrow> ('a, 'e) program_parser" where
  "seenyield p = proceedToNext_if (ConditionOnce False) (setCommand CommandNOP p)"

definition seenvaluechange :: "'a option \<Rightarrow> ('a, 'e) program_parser \<Rightarrow> ('a, 'e) program_parser" where
  "seenvaluechange ac p =
     (case ac of None \<Rightarrow> p | Some a \<Rightarrow> proceedToNext_if ConditionTrue (setCommand (CommandAction a) p))"

definition seenifstatement :: "'e \<Rightarrow> ('a, 'e) program_parser \<Rightarrow> ('a, 'e) program_parser" where
  "seenifstatement e p =
     startIfStatement (EvalCommandResult (b_build p)) (setCommand (EvalCommand (b_build p) e) p)"

definition seenwhilestatement :: "'e \<Rightarrow> ('a, 'e) program_parser \<Rightarrow> ('a, 'e) program_parser" where
  "seenwhilestatement e p =
     startWhileStatement (EvalCommandResult (b_build p)) (setCommand (EvalCommand (b_build p) e) p)"

definition seenforstatement :: "'e \<Rightarrow> ('a, 'e) program_parser \<Rightarrow> ('a, 'e) program_parser" where
  "seenforstatement e p =
     (let p1 = (case for_init_command p of
                  None \<Rightarrow> p
                | Some a \<Rightarrow> proceedToNext_if ConditionTrue (setCommand (CommandAction a) p))
      in seenwhilestatement e (p1\<lparr>for_init_command := None\<rparr>))"

definition endforstatement :: "('a, 'e) program_parser \<Rightarrow> ('a, 'e) program_parser option" where
  "endforstatement p =
     (case for_incr_command p of
        [] \<Rightarrow> None
      | incr # rest \<Rightarrow>
          (let p1 = p\<lparr>for_incr_command := rest\<rparr> in
           endWhileBlock (case incr of
             None \<Rightarrow> p1
           | Some a \<Rightarrow> proceedToNext_if ConditionTrue (setCommand (CommandAction a) p1))))"

definition seenbreakstatement :: "('a, 'e) program_parser \<Rightarrow> ('a, 'e) program_parser option" where
  "seenbreakstatement p = (if inLoop p then Some (proceedToNext (snd (breakLoop p))) else None)"

definition seenreturnvalue :: "'a \<Rightarrow> ('a, 'e) program_parser \<Rightarrow> ('a, 'e) program_parser" where
  "seenreturnvalue a p = proceedToNext_if ConditionTrue (setCommand (CommandAction a) p)"

definition seenreturnstatement :: "('a, 'e) program_parser \<Rightarrow> ('a, 'e) program_parser" where
  "seenreturnstatement p = proceedToNext (returnFunction ConditionTrue p)"

text \<open>The expression of a try statement is boolean (\<open>Inr\<close>) or not.\<close>

definition seentrystatement :: "'a + 'e \<Rightarrow> ('a, 'e) program_parser \<Rightarrow> ('a, 'e) program_parser" where
  "seentrystatement expr p =
     (let p1 = (case expr of
                  Inl a \<Rightarrow> setCommand (CommandAction a) (p\<lparr>try_cond := Some ConditionFalse\<rparr>)
                | Inr e \<Rightarrow> setCommand (TryCommand (b_build p) e) (p\<lparr>try_cond := Some (TryCommandResult (b_build p) True)\<rparr>))
      in if buildEdges p1 = 0 then proceedToNext_if ConditionTrue p1 else proceedToNext p1)"

definition startcatchpart :: "('a, 'e) program_parser \<Rightarrow> ('a, 'e) program_parser option" where
  "startcatchpart p =
     (case try_cond p of None \<Rightarrow> None | Some c \<Rightarrow> Some ((startIfStatement c p)\<lparr>try_cond := None\<rparr>))"

definition seencatchpart :: "('a, 'e) program_parser \<Rightarrow> ('a, 'e) program_parser option" where
  "seencatchpart p = Option.bind (endIfBlock p) endElseBlock"

definition bodyParserResult :: "('a, 'e) program_parser \<Rightarrow> ('a, 'e) program_parser" where
  "bodyParserResult p = endFunction (proceedToNext (returnFunction ConditionTrue p))"

section \<open>The grammar\<close>

text \<open>Statements; a block is \<open>Skip\<close> or a sequence. A value change may need no action; an
  action may be the value of a return statement, or initialise or increment a \<open>for\<close> loop.\<close>

datatype ('a, 'e) stmt =
    Skip
  | Seq "('a, 'e) stmt" "('a, 'e) stmt"
  | Do 'a
  | Change "'a option"
  | Yield
  | If 'e "('a, 'e) stmt" "('a, 'e) stmt option"
  | While 'e "('a, 'e) stmt"
  | For "'a option" 'e "'a option" "('a, 'e) stmt"
  | Break
  | Return "'a option"
  | Try "'a + 'e" "('a, 'e) stmt option"

text \<open>The actions that parsing a statement calls, in their order.\<close>

fun parse_stmt :: "('a, 'e) stmt \<Rightarrow> ('a, 'e) program_parser \<Rightarrow> ('a, 'e) program_parser option" where
  "parse_stmt Skip p = Some p"
| "parse_stmt (Seq s t) p = Option.bind (parse_stmt s p) (parse_stmt t)"
| "parse_stmt (Do a) p = Some (seenstatement a p)"
| "parse_stmt (Change ac) p = Some (seenvaluechange ac p)"
| "parse_stmt Yield p = Some (seenyield p)"
| "parse_stmt (If e s els) p =
     do {
       p1 \<leftarrow> parse_stmt s (seenifstatement e p);
       p2 \<leftarrow> endIfBlock p1;
       p3 \<leftarrow> (case els of None \<Rightarrow> Some p2 | Some t \<Rightarrow> parse_stmt t p2);
       endElseBlock p3
     }"
| "parse_stmt (While e s) p = Option.bind (parse_stmt s (seenwhilestatement e p)) endWhileBlock"
| "parse_stmt (For init e incr s) p =
     Option.bind
       (parse_stmt s (seenforstatement e (p\<lparr>for_init_command := init, for_incr_command := incr # for_incr_command p\<rparr>)))
       endforstatement"
| "parse_stmt Break p = seenbreakstatement p"
| "parse_stmt (Return v) p =
     Some (seenreturnstatement (case v of None \<Rightarrow> p | Some a \<Rightarrow> seenreturnvalue a p))"
| "parse_stmt (Try expr catch) p =
     (let p1 = seentrystatement expr p in
      case catch of
        None \<Rightarrow> Some p1
      | Some s \<Rightarrow> do { p2 \<leftarrow> startcatchpart p1; p3 \<leftarrow> parse_stmt s p2; seencatchpart p3 })"

text \<open>A function or program with this body.\<close>

definition parse_function :: "('a, 'e) stmt \<Rightarrow> ('a, 'e) program_parser \<Rightarrow> ('a, 'e) program_parser option" where
  "parse_function s p = map_option bodyParserResult (parse_stmt s (startFunction p))"

definition parser_new :: "('a, 'e) program_parser" where
  "parser_new =
     \<lparr>g_command = (\<lambda>_. CommandNOP), g_out = (\<lambda>_. []), g_condition = (\<lambda>_. ConditionTrue), g_vertices = [], g_vcount = 0,
      g_ecount = 0, f_start = 0, f_exit = 0, b_build = 0, b_next = 0, branch_stack = [], break_stack = [],
      for_init_command = None, for_incr_command = [], try_cond = None\<rparr>"

section \<open>What statements mean\<close>

text \<open>A statement ends in one of four ways. At a \<open>Yield\<close> the script waits for the next cycle of its engine; what
  the world then is is given by a list of functions, one for each time the script waits. Fuel bounds the rounds of
  loops; \<open>None\<close> means that it, or the list, is used up.\<close>

datatype outcome = Done | Broken | Returned | Failed

definition run_action :: "('a, 'e, 'w) script_env \<Rightarrow> 'a \<Rightarrow> 'w \<Rightarrow> outcome \<times> 'w" where
  "run_action E a w =
     (case a_read E a w of (ok, w1) \<Rightarrow>
        if \<not> ok then (Failed, w1) else (case a_exec E a w1 of (ok, w2) \<Rightarrow> (if ok then Done else Failed, w2)))"

definition run_optional :: "('a, 'e, 'w) script_env \<Rightarrow> 'a option \<Rightarrow> 'w \<Rightarrow> outcome \<times> 'w" where
  "run_optional E ac w = (case ac of None \<Rightarrow> (Done, w) | Some a \<Rightarrow> run_action E a w)"

type_synonym 'w script_state = "'w \<times> ('w \<Rightarrow> 'w) list"

fun run_stmt :: "bool \<Rightarrow> ('a, 'e, 'w) script_env \<Rightarrow> nat \<Rightarrow> ('a, 'e) stmt \<Rightarrow> 'w \<Rightarrow> ('w \<Rightarrow> 'w) list \<Rightarrow> (outcome \<times> 'w script_state) option" where
  "run_stmt catches E n Skip w fs = Some (Done, w, fs)"
| "run_stmt catches E n (Seq s t) w fs =
     (case run_stmt catches E n s w fs of
        Some (Done, w1, fs1) \<Rightarrow> run_stmt catches E n t w1 fs1
      | r \<Rightarrow> r)"
| "run_stmt catches E n (Do a) w fs = (case run_action E a w of (r, w1) \<Rightarrow> Some (r, w1, fs))"
| "run_stmt catches E n (Change ac) w fs = (case run_optional E ac w of (r, w1) \<Rightarrow> Some (r, w1, fs))"
| "run_stmt catches E n Yield w fs = (case fs of [] \<Rightarrow> None | f # fs1 \<Rightarrow> Some (Done, f w, fs1))"
| "run_stmt catches E n (If e s els) w fs =
     (case e_evaluate E e w of
        (None, w1) \<Rightarrow> Some (Failed, w1, fs)
      | (Some b, w1) \<Rightarrow>
          if b then run_stmt catches E n s w1 fs else (case els of None \<Rightarrow> Some (Done, w1, fs) | Some t \<Rightarrow> run_stmt catches E n t w1 fs))"
| "run_stmt catches E 0 (While e s) w fs = None"
| "run_stmt catches E (Suc n) (While e s) w fs =
     (case e_evaluate E e w of
        (None, w1) \<Rightarrow> Some (Failed, w1, fs)
      | (Some b, w1) \<Rightarrow>
          if \<not> b then Some (Done, w1, fs)
          else (case run_stmt catches E n s w1 fs of
              Some (Done, w2, fs2) \<Rightarrow> run_stmt catches E n (While e s) w2 fs2
            | Some (Broken, w2, fs2) \<Rightarrow> Some (Done, w2, fs2)
            | r \<Rightarrow> r))"
| "run_stmt catches E 0 (For init e incr s) w fs = None"
| "run_stmt catches E (Suc n) (For init e incr s) w fs =
     (case run_optional E init w of
        (Done, w0) \<Rightarrow>
          (case e_evaluate E e w0 of
             (None, w1) \<Rightarrow> Some (Failed, w1, fs)
           | (Some b, w1) \<Rightarrow>
               if \<not> b then Some (Done, w1, fs)
               else (case run_stmt catches E n s w1 fs of
                   Some (Done, w2, fs2) \<Rightarrow>
                     (case run_optional E incr w2 of
                        (Done, w3) \<Rightarrow> run_stmt catches E n (For None e incr s) w3 fs2
                      | (r, w3) \<Rightarrow> Some (r, w3, fs2))
                 | Some (Broken, w2, fs2) \<Rightarrow> Some (Done, w2, fs2)
                 | r \<Rightarrow> r))
      | (r, w0) \<Rightarrow> Some (r, w0, fs))"
| "run_stmt catches E n Break w fs = Some (Broken, w, fs)"
| "run_stmt catches E n (Return v) w fs =
     (case run_optional E v w of
        (Done, w1) \<Rightarrow> Some (Returned, w1, fs)
      | (r, w1) \<Rightarrow> Some (r, w1, fs))"
| "run_stmt catches E n (Try (Inl a) catch) w fs =
     (case run_action E a w of
        (r, w1) \<Rightarrow>
          if catches \<and> r = Failed then (case catch of None \<Rightarrow> Some (Done, w1, fs) | Some s \<Rightarrow> run_stmt catches E n s w1 fs)
          else Some (r, w1, fs))"
| "run_stmt catches E n (Try (Inr e) catch) w fs =
     (case e_evaluate E e w of
        (None, w1) \<Rightarrow> (case catch of None \<Rightarrow> Some (Done, w1, fs) | Some s \<Rightarrow> run_stmt catches E n s w1 fs)
      | (Some _, w1) \<Rightarrow> Some (Done, w1, fs))"

text \<open>The meaning of a script by the manual: a try statement intercepts the failure of every method, and its catch
  clause is then executed.\<close>

abbreviation exec :: "('a, 'e, 'w) script_env \<Rightarrow> nat \<Rightarrow> ('a, 'e) stmt \<Rightarrow> 'w \<Rightarrow> ('w \<Rightarrow> 'w) list \<Rightarrow> (outcome \<times> 'w script_state) option" where
  "exec \<equiv> run_stmt True"

text \<open>The meaning that the parser gives it, which wraps only the expressions whose result is a bool.\<close>

abbreviation exec_built :: "('a, 'e, 'w) script_env \<Rightarrow> nat \<Rightarrow> ('a, 'e) stmt \<Rightarrow> 'w \<Rightarrow> ('w \<Rightarrow> 'w) list \<Rightarrow> (outcome \<times> 'w script_state) option" where
  "exec_built \<equiv> run_stmt False"

text \<open>They agree on a script whose other try statements are of methods that never fail.\<close>

fun tries_ok :: "('a, 'e, 'w) script_env \<Rightarrow> ('a, 'e) stmt \<Rightarrow> bool" where
  "tries_ok E (Seq s t) \<longleftrightarrow> tries_ok E s \<and> tries_ok E t"
| "tries_ok E (If e s els) \<longleftrightarrow> tries_ok E s \<and> (case els of None \<Rightarrow> True | Some t \<Rightarrow> tries_ok E t)"
| "tries_ok E (While e s) \<longleftrightarrow> tries_ok E s"
| "tries_ok E (For init e incr s) \<longleftrightarrow> tries_ok E s"
| "tries_ok E (Try (Inl a) catch) \<longleftrightarrow> (\<forall>w. fst (run_action E a w) \<noteq> Failed)"
| "tries_ok E (Try (Inr e) catch) \<longleftrightarrow> (case catch of None \<Rightarrow> True | Some s \<Rightarrow> tries_ok E s)"
| "tries_ok E _ \<longleftrightarrow> True"

lemma try_action_exec: "fst (run_action E a w) \<noteq> Failed \<Longrightarrow> run_stmt c E n (Try (Inl a) catch) w fs = exec_built E n (Try (Inl a) catch) w fs"
  by (cases "run_action E a w") simp

lemma exec_built_structural:
  assumes in_while: "\<And>e s w fs. tries_ok E s \<Longrightarrow> run_stmt c E n (While e s) w fs = exec_built E n (While e s) w fs"
    and in_for: "\<And>i e u s w fs. tries_ok E s \<Longrightarrow> run_stmt c E n (For i e u s) w fs = exec_built E n (For i e u s) w fs"
  shows "tries_ok E s \<Longrightarrow> run_stmt c E n s w fs = exec_built E n s w fs"
proof (induction s arbitrary: w fs)
  case (Seq s t)
  then show ?case by (simp split: prod.split option.split outcome.split)
next
  case (If e s els)
  then show ?case by (cases els) (simp_all split: prod.split option.split)
next
  case (Try expr catch)
  show ?case
  proof (cases expr)
    case (Inl a)
    with Try.prems show ?thesis unfolding Inl by (intro try_action_exec) simp
  next
    case (Inr e)
    with Try show ?thesis by (cases catch) (simp_all split: prod.split option.split)
  qed
next
  case (While e s)
  then show ?case by (intro in_while) simp
next
  case (For i e u s)
  then show ?case by (intro in_for) simp
qed simp_all

lemma exec_built_exec: "tries_ok E s \<Longrightarrow> run_stmt c E n s w fs = exec_built E n s w fs"
proof (induction n arbitrary: s w fs)
  case 0
  show ?case by (rule exec_built_structural [OF _ _ 0]) simp_all
next
  case (Suc n)
  show ?case
  proof (rule exec_built_structural [OF _ _ Suc.prems])
    fix e s w fs assume s: "tries_ok E s"
    then have w: "tries_ok E (While e s)" by simp
    show "run_stmt c E (Suc n) (While e s) w fs = exec_built E (Suc n) (While e s) w fs"
      unfolding run_stmt.simps Suc.IH [OF s] Suc.IH [OF w] by (rule refl)
  next
    fix i e u s w fs assume s: "tries_ok E s"
    then have w: "tries_ok E (For None e u s)" by simp
    show "run_stmt c E (Suc n) (For i e u s) w fs = exec_built E (Suc n) (For i e u s) w fs"
      unfolding run_stmt.simps Suc.IH [OF s] Suc.IH [OF w] by (rule refl)
  qed
qed

text \<open>A break statement stands in a loop.\<close>

fun breaks_ok :: "bool \<Rightarrow> ('a, 'e) stmt \<Rightarrow> bool" where
  "breaks_ok loop (Seq s t) \<longleftrightarrow> breaks_ok loop s \<and> breaks_ok loop t"
| "breaks_ok loop (If e s els) \<longleftrightarrow> breaks_ok loop s \<and> (case els of None \<Rightarrow> True | Some t \<Rightarrow> breaks_ok loop t)"
| "breaks_ok loop (While e s) \<longleftrightarrow> breaks_ok True s"
| "breaks_ok loop (For init e incr s) \<longleftrightarrow> breaks_ok True s"
| "breaks_ok loop Break \<longleftrightarrow> loop"
| "breaks_ok loop (Try expr catch) \<longleftrightarrow> (case catch of None \<Rightarrow> True | Some s \<Rightarrow> breaks_ok loop s)"
| "breaks_ok loop _ \<longleftrightarrow> True"

text \<open>The cycles of an engine that executes a loaded and started script, while the rest of the component changes
  the world in between.\<close>

fun cycles :: "'w script_world graph_env \<Rightarrow> ('w \<Rightarrow> 'w) list \<Rightarrow> 'w script_world function_graph \<Rightarrow>
    'w script_world function_graph option" where
  "cycles G [] m = map_option snd (fg_execute G m)"
| "cycles G (f # fs) m =
     do {
       (_, m1) \<leftarrow> fg_execute G m;
       if pStatus m1 = PRunning then cycles G fs (m1\<lparr>fg_world := (fg_world m1)\<lparr>user := f (user (fg_world m1))\<rparr>\<rparr>)
       else Some m1
     }"

end
