(* ===== verification/ScriptSteps.thy ===== *)
theory ScriptSteps
  imports ScriptParser
begin

text \<open>
  Single steps of a compiled script: what the interpreter of theory \<open>FunctionGraph\<close> does at a vertex, for
  each kind of vertex that the parser makes.
\<close>

section \<open>Cycles and visits\<close>

definition running :: "'w function_graph \<Rightarrow> bool" where
  "running m \<longleftrightarrow> pStatus m = PRunning \<and> \<not> pausing m"

lemma running_execute: "running m \<Longrightarrow> fg_execute G m = executeUntil G m"
  by (simp add: running_def fg_execute_def)

lemma cycle_move:
  assumes v: "visit G m = (True, m1)" and "running m" "running m1" and "fg_previous m1 \<noteq> fg_current m1"
  shows "cycles G fs m = cycles G fs m1"
proof -
  have "until_loop G m = until_loop G m1" using assms by (subst until_loop.simps) (simp add: running_def)
  then have "fg_execute G m = fg_execute G m1" using assms by (simp add: running_execute executeUntil_def)
  then show ?thesis by (cases fs) simp_all
qed

lemma until_stop:
  assumes "visit G m = (True, m1)" and "fg_previous m1 = fg_current m1"
  shows "until_loop G m = Some (True, m1)"
  using assms by (subst until_loop.simps) simp

lemma cycle_wait:
  assumes "visit G m = (True, m1)" and "fg_previous m1 = fg_current m1" and "running m" and "pStatus m1 = PRunning"
    and "fg_current m1 \<noteq> exitv m1"
  shows "cycles G (f # fs) m = cycles G fs (m1\<lparr>fg_world := (fg_world m1)\<lparr>user := f (user (fg_world m1))\<rparr>\<rparr>)"
  using assms by (simp add: running_execute executeUntil_def until_stop)

lemma cycle_end:
  assumes "visit G m = (True, m1)" and "fg_previous m1 = fg_current m1" and "running m" and "fg_current m1 = exitv m1"
  shows "cycles G fs m = Some (m1\<lparr>pStatus := PStopped\<rparr>)"
  using assms by (cases fs) (simp_all add: running_execute executeUntil_def until_stop fg_stop_def)

lemma cycle_error:
  assumes "visit G m = (False, m1)" and "running m" and "pStatus m1 = PError"
  shows "cycles G fs m = Some m1"
proof -
  have "until_loop G m = Some (False, m1)" using assms by (subst until_loop.simps) simp
  then show ?thesis using assms by (cases fs) (simp_all add: running_execute executeUntil_def)
qed

section \<open>Vertices of a script\<close>

text \<open>The script has just come to vertex \<open>v\<close>.\<close>

definition arrived :: "nat \<Rightarrow> 'w script_world function_graph \<Rightarrow> nat \<Rightarrow> 'w \<Rightarrow> bool" where
  "arrived x m v w \<longleftrightarrow>
     fg_current m = v \<and> fg_previous m \<noteq> v \<and> running m \<and> exitv m = x \<and> user (fg_world m) = w"

definition resets :: "(nat \<Rightarrow> edge_condition) \<Rightarrow> (nat \<times> nat) list \<Rightarrow> 'w script_world \<Rightarrow> 'w script_world" where
  "resets conds es w = fold (\<lambda>(e, _). condition_reset (conds e) e) es w"

lemma condition_reset_fields [simp]:
  "user (condition_reset c e w) = user w" "result (condition_reset c e w) = result w"
  by (cases c; simp)+

lemma resets_fields [simp]:
  "user (resets conds es w) = user w" "result (resets conds es w) = result w"
  by (induction es arbitrary: w) (auto simp: resets_def)

lemma script_graph_simps [simp]:
  "out_edges (script_graph E b) = g_out b"
  "isValid (script_graph E b) v w"
  "startExecution (script_graph E b) v w = command_start E (g_command b v) w"
  "cmd_execute (script_graph E b) v m =
     (case command_execute E (g_command b v) (fg_world m) of (ok, w) \<Rightarrow> (ok, m\<lparr>fg_world := w\<rparr>))"
  "cond_reset (script_graph E b) = (\<lambda>e. condition_reset (g_condition b e) e)"
  "cond_evaluate (script_graph E b) e w' =
     (case condition_evaluate (g_condition b e) e w' of (x, w1) \<Rightarrow> (Some x, w1))"
  by (simp_all add: script_graph_def)

lemma script_enter:
  assumes "arrived x m v w"
  shows "enter_vertex (script_graph E b) m =
    (case command_start E (g_command b v) (resets (g_condition b) (g_out b v) (fg_world m)) of (ok, u) \<Rightarrow> (ok, m\<lparr>fg_world := u\<rparr>))"
  using assms by (simp add: arrived_def enter_vertex_def resets_def)

text \<open>What happens at a vertex on arrival, from the commands and conditions there.\<close>

lemma arrived_branch:
  assumes a: "arrived x m v w"
    and start: "command_start E (g_command b v) (resets (g_condition b) (g_out b v) (fg_world m)) = (True, w1)"
    and run: "command_execute E (g_command b v) w1 = (True, w2)"
    and sel: "select_branch (script_graph E b) (g_out b v) w2 = (Taken t, w3)" and t: "t \<noteq> v"
  shows "\<exists>m1. cycles (script_graph E b) fs m = cycles (script_graph E b) fs m1 \<and> arrived x m1 t (user w3) \<and> fg_world m1 = w3"
proof -
  let ?m1 = "m\<lparr>fg_previous := v, fg_world := w3, fg_current := t\<rparr>"
  have c: "fg_current m = v" using a by (simp add: arrived_def)
  have "visit (script_graph E b) m = (True, ?m1)"
    using sel by (simp add: visit_def script_enter [OF a] start c run)
  moreover have "running m" "running ?m1" using a by (simp_all add: arrived_def running_def)
  ultimately have "cycles (script_graph E b) fs m = cycles (script_graph E b) fs ?m1"
    using t by (intro cycle_move) simp_all
  moreover have "arrived x ?m1 t (user w3)" using a t by (simp add: arrived_def running_def)
  ultimately show ?thesis by (intro exI [of _ ?m1]) simp
qed

lemma arrived_start_error:
  assumes a: "arrived x m v w"
    and start: "command_start E (g_command b v) (resets (g_condition b) (g_out b v) (fg_world m)) = (False, w1)"
  shows "\<exists>m1. cycles (script_graph E b) fs m = Some m1 \<and> pStatus m1 = PError \<and> user (fg_world m1) = user w1"
proof -
  let ?m1 = "m\<lparr>fg_world := w1, pStatus := PError\<rparr>"
  have "visit (script_graph E b) m = (False, ?m1)" by (simp add: visit_def script_enter [OF a] start)
  then have "cycles (script_graph E b) fs m = Some ?m1" using a by (intro cycle_error) (simp_all add: arrived_def)
  then show ?thesis by simp
qed

lemma arrived_execute_error:
  assumes a: "arrived x m v w"
    and start: "command_start E (g_command b v) (resets (g_condition b) (g_out b v) (fg_world m)) = (True, w1)"
    and run: "command_execute E (g_command b v) w1 = (False, w2)"
  shows "\<exists>m1. cycles (script_graph E b) fs m = Some m1 \<and> pStatus m1 = PError \<and> user (fg_world m1) = user w2"
proof -
  let ?m1 = "m\<lparr>fg_previous := v, fg_world := w2, pStatus := PError\<rparr>"
  have c: "fg_current m = v" using a by (simp add: arrived_def)
  have "visit (script_graph E b) m = (False, ?m1)"
    by (simp add: visit_def script_enter [OF a] start c run)
  then have "cycles (script_graph E b) fs m = Some ?m1" using a by (intro cycle_error) (simp_all add: arrived_def)
  then show ?thesis by simp
qed

text \<open>How a statement of the source shows in the run of its graph: from vertex \<open>m\<close> stands at, the script goes on
  at \<open>dn\<close> when the statement is done, at \<open>bk\<close> after a break, at the exit \<open>x\<close> after a return.\<close>

definition reaches :: "'w script_world graph_env \<Rightarrow> nat \<Rightarrow> ('w \<Rightarrow> 'w) list \<Rightarrow> 'w script_world function_graph \<Rightarrow> nat \<Rightarrow> nat \<Rightarrow>
    outcome \<times> 'w script_state \<Rightarrow> bool" where
  "reaches G x fs m dn bk res \<longleftrightarrow>
     (case res of (out, w', fs') \<Rightarrow>
        if out = Failed then \<exists>m'. cycles G fs m = Some m' \<and> pStatus m' = PError \<and> user (fg_world m') = w'
        else \<exists>m'. cycles G fs m = cycles G fs' m' \<and>
               arrived x m' (case out of Broken \<Rightarrow> bk | Returned \<Rightarrow> x | _ \<Rightarrow> dn) w')"

lemma reaches_after:
  "cycles G fs m = cycles G fs1 m1 \<Longrightarrow> reaches G x fs1 m1 dn bk res \<Longrightarrow> reaches G x fs m dn bk res"
  by (cases res) (simp add: reaches_def)

lemma reaches_done: "arrived x m v w \<Longrightarrow> reaches G x fs m v bk (Done, w, fs)"
  by (auto simp: reaches_def)

text \<open>The kinds of vertices.\<close>

lemma step_true:
  assumes a: "arrived x m v w" and out: "g_out b v = [(e, t)]" and c: "g_condition b e = ConditionTrue" and t: "t \<noteq> v"
    and cmd: "g_command b v = CommandNOP"
  shows "\<exists>m1. cycles (script_graph E b) fs m = cycles (script_graph E b) fs m1 \<and> arrived x m1 t w"
proof -
  have r: "resets (g_condition b) [(e, t)] (fg_world m) = fg_world m" by (simp add: resets_def c)
  have "select_branch (script_graph E b) [(e, t)] (fg_world m) = (Taken t, fg_world m)" by (simp add: c)
  with arrived_branch [OF a, of E b "fg_world m" "fg_world m" t "fg_world m" fs] a show ?thesis
    by (auto simp: out r cmd t arrived_def)
qed

lemma step_action:
  assumes a: "arrived x m v w" and out: "g_out b v = [(e, t)]" and c: "g_condition b e = ConditionTrue" and t: "t \<noteq> v"
    and cmd: "g_command b v = CommandAction ac" and r: "run_action E ac w = (res, w')"
  shows "reaches (script_graph E b) x fs m t bk (res, w', fs)"
proof -
  have r0: "resets (g_condition b) (g_out b v) (fg_world m) = fg_world m" by (simp add: resets_def c out)
  have u: "user (fg_world m) = w" using a by (simp add: arrived_def)
  obtain ok1 w1 where s: "a_read E ac w = (ok1, w1)" by (cases "a_read E ac w")
  obtain ok2 w2 where e: "a_exec E ac w1 = (ok2, w2)" by (cases "a_exec E ac w1")
  let ?w1 = "(fg_world m)\<lparr>user := w1\<rparr>" and ?w2 = "(fg_world m)\<lparr>user := w2\<rparr>"
  have start: "command_start E (g_command b v) (resets (g_condition b) (g_out b v) (fg_world m)) = (ok1, ?w1)"
    unfolding r0 cmd using s u by simp
  have run: "command_execute E (g_command b v) ?w1 = (ok2, ?w2)" unfolding cmd using e by simp
  show ?thesis
  proof (cases ok1)
    case False
    then show ?thesis using arrived_start_error [OF a, of E b ?w1 fs] start r s
      by (auto simp: run_action_def reaches_def)
  next
    case ok1: True
    show ?thesis
    proof (cases ok2)
      case False
      then show ?thesis using arrived_execute_error [OF a, of E b ?w1 ?w2 fs] start run ok1 r s e
        by (auto simp: run_action_def reaches_def)
    next
      case True
      have "select_branch (script_graph E b) (g_out b v) ?w2 = (Taken t, ?w2)" by (simp add: c out)
      then show ?thesis
        using arrived_branch [OF a, of E b ?w1 ?w2 t ?w2 fs] start run ok1 True r s e t
        by (auto simp: run_action_def reaches_def)
    qed
  qed
qed

lemma step_eval:
  assumes a: "arrived x m v w" and out: "g_out b v = [(e1, B), (e2, A)]"
    and c: "g_condition b e1 = EvalCommandResult v" "g_condition b e2 = ConditionTrue" and t: "B \<noteq> v" "A \<noteq> v"
    and cmd: "g_command b v = EvalCommand v ex"
  shows "case e_evaluate E ex w of
      (None, w') \<Rightarrow> \<exists>m1. cycles (script_graph E b) fs m = Some m1 \<and> pStatus m1 = PError \<and> user (fg_world m1) = w'
    | (Some holds, w') \<Rightarrow> \<exists>m1. cycles (script_graph E b) fs m = cycles (script_graph E b) fs m1 \<and>
        arrived x m1 (if holds then B else A) w'"
proof -
  have r0: "resets (g_condition b) (g_out b v) (fg_world m) = fg_world m" by (simp add: resets_def c out)
  have u: "user (fg_world m) = w" using a by (simp add: arrived_def)
  obtain r w' where ev: "e_evaluate E ex w = (r, w')" by (cases "e_evaluate E ex w")
  let ?w0 = "(fg_world m)\<lparr>result := (result (fg_world m))(v := False)\<rparr>"
  have u0: "user ?w0 = w" using u by simp
  show ?thesis
  proof (cases r)
    case None
    have "command_start E (g_command b v) (resets (g_condition b) (g_out b v) (fg_world m)) = (False, ?w0\<lparr>user := w'\<rparr>)"
      unfolding r0 cmd using ev u None by simp
    with arrived_start_error [OF a this, of fs] show ?thesis by (simp add: ev None)
  next
    case (Some holds)
    let ?w1 = "?w0\<lparr>user := w', ds_value := (ds_value ?w0)(v := holds)\<rparr>"
    let ?w2 = "?w1\<lparr>result := (result ?w1)(v := holds)\<rparr>"
    have start: "command_start E (g_command b v) (resets (g_condition b) (g_out b v) (fg_world m)) = (True, ?w1)"
      unfolding r0 cmd using ev u Some by simp
    have run: "command_execute E (g_command b v) ?w1 = (True, ?w2)" unfolding cmd by simp
    have "select_branch (script_graph E b) (g_out b v) ?w2 = (Taken (if holds then B else A), ?w2)"
      by (simp add: c out)
    with arrived_branch [OF a start run this, of fs] show ?thesis using t by (auto simp: ev Some)
  qed
qed

text \<open>The two vertices of a try statement with a boolean expression.\<close>

lemma step_try:
  assumes a: "arrived x m v w" and out: "g_out b v = [(e1, t)]" and c: "g_condition b e1 = ConditionTrue" and t: "t \<noteq> v"
    and cmd: "g_command b v = TryCommand v ex" and ev: "e_evaluate E ex w = (r, w')"
  shows "\<exists>m1. cycles (script_graph E b) fs m = cycles (script_graph E b) fs m1 \<and> arrived x m1 t w' \<and>
    result (fg_world m1) v = (r \<noteq> None)"
proof -
  have r0: "resets (g_condition b) (g_out b v) (fg_world m) = fg_world m" by (simp add: resets_def c out)
  have u: "user (fg_world m) = w" using a by (simp add: arrived_def)
  obtain w1 where start: "command_start E (g_command b v) (resets (g_condition b) (g_out b v) (fg_world m)) = (True, w1)"
      "user w1 = w'" "result w1 v = (r \<noteq> None)"
    unfolding r0 cmd using ev u by (cases r) auto
  obtain w2 where run: "command_execute E (g_command b v) w1 = (True, w2)" "user w2 = w'" "result w2 v = (r \<noteq> None)"
    unfolding cmd using start(2,3) by (cases r) auto
  have "select_branch (script_graph E b) (g_out b v) w2 = (Taken t, w2)" by (simp add: c out)
  with arrived_branch [OF a start(1) run(1) this t, of fs] run(2,3) show ?thesis by auto
qed

lemma step_catch:
  assumes a: "arrived x m v w" and out: "g_out b v = [(e1, B), (e2, A)]"
    and c: "g_condition b e1 = cnd" "g_condition b e2 = ConditionTrue" and t: "B \<noteq> v" "A \<noteq> v"
    and cmd: "g_command b v = CommandNOP"
    and cnd: "cnd = ConditionFalse \<and> \<not> caught \<or> cnd = TryCommandResult u True \<and> caught = (\<not> result (fg_world m) u)"
  shows "\<exists>m1. cycles (script_graph E b) fs m = cycles (script_graph E b) fs m1 \<and> arrived x m1 (if caught then B else A) w"
proof -
  have r0: "resets (g_condition b) (g_out b v) (fg_world m) = fg_world m" using cnd by (auto simp: resets_def c out)
  have s: "select_branch (script_graph E b) (g_out b v) (fg_world m) = (Taken (if caught then B else A), fg_world m)"
    using cnd by (auto simp: c out)
  have "(if caught then B else A) \<noteq> v" using t by simp
  from arrived_branch [OF a _ _ s this, of "fg_world m" fs] a show ?thesis by (auto simp: r0 cmd arrived_def)
qed

text \<open>A yield waits for the next cycle.\<close>

lemma step_yield:
  assumes a: "arrived x m v w" and out: "g_out b v = [(e, t)]" and c: "g_condition b e = ConditionOnce False" and t: "t \<noteq> v"
    and cmd: "g_command b v = CommandNOP" and x: "v \<noteq> x"
  shows "\<exists>m1. cycles (script_graph E b) (f # fs) m = cycles (script_graph E b) fs m1 \<and> arrived x m1 t (f w)"
proof -
  let ?G = "script_graph E b"
  let ?w0 = "(fg_world m)\<lparr>ran := (ran (fg_world m))(e := False)\<rparr>"
  let ?w1 = "?w0\<lparr>ran := (ran ?w0)(e := True)\<rparr>"
  let ?m1 = "m\<lparr>fg_previous := v, fg_world := ?w1\<rparr>"
  let ?m2 = "?m1\<lparr>fg_world := (fg_world ?m1)\<lparr>user := f (user (fg_world ?m1))\<rparr>\<rparr>"
  have m: "fg_current m = v" "running m" "exitv m = x" "user (fg_world m) = w" using a by (simp_all add: arrived_def)
  have r0: "resets (g_condition b) [(e, t)] (fg_world m) = ?w0" by (simp add: resets_def c)
  have v1: "visit ?G m = (True, ?m1)" by (simp add: visit_def script_enter [OF a] r0 cmd m c out)
  have "cycles ?G (f # fs) m = cycles ?G fs ?m2"
    by (rule cycle_wait [OF v1]) (use m x in \<open>simp_all add: running_def\<close>)
  moreover have "visit ?G ?m2 = (True, ?m2\<lparr>fg_current := t\<rparr>)"
  proof -
    have "?m2\<lparr>fg_previous := v\<rparr> = ?m2" by (cases m) simp
    then show ?thesis by (simp add: visit_def enter_vertex_def m cmd c out)
  qed
  then have "cycles ?G fs ?m2 = cycles ?G fs (?m2\<lparr>fg_current := t\<rparr>)"
    by (rule cycle_move) (use m t in \<open>simp_all add: running_def\<close>)
  moreover have "arrived x (?m2\<lparr>fg_current := t\<rparr>) t (f w)" using m t by (simp add: arrived_def running_def)
  ultimately show ?thesis by (intro exI [of _ "?m2\<lparr>fg_current := t\<rparr>"]) simp
qed

text \<open>At the exit vertex, which has no edges, the script stops.\<close>

lemma step_exit:
  assumes a: "arrived x m x w" and out: "g_out b x = []" and cmd: "g_command b x = CommandNOP"
  shows "\<exists>m1. cycles (script_graph E b) fs m = Some m1 \<and> pStatus m1 = PStopped \<and> user (fg_world m1) = w"
proof -
  let ?m1 = "m\<lparr>fg_previous := x\<rparr>"
  have m: "fg_current m = x" "running m" "exitv m = x" "user (fg_world m) = w" using a by (simp_all add: arrived_def)
  have r0: "resets (g_condition b) [] (fg_world m) = fg_world m" by (simp add: resets_def)
  have same: "?m1\<lparr>fg_world := fg_world m\<rparr> = ?m1" by (cases m) simp
  have "visit (script_graph E b) m = (True, ?m1)" by (simp add: visit_def script_enter [OF a] r0 cmd m out same)
  then have "cycles (script_graph E b) fs m = Some (?m1\<lparr>pStatus := PStopped\<rparr>)"
    by (rule cycle_end) (use m in simp_all)
  with m show ?thesis by simp
qed

end
