(* ===== verification/ScriptBuild.thy ===== *)
theory ScriptBuild
  imports ScriptSteps
begin

text \<open>
  What the parser keeps of the graph it builds: the vertices it may still change, the well-formedness of the
  rest, and what each statement adds.
\<close>

section \<open>Open vertices\<close>

definition node :: "('a, 'e) program_parser \<Rightarrow> nat \<Rightarrow> ('a, 'e) command \<times> (nat \<times> nat) list" where
  "node p v = (g_command p v, g_out p v)"

abbreviation blank :: "('a, 'e) command \<times> (nat \<times> nat) list" where
  "blank \<equiv> (CommandNOP, [])"

definition stacked :: "('a, 'e) program_parser \<Rightarrow> nat set" where
  "stacked p = set (branch_stack p) \<union> set (break_stack p)"

definition opens :: "('a, 'e) program_parser \<Rightarrow> nat set" where
  "opens p = {b_build p, b_next p} \<union> stacked p"

definition verts :: "('a, 'e) program_parser \<Rightarrow> nat set" where
  "verts p = set (g_vertices p)"

definition edges_ok :: "('a, 'e) program_parser \<Rightarrow> bool" where
  "edges_ok p \<longleftrightarrow>
     (\<forall>v \<in> verts p. \<forall>(e, t) \<in> set (g_out p v). e < g_ecount p \<and> t \<in> verts p \<and> t \<noteq> b_next p)"

definition ok :: "('a, 'e) program_parser \<Rightarrow> bool" where
  "ok p \<longleftrightarrow>
     opens p \<subseteq> verts p \<and> f_exit p \<in> verts p \<and> f_exit p \<notin> opens p \<and> f_start p \<in> verts p \<and> f_start p \<noteq> f_exit p \<and>
     f_start p \<noteq> b_next p \<and> (\<forall>v \<in> verts p. v < g_vcount p) \<and>
     b_build p \<noteq> b_next p \<and> b_build p \<notin> stacked p \<and> b_next p \<notin> stacked p \<and>
     node p (b_build p) = blank \<and> node p (b_next p) = blank \<and> node p (f_exit p) = blank \<and> edges_ok p"

text \<open>What a statement does to the builder.\<close>

definition grown :: "('a, 'e) program_parser \<Rightarrow> ('a, 'e) program_parser \<Rightarrow> bool" where
  "grown p p' \<longleftrightarrow>
     verts p \<subseteq> verts p' \<and> g_vcount p \<le> g_vcount p' \<and> g_ecount p \<le> g_ecount p' \<and>
     branch_stack p' = branch_stack p \<and> break_stack p' = break_stack p \<and> f_exit p' = f_exit p \<and> f_start p' = f_start p \<and>
     (\<forall>v \<in> {b_build p', b_next p'}. v = b_build p \<or> v = b_next p \<or> g_vcount p \<le> v) \<and>
     (\<forall>v \<in> verts p. v \<noteq> b_build p \<longrightarrow> v \<noteq> b_next p \<longrightarrow> node p' v = node p v) \<and>
     (\<forall>e < g_ecount p. g_condition p' e = g_condition p e)"

text \<open>What later steps leave alone.\<close>

definition ext :: "('a, 'e) program_parser \<Rightarrow> ('a, 'e) program_parser \<Rightarrow> bool" where
  "ext p p' \<longleftrightarrow>
     g_ecount p \<le> g_ecount p' \<and>
     (\<forall>v \<in> verts p. v \<notin> opens p \<longrightarrow> v \<in> verts p' \<and> v \<notin> opens p' \<and> node p' v = node p v) \<and>
     (\<forall>e < g_ecount p. g_condition p' e = g_condition p e)"

lemma ext_trans: "ext p1 p2 \<Longrightarrow> ext p2 p3 \<Longrightarrow> ext p1 p3"
  by (simp add: ext_def)

lemma ext_node:
  assumes "ext p p'" "v \<in> verts p" "v \<notin> opens p"
  shows "g_command p' v = g_command p v" "g_out p' v = g_out p v"
  using assms by (simp_all add: ext_def node_def)

lemma ext_condition: "ext p p' \<Longrightarrow> e < g_ecount p \<Longrightarrow> g_condition p' e = g_condition p e"
  by (simp add: ext_def)

lemma grown_refl [simp]: "grown p p"
  by (simp add: grown_def)

lemma grown_ext:
  assumes g: "grown p p'" and o: "ok p"
  shows "ext p p'"
proof -
  have "v \<notin> opens p'" if v: "v \<in> verts p" "v \<notin> opens p" for v
    using g o v by (auto simp: grown_def ok_def opens_def stacked_def)
  then show ?thesis using g by (auto simp: grown_def ext_def opens_def)
qed

lemma grown_trans:
  assumes a: "grown p1 p2" and b: "grown p2 p3" and o: "ok p1"
  shows "grown p1 p3"
proof -
  have "node p3 v = node p1 v" if v: "v \<in> verts p1" "v \<noteq> b_build p1" "v \<noteq> b_next p1" for v
  proof -
    have "v < g_vcount p1" using o v(1) by (simp add: ok_def)
    then have "v \<noteq> b_build p2" "v \<noteq> b_next p2" using a v by (auto simp: grown_def)
    then show ?thesis using a b v by (auto simp: grown_def)
  qed
  moreover have "v = b_build p1 \<or> v = b_next p1 \<or> g_vcount p1 \<le> v" if v: "v = b_build p3 \<or> v = b_next p3" for v
  proof -
    have "v = b_build p2 \<or> v = b_next p2 \<or> g_vcount p2 \<le> v" using b v by (auto simp: grown_def)
    moreover have "g_vcount p1 \<le> g_vcount p2" using a by (simp add: grown_def)
    ultimately show ?thesis using a by (auto simp: grown_def)
  qed
  moreover have "g_condition p3 e = g_condition p1 e" if "e < g_ecount p1" for e
    using a b that by (simp add: grown_def)
  ultimately show ?thesis using a b unfolding grown_def by auto
qed

lemma edges_step:
  assumes "edges_ok p" and "g_ecount p \<le> g_ecount p'" and "verts p \<subseteq> verts p'"
    and "b_next p' = b_next p \<or> b_next p' \<notin> verts p"
    and "\<And>v e t. v \<in> verts p' \<Longrightarrow> (e, t) \<in> set (g_out p' v) \<Longrightarrow>
      v \<in> verts p \<and> (e, t) \<in> set (g_out p v) \<or> e < g_ecount p' \<and> t \<in> verts p' \<and> t \<noteq> b_next p'"
  shows "edges_ok p'"
  using assms unfolding edges_ok_def by fastforce

lemmas builder_defs = proceedToNext_if_def proceedToNext_def setCommand_def add_edge_def add_vertex_def
  addConditionEdge_def moveTo_def

lemmas view_defs = node_def stacked_def opens_def verts_def

text \<open>A command whose vertex leads to the next one.\<close>

lemma emit:
  fixes p :: "('a, 'e) program_parser" and c com
  assumes o: "ok p"
  defines "p' \<equiv> proceedToNext_if c (setCommand com p)"
  shows "ok p'" "grown p p'" "b_build p' = b_next p" "b_build p \<in> verts p'" "b_build p \<notin> opens p'"
    "g_command p' (b_build p) = com" "g_out p' (b_build p) = [(g_ecount p, b_next p)]" "g_ecount p < g_ecount p'"
    "g_condition p' (g_ecount p) = c" "try_cond p' = try_cond p" "for_init_command p' = for_init_command p"
    "for_incr_command p' = for_incr_command p"
proof -
  have "edges_ok p'"
    by (rule edges_step [of p]) (use o in \<open>auto simp: p'_def ok_def view_defs builder_defs split: if_splits\<close>)
  then show "ok p'" using o by (auto simp: p'_def ok_def view_defs builder_defs)
  show "grown p p'" using o by (auto simp: p'_def grown_def ok_def view_defs builder_defs)
  show "b_build p \<notin> opens p'" using o by (auto simp: p'_def ok_def view_defs builder_defs)
  show "b_build p' = b_next p" "b_build p \<in> verts p'" "g_command p' (b_build p) = com"
    "g_out p' (b_build p) = [(g_ecount p, b_next p)]" "g_ecount p < g_ecount p'"
    "g_condition p' (g_ecount p) = c" "try_cond p' = try_cond p" "for_init_command p' = for_init_command p"
    "for_incr_command p' = for_incr_command p"
    using o by (auto simp: p'_def ok_def view_defs builder_defs)
qed

text \<open>A jump to a known vertex.\<close>

lemma jump:
  fixes p :: "('a, 'e) program_parser" and t
  assumes o: "ok p" and t: "t \<in> verts p" "t \<noteq> b_next p"
  defines "p' \<equiv> proceedToNext (addConditionEdge ConditionTrue t p)"
  shows "ok p'" "grown p p'" "b_build p \<in> verts p'" "b_build p \<notin> opens p'"
    "g_command p' (b_build p) = CommandNOP" "g_out p' (b_build p) = [(g_ecount p, t)]" "g_ecount p < g_ecount p'"
    "g_condition p' (g_ecount p) = ConditionTrue" "for_incr_command p' = for_incr_command p"
proof -
  have "edges_ok p'"
    by (rule edges_step [of p]) (use o t in \<open>auto simp: p'_def ok_def view_defs builder_defs split: if_splits\<close>)
  then show "ok p'" using o t by (auto simp: p'_def ok_def view_defs builder_defs)
  show "grown p p'" using o by (auto simp: p'_def grown_def ok_def view_defs builder_defs)
  show "b_build p \<notin> opens p'" using o by (auto simp: p'_def ok_def view_defs builder_defs)
  show "b_build p \<in> verts p'" "g_command p' (b_build p) = CommandNOP"
    "g_out p' (b_build p) = [(g_ecount p, t)]" "g_ecount p < g_ecount p'" "g_condition p' (g_ecount p) = ConditionTrue"
    "for_incr_command p' = for_incr_command p"
    using o by (auto simp: p'_def ok_def view_defs builder_defs)
qed

section \<open>Branches and loops\<close>

text \<open>Everything that is not one of the vertices in \<open>changed\<close> is as it was.\<close>

definition others_same :: "nat set \<Rightarrow> ('a, 'e) program_parser \<Rightarrow> ('a, 'e) program_parser \<Rightarrow> bool" where
  "others_same changed p p' \<longleftrightarrow>
     verts p \<subseteq> verts p' \<and> g_vcount p \<le> g_vcount p' \<and> g_ecount p \<le> g_ecount p' \<and>
     f_exit p' = f_exit p \<and> f_start p' = f_start p \<and>
     (\<forall>v \<in> verts p. v \<notin> changed \<longrightarrow> node p' v = node p v) \<and> (\<forall>e < g_ecount p. g_condition p' e = g_condition p e)"

lemma others_same_trans:
  "others_same A p1 p2 \<Longrightarrow> others_same B p2 p3 \<Longrightarrow> others_same (A \<union> B) p1 p3"
  unfolding others_same_def by auto

lemma grown_others_same: "grown p p' \<Longrightarrow> others_same {b_build p, b_next p} p p'"
  by (simp add: grown_def others_same_def)

lemma others_same_ext:
  assumes "others_same A p p'" and "A \<inter> verts p \<subseteq> opens p" and "opens p' \<inter> verts p \<subseteq> opens p"
  shows "ext p p'"
  using assms by (auto simp: others_same_def ext_def)

text \<open>Back to the stacks the statement began with.\<close>

lemma others_same_grown:
  assumes "others_same A p p'" and "A \<inter> verts p \<subseteq> {b_build p, b_next p}"
    and "\<And>v. v = b_build p' \<or> v = b_next p' \<Longrightarrow> v = b_build p \<or> v = b_next p \<or> g_vcount p \<le> v"
    and "branch_stack p' = branch_stack p" "break_stack p' = break_stack p"
  shows "grown p p'"
  using assms unfolding others_same_def grown_def by auto

lemma ok_fresh:
  assumes "ok p" and "g_vcount p \<le> k"
  shows "k \<notin> set (g_vertices p)" "k \<notin> set (branch_stack p)" "k \<notin> set (break_stack p)" "k \<noteq> b_build p" "k \<noteq> b_next p"
    "k \<noteq> f_exit p" "k \<noteq> f_start p"
proof -
  have k: "k \<notin> verts p" using assms by (auto simp: ok_def)
  then show "k \<notin> set (g_vertices p)" by (simp add: verts_def)
  show "k \<notin> set (branch_stack p)" "k \<notin> set (break_stack p)" "k \<noteq> b_build p" "k \<noteq> b_next p" "k \<noteq> f_exit p" "k \<noteq> f_start p"
    using k assms(1) by (auto simp: ok_def opens_def stacked_def)
qed

lemma start_if:
  fixes p :: "('a, 'e) program_parser" and c com
  assumes o: "ok p"
  defines "p' \<equiv> startIfStatement c (setCommand com p)"
  defines "n \<equiv> g_vcount p"
  shows "ok p'" "others_same {b_build p} p p'" "b_build p' = b_next p" "b_next p' = Suc (Suc n)"
    "branch_stack p' = Suc n # n # branch_stack p" "break_stack p' = break_stack p"
    "for_incr_command p' = for_incr_command p" "try_cond p' = try_cond p" "g_vcount p' = Suc (Suc (Suc n))"
    "node p' (b_build p) = (com, [(g_ecount p, b_next p), (Suc (g_ecount p), n)])"
    "g_condition p' (g_ecount p) = c" "g_condition p' (Suc (g_ecount p)) = ConditionTrue" "g_ecount p' = Suc (Suc (g_ecount p))"
    "node p' n = blank" "node p' (Suc n) = blank" "b_build p \<notin> opens p'" "n \<in> verts p'" "Suc n \<in> verts p'"
proof -
  note fresh = ok_fresh [OF o, of n] ok_fresh [OF o, of "Suc n"] ok_fresh [OF o, of "Suc (Suc n)"]
  have "edges_ok p'"
    by (rule edges_step [of p])
      (use o in \<open>auto simp: p'_def n_def ok_def view_defs builder_defs startIfStatement_def split: if_splits\<close>)
  then show "ok p'" using o fresh by (auto simp: p'_def n_def ok_def view_defs builder_defs startIfStatement_def)
  show "others_same {b_build p} p p'"
    using o by (auto simp: p'_def n_def others_same_def ok_def view_defs builder_defs startIfStatement_def)
  show "b_build p \<notin> opens p'"
    using o by (auto simp: p'_def n_def ok_def view_defs builder_defs startIfStatement_def)
  have "b_build p < n" "b_next p < n" "b_build p \<noteq> b_next p" "g_out p (b_build p) = []"
    using o by (auto simp: n_def ok_def view_defs)
  then show "b_build p' = b_next p" "b_next p' = Suc (Suc n)"
    "branch_stack p' = Suc n # n # branch_stack p" "break_stack p' = break_stack p"
    "for_incr_command p' = for_incr_command p" "try_cond p' = try_cond p" "g_vcount p' = Suc (Suc (Suc n))"
    "node p' (b_build p) = (com, [(g_ecount p, b_next p), (Suc (g_ecount p), n)])"
    "g_condition p' (g_ecount p) = c" "g_condition p' (Suc (g_ecount p)) = ConditionTrue" "g_ecount p' = Suc (Suc (g_ecount p))"
    "node p' n = blank" "node p' (Suc n) = blank" "n \<in> verts p'" "Suc n \<in> verts p'"
    by (simp_all add: p'_def n_def view_defs builder_defs startIfStatement_def)
qed

lemma end_if:
  assumes o: "ok p" and st: "branch_stack p = after # els # rest" and d: "els \<noteq> after" "els \<notin> set rest" "els \<notin> set (break_stack p)"
    and b: "node p els = blank"
  obtains p' where "endIfBlock p = Some p'" "ok p'" "others_same {b_build p} p p'" "b_build p' = els" "b_next p' = b_next p"
    "branch_stack p' = after # rest" "break_stack p' = break_stack p" "for_incr_command p' = for_incr_command p"
    "g_vcount p' = g_vcount p" "node p' (b_build p) = (CommandNOP, [(g_ecount p, after)])"
    "g_condition p' (g_ecount p) = ConditionTrue" "g_ecount p' = Suc (g_ecount p)" "b_build p \<notin> opens p'"
proof -
  let ?p = "(moveTo els (b_next p) (addConditionEdge ConditionTrue after p))\<lparr>branch_stack := after # rest\<rparr>"
  have s: "els \<in> verts p" "after \<in> verts p" "b_build p \<in> verts p" "els \<noteq> b_build p" "els \<noteq> b_next p" "after \<noteq> b_next p"
      "b_build p \<noteq> after" "b_build p \<noteq> b_next p" "f_exit p \<noteq> els"
    using o st by (auto simp: ok_def opens_def stacked_def)
  have "edges_ok ?p"
    by (rule edges_step [of p]) (use o s in \<open>auto simp: ok_def view_defs builder_defs split: if_splits\<close>)
  then have "ok ?p" using o s d b st by (auto simp: ok_def view_defs builder_defs)
  moreover have "others_same {b_build p} p ?p" using o by (auto simp: others_same_def view_defs builder_defs)
  moreover have "b_build p \<notin> opens ?p" using o s st by (auto simp: ok_def view_defs builder_defs)
  moreover have "g_out p (b_build p) = []" "g_command p (b_build p) = CommandNOP" using o by (simp_all add: ok_def node_def)
  ultimately show thesis using st by (intro that [of ?p]) (simp_all add: endIfBlock_def node_def builder_defs)
qed

lemma end_else:
  assumes o: "ok p" and st: "branch_stack p = after # rest" and d: "after \<notin> set rest" "after \<notin> set (break_stack p)"
    and b: "node p after = blank"
  obtains p' where "endElseBlock p = Some p'" "ok p'" "others_same {b_build p} p p'" "b_build p' = after" "b_next p' = b_next p"
    "branch_stack p' = rest" "break_stack p' = break_stack p" "for_incr_command p' = for_incr_command p"
    "g_vcount p' = g_vcount p" "node p' (b_build p) = (CommandNOP, [(g_ecount p, after)])"
    "g_condition p' (g_ecount p) = ConditionTrue" "g_ecount p' = Suc (g_ecount p)" "b_build p \<notin> opens p'"
proof -
  let ?p = "(moveTo after (b_next p) (addConditionEdge ConditionTrue after p))\<lparr>branch_stack := rest\<rparr>"
  have s: "after \<in> verts p" "b_build p \<in> verts p" "after \<noteq> b_next p"
      "b_build p \<noteq> after" "b_build p \<noteq> b_next p" "f_exit p \<noteq> after"
    using o st by (auto simp: ok_def opens_def stacked_def)
  have "edges_ok ?p"
    by (rule edges_step [of p]) (use o s in \<open>auto simp: ok_def view_defs builder_defs split: if_splits\<close>)
  then have "ok ?p" using o s d b st by (auto simp: ok_def view_defs builder_defs)
  moreover have "others_same {b_build p} p ?p" using o by (auto simp: others_same_def view_defs builder_defs)
  moreover have "b_build p \<notin> opens ?p" using o s st by (auto simp: ok_def view_defs builder_defs)
  moreover have "g_out p (b_build p) = []" "g_command p (b_build p) = CommandNOP" using o by (simp_all add: ok_def node_def)
  ultimately show thesis using st by (intro that [of ?p]) (simp_all add: endElseBlock_def node_def builder_defs)
qed

lemma start_while:
  fixes p :: "('a, 'e) program_parser" and c com
  assumes o: "ok p"
  defines "p' \<equiv> startWhileStatement c (setCommand com p)"
  defines "n \<equiv> g_vcount p"
  shows "ok p'" "others_same {b_build p} p p'" "b_build p' = b_next p" "b_next p' = Suc n"
    "branch_stack p' = b_build p # n # branch_stack p" "break_stack p' = n # break_stack p"
    "for_incr_command p' = for_incr_command p" "g_vcount p' = Suc (Suc n)"
    "node p' (b_build p) = (com, [(g_ecount p, b_next p), (Suc (g_ecount p), n)])"
    "g_condition p' (g_ecount p) = c" "g_condition p' (Suc (g_ecount p)) = ConditionTrue" "g_ecount p' = Suc (Suc (g_ecount p))"
    "node p' n = blank" "n \<in> verts p'"
proof -
  note fresh = ok_fresh [OF o, of n] ok_fresh [OF o, of "Suc n"]
  have "edges_ok p'"
    by (rule edges_step [of p])
      (use o in \<open>auto simp: p'_def n_def ok_def view_defs builder_defs startWhileStatement_def split: if_splits\<close>)
  then show "ok p'" using o fresh by (auto simp: p'_def n_def ok_def view_defs builder_defs startWhileStatement_def)
  show "others_same {b_build p} p p'"
    using o by (auto simp: p'_def n_def others_same_def ok_def view_defs builder_defs startWhileStatement_def)
  have "b_build p < n" "b_next p < n" "b_build p \<noteq> b_next p" "g_out p (b_build p) = []"
    using o by (auto simp: n_def ok_def view_defs)
  then show "b_build p' = b_next p" "b_next p' = Suc n"
    "branch_stack p' = b_build p # n # branch_stack p" "break_stack p' = n # break_stack p"
    "for_incr_command p' = for_incr_command p" "g_vcount p' = Suc (Suc n)"
    "node p' (b_build p) = (com, [(g_ecount p, b_next p), (Suc (g_ecount p), n)])"
    "g_condition p' (g_ecount p) = c" "g_condition p' (Suc (g_ecount p)) = ConditionTrue" "g_ecount p' = Suc (Suc (g_ecount p))"
    "node p' n = blank" "n \<in> verts p'"
    by (simp_all add: p'_def n_def view_defs builder_defs startWhileStatement_def)
qed

lemma end_while:
  assumes o: "ok p" and st: "branch_stack p = start # after # rest" "break_stack p = after # rest'"
    and d: "after \<noteq> start" "after \<notin> set rest" "after \<notin> set rest'" and b: "node p after = blank"
  obtains p' where "endWhileBlock p = Some p'" "ok p'" "others_same {b_build p} p p'" "b_build p' = after" "b_next p' = b_next p"
    "branch_stack p' = rest" "break_stack p' = rest'" "for_incr_command p' = for_incr_command p"
    "g_vcount p' = g_vcount p" "node p' (b_build p) = (CommandNOP, [(g_ecount p, start)])"
    "g_condition p' (g_ecount p) = ConditionTrue" "g_ecount p' = Suc (g_ecount p)" "b_build p \<notin> opens p'"
proof -
  let ?p = "(moveTo after (b_next p) (addConditionEdge ConditionTrue start p))\<lparr>branch_stack := rest, break_stack := rest'\<rparr>"
  have s: "after \<in> verts p" "start \<in> verts p" "b_build p \<in> verts p" "after \<noteq> b_next p" "start \<noteq> b_next p"
      "b_build p \<noteq> after" "b_build p \<noteq> b_next p" "f_exit p \<noteq> after"
    using o st by (auto simp: ok_def opens_def stacked_def)
  have "edges_ok ?p"
    by (rule edges_step [of p]) (use o s in \<open>auto simp: ok_def view_defs builder_defs split: if_splits\<close>)
  then have "ok ?p" using o s d b st by (auto simp: ok_def view_defs builder_defs)
  moreover have "others_same {b_build p} p ?p" using o by (auto simp: others_same_def view_defs builder_defs)
  moreover have "b_build p \<notin> opens ?p" using o s st by (auto simp: ok_def view_defs builder_defs)
  moreover have "g_out p (b_build p) = []" "g_command p (b_build p) = CommandNOP" using o by (simp_all add: ok_def node_def)
  ultimately show thesis using st by (intro that [of ?p]) (simp_all add: endWhileBlock_def node_def builder_defs)
qed

section \<open>Statements with blocks\<close>

text \<open>The graph of a loop, from its first vertex, the graph of its body and its end.\<close>

lemma loop_struct:
  fixes p :: "('a, 'e) program_parser"
  assumes o: "ok p" and r: "ok r" "grown (seenwhilestatement e p) r"
  obtains p' where "endWhileBlock r = Some p'" "ok p'" "grown p p'" "for_incr_command p' = for_incr_command r" "ext r p'"
    "b_build p \<in> verts p'" "b_build p \<notin> opens p'"
    "node p' (b_build p) = (EvalCommand (b_build p) e, [(g_ecount p, b_next p), (Suc (g_ecount p), b_build p')])"
    "g_condition p' (g_ecount p) = EvalCommandResult (b_build p)" "g_condition p' (Suc (g_ecount p)) = ConditionTrue"
    "Suc (g_ecount p) < g_ecount p'"
    "b_build r \<in> verts p'" "b_build r \<notin> opens p'" "node p' (b_build r) = (CommandNOP, [(g_ecount r, b_build p)])"
    "g_condition p' (g_ecount r) = ConditionTrue" "g_ecount r < g_ecount p'"
    "b_build p' \<noteq> b_build p" "b_next p \<noteq> b_build p" "b_build r \<noteq> b_build p"
    "break_stack r = b_build p' # break_stack p"
proof -
  define q where "q = seenwhilestatement e p"
  define n where "n = g_vcount p"
  note q = start_while [OF o, of "EvalCommandResult (b_build p)" "EvalCommand (b_build p) e",
      folded seenwhilestatement_def, folded q_def, folded n_def]
  note fresh = ok_fresh [OF o, of n, folded n_def] ok_fresh [OF o, of "Suc n", folded n_def]
  have g: "grown q r" using r(2) by (simp add: q_def)
  have bn: "b_build p \<noteq> b_next p" "b_build p \<in> verts p" "b_next p \<in> verts p" using o by (auto simp: ok_def opens_def)
  then have lt: "b_build p < n" "b_next p < n" using o by (auto simp: ok_def n_def)
  have st: "branch_stack r = b_build p # n # branch_stack p" "break_stack r = n # break_stack p"
    using g q(5,6) by (simp_all add: grown_def)
  have rb: "b_build r = b_next p \<or> b_build r \<ge> Suc n" "b_next r = b_next p \<or> b_next r \<ge> Suc n"
    using g q(3,4,8) by (auto simp: grown_def)
  have keep: "node r v = node q v" if "v \<in> verts q" "v \<noteq> b_next p" "v \<noteq> Suc n" for v
    using g that q(3,4) by (simp add: grown_def)
  have vq: "verts p \<subseteq> verts q" "verts q \<subseteq> verts r" using q(2) g by (simp_all add: others_same_def grown_def)
  have nr: "node r n = blank" using keep [of n] q(13,14) lt by simp
  have pr: "node r (b_build p) = node q (b_build p)" using keep [of "b_build p"] bn vq lt by auto
  obtain p' where p': "endWhileBlock r = Some p'" "ok p'" "others_same {b_build r} r p'" "b_build p' = n" "b_next p' = b_next r"
    "branch_stack p' = branch_stack p" "break_stack p' = break_stack p" "for_incr_command p' = for_incr_command r"
    "g_vcount p' = g_vcount r" "node p' (b_build r) = (CommandNOP, [(g_ecount r, b_build p)])"
    "g_condition p' (g_ecount r) = ConditionTrue" "g_ecount p' = Suc (g_ecount r)" "b_build r \<notin> opens p'"
    using end_while [OF r(1) st] lt fresh nr by auto
  have os: "others_same ({b_build p} \<union> {b_build q, b_next q} \<union> {b_build r}) p p'"
    using others_same_trans [OF others_same_trans [OF q(2) grown_others_same [OF g]] p'(3)] .
  have gp: "grown p p'"
  proof (rule others_same_grown [OF os])
    show "({b_build p} \<union> {b_build q, b_next q} \<union> {b_build r}) \<inter> verts p \<subseteq> {b_build p, b_next p}"
      using q(3,4) rb o by (auto simp: ok_def n_def)
    show "v = b_build p \<or> v = b_next p \<or> g_vcount p \<le> v" if "v = b_build p' \<or> v = b_next p'" for v
      using that p'(4,5) rb n_def by auto
  qed (simp_all add: p')
  have rv: "b_build r \<in> verts r" using r(1) by (auto simp: ok_def opens_def)
  have c: "g_condition r k = g_condition q k" if "k < g_ecount q" for k using g that by (simp add: grown_def)
  have ec: "g_ecount q \<le> g_ecount r" using g by (simp add: grown_def)
  have c': "g_condition p' k = g_condition r k" if "k < g_ecount r" for k using p'(3) that by (simp add: others_same_def)
  have bp: "b_build p \<noteq> b_build r" using rb lt bn by auto
  show thesis
  proof (rule that [OF p'(1,2) gp p'(8)])
    show "ext r p'"
    proof (rule others_same_ext [OF p'(3)])
      show "opens p' \<inter> verts r \<subseteq> opens r" using p'(4-7) st by (auto simp: opens_def stacked_def)
    qed (auto simp: opens_def)
    show "b_build p \<in> verts p'" using vq bn p'(3) by (auto simp: others_same_def)
    show "b_build p \<notin> opens p'" using p'(4-7) rb lt bn o by (auto simp: opens_def stacked_def ok_def)
    show "node p' (b_build p) = (EvalCommand (b_build p) e, [(g_ecount p, b_next p), (Suc (g_ecount p), b_build p')])"
      using p'(3,4) pr q(9) bp vq bn by (auto simp: others_same_def)
    show "g_condition p' (g_ecount p) = EvalCommandResult (b_build p)" "g_condition p' (Suc (g_ecount p)) = ConditionTrue"
      using c' [of "g_ecount p"] c [of "g_ecount p"] c' [of "Suc (g_ecount p)"] c [of "Suc (g_ecount p)"] q(10-12) ec by simp_all
    show "Suc (g_ecount p) < g_ecount p'" using ec q(12) p'(12) by simp
    show "b_build r \<in> verts p'" using rv p'(3) by (auto simp: others_same_def)
    show "g_ecount r < g_ecount p'" using p'(12) by simp
    show "b_build p' \<noteq> b_build p" using p'(4) lt by simp
    show "b_next p \<noteq> b_build p" "b_build r \<noteq> b_build p" using bn bp by simp_all
    show "break_stack r = b_build p' # break_stack p" using st p'(4) by simp
  qed (rule p'(13), rule p'(10), rule p'(11))
qed

text \<open>The graph of a branch: its first vertex, the graph of the block, its end, the graph of the else block, and the
  end of that.\<close>

definition branch_nodes :: "edge_condition \<Rightarrow> ('a, 'e) command \<Rightarrow> ('a, 'e) program_parser \<Rightarrow> ('a, 'e) program_parser \<Rightarrow>
    ('a, 'e) program_parser \<Rightarrow> ('a, 'e) program_parser \<Rightarrow> ('a, 'e) program_parser \<Rightarrow> bool" where
  "branch_nodes c com p r u u' p' \<longleftrightarrow>
     {b_build p, b_build r, b_build u'} \<subseteq> verts p' \<and> {b_build p, b_build r, b_build u'} \<inter> opens p' = {} \<and>
     node p' (b_build p) = (com, [(g_ecount p, b_next p), (Suc (g_ecount p), b_build u)]) \<and>
     g_condition p' (g_ecount p) = c \<and> g_condition p' (Suc (g_ecount p)) = ConditionTrue \<and>
     node p' (b_build r) = (CommandNOP, [(g_ecount r, b_build p')]) \<and> g_condition p' (g_ecount r) = ConditionTrue \<and>
     node p' (b_build u') = (CommandNOP, [(g_ecount u', b_build p')]) \<and> g_condition p' (g_ecount u') = ConditionTrue \<and>
     Suc (g_ecount p) < g_ecount p' \<and> g_ecount r < g_ecount p' \<and> g_ecount u' < g_ecount p' \<and>
     b_next p \<noteq> b_build p \<and> b_build u \<noteq> b_build p \<and> b_build p' \<noteq> b_build r \<and> b_build p' \<noteq> b_build u'"

lemma if_struct:
  fixes p :: "('a, 'e) program_parser"
  assumes o: "ok p" and r: "ok r" "grown (startIfStatement c (setCommand com p)) r"
  obtains u where "endIfBlock r = Some u" "ok u" "ext r u" "for_incr_command u = for_incr_command r"
    "break_stack r = break_stack p" "break_stack u = break_stack p"
    "\<forall>u'. ok u' \<and> grown u u' \<longrightarrow>
       (\<exists>p'. endElseBlock u' = Some p' \<and> ok p' \<and> grown p p' \<and> for_incr_command p' = for_incr_command u' \<and> ext u' p' \<and>
         branch_nodes c com p r u u' p')"
proof -
  define q where "q = startIfStatement c (setCommand com p)"
  define n where "n = g_vcount p"
  note q = start_if [OF o, of c com, folded q_def, folded n_def]
  note fresh = ok_fresh [OF o, of n, folded n_def] ok_fresh [OF o, of "Suc n", folded n_def] ok_fresh [OF o, of "Suc (Suc n)", folded n_def]
  have g: "grown q r" using r(2) by (simp add: q_def)
  have bn: "b_build p \<noteq> b_next p" "b_build p \<in> verts p" "b_next p \<in> verts p" using o by (auto simp: ok_def opens_def)
  then have lt: "b_build p < n" "b_next p < n" using o by (auto simp: ok_def n_def)
  have st: "branch_stack r = Suc n # n # branch_stack p" "break_stack r = break_stack p"
    using g q(5,6) by (simp_all add: grown_def)
  have rb: "b_build r = b_next p \<or> b_build r \<ge> Suc (Suc n)" "b_next r = b_next p \<or> b_next r \<ge> Suc (Suc n)"
    using g q(3,4,9) by (auto simp: grown_def)
  have keep: "node r v = node q v" if "v \<in> verts q" "v \<noteq> b_next p" "v \<noteq> Suc (Suc n)" for v
    using g that q(3,4) by (simp add: grown_def)
  have vq: "verts p \<subseteq> verts q" "verts q \<subseteq> verts r" using q(2) g by (simp_all add: others_same_def grown_def)
  have nr: "node r n = blank" "node r (Suc n) = blank" using keep [of n] keep [of "Suc n"] q(14,15,17,18) lt by simp_all
  have pr: "node r (b_build p) = node q (b_build p)" using keep [of "b_build p"] bn vq lt by auto
  have sv: "n \<in> verts r" "Suc n \<in> verts r" using q(17,18) vq by auto
  obtain u where u: "endIfBlock r = Some u" "ok u" "others_same {b_build r} r u" "b_build u = n" "b_next u = b_next r"
    "branch_stack u = Suc n # branch_stack p" "break_stack u = break_stack r" "for_incr_command u = for_incr_command r"
    "g_vcount u = g_vcount r" "node u (b_build r) = (CommandNOP, [(g_ecount r, Suc n)])"
    "g_condition u (g_ecount r) = ConditionTrue" "g_ecount u = Suc (g_ecount r)" "b_build r \<notin> opens u"
    using end_if [OF r(1) st(1) _ _ _ nr(1)] fresh st(2) by auto
  have ru: "ext r u"
  proof (rule others_same_ext [OF u(3)])
    show "opens u \<inter> verts r \<subseteq> opens r" using u(4-7) st by (auto simp: opens_def stacked_def)
  qed (auto simp: opens_def)
  have rv: "b_build r \<in> verts r" using r(1) by (auto simp: ok_def opens_def)
  have vr: "g_vcount q \<le> g_vcount r" using g by (simp add: grown_def)
  show thesis
  proof (rule that [OF u(1,2) ru u(8) st(2)])
    show "break_stack u = break_stack p" using u(7) st(2) by simp
    show "\<forall>u'. ok u' \<and> grown u u' \<longrightarrow>
       (\<exists>p'. endElseBlock u' = Some p' \<and> ok p' \<and> grown p p' \<and> for_incr_command p' = for_incr_command u' \<and> ext u' p' \<and>
         branch_nodes c com p r u u' p')"
  proof (intro allI impI)
    fix u'
    assume u': "ok u' \<and> grown u u'"
    then have o': "ok u'" and gu: "grown u u'" by simp_all
    have st': "branch_stack u' = Suc n # branch_stack p" "break_stack u' = break_stack p"
      using gu u(6,7) st(2) by (simp_all add: grown_def)
    have ub: "b_build u' = n \<or> b_build u' = b_next r \<or> b_build u' \<ge> g_vcount r" "b_next u' = n \<or> b_next u' = b_next r \<or> b_next u' \<ge> g_vcount r"
      using gu u(4,5,9) by (auto simp: grown_def)
    have keep': "node u' v = node u v" if "v \<in> verts u" "v \<noteq> n" "v \<noteq> b_next r" for v
      using gu that u(4,5) by (simp add: grown_def)
    have vu: "verts r \<subseteq> verts u" "verts u \<subseteq> verts u'" using u(3) gu by (simp_all add: others_same_def grown_def)
    have ur: "node u v = node r v" if "v \<in> verts r" "v \<noteq> b_build r" for v
      using u(3) that by (simp add: others_same_def)
    have ne: "Suc n \<noteq> b_next r" "Suc n \<noteq> b_build r" "b_build p \<noteq> b_next r" "b_build p \<noteq> b_build r" "b_build r \<noteq> b_next r"
      "b_build r \<noteq> n"
      using rb lt bn r(1) by (auto simp: ok_def)
    have nu: "node u' (Suc n) = blank" using keep' [of "Suc n"] ur [of "Suc n"] nr(2) sv vu ne by auto
    obtain p' where p': "endElseBlock u' = Some p'" "ok p'" "others_same {b_build u'} u' p'" "b_build p' = Suc n"
      "b_next p' = b_next u'" "branch_stack p' = branch_stack p" "break_stack p' = break_stack u'"
      "for_incr_command p' = for_incr_command u'" "node p' (b_build u') = (CommandNOP, [(g_ecount u', Suc n)])"
      "g_condition p' (g_ecount u') = ConditionTrue" "g_ecount p' = Suc (g_ecount u')" "b_build u' \<notin> opens p'"
      using end_else [OF o' st'(1) _ _ nu] fresh st'(2) by auto
    have os: "others_same ({b_build p} \<union> {b_build q, b_next q} \<union> {b_build r} \<union> {b_build u, b_next u} \<union> {b_build u'}) p p'"
      using others_same_trans [OF others_same_trans [OF others_same_trans [OF others_same_trans [OF q(2)
        grown_others_same [OF g]] u(3)] grown_others_same [OF gu]] p'(3)] .
    have small: "v \<in> verts p \<Longrightarrow> v < n" for v using o by (auto simp: ok_def n_def)
    have gp: "grown p p'"
    proof (rule others_same_grown [OF os])
      show "({b_build p} \<union> {b_build q, b_next q} \<union> {b_build r} \<union> {b_build u, b_next u} \<union> {b_build u'}) \<inter> verts p
          \<subseteq> {b_build p, b_next p}"
        using q(3,4,9) rb u(4,5) ub vr by (auto dest: small)
      show "v = b_build p \<or> v = b_next p \<or> g_vcount p \<le> v" if "v = b_build p' \<or> v = b_next p'" for v
        using that p'(4,5) ub rb vr q(9) n_def by auto
    qed (simp_all add: p' st')
    have up: "ext u' p'"
    proof (rule others_same_ext [OF p'(3)])
      show "opens p' \<inter> verts u' \<subseteq> opens u'" using p'(4-7) st' by (auto simp: opens_def stacked_def)
    qed (auto simp: opens_def)
    have uu: "ext u u'" by (rule grown_ext [OF gu u(2)])
    have rr: "b_build r \<in> verts u" "b_build r \<notin> opens u" using rv vu u(13) by auto
    have pp: "b_build p \<in> verts r" "b_build p \<notin> opens r"
      using bn vq grown_ext [OF g q(1)] q(16) by (auto simp: ext_def)
    have ext': "ext u p'" using ext_trans [OF uu up] .
    have extp: "ext r p'" using ext_trans [OF ru ext'] .
    have ec: "Suc (g_ecount p) < g_ecount r" "g_ecount r < g_ecount u'" 
      using q(13) g u(12) gu by (simp_all add: grown_def)
    have cr: "g_condition r k = g_condition q k" if "k < g_ecount q" for k using g that by (simp add: grown_def)
    have "branch_nodes c com p r u u' p'"
      unfolding branch_nodes_def
    proof (intro conjI)
      show "{b_build p, b_build r, b_build u'} \<subseteq> verts p'"
        using extp ext' pp rr o' p'(3) by (auto simp: ext_def others_same_def ok_def opens_def)
      show "{b_build p, b_build r, b_build u'} \<inter> opens p' = {}"
        using extp ext' pp rr p'(12) by (auto simp: ext_def)
      show "node p' (b_build p) = (com, [(g_ecount p, b_next p), (Suc (g_ecount p), b_build u)])"
        using extp pp pr q(10) u(4) by (simp add: ext_def)
      show "g_condition p' (g_ecount p) = c" "g_condition p' (Suc (g_ecount p)) = ConditionTrue"
        using ext_condition [OF extp, of "g_ecount p"] ext_condition [OF extp, of "Suc (g_ecount p)"] ec
          cr [of "g_ecount p"] cr [of "Suc (g_ecount p)"] q(11-13) by simp_all
      show "node p' (b_build r) = (CommandNOP, [(g_ecount r, b_build p')])"
        using ext' rr u(10) p'(4) by (simp add: ext_def)
      show "g_condition p' (g_ecount r) = ConditionTrue"
        using ext_condition [OF ext', of "g_ecount r"] u(11,12) by simp
      show "node p' (b_build u') = (CommandNOP, [(g_ecount u', b_build p')])" using p'(4,9) by simp
      show "g_condition p' (g_ecount u') = ConditionTrue" by (rule p'(10))
      show "Suc (g_ecount p) < g_ecount p'" "g_ecount r < g_ecount p'" "g_ecount u' < g_ecount p'" using ec p'(11) by simp_all
      show "b_next p \<noteq> b_build p" "b_build u \<noteq> b_build p" "b_build p' \<noteq> b_build r" using bn u(4) p'(4) lt ne by auto
      show "b_build p' \<noteq> b_build u'" using p'(4) o' st'(1) by (auto simp: ok_def stacked_def)
    qed
    with p'(1,2,8) gp up show "\<exists>p'. endElseBlock u' = Some p' \<and> ok p' \<and> grown p p' \<and>
        for_incr_command p' = for_incr_command u' \<and> ext u' p' \<and> branch_nodes c com p r u u' p'" by blast
  qed
  qed
qed

end
