(* ===== verification/ScriptCompile.thy ===== *)
theory ScriptCompile
  imports ScriptBuild
begin

text \<open>
  The graph that the parser builds does what the script says: every statement of the source is simulated by
  the part of the graph that was built for it.
\<close>

section \<open>Parsing keeps the builder well-formed\<close>

lemma parser_fields [simp]:
  "ok (p\<lparr>for_init_command := i\<rparr>) = ok p" "ok (p\<lparr>for_incr_command := l\<rparr>) = ok p" "ok (p\<lparr>try_cond := c\<rparr>) = ok p"
  "grown p (p'\<lparr>for_init_command := i\<rparr>) = grown p p'" "grown p (p'\<lparr>for_incr_command := l\<rparr>) = grown p p'"
  "grown p (p'\<lparr>try_cond := c\<rparr>) = grown p p'"
  "grown (p\<lparr>for_init_command := i\<rparr>) p' = grown p p'" "grown (p\<lparr>for_incr_command := l\<rparr>) p' = grown p p'"
  "grown (p\<lparr>try_cond := c\<rparr>) p' = grown p p'"
  "ext p (p'\<lparr>for_init_command := i\<rparr>) = ext p p'" "ext p (p'\<lparr>for_incr_command := l\<rparr>) = ext p p'"
  "ext p (p'\<lparr>try_cond := c\<rparr>) = ext p p'"
  "ext (p\<lparr>for_init_command := i\<rparr>) p' = ext p p'" "ext (p\<lparr>for_incr_command := l\<rparr>) p' = ext p p'"
  "ext (p\<lparr>try_cond := c\<rparr>) p' = ext p p'"
  by (simp_all add: ok_def grown_def ext_def node_def opens_def stacked_def verts_def edges_ok_def)

text \<open>An optional action: the initialisation and the increment of a loop, a value change, the value of a return.\<close>

definition emit_optional :: "'a option \<Rightarrow> ('a, 'e) program_parser \<Rightarrow> ('a, 'e) program_parser" where
  "emit_optional ac p =
     (case ac of None \<Rightarrow> p | Some a \<Rightarrow> proceedToNext_if ConditionTrue (setCommand (CommandAction a) p))"

lemma emit_optional:
  assumes "ok p"
  shows "ok (emit_optional ac p)" "grown p (emit_optional ac p)" "for_incr_command (emit_optional ac p) = for_incr_command p"
  using emit [OF assms] assms by (simp_all add: emit_optional_def split: option.split)

lemma grown_same:
  assumes "grown p p'"
  shows "f_exit p' = f_exit p" "break_stack p' = break_stack p" "f_start p' = f_start p"
  using assms by (simp_all add: grown_def)

lemma no_edges: "ok p \<Longrightarrow> buildEdges (setCommand com p) = 0"
  by (simp add: ok_def node_def buildEdges_def setCommand_def)

lemma seen_simps:
  "ok p \<Longrightarrow> seenstatement a p = proceedToNext_if ConditionTrue (setCommand (CommandAction a) p)"
  "seenvaluechange ac p = emit_optional ac p"
  "ok p \<Longrightarrow> seentrystatement (Inl a) p =
     proceedToNext_if ConditionTrue (setCommand (CommandAction a) (p\<lparr>try_cond := Some ConditionFalse\<rparr>))"
  "ok p \<Longrightarrow> seentrystatement (Inr e) p =
     proceedToNext_if ConditionTrue (setCommand (TryCommand (b_build p) e) (p\<lparr>try_cond := Some (TryCommandResult (b_build p) True)\<rparr>))"
  "seenforstatement e (p\<lparr>for_init_command := init, for_incr_command := l\<rparr>) =
     seenwhilestatement e ((emit_optional init (p\<lparr>for_init_command := init, for_incr_command := l\<rparr>))\<lparr>for_init_command := None\<rparr>)"
  "(case v of None \<Rightarrow> p | Some a \<Rightarrow> seenreturnvalue a p) = emit_optional v p"
  using no_edges [of "p\<lparr>try_cond := c\<rparr>" for c] no_edges [of p]
  by (simp_all add: seenstatement_def seenvaluechange_def emit_optional_def seentrystatement_def seenforstatement_def
      seenreturnvalue_def Let_def split: option.split)

lemma set_nop: "ok p \<Longrightarrow> setCommand CommandNOP p = p"
  by (cases p) (simp add: ok_def node_def setCommand_def fun_upd_idem)

text \<open>The parts of a branch and of a loop.\<close>

lemma parse_if:
  assumes "parse_stmt (If e s els) p = Some p'"
  obtains r u u' where "parse_stmt s (seenifstatement e p) = Some r" "endIfBlock r = Some u"
    "(case els of None \<Rightarrow> Some u | Some t \<Rightarrow> parse_stmt t u) = Some u'" "endElseBlock u' = Some p'"
  using assms by (auto simp: bind_eq_Some_conv)

lemma parse_for:
  assumes "parse_stmt (For init e incr s) p = Some p'"
  obtains p0 r where
    "p0 = (emit_optional init (p\<lparr>for_init_command := init, for_incr_command := incr # for_incr_command p\<rparr>))\<lparr>for_init_command := None\<rparr>"
    "parse_stmt s (seenwhilestatement e p0) = Some r" "endforstatement r = Some p'"
  using assms by (auto simp: bind_eq_Some_conv seen_simps)

lemma endfor:
  assumes "for_incr_command r = incr # l"
  shows "endforstatement r = endWhileBlock (emit_optional incr (r\<lparr>for_incr_command := l\<rparr>))"
  using assms by (simp add: endforstatement_def emit_optional_def Let_def split: option.split)

lemma parse_ok:
  assumes "ok p" and "parse_stmt s p = Some p'"
  shows "ok p' \<and> grown p p' \<and> for_incr_command p' = for_incr_command p"
  using assms
proof (induction s arbitrary: p p')
  case Skip
  then show ?case by simp
next
  case (Seq s t)
  from Seq.prems(2) obtain p1 where p1: "parse_stmt s p = Some p1" "parse_stmt t p1 = Some p'" by (auto simp: bind_eq_Some_conv)
  have a: "ok p1 \<and> grown p p1 \<and> for_incr_command p1 = for_incr_command p" using Seq.IH(1) [OF Seq.prems(1) p1(1)] .
  then have "ok p' \<and> grown p1 p' \<and> for_incr_command p' = for_incr_command p1" using Seq.IH(2) [OF _ p1(2)] by simp
  with a show ?case using grown_trans [of p p1 p'] Seq.prems(1) by simp
next
  case (Do a)
  then show ?case using emit [OF Do.prems(1)] by (auto simp: seen_simps)
next
  case (Change ac)
  then show ?case using emit_optional [OF Change.prems(1)] by (auto simp: seen_simps)
next
  case Yield
  then show ?case using emit [OF Yield.prems(1)] by (auto simp: seenyield_def)
next
  case (If e s els)
  from If.prems(2) obtain r u u' where q: "parse_stmt s (seenifstatement e p) = Some r" "endIfBlock r = Some u"
      "(case els of None \<Rightarrow> Some u | Some t \<Rightarrow> parse_stmt t u) = Some u'" "endElseBlock u' = Some p'" by (rule parse_if)
  note si = start_if [OF If.prems(1), of "EvalCommandResult (b_build p)" "EvalCommand (b_build p) e", folded seenifstatement_def]
  have r: "ok r" "grown (seenifstatement e p) r" "for_incr_command r = for_incr_command p"
    using If.IH(1) [OF si(1) q(1)] si(7) by simp_all
  obtain u1 where u: "endIfBlock r = Some u1" "ok u1" "ext r u1" "for_incr_command u1 = for_incr_command r"
     "break_stack r = break_stack p" "break_stack u1 = break_stack p"
     "\<forall>u'. ok u' \<and> grown u1 u' \<longrightarrow> (\<exists>p'. endElseBlock u' = Some p' \<and> ok p' \<and> grown p p' \<and>
        for_incr_command p' = for_incr_command u' \<and> ext u' p' \<and>
        branch_nodes (EvalCommandResult (b_build p)) (EvalCommand (b_build p) e) p r u1 u' p')"
    by (rule if_struct [OF If.prems(1) r(1) r(2) [unfolded seenifstatement_def]])
  have uu: "u1 = u" using u(1) q(2) by simp
  have "ok u' \<and> grown u u' \<and> for_incr_command u' = for_incr_command u"
  proof (cases els)
    case None
    then show ?thesis using q(3) u(2) uu by simp
  next
    case (Some t)
    then show ?thesis using If.IH(2) [of t u u'] q(3) u(2) uu by simp
  qed
  then show ?case using u(7) u(4) q(4) uu r(3) by auto
next
  case (While e s)
  from While.prems(2) obtain r where q: "parse_stmt s (seenwhilestatement e p) = Some r" "endWhileBlock r = Some p'"
    by (auto simp: bind_eq_Some_conv)
  note sw = start_while [OF While.prems(1), of "EvalCommandResult (b_build p)" "EvalCommand (b_build p) e", folded seenwhilestatement_def]
  have r: "ok r" "grown (seenwhilestatement e p) r" "for_incr_command r = for_incr_command p"
    using While.IH [OF sw(1) q(1)] sw(7) by simp_all
  show ?case using loop_struct [OF While.prems(1) r(1,2)] q(2) r(3) by (metis option.inject)
next
  case (For init e incr s)
  from For.prems(2) obtain p0 r where
    q: "p0 = (emit_optional init (p\<lparr>for_init_command := init, for_incr_command := incr # for_incr_command p\<rparr>))\<lparr>for_init_command := None\<rparr>"
      "parse_stmt s (seenwhilestatement e p0) = Some r" "endforstatement r = Some p'" by (rule parse_for)
  let ?p1 = "p\<lparr>for_init_command := init, for_incr_command := incr # for_incr_command p\<rparr>"
  have p0: "ok p0" "grown p p0" "for_incr_command p0 = incr # for_incr_command p"
    using emit_optional [of ?p1 init] For.prems(1) q(1) by simp_all
  note sw = start_while [OF p0(1), of "EvalCommandResult (b_build p0)" "EvalCommand (b_build p0) e", folded seenwhilestatement_def]
  have r: "ok r" "grown (seenwhilestatement e p0) r" "for_incr_command r = incr # for_incr_command p"
    using For.IH [OF sw(1) q(2)] sw(7) p0(3) by simp_all
  let ?r = "emit_optional incr (r\<lparr>for_incr_command := for_incr_command p\<rparr>)"
  have r': "ok ?r" "grown r ?r" "for_incr_command ?r = for_incr_command p"
    using emit_optional [of "r\<lparr>for_incr_command := for_incr_command p\<rparr>" incr] r(1) by simp_all
  have "grown (seenwhilestatement e p0) ?r" by (rule grown_trans [OF r(2) r'(2) sw(1)])
  moreover have "endWhileBlock ?r = Some p'" using endfor [OF r(3)] q(3) by simp
  ultimately have "ok p'" "grown p0 p'" "for_incr_command p' = for_incr_command p"
    using loop_struct [OF p0(1) r'(1)] r'(3) by (metis option.inject)+
  then show ?case using grown_trans [OF p0(2) _ For.prems(1)] by simp
next
  case Break
  then have i: "break_stack p \<noteq> []" and p': "p' = proceedToNext (addConditionEdge ConditionTrue (hd (break_stack p)) p)"
    by (auto simp: seenbreakstatement_def breakLoop_def inLoop_def split: if_splits)
  have "hd (break_stack p) \<in> stacked p" using i by (simp add: stacked_def)
  then have "hd (break_stack p) \<in> verts p" "hd (break_stack p) \<noteq> b_next p" using Break.prems(1) by (auto simp: ok_def opens_def)
  from jump [OF Break.prems(1) this] show ?case by (simp add: p')
next
  case (Return v)
  let ?p = "emit_optional v p"
  have e: "ok ?p" "grown p ?p" "for_incr_command ?p = for_incr_command p" by (rule emit_optional [OF Return.prems(1)])+
  have p': "p' = proceedToNext (addConditionEdge ConditionTrue (f_exit ?p) ?p)"
    using Return.prems(2) by (simp add: seen_simps seenreturnstatement_def returnFunction_def addConditionEdge_def)
  have "f_exit ?p \<in> verts ?p" "f_exit ?p \<noteq> b_next ?p" using e(1) by (auto simp: ok_def opens_def)
  from jump [OF e(1) this] show ?case using grown_trans [OF e(2) _ Return.prems(1)] e(3) by (simp add: p')
next
  case (Try expr catch)
  let ?p1 = "seentrystatement expr p"
  have p1: "ok ?p1" "grown p ?p1" "for_incr_command ?p1 = for_incr_command p"
    using emit [of "p\<lparr>try_cond := c\<rparr>" for c] Try.prems(1) by (cases expr; simp add: seen_simps)+
  show ?case
  proof (cases catch)
    case None
    then show ?thesis using Try.prems(2) p1 by simp
  next
    case (Some s)
    from Try.prems(2) this obtain p2 p3 where q: "startcatchpart ?p1 = Some p2" "parse_stmt s p2 = Some p3" "seencatchpart p3 = Some p'"
      by (auto simp: bind_eq_Some_conv Let_def)
    obtain c where c: "p2 = (startIfStatement c (setCommand CommandNOP ?p1))\<lparr>try_cond := None\<rparr>"
      using q(1) set_nop [OF p1(1)] by (auto simp: startcatchpart_def split: option.splits)
    note si = start_if [OF p1(1), of c CommandNOP]
    have r: "ok p3" "grown (startIfStatement c (setCommand CommandNOP ?p1)) p3" "for_incr_command p3 = for_incr_command p"
      using Try.IH [of s p2 p3] Some q(2) si(1,7) c p1(3) by simp_all
    obtain u where u: "endIfBlock p3 = Some u" "ok u" "ext p3 u" "for_incr_command u = for_incr_command p3"
       "break_stack p3 = break_stack ?p1" "break_stack u = break_stack ?p1"
       "\<forall>u'. ok u' \<and> grown u u' \<longrightarrow> (\<exists>p'. endElseBlock u' = Some p' \<and> ok p' \<and> grown ?p1 p' \<and>
          for_incr_command p' = for_incr_command u' \<and> ext u' p' \<and> branch_nodes c CommandNOP ?p1 p3 u u' p')"
      by (rule if_struct [OF p1(1) r(1,2)])
    then have "ok p' \<and> grown ?p1 p' \<and> for_incr_command p' = for_incr_command p"
      using q(3) r(3) u(2) grown_refl [of u] by (auto simp: seencatchpart_def)
    then show ?thesis using grown_trans [OF p1(2) _ Try.prems(1)] by simp
  qed
qed

section \<open>Simulation\<close>

lemma ext_vertex:
  assumes "ext p G" and "v \<in> verts p" and "v \<notin> opens p" and "node p v = (c, es)"
  shows "g_command G v = c" "g_out G v = es"
  using ext_node [OF assms(1-3)] assms(4) by (simp_all add: node_def)

text \<open>One statement after the other.\<close>

lemma reaches_bind:
  assumes "reaches G x fs m d1 bk (out1, w1, fs1)"
    and "\<And>m1. out1 = Done \<Longrightarrow> arrived x m1 d1 w1 \<Longrightarrow> reaches G x fs1 m1 d bk res"
    and "out1 \<noteq> Done \<Longrightarrow> res = (out1, w1, fs1)"
  shows "reaches G x fs m d bk res"
proof (cases out1)
  case Done
  then obtain m1 where "cycles G fs m = cycles G fs1 m1" "arrived x m1 d1 w1" using assms(1) by (auto simp: reaches_def)
  then show ?thesis using assms(2) [OF Done] reaches_after by blast
qed (use assms(1,3) in \<open>auto simp: reaches_def\<close>)

text \<open>The body of a loop: a break leaves it.\<close>

lemma reaches_body:
  assumes "reaches G x fs m d1 A (out1, w1, fs1)"
    and "\<And>m1. out1 = Done \<Longrightarrow> arrived x m1 d1 w1 \<Longrightarrow> reaches G x fs1 m1 A bk res"
    and "out1 = Broken \<Longrightarrow> res = (Done, w1, fs1)"
    and "out1 \<noteq> Done \<Longrightarrow> out1 \<noteq> Broken \<Longrightarrow> res = (out1, w1, fs1)"
  shows "reaches G x fs m A bk res"
proof (cases out1)
  case Done
  then obtain m1 where "cycles G fs m = cycles G fs1 m1" "arrived x m1 d1 w1" using assms(1) by (auto simp: reaches_def)
  then show ?thesis using assms(2) [OF Done] reaches_after by blast
qed (use assms(1,3,4) in \<open>auto simp: reaches_def\<close>)

definition simulated :: "('a, 'e, 'w) script_env \<Rightarrow> nat \<Rightarrow> ('a, 'e) stmt \<Rightarrow> bool" where
  "simulated E n s \<longleftrightarrow>
     (\<forall>w fs res p p' G m. exec_built E n s w fs = Some res \<longrightarrow> ok p \<longrightarrow> parse_stmt s p = Some p' \<longrightarrow> ext p' G \<longrightarrow>
        arrived (f_exit p) m (b_build p) w \<longrightarrow>
        reaches (script_graph E G) (f_exit p) fs m (b_build p') (hd (break_stack p)) res)"

lemma simulatedD:
  assumes "simulated E n s" "exec_built E n s w fs = Some res" "ok p" "parse_stmt s p = Some p'" "ext p' G"
    "arrived x m v w" "x = f_exit p" "v = b_build p" "bk = hd (break_stack p)"
  shows "reaches (script_graph E G) x fs m (b_build p') bk res"
  using assms unfolding simulated_def by blast

lemma emit_simulated:
  fixes p :: "('a, 'e) program_parser"
  assumes o: "ok p" and e: "ext (proceedToNext_if ConditionTrue (setCommand (CommandAction a) p)) G"
    and m: "arrived (f_exit p) m (b_build p) w" and r: "run_action E a w = (out, w')"
  shows "reaches (script_graph E G) (f_exit p) fs m (b_next p) bk (out, w', fs)"
proof -
  note q = emit [OF o, of ConditionTrue "CommandAction a"]
  have n: "node (proceedToNext_if ConditionTrue (setCommand (CommandAction a) p)) (b_build p) =
      (CommandAction a, [(g_ecount p, b_next p)])" using q(6,7) by (simp add: node_def)
  have "b_next p \<noteq> b_build p" using o by (simp add: ok_def)
  with step_action [OF m ext_vertex(2) [OF e q(4,5) n] _ _ ext_vertex(1) [OF e q(4,5) n] r, of fs bk]
    ext_condition [OF e q(8)] q(9) show ?thesis by simp
qed

lemma optional_simulated:
  assumes o: "ok p" and e: "ext (emit_optional ac p) G"
    and m: "arrived (f_exit p) m (b_build p) w" and r: "run_optional E ac w = (out, w')"
  shows "reaches (script_graph E G) (f_exit p) fs m (b_build (emit_optional ac p)) bk (out, w', fs)"
proof (cases ac)
  case None
  then show ?thesis using r m by (auto simp: emit_optional_def run_optional_def intro: reaches_done)
next
  case (Some a)
  then show ?thesis using emit_simulated [of p a G m w E out w' fs bk] o e m r emit(3) [OF o]
    by (simp add: emit_optional_def run_optional_def)
qed

lemma simulated_seq:
  assumes s: "simulated E n s" and t: "simulated E n t"
  shows "simulated E n (Seq s t)"
  unfolding simulated_def
proof (intro allI impI)
  fix w fs res p p' G m
  assume ex: "exec_built E n (Seq s t) w fs = Some res" and o: "ok p" and pp: "parse_stmt (Seq s t) p = Some p'" and e: "ext p' G"
    and m: "arrived (f_exit p) m (b_build p) w"
  from pp obtain p1 where p1: "parse_stmt s p = Some p1" "parse_stmt t p1 = Some p'" by (auto simp: bind_eq_Some_conv)
  have a: "ok p1" "grown p p1" using parse_ok [OF o p1(1)] by simp_all
  have b: "grown p1 p'" using parse_ok [OF a(1) p1(2)] by simp
  have e1: "ext p1 G" by (rule ext_trans [OF grown_ext [OF b a(1)] e])
  from ex obtain out1 w1 fs1 where r1: "exec_built E n s w fs = Some (out1, w1, fs1)"
      "res = (out1, w1, fs1) \<and> out1 \<noteq> Done \<or> out1 = Done \<and> exec_built E n t w1 fs1 = Some res"
    by (auto split: option.splits outcome.splits)
  show "reaches (script_graph E G) (f_exit p) fs m (b_build p') (hd (break_stack p)) res"
  proof (rule reaches_bind [OF simulatedD [OF s r1(1) o p1(1) e1 m refl refl refl]])
    fix m1
    assume d: "out1 = Done" and m1: "arrived (f_exit p) m1 (b_build p1) w1"
    show "reaches (script_graph E G) (f_exit p) fs1 m1 (b_build p') (hd (break_stack p)) res"
      by (rule simulatedD [OF t _ a(1) p1(2) e m1]) (use r1(2) d grown_same [OF a(2)] in auto)
  qed (use r1(2) in auto)
qed

lemma simulated_simple:
  fixes E :: "('a, 'e, 'w) script_env"
  shows "simulated E n Skip" "simulated E n (Do a)" "simulated E n (Change ac)" "simulated E n Yield"
  "simulated E n Break" "simulated E n (Return v)"
proof -
  show "simulated E n Skip" by (auto simp: simulated_def intro: reaches_done)
  show "simulated E n (Do a)"
    unfolding simulated_def
  proof (intro allI impI)
    fix w fs res and p p' G :: "('a, 'e) program_parser" and m
    assume "exec_built E n (Do a) w fs = Some res" "ok p" "parse_stmt (Do a) p = Some p'" "ext p' G"
      "arrived (f_exit p) m (b_build p) w"
    then show "reaches (script_graph E G) (f_exit p) fs m (b_build p') (hd (break_stack p)) res"
      using emit_simulated [of p a G m w E _ _ fs "hd (break_stack p)"] emit(3) [of p ConditionTrue "CommandAction a"]
      by (cases "run_action E a w") (auto simp: seen_simps)
  qed
  show "simulated E n (Change ac)"
    unfolding simulated_def
  proof (intro allI impI)
    fix w fs res and p p' G :: "('a, 'e) program_parser" and m
    assume "exec_built E n (Change ac) w fs = Some res" "ok p" "parse_stmt (Change ac) p = Some p'" "ext p' G"
      "arrived (f_exit p) m (b_build p) w"
    then show "reaches (script_graph E G) (f_exit p) fs m (b_build p') (hd (break_stack p)) res"
      using optional_simulated [of p ac G m w E _ _ fs "hd (break_stack p)"]
      by (cases "run_optional E ac w") (auto simp: seen_simps)
  qed
  show "simulated E n Yield"
    unfolding simulated_def
  proof (intro allI impI)
    fix w fs res and p p' G :: "('a, 'e) program_parser" and m
    assume ex: "exec_built E n Yield w fs = Some res" and o: "ok p" and pp: "parse_stmt Yield p = Some p'" and e: "ext p' G"
      and m: "arrived (f_exit p) m (b_build p) w"
    have p': "p' = proceedToNext_if (ConditionOnce False) (setCommand CommandNOP p)" using pp by (simp add: seenyield_def)
    note q = emit [OF o, of "ConditionOnce False" CommandNOP, folded p']
    have nd: "node p' (b_build p) = (CommandNOP, [(g_ecount p, b_next p)])" using q(6,7) by (simp add: node_def)
    obtain f fs1 where f: "fs = f # fs1" "res = (Done, f w, fs1)" using ex by (cases fs) auto
    have "b_next p \<noteq> b_build p" "b_build p \<noteq> f_exit p" using o by (auto simp: ok_def opens_def)
    with step_yield [OF m ext_vertex(2) [OF e q(4,5) nd] _ _ ext_vertex(1) [OF e q(4,5) nd], of E f fs1]
      ext_condition [OF e q(8)] q(9)
    obtain m1 where "cycles (script_graph E G) fs m = cycles (script_graph E G) fs1 m1" "arrived (f_exit p) m1 (b_next p) (f w)"
      using f by auto
    then show "reaches (script_graph E G) (f_exit p) fs m (b_build p') (hd (break_stack p)) res"
      using f q(3) by (auto simp: reaches_def)
  qed
  have jumped: "\<exists>m1. cycles (script_graph E G) fs m = cycles (script_graph E G) fs m1 \<and> arrived (f_exit p) m1 t w"
    if o: "ok p" and t: "t \<in> verts p" "t \<noteq> b_next p" "t \<noteq> b_build p"
      and e: "ext (proceedToNext (addConditionEdge ConditionTrue t p)) G" and m: "arrived (f_exit p) m (b_build p) w"
    for p :: "('a, 'e) program_parser" and t G m w fs
  proof -
    note q = jump [OF o t(1,2)]
    have nd: "node (proceedToNext (addConditionEdge ConditionTrue t p)) (b_build p) = (CommandNOP, [(g_ecount p, t)])"
      using q(5,6) by (simp add: node_def)
    show ?thesis
      using step_true [OF m ext_vertex(2) [OF e q(3,4) nd] _ t(3) ext_vertex(1) [OF e q(3,4) nd], of E fs]
        ext_condition [OF e q(7)] q(8) by simp
  qed
  show "simulated E n Break"
    unfolding simulated_def
  proof (intro allI impI)
    fix w fs res and p p' G :: "('a, 'e) program_parser" and m
    assume ex: "exec_built E n (Break :: ('a, 'e) stmt) w fs = Some res" and o: "ok p" and pp: "parse_stmt Break p = Some p'" and e: "ext p' G"
      and m: "arrived (f_exit p) m (b_build p) w"
    have i: "break_stack p \<noteq> []" and p': "p' = proceedToNext (addConditionEdge ConditionTrue (hd (break_stack p)) p)"
      using pp by (auto simp: seenbreakstatement_def breakLoop_def inLoop_def split: if_splits)
    have "hd (break_stack p) \<in> stacked p" using i by (simp add: stacked_def)
    then have "hd (break_stack p) \<in> verts p" "hd (break_stack p) \<noteq> b_next p" "hd (break_stack p) \<noteq> b_build p"
      using o by (auto simp: ok_def opens_def)
    from jumped [OF o this e [unfolded p'] m, of fs] ex
    show "reaches (script_graph E G) (f_exit p) fs m (b_build p') (hd (break_stack p)) res" by (auto simp: reaches_def)
  qed
  show "simulated E n (Return v)"
    unfolding simulated_def
  proof (intro allI impI)
    fix w fs res and p p' G :: "('a, 'e) program_parser" and m
    assume ex: "exec_built E n (Return v) w fs = Some res" and o: "ok p" and pp: "parse_stmt (Return v) p = Some p'" and e: "ext p' G"
      and m: "arrived (f_exit p) m (b_build p) w"
    let ?p = "emit_optional v p"
    have q: "ok ?p" "grown p ?p" by (rule emit_optional [OF o])+
    have p': "p' = proceedToNext (addConditionEdge ConditionTrue (f_exit ?p) ?p)"
      using pp by (simp add: seen_simps seenreturnstatement_def returnFunction_def addConditionEdge_def)
    have t: "f_exit ?p \<in> verts ?p" "f_exit ?p \<noteq> b_next ?p" "f_exit ?p \<noteq> b_build ?p" using q(1) by (auto simp: ok_def opens_def)
    have e1: "ext ?p G"
      by (rule ext_trans [OF grown_ext [OF jump(2) [OF q(1) t(1,2)] q(1)] e [unfolded p']])
    obtain out w1 where r: "run_optional E v w = (out, w1)" by (cases "run_optional E v w")
    have fx: "f_exit ?p = f_exit p" using grown_same [OF q(2)] by simp
    show "reaches (script_graph E G) (f_exit p) fs m (b_build p') (hd (break_stack p)) res"
    proof (rule reaches_bind [OF optional_simulated [OF o e1 m r]])
      fix m1
      assume d: "out = Done" and m1: "arrived (f_exit p) m1 (b_build ?p) w1"
      obtain m2 where "cycles (script_graph E G) fs m1 = cycles (script_graph E G) fs m2" "arrived (f_exit p) m2 (f_exit p) w1"
        using jumped [OF q(1) t e [unfolded p'], of m1 w1 fs] m1 by (auto simp: fx)
      then show "reaches (script_graph E G) (f_exit p) fs m1 (b_build p') (hd (break_stack p)) res"
        using ex r d by (auto simp: reaches_def)
    qed (use ex r in \<open>cases out; auto\<close>)
  qed
qed

text \<open>A branch: the vertex at its head is \<open>p\<close>'s, then \<open>r\<close> ends the block and \<open>u'\<close> the else block.\<close>

lemma branch_steps:
  assumes b: "branch_nodes c com p r u u' p'" and e: "ext p' G"
  shows "g_command G (b_build p) = com" "g_out G (b_build p) = [(g_ecount p, b_next p), (Suc (g_ecount p), b_build u)]"
    "g_condition G (g_ecount p) = c" "g_condition G (Suc (g_ecount p)) = ConditionTrue"
    "arrived x m (b_build r) w \<Longrightarrow>
       \<exists>m1. cycles (script_graph E G) fs m = cycles (script_graph E G) fs m1 \<and> arrived x m1 (b_build p') w"
    "arrived x m (b_build u') w \<Longrightarrow>
       \<exists>m1. cycles (script_graph E G) fs m = cycles (script_graph E G) fs m1 \<and> arrived x m1 (b_build p') w"
proof -
  have v: "b_build p \<in> verts p'" "b_build r \<in> verts p'" "b_build u' \<in> verts p'"
      "b_build p \<notin> opens p'" "b_build r \<notin> opens p'" "b_build u' \<notin> opens p'"
    using b by (auto simp: branch_nodes_def)
  have n: "node p' (b_build p) = (com, [(g_ecount p, b_next p), (Suc (g_ecount p), b_build u)])"
      "node p' (b_build r) = (CommandNOP, [(g_ecount r, b_build p')])"
      "node p' (b_build u') = (CommandNOP, [(g_ecount u', b_build p')])"
      "b_build p' \<noteq> b_build r" "b_build p' \<noteq> b_build u'"
    using b by (simp_all add: branch_nodes_def)
  have c: "g_condition G (g_ecount p) = c" "g_condition G (Suc (g_ecount p)) = ConditionTrue"
      "g_condition G (g_ecount r) = ConditionTrue" "g_condition G (g_ecount u') = ConditionTrue"
    using b ext_condition [OF e] by (auto simp: branch_nodes_def)
  show "g_command G (b_build p) = com" "g_out G (b_build p) = [(g_ecount p, b_next p), (Suc (g_ecount p), b_build u)]"
    by (rule ext_vertex [OF e v(1,4) n(1)])+
  show "g_condition G (g_ecount p) = c" "g_condition G (Suc (g_ecount p)) = ConditionTrue" by (rule c)+
  show "arrived x m (b_build r) w \<Longrightarrow>
       \<exists>m1. cycles (script_graph E G) fs m = cycles (script_graph E G) fs m1 \<and> arrived x m1 (b_build p') w"
    using step_true [OF _ ext_vertex(2) [OF e v(2,5) n(2)] c(3) n(4) ext_vertex(1) [OF e v(2,5) n(2)]] .
  show "arrived x m (b_build u') w \<Longrightarrow>
       \<exists>m1. cycles (script_graph E G) fs m = cycles (script_graph E G) fs m1 \<and> arrived x m1 (b_build p') w"
    using step_true [OF _ ext_vertex(2) [OF e v(3,6) n(3)] c(4) n(5) ext_vertex(1) [OF e v(3,6) n(3)]] .
qed

text \<open>A block and what follows its last vertex.\<close>

lemma block_simulated:
  assumes s: "simulated E n s" and ex: "exec_built E n s w fs = Some res" and o: "ok q" and q: "parse_stmt s q = Some r"
    and e: "ext r G" and m: "arrived x m (b_build q) w" and x: "x = f_exit q"
    and "\<And>m1 w1 fs1. arrived x m1 (b_build r) w1 \<Longrightarrow>
      \<exists>m2. cycles (script_graph E G) fs1 m1 = cycles (script_graph E G) fs1 m2 \<and> arrived x m2 t w1"
  shows "reaches (script_graph E G) x fs m t (hd (break_stack q)) res"
proof -
  obtain out w1 fs1 where res: "res = (out, w1, fs1)" by (cases res)
  show ?thesis
  proof (rule reaches_bind [OF simulatedD [OF s ex [unfolded res] o q e m x refl refl]])
    fix m1
    assume d: "out = Done" and "arrived x m1 (b_build r) w1"
    with assms(8) [of m1 w1 fs1] show "reaches (script_graph E G) x fs1 m1 t (hd (break_stack q)) res"
      by (auto simp: reaches_def res)
  qed (simp add: res)
qed

lemma end_if_exit: "endIfBlock r = Some u \<Longrightarrow> f_exit u = f_exit r"
  by (auto simp: endIfBlock_def builder_defs split: list.splits)

lemma simulated_if:
  fixes E :: "('a, 'e, 'w) script_env"
  assumes s: "simulated E n s" and t: "\<And>t. els = Some t \<Longrightarrow> simulated E n t"
  shows "simulated E n (If e s els)"
  unfolding simulated_def
proof (intro allI impI)
  fix w fs res and p p' G :: "('a, 'e) program_parser" and m
  assume ex: "exec_built E n (If e s els) w fs = Some res" and o: "ok p" and pp: "parse_stmt (If e s els) p = Some p'"
    and g: "ext p' G" and m: "arrived (f_exit p) m (b_build p) w"
  let ?c = "EvalCommandResult (b_build p)" and ?com = "EvalCommand (b_build p) e" and ?G = "script_graph E G"
  from pp obtain r u u' where q: "parse_stmt s (seenifstatement e p) = Some r" "endIfBlock r = Some u"
      "(case els of None \<Rightarrow> Some u | Some t \<Rightarrow> parse_stmt t u) = Some u'" "endElseBlock u' = Some p'" by (rule parse_if)
  note si = start_if [OF o, of ?c ?com, folded seenifstatement_def]
  have r: "ok r" "grown (seenifstatement e p) r" using parse_ok [OF si(1) q(1)] by simp_all
  obtain u1 where u: "endIfBlock r = Some u1" "ok u1" "ext r u1" "for_incr_command u1 = for_incr_command r"
     "break_stack r = break_stack p" "break_stack u1 = break_stack p"
     "\<forall>u'. ok u' \<and> grown u1 u' \<longrightarrow> (\<exists>p'. endElseBlock u' = Some p' \<and> ok p' \<and> grown p p' \<and>
        for_incr_command p' = for_incr_command u' \<and> ext u' p' \<and> branch_nodes ?c ?com p r u1 u' p')"
    by (rule if_struct [OF o r(1) r(2) [unfolded seenifstatement_def]])
  have uu: "u1 = u" using u(1) q(2) by simp
  have u': "ok u'" "grown u u'"
    using q(3) u(2) uu parse_ok [of u _ u'] by (auto split: option.splits)
  then have b: "branch_nodes ?c ?com p r u u' p'" "ext u' p'" using u(7) q(4) uu by auto
  have eu: "ext u' G" by (rule ext_trans [OF b(2) g])
  have er: "ext r G" by (rule ext_trans [OF ext_trans [OF u(3) [unfolded uu] grown_ext [OF u'(2) u(2) [unfolded uu]]] eu])
  note st = branch_steps [OF b(1) g]
  have ne: "b_next p \<noteq> b_build p" "b_build u \<noteq> b_build p" using b(1) by (simp_all add: branch_nodes_def)
  have fx: "f_exit p = f_exit (seenifstatement e p)" using si(2) by (simp add: others_same_def)
  have bq: "break_stack (seenifstatement e p) = break_stack p" by (rule si(6))
  obtain v w1 where ev: "e_evaluate E e w = (v, w1)" by (cases "e_evaluate E e w")
  note sv = step_eval [OF m st(2,3,4) ne st(1), of E fs, unfolded ev]
  show "reaches ?G (f_exit p) fs m (b_build p') (hd (break_stack p)) res"
  proof (cases v)
    case None
    then show ?thesis using sv ex ev by (auto simp: reaches_def)
  next
    case (Some holds)
    then obtain m1 where m1: "cycles ?G fs m = cycles ?G fs m1" "arrived (f_exit p) m1 (if holds then b_next p else b_build u) w1"
      using sv by auto
    have "reaches ?G (f_exit p) fs m1 (b_build p') (hd (break_stack p)) res"
    proof (cases holds)
      case True
      have "arrived (f_exit p) m1 (b_build (seenifstatement e p)) w1" using m1(2) True si(3) by simp
      then show ?thesis
        using block_simulated [OF s _ si(1) q(1) er _ fx st(5), of w1 fs res m1] ex ev Some True bq by simp
    next
      case False
      then have m1': "arrived (f_exit p) m1 (b_build u) w1" using m1(2) by simp
      show ?thesis
      proof (cases els)
        case None
        then have "u' = u" using q(3) by simp
        then show ?thesis using st(6) [of "f_exit p" m1 w1 E fs] m1' ex ev Some False None by (auto simp: reaches_def)
      next
        case (Some t')
        have fu: "f_exit p = f_exit u"
          using fx grown_same(1) [OF r(2)] end_if_exit [OF q(2)] by simp
        show ?thesis
          using block_simulated [OF t [OF Some] _ _ _ eu m1' fu st(6), of fs res] ex ev \<open>v = Some holds\<close> False Some q(3) u(2,6) uu
          by simp
      qed
    qed
    with m1(1) show ?thesis by (rule reaches_after)
  qed
qed

text \<open>A loop: \<open>p\<close> builds its head, \<open>r\<close> its last vertex, which leads back.\<close>

lemma loop_steps:
  fixes p :: "('a, 'e) program_parser"
  assumes o: "ok p" and r: "ok r" "grown (seenwhilestatement e p) r" and p': "endWhileBlock r = Some p'" and g: "ext p' G"
  shows "arrived x m (b_build p) w \<Longrightarrow> case e_evaluate E e w of
      (None, w') \<Rightarrow> \<exists>m1. cycles (script_graph E G) fs m = Some m1 \<and> pStatus m1 = PError \<and> user (fg_world m1) = w'
    | (Some holds, w') \<Rightarrow> \<exists>m1. cycles (script_graph E G) fs m = cycles (script_graph E G) fs m1 \<and>
        arrived x m1 (if holds then b_next p else b_build p') w'"
    and "arrived x m (b_build r) w \<Longrightarrow>
      \<exists>m1. cycles (script_graph E G) fs m = cycles (script_graph E G) fs m1 \<and> arrived x m1 (b_build p) w"
    and "ext r G" "break_stack r = b_build p' # break_stack p"
proof -
  obtain p1 where l: "endWhileBlock r = Some p1" "ok p1" "grown p p1" "for_incr_command p1 = for_incr_command r" "ext r p1"
    "b_build p \<in> verts p1" "b_build p \<notin> opens p1"
    "node p1 (b_build p) = (EvalCommand (b_build p) e, [(g_ecount p, b_next p), (Suc (g_ecount p), b_build p1)])"
    "g_condition p1 (g_ecount p) = EvalCommandResult (b_build p)" "g_condition p1 (Suc (g_ecount p)) = ConditionTrue"
    "Suc (g_ecount p) < g_ecount p1"
    "b_build r \<in> verts p1" "b_build r \<notin> opens p1" "node p1 (b_build r) = (CommandNOP, [(g_ecount r, b_build p)])"
    "g_condition p1 (g_ecount r) = ConditionTrue" "g_ecount r < g_ecount p1"
    "b_build p1 \<noteq> b_build p" "b_next p \<noteq> b_build p" "b_build r \<noteq> b_build p"
    "break_stack r = b_build p1 # break_stack p"
    by (rule loop_struct [OF o r])
  have eq: "p1 = p'" using l(1) p' by simp
  note l = l [unfolded eq]
  have c: "g_condition G (g_ecount p) = EvalCommandResult (b_build p)" "g_condition G (Suc (g_ecount p)) = ConditionTrue"
      "g_condition G (g_ecount r) = ConditionTrue"
    using ext_condition [OF g] l(9,10,11,15,16) by simp_all
  show "arrived x m (b_build p) w \<Longrightarrow> case e_evaluate E e w of
      (None, w') \<Rightarrow> \<exists>m1. cycles (script_graph E G) fs m = Some m1 \<and> pStatus m1 = PError \<and> user (fg_world m1) = w'
    | (Some holds, w') \<Rightarrow> \<exists>m1. cycles (script_graph E G) fs m = cycles (script_graph E G) fs m1 \<and>
        arrived x m1 (if holds then b_next p else b_build p') w'"
    by (rule step_eval [OF _ ext_vertex(2) [OF g l(6,7,8)] c(1,2) l(18,17) ext_vertex(1) [OF g l(6,7,8)]])
  show "arrived x m (b_build r) w \<Longrightarrow>
      \<exists>m1. cycles (script_graph E G) fs m = cycles (script_graph E G) fs m1 \<and> arrived x m1 (b_build p) w"
    by (rule step_true [OF _ ext_vertex(2) [OF g l(12,13,14)] c(3) l(19) [symmetric] ext_vertex(1) [OF g l(12,13,14)]])
  show "ext r G" by (rule ext_trans [OF l(5) g])
  show "break_stack r = b_build p' # break_stack p" by (rule l(20))
qed

lemma while_exit: "f_exit (seenwhilestatement e p) = f_exit p"
  by (simp add: seenwhilestatement_def startWhileStatement_def builder_defs)

lemma simulated_while:
  fixes E :: "('a, 'e, 'w) script_env"
  assumes s: "simulated E n s" and again: "simulated E n (While e s)"
  shows "simulated E (Suc n) (While e s)"
  unfolding simulated_def
proof (intro allI impI)
  fix w fs res and p p' G :: "('a, 'e) program_parser" and m
  assume ex: "exec_built E (Suc n) (While e s) w fs = Some res" and o: "ok p" and pp: "parse_stmt (While e s) p = Some p'"
    and g: "ext p' G" and m: "arrived (f_exit p) m (b_build p) w"
  let ?G = "script_graph E G" and ?q = "seenwhilestatement e p"
  from pp obtain r where q: "parse_stmt s ?q = Some r" "endWhileBlock r = Some p'" by (auto simp: bind_eq_Some_conv)
  note sw = start_while [OF o, of "EvalCommandResult (b_build p)" "EvalCommand (b_build p) e", folded seenwhilestatement_def]
  have r: "ok r" "grown ?q r" using parse_ok [OF sw(1) q(1)] by simp_all
  note st = loop_steps [OF o r q(2) g]
  have bk: "hd (break_stack ?q) = b_build p'" using st(4) grown_same(2) [OF r(2)] by simp
  obtain v w1 where ev: "e_evaluate E e w = (v, w1)" by (cases "e_evaluate E e w")
  note sv = st(1) [OF m, of E fs, unfolded ev]
  show "reaches ?G (f_exit p) fs m (b_build p') (hd (break_stack p)) res"
  proof (cases v)
    case None
    then show ?thesis using sv ex ev by (auto simp: reaches_def)
  next
    case (Some holds)
    show ?thesis
    proof (cases holds)
      case False
      then show ?thesis using sv ex ev Some by (auto simp: reaches_def)
    next
      case True
      obtain m1 where m1: "cycles ?G fs m = cycles ?G fs m1" "arrived (f_exit p) m1 (b_next p) w1"
        using sv Some True by auto
      obtain out w2 fs2 where b: "exec_built E n s w1 fs = Some (out, w2, fs2)"
          "case out of Done \<Rightarrow> exec_built E n (While e s) w2 fs2 = Some res | Broken \<Rightarrow> res = (Done, w2, fs2) | _ \<Rightarrow> res = (out, w2, fs2)"
        using ex ev Some True by (auto split: option.splits outcome.splits)
      have "reaches ?G (f_exit p) fs m1 (b_build p') (hd (break_stack p)) res"
      proof (rule reaches_body [OF simulatedD [OF s b(1) sw(1) q(1) st(3) m1(2) while_exit [symmetric] sw(3) [symmetric] bk [symmetric]]])
        fix m2
        assume d: "out = Done" and m2: "arrived (f_exit p) m2 (b_build r) w2"
        obtain m3 where m3: "cycles ?G fs2 m2 = cycles ?G fs2 m3" "arrived (f_exit p) m3 (b_build p) w2"
          using st(2) [OF m2, of E fs2] by auto
        have "reaches ?G (f_exit p) fs2 m3 (b_build p') (hd (break_stack p)) res"
          by (rule simulatedD [OF again _ o pp g m3(2) refl refl refl]) (use b(2) d in simp)
        with m3(1) show "reaches ?G (f_exit p) fs2 m2 (b_build p') (hd (break_stack p)) res" by (rule reaches_after)
      qed (use b(2) in \<open>auto split: outcome.splits\<close>)
      with m1(1) show ?thesis by (rule reaches_after)
    qed
  qed
qed

lemma parse_for_again:
  assumes "parse_stmt (For init e incr s) p = Some p'"
  shows "parse_stmt (For None e incr s) ((emit_optional init p)\<lparr>for_init_command := None\<rparr>) = Some p'"
proof -
  have f: "emit_optional init (p\<lparr>for_init_command := init, for_incr_command := l\<rparr>) =
      (emit_optional init p)\<lparr>for_init_command := init, for_incr_command := l\<rparr>" for l
    by (cases init) (simp_all add: emit_optional_def builder_defs)
  have "for_incr_command (emit_optional init p) = for_incr_command p"
    by (cases init) (simp_all add: emit_optional_def builder_defs)
  then show ?thesis using assms by (simp add: seen_simps f) (simp add: emit_optional_def)
qed

lemma simulated_for:
  fixes E :: "('a, 'e, 'w) script_env"
  assumes s: "simulated E n s" and again: "simulated E n (For None e incr s)"
  shows "simulated E (Suc n) (For None e incr s)"
  unfolding simulated_def
proof (intro allI impI)
  fix w fs res and p p' G :: "('a, 'e) program_parser" and m
  assume ex: "exec_built E (Suc n) (For None e incr s) w fs = Some res" and o: "ok p" and pp: "parse_stmt (For None e incr s) p = Some p'"
    and g: "ext p' G" and m: "arrived (f_exit p) m (b_build p) w"
  let ?G = "script_graph E G"
  from pp obtain p0 r where
    q: "p0 = (emit_optional None (p\<lparr>for_init_command := None, for_incr_command := incr # for_incr_command p\<rparr>))\<lparr>for_init_command := None\<rparr>"
      "parse_stmt s (seenwhilestatement e p0) = Some r" "endforstatement r = Some p'" by (rule parse_for)
  have p0: "ok p0" "for_incr_command p0 = incr # for_incr_command p" "b_build p0 = b_build p" "f_exit p0 = f_exit p"
      "break_stack p0 = break_stack p" "b_next p0 = b_next p"
    using o by (simp_all add: q(1) emit_optional_def)
  let ?q = "seenwhilestatement e p0"
  note sw = start_while [OF p0(1), of "EvalCommandResult (b_build p0)" "EvalCommand (b_build p0) e", folded seenwhilestatement_def]
  have r: "ok r" "grown ?q r" "for_incr_command r = incr # for_incr_command p"
    using parse_ok [OF sw(1) q(2)] sw(7) p0(2) by simp_all
  let ?rest = "r\<lparr>for_incr_command := for_incr_command p\<rparr>"
  let ?r = "emit_optional incr ?rest"
  have r0: "ok ?rest" unfolding parser_fields by (rule r(1))
  have r': "ok ?r" by (rule emit_optional(1) [OF r0])
  have r'': "grown r ?r" using emit_optional(2) [OF r0, of incr] by (simp only: parser_fields)
  have gr: "grown ?q ?r" by (rule grown_trans [OF r(2) r'' sw(1)])
  have ew: "endWhileBlock ?r = Some p'" using endfor [OF r(3)] q(3) by simp
  note st = loop_steps [OF p0(1) r' gr ew g]
  have er: "ext r G" by (rule ext_trans [OF grown_ext [OF r'' r(1)] st(3)])
  have bk: "hd (break_stack ?q) = b_build p'" using st(4) grown_same(2) [OF gr] by simp
  have fx: "f_exit p = f_exit ?q" using p0(4) by (simp add: while_exit)
  obtain v w1 where ev: "e_evaluate E e w = (v, w1)" by (cases "e_evaluate E e w")
  note sv = st(1) [unfolded p0(3,6), OF m, of E fs, unfolded ev]
  have bq: "b_next p = b_build ?q" using sw(3) p0(6) by simp
  show "reaches ?G (f_exit p) fs m (b_build p') (hd (break_stack p)) res"
  proof (cases v)
    case None
    then show ?thesis using sv ex ev by (auto simp: reaches_def run_optional_def)
  next
    case (Some holds)
    show ?thesis
    proof (cases holds)
      case False
      then show ?thesis using sv ex ev Some by (auto simp: reaches_def run_optional_def)
    next
      case True
      obtain m1 where m1: "cycles ?G fs m = cycles ?G fs m1" "arrived (f_exit p) m1 (b_next p) w1"
        using sv Some True by auto
      obtain out w2 fs2 where b: "exec_built E n s w1 fs = Some (out, w2, fs2)"
          "case out of Done \<Rightarrow> (case run_optional E incr w2 of (Done, w3) \<Rightarrow> exec_built E n (For None e incr s) w3 fs2 = Some res
             | (o3, w3) \<Rightarrow> res = (o3, w3, fs2)) | Broken \<Rightarrow> res = (Done, w2, fs2) | _ \<Rightarrow> res = (out, w2, fs2)"
        using ex ev Some True by (auto simp: run_optional_def split: option.splits outcome.splits prod.splits)
      have "reaches ?G (f_exit p) fs m1 (b_build p') (hd (break_stack p)) res"
      proof (rule reaches_body [OF simulatedD [OF s b(1) sw(1) q(2) er m1(2) fx bq bk [symmetric]]])
        fix m2
        assume d: "out = Done" and m2: "arrived (f_exit p) m2 (b_build r) w2"
        obtain o3 w3 where i: "run_optional E incr w2 = (o3, w3)" by (cases "run_optional E incr w2")
        have fr: "f_exit p = f_exit ?rest" using fx grown_same(1) [OF r(2)] by simp
        have m2': "arrived (f_exit ?rest) m2 (b_build ?rest) w2" using m2 fr by simp
        show "reaches ?G (f_exit p) fs2 m2 (b_build p') (hd (break_stack p)) res"
        proof (rule reaches_bind [OF optional_simulated [OF r0 st(3) m2' i, folded fr]])
          fix m3
          assume d3: "o3 = Done" and m3: "arrived (f_exit p) m3 (b_build ?r) w3"
          obtain m4 where m4: "cycles ?G fs2 m3 = cycles ?G fs2 m4" "arrived (f_exit p) m4 (b_build p) w3"
            using st(2) [OF m3, of E fs2] p0(3) by auto
          have "reaches ?G (f_exit p) fs2 m4 (b_build p') (hd (break_stack p)) res"
            by (rule simulatedD [OF again _ o pp g m4(2) refl refl refl]) (use b(2) d d3 i in simp)
          with m4(1) show "reaches ?G (f_exit p) fs2 m3 (b_build p') (hd (break_stack p)) res" by (rule reaches_after)
        qed (use b(2) d i in \<open>cases o3; simp\<close>)
      qed (use b(2) in \<open>auto split: outcome.splits\<close>)
      with m1(1) show ?thesis by (rule reaches_after)
    qed
  qed
qed

text \<open>The initialisation of a loop comes before the loop.\<close>

lemma simulated_for_init:
  fixes E :: "('a, 'e, 'w) script_env"
  assumes l: "simulated E (Suc n) (For None e incr s)"
  shows "simulated E (Suc n) (For init e incr s)"
  unfolding simulated_def
proof (intro allI impI)
  fix w fs res and p p' G :: "('a, 'e) program_parser" and m
  assume ex: "exec_built E (Suc n) (For init e incr s) w fs = Some res" and o: "ok p" and pp: "parse_stmt (For init e incr s) p = Some p'"
    and g: "ext p' G" and m: "arrived (f_exit p) m (b_build p) w"
  let ?G = "script_graph E G"
  define q where "q = emit_optional init p"
  have q: "ok q" "grown p q" using emit_optional [OF o, of init] by (simp_all add: q_def)
  let ?q = "q\<lparr>for_init_command := None\<rparr>"
  have oq: "ok ?q" unfolding parser_fields by (rule q(1))
  have pq: "parse_stmt (For None e incr s) ?q = Some p'" using parse_for_again [OF pp] by (simp only: q_def)
  have "grown ?q p'" using parse_ok [OF oq pq] by simp
  then have eq: "ext q G" using ext_trans [OF grown_ext [OF _ oq] g] by simp
  have fx: "f_exit p = f_exit ?q" "hd (break_stack p) = hd (break_stack ?q)" using grown_same [OF q(2)] by simp_all
  obtain o0 w0 where i: "run_optional E init w = (o0, w0)" by (cases "run_optional E init w")
  show "reaches ?G (f_exit p) fs m (b_build p') (hd (break_stack p)) res"
  proof (rule reaches_bind [OF optional_simulated [OF o eq [unfolded q_def] m i, folded q_def]])
    fix m1
    assume d: "o0 = Done" and m1: "arrived (f_exit p) m1 (b_build q) w0"
    have "exec_built E (Suc n) (For None e incr s) w0 fs = Some res" using ex i d by (simp add: run_optional_def)
    then show "reaches ?G (f_exit p) fs m1 (b_build p') (hd (break_stack p)) res"
      by (rule simulatedD [OF l _ oq pq g m1 fx(1) _ fx(2)]) simp
  qed (use ex i in \<open>cases o0; simp\<close>)
qed

text \<open>A try statement: the vertex of its expression never fails when the expression is boolean.\<close>

lemma try_cases:
  fixes E :: "('a, 'e, 'w) script_env"
  assumes o: "ok p" and e: "ext (seentrystatement expr p) G" and m: "arrived (f_exit p) m (b_build p) w"
  shows "case expr of
      Inl a \<Rightarrow> \<forall>out w1. run_action E a w = (out, w1) \<longrightarrow>
        reaches (script_graph E G) (f_exit p) fs m (b_build (seentrystatement expr p)) bk (out, w1, fs)
    | Inr x \<Rightarrow> \<forall>v w1. e_evaluate E x w = (v, w1) \<longrightarrow>
        (\<exists>m1. cycles (script_graph E G) fs m = cycles (script_graph E G) fs m1 \<and>
          arrived (f_exit p) m1 (b_build (seentrystatement expr p)) w1 \<and> result (fg_world m1) (b_build p) = (v \<noteq> None))"
proof (cases expr)
  case (Inl a)
  let ?p = "p\<lparr>try_cond := Some ConditionFalse\<rparr>"
  have o': "ok ?p" unfolding parser_fields by (rule o)
  have s: "seentrystatement expr p = proceedToNext_if ConditionTrue (setCommand (CommandAction a) ?p)"
    using Inl seen_simps(3) [OF o] by simp
  have m': "arrived (f_exit ?p) m (b_build ?p) w" using m by simp
  show ?thesis using emit_simulated [OF o' e [unfolded s] m', of E _ _ fs bk] emit(3) [OF o', of ConditionTrue "CommandAction a"]
    by (simp add: Inl s [unfolded Inl])
next
  case (Inr x)
  let ?p = "p\<lparr>try_cond := Some (TryCommandResult (b_build p) True)\<rparr>"
  have o': "ok ?p" unfolding parser_fields by (rule o)
  have s: "seentrystatement expr p = proceedToNext_if ConditionTrue (setCommand (TryCommand (b_build p) x) ?p)"
    using Inr seen_simps(4) [OF o] by simp
  note q = emit [OF o', of ConditionTrue "TryCommand (b_build p) x", folded s]
  have n: "node (seentrystatement expr p) (b_build p) = (TryCommand (b_build p) x, [(g_ecount p, b_next p)])"
    using q(6,7) by (simp add: node_def)
  have q45: "b_build p \<in> verts (seentrystatement expr p)" "b_build p \<notin> opens (seentrystatement expr p)" using q(4,5) by simp_all
  have "b_next p \<noteq> b_build p" using o by (simp add: ok_def)
  with step_try [OF m ext_vertex(2) [OF e q45 n] _ _ ext_vertex(1) [OF e q45 n]] ext_condition [OF e q(8)] q(9) q(3)
  show ?thesis by (simp add: Inr)
qed

lemma simulated_try:
  fixes E :: "('a, 'e, 'w) script_env"
  assumes s: "\<And>s. catch = Some s \<Longrightarrow> simulated E n s"
  shows "simulated E n (Try expr catch)"
  unfolding simulated_def
proof (intro allI impI)
  fix w fs res and p p' G :: "('a, 'e) program_parser" and m
  assume ex: "exec_built E n (Try expr catch) w fs = Some res" and o: "ok p" and pp: "parse_stmt (Try expr catch) p = Some p'"
    and g: "ext p' G" and m: "arrived (f_exit p) m (b_build p) w"
  let ?G = "script_graph E G" and ?p = "seentrystatement expr p"
  have p1: "ok ?p" "grown p ?p"
    using emit [of "p\<lparr>try_cond := c\<rparr>" for c] o by (cases expr; simp add: seen_simps)+
  show "reaches ?G (f_exit p) fs m (b_build p') (hd (break_stack p)) res"
  proof (cases catch)
    case None
    then have "p' = ?p" using pp by simp
    with try_cases [OF o _ m, of expr G E fs "hd (break_stack p)"] g ex None show ?thesis
      by (auto simp: reaches_def split: sum.splits prod.splits option.splits)
  next
    case (Some t)
    from Some pp obtain p2 p3 where q: "startcatchpart ?p = Some p2" "parse_stmt t p2 = Some p3" "seencatchpart p3 = Some p'"
      by (auto simp: bind_eq_Some_conv Let_def)
    define c where "c = (case expr of Inl a \<Rightarrow> ConditionFalse | Inr x \<Rightarrow> TryCommandResult (b_build p) True)"
    have tc: "try_cond ?p = Some c"
      using o by (cases expr) (simp_all add: seen_simps c_def builder_defs)
    let ?s = "startIfStatement c (setCommand CommandNOP ?p)"
    have p2: "p2 = ?s\<lparr>try_cond := None\<rparr>" using q(1) set_nop [OF p1(1)] tc by (simp add: startcatchpart_def)
    note si = start_if [OF p1(1), of c CommandNOP]
    have o2: "ok p2" unfolding p2 parser_fields by (rule si(1))
    have r: "ok p3" "grown ?s p3" using parse_ok [OF o2 q(2)] by (simp_all add: p2)
    obtain u where u: "endIfBlock p3 = Some u" "ok u" "ext p3 u" "for_incr_command u = for_incr_command p3"
       "break_stack p3 = break_stack ?p" "break_stack u = break_stack ?p"
       "\<forall>u'. ok u' \<and> grown u u' \<longrightarrow> (\<exists>p'. endElseBlock u' = Some p' \<and> ok p' \<and> grown ?p p' \<and>
          for_incr_command p' = for_incr_command u' \<and> ext u' p' \<and> branch_nodes c CommandNOP ?p p3 u u' p')"
      by (rule if_struct [OF p1(1) r])
    have b: "branch_nodes c CommandNOP ?p p3 u u p'" "ext u p'" "grown ?p p'"
      using u(1,2,7) q(3) grown_refl [of u] by (auto simp: seencatchpart_def)
    have e3: "ext p3 G" by (rule ext_trans [OF ext_trans [OF u(3) b(2)] g])
    have e1: "ext ?p G" by (rule ext_trans [OF grown_ext [OF b(3) p1(1)] g])
    note st = branch_steps [OF b(1) g]
    have ne: "b_next ?p \<noteq> b_build ?p" "b_build u \<noteq> b_build ?p" using b(1) by (simp_all add: branch_nodes_def)
    have fx: "f_exit p = f_exit p2" using si(2) grown_same(1) [OF p1(2)] by (simp add: others_same_def p2)
    have bq: "break_stack p2 = break_stack p" using si(6) grown_same(2) [OF p1(2)] by (simp add: p2)
    have bb: "b_build p2 = b_next ?p" using si(3) by (simp add: p2)
    have after: "reaches ?G (f_exit p) fs m1 (b_build p') (hd (break_stack p)) (Done, w1, fs)"
      if c1: "c = ConditionFalse \<or> c = TryCommandResult v True \<and> result (fg_world m1) v"
        and m1: "arrived (f_exit p) m1 (b_build ?p) w1" for m1 w1 v
    proof -
      obtain m2 where m2: "cycles ?G fs m1 = cycles ?G fs m2" "arrived (f_exit p) m2 (b_build u) w1"
        using step_catch [OF m1 st(2,3,4) ne st(1), of False v E fs] c1 by auto
      have "reaches ?G (f_exit p) fs m2 (b_build p') (hd (break_stack p)) (Done, w1, fs)"
        using st(6) [OF m2(2), of E fs] by (auto simp: reaches_def)
      with m2(1) show ?thesis by (rule reaches_after)
    qed
    show ?thesis
    proof (cases expr)
      case (Inl a)
      obtain out w1 where a: "run_action E a w = (out, w1)" by (cases "run_action E a w")
      have "reaches ?G (f_exit p) fs m (b_build ?p) (hd (break_stack p)) (out, w1, fs)"
        using try_cases [OF o e1 m, of E fs "hd (break_stack p)"] Inl a by simp
      moreover have c: "c = ConditionFalse" by (simp add: c_def Inl)
      moreover have r: "res = (out, w1, fs)" using ex Inl a by simp
      ultimately show ?thesis using after unfolding r by (auto intro: reaches_bind)
    next
      case (Inr x)
      obtain v w1 where v: "e_evaluate E x w = (v, w1)" by (cases "e_evaluate E x w")
      obtain m1 where m1: "cycles ?G fs m = cycles ?G fs m1" "arrived (f_exit p) m1 (b_build ?p) w1"
          "result (fg_world m1) (b_build p) = (v \<noteq> None)"
        using try_cases [OF o e1 m, of E fs] Inr v by auto
      have c: "c = TryCommandResult (b_build p) True" by (simp add: c_def Inr)
      have "reaches ?G (f_exit p) fs m1 (b_build p') (hd (break_stack p)) res"
      proof (cases v)
        case (Some y)
        then have r: "res = (Done, w1, fs)" using ex Inr v by simp
        have "result (fg_world m1) (b_build p)" using m1(3) Some by simp
        with c show ?thesis unfolding r by (intro after [OF _ m1(2)]) simp
      next
        case None
        obtain m2 where m2: "cycles ?G fs m1 = cycles ?G fs m2" "arrived (f_exit p) m2 (b_next ?p) w1"
          using step_catch [OF m1(2) st(2,3,4) ne st(1), of True "b_build p" E fs] c m1(3) None by auto
        have "exec_built E n t w1 fs = Some res" using ex Inr v None Some by simp
        from block_simulated [OF s [OF Some] this o2 q(2) e3 m2(2) [folded bb] fx st(5), unfolded bq] m2(1)
        show ?thesis by (rule reaches_after [rotated])
      qed
      with m1(1) show ?thesis by (rule reaches_after)
    qed
  qed
qed

end
