(* ===== verification/ScriptRuns.thy ===== *)
theory ScriptRuns
  imports ScriptCompile
begin

text \<open>
  Whole scripts: which of them the parser accepts, the graph it makes of them, and that running this graph is
  executing the script.
\<close>

section \<open>Scripts\<close>

lemma all_simulated: "simulated E n s"
proof (induction n arbitrary: s)
  case 0
  show ?case
  proof (induction s)
    case (If e s els)
    then show ?case by (cases els) (auto intro: simulated_if)
  next
    case (Try expr catch)
    then show ?case by (cases catch) (auto intro: simulated_try)
  qed (auto intro: simulated_simple simulated_seq simp: simulated_def [of E 0 "While e s" for e s]
      simulated_def [of E 0 "For i e c s" for i e c s])
next
  case (Suc n)
  show ?case
  proof (induction s)
    case (If e s els)
    then show ?case by (cases els) (auto intro: simulated_if)
  next
    case (Try expr catch)
    then show ?case by (cases catch) (auto intro: simulated_try)
  qed (auto intro: simulated_simple simulated_seq simulated_while simulated_for simulated_for_init Suc.IH)
qed

text \<open>A parser between two functions.\<close>

definition between :: "('a, 'e) program_parser \<Rightarrow> bool" where
  "between p \<longleftrightarrow> branch_stack p = [] \<and> break_stack p = []"

lemma start_function:
  assumes "between p"
  shows "ok (startFunction p)" "b_build (startFunction p) = f_start (startFunction p)" "break_stack (startFunction p) = []"
  using assms
  by (simp_all add: between_def startFunction_def ok_def view_defs edges_ok_def add_vertex_def)

lemma parse_breaks:
  assumes "ok p"
  shows "parse_stmt s p = None \<longleftrightarrow> \<not> breaks_ok (break_stack p \<noteq> []) s"
  using assms
proof (induction s arbitrary: p)
  case (Seq s t)
  show ?case
  proof (cases "parse_stmt s p")
    case None
    then show ?thesis using Seq.IH(1) [OF Seq.prems] by simp
  next
    case (Some p1)
    then show ?thesis using Seq.IH(1) [OF Seq.prems] Seq.IH(2) [of p1] parse_ok [OF Seq.prems Some] grown_same(2) by fastforce
  qed
next
  case (If e s els)
  note si = start_if [OF If.prems, of "EvalCommandResult (b_build p)" "EvalCommand (b_build p) e", folded seenifstatement_def]
  show ?case
  proof (cases "parse_stmt s (seenifstatement e p)")
    case None
    then show ?thesis using If.IH(1) [OF si(1)] si(6) by simp
  next
    case (Some r)
    have r: "ok r" "grown (seenifstatement e p) r" using parse_ok [OF si(1) Some] by simp_all
    obtain u where u: "endIfBlock r = Some u" "ok u" "ext r u" "for_incr_command u = for_incr_command r"
       "break_stack r = break_stack p" "break_stack u = break_stack p"
       "\<forall>u'. ok u' \<and> grown u u' \<longrightarrow> (\<exists>p'. endElseBlock u' = Some p' \<and> ok p' \<and> grown p p' \<and>
          for_incr_command p' = for_incr_command u' \<and> ext u' p' \<and>
          branch_nodes (EvalCommandResult (b_build p)) (EvalCommand (b_build p) e) p r u u' p')"
      by (rule if_struct [OF If.prems r(1) r(2) [unfolded seenifstatement_def]])
    have s: "breaks_ok (break_stack p \<noteq> []) s" using If.IH(1) [OF si(1)] si(6) Some by simp
    show ?thesis
    proof (cases els)
      case None
      then show ?thesis using Some u(1,2,7) grown_refl [of u] s by fastforce
    next
      case (Some t)
      have t: "parse_stmt t u = None \<longleftrightarrow> \<not> breaks_ok (break_stack p \<noteq> []) t" using If.IH(2) [of t u] Some u(2,6) by simp
      show ?thesis
      proof (cases "parse_stmt t u")
        case None
        then show ?thesis using Some u(1) t \<open>parse_stmt s _ = Some r\<close> by simp
      next
        case (Some u')
        then obtain p' where "endElseBlock u' = Some p'" using u(7) parse_ok [OF u(2) Some] by blast
        then show ?thesis using Some \<open>els = Some t\<close> u(1) t s \<open>parse_stmt s _ = Some r\<close> by simp
      qed
    qed
  qed
next
  case (While e s)
  note sw = start_while [OF While.prems, of "EvalCommandResult (b_build p)" "EvalCommand (b_build p) e", folded seenwhilestatement_def]
  show ?case
  proof (cases "parse_stmt s (seenwhilestatement e p)")
    case None
    then show ?thesis using While.IH [OF sw(1)] sw(6) by simp
  next
    case (Some r)
    have r: "ok r" "grown (seenwhilestatement e p) r" using parse_ok [OF sw(1) Some] by simp_all
    obtain p' where "endWhileBlock r = Some p'" by (rule loop_struct [OF While.prems r])
    then show ?thesis using While.IH [OF sw(1)] sw(6) Some by simp
  qed
next
  case (For init e incr s)
  let ?p1 = "p\<lparr>for_init_command := init, for_incr_command := incr # for_incr_command p\<rparr>"
  define p0 where "p0 = (emit_optional init ?p1)\<lparr>for_init_command := None\<rparr>"
  have p0: "ok p0" "for_incr_command p0 = incr # for_incr_command p"
    using emit_optional [of ?p1 init] For.prems by (simp_all add: p0_def)
  have f: "seenforstatement e ?p1 = seenwhilestatement e p0" by (simp only: p0_def seen_simps)
  note sw = start_while [OF p0(1), of "EvalCommandResult (b_build p0)" "EvalCommand (b_build p0) e", folded seenwhilestatement_def]
  show ?case
  proof (cases "parse_stmt s (seenwhilestatement e p0)")
    case None
    then show ?thesis using For.IH [OF sw(1)] sw(6) f by simp
  next
    case (Some r)
    have r: "ok r" "grown (seenwhilestatement e p0) r" "for_incr_command r = incr # for_incr_command p"
      using parse_ok [OF sw(1) Some] sw(7) p0(2) by simp_all
    let ?rest = "r\<lparr>for_incr_command := for_incr_command p\<rparr>"
    have o': "ok ?rest" unfolding parser_fields by (rule r(1))
    have "grown r (emit_optional incr ?rest)" using emit_optional(2) [OF o', of incr] by (simp only: parser_fields)
    then have "grown (seenwhilestatement e p0) (emit_optional incr ?rest)" by (rule grown_trans [OF r(2) _ sw(1)])
    then obtain p' where "endWhileBlock (emit_optional incr ?rest) = Some p'"
      by (rule loop_struct [OF p0(1) emit_optional(1) [OF o']])
    then show ?thesis using For.IH [OF sw(1)] sw(6) Some f endfor [OF r(3)] by simp
  qed
next
  case (Try expr catch)
  let ?p1 = "seentrystatement expr p"
  have p1: "ok ?p1" "grown p ?p1"
    using emit [of "p\<lparr>try_cond := c\<rparr>" for c] Try.prems by (cases expr; simp add: seen_simps)+
  show ?case
  proof (cases catch)
    case None
    then show ?thesis by simp
  next
    case (Some s)
    define c where "c = (case expr of Inl a \<Rightarrow> ConditionFalse | Inr x \<Rightarrow> TryCommandResult (b_build p) True)"
    have tc: "try_cond ?p1 = Some c" using Try.prems by (cases expr) (simp_all add: seen_simps c_def builder_defs)
    let ?s = "startIfStatement c (setCommand CommandNOP ?p1)"
    have p2: "startcatchpart ?p1 = Some (?s\<lparr>try_cond := None\<rparr>)" using set_nop [OF p1(1)] tc by (simp add: startcatchpart_def)
    note si = start_if [OF p1(1), of c CommandNOP]
    have o2: "ok (?s\<lparr>try_cond := None\<rparr>)" unfolding parser_fields by (rule si(1))
    have b: "break_stack ?s = break_stack p" using si(6) grown_same(2) [OF p1(2)] by simp
    note ih = Try.IH [of s, OF _ o2]
    show ?thesis
    proof (cases "parse_stmt s (?s\<lparr>try_cond := None\<rparr>)")
      case None
      then show ?thesis using ih Some b p2 by (simp add: Let_def)
    next
      case r: (Some r)
      have r': "ok r" "grown ?s r" using parse_ok [OF o2 r] by simp_all
      obtain u where u: "endIfBlock r = Some u" "ok u" "ext r u" "for_incr_command u = for_incr_command r"
         "break_stack r = break_stack ?p1" "break_stack u = break_stack ?p1"
         "\<forall>u'. ok u' \<and> grown u u' \<longrightarrow> (\<exists>p'. endElseBlock u' = Some p' \<and> ok p' \<and> grown ?p1 p' \<and>
            for_incr_command p' = for_incr_command u' \<and> ext u' p' \<and> branch_nodes c CommandNOP ?p1 r u u' p')"
        by (rule if_struct [OF p1(1) r'])
      then obtain p' where "seencatchpart r = Some p'" using grown_refl [of u] by (auto simp: seencatchpart_def)
      then show ?thesis using ih Some b p2 r by (simp add: Let_def)
    qed
  qed
qed (auto simp: seenbreakstatement_def inLoop_def)

text \<open>A statement whose breaks stand in its own loops does not break out of itself.\<close>

lemma action_not_broken [simp]:
  "run_action E a w = (Broken, w') \<longleftrightarrow> False" "run_optional E ac w = (Broken, w') \<longleftrightarrow> False"
  by (simp_all add: run_optional_def run_action_def split: option.splits prod.splits)

lemma while_not_broken: "exec_built E n (While e s) w fs = Some (Broken, w', fs') \<longleftrightarrow> False"
proof (induction n arbitrary: w fs)
  case (Suc n)
  then show ?case by (simp split: option.split prod.split outcome.split)
qed simp

lemma for_not_broken: "exec_built E n (For init e incr s) w fs = Some (Broken, w', fs') \<longleftrightarrow> False"
proof (induction n arbitrary: w fs init)
  case (Suc n)
  then show ?case by (simp split: option.split prod.split outcome.split)
qed simp

lemma exec_not_broken: "breaks_ok False s \<Longrightarrow> exec_built E n s w fs = Some (Broken, w', fs') \<longleftrightarrow> False"
proof (induction s arbitrary: w fs)
  case (Seq s t)
  then show ?case by (auto split: option.split prod.split outcome.split)
next
  case (If e s els)
  then show ?case by (cases els) (simp_all split: option.split prod.split)
next
  case (Try expr catch)
  then show ?case by (cases expr; cases catch) (simp_all split: option.split prod.split)
qed (simp_all add: while_not_broken for_not_broken split: list.split prod.split outcome.split)

section \<open>Functions\<close>

text \<open>The end of a function: its last vertex leads to the exit, and the two vertices that were not used go away.\<close>

lemma parse_function_parts:
  assumes "parse_function s p = Some G" and "between p"
  obtains q r where "parse_stmt s (startFunction p) = Some q" "ok q" "grown (startFunction p) q"
    "r = proceedToNext (addConditionEdge ConditionTrue (f_exit q) q)" "ok r" "ext r r" "ext q r" "G = endFunction r"
    "b_build r = b_next q" "f_exit r = f_exit q" "f_start r = f_start q"
proof -
  note st = start_function [OF assms(2)]
  obtain q where q: "parse_stmt s (startFunction p) = Some q" "G = bodyParserResult q"
    using assms(1) by (auto simp: parse_function_def)
  have o: "ok q" "grown (startFunction p) q" using parse_ok [OF st(1) q(1)] by simp_all
  have t: "f_exit q \<in> verts q" "f_exit q \<noteq> b_next q" using o(1) by (auto simp: ok_def opens_def)
  define r where "r = proceedToNext (addConditionEdge ConditionTrue (f_exit q) q)"
  note j = jump [OF o(1) t, folded r_def]
  show thesis
  proof (rule that [OF q(1) o r_def j(1)])
    show "ext r r" by (simp add: ext_def)
    show "ext q r" by (rule grown_ext [OF j(2) o(1)])
    show "G = endFunction r"
      by (simp add: q(2) bodyParserResult_def returnFunction_def r_def addConditionEdge_def)
    show "f_exit r = f_exit q" "f_start r = f_start q" using grown_same [OF j(2)] by simp_all
    show "b_build r = b_next q" by (simp add: r_def builder_defs)
  qed
qed

lemma endFunction_graph [simp]:
  "script_graph E (endFunction r) = script_graph E r" "f_start (endFunction r) = f_start r" "f_exit (endFunction r) = f_exit r"
  by (simp_all add: endFunction_def script_graph_def)

text \<open>The parser accepts a script exactly if each of its break statements stands in a loop.\<close>

theorem parser_accepts_iff:
  assumes "between p"
  shows "(\<exists>G. parse_function s p = Some G) \<longleftrightarrow> breaks_ok False s"
  using parse_breaks [OF start_function(1) [OF assms], of s] start_function(3) [OF assms]
  by (auto simp: parse_function_def)

lemma parser_accepts_iff_witness:
  "(\<exists>G. parse_function (While () (Seq (Do True) Break)) parser_new = Some G) \<and>
   \<not> (\<exists>G. parse_function (Seq (While () (Do True)) Break) parser_new = Some G)"
proof -
  have "between parser_new" by (simp add: between_def parser_new_def)
  from parser_accepts_iff [OF this, of "While () (Seq (Do True) Break)"]
    parser_accepts_iff [OF this, of "Seq (While () (Do True)) Break"]
  show ?thesis by simp
qed

text \<open>C30: The graph of a function is closed: its first vertex, its exit and the ends of all its edges are
  vertices that it keeps, each edge has its own condition, and no edge leaves the exit.\<close>

theorem parsed_graph_closed:
  assumes "between p" and "parse_function s p = Some G"
  shows "f_start G \<in> set (g_vertices G) \<and> f_exit G \<in> set (g_vertices G) \<and> f_start G \<noteq> f_exit G \<and> g_out G (f_exit G) = [] \<and>
    (\<forall>v \<in> set (g_vertices G). \<forall>(e, t) \<in> set (g_out G v). e < g_ecount G \<and> t \<in> set (g_vertices G))"
proof -
  obtain q r where q: "parse_stmt s (startFunction p) = Some q" "ok q" "grown (startFunction p) q"
    "r = proceedToNext (addConditionEdge ConditionTrue (f_exit q) q)" "ok r" "ext r r" "ext q r" "G = endFunction r"
    "b_build r = b_next q" "f_exit r = f_exit q" "f_start r = f_start q"
    by (rule parse_function_parts [OF assms(2,1)])
  have g: "set (g_vertices G) = {v \<in> verts r. v \<noteq> b_next q \<and> v \<noteq> b_next r}" "g_out G = g_out r" "g_ecount G = g_ecount r"
    using q(9) by (auto simp: q(8) endFunction_def verts_def)
  have t: "t \<noteq> b_next q" if "v \<in> verts r" "v \<noteq> b_next q" "v \<noteq> b_next r" "(e, t) \<in> set (g_out r v)" for v e t
  proof -
    have "v = b_build q \<and> (e, t) \<in> set (g_out q v @ [(g_ecount q, f_exit q)]) \<or> v \<in> verts q \<and> (e, t) \<in> set (g_out q v)"
      using that by (auto simp: q(4) builder_defs verts_def split: if_splits)
    then show ?thesis using q(2) by (auto simp: ok_def opens_def edges_ok_def)
  qed
  have r: "f_exit r \<in> verts r" "f_exit r \<notin> opens r" "f_start r \<in> verts r" "f_start r \<noteq> b_next r" "f_start r \<noteq> f_exit r"
      "node r (f_exit r) = blank" "edges_ok r" using q(5) by (simp_all add: ok_def)
  have s: "f_start r \<noteq> b_next q" "f_exit r \<noteq> b_next q" using q(2) by (auto simp: q(10,11) ok_def opens_def)
  have "e < g_ecount r \<and> t \<in> set (g_vertices G)" if "v \<in> set (g_vertices G)" "(e, t) \<in> set (g_out r v)" for v e t
    using r(7) that t [of v e t] unfolding edges_ok_def g(1) by fastforce
  then have "\<forall>v \<in> set (g_vertices G). \<forall>(e, t) \<in> set (g_out G v). e < g_ecount G \<and> t \<in> set (g_vertices G)"
    unfolding g(2,3) by blast
  moreover have "f_start G = f_start r" "f_exit G = f_exit r" by (simp_all add: q(8))
  ultimately show ?thesis using r(1-6) s by (simp add: g(2) node_def) (simp add: g(1) opens_def)
qed

lemma parsed_graph_closed_witness:
  "\<exists>G. parse_function (While () (Do True)) parser_new = Some G \<and> f_start G \<in> set (g_vertices G) \<and> g_out G (f_exit G) = []"
proof -
  have b: "between parser_new" by (simp add: between_def parser_new_def)
  obtain G where "parse_function (While () (Do True)) parser_new = Some G"
    by (auto simp: parse_function_def bodyParserResult_def seenwhilestatement_def startWhileStatement_def endWhileBlock_def
        startFunction_def seen_simps builder_defs parser_new_def seenstatement_def buildEdges_def Let_def)
  with parsed_graph_closed [OF b this] show ?thesis by blast
qed

text \<open>The run of a compiled function.\<close>

lemma compiled_run:
  assumes "between p" and "parse_function s p = Some G"
    and "isLoaded m" "pStatus m = PStopped" "\<not> pausing m" "startv m = f_start G" "exitv m = f_exit G"
    and "exec_built E n s (user (fg_world m)) fs = Some (out, w', fs')"
  shows "\<exists>m'. cycles (script_graph E G) fs (snd (fg_start m)) = Some m' \<and> user (fg_world m') = w' \<and>
    pStatus m' = (if out = Failed then PError else PStopped)"
proof -
  obtain q r where q: "parse_stmt s (startFunction p) = Some q" "ok q" "grown (startFunction p) q"
    "r = proceedToNext (addConditionEdge ConditionTrue (f_exit q) q)" "ok r" "ext r r" "ext q r" "G = endFunction r"
    "b_build r = b_next q" "f_exit r = f_exit q" "f_start r = f_start q"
    by (rule parse_function_parts [OF assms(2,1)])
  let ?G = "script_graph E r" and ?x = "f_exit q"
  note st = start_function [OF assms(1)]
  have fx: "f_exit (startFunction p) = ?x" "f_start (startFunction p) = f_start q" using grown_same [OF q(3)] by simp_all
  have ne: "f_start q \<noteq> ?x" using q(2) by (simp add: ok_def)
  define m0 where "m0 = m\<lparr>fg_current := startv m, fg_previous := exitv m, pStatus := PRunning\<rparr>"
  have s: "snd (fg_start m) = m0" using assms(3,4) by (simp add: fg_start_def fg_reset_def fg_stop_def m0_def)
  have a: "arrived (f_exit (startFunction p)) m0 (b_build (startFunction p)) (user (fg_world m))"
    using assms(5,6,7) ne by (simp add: m0_def arrived_def running_def fx st(2) q(8,10,11))
  have R: "reaches ?G ?x fs m0 (b_build q) (hd (break_stack (startFunction p))) (out, w', fs')"
    using simulatedD [OF all_simulated assms(8) st(1) q(1,7) a refl refl refl] by (simp add: fx)
  have ext: "g_out r ?x = []" "g_command r ?x = CommandNOP" using q(5) by (simp_all add: ok_def node_def flip: q(10))
  have fin: "\<exists>m'. cycles ?G fs1 m1 = Some m' \<and> pStatus m' = PStopped \<and> user (fg_world m') = w1"
    if "arrived ?x m1 ?x w1" for m1 w1 fs1
    by (rule step_exit [OF that ext])
  have t: "f_exit q \<in> verts q" "f_exit q \<noteq> b_next q" "f_exit q \<noteq> b_build q" using q(2) by (auto simp: ok_def opens_def)
  note j = jump [OF q(2) t(1,2), folded q(4)]
  have lst: "\<exists>m2. cycles ?G fs1 m1 = cycles ?G fs1 m2 \<and> arrived ?x m2 ?x w1" if "arrived ?x m1 (b_build q) w1" for m1 w1 fs1
    by (rule step_true [OF that j(6,8) t(3) j(5)])
  have "breaks_ok False s" using parse_breaks [OF st(1), of s] q(1) st(3) by simp
  then have nb: "out \<noteq> Broken" using assms(8) exec_not_broken by fastforce
  show ?thesis
    unfolding s q(8) endFunction_graph
  proof (cases "out = Failed")
    case True
    then show "\<exists>m'. cycles ?G fs m0 = Some m' \<and> user (fg_world m') = w' \<and> pStatus m' = (if out = Failed then PError else PStopped)"
      using R by (auto simp: reaches_def)
  next
    case False
    with R obtain m1 where m1: "cycles ?G fs m0 = cycles ?G fs' m1"
        "arrived ?x m1 (case out of Broken \<Rightarrow> hd (break_stack (startFunction p)) | Returned \<Rightarrow> ?x | _ \<Rightarrow> b_build q) w'"
      by (auto simp: reaches_def)
    then obtain m2 where "cycles ?G fs' m1 = cycles ?G fs' m2" "arrived ?x m2 ?x w'"
      using lst [of m1 w' fs'] False nb by (cases out) auto
    with fin [of m2 w' fs'] m1(1) False
    show "\<exists>m'. cycles ?G fs m0 = Some m' \<and> user (fg_world m') = w' \<and> pStatus m' = (if out = Failed then PError else PStopped)"
      by auto
  qed
qed

text \<open>C20: Executing the graph of a script is executing the script by the semantics \<open>exec\<close>, which is that of the
  scripting manual: when the script ends in a state, for given
  actions, expressions and changes of the world between cycles, then the engine's cycles end with that state, with
  the function in error if an action or condition failed and stopped otherwise. It is shown of scripts whose try
  statements are of expressions with a boolean result, or of methods that never fail (\<open>tries_ok\<close>). The failure of another
  method is not intercepted, against the manual (\<open>try_not_caught\<close>): there the engine follows \<open>exec_built\<close> (\<open>compiled_run\<close>).\<close>

theorem compiled_script_executes_source:
  assumes "between p" and "parse_function s p = Some G"
    and "isLoaded m" "pStatus m = PStopped" "\<not> pausing m" "startv m = f_start G" "exitv m = f_exit G"
    and "tries_ok E s" and "exec E n s (user (fg_world m)) fs = Some (out, w', fs')"
  shows "\<exists>m'. cycles (script_graph E G) fs (snd (fg_start m)) = Some m' \<and> user (fg_world m') = w' \<and>
    pStatus m' = (if out = Failed then PError else PStopped)"
  by (rule compiled_run [OF assms(1-7)]) (rule assms(9) [unfolded exec_built_exec [OF assms(8), of True]])

text \<open>A script that counts to three, and waits after each step while something else counts too; it then counts to five,
  where its boolean expression fails, and counts on in the catch clause.\<close>

definition counting_env :: "(unit, unit, nat) script_env" where
  "counting_env = \<lparr>a_read = (\<lambda>_ w. (True, w)), a_exec = (\<lambda>_ w. (True, w + 1)),
     e_evaluate = (\<lambda>_ w. (if w = 5 then None else Some (w < 3), w))\<rparr>"

definition counting_script :: "(unit, unit) stmt" where
  "counting_script = Seq (While () (Seq (Try (Inl ()) None) Yield)) (Seq (Do ()) (Seq (Do ()) (Try (Inr ()) (Some (Do ())))))"

lemma counting_exec: "exec counting_env 3 counting_script 0 [Suc, \<lambda>w. w] = Some (Done, 6, [])"
  by (simp add: counting_script_def counting_env_def run_action_def eval_nat_numeral)

lemma counting_tries: "tries_ok counting_env counting_script"
  by (simp add: counting_script_def counting_env_def run_action_def)

lemma compiled_script_executes_source_witness:
  "\<exists>G m'. parse_function counting_script parser_new = Some G \<and>
     cycles (script_graph counting_env G) [Suc, \<lambda>w. w]
       (snd (fg_start (fg_loading (fg_finish (fg_new False (f_start G) (f_exit G)
          \<lparr>user = 0, ds_value = (\<lambda>_. False), result = (\<lambda>_. False), ran = (\<lambda>_. False)\<rparr>))))) = Some m' \<and>
     user (fg_world m') = 6 \<and> pStatus m' = PStopped"
proof -
  have b: "between parser_new" by (simp add: between_def parser_new_def)
  obtain G where G: "parse_function counting_script parser_new = Some G"
    using parse_breaks [OF start_function(1) [OF b], of counting_script]
    by (auto simp: parse_function_def counting_script_def)
  let ?m = "fg_loading (fg_finish (fg_new False (f_start G) (f_exit G)
      \<lparr>user = 0::nat, ds_value = (\<lambda>_. False), result = (\<lambda>_. False), ran = (\<lambda>_. False)\<rparr>))"
  have m: "isLoaded ?m" "pStatus ?m = PStopped" "\<not> pausing ?m" "startv ?m = f_start G" "exitv ?m = f_exit G" "user (fg_world ?m) = 0"
    by (simp_all add: fg_loading_def fg_finish_def fg_new_def fg_reset_def fg_stop_def)
  from compiled_script_executes_source [OF b G m(1-5) counting_tries, of 3 "[Suc, \<lambda>w. w]" Done 6 "[]"]
  show ?thesis using G by (auto simp: m(6) counting_exec)
qed

text \<open>An exception in the expression of a try statement is caught only if the expression is boolean: otherwise
  the function is in error, and its catch block is not executed.\<close>

lemma try_not_caught:
  assumes "between p" and "parse_function (Try (Inl a) (Some s)) p = Some G"
    and "isLoaded m" "pStatus m = PStopped" "\<not> pausing m" "startv m = f_start G" "exitv m = f_exit G"
    and "run_action E a (user (fg_world m)) = (Failed, w')"
  shows "\<exists>m'. cycles (script_graph E G) fs (snd (fg_start m)) = Some m' \<and> user (fg_world m') = w' \<and> pStatus m' = PError"
  using compiled_run [OF assms(1-7), of E 0 fs Failed w' fs] assms(8) by simp

end
