(* ===== verification/PropertyBags.thy ===== *)
theory PropertyBags
  imports OroPrelude "HOL-Library.Monad_Syntax"
begin

text \<open>
  Property bags (\<^verbatim>\<open>rtt/PropertyBag.cpp\<close>, \<^verbatim>\<open>rtt/Property.hpp\<close>) as trees: the functions that search, list,
  store, remove, copy, update, refresh and flatten the properties of nested bags. A property that was added to a bag
  is ready. The type system (which C++ types are equal, the conversions and compositions that were registered, the
  type a name stands for) is a parameter, the record \<open>type_system\<close>. Where the code changes a bag and then fails, the
  changed bag is part of the result.
\<close>

section \<open>Properties\<close>

datatype 'v property = Prop (prop_name: string) (prop_descr: string) (prop_value: "'v pvalue")
  and 'v pvalue = Val 'v | Bag string "'v property list"

abbreviation is_bag :: "'v property \<Rightarrow> bool" where
  "is_bag p \<equiv> (case prop_value p of Bag _ _ \<Rightarrow> True | Val _ \<Rightarrow> False)"

text \<open>The type information: whether two values have the same C++ type, and the conversion and the composition of
  a value of another type; names of types are looked up in the repository of types; \<open>default_value\<close> is the
  default value of the type of a value.\<close>

record 'v type_system =
  same_type :: "'v \<Rightarrow> 'v \<Rightarrow> bool"
  convert :: "'v \<Rightarrow> 'v pvalue \<Rightarrow> 'v option"
  compose :: "'v \<Rightarrow> 'v pvalue \<Rightarrow> bool \<times> 'v"
  type_named :: "string \<Rightarrow> nat option"
  bag_type :: "nat option"
  default_value :: "'v \<Rightarrow> 'v"

section \<open>One bag\<close>

definition bag_find :: "'v property list \<Rightarrow> string \<Rightarrow> 'v property option" where
  "bag_find ps name = find (\<lambda>p. prop_name p = name) ps"

definition bag_getProperties :: "'v property list \<Rightarrow> string \<Rightarrow> 'v property list" where
  "bag_getProperties ps name = filter (\<lambda>p. prop_name p = name) ps"

definition bag_getItem :: "'v property list \<Rightarrow> nat \<Rightarrow> 'v property option" where
  "bag_getItem ps i = (if i < length ps then Some (ps ! i) else None)"

definition bag_list :: "'v property list \<Rightarrow> string list" where
  "bag_list ps = map prop_name ps"

text \<open>A property that is not ready, or a null pointer, is \<open>None\<close>.\<close>

definition bag_add :: "'v property option \<Rightarrow> 'v property list \<Rightarrow> bool \<times> 'v property list" where
  "bag_add p ps = (case p of None \<Rightarrow> (False, ps) | Some q \<Rightarrow> (True, ps @ [q]))"

text \<open>Removes the first property of that name: the one that \<open>bag_find\<close> finds.\<close>

fun bag_remove :: "string \<Rightarrow> 'v property list \<Rightarrow> bool \<times> 'v property list" where
  "bag_remove name [] = (False, [])"
| "bag_remove name (p # ps) =
     (if prop_name p = name then (True, ps) else (case bag_remove name ps of (ok, qs) \<Rightarrow> (ok, p # qs)))"

text \<open>Change the first property of that name.\<close>

fun bag_modify :: "string \<Rightarrow> ('v property \<Rightarrow> 'v property) \<Rightarrow> 'v property list \<Rightarrow> 'v property list" where
  "bag_modify name f [] = []"
| "bag_modify name f (p # ps) = (if prop_name p = name then f p # ps else p # bag_modify name f ps)"

section \<open>Strings\<close>

text \<open>\<^verbatim>\<open>std::string::find\<close>, \<^verbatim>\<open>rfind\<close> and \<^verbatim>\<open>substr\<close>; \<open>None\<close> is \<^verbatim>\<open>npos\<close>.\<close>

definition occurs_at :: "string \<Rightarrow> string \<Rightarrow> nat \<Rightarrow> bool" where
  "occurs_at pat s i \<longleftrightarrow> i + length pat \<le> length s \<and> take (length pat) (drop i s) = pat"

definition str_find :: "string \<Rightarrow> string \<Rightarrow> nat \<Rightarrow> nat option" where
  "str_find pat s start = find (occurs_at pat s) [start ..< Suc (length s)]"

definition str_rfind :: "string \<Rightarrow> string \<Rightarrow> nat option" where
  "str_rfind pat s = find (occurs_at pat s) (rev [0 ..< Suc (length s)])"

definition substr :: "string \<Rightarrow> nat \<Rightarrow> nat \<Rightarrow> string" where
  "substr s start n = take n (drop start s)"

section \<open>Paths\<close>

text \<open>The first name of a path, and where the rest starts.\<close>

definition path_token :: "string \<Rightarrow> string \<Rightarrow> string \<times> nat option" where
  "path_token path sep =
     (let start = (if length sep \<noteq> 0 \<and> str_find sep path 0 = Some 0 then length sep else 0) in
      case str_find sep path start of
        Some len \<Rightarrow>
          (substr path start (len - start),
           (let next = len + length sep in if next \<ge> length path then None else Some next))
      | None \<Rightarrow> (drop start path, None))"

function findProperty :: "'v property list \<Rightarrow> string \<Rightarrow> string \<Rightarrow> 'v property option" where
  "findProperty bag path sep =
     (case path_token path sep of (token, start) \<Rightarrow>
        case bag_find bag token of
          None \<Rightarrow> None
        | Some p \<Rightarrow>
            (case (prop_value p, start) of
               (Bag _ ps, Some i) \<Rightarrow> findProperty ps (drop i path) sep
             | _ \<Rightarrow> Some p))"
  by pat_completeness auto

lemma size_bag_find:
  assumes "bag_find bag name = Some p" and "prop_value p = Bag t ps"
  shows "size_list size ps < size_list size bag"
proof -
  have "p \<in> set bag" using assms(1) by (auto simp: bag_find_def find_Some_iff)
  then have "size p \<le> size_list size bag" by (rule size_list_estimation') simp
  moreover have "size_list size ps < size p" using assms(2) by (cases p) simp
  ultimately show ?thesis by simp
qed

termination findProperty
  by (relation "measure (\<lambda>(bag, _). size_list size bag)") (auto dest: size_bag_find [OF _ sym])

fun listPropertiesHelper :: "string \<Rightarrow> string \<Rightarrow> 'v property list \<Rightarrow> string list" where
  "listPropertiesHelper sep prefix [] = []"
| "listPropertiesHelper sep prefix (Prop n d v # ps) =
     (let itemname = (if prefix = [] then n else prefix @ sep @ n) in
      itemname # (case v of Bag _ qs \<Rightarrow> listPropertiesHelper sep itemname qs | Val _ \<Rightarrow> []) @
        listPropertiesHelper sep prefix ps)"

definition listProperties :: "'v property list \<Rightarrow> string \<Rightarrow> string list" where
  "listProperties bag sep = listPropertiesHelper sep [] bag"

fun listPropertyDescriptions :: "'v property list \<Rightarrow> string list" where
  "listPropertyDescriptions [] = []"
| "listPropertyDescriptions (Prop n d v # ps) =
     d # (case v of Bag _ qs \<Rightarrow> listPropertyDescriptions qs | Val _ \<Rightarrow> []) @ listPropertyDescriptions ps"

text \<open>The code does not return if the separator is empty: the path never gets shorter.\<close>

partial_function (option) storeProperty ::
    "'v property list \<Rightarrow> string \<Rightarrow> 'v property option \<Rightarrow> string \<Rightarrow> (bool \<times> 'v property list) option" where
  "storeProperty bag path item sep =
     (if path = [] \<or> path = sep then Some (bag_add item bag)
      else
        let (pname, rest) =
          (case str_find sep path 0 of
             Some i \<Rightarrow> (substr path 0 i, drop (i + length sep) path)
           | None \<Rightarrow> (path, [])) in
        if pname = [] \<and> rest \<noteq> [] then storeProperty bag rest item sep
        else
          let bag1 = (case bag_find bag pname of None \<Rightarrow> bag @ [Prop pname [] (Bag ''PropertyBag'' [])] | Some _ \<Rightarrow> bag) in
          case bag_find bag1 pname of
            None \<Rightarrow> None
          | Some parent \<Rightarrow>
              (case prop_value parent of
                 Val _ \<Rightarrow> Some (False, bag1)
               | Bag t ps \<Rightarrow>
                   do {
                     (ok, qs) \<leftarrow> storeProperty ps rest item sep;
                     Some (ok, bag_modify pname (\<lambda>p. Prop (prop_name p) (prop_descr p) (Bag t qs)) bag1)
                   }))"

text \<open>Change the bag at a path, as \<^verbatim>\<open>findProperty\<close> finds it.\<close>

function modify_bag_at :: "'v property list \<Rightarrow> string \<Rightarrow> string \<Rightarrow> ('v property list \<Rightarrow> bool \<times> 'v property list) \<Rightarrow> bool \<times> 'v property list" where
  "modify_bag_at bag path sep f =
     (case path_token path sep of (token, start) \<Rightarrow>
        case bag_find bag token of
          None \<Rightarrow> (False, bag)
        | Some p \<Rightarrow>
            (case prop_value p of
               Val _ \<Rightarrow> (False, bag)
             | Bag t ps \<Rightarrow>
                 (case (case start of Some i \<Rightarrow> modify_bag_at ps (drop i path) sep f | None \<Rightarrow> f ps) of (ok, qs) \<Rightarrow>
                    (ok, bag_modify token (\<lambda>p. Prop (prop_name p) (prop_descr p) (Bag t qs)) bag))))"
  by pat_completeness auto

termination modify_bag_at
  by (relation "measure (\<lambda>(bag, _). size_list size bag)") (auto dest: size_bag_find [OF _ sym])

text \<open>The parent is searched with the default separator, not with the given one.\<close>

definition removeProperty :: "'v property list \<Rightarrow> string \<Rightarrow> string \<Rightarrow> bool \<times> 'v property list" where
  "removeProperty bag path sep =
     (if path = [] \<or> path = sep then (False, bag)
      else if str_find sep path 0 = None then bag_remove path bag
      else (case str_rfind sep path of
          None \<Rightarrow> (False, bag)
        | Some i \<Rightarrow>
            (let prefix = substr path 0 i; pname = drop (i + length sep) path in
             if prefix = [] then bag_remove pname bag
             else modify_bag_at bag prefix ''.'' (bag_remove pname))))"

section \<open>Copy, update and refresh\<close>

text \<open>\<^verbatim>\<open>Property::copy\<close> into a property that \<^verbatim>\<open>create\<close> made: the copy of a bag has the type of an empty bag.\<close>

fun copy_prop :: "'v property \<Rightarrow> 'v property" where
  "copy_prop (Prop n d (Val v)) = Prop n d (Val v)"
| "copy_prop (Prop n d (Bag t ps)) = Prop n d (Bag ''PropertyBag'' (map copy_prop ps))"

definition copyProperties :: "'v property list \<Rightarrow> 'v property list \<Rightarrow> 'v property list" where
  "copyProperties target source = target @ map copy_prop source"

text \<open>What \<^verbatim>\<open>updateOrRefreshProperty\<close> tries when the types differ: a conversion, then a composition. For a
  target that is a bag, none is registered.\<close>

definition convert_or_compose :: "'v type_system \<Rightarrow> 'v pvalue \<Rightarrow> 'v property \<Rightarrow> bool \<times> 'v property" where
  "convert_or_compose T source target =
     (case prop_value target of
        Bag _ _ \<Rightarrow> (False, target)
      | Val b \<Rightarrow>
          (case convert T b source of
             Some v \<Rightarrow> (True, Prop (prop_name target) (prop_descr target) (Val v))
           | None \<Rightarrow> (case compose T b source of (ok, v) \<Rightarrow> (ok, Prop (prop_name target) (prop_descr target) (Val v)))))"

definition new_descr :: "string \<Rightarrow> string \<Rightarrow> string" where
  "new_descr mine other = (if mine = [] then other else mine)"

definition types_differ :: "'v type_system \<Rightarrow> string \<Rightarrow> string \<Rightarrow> bool" where
  "types_differ T target source \<longleftrightarrow>
     type_named T target \<noteq> bag_type T \<and> type_named T target \<noteq> type_named T source"

text \<open>Update: \<open>update_prop\<close> is \<^verbatim>\<open>updateOrRefreshProperty\<close> with \<^verbatim>\<open>Property::update\<close>; \<open>update_named\<close> the
  body of the loop of \<^verbatim>\<open>updateProperties\<close> for one name, \<open>update_names\<close> the loop; \<open>new_prop\<close> is \<^verbatim>\<open>create\<close> and
  \<^verbatim>\<open>update\<close> of the new property.\<close>

function (sequential) update_prop :: "'v type_system \<Rightarrow> 'v property \<Rightarrow> 'v property \<Rightarrow> bool \<times> 'v property"
  and new_prop :: "'v type_system \<Rightarrow> 'v property \<Rightarrow> 'v property"
  and update_named :: "'v type_system \<Rightarrow> string \<Rightarrow> 'v property list \<Rightarrow> 'v property list \<Rightarrow> bool \<times> 'v property list"
  and update_names :: "'v type_system \<Rightarrow> string list \<Rightarrow> 'v property list \<Rightarrow> 'v property list \<Rightarrow> bool \<times> 'v property list"
  and updateProperties :: "'v type_system \<Rightarrow> string \<times> 'v property list \<Rightarrow> string \<times> 'v property list \<Rightarrow> bool \<times> string \<times> 'v property list"
where
  "update_prop T (Prop n d (Val a)) (Prop m e (Val b)) =
     (if same_type T a b then (True, Prop m (new_descr e d) (Val a))
      else convert_or_compose T (Val a) (Prop m e (Val b)))"
| "update_prop T (Prop n d (Bag s ps)) (Prop m e (Bag t qs)) =
     (case updateProperties T (t, qs) (s, ps) of (ok, t', qs') \<Rightarrow>
        let p' = Prop m (new_descr e d) (Bag t' qs') in
        if ok then (True, p') else convert_or_compose T (Bag s ps) p')"
| "update_prop T p q = convert_or_compose T (prop_value p) q"
| "new_prop T (Prop n d (Val a)) = Prop n d (Val a)"
| "new_prop T (Prop n d (Bag s ps)) =
     (case updateProperties T (''PropertyBag'', []) (s, ps) of (_, t', qs') \<Rightarrow> Prop n d (Bag t' qs'))"
| "update_named T name sources [] = (True, map (new_prop T) sources)"
| "update_named T name [] (q # qs) = (True, q # qs)"
| "update_named T name (p # ps) (q # qs) =
     (if prop_name q = name then
        (case update_prop T p q of (ok, q') \<Rightarrow>
           if ok then (case update_named T name ps qs of (ok', qs') \<Rightarrow> (ok', q' # qs')) else (False, q' # qs))
      else (case update_named T name (p # ps) qs of (ok', qs') \<Rightarrow> (ok', q # qs')))"
| "update_names T [] source target = (True, target)"
| "update_names T (name # names) source target =
     (case update_named T name (bag_getProperties source name) target of (ok, target') \<Rightarrow>
        if ok then update_names T names source target' else (False, target'))"
| "updateProperties T (t, target) (s, source) =
     (let t1 = (if t = [] \<or> t = ''type_less'' then ''PropertyBag'' else t) in
      if types_differ T t1 s then (False, t1, target)
      else (case update_names T (remdups_adj (bag_list source)) source target of (ok, target') \<Rightarrow> (ok, s, target')))"
  by pat_completeness auto

lemma size_member [termination_simp]: "x \<in> set xs \<Longrightarrow> size x < size_list size xs"
  by (induction xs) auto

lemma size_getProperties: "size_list size (bag_getProperties ps name) \<le> size_list size ps"
  by (induction ps) (auto simp: bag_getProperties_def)

termination update_prop
  by (relation "inv_image (less_than <*lex*> less_than <*lex*> less_than)
      (\<lambda>x. case x of
         Inl (Inl (T, p, q)) \<Rightarrow> (size p, 0, 0)
       | Inl (Inr (T, p)) \<Rightarrow> (size p, 0, 0)
       | Inr (Inl (T, name, ps, qs)) \<Rightarrow> (size_list size ps, 1, length qs)
       | Inr (Inr (Inl (T, names, ps, qs))) \<Rightarrow> (size_list size ps, 2, length names)
       | Inr (Inr (Inr (T, _, _, ps))) \<Rightarrow> (size_list size ps, 3, 0))")
    (auto simp: le_imp_less_or_eq size_getProperties size_member)

text \<open>Refresh: only values of properties that the target has. A property without name is looked up by position.\<close>

function (sequential) refresh_prop :: "'v type_system \<Rightarrow> 'v property \<Rightarrow> 'v property \<Rightarrow> bool \<times> 'v property"
  and refresh_loop :: "'v type_system \<Rightarrow> bool \<Rightarrow> 'v property list \<Rightarrow> nat \<Rightarrow> 'v property list \<Rightarrow> bool \<times> 'v property list"
  and refreshProperties :: "'v type_system \<Rightarrow> bool \<Rightarrow> string \<times> 'v property list \<Rightarrow> string \<times> 'v property list \<Rightarrow>
    bool \<times> 'v property list"
where
  "refresh_prop T (Prop n d (Val a)) (Prop m e (Val b)) =
     (if same_type T a b then (True, Prop m e (Val a)) else convert_or_compose T (Val a) (Prop m e (Val b)))"
| "refresh_prop T (Prop n d (Bag s ps)) (Prop m e (Bag t qs)) =
     (case refreshProperties T False (t, qs) (s, ps) of (ok, qs') \<Rightarrow>
        if ok then (True, Prop m e (Bag t qs')) else convert_or_compose T (Bag s ps) (Prop m e (Bag t qs')))"
| "refresh_prop T p q = convert_or_compose T (prop_value p) q"
| "refresh_loop T allprops source i [] = (True, [])"
| "refresh_loop T allprops source i (q # qs) =
     (case (if prop_name q = [] then bag_getItem source i else bag_find source (prop_name q)) of
        Some p \<Rightarrow>
          (case refresh_prop T p q of (ok, q') \<Rightarrow>
             if \<not> ok then (False, q' # qs)
             else (case refresh_loop T allprops source (Suc i) qs of (ok', qs') \<Rightarrow> (ok', q' # qs')))
      | None \<Rightarrow>
          (case refresh_loop T allprops source (Suc i) qs of (ok', qs') \<Rightarrow> (ok' \<and> \<not> allprops, q # qs')))"
| "refreshProperties T allprops (t, target) (s, source) =
     (if types_differ T t s then (False, target) else refresh_loop T allprops source 0 target)"
  by pat_completeness auto

termination refresh_prop
  by (relation "inv_image (less_than <*lex*> less_than)
      (\<lambda>x. case x of
         Inl (T, p, q) \<Rightarrow> (size q, 0)
       | Inr (Inl (T, a, ps, i, qs)) \<Rightarrow> (size_list size qs, 1)
       | Inr (Inr (T, a, (_, qs), _)) \<Rightarrow> (size_list size qs, 2))")
    auto

definition create_prop :: "'v type_system \<Rightarrow> 'v property \<Rightarrow> 'v property" where
  "create_prop T p =
     Prop (prop_name p) (prop_descr p)
       (case prop_value p of Val v \<Rightarrow> Val (default_value T v) | Bag _ _ \<Rightarrow> Bag ''PropertyBag'' [])"

text \<open>Update or refresh the property at a path.\<close>

function updateProperty :: "'v type_system \<Rightarrow> 'v property list \<Rightarrow> 'v property list \<Rightarrow> string \<Rightarrow> string \<Rightarrow> bool \<times> 'v property list" where
  "updateProperty T target source name sep =
     (case path_token name sep of (token, start) \<Rightarrow>
        case bag_find source token of
          None \<Rightarrow> (False, target)
        | Some sp \<Rightarrow>
            (let target1 = (case bag_find target token of None \<Rightarrow> target @ [create_prop T sp] | Some _ \<Rightarrow> target);
                 tp = the (bag_find target1 token) in
             case (prop_value sp, start) of
               (Bag s ps, Some i) \<Rightarrow>
                 (case prop_value tp of
                    Val _ \<Rightarrow> (False, target1)
                  | Bag t qs \<Rightarrow>
                      (case updateProperty T qs ps (drop i name) sep of (ok, qs') \<Rightarrow>
                         (ok, bag_modify token (\<lambda>p. Prop (prop_name p) (prop_descr p) (Bag t qs')) target1)))
             | _ \<Rightarrow> (case update_prop T sp tp of (ok, tp') \<Rightarrow> (ok, bag_modify token (\<lambda>_. tp') target1))))"
  by pat_completeness auto

termination updateProperty
  by (relation "measure (\<lambda>(_, _, source, _). size_list size source)") (auto dest: size_bag_find [OF _ sym])

function refreshProperty :: "'v type_system \<Rightarrow> 'v property list \<Rightarrow> 'v property list \<Rightarrow> string \<Rightarrow> string \<Rightarrow> bool \<times> 'v property list" where
  "refreshProperty T target source name sep =
     (case path_token name sep of (token, start) \<Rightarrow>
        case bag_find source token of
          None \<Rightarrow> (False, target)
        | Some sp \<Rightarrow>
            (case bag_find target token of
               None \<Rightarrow> (False, target)
             | Some tp \<Rightarrow>
                 (case (prop_value sp, start) of
                    (Bag s ps, Some i) \<Rightarrow>
                      (case prop_value tp of
                         Val _ \<Rightarrow> (False, target)
                       | Bag t qs \<Rightarrow>
                           (case refreshProperty T qs ps (drop i name) sep of (ok, qs') \<Rightarrow>
                              (ok, bag_modify token (\<lambda>p. Prop (prop_name p) (prop_descr p) (Bag t qs')) target)))
                  | _ \<Rightarrow> (case refresh_prop T sp tp of (ok, tp') \<Rightarrow> (ok, bag_modify token (\<lambda>_. tp') target)))))"
  by pat_completeness auto

termination refreshProperty
  by (relation "measure (\<lambda>(_, _, source, _). size_list size source)") (auto dest: size_bag_find [OF _ sym])

text \<open>\<^verbatim>\<open>refreshProperty\<close> with one property: the types must be equal, no conversion is tried.\<close>

fun refresh_same :: "'v type_system \<Rightarrow> 'v property \<Rightarrow> 'v property \<Rightarrow> bool \<times> 'v property" where
  "refresh_same T (Prop n d (Val a)) (Prop m e (Val b)) =
     (if same_type T a b then (True, Prop m e (Val a)) else (False, Prop m e (Val b)))"
| "refresh_same T (Prop n d (Bag s ps)) (Prop m e (Bag t qs)) =
     (case refreshProperties T False (t, qs) (s, ps) of (ok, qs') \<Rightarrow> (ok, Prop m e (Bag t qs')))"
| "refresh_same T p q = (False, q)"

definition refreshProperty_one :: "'v type_system \<Rightarrow> 'v property list \<Rightarrow> 'v property \<Rightarrow> bool \<times> 'v property list" where
  "refreshProperty_one T target source =
     (case bag_find target (prop_name source) of
        None \<Rightarrow> (False, target)
      | Some tp \<Rightarrow>
          (case refresh_same T source tp of (ok, tp') \<Rightarrow> (ok, bag_modify (prop_name source) (\<lambda>_. tp') target)))"

section \<open>Flattening\<close>

text \<open>The iterator goes back to the first property after each bag whose content was moved.\<close>

partial_function (option) flatten_from :: "string \<Rightarrow> nat \<Rightarrow> 'v property list \<Rightarrow> 'v property list option" where
  "flatten_from sep i target =
     (if i \<ge> length target then Some target
      else
        (case target ! i of
           Prop n d (Val v) \<Rightarrow> flatten_from sep (Suc i) target
         | Prop n d (Bag t ps) \<Rightarrow>
             do {
               qs \<leftarrow> flatten_from sep 0 ps;
               if qs \<noteq> [] then
                 flatten_from sep 0
                   (target[i := Prop n d (Bag t [])] @ map (\<lambda>q. Prop (n @ sep @ prop_name q) (prop_descr q) (prop_value q)) qs)
               else flatten_from sep (Suc i) (target[i := Prop n d (Bag t [])])
             }))"

definition flattenPropertyBag :: "string \<Rightarrow> 'v property list \<Rightarrow> 'v property list option" where
  "flattenPropertyBag sep target = flatten_from sep 0 target"

declare findProperty.simps [simp del] modify_bag_at.simps [simp del] updateProperty.simps [simp del] refreshProperty.simps [simp del]
  updateProperties.simps [simp del] refreshProperties.simps [simp del]

end
