(* ===== verification/PropertyPaths.thy ===== *)
theory PropertyPaths
  imports PropertyBags "HOL-Library.Sublist"
begin

text \<open>
  Paths to properties. A path is a list of names; \<open>join\<close> is its spelling with a separator of one character, and
  \<open>lookup\<close> what it means. The functions that take a spelled path are shown to do what they should do on lists of
  names.
\<close>

section \<open>Spelled paths\<close>

fun join :: "char \<Rightarrow> string list \<Rightarrow> string" where
  "join c [] = []"
| "join c [n] = n"
| "join c (n # ns) = n @ c # join c ns"

definition plain :: "char \<Rightarrow> string \<Rightarrow> bool" where
  "plain c n \<longleftrightarrow> n \<noteq> [] \<and> c \<notin> set n"

lemma join_Cons: "ns \<noteq> [] \<Longrightarrow> join c (n # ns) = n @ c # join c ns"
  by (cases ns) simp_all

lemma join_empty [simp]: "\<forall>n \<in> set ns. plain c n \<Longrightarrow> join c ns = [] \<longleftrightarrow> ns = []"
  by (cases "(c, ns)" rule: join.cases) (auto simp: plain_def)

lemma join_snoc: "ns \<noteq> [] \<Longrightarrow> join c (ns @ [n]) = join c ns @ c # n"
  by (induction c ns rule: join.induct) (auto simp: join_Cons)

lemma join_not_sep: "\<forall>n \<in> set ns. plain c n \<Longrightarrow> join c ns \<noteq> [c]"
  by (cases "(c, ns)" rule: join.cases) (auto simp: plain_def append_eq_Cons_conv)

lemma join_plain: "\<forall>n \<in> set ns. plain d n \<Longrightarrow> c \<noteq> d \<Longrightarrow> ns \<noteq> [] \<Longrightarrow> plain d (join c ns)"
  by (induction c ns rule: join.induct) (auto simp: plain_def)

lemma occurs_at_char [simp]: "occurs_at [c] s i \<longleftrightarrow> i < length s \<and> s ! i = c"
  by (auto simp: occurs_at_def take_Suc hd_drop_conv_nth)

lemma find_upt:
  assumes "P i" "start \<le> i" "i < N" "\<And>j. start \<le> j \<Longrightarrow> j < i \<Longrightarrow> \<not> P j"
  shows "find P [start ..< N] = Some i"
  unfolding find_Some_iff using assms by (intro exI [of _ "i - start"]) auto

lemma str_find_char:
  assumes "c \<notin> set n"
  shows "str_find [c] (n @ c # r) 0 = Some (length n)" "str_find [c] n 0 = None"
proof -
  show "str_find [c] (n @ c # r) 0 = Some (length n)"
    unfolding str_find_def using assms by (intro find_upt) (auto simp: nth_append dest: nth_mem)
  show "str_find [c] n 0 = None"
    using assms by (auto simp: str_find_def find_None_iff dest: nth_mem)
qed

lemma find_down:
  assumes "P i" "i < N" "\<And>j. i < j \<Longrightarrow> j < N \<Longrightarrow> \<not> P j"
  shows "find P (rev [0 ..< N]) = Some i"
  unfolding find_Some_iff using assms by (intro exI [of _ "N - Suc i"]) (auto simp: rev_nth)

lemma str_rfind_char:
  assumes "c \<notin> set n"
  shows "str_rfind [c] (a @ c # n) = Some (length a)"
  unfolding str_rfind_def
proof (rule find_down)
  fix j
  assume j: "length a < j" "j < Suc (length (a @ c # n))"
  show "\<not> occurs_at [c] (a @ c # n) j"
  proof
    assume o: "occurs_at [c] (a @ c # n) j"
    define k where "k = j - Suc (length a)"
    have "j = Suc (length a + k)" using j by (simp add: k_def)
    with o have "k < length n" "n ! k = c" by (auto simp: nth_append)
    with assms show False by (metis nth_mem)
  qed
qed (auto simp: nth_append)

lemma path_token_single:
  assumes "plain c n"
  shows "path_token n [c] = (n, None)"
proof -
  have "c \<notin> set n" "n \<noteq> []" using assms by (auto simp: plain_def)
  then show ?thesis by (simp add: path_token_def str_find_char)
qed

lemma path_token_Cons:
  assumes "plain c n" and "r \<noteq> []"
  shows "path_token (n @ c # r) [c] = (n, Some (Suc (length n)))"
proof -
  have "c \<notin> set n" "n \<noteq> []" using assms by (auto simp: plain_def)
  then show ?thesis using assms(2) by (simp add: path_token_def str_find_char substr_def Let_def)
qed

lemma path_token_join:
  assumes "\<forall>n \<in> set (n # ns). plain c n"
  shows "path_token (join c (n # ns)) [c] = (n, if ns = [] then None else Some (Suc (length n)))"
  using assms path_token_single [of c n] path_token_Cons [of c n "join c ns"] by (cases ns) auto

lemma drop_join: "ns \<noteq> [] \<Longrightarrow> drop (Suc (length n)) (join c (n # ns)) = join c ns"
  by (simp add: join_Cons)

section \<open>What a path means\<close>

lemma bag_find_simps [simp]:
  "bag_find [] n = None" "bag_find (p # ps) n = (if prop_name p = n then Some p else bag_find ps n)"
  by (simp_all add: bag_find_def)

fun lookup :: "'v property list \<Rightarrow> string list \<Rightarrow> 'v property option" where
  "lookup bag [] = None"
| "lookup bag [n] = bag_find bag n"
| "lookup bag (n # ns) =
     (case bag_find bag n of
        None \<Rightarrow> None
      | Some p \<Rightarrow> (case prop_value p of Val _ \<Rightarrow> None | Bag _ ps \<Rightarrow> lookup ps ns))"

lemma lookup_Cons:
  "ns \<noteq> [] \<Longrightarrow> lookup bag (n # ns) =
     (case bag_find bag n of
        None \<Rightarrow> None
      | Some p \<Rightarrow> (case prop_value p of Val _ \<Rightarrow> None | Bag _ ps \<Rightarrow> lookup ps ns))"
  by (cases ns) (simp_all cong: option.case_cong pvalue.case_cong)

lemma lookup_nil [simp]: "lookup [] ns = None"
  by (cases "(([] :: 'a property list), ns)" rule: lookup.cases) simp_all

text \<open>Search goes no further than a property that is not a bag, and gives that property.\<close>

fun descend :: "'v property list \<Rightarrow> string list \<Rightarrow> 'v property option" where
  "descend bag [] = None"
| "descend bag (n # ns) =
     (case bag_find bag n of
        None \<Rightarrow> None
      | Some p \<Rightarrow> (case prop_value p of Val _ \<Rightarrow> Some p | Bag _ ps \<Rightarrow> if ns = [] then Some p else descend ps ns))"

lemma lookup_descend: "lookup bag ns = Some p \<Longrightarrow> descend bag ns = Some p"
proof (induction ns arbitrary: bag)
  case (Cons n ns)
  then show ?case by (cases "ns = []") (auto simp: lookup_Cons split: option.splits pvalue.splits)
qed simp

lemma findProperty_join:
  assumes "\<forall>n \<in> set ns. plain c n" and "ns \<noteq> []"
  shows "findProperty bag (join c ns) [c] = descend bag ns"
  using assms
proof (induction ns arbitrary: bag)
  case (Cons n ns)
  have "findProperty bag (join c (n # ns)) [c] =
     (case bag_find bag n of None \<Rightarrow> None
      | Some p \<Rightarrow> (case (prop_value p, if ns = [] then None else Some (Suc (length n))) of
           (Bag t ps, Some i) \<Rightarrow> findProperty ps (drop i (join c (n # ns))) [c] | _ \<Rightarrow> Some p))"
    by (subst findProperty.simps, subst path_token_join [OF Cons.prems(1)]) simp
  also have "\<dots> = descend bag (n # ns)"
    using Cons by (auto simp: drop_join split: option.split pvalue.split)
  finally show ?case .
qed simp

section \<open>Listing\<close>

fun paths :: "'v property list \<Rightarrow> string list list" where
  "paths [] = []"
| "paths (Prop n d v # ps) = [n] # (case v of Bag _ qs \<Rightarrow> map ((#) n) (paths qs) | Val _ \<Rightarrow> []) @ paths ps"

text \<open>The names of a bag and of the bags in it are plain and different from each other.\<close>

fun tidy :: "char \<Rightarrow> 'v property list \<Rightarrow> bool" where
  "tidy c [] \<longleftrightarrow> True"
| "tidy c (Prop n d v # ps) \<longleftrightarrow>
     plain c n \<and> n \<notin> prop_name ` set ps \<and> (case v of Bag _ qs \<Rightarrow> tidy c qs | Val _ \<Rightarrow> True) \<and> tidy c ps"

lemma paths_nonempty: "ns \<in> set (paths ps) \<Longrightarrow> ns \<noteq> []"
  by (induction ps arbitrary: ns rule: paths.induct) (auto split: pvalue.splits)

lemma paths_plain: "tidy c ps \<Longrightarrow> ns \<in> set (paths ps) \<Longrightarrow> n \<in> set ns \<Longrightarrow> plain c n"
  by (induction ps arbitrary: ns rule: paths.induct) (auto split: pvalue.splits)

lemma list_paths:
  "tidy c ps \<Longrightarrow> listPropertiesHelper [c] pre ps =
     map (\<lambda>ns. if pre = [] then join c ns else pre @ c # join c ns) (paths ps)"
proof (induction "[c]" pre ps rule: listPropertiesHelper.induct)
  case (2 pre n d v ps)
  have n: "n \<noteq> []" using 2(3) by (auto simp: plain_def)
  show ?case
  proof (cases v)
    case (Val x)
    then show ?thesis using 2 by (simp add: Let_def)
  next
    case (Bag t qs)
    have "join c (n # ns) = n @ c # join c ns" if "ns \<in> set (paths qs)" for ns
      using paths_nonempty [OF that] by (rule join_Cons)
    then show ?thesis using 2(1) [OF refl Bag] 2(2) [OF refl] 2(3) Bag n by (simp add: Let_def)
  qed
qed simp

lemma bag_find_append: "bag_find (ps @ qs) n = (case bag_find ps n of None \<Rightarrow> bag_find qs n | Some p \<Rightarrow> Some p)"
  by (induction ps) auto

lemma bag_find_None: "bag_find ps n = None \<longleftrightarrow> n \<notin> prop_name ` set ps"
  by (induction ps) auto

lemma bag_find_name: "bag_find ps n = Some p \<Longrightarrow> prop_name p = n \<and> p \<in> set ps"
  by (induction ps) (auto split: if_splits)

lemma lookup_in_paths: "tidy c ps \<Longrightarrow> ns \<in> set (paths ps) \<longleftrightarrow> lookup ps ns \<noteq> None"
proof (induction ps arbitrary: ns rule: paths.induct)
  case 1
  show ?case by (cases ns rule: lookup.cases [of "([], ns)" for ns, simplified]) auto
next
  case (2 n d v ps)
  show ?case
  proof (cases ns)
    case Nil
    then show ?thesis using paths_nonempty by (fastforce split: pvalue.splits)
  next
    case (Cons m ms)
    have IH: "ns' \<in> set (paths ps) \<longleftrightarrow> lookup ps ns' \<noteq> None" for ns' using 2 by simp
    have no: "m # ms \<notin> set (paths ps)" if "m = n"
    proof -
      have "bag_find ps n = None" using 2(3) by (simp add: bag_find_None)
      then have "lookup ps (n # ms) = None" by (cases ms) auto
      then show ?thesis using IH [of "n # ms"] that by simp
    qed
    show ?thesis
    proof (cases "ms = []")
      case True
      then show ?thesis using IH [of "[m]"] no paths_nonempty Cons by (auto split: pvalue.split)
    next
      case False
      then show ?thesis using IH [of "m # ms"] no Cons 2(1,3) by (auto simp: lookup_Cons split: pvalue.split)
    qed
  qed
qed

lemma lookup_skip:
  assumes "tidy c (Prop n d v # ps)" and "ns \<in> set (paths ps)"
  shows "lookup (Prop n d v # ps) ns = lookup ps ns"
proof -
  obtain m ms where ns: "ns = m # ms" using paths_nonempty [OF assms(2)] by (cases ns) auto
  have "tidy c ps" using assms(1) by simp
  then have "lookup ps ns \<noteq> None" using lookup_in_paths assms(2) by blast
  then have "bag_find ps m \<noteq> None" by (cases "ms = []") (auto simp: ns lookup_Cons split: option.splits)
  moreover have "bag_find ps n = None" using assms(1) by (simp add: bag_find_None)
  ultimately have "m \<noteq> n" by auto
  then show ?thesis by (cases "ms = []") (simp_all add: ns lookup_Cons)
qed

lemma descriptions_of_paths:
  "tidy c ps \<Longrightarrow> map (\<lambda>ns. map_option prop_descr (lookup ps ns)) (paths ps) = map Some (listPropertyDescriptions ps)"
proof (induction ps rule: paths.induct)
  case (2 n d v ps)
  have rest: "map (\<lambda>ns. map_option prop_descr (lookup (Prop n d v # ps) ns)) (paths ps) = map Some (listPropertyDescriptions ps)"
    using 2(2,3) lookup_skip [OF 2(3)] by (simp cong: map_cong)
  show ?case
  proof (cases v)
    case (Val x)
    then show ?thesis using rest by simp
  next
    case (Bag t qs)
    have "map (\<lambda>ns. map_option prop_descr (lookup (Prop n d v # ps) (n # ns))) (paths qs) =
        map (\<lambda>ns. map_option prop_descr (lookup qs ns)) (paths qs)"
      by (rule map_cong) (auto simp: lookup_Cons Bag dest: paths_nonempty)
    also have "\<dots> = map Some (listPropertyDescriptions qs)" using 2(1) [OF Bag] 2(3) Bag by simp
    finally show ?thesis using rest Bag by (simp add: comp_def)
  qed
qed simp

text \<open>C26: Listing and searching are inverse: \<^verbatim>\<open>listProperties\<close> lists the spelling of every property of the tree, in
  the order of the tree, \<^verbatim>\<open>findProperty\<close> finds the property of each spelling that is listed, and the
  descriptions that \<^verbatim>\<open>listPropertyDescriptions\<close> gives are those of the listed properties, one for one.\<close>

theorem listed_properties_are_found:
  assumes "tidy c bag"
  shows "set (listProperties bag [c]) = join c ` {ns. lookup bag ns \<noteq> None} \<and>
    (\<forall>ns p. lookup bag ns = Some p \<longrightarrow> findProperty bag (join c ns) [c] = Some p) \<and>
    map (\<lambda>path. map_option prop_descr (findProperty bag path [c])) (listProperties bag [c]) =
      map Some (listPropertyDescriptions bag)"
proof (intro conjI allI impI)
  have l: "listProperties bag [c] = map (join c) (paths bag)"
    using list_paths [OF assms, of "[]"] by (simp add: listProperties_def)
  show "set (listProperties bag [c]) = join c ` {ns. lookup bag ns \<noteq> None}"
    using lookup_in_paths [OF assms] by (auto simp: l)
  have found: "findProperty bag (join c ns) [c] = Some p" if "lookup bag ns = Some p" for ns p
  proof -
    have ns: "ns \<in> set (paths bag)" using lookup_in_paths [OF assms] that by auto
    have "findProperty bag (join c ns) [c] = descend bag ns"
      using paths_plain [OF assms ns] paths_nonempty [OF ns] by (intro findProperty_join) auto
    then show ?thesis using lookup_descend [OF that] by simp
  qed
  then show "findProperty bag (join c ns) [c] = Some p" if "lookup bag ns = Some p" for ns p using that by blast
  have "map_option prop_descr (findProperty bag (join c ns) [c]) = map_option prop_descr (lookup bag ns)"
    if "ns \<in> set (paths bag)" for ns
    using lookup_in_paths [OF assms, of ns] that found by auto
  then show "map (\<lambda>path. map_option prop_descr (findProperty bag path [c])) (listProperties bag [c]) =
      map Some (listPropertyDescriptions bag)"
    unfolding descriptions_of_paths [OF assms, symmetric] by (simp add: l)
qed

text \<open>A bag with a bag in it.\<close>

definition sample_bag :: "nat property list" where
  "sample_bag =
     [Prop ''gain'' ''amplification'' (Val 3),
      Prop ''limits'' ''bounds'' (Bag ''PropertyBag'' [Prop ''low'' ''lowest'' (Val 1), Prop ''high'' ''highest'' (Val 9)])]"

lemma sample_bag_tidy: "tidy CHR ''.'' sample_bag"
  by (simp add: sample_bag_def plain_def)

lemma listed_properties_are_found_witness:
  "findProperty sample_bag (join CHR ''.'' [''limits'', ''high'']) [CHR ''.''] = Some (Prop ''high'' ''highest'' (Val 9)) \<and>
   listPropertyDescriptions sample_bag = [''amplification'', ''bounds'', ''lowest'', ''highest'']"
proof -
  have "lookup sample_bag [''limits'', ''high''] = Some (Prop ''high'' ''highest'' (Val 9))" by (simp add: sample_bag_def)
  with listed_properties_are_found [OF sample_bag_tidy]
  have "findProperty sample_bag (join CHR ''.'' [''limits'', ''high'']) [CHR ''.''] = Some (Prop ''high'' ''highest'' (Val 9))" by blast
  then show ?thesis by (simp add: sample_bag_def)
qed

text \<open>A path through a property that is not a bag leads to that property, although nothing has that path.\<close>

lemma path_through_value:
  assumes "plain c n" "plain c m" and "bag_find bag n = Some (Prop n d (Val v))"
  shows "findProperty bag (join c [n, m]) [c] = Some (Prop n d (Val v)) \<and> lookup bag [n, m] = None"
  using findProperty_join [of "[n, m]" c bag] assms by simp

section \<open>Storing\<close>

lemma bag_modify_find:
  assumes "bag_find bag n = Some p" and "prop_name (f p) = n"
  shows "bag_find (bag_modify n f bag) m = (if m = n then Some (f p) else bag_find bag m)"
  using assms by (induction bag) (auto split: if_splits)

text \<open>The path can be made: what it meets of the tree are bags.\<close>

fun storable :: "'v property list \<Rightarrow> string list \<Rightarrow> bool" where
  "storable bag [] \<longleftrightarrow> True"
| "storable bag (n # ns) \<longleftrightarrow>
     (case bag_find bag n of
        None \<Rightarrow> True
      | Some p \<Rightarrow> (case prop_value p of Val _ \<Rightarrow> False | Bag _ ps \<Rightarrow> storable ps ns))"

lemma storable_empty [simp]: "storable [] ns"
  by (cases ns) simp_all

lemma storeProperty_Cons:
  assumes "\<forall>n \<in> set (n # ns). plain c n" and "bag_find bag1 n = Some p" and "prop_value p = Bag t ps"
    and "bag1 = (case bag_find bag n of None \<Rightarrow> bag @ [Prop n [] (Bag ''PropertyBag'' [])] | Some _ \<Rightarrow> bag)"
    and "storeProperty ps (join c ns) item [c] = Some (ok, qs)"
  shows "storeProperty bag (join c (n # ns)) item [c] =
     Some (ok, bag_modify n (\<lambda>p. Prop (prop_name p) (prop_descr p) (Bag t qs)) bag1)"
proof -
  have n: "n \<noteq> []" "c \<notin> set n" using assms(1) by (auto simp: plain_def)
  have e: "join c (n # ns) \<noteq> []" "join c (n # ns) \<noteq> [c]" using join_empty [OF assms(1)] join_not_sep [OF assms(1)] by auto
  have s: "(case str_find [c] (join c (n # ns)) 0 of
       Some i \<Rightarrow> (substr (join c (n # ns)) 0 i, drop (i + length [c]) (join c (n # ns)))
     | None \<Rightarrow> (join c (n # ns), [])) = (n, join c ns)"
    using n by (cases ns) (simp_all add: str_find_char substr_def)
  show ?thesis
    using assms(2,3,5) n(1) e
    by (subst storeProperty.simps, subst s) (simp add: Let_def assms(4) [symmetric])
qed

lemma store_path:
  assumes "\<forall>n \<in> set ns. plain c n" and "storable bag ns" and "lookup bag (ns @ [prop_name item]) = None"
  shows "\<exists>bag'. storeProperty bag (join c ns) (Some item) [c] = Some (True, bag') \<and>
    lookup bag' (ns @ [prop_name item]) = Some item \<and>
    (\<forall>ms p. lookup bag ms = Some p \<longrightarrow> \<not> prefix ms ns \<longrightarrow> lookup bag' ms = Some p)"
  using assms
proof (induction ns arbitrary: bag)
  case Nil
  have "storeProperty bag (join c []) (Some item) [c] = Some (True, bag @ [item])"
    by (subst storeProperty.simps) (simp add: bag_add_def)
  moreover have "lookup (bag @ [item]) [prop_name item] = Some item"
    using Nil(3) by (simp add: bag_find_append)
  moreover have "lookup (bag @ [item]) ms = Some p" if "lookup bag ms = Some p" for ms p
    using that by (cases ms rule: list.exhaust; cases "tl ms = []")
      (auto simp: bag_find_append lookup_Cons split: option.splits)
  ultimately show ?case by auto
next
  case (Cons n ns)
  define bag1 where "bag1 = (case bag_find bag n of None \<Rightarrow> bag @ [Prop n [] (Bag ''PropertyBag'' [])] | Some _ \<Rightarrow> bag)"
  obtain d t ps where p: "bag_find bag1 n = Some (Prop n d (Bag t ps))" "storable ps ns"
      "lookup ps (ns @ [prop_name item]) = None" "bag_find bag n = None \<longrightarrow> ps = []"
  proof (cases "bag_find bag n")
    case None
    then show ?thesis using that [of "[]" "''PropertyBag''" "[]"]
      by (simp add: bag1_def bag_find_append)
  next
    case (Some p)
    then obtain d t ps where "p = Prop n d (Bag t ps)" "storable ps ns" using Cons.prems(2) bag_find_name [OF Some]
      by (cases p) (auto split: pvalue.splits)
    then show ?thesis using that [of d t ps] Some Cons.prems(3) by (simp add: bag1_def lookup_Cons)
  qed
  obtain qs where qs: "storeProperty ps (join c ns) (Some item) [c] = Some (True, qs)"
      "lookup qs (ns @ [prop_name item]) = Some item"
      "\<forall>ms p. lookup ps ms = Some p \<longrightarrow> \<not> prefix ms ns \<longrightarrow> lookup qs ms = Some p"
    using Cons.IH [OF _ p(2,3)] Cons.prems(1) by auto
  let ?f = "\<lambda>p. Prop (prop_name p) (prop_descr p) (Bag t qs)"
  have s: "storeProperty bag (join c (n # ns)) (Some item) [c] = Some (True, bag_modify n ?f bag1)"
    by (rule storeProperty_Cons [OF Cons.prems(1) p(1) _ bag1_def qs(1)]) simp
  have f: "bag_find (bag_modify n ?f bag1) m = (if m = n then Some (Prop n d (Bag t qs)) else bag_find bag m)" for m
    using bag_modify_find [OF p(1), of ?f m] by (auto simp: bag1_def bag_find_append split: option.split)
  show ?case
  proof (intro exI conjI allI impI)
    show "storeProperty bag (join c (n # ns)) (Some item) [c] = Some (True, bag_modify n ?f bag1)" by (rule s)
    show "lookup (bag_modify n ?f bag1) ((n # ns) @ [prop_name item]) = Some item"
      using qs(2) by (simp add: lookup_Cons f)
    fix ms q
    assume q: "lookup bag ms = Some q" "\<not> prefix ms (n # ns)"
    then obtain k ks where ms: "ms = k # ks" by (cases ms) auto
    show "lookup (bag_modify n ?f bag1) ms = Some q"
    proof (cases "k = n")
      case True
      with q(2) ms have "ks \<noteq> []" "\<not> prefix ks ns" by auto
      moreover from q(1) ms True \<open>ks \<noteq> []\<close> have "bag_find bag n \<noteq> None" by (auto simp: lookup_Cons split: option.splits)
      then have "bag_find bag n = Some (Prop n d (Bag t ps))" using p(1) by (auto simp: bag1_def split: option.splits)
      ultimately show ?thesis using q(1) ms True qs(3) by (simp add: lookup_Cons f)
    next
      case False
      then show ?thesis using q(1) ms by (cases "ks = []") (simp_all add: lookup_Cons f)
    qed
  qed
qed

text \<open>C27: A property that \<^verbatim>\<open>storeProperty\<close> stores under a path is found by \<^verbatim>\<open>findProperty\<close> under that path
  and its name; bags on the path are created where there are none, and every other property stays where it was.\<close>

theorem stored_property_is_found:
  assumes "\<forall>n \<in> set (ns @ [prop_name item]). plain c n" and "storable bag ns" and "lookup bag (ns @ [prop_name item]) = None"
  shows "\<exists>bag'. storeProperty bag (join c ns) (Some item) [c] = Some (True, bag') \<and>
    findProperty bag' (join c (ns @ [prop_name item])) [c] = Some item \<and>
    (\<forall>ms p. lookup bag ms = Some p \<longrightarrow> \<not> prefix ms ns \<longrightarrow> lookup bag' ms = Some p)"
proof -
  obtain bag' where b: "storeProperty bag (join c ns) (Some item) [c] = Some (True, bag')"
    "lookup bag' (ns @ [prop_name item]) = Some item"
    "\<forall>ms p. lookup bag ms = Some p \<longrightarrow> \<not> prefix ms ns \<longrightarrow> lookup bag' ms = Some p"
    using store_path [OF _ assms(2,3), of c] assms(1) by auto
  have "findProperty bag' (join c (ns @ [prop_name item])) [c] = Some item"
    using findProperty_join [OF assms(1), of bag'] lookup_descend [OF b(2)] by simp
  with b show ?thesis by blast
qed

lemma stored_property_is_found_witness:
  "\<exists>bag'. storeProperty sample_bag (join CHR ''.'' [''limits'', ''soft'']) (Some (Prop ''low'' [] (Val 2))) [CHR ''.''] =
      Some (True, bag') \<and>
    findProperty bag' (join CHR ''.'' [''limits'', ''soft'', ''low'']) [CHR ''.''] = Some (Prop ''low'' [] (Val 2)) \<and>
    lookup bag' [''limits'', ''low''] = Some (Prop ''low'' ''lowest'' (Val 1))"
proof -
  have h: "\<forall>n \<in> set ([''limits'', ''soft''] @ [prop_name (Prop ''low'' [] (Val (2::nat)))]). plain CHR ''.'' n"
      "storable sample_bag [''limits'', ''soft'']"
      "lookup sample_bag ([''limits'', ''soft''] @ [prop_name (Prop ''low'' [] (Val 2))]) = None"
    by (simp_all add: plain_def sample_bag_def)
  have l: "lookup sample_bag [''limits'', ''low''] = Some (Prop ''low'' ''lowest'' (Val 1))" by (simp add: sample_bag_def)
  show ?thesis using stored_property_is_found [OF h] l by fastforce
qed

text \<open>With an empty separator \<^verbatim>\<open>storeProperty\<close> does not return: the path never gets shorter.\<close>

lemma store_without_separator:
  assumes "path \<noteq> []"
  shows "storeProperty bag path item [] = None"
proof (rule ccontr)
  assume "storeProperty bag path item [] \<noteq> None"
  then obtain r where r: "storeProperty bag path item [] = Some r" by auto
  have "sep = [] \<longrightarrow> path = []" if "storeProperty bag path item sep = Some r" for bag path item sep r
  proof (rule storeProperty.raw_induct [where P = "\<lambda>bag path item sep r. sep = [] \<longrightarrow> path = []", OF _ that])
    fix store :: "'c property list \<Rightarrow> char list \<Rightarrow> 'c property option \<Rightarrow> char list \<Rightarrow> (bool \<times> 'c property list) option"
      and bag path item sep r
    assume IH: "\<And>bag path item sep r. store bag path item sep = Some r \<Longrightarrow> sep = [] \<longrightarrow> path = []"
      and e: "(if path = [] \<or> path = sep then Some (bag_add item bag)
      else
        let (pname, rest) =
          (case str_find sep path 0 of
             Some i \<Rightarrow> (substr path 0 i, drop (i + length sep) path)
           | None \<Rightarrow> (path, [])) in
        if pname = [] \<and> rest \<noteq> [] then store bag rest item sep
        else
          let bag1 = (case bag_find bag pname of None \<Rightarrow> bag @ [Prop pname [] (Bag ''PropertyBag'' [])] | Some _ \<Rightarrow> bag) in
          case bag_find bag1 pname of
            None \<Rightarrow> None
          | Some parent \<Rightarrow>
              (case prop_value parent of
                 Val _ \<Rightarrow> Some (False, bag1)
               | Bag t ps \<Rightarrow>
                   do {
                     (ok, qs) \<leftarrow> store ps rest item sep;
                     Some (ok, bag_modify pname (\<lambda>p. Prop (prop_name p) (prop_descr p) (Bag t qs)) bag1)
                   })) = Some r"
    show "sep = [] \<longrightarrow> path = []"
    proof (intro impI, rule ccontr)
      assume s: "sep = []" "path \<noteq> []"
      have "str_find sep path 0 = Some 0" using s(1) by (simp add: str_find_def occurs_at_def upt_rec)
      then have "store bag path item sep = Some r" using e s by (simp add: substr_def)
      from IH [OF this] s show False by simp
    qed
  qed
  from this [OF r] assms show False by simp
qed

section \<open>Removing\<close>

lemma bag_remove_find:
  assumes "bag_remove n bag = (ok, bag')" and "distinct (bag_list bag)"
  shows "bag_find bag' m = (if m = n then None else bag_find bag m)" "ok \<longleftrightarrow> bag_find bag n \<noteq> None"
proof -
  have "bag_find bag' m = (if m = n then None else bag_find bag m) \<and> (ok \<longleftrightarrow> bag_find bag n \<noteq> None)"
    using assms
  proof (induction bag arbitrary: ok bag')
    case (Cons p ps)
    show ?case
    proof (cases "prop_name p = n")
      case True
      then have "bag_find ps n = None" using Cons.prems(2) by (auto simp: bag_find_None bag_list_def)
      with True Cons.prems(1) show ?thesis by auto
    next
      case False
      obtain b qs where r: "bag_remove n ps = (b, qs)" by (cases "bag_remove n ps")
      have "bag_find qs m = (if m = n then None else bag_find ps m) \<and> (b \<longleftrightarrow> bag_find ps n \<noteq> None)"
        using Cons.IH [OF r] Cons.prems(2) by (simp add: bag_list_def)
      with False Cons.prems(1) r show ?thesis by auto
    qed
  qed simp
  then show "bag_find bag' m = (if m = n then None else bag_find bag m)" "ok \<longleftrightarrow> bag_find bag n \<noteq> None" by simp_all
qed

lemma lookup_removed:
  assumes "lookup ps ms = Some p" and "\<not> prefix [n] ms" and "\<And>m. m \<noteq> n \<Longrightarrow> bag_find qs m = bag_find ps m"
  shows "lookup qs ms = Some p"
proof (cases ms)
  case (Cons m ms')
  then have "m \<noteq> n" using assms(2) by auto
  then show ?thesis using assms(1,3) Cons by (cases "ms' = []") (simp_all add: lookup_Cons)
qed (use assms(1) in simp)

lemma modify_bag_at_Cons:
  assumes "\<forall>n \<in> set (n # ns). plain c n"
  shows "modify_bag_at bag (join c (n # ns)) [c] f =
     (case bag_find bag n of
        None \<Rightarrow> (False, bag)
      | Some p \<Rightarrow>
          (case prop_value p of
             Val _ \<Rightarrow> (False, bag)
           | Bag t ps \<Rightarrow>
               (case (if ns = [] then f ps else modify_bag_at ps (join c ns) [c] f) of (ok, qs) \<Rightarrow>
                  (ok, bag_modify n (\<lambda>p. Prop (prop_name p) (prop_descr p) (Bag t qs)) bag))))"
  by (subst modify_bag_at.simps, subst path_token_join [OF assms])
    (auto simp: drop_join split: option.split pvalue.split)

text \<open>No bag of the tree has two properties of one name.\<close>

fun unique :: "'v property list \<Rightarrow> bool" where
  "unique [] \<longleftrightarrow> True"
| "unique (Prop n d v # ps) \<longleftrightarrow> n \<notin> prop_name ` set ps \<and> (case v of Bag _ qs \<Rightarrow> unique qs | Val _ \<Rightarrow> True) \<and> unique ps"

lemma unique_distinct: "unique ps \<Longrightarrow> distinct (bag_list ps)"
  by (induction ps rule: unique.induct) (auto simp: bag_list_def)

lemma unique_sub: "unique bag \<Longrightarrow> bag_find bag n = Some p \<Longrightarrow> prop_value p = Bag t ps \<Longrightarrow> unique ps"
  by (induction bag rule: unique.induct) (auto split: if_splits)

lemma remove_at:
  assumes "\<forall>k \<in> set ns. plain c k" and "unique bag" and "lookup bag (ns @ [n]) \<noteq> None" and "ns \<noteq> []"
  shows "\<exists>bag'. modify_bag_at bag (join c ns) [c] (bag_remove n) = (True, bag') \<and> lookup bag' (ns @ [n]) = None \<and>
    (\<forall>ms p. lookup bag ms = Some p \<longrightarrow> \<not> prefix ms ns \<longrightarrow> \<not> prefix (ns @ [n]) ms \<longrightarrow> lookup bag' ms = Some p)"
  using assms
proof (induction ns arbitrary: bag)
  case (Cons k ns)
  obtain d t ps where p: "bag_find bag k = Some (Prop k d (Bag t ps))" "lookup ps (ns @ [n]) \<noteq> None"
  proof (cases "bag_find bag k")
    case None
    then show ?thesis using Cons.prems(3) by (simp add: lookup_Cons)
  next
    case (Some p)
    then show ?thesis using that Cons.prems(3) bag_find_name [OF Some] by (cases p) (auto simp: lookup_Cons split: pvalue.splits)
  qed
  have u: "unique ps" by (rule unique_sub [OF Cons.prems(2) p(1)]) simp
  obtain qs where qs: "(if ns = [] then bag_remove n ps else modify_bag_at ps (join c ns) [c] (bag_remove n)) = (True, qs)"
      "lookup qs (ns @ [n]) = None"
      "\<forall>ms p. lookup ps ms = Some p \<longrightarrow> \<not> prefix ms ns \<longrightarrow> \<not> prefix (ns @ [n]) ms \<longrightarrow> lookup qs ms = Some p"
  proof (cases "ns = []")
    case True
    obtain ok qs where r: "bag_remove n ps = (ok, qs)" by (cases "bag_remove n ps")
    note f = bag_remove_find [OF r unique_distinct [OF u]]
    have "ok" using f(2) p(2) True by simp
    moreover have "lookup qs ms = Some p" if "lookup ps ms = Some p" "\<not> prefix [n] ms" for ms p
      by (rule lookup_removed [OF that]) (use f(1) in simp)
    ultimately show ?thesis using that [of qs] True r f(1) [of n] by auto
  next
    case False
    then show ?thesis using that Cons.IH [OF _ u p(2) False] Cons.prems(1) by auto
  qed
  let ?f = "\<lambda>p. Prop (prop_name p) (prop_descr p) (Bag t qs)"
  have m: "modify_bag_at bag (join c (k # ns)) [c] (bag_remove n) = (True, bag_modify k ?f bag)"
    by (simp add: modify_bag_at_Cons [OF Cons.prems(1)] p(1) qs(1) [simplified])
  have f: "bag_find (bag_modify k ?f bag) j = (if j = k then Some (Prop k d (Bag t qs)) else bag_find bag j)" for j
    using bag_modify_find [OF p(1), of ?f j] by simp
  have "lookup (bag_modify k ?f bag) ms = Some q"
    if l: "lookup bag ms = Some q" "\<not> prefix ms (k # ns)" "\<not> prefix ((k # ns) @ [n]) ms" for ms q
  proof -
    obtain j ks where ms: "ms = j # ks" using l(1) by (cases ms) auto
    show ?thesis
    proof (cases "j = k")
      case True
      with l(2,3) ms have "ks \<noteq> []" "\<not> prefix ks ns" "\<not> prefix (ns @ [n]) ks" by auto
      then show ?thesis using l(1) ms True qs(3) p(1) by (simp add: lookup_Cons f)
    next
      case False
      then show ?thesis using l(1) ms by (cases "ks = []") (simp_all add: lookup_Cons f)
    qed
  qed
  moreover have "lookup (bag_modify k ?f bag) ((k # ns) @ [n]) = None" using qs(2) by (simp add: lookup_Cons f)
  ultimately show ?case using m by blast
qed simp

lemma str_find_join_snoc:
  assumes "ns \<noteq> []" and "plain c n"
  shows "str_find [c] (join c (ns @ [n])) 0 \<noteq> None" "str_rfind [c] (join c (ns @ [n])) = Some (length (join c ns))"
proof -
  have "c \<notin> set n" using assms(2) by (simp add: plain_def)
  then show "str_rfind [c] (join c (ns @ [n])) = Some (length (join c ns))"
    by (simp add: join_snoc [OF assms(1)] str_rfind_char)
  have "occurs_at [c] (join c ns @ c # n) (length (join c ns))" by simp
  moreover have "length (join c ns) \<in> set [0 ..< Suc (length (join c ns @ c # n))]" by simp
  ultimately show "str_find [c] (join c (ns @ [n])) 0 \<noteq> None"
    unfolding join_snoc [OF assms(1)] str_find_def find_None_iff by blast
qed

text \<open>With the default separator \<^verbatim>\<open>removeProperty\<close> removes the property of the path, and no other.\<close>

theorem removed_property_is_gone:
  assumes "\<forall>k \<in> set (ns @ [n]). plain CHR ''.'' k" and "unique bag" and "lookup bag (ns @ [n]) \<noteq> None"
  shows "\<exists>bag'. removeProperty bag (join CHR ''.'' (ns @ [n])) ''.'' = (True, bag') \<and> lookup bag' (ns @ [n]) = None \<and>
    (\<forall>ms p. lookup bag ms = Some p \<longrightarrow> \<not> prefix ms ns \<longrightarrow> \<not> prefix (ns @ [n]) ms \<longrightarrow> lookup bag' ms = Some p)"
proof -
  have e: "join CHR ''.'' (ns @ [n]) \<noteq> []" "join CHR ''.'' (ns @ [n]) \<noteq> ''.''"
    using join_empty [OF assms(1)] join_not_sep [OF assms(1)] by auto
  have n: "plain CHR ''.'' n" "\<forall>k \<in> set ns. plain CHR ''.'' k" using assms(1) by auto
  show ?thesis
  proof (cases "ns = []")
    case True
    have "CHR ''.'' \<notin> set n" using n(1) by (simp add: plain_def)
    then have r: "removeProperty bag (join CHR ''.'' (ns @ [n])) ''.'' = bag_remove n bag"
      using e True by (simp add: removeProperty_def str_find_char)
    obtain ok bag' where b: "bag_remove n bag = (ok, bag')" by (cases "bag_remove n bag")
    note f = bag_remove_find [OF b unique_distinct [OF assms(2)]]
    have "lookup bag' ms = Some p" if "lookup bag ms = Some p" "\<not> prefix [n] ms" for ms p
      by (rule lookup_removed [OF that]) (use f(1) in simp)
    then show ?thesis using True r b f(1) [of n] f(2) assms(3) by auto
  next
    case False
    have "removeProperty bag (join CHR ''.'' (ns @ [n])) ''.'' = modify_bag_at bag (join CHR ''.'' ns) ''.'' (bag_remove n)"
      using e str_find_join_snoc [OF False n(1)] join_empty [OF n(2)] False
      by (auto simp: removeProperty_def substr_def join_snoc)
    then show ?thesis using remove_at [OF n(2) assms(2,3) False] by simp
  qed
qed

lemma removed_property_is_gone_witness:
  "\<exists>bag'. removeProperty sample_bag (join CHR ''.'' ([''limits''] @ [''low''])) ''.'' = (True, bag') \<and>
     lookup bag' ([''limits''] @ [''low'']) = None \<and> lookup bag' [''gain''] = Some (Prop ''gain'' ''amplification'' (Val 3))"
proof -
  have h: "\<forall>k \<in> set ([''limits''] @ [''low'']). plain CHR ''.'' k" "unique sample_bag"
      "lookup sample_bag ([''limits''] @ [''low'']) \<noteq> None" "lookup sample_bag [''gain''] = Some (Prop ''gain'' ''amplification'' (Val 3))"
    by (simp_all add: plain_def sample_bag_def)
  show ?thesis using removed_property_is_gone [OF h(1-3)] h(4) by fastforce
qed

text \<open>With another separator nothing below a bag of a bag can be removed, as the parent is searched with the
  default separator.\<close>

theorem remove_ignores_separator:
  assumes "\<forall>k \<in> set (ns @ [n]). plain c k \<and> plain CHR ''.'' k" and "c \<noteq> CHR ''.''" and "length ns \<ge> 2"
    and "\<forall>p \<in> set bag. c \<notin> set (prop_name p)"
  shows "removeProperty bag (join c (ns @ [n])) [c] = (False, bag)"
proof -
  have ns: "ns \<noteq> []" using assms(3) by auto
  have e: "join c (ns @ [n]) \<noteq> []" "join c (ns @ [n]) \<noteq> [c]" "join c ns \<noteq> []"
    using join_empty [of "ns @ [n]" c] join_not_sep [of "ns @ [n]" c] join_empty [of ns c] assms(1) ns by auto
  have p: "plain CHR ''.'' (join c ns)" by (rule join_plain) (use assms(1,2) ns in auto)
  obtain a b ms where ms: "ns = a # b # ms" using assms(3) by (cases ns; cases "tl ns") auto
  have "c \<in> set (join c ns)" by (simp add: ms)
  then have no: "bag_find bag (join c ns) = None" using assms(4) by (auto simp: bag_find_None)
  have n: "plain c n" using assms(1) by simp
  have "removeProperty bag (join c (ns @ [n])) [c] = modify_bag_at bag (join c ns) ''.'' (bag_remove n)"
    using e str_find_join_snoc [OF ns n] by (auto simp: removeProperty_def substr_def join_snoc [OF ns])
  also have "\<dots> = (False, bag)"
    by (subst modify_bag_at.simps, subst path_token_single [OF p]) (simp add: no)
  finally show ?thesis .
qed

lemma remove_ignores_separator_witness:
  "removeProperty [Prop ''a'' [] (Bag [] [Prop ''b'' [] (Bag [] [Prop ''x'' [] (Val (1::nat))])])]
      (join CHR ''/'' ([''a'', ''b''] @ [''x''])) ''/'' =
    (False, [Prop ''a'' [] (Bag [] [Prop ''b'' [] (Bag [] [Prop ''x'' [] (Val 1)])])])"
  by (rule remove_ignores_separator) (auto simp: plain_def)

end
