(* ===== verification/PropertyUpdate.thy ===== *)
theory PropertyUpdate
  imports PropertyPaths "HOL-Library.Multiset"
begin

text \<open>What update, refresh, copy and flatten do to the values in a tree of properties.\<close>

section \<open>Values\<close>

fun leaf_of :: "'v property \<Rightarrow> string list \<Rightarrow> 'v option" where
  "leaf_of p [] = (case prop_value p of Val v \<Rightarrow> Some v | Bag _ _ \<Rightarrow> None)"
| "leaf_of p (n # ns) =
     (case prop_value p of
        Val _ \<Rightarrow> None
      | Bag _ ps \<Rightarrow> (case bag_find ps n of None \<Rightarrow> None | Some q \<Rightarrow> leaf_of q ns))"

definition leaf :: "'v property list \<Rightarrow> string list \<Rightarrow> 'v option" where
  "leaf bag ns = (case ns of [] \<Rightarrow> None | n # ms \<Rightarrow> (case bag_find bag n of None \<Rightarrow> None | Some q \<Rightarrow> leaf_of q ms))"

lemma leaf_simps [simp]:
  "leaf bag [] = None" "leaf bag (n # ns) = (case bag_find bag n of None \<Rightarrow> None | Some q \<Rightarrow> leaf_of q ns)"
  by (simp_all add: leaf_def)

lemma leaf_of_bag: "prop_value p = Bag t ps \<Longrightarrow> leaf_of p ns = leaf ps ns"
  by (cases ns) (simp_all add: leaf_def)

lemma leaf_lookup: "leaf bag ns = Some v \<longleftrightarrow> (\<exists>p. lookup bag ns = Some p \<and> prop_value p = Val v)"
proof (induction ns arbitrary: bag)
  case (Cons n ns)
  show ?case
  proof (cases "ns = []")
    case True
    then show ?thesis by (auto split: option.splits pvalue.splits)
  next
    case False
    have "leaf bag (n # ns) = (case bag_find bag n of None \<Rightarrow> None
        | Some q \<Rightarrow> (case prop_value q of Val _ \<Rightarrow> None | Bag _ ps \<Rightarrow> leaf ps ns))"
      using False by (cases ns) (auto split: option.split pvalue.split)
    then show ?thesis using Cons.IH False by (auto simp: lookup_Cons split: option.splits pvalue.splits)
  qed
qed simp

section \<open>Update\<close>

text \<open>Properties of one name have one type, and bags of one name can be updated.\<close>

definition own_type :: "string \<Rightarrow> string" where
  "own_type t = (if t = [] \<or> t = ''type_less'' then ''PropertyBag'' else t)"

fun compat :: "'v type_system \<Rightarrow> 'v property \<Rightarrow> 'v property \<Rightarrow> bool" where
  "compat T (Prop n d (Val a)) (Prop m e (Val b)) \<longleftrightarrow> same_type T a b"
| "compat T (Prop n d (Bag s ps)) (Prop m e (Bag t qs)) \<longleftrightarrow>
     \<not> types_differ T (own_type t) s \<and> (\<forall>p \<in> set ps. \<forall>q \<in> set qs. prop_name p = prop_name q \<longrightarrow> compat T p q)"
| "compat T p q \<longleftrightarrow> False"

lemma getProperties_unique:
  "distinct (bag_list ps) \<Longrightarrow> bag_getProperties ps n = (case bag_find ps n of None \<Rightarrow> [] | Some p \<Rightarrow> [p])"
proof (induction ps)
  case (Cons p ps)
  then show ?case
  proof (cases "prop_name p = n")
    case True
    then have "bag_find ps n = None" using Cons.prems by (auto simp: bag_find_None bag_list_def)
    then have "bag_getProperties ps n = []" using Cons by (simp add: bag_list_def)
    then show ?thesis using True by (simp add: bag_getProperties_def)
  next
    case False
    then show ?thesis using Cons by (simp add: bag_list_def bag_getProperties_def)
  qed
qed (simp add: bag_getProperties_def)

lemma update_named_done [simp]: "update_named T n [] qs = (True, qs)"
  by (cases qs) simp_all

text \<open>One name: its property is updated, or a new one is added.\<close>

definition merged :: "'v type_system \<Rightarrow> 'v property \<Rightarrow> 'v property option \<Rightarrow> 'v property" where
  "merged T p q = (case q of None \<Rightarrow> new_prop T p | Some q \<Rightarrow> snd (update_prop T p q))"

definition can_update :: "'v type_system \<Rightarrow> 'v property \<Rightarrow> 'v property option \<Rightarrow> bool" where
  "can_update T p q = (case q of None \<Rightarrow> True | Some q \<Rightarrow> fst (update_prop T p q))"

lemma new_prop_name [simp]: "prop_name (new_prop T p) = prop_name p"
  by (cases "(T, p)" rule: new_prop.cases) (auto split: prod.split)

lemma convert_name [simp]: "prop_name (snd (convert_or_compose T v q)) = prop_name q"
  by (simp add: convert_or_compose_def split: pvalue.split option.split prod.split)

lemma update_prop_name [simp]: "prop_name (snd (update_prop T p q)) = prop_name q"
  by (cases "(T, p, q)" rule: update_prop.cases) (auto split: prod.split simp: Let_def)

lemma update_named_one:
  assumes "can_update T p (bag_find qs n)" and "prop_name p = n"
  shows "\<exists>qs'. update_named T n [p] qs = (True, qs') \<and>
    (\<forall>m. bag_find qs' m = (if m = n then Some (merged T p (bag_find qs n)) else bag_find qs m))"
  using assms
proof (induction qs)
  case Nil
  then show ?case by (simp add: merged_def)
next
  case (Cons q qs)
  show ?case
  proof (cases "prop_name q = n")
    case True
    obtain ok q' where u: "update_prop T p q = (ok, q')" by (cases "update_prop T p q")
    then have "prop_name q' = n" using update_prop_name [of T p q] True by simp
    then show ?thesis using Cons.prems True u by (simp add: can_update_def merged_def)
  next
    case False
    then obtain qs' where "update_named T n [p] qs = (True, qs')"
      "\<forall>m. bag_find qs' m = (if m = n then Some (merged T p (bag_find qs n)) else bag_find qs m)"
      using Cons by auto
    then show ?thesis using False by auto
  qed
qed

lemma update_names_spec:
  assumes "distinct (bag_list source)" and "distinct names" and "set names \<subseteq> set (bag_list source)"
    and "\<And>n p. n \<in> set names \<Longrightarrow> bag_find source n = Some p \<Longrightarrow> can_update T p (bag_find target n)"
  shows "\<exists>target'. update_names T names source target = (True, target') \<and>
    (\<forall>m. bag_find target' m =
       (case bag_find source m of Some p \<Rightarrow> if m \<in> set names then Some (merged T p (bag_find target m)) else bag_find target m
        | None \<Rightarrow> bag_find target m))"
  using assms(2-4)
proof (induction names arbitrary: target)
  case Nil
  then show ?case by (auto split: option.split)
next
  case (Cons n names)
  have "n \<in> prop_name ` set source" using Cons.prems(2) by (auto simp: bag_list_def)
  then obtain p where p: "bag_find source n = Some p" using bag_find_None [of source n] by auto
  then have pn: "prop_name p = n" using bag_find_name by blast
  have g: "bag_getProperties source n = [p]" using getProperties_unique [OF assms(1), of n] p by simp
  obtain t1 where t1: "update_named T n [p] target = (True, t1)"
      "\<forall>m. bag_find t1 m = (if m = n then Some (merged T p (bag_find target n)) else bag_find target m)"
    using update_named_one [OF Cons.prems(3) [OF _ p] pn] by auto
  have "\<exists>target'. update_names T names source t1 = (True, target') \<and>
    (\<forall>m. bag_find target' m =
       (case bag_find source m of Some p \<Rightarrow> if m \<in> set names then Some (merged T p (bag_find t1 m)) else bag_find t1 m
        | None \<Rightarrow> bag_find t1 m))"
    using Cons.prems t1(2) by (intro Cons.IH) (auto split: if_splits)
  then show ?case using g t1 p Cons.prems(1) by (fastforce split: option.splits)
qed

lemma update_spec:
  assumes "distinct (bag_list source)" and "\<not> types_differ T (own_type t) s"
    and "\<And>n p. bag_find source n = Some p \<Longrightarrow> can_update T p (bag_find target n)"
  shows "\<exists>target'. updateProperties T (t, target) (s, source) = (True, s, target') \<and>
    (\<forall>m. bag_find target' m =
       (case bag_find source m of Some p \<Rightarrow> Some (merged T p (bag_find target m)) | None \<Rightarrow> bag_find target m))"
proof -
  obtain target' where t: "update_names T (bag_list source) source target = (True, target')"
    "\<forall>m. bag_find target' m =
       (case bag_find source m of Some p \<Rightarrow> if m \<in> set (bag_list source) then Some (merged T p (bag_find target m)) else bag_find target m
        | None \<Rightarrow> bag_find target m)"
    using update_names_spec [OF assms(1,1) subset_refl, of T target] assms(3) by blast
  have "m \<in> set (bag_list source)" if "bag_find source m = Some p" for m p
    using bag_find_name [OF that] by (auto simp: bag_list_def)
  then have "\<forall>m. bag_find target' m =
       (case bag_find source m of Some p \<Rightarrow> Some (merged T p (bag_find target m)) | None \<Rightarrow> bag_find target m)"
    using t(2) by (auto split: option.split)
  moreover have "updateProperties T (t, target) (s, source) = (True, s, target')"
    using assms(2) t(1) remdups_adj_distinct [OF assms(1)] by (simp add: updateProperties.simps own_type_def Let_def)
  ultimately show ?thesis by blast
qed

text \<open>A new property has the values of the source.\<close>

lemma new_prop_leaf:
  assumes "type_named T ''PropertyBag'' = bag_type T" and "unique [p]"
  shows "leaf_of (new_prop T p) ns = leaf_of p ns"
  using assms(2)
proof (induction ns arbitrary: p)
  case Nil
  then show ?case by (cases "(T, p)" rule: new_prop.cases) (auto split: prod.split)
next
  case (Cons n ns)
  show ?case
  proof (cases p)
    case p: (Prop m d v)
  show ?thesis
  proof (cases v)
    case (Val a)
    then show ?thesis by (simp add: p)
  next
    case (Bag s ps)
    note 2 = p Bag
    have u: "unique ps" using Cons.prems 2 by simp
    have "\<not> types_differ T (own_type ''PropertyBag'') s" using assms(1) by (simp add: types_differ_def own_type_def)
    from update_spec [OF unique_distinct [OF u] this, of "[]"]
    obtain ps' where ps': "updateProperties T (''PropertyBag'', []) (s, ps) = (True, s, ps')"
      "\<forall>m. bag_find ps' m = (case bag_find ps m of Some p \<Rightarrow> Some (new_prop T p) | None \<Rightarrow> None)"
      by (auto simp: can_update_def merged_def cong: option.case_cong)
    have "unique [q]" if "bag_find ps n = Some q" for q
      using u that by (induction ps rule: unique.induct) (auto split: if_splits)
    then show ?thesis using 2 ps' Cons.IH by (auto split: option.split)
  qed
  qed
qed

lemma compat_updates: "compat T p q \<Longrightarrow> unique [p] \<Longrightarrow> fst (update_prop T p q)"
proof (induction T p q rule: compat.induct)
  case (2 T n d s ps m e t qs)
  have u: "unique ps" using 2(3) by simp
  have "can_update T p (bag_find qs k)" if "bag_find ps k = Some p" for k p
  proof (cases "bag_find qs k")
    case (Some q)
    have "unique [p]" using u that by (induction ps rule: unique.induct) (auto split: if_splits)
    then show ?thesis using 2(1,2) bag_find_name [OF that] bag_find_name [OF Some] Some by (simp add: can_update_def)
  qed (simp add: can_update_def)
  then obtain qs' where "updateProperties T (t, qs) (s, ps) = (True, s, qs')"
    using update_spec [OF unique_distinct [OF u], of T t s qs] 2(2) by auto
  then show ?case by simp
qed auto

lemma update_leaf:
  assumes "type_named T ''PropertyBag'' = bag_type T" and "compat T p q" and "unique [p]"
  shows "leaf_of (snd (update_prop T p q)) ns = (case leaf_of p ns of Some v \<Rightarrow> Some v | None \<Rightarrow> leaf_of q ns)"
  using assms(2,3)
proof (induction ns arbitrary: p q)
  case Nil
  then show ?case by (cases "(T, p, q)" rule: compat.cases) (auto simp: Let_def convert_or_compose_def split: prod.split)
next
  case (Cons n ns)
  obtain m d v m' d' v' where pq: "p = Prop m d v" "q = Prop m' d' v'" by (cases p; cases q)
  show ?case
  proof (cases v)
    case (Val a)
    then show ?thesis using Cons.prems(1) pq by (cases v') auto
  next
    case (Bag s ps)
    then obtain t qs where v': "v' = Bag t qs" using Cons.prems(1) pq by (cases v') auto
    have u: "unique ps" using Cons.prems(2) pq Bag by simp
    have sub: "unique [p]" if "bag_find ps k = Some p" for k p
      using u that by (induction ps rule: unique.induct) (auto split: if_splits)
    have c: "compat T p q" if "bag_find ps k = Some p" "bag_find qs k = Some q" for k p q
      using Cons.prems(1) pq Bag v' bag_find_name [OF that(1)] bag_find_name [OF that(2)] by simp
    have "can_update T p (bag_find qs k)" if "bag_find ps k = Some p" for k p
      using compat_updates [OF c [OF that] sub [OF that]] by (simp add: can_update_def split: option.split)
    then obtain qs' where qs': "updateProperties T (t, qs) (s, ps) = (True, s, qs')"
      "\<forall>m. bag_find qs' m = (case bag_find ps m of Some p \<Rightarrow> Some (merged T p (bag_find qs m)) | None \<Rightarrow> bag_find qs m)"
      using update_spec [OF unique_distinct [OF u], of T t s qs] Cons.prems(1) pq Bag v' by auto
    have "leaf_of (merged T p' (bag_find qs n)) ns = (case leaf_of p' ns of Some v \<Rightarrow> Some v | None \<Rightarrow>
        (case bag_find qs n of None \<Rightarrow> None | Some q' \<Rightarrow> leaf_of q' ns))" if "bag_find ps n = Some p'" for p'
      using Cons.IH [OF c [OF that] sub [OF that]] new_prop_leaf [OF assms(1) sub [OF that], of ns]
      by (auto simp: merged_def split: option.split)
    then show ?thesis using qs' by (auto simp: pq Bag v' Let_def split: option.split)
  qed
qed

text \<open>C23: \<^verbatim>\<open>updateProperties\<close> makes the target agree with the source: afterwards each value of the source is
  found at its path in the target, whether a property had to be created or not, and values at other paths are as they
  were.\<close>

theorem update_takes_source_values:
  assumes "unique source" and "\<forall>p \<in> set source. \<forall>q \<in> set target. prop_name p = prop_name q \<longrightarrow> compat T p q"
    and "\<not> types_differ T (own_type t) s" and "type_named T ''PropertyBag'' = bag_type T"
  shows "\<exists>target'. updateProperties T (t, target) (s, source) = (True, s, target') \<and>
    (\<forall>ns. leaf target' ns = (case leaf source ns of Some v \<Rightarrow> Some v | None \<Rightarrow> leaf target ns))"
proof -
  let ?p = "Prop [] [] (Bag s source)" and ?q = "Prop [] [] (Bag t target)"
  have c: "compat T ?p ?q" "unique [?p]" using assms(1-3) by simp_all
  obtain ok s' target' where u: "updateProperties T (t, target) (s, source) = (ok, s', target')"
    by (cases "updateProperties T (t, target) (s, source)")
  have ok: "ok" using compat_updates [OF c] u by (auto simp: convert_or_compose_def Let_def split: if_splits)
  have s: "s' = s" using u ok assms(3) by (auto simp: updateProperties.simps own_type_def Let_def split: prod.splits if_splits)
  have "leaf target' ns = (case leaf source ns of Some v \<Rightarrow> Some v | None \<Rightarrow> leaf target ns)" for ns
    using update_leaf [OF assms(4) c, of ns] u ok leaf_of_bag [of ?q t target ns] leaf_of_bag [of ?p s source ns]
      leaf_of_bag [of "Prop [] (new_descr [] []) (Bag s' target')" s' target' ns] by (simp add: Let_def cong: option.case_cong)
  moreover have "updateProperties T (t, target) (s, source) = (True, s, target')" using u ok s by simp
  ultimately show ?thesis by blast
qed

text \<open>A type system with one type of values.\<close>

definition nat_types :: "nat type_system" where
  "nat_types =
     \<lparr>same_type = (\<lambda>_ _. True), convert = (\<lambda>_ _. None), compose = (\<lambda>b _. (False, b)),
      type_named = (\<lambda>t. if t = ''PropertyBag'' then Some 0 else None), bag_type = Some 0, default_value = (\<lambda>_. 0)\<rparr>"

lemma update_takes_source_values_witness:
  "\<exists>target'. updateProperties nat_types (''PropertyBag'', sample_bag)
      (''PropertyBag'', [Prop ''offset'' [] (Val 5), Prop ''limits'' [] (Bag ''PropertyBag'' [Prop ''high'' [] (Val 7)])]) =
      (True, ''PropertyBag'', target') \<and>
    leaf target' [''limits'', ''high''] = Some 7 \<and> leaf target' [''limits'', ''low''] = Some 1 \<and> leaf target' [''offset''] = Some 5"
proof -
  let ?s = "[Prop ''offset'' [] (Val 5), Prop ''limits'' [] (Bag ''PropertyBag'' [Prop ''high'' [] (Val 7)])]"
  have h: "unique ?s" "\<forall>p \<in> set ?s. \<forall>q \<in> set sample_bag. prop_name p = prop_name q \<longrightarrow> compat nat_types p q"
    "\<not> types_differ nat_types (own_type ''PropertyBag'') ''PropertyBag''" "type_named nat_types ''PropertyBag'' = bag_type nat_types"
    by (simp_all add: sample_bag_def nat_types_def types_differ_def own_type_def)
  obtain target' where t: "updateProperties nat_types (''PropertyBag'', sample_bag) (''PropertyBag'', ?s) = (True, ''PropertyBag'', target')"
    "\<forall>ns. leaf target' ns = (case leaf ?s ns of Some v \<Rightarrow> Some v | None \<Rightarrow> leaf sample_bag ns)"
    using update_takes_source_values [OF h] by blast
  from t(2) have "leaf target' ns = (case leaf ?s ns of Some v \<Rightarrow> Some v | None \<Rightarrow> leaf sample_bag ns)" for ns by blast
  then have "leaf target' [''limits'', ''high''] = Some 7 \<and> leaf target' [''limits'', ''low''] = Some 1 \<and> leaf target' [''offset''] = Some 5"
    by (simp only:) (simp add: sample_bag_def)
  with t(1) show ?thesis by blast
qed

section \<open>Refresh\<close>

text \<open>A tree without its values.\<close>

abbreviation skeleton :: "'v property \<Rightarrow> unit property" where
  "skeleton \<equiv> map_property (\<lambda>_. ())"

lemma convert_skeleton: "skeleton (snd (convert_or_compose T v q)) = skeleton q"
  by (cases q) (auto simp: convert_or_compose_def split: pvalue.split option.split prod.split)

lemma refresh_skeleton:
  "skeleton (snd (refresh_prop T p q)) = skeleton q"
  "map skeleton (snd (refresh_loop T a source i target)) = map skeleton target"
  "map skeleton (snd (refreshProperties T a (t, target) (s, source))) = map skeleton target"
proof (induction T p q and T a source i target and T a "(t, target)" "(s, source)" arbitrary: and and t target s source
    rule: refresh_prop_refresh_loop_refreshProperties.induct)
qed (auto simp: convert_skeleton refreshProperties.simps split: prod.split option.split)

fun fits :: "'v type_system \<Rightarrow> 'v property \<Rightarrow> 'v property \<Rightarrow> bool" where
  "fits T (Prop n d (Val a)) (Prop m e (Val b)) \<longleftrightarrow> same_type T a b"
| "fits T (Prop n d (Bag s ps)) (Prop m e (Bag t qs)) \<longleftrightarrow>
     \<not> types_differ T t s \<and> (\<forall>p \<in> set ps. \<forall>q \<in> set qs. prop_name p = prop_name q \<longrightarrow> fits T p q)"
| "fits T p q \<longleftrightarrow> False"

definition refreshed :: "'v type_system \<Rightarrow> 'v property list \<Rightarrow> 'v property \<Rightarrow> 'v property" where
  "refreshed T source q = (case bag_find source (prop_name q) of None \<Rightarrow> q | Some p \<Rightarrow> snd (refresh_prop T p q))"

lemma refresh_prop_name [simp]: "prop_name (snd (refresh_prop T p q)) = prop_name q"
  by (cases "(T, p, q)" rule: refresh_prop.cases) (auto split: prod.split)

lemma refresh_loop_spec:
  assumes "\<forall>q \<in> set target. prop_name q \<noteq> []"
    and "\<And>p q. q \<in> set target \<Longrightarrow> bag_find source (prop_name q) = Some p \<Longrightarrow> fst (refresh_prop T p q)"
  shows "refresh_loop T allprops source i target =
     (allprops \<longrightarrow> (\<forall>q \<in> set target. bag_find source (prop_name q) \<noteq> None), map (refreshed T source) target)"
  using assms
proof (induction target arbitrary: i)
  case (Cons q target)
  have IH: "refresh_loop T allprops source i target =
     (allprops \<longrightarrow> (\<forall>q \<in> set target. bag_find source (prop_name q) \<noteq> None), map (refreshed T source) target)" for i
    using Cons by simp
  show ?case
  proof (cases "bag_find source (prop_name q)")
    case None
    then show ?thesis using IH Cons.prems(1) by (auto simp: refreshed_def)
  next
    case (Some p)
    then have "fst (refresh_prop T p q)" using Cons.prems(2) by simp
    then show ?thesis using IH Cons.prems(1) Some by (auto simp: refreshed_def split: prod.split)
  qed
qed simp

lemma tidy_names: "tidy c ps \<Longrightarrow> \<forall>q \<in> set ps. prop_name q \<noteq> []"
  by (induction c ps rule: tidy.induct) (auto simp: plain_def)

lemma tidy_sub: "tidy c ps \<Longrightarrow> q \<in> set ps \<Longrightarrow> tidy c [q]"
  by (induction c ps rule: tidy.induct) (auto split: pvalue.splits)

lemma fits_refreshes: "fits T p q \<Longrightarrow> tidy c [q] \<Longrightarrow> fst (refresh_prop T p q)"
proof (induction T p q rule: fits.induct)
  case (2 T n d s ps m e t qs)
  have c: "tidy c qs" using 2(3) by simp
  have "fst (refresh_prop T p q)" if "q \<in> set qs" "bag_find ps (prop_name q) = Some p" for p q
    using 2(1) [OF _ that(1)] 2(2) bag_find_name [OF that(2)] tidy_sub [OF c that(1)] that(1) by simp
  then have "refresh_loop T False ps 0 qs = (True, map (refreshed T ps) qs)"
    using refresh_loop_spec [OF tidy_names [OF c], of ps T False 0] by simp
  then show ?case using 2(2) by (simp add: refreshProperties.simps)
qed auto

lemma refreshed_name [simp]: "prop_name (refreshed T source q) = prop_name q"
  by (simp add: refreshed_def split: option.split)

lemma bag_find_map: "(\<And>q. prop_name (f q) = prop_name q) \<Longrightarrow> bag_find (map f ps) n = map_option f (bag_find ps n)"
  by (induction ps) auto

lemma refresh_leaf:
  assumes "fits T p q" and "tidy c [q]"
  shows "leaf_of (snd (refresh_prop T p q)) ns =
    (case leaf_of q ns of None \<Rightarrow> None | Some v \<Rightarrow> (case leaf_of p ns of Some u \<Rightarrow> Some u | None \<Rightarrow> Some v))"
  using assms
proof (induction ns arbitrary: p q)
  case Nil
  then show ?case by (cases "(T, p, q)" rule: fits.cases) (auto simp: convert_or_compose_def split: prod.split)
next
  case (Cons n ns)
  obtain m d v m' d' v' where pq: "p = Prop m d v" "q = Prop m' d' v'" by (cases p; cases q)
  show ?case
  proof (cases v)
    case (Val a)
    then show ?thesis using Cons.prems(1) pq by (cases v') auto
  next
    case (Bag s ps)
    then obtain t qs where v': "v' = Bag t qs" using Cons.prems(1) pq by (cases v') auto
    have c: "tidy c qs" using Cons.prems(2) pq v' by simp
    have fit: "fits T p q" if "q \<in> set qs" "bag_find ps (prop_name q) = Some p" for p q
      using Cons.prems(1) pq Bag v' bag_find_name [OF that(2)] that(1) by simp
    have "refreshProperties T False (t, qs) (s, ps) = (True, map (refreshed T ps) qs)"
      using refresh_loop_spec [OF tidy_names [OF c], of ps T False 0] fits_refreshes [OF fit tidy_sub [OF c]] Cons.prems(1) pq Bag v'
      by (simp add: refreshProperties.simps)
    then have "leaf_of (snd (refresh_prop T p q)) (n # ns) =
        (case bag_find qs n of None \<Rightarrow> None | Some q' \<Rightarrow> leaf_of (refreshed T ps q') ns)"
      using pq Bag v' by (simp add: bag_find_map split: option.split)
    moreover have "leaf_of (refreshed T ps q') ns = (case leaf_of q' ns of None \<Rightarrow> None | Some v \<Rightarrow>
        (case (case bag_find ps n of None \<Rightarrow> None | Some p' \<Rightarrow> leaf_of p' ns) of Some u \<Rightarrow> Some u | None \<Rightarrow> Some v))"
      if "bag_find qs n = Some q'" for q'
      using Cons.IH [OF fit tidy_sub [OF c]] bag_find_name [OF that]
      by (auto simp: refreshed_def split: option.split)
    ultimately show ?thesis using pq Bag v' by (auto split: option.split)
  qed
qed

text \<open>\<^verbatim>\<open>refreshProperties\<close> changes nothing but values, whatever the type system does: names, descriptions,
  types and bags of the target stay, also when it fails. When the types fit, each value of the target that the
  source has becomes the source's, the others stay, and it fails exactly if it is strict and the source lacks a
  property of the target.\<close>

theorem refresh_changes_only_values:
  shows "map skeleton (snd (refreshProperties T allprops (t, target) (s, source))) = map skeleton target \<and>
    (tidy c target \<and> \<not> types_differ T t s \<and>
     (\<forall>p \<in> set source. \<forall>q \<in> set target. prop_name p = prop_name q \<longrightarrow> fits T p q) \<longrightarrow>
       (fst (refreshProperties T allprops (t, target) (s, source)) \<longleftrightarrow>
          (allprops \<longrightarrow> set (bag_list target) \<subseteq> set (bag_list source))) \<and>
       (\<forall>ns. leaf (snd (refreshProperties T allprops (t, target) (s, source))) ns =
          (case leaf target ns of None \<Rightarrow> None
           | Some v \<Rightarrow> (case leaf source ns of Some u \<Rightarrow> Some u | None \<Rightarrow> Some v))))"
proof (intro conjI impI allI)
  show "map skeleton (snd (refreshProperties T allprops (t, target) (s, source))) = map skeleton target"
    by (rule refresh_skeleton)
next
  assume h: "tidy c target \<and> \<not> types_differ T t s \<and>
     (\<forall>p \<in> set source. \<forall>q \<in> set target. prop_name p = prop_name q \<longrightarrow> fits T p q)"
  then have c: "tidy c target" by simp
  have fit: "fits T p q" if "q \<in> set target" "bag_find source (prop_name q) = Some p" for p q
    using h bag_find_name [OF that(2)] that(1) by simp
  have r: "refreshProperties T allprops (t, target) (s, source) =
      (allprops \<longrightarrow> (\<forall>q \<in> set target. bag_find source (prop_name q) \<noteq> None), map (refreshed T source) target)"
    using refresh_loop_spec [OF tidy_names [OF c], of source T allprops 0] fits_refreshes [OF fit tidy_sub [OF c]] h
    by (simp add: refreshProperties.simps)
  have "(\<forall>q \<in> set target. bag_find source (prop_name q) \<noteq> None) \<longleftrightarrow> set (bag_list target) \<subseteq> set (bag_list source)"
    by (auto simp: bag_list_def bag_find_None)
  then show "fst (refreshProperties T allprops (t, target) (s, source)) \<longleftrightarrow>
      (allprops \<longrightarrow> set (bag_list target) \<subseteq> set (bag_list source))" using r by simp
  fix ns
  show "leaf (snd (refreshProperties T allprops (t, target) (s, source))) ns =
      (case leaf target ns of None \<Rightarrow> None | Some v \<Rightarrow> (case leaf source ns of Some u \<Rightarrow> Some u | None \<Rightarrow> Some v))"
  proof (cases ns)
    case (Cons n ms)
    have "leaf_of (refreshed T source q) ms = (case leaf_of q ms of None \<Rightarrow> None | Some v \<Rightarrow>
        (case (case bag_find source n of None \<Rightarrow> None | Some p \<Rightarrow> leaf_of p ms) of Some u \<Rightarrow> Some u | None \<Rightarrow> Some v))"
      if "bag_find target n = Some q" for q
      using refresh_leaf [OF fit tidy_sub [OF c], of q] bag_find_name [OF that]
      by (auto simp: refreshed_def split: option.split)
    then show ?thesis using r Cons by (auto simp: bag_find_map split: option.split)
  qed simp
qed

lemma refresh_changes_only_values_witness:
  "let r = refreshProperties nat_types False (''PropertyBag'', sample_bag)
       (''PropertyBag'', [Prop ''offset'' [] (Val 5), Prop ''limits'' [] (Bag ''PropertyBag'' [Prop ''high'' [] (Val 7)])]) in
   fst r \<and> leaf (snd r) [''limits'', ''high''] = Some 7 \<and> leaf (snd r) [''gain''] = Some 3 \<and> leaf (snd r) [''offset''] = None"
proof -
  let ?s = "[Prop ''offset'' [] (Val 5), Prop ''limits'' [] (Bag ''PropertyBag'' [Prop ''high'' [] (Val 7)])]"
  let ?r = "refreshProperties nat_types False (''PropertyBag'', sample_bag) (''PropertyBag'', ?s)"
  have fit: "\<not> types_differ nat_types ''PropertyBag'' ''PropertyBag''"
    "\<forall>p \<in> set ?s. \<forall>q \<in> set sample_bag. prop_name p = prop_name q \<longrightarrow> fits nat_types p q"
    by (simp_all add: sample_bag_def nat_types_def types_differ_def)
  have r: "fst ?r \<and> (\<forall>ns. leaf (snd ?r) ns =
      (case leaf sample_bag ns of None \<Rightarrow> None | Some v \<Rightarrow> (case leaf ?s ns of Some u \<Rightarrow> Some u | None \<Rightarrow> Some v)))"
    using refresh_changes_only_values [of nat_types False "''PropertyBag''" sample_bag "''PropertyBag''" ?s "CHR ''.''"]
      sample_bag_tidy fit by blast
  then have l: "leaf (snd ?r) ns =
      (case leaf sample_bag ns of None \<Rightarrow> None | Some v \<Rightarrow> (case leaf ?s ns of Some u \<Rightarrow> Some u | None \<Rightarrow> Some v))" for ns by blast
  have "leaf (snd ?r) [''limits'', ''high''] = Some 7" "leaf (snd ?r) [''gain''] = Some 3" "leaf (snd ?r) [''offset''] = None"
    by (simp_all only: l) (simp_all add: sample_bag_def)
  with r show ?thesis by (simp add: Let_def)
qed

section \<open>Copy\<close>

text \<open>A copy has the values and names of the source, but its bags have lost their types.\<close>

lemma copy_loses_type: "copyProperties [] [Prop n d (Bag t ps)] = [Prop n d (Bag ''PropertyBag'' (map copy_prop ps))]"
  by (simp add: copyProperties_def)

lemma copy_leaf: "leaf_of (copy_prop p) ns = leaf_of p ns"
proof (induction ns arbitrary: p)
  case Nil
  then show ?case by (cases p rule: copy_prop.cases) auto
next
  case (Cons n ns)
  have n: "prop_name (copy_prop q) = prop_name q" for q :: "'a property" by (cases q rule: copy_prop.cases) auto
  show ?case using Cons.IH by (cases p rule: copy_prop.cases) (auto simp: bag_find_map n split: option.split)
qed

section \<open>Flatten\<close>

definition under :: "string \<Rightarrow> string \<Rightarrow> 'v property \<Rightarrow> 'v property" where
  "under n sep q = Prop (n @ sep @ prop_name q) (prop_descr q) (prop_value q)"

fun emptied :: "'v property \<Rightarrow> 'v property" where
  "emptied (Prop n d (Val v)) = Prop n d (Val v)"
| "emptied (Prop n d (Bag t ps)) = Prop n d (Bag t [])"

text \<open>What is moved out of the bags.\<close>

fun moved :: "string \<Rightarrow> 'v property list \<Rightarrow> 'v property list" where
  "moved sep [] = []"
| "moved sep (Prop n d v # ps) =
     (case v of Bag t qs \<Rightarrow> map (under n sep) (map emptied qs @ moved sep qs) | Val _ \<Rightarrow> []) @ moved sep ps"

abbreviation flat :: "'v property \<Rightarrow> bool" where
  "flat p \<equiv> emptied p = p"

lemma flat_emptied [simp]: "flat (emptied p)"
  by (cases p rule: emptied.cases) simp_all

lemma flat_under: "flat p \<Longrightarrow> flat (under n sep p)"
  by (cases p rule: emptied.cases) (auto simp: under_def)

lemma flat_moved: "\<forall>p \<in> set (moved sep ps). flat p"
  by (induction sep ps rule: moved.induct) (auto split: pvalue.splits intro!: flat_under)

lemma flatten_step:
  "i < length target \<Longrightarrow> target ! i = Prop n d v \<Longrightarrow> flatten_from sep i target =
     (case v of
        Val _ \<Rightarrow> flatten_from sep (Suc i) target
      | Bag t ps \<Rightarrow>
          do {
            qs \<leftarrow> flatten_from sep 0 ps;
            if qs \<noteq> [] then flatten_from sep 0 (target[i := Prop n d (Bag t [])] @ map (under n sep) qs)
            else flatten_from sep (Suc i) (target[i := Prop n d (Bag t [])])
          })"
proof -
  have u: "under n sep = (\<lambda>q. Prop (n @ sep @ prop_name q) (prop_descr q) (prop_value q))" by (simp add: under_def fun_eq_iff)
  show "i < length target \<Longrightarrow> target ! i = Prop n d v \<Longrightarrow> ?thesis"
    unfolding u by (subst flatten_from.simps) (simp split: pvalue.split)
qed

lemma flatten_empty [simp]: "flatten_from sep 0 [] = Some []"
  by (subst flatten_from.simps) simp

lemma flatten_skip:
  assumes "\<forall>p \<in> set as. flat p" and "i \<le> length as"
  shows "flatten_from sep i (as @ bs) = flatten_from sep (length as) (as @ bs)"
  using assms(2)
proof (induction "length as - i" arbitrary: i)
  case (Suc k)
  then have i: "i < length as" by simp
  obtain n d v where p: "as ! i = Prop n d v" by (cases "as ! i")
  have "flat (as ! i)" using assms(1) i by simp
  then have "flatten_from sep i (as @ bs) = flatten_from sep (Suc i) (as @ bs)"
  proof (cases v)
    case (Bag t ps)
    have u: "(as @ bs)[i := Prop n d (Bag t [])] = as @ bs" "ps = []"
      using \<open>flat (as ! i)\<close> p Bag i list_update_id [of as i] by (auto simp: list_update_append)
    show ?thesis using i p Bag u by (subst flatten_step [of i _ n d v]) (auto simp: nth_append)
  qed (use i p in \<open>subst flatten_step [of i _ n d v]; auto simp: nth_append\<close>)
  also have "\<dots> = flatten_from sep (length as) (as @ bs)" using Suc by simp
  finally show ?case .
qed (use assms(2) in simp)

lemma flatten_all:
  assumes "\<forall>p \<in> set as. flat p" and "\<forall>p \<in> set cs. flat p"
  shows "flatten_from sep (length as) (as @ bs @ cs) = Some (as @ map emptied bs @ cs @ moved sep bs)"
  using assms
proof (induction "size_list size bs" arbitrary: as bs cs rule: less_induct)
  case less
  show ?case
  proof (cases bs)
    case Nil
    have "flatten_from sep (length as) (as @ cs) = flatten_from sep (length (as @ cs)) ((as @ cs) @ [])"
      using flatten_skip [of "as @ cs" "length as" sep "[]"] less.prems by (simp add: ball_Un)
    also have "\<dots> = Some (as @ cs)" by (subst flatten_from.simps) simp
    finally show ?thesis using Nil by simp
  next
    case (Cons p bs')
    obtain n d v where p: "p = Prop n d v" by (cases p)
    have i: "length as < length (as @ bs @ cs)" "(as @ bs @ cs) ! length as = Prop n d v" using Cons p by simp_all
    show ?thesis
    proof (cases v)
      case (Val x)
      have "flatten_from sep (length (as @ [p])) ((as @ [p]) @ bs' @ cs) =
          Some ((as @ [p]) @ map emptied bs' @ cs @ moved sep bs')"
        by (rule less.hyps) (use Cons less.prems p Val in auto)
      then show ?thesis using flatten_step [OF i, of sep] Val Cons p by simp
    next
      case (Bag t ps)
      define e where "e = Prop n d (Bag t ([] :: 'a property list))"
      define qs where "qs = map emptied ps @ moved sep ps"
      have q: "flatten_from sep 0 ps = Some qs" using less.hyps [of ps "[]" "[]"] Cons p Bag by (simp add: qs_def)
      have fe: "flat e" by (simp add: e_def)
      have fq: "\<forall>q \<in> set (map (under n sep) qs). flat q" using flat_moved by (auto simp: qs_def intro!: flat_under)
      have up: "(as @ bs @ cs)[length as := e] = (as @ [e]) @ bs' @ cs" using Cons by simp
      have "flatten_from sep (length as) (as @ bs @ cs) =
          flatten_from sep (length (as @ [e])) ((as @ [e]) @ bs' @ cs @ map (under n sep) qs)"
      proof (cases "qs = []")
        case True
        then show ?thesis using flatten_step [OF i, of sep] Bag q up by (simp add: e_def)
      next
        case False
        then have "flatten_from sep (length as) (as @ bs @ cs) = flatten_from sep 0 ((as @ [e]) @ bs' @ cs @ map (under n sep) qs)"
          using flatten_step [OF i, of sep] Bag q up by (simp add: e_def)
        also have "\<dots> = flatten_from sep (length (as @ [e])) ((as @ [e]) @ bs' @ cs @ map (under n sep) qs)"
          by (rule flatten_skip) (use less.prems fe in auto)
        finally show ?thesis .
      qed
      also have "\<dots> = Some ((as @ [e]) @ map emptied bs' @ (cs @ map (under n sep) qs) @ moved sep bs')"
        by (rule less.hyps) (use Cons less.prems fe fq in auto)
      finally show ?thesis using Cons p Bag by (simp add: e_def qs_def)
    qed
  qed
qed

lemma flatten_result: "flattenPropertyBag sep bag = Some (map emptied bag @ moved sep bag)"
  using flatten_all [of "[]" "[]" sep bag] by (simp add: flattenPropertyBag_def)

lemma emptied_name [simp]: "prop_name (emptied p) = prop_name p" "prop_descr (emptied p) = prop_descr p"
  by (cases p rule: emptied.cases; simp)+

lemma flat_names: "tidy c ps \<Longrightarrow> mset (map prop_name (map emptied ps @ moved [c] ps)) = mset (map (join c) (paths ps))"
proof (induction "[c]" ps rule: moved.induct)
  case (2 n d v ps)
  have e: "map prop_name (map emptied qs) = map prop_name qs" for qs :: "'a property list" by simp
  show ?case
  proof (cases v)
    case (Bag t qs)
    have "join c (n # ns) = n @ c # join c ns" if "ns \<in> set (paths qs)" for ns
      using paths_nonempty [OF that] by (rule join_Cons)
    then have "map (join c) (map ((#) n) (paths qs)) = map (\<lambda>s. n @ c # s) (map (join c) (paths qs))" by simp
    moreover have "map prop_name (map (under n [c]) rs) = map (\<lambda>s. n @ c # s) (map prop_name rs)" for rs :: "'a property list"
      by (simp add: under_def)
    ultimately have "mset (map prop_name (map (under n [c]) (map emptied qs @ moved [c] qs))) = mset (map (join c) (map ((#) n) (paths qs)))"
      using 2(1) [OF Bag] 2(3) Bag by (simp only: mset_map) simp
    then show ?thesis using 2(2,3) Bag by (simp add: ac_simps del: map_map)
  qed (use 2 in simp)
qed simp

lemma moved_member:
  "Prop n d (Bag t qs) \<in> set ps \<Longrightarrow> r \<in> set (map emptied qs @ moved sep qs) \<Longrightarrow> under n sep r \<in> set (moved sep ps)"
  by (induction sep ps rule: moved.induct) auto

lemma flat_member:
  assumes "lookup ps ns = Some p"
  shows "Prop (join c ns) (prop_descr p) (prop_value (emptied p)) \<in> set (map emptied ps @ moved [c] ps)"
  using assms
proof (induction ns arbitrary: ps)
  case (Cons n ns)
  show ?case
  proof (cases "ns = []")
    case True
    then have "p \<in> set ps" "prop_name p = n" using Cons.prems bag_find_name [of ps n p] by auto
    moreover have "emptied p = Prop (prop_name p) (prop_descr p) (prop_value (emptied p))" by (cases p rule: emptied.cases) simp_all
    ultimately show ?thesis using True by force
  next
    case False
    then obtain q t qs where q: "bag_find ps n = Some q" "prop_value q = Bag t qs" "lookup qs ns = Some p"
      using Cons.prems by (auto simp: lookup_Cons split: option.splits pvalue.splits)
    have "q = Prop n (prop_descr q) (Bag t qs)" "q \<in> set ps" using bag_find_name [OF q(1)] q(2) by (cases q; simp)+
    then have "Prop n (prop_descr q) (Bag t qs) \<in> set ps" by simp
    from moved_member [OF this Cons.IH [OF q(3)]] show ?thesis by (simp add: under_def join_Cons [OF False])
  qed
qed simp

lemma join_inj:
  assumes "\<forall>n \<in> set ns. plain c n" "\<forall>n \<in> set ms. plain c n" "join c ns = join c ms"
  shows "ns = ms"
  using assms
proof (induction ns arbitrary: ms)
  case Nil
  then show ?case using join_empty [of ms c] by auto
next
  case (Cons n ns)
  then obtain m ms' where ms: "ms = m # ms'" using join_empty [OF Cons.prems(1)] by (cases ms) auto
  have c: "c \<notin> set n" "c \<notin> set m" using Cons.prems ms by (auto simp: plain_def)
  have t: "takeWhile (\<lambda>x. x \<noteq> c) (k @ c # r) = k" if "c \<notin> set k" for k r using that by (induction k) auto
  show ?case
  proof (cases "ns = []"; cases "ms' = []")
    assume e: "ns \<noteq> []" "ms' \<noteq> []"
    then have j: "n @ c # join c ns = m @ c # join c ms'" using Cons.prems(3) ms by (simp add: join_Cons)
    then have "n = m" using t [OF c(1), of "join c ns"] t [OF c(2), of "join c ms'"] by simp
    moreover have "ns = ms'" by (rule Cons.IH) (use Cons.prems(1,2) ms j \<open>n = m\<close> in simp_all)
    ultimately show ?thesis using ms by simp
  next
    assume "ns = []" "ms' \<noteq> []"
    with Cons.prems(3) ms have "n = m @ c # join c ms'" by (simp add: join_Cons)
    with c(1) show ?thesis by simp
  next
    assume "ns \<noteq> []" "ms' = []"
    with Cons.prems(3) ms have "n @ c # join c ns = m" by (simp add: join_Cons)
    with c(2) show ?thesis by auto
  qed (use Cons.prems(3) ms in simp)
qed

lemma paths_distinct: "tidy c ps \<Longrightarrow> distinct (paths ps)"
proof (induction ps rule: paths.induct)
  case (2 n d v ps)
  have no: "n # ns \<notin> set (paths ps)" for ns
  proof
    assume a: "n # ns \<in> set (paths ps)"
    have "tidy c ps" using 2(3) by simp
    then have "lookup ps (n # ns) \<noteq> None" using lookup_in_paths a by blast
    moreover have "bag_find ps n = None" using 2(3) by (simp add: bag_find_None)
    ultimately show False by (cases "ns = []") (simp_all add: lookup_Cons)
  qed
  show ?case
  proof (cases v)
    case (Bag t qs)
    have "[] \<notin> set (paths qs)" using paths_nonempty by blast
    then show ?thesis using 2 Bag no by (auto simp: distinct_map)
  qed (use 2 no in auto)
qed simp

lemma bag_find_member: "distinct (bag_list ps) \<Longrightarrow> p \<in> set ps \<Longrightarrow> bag_find ps (prop_name p) = Some p"
  by (induction ps) (auto simp: bag_list_def)

text \<open>\<^verbatim>\<open>flattenPropertyBag\<close> returns, and lifts every property of the tree to the root under the spelling of
  its path: the names are the paths that \<^verbatim>\<open>listProperties\<close> listed before, values and descriptions are kept,
  and the bags stay behind empty.\<close>

theorem flatten_lifts_every_property:
  assumes "tidy c bag"
  shows "\<exists>flat. flattenPropertyBag [c] bag = Some flat \<and> mset (bag_list flat) = mset (listProperties bag [c]) \<and>
    (\<forall>ns p. lookup bag ns = Some p \<longrightarrow>
       bag_find flat (join c ns) = Some (Prop (join c ns) (prop_descr p) (prop_value (emptied p))))"
proof -
  let ?flat = "map emptied bag @ moved [c] bag"
  have l: "listProperties bag [c] = map (join c) (paths bag)"
    using list_paths [OF assms, of "[]"] by (simp add: listProperties_def)
  have n: "mset (bag_list ?flat) = mset (map (join c) (paths bag))"
    using flat_names [OF assms] unfolding bag_list_def .
  have "inj_on (join c) (set (paths bag))"
    by (rule inj_onI) (use join_inj paths_plain [OF assms] in blast)
  then have "distinct (map (join c) (paths bag))" using paths_distinct [OF assms] by (simp add: distinct_map)
  then have d: "distinct (bag_list ?flat)" using mset_eq_imp_distinct_iff [OF n] by simp
  show ?thesis
  proof (intro exI conjI allI impI)
    show "flattenPropertyBag [c] bag = Some ?flat" by (rule flatten_result)
    show "mset (bag_list ?flat) = mset (listProperties bag [c])" by (simp only: n l)
    show "bag_find ?flat (join c ns) = Some (Prop (join c ns) (prop_descr p) (prop_value (emptied p)))"
      if "lookup bag ns = Some p" for ns p
      using bag_find_member [OF d flat_member [OF that, of c]] by simp
  qed
qed

lemma flatten_lifts_every_property_witness:
  "\<exists>flat. flattenPropertyBag ''.'' sample_bag = Some flat \<and>
     bag_find flat ''limits.high'' = Some (Prop ''limits.high'' ''highest'' (Val 9))"
proof -
  have "lookup sample_bag [''limits'', ''high''] = Some (Prop ''high'' ''highest'' (Val 9))" by (simp add: sample_bag_def)
  then show ?thesis using flatten_lifts_every_property [OF sample_bag_tidy] by fastforce
qed

end
