(* ===== verification/PolicyBag.thy ===== *)
theory PolicyBag
  imports PropertyUpdate
begin

text \<open>
  Connection policies as properties: \<^verbatim>\<open>composeProperty\<close> and \<^verbatim>\<open>decomposeProperty\<close> of \<^verbatim>\<open>rtt/ConnPolicy.cpp\<close>. Policies
  have all their fields here; theory \<open>DataStorage\<close> has those that choose the storage of a connection.
\<close>

datatype policy_value = PInt int | PBool bool | PString string

record ConnPolicy =
  policy_type :: int
  policy_init :: bool
  policy_lock :: int
  policy_pull :: bool
  policy_size :: int
  policy_transport :: int
  policy_data_size :: int
  policy_name_id :: string

text \<open>One field: \<^verbatim>\<open>i = bag.getProperty(name)\<close>, then \<^verbatim>\<open>ready()\<close> tells whether the property is there and has
  the type. The result is \<open>None\<close> if the property has another type, and the old value if there is none.\<close>

definition int_field :: "policy_value property list \<Rightarrow> string \<Rightarrow> int \<Rightarrow> int option" where
  "int_field bag name old =
     (case bag_find bag name of
        None \<Rightarrow> Some old
      | Some p \<Rightarrow> (case prop_value p of Val (PInt i) \<Rightarrow> Some i | _ \<Rightarrow> None))"

definition bool_field :: "policy_value property list \<Rightarrow> string \<Rightarrow> bool \<Rightarrow> bool option" where
  "bool_field bag name old =
     (case bag_find bag name of
        None \<Rightarrow> Some old
      | Some p \<Rightarrow> (case prop_value p of Val (PBool b) \<Rightarrow> Some b | _ \<Rightarrow> None))"

definition string_field :: "policy_value property list \<Rightarrow> string \<Rightarrow> string \<Rightarrow> string option" where
  "string_field bag name old =
     (case bag_find bag name of
        None \<Rightarrow> Some old
      | Some p \<Rightarrow> (case prop_value p of Val (PString s) \<Rightarrow> Some s | _ \<Rightarrow> None))"

text \<open>A wrong type ends the function with false; the fields before it have been set.\<close>

definition set_field :: "'a option \<Rightarrow> ('a \<Rightarrow> ConnPolicy \<Rightarrow> ConnPolicy) \<Rightarrow> (ConnPolicy \<Rightarrow> bool \<times> ConnPolicy) \<Rightarrow> ConnPolicy \<Rightarrow> bool \<times> ConnPolicy" where
  "set_field v put next r = (case v of None \<Rightarrow> (False, r) | Some x \<Rightarrow> next (put x r))"

definition composeProperty :: "string \<times> policy_value property list \<Rightarrow> ConnPolicy \<Rightarrow> bool \<times> ConnPolicy" where
  "composeProperty bag result =
     (let ps = snd bag in
      if fst bag \<noteq> ''ConnPolicy'' then (False, result)
      else
        set_field (int_field ps ''type'' (policy_type result)) (\<lambda>x. policy_type_update (\<lambda>_. x))
       (set_field (int_field ps ''lock_policy'' (policy_lock result)) (\<lambda>x. policy_lock_update (\<lambda>_. x))
       (set_field (int_field ps ''size'' (policy_size result)) (\<lambda>x. policy_size_update (\<lambda>_. x))
       (set_field (int_field ps ''data_size'' (policy_data_size result)) (\<lambda>x. policy_data_size_update (\<lambda>_. x))
       (set_field (int_field ps ''transport'' (policy_transport result)) (\<lambda>x. policy_transport_update (\<lambda>_. x))
       (set_field (bool_field ps ''init'' (policy_init result)) (\<lambda>x. policy_init_update (\<lambda>_. x))
       (set_field (bool_field ps ''pull'' (policy_pull result)) (\<lambda>x. policy_pull_update (\<lambda>_. x))
       (set_field (string_field ps ''name_id'' (policy_name_id result)) (\<lambda>x. policy_name_id_update (\<lambda>_. x))
         (Pair True)))))))) result)"

text \<open>The property \<^verbatim>\<open>data_size\<close> is given the transport.\<close>

definition decomposeProperty :: "ConnPolicy \<Rightarrow> string \<times> policy_value property list" where
  "decomposeProperty cp =
     (''ConnPolicy'',
      [Prop ''type'' ''Data type'' (Val (PInt (policy_type cp))),
       Prop ''init'' ''Initialize flag'' (Val (PBool (policy_init cp))),
       Prop ''lock_policy'' ''Locking Policy'' (Val (PInt (policy_lock cp))),
       Prop ''pull'' ''Fetch data over network'' (Val (PBool (policy_pull cp))),
       Prop ''size'' ''The size of a buffered connection'' (Val (PInt (policy_size cp))),
       Prop ''transport'' ''The prefered transport. Set to zero if unsure.'' (Val (PInt (policy_transport cp))),
       Prop ''data_size'' ''A hint about the data size of a single data sample. Set to zero if unsure.'' (Val (PInt (policy_transport cp))),
       Prop ''name_id'' ''The name of the connection to be formed.'' (Val (PString (policy_name_id cp)))])"

text \<open>Composing a decomposed policy gives back every field but one, whatever the policy it is composed into:
  \<^verbatim>\<open>data_size\<close> comes back as the transport, so that the round trip loses it.\<close>

theorem policy_roundtrip:
  shows "composeProperty (decomposeProperty cp) r = (True, cp\<lparr>policy_data_size := policy_transport cp\<rparr>) \<and>
    (snd (composeProperty (decomposeProperty cp) r) = cp \<longleftrightarrow> policy_data_size cp = policy_transport cp)"
proof -
  have "composeProperty (decomposeProperty cp) r = (True, cp\<lparr>policy_data_size := policy_transport cp\<rparr>)"
    by (cases cp; cases r)
      (simp add: composeProperty_def decomposeProperty_def int_field_def bool_field_def string_field_def set_field_def Let_def)
  then show ?thesis by (cases cp) auto
qed

end
