(* ===== verification/BagOwnership.thy ===== *)
theory BagOwnership
  imports OroPrelude "HOL-Library.Monad_Syntax"
begin

text \<open>
  Who deletes a property: the class \<^verbatim>\<open>PropertyBag\<close> (\<^verbatim>\<open>rtt/PropertyBag.cpp\<close>) as a container of pointers, some of
  which it owns. Properties are addresses; \<open>alive\<close> has those that are allocated. Use of a property that is not
  allocated is undefined: \<open>None\<close>.
\<close>

section \<open>Bags of pointers\<close>

record pbag =
  mproperties :: "nat list"
  mowned_props :: "nat list"
  bag_type_name :: string

type_synonym alive = "nat set"

definition pbag_new :: "string \<Rightarrow> pbag" where
  "pbag_new t = \<lparr>mproperties = [], mowned_props = [], bag_type_name = t\<rparr>"

definition pb_delete :: "nat \<Rightarrow> alive \<Rightarrow> alive option" where
  "pb_delete p h = (if p \<in> h then Some (h - {p}) else None)"

fun pb_delete_all :: "nat list \<Rightarrow> alive \<Rightarrow> alive option" where
  "pb_delete_all [] h = Some h"
| "pb_delete_all (p # ps) h = Option.bind (pb_delete p h) (pb_delete_all ps)"

text \<open>The first argument of the operations is a null pointer (\<open>None\<close>) or an address; \<open>ready\<close> tells whether the
  property there has a value.\<close>

definition pb_addProperty :: "nat option \<Rightarrow> (nat \<Rightarrow> bool) \<Rightarrow> pbag \<times> alive \<Rightarrow> (bool \<times> pbag \<times> alive) option" where
  "pb_addProperty p ready s =
     (case (p, s) of
        (None, _) \<Rightarrow> Some (False, s)
      | (Some a, (b, h)) \<Rightarrow>
          if a \<notin> h then None
          else if \<not> ready a then Some (False, s)
          else Some (True, b\<lparr>mproperties := mproperties b @ [a]\<rparr>, h))"

definition pb_ownsProperty :: "nat option \<Rightarrow> pbag \<Rightarrow> bool" where
  "pb_ownsProperty p b = (case p of None \<Rightarrow> False | Some a \<Rightarrow> a \<in> set (mowned_props b))"

definition pb_removeProperty :: "nat option \<Rightarrow> pbag \<times> alive \<Rightarrow> (bool \<times> pbag \<times> alive) option" where
  "pb_removeProperty p s =
     (case (p, s) of
        (None, _) \<Rightarrow> Some (False, s)
      | (Some a, (b, h)) \<Rightarrow>
          if a \<in> set (mproperties b) then
            (let b1 = b\<lparr>mproperties := remove1 a (mproperties b)\<rparr> in
             if a \<in> set (mowned_props b1) then
               do { h1 \<leftarrow> pb_delete a h; Some (True, b1\<lparr>mowned_props := remove1 a (mowned_props b1)\<rparr>, h1) }
             else Some (True, b1, h))
          else Some (False, s))"

definition pb_ownProperty :: "nat option \<Rightarrow> (nat \<Rightarrow> bool) \<Rightarrow> pbag \<times> alive \<Rightarrow> (bool \<times> pbag \<times> alive) option" where
  "pb_ownProperty p ready s =
     (case p of
        None \<Rightarrow> Some (False, s)
      | Some a \<Rightarrow>
          if a \<notin> snd s then None
          else if \<not> ready a then Some (False, s)
          else
            do {
              (_, b, h) \<leftarrow> pb_removeProperty p s;
              Some (True, b\<lparr>mproperties := mproperties b @ [a], mowned_props := mowned_props b @ [a]\<rparr>, h)
            })"

definition pb_clear :: "pbag \<times> alive \<Rightarrow> (pbag \<times> alive) option" where
  "pb_clear s =
     (case s of (b, h) \<Rightarrow>
        do {
          h1 \<leftarrow> pb_delete_all (mowned_props b) h;
          Some (b\<lparr>mproperties := [], mowned_props := []\<rparr>, h1)
        })"

text \<open>The copy constructor: owned properties are cloned to a new address, the others are shared.\<close>

fun pb_copy_from :: "(nat \<Rightarrow> bool) \<Rightarrow> nat list \<Rightarrow> pbag \<Rightarrow> pbag \<times> alive \<Rightarrow> (pbag \<times> alive) option" where
  "pb_copy_from ready [] orig s = Some s"
| "pb_copy_from ready (a # ps) orig (b, h) =
     (if pb_ownsProperty (Some a) orig then
        (let c = (if h = {} then 0 else Suc (Max h)) in
         do {
           (_, s1) \<leftarrow> pb_ownProperty (Some c) (\<lambda>_. ready a) (b, insert c h);
           pb_copy_from ready ps orig s1
         })
      else
        do {
          (_, s1) \<leftarrow> pb_addProperty (Some a) ready (b, h);
          pb_copy_from ready ps orig s1
        })"

definition pb_copy :: "(nat \<Rightarrow> bool) \<Rightarrow> pbag \<Rightarrow> alive \<Rightarrow> (pbag \<times> alive) option" where
  "pb_copy ready orig h = pb_copy_from ready (mproperties orig) orig (pbag_new (bag_type_name orig), h)"

text \<open>Assignment shares all properties, also those that the other bag owns.\<close>

fun pb_add_all :: "(nat \<Rightarrow> bool) \<Rightarrow> nat list \<Rightarrow> pbag \<times> alive \<Rightarrow> (pbag \<times> alive) option" where
  "pb_add_all ready [] s = Some s"
| "pb_add_all ready (a # ps) s = do { (_, s1) \<leftarrow> pb_addProperty (Some a) ready s; pb_add_all ready ps s1 }"

definition pb_assign :: "(nat \<Rightarrow> bool) \<Rightarrow> pbag \<Rightarrow> pbag \<times> alive \<Rightarrow> (pbag \<times> alive) option" where
  "pb_assign ready orig s =
     do {
       s1 \<leftarrow> pb_clear s;
       (b, h) \<leftarrow> pb_add_all ready (mproperties orig) s1;
       Some (b\<lparr>bag_type_name := bag_type_name orig\<rparr>, h)
     }"

section \<open>Discipline\<close>

text \<open>What a bag may rely on: its properties are allocated and different, and those it owns are among them.\<close>

definition valid_bag :: "pbag \<times> alive \<Rightarrow> bool" where
  "valid_bag s \<longleftrightarrow>
     (case s of (b, h) \<Rightarrow>
        distinct (mproperties b) \<and> distinct (mowned_props b) \<and> set (mowned_props b) \<subseteq> set (mproperties b) \<and>
        set (mproperties b) \<subseteq> h)"

datatype pb_call = AddP nat | OwnP nat | RemoveP nat | ClearP | AllocP nat

text \<open>The calls of a client that adds no property twice, and hands over only allocated properties that the bag
  does not own yet.\<close>

definition pb_allowed :: "pb_call \<Rightarrow> pbag \<times> alive \<Rightarrow> bool" where
  "pb_allowed c s =
     (case c of
        AddP a \<Rightarrow> a \<in> snd s \<and> a \<notin> set (mproperties (fst s))
      | OwnP a \<Rightarrow> a \<in> snd s \<and> a \<notin> set (mowned_props (fst s))
      | AllocP a \<Rightarrow> a \<notin> snd s
      | _ \<Rightarrow> True)"

definition pb_do :: "(nat \<Rightarrow> bool) \<Rightarrow> pb_call \<Rightarrow> pbag \<times> alive \<Rightarrow> (pbag \<times> alive) option" where
  "pb_do ready c s =
     (case c of
        AddP a \<Rightarrow> map_option snd (pb_addProperty (Some a) ready s)
      | OwnP a \<Rightarrow> map_option snd (pb_ownProperty (Some a) ready s)
      | RemoveP a \<Rightarrow> map_option snd (pb_removeProperty (Some a) s)
      | ClearP \<Rightarrow> pb_clear s
      | AllocP a \<Rightarrow> Some (fst s, insert a (snd s)))"

fun pb_run :: "(nat \<Rightarrow> bool) \<Rightarrow> pb_call list \<Rightarrow> pbag \<times> alive \<Rightarrow> (pbag \<times> alive) option" where
  "pb_run ready [] s = Some s"
| "pb_run ready (c # cs) s = (if pb_allowed c s then Option.bind (pb_do ready c s) (pb_run ready cs) else pb_run ready cs s)"

lemma pb_delete_all_owned: "distinct ps \<Longrightarrow> set ps \<subseteq> h \<Longrightarrow> pb_delete_all ps h = Some (h - set ps)"
proof (induction ps arbitrary: h)
  case (Cons a ps)
  then have "set ps \<subseteq> h - {a}" "distinct ps" by auto
  then have "pb_delete_all ps (h - {a}) = Some (h - {a} - set ps)" using Cons.IH by blast
  moreover have "h - {a} - set ps = h - set (a # ps)" by auto
  ultimately show ?case using Cons.prems by (simp add: pb_delete_def)
qed simp

lemma pb_removeProperty_valid:
  assumes "valid_bag (b, h)"
  shows "\<exists>ok b' h'. pb_removeProperty (Some a) (b, h) = Some (ok, b', h') \<and> valid_bag (b', h') \<and>
    set (mproperties b') = set (mproperties b) - {a} \<and> set (mowned_props b') = set (mowned_props b) - {a} \<and>
    h' = (if a \<in> set (mowned_props b) then h - {a} else h)"
  using assms
  by (auto simp: pb_removeProperty_def valid_bag_def pb_delete_def Let_def set_remove1_eq)

lemma pb_do_valid:
  assumes "valid_bag s" and "pb_allowed c s"
  shows "\<exists>s'. pb_do ready c s = Some s' \<and> valid_bag s'"
proof -
  obtain b h where s: "s = (b, h)" by (cases s)
  show ?thesis
  proof (cases c)
    case (OwnP a)
    then have a: "a \<in> h" "a \<notin> set (mowned_props b)" using assms(2) by (simp_all add: s pb_allowed_def)
    obtain ok b' h' where r: "pb_removeProperty (Some a) (b, h) = Some (ok, b', h')" "valid_bag (b', h')"
      "set (mproperties b') = set (mproperties b) - {a}" "set (mowned_props b') = set (mowned_props b) - {a}" "h' = h"
      using pb_removeProperty_valid [of b h a] assms(1) a(2) by (auto simp: s)
    then show ?thesis using OwnP a assms(1) by (auto simp: s pb_do_def pb_ownProperty_def valid_bag_def)
  next
    case (RemoveP a)
    then show ?thesis using pb_removeProperty_valid [of b h a] assms(1) by (auto simp: s pb_do_def)
  next
    case ClearP
    have "pb_delete_all (mowned_props b) h = Some (h - set (mowned_props b))"
      using assms(1) by (intro pb_delete_all_owned) (auto simp: s valid_bag_def)
    then show ?thesis using ClearP by (simp add: s pb_do_def pb_clear_def valid_bag_def)
  qed (use assms in \<open>auto simp: s pb_do_def pb_allowed_def pb_addProperty_def valid_bag_def\<close>)
qed

text \<open>C31: Whatever a disciplined client does with a bag, no property is used after it was deleted or deleted
  twice, and the bag holds only allocated properties, those it owns among them.\<close>

theorem bag_never_dangles:
  shows "\<exists>s. pb_run ready cs (pbag_new t, {}) = Some s \<and> valid_bag s"
proof -
  have "\<exists>s'. pb_run ready cs s = Some s' \<and> valid_bag s'" if "valid_bag s" for s
    using that
  proof (induction cs arbitrary: s)
    case (Cons c cs)
    show ?case
    proof (cases "pb_allowed c s")
      case True
      then obtain s' where "pb_do ready c s = Some s'" "valid_bag s'" using pb_do_valid [OF Cons.prems] by blast
      then show ?thesis using Cons.IH True by simp
    qed (use Cons in simp)
  qed simp
  moreover have "valid_bag (pbag_new t, {})" by (simp add: valid_bag_def pbag_new_def)
  ultimately show ?thesis by blast
qed

text \<open>Handing a property to the bag that owns it already deletes the property and keeps the pointer: the bag
  holds a property that is not allocated, and clearing it deletes that property a second time.\<close>

theorem own_twice_dangles:
  assumes "valid_bag (b, h)" and "a \<in> set (mowned_props b)" and "ready a"
  shows "\<exists>b' h'. pb_ownProperty (Some a) ready (b, h) = Some (True, b', h') \<and> a \<in> set (mproperties b') \<and> a \<notin> h' \<and>
    pb_clear (b', h') = None"
proof -
  have a: "a \<in> h" "a \<in> set (mproperties b)" using assms(1,2) by (auto simp: valid_bag_def)
  obtain ok b1 h1 where r: "pb_removeProperty (Some a) (b, h) = Some (ok, b1, h1)" "h1 = h - {a}"
    using pb_removeProperty_valid [OF assms(1), of a] assms(2) by auto
  have d: "pb_delete_all ps g = None" if "a \<in> set ps" "a \<notin> g" for ps g
    using that
  proof (induction ps arbitrary: g)
    case (Cons p ps)
    then show ?case by (cases "pb_delete p g") (auto simp: pb_delete_def split: if_splits)
  qed simp
  show ?thesis using a(1) assms(3) r d [of "mowned_props b1 @ [a]" h1] by (simp add: pb_ownProperty_def pb_clear_def)
qed

lemma own_twice_dangles_witness:
  "\<exists>b' h'. pb_ownProperty (Some 4) (\<lambda>_. True) (\<lparr>mproperties = [4], mowned_props = [4], bag_type_name = []\<rparr>, {4}) = Some (True, b', h') \<and>
     4 \<in> set (mproperties b') \<and> pb_clear (b', h') = None"
  using own_twice_dangles [of "\<lparr>mproperties = [4], mowned_props = [4], bag_type_name = []\<rparr>" "{4}" 4 "\<lambda>_. True"]
  by (auto simp: valid_bag_def)

text \<open>Moving a property out of a bag that owns it, as \<^verbatim>\<open>flattenPropertyBag\<close> does (\<^verbatim>\<open>target.add(p)\<close>, then
  \<^verbatim>\<open>bag.remove(p)\<close>), leaves the target with a deleted property.\<close>

lemma moved_property_dangles:
  assumes "valid_bag (sub, h)" and "a \<in> set (mowned_props sub)" and "ready a"
    and "pb_addProperty (Some a) ready (target, h) = Some (ok, target', h1)"
    and "pb_removeProperty (Some a) (sub, h1) = Some (ok', sub', h2)"
  shows "a \<in> set (mproperties target') \<and> a \<notin> h2"
proof -
  have "a \<in> h" using assms(1,2) by (auto simp: valid_bag_def)
  then have "h1 = h" "a \<in> set (mproperties target')" using assms(3,4) by (auto simp: pb_addProperty_def)
  moreover have "h2 = h - {a}" using pb_removeProperty_valid [OF assms(1), of a] assms(2,5) \<open>h1 = h\<close> by auto
  ultimately show ?thesis by simp
qed

text \<open>After an assignment two bags hold the properties that one of them owns; when that one is cleared, the other
  keeps deleted properties.\<close>

lemma assigned_bag_dangles:
  "(do {
      (b, h) \<leftarrow> pb_assign (\<lambda>_. True) orig (pbag_new t, {7});
      (_, h1) \<leftarrow> pb_clear (orig, h);
      Some (mproperties b, h1)
    }) = Some ([7], {})"
  if "orig = \<lparr>mproperties = [7], mowned_props = [7], bag_type_name = []\<rparr>"
  using that by (simp add: pb_assign_def pb_clear_def pb_delete_def pb_addProperty_def pbag_new_def)

end
