(* ===== verification/OsThread.thy ===== *)
theory OsThread
  imports OroPrelude
begin

text \<open>
  \<^verbatim>\<open>os::Thread\<close> (\<^verbatim>\<open>os/Thread.cpp\<close>) and \<^verbatim>\<open>Activity::trigger\<close>: the thread with its function
  \<^verbatim>\<open>thread_function\<close>, and clients that call \<^verbatim>\<open>start\<close>, \<^verbatim>\<open>stop\<close>, \<^verbatim>\<open>trigger\<close>, \<^verbatim>\<open>setPeriod\<close> and
  \<^verbatim>\<open>terminate\<close> while it runs. Every statement, every test of one shared member, and every operation on the
  semaphore \<^verbatim>\<open>sem\<close> and the mutex \<^verbatim>\<open>breaker\<close> is a step of its own; a test that reads a member twice, or
  two members (those of \<open>TCond2\<close>, \<open>TPeriodCheck\<close>, \<open>TPerEnd\<close>, \<open>CStop3\<close> and \<open>CPeriod1\<close>), reads them in one step. The hooks \<^verbatim>\<open>initialize\<close>, \<^verbatim>\<open>step\<close>, \<^verbatim>\<open>loop\<close>, \<^verbatim>\<open>finalize\<close>
  begin and end at some time; \<open>hooks\<close> is the history of that and not part of the program. The hooks do not call
  functions of their own thread, other than \<^verbatim>\<open>trigger\<close>, which can be any client's. Schedulers, priorities
  and the times at which the operating system wakes a periodic thread are not modelled: a period
  may always end in an overrun, and a \<^verbatim>\<open>stop\<close> that waits for the mutex may always time out.
\<close>

section \<open>The state\<close>

datatype call = Start | Stop | Trigger | SetPeriod int | Terminate

datatype hook_event = InitBegin | InitEnd bool | StepBegin | StepEnd | LoopBegin | LoopEnd | FinBegin | FinEnd

datatype thread_pc =
    TBoot | TBootLock
  | TWhile                       \<comment> \<open>test of the outer loop\<close>
  | TCond1 | TCond2 | TCond3     \<comment> \<open>the three reads of the condition to wait\<close>
  | TIdle | TWaitSem | TExitTest
  | TRun | TRunPeriod            \<comment> \<open>reads \<open>running\<close>, reads \<open>period\<close>\<close>
  | TLockP | TPer1 | TPer2       \<comment> \<open>periodic: takes the lock, test of the inner loop\<close>
  | TStep | TPeriodCheck | TWaitPeriod | TPerEnd
  | TLockN | TSetInloop | TCallLoop | TLoop | TClearInloop
  | TAfter                       \<comment> \<open>after the loop, tests the overruns\<close>
  | TEm1 | TEm2 | TEm3 | TEm4 | TEm5   \<comment> \<open>\<open>emergencyStop\<close>\<close>
  | TEnd

datatype client_pc =
    CSetup                       \<comment> \<open>in the constructor, holds the lock and waits for the thread\<close>
  | CIdle
  | CDone call bool
  | CStart1 bool | CStartN bool | CStartP bool   \<comment> \<open>\<open>start\<close>, called directly or by \<open>trigger\<close>\<close>
  | CSemValue bool | CSignal bool
  | CActivate bool | CInit bool | CInit2 bool | CInitChk bool | CInitFail bool | CRunning bool | CStartSig bool
  | CStop1 | CStop2 | CStop3 | CStopBreak | CStopLock | CStopLocked | CStopFail | CStopFin | CStopFin2 | CStopEnd
  | CTrigger
  | CPeriod1 int | CPeriodSig int | CPeriod2 int
  | CTerm1 | CTerm2 | CTermJoin

datatype agent = Self | Client nat

record th_sys =
  active :: bool
  prepareForExit :: bool
  inloop :: bool
  running :: bool
  period :: int
  sem :: nat
  breaker :: "agent option"
  maxOverRun :: int
  tpc :: thread_pc
  overruns :: int
  cur_period :: int
  clients :: "nat \<Rightarrow> client_pc"
  hooks :: "hook_event list"

text \<open>The state in the constructor, after \<^verbatim>\<open>rtos_task_create\<close>: the client that constructs the thread is client 0.\<close>

definition th_init :: "int \<Rightarrow> int \<Rightarrow> th_sys \<Rightarrow> bool" where
  "th_init T overrun s \<longleftrightarrow>
     s = \<lparr>active = False, prepareForExit = False, inloop = False, running = False, period = T, sem = 0,
          breaker = Some (Client 0), maxOverRun = overrun, tpc = TBoot, overruns = 0, cur_period = T,
          clients = (\<lambda>_. CIdle)(0 := CSetup), hooks = []\<rparr>"

section \<open>The thread\<close>

abbreviation at :: "thread_pc \<Rightarrow> th_sys \<Rightarrow> th_sys" where
  "at q s \<equiv> s\<lparr>tpc := q\<rparr>"

abbreviation hook :: "hook_event \<Rightarrow> th_sys \<Rightarrow> th_sys" where
  "hook e s \<equiv> s\<lparr>hooks := hooks s @ [e]\<rparr>"

text \<open>A step is labelled: \<open>Normal\<close>, or \<open>Fault\<close> when a hook throws or the overruns reach their limit.\<close>

datatype fault = Normal | Fault

inductive thread_step :: "fault \<Rightarrow> th_sys \<Rightarrow> th_sys \<Rightarrow> bool" where
  boot_signal: "tpc s = TBoot \<Longrightarrow> thread_step Normal s (at TBootLock (s\<lparr>sem := sem s + 1\<rparr>))"
| boot_lock: "tpc s = TBootLock \<Longrightarrow> breaker s = None \<Longrightarrow> thread_step Normal s (at TWhile s)"
| while_test: "tpc s = TWhile \<Longrightarrow> thread_step Normal s (at (if prepareForExit s then TEnd else TCond1) s)"
| cond_active: "tpc s = TCond1 \<Longrightarrow> thread_step Normal s (at (if active s then TCond2 else TIdle) s)"
| cond_period: "tpc s = TCond2 \<Longrightarrow> thread_step Normal s (at (if active s \<and> period s = 0 then TIdle else TCond3) s)"
| cond_running: "tpc s = TCond3 \<Longrightarrow> thread_step Normal s (at (if running s then TRun else TIdle) s)"
| idle: "tpc s = TIdle \<Longrightarrow>
    thread_step Normal s (at TWaitSem (if period s \<noteq> 0 then s\<lparr>overruns := 0\<rparr> else s))"
| wait_sem: "tpc s = TWaitSem \<Longrightarrow> 0 < sem s \<Longrightarrow> thread_step Normal s (at TExitTest (s\<lparr>sem := sem s - 1\<rparr>))"
| exit_test: "tpc s = TExitTest \<Longrightarrow> thread_step Normal s (at (if prepareForExit s then TAfter else TRun) s)"
| run_test: "tpc s = TRun \<Longrightarrow> thread_step Normal s (at (if running s then TRunPeriod else TCond1) s)"
| run_period: "tpc s = TRunPeriod \<Longrightarrow> thread_step Normal s (at (if period s \<noteq> 0 then TLockP else TLockN) s)"
| lock_periodic: "tpc s = TLockP \<Longrightarrow> breaker s = None \<Longrightarrow> thread_step Normal s (at TPer1 (s\<lparr>breaker := Some Self\<rparr>))"
| per_running: "tpc s = TPer1 \<Longrightarrow> thread_step Normal s (at (if running s then TPer2 else TPerEnd) s)"
| per_exit: "tpc s = TPer2 \<Longrightarrow>
    thread_step Normal s (if prepareForExit s then at TPerEnd s else hook StepBegin (at TStep s))"
| step_returns: "tpc s = TStep \<Longrightarrow> thread_step Normal s (hook StepEnd (at TPeriodCheck s))"
| step_throws: "tpc s = TStep \<Longrightarrow> thread_step Fault s (hook StepEnd (at TEm1 (s\<lparr>breaker := None\<rparr>)))"
| period_check: "tpc s = TPeriodCheck \<Longrightarrow>
    thread_step Normal s
      (at (if cur_period s \<noteq> period s \<and> period s = 0 then TPerEnd else TWaitPeriod) (s\<lparr>cur_period := period s\<rparr>))"
| period_met: "tpc s = TWaitPeriod \<Longrightarrow>
    thread_step Normal s (at TPer1 (if overruns s \<noteq> 0 then s\<lparr>overruns := overruns s - 1\<rparr> else s))"
| period_overrun: "tpc s = TWaitPeriod \<Longrightarrow> overruns s + 1 \<noteq> maxOverRun s \<Longrightarrow>
    thread_step Normal s (at TPer1 (s\<lparr>overruns := overruns s + 1\<rparr>))"
| period_overruns: "tpc s = TWaitPeriod \<Longrightarrow> overruns s + 1 = maxOverRun s \<Longrightarrow>
    thread_step Fault s (at TPerEnd (s\<lparr>overruns := overruns s + 1\<rparr>))"
| per_end: "tpc s = TPerEnd \<Longrightarrow>
    thread_step Normal s
      (at (if overruns s = maxOverRun s \<or> prepareForExit s then TAfter else TCond1) (s\<lparr>breaker := None\<rparr>))"
| lock_loop: "tpc s = TLockN \<Longrightarrow> breaker s = None \<Longrightarrow> thread_step Normal s (at TSetInloop (s\<lparr>breaker := Some Self\<rparr>))"
| set_inloop: "tpc s = TSetInloop \<Longrightarrow> thread_step Normal s (at TCallLoop (s\<lparr>inloop := True\<rparr>))"
| call_loop: "tpc s = TCallLoop \<Longrightarrow> thread_step Normal s (hook LoopBegin (at TLoop s))"
| loop_returns: "tpc s = TLoop \<Longrightarrow> thread_step Normal s (hook LoopEnd (at TClearInloop s))"
| loop_throws: "tpc s = TLoop \<Longrightarrow>
    thread_step Fault s (hook LoopEnd (at TEm1 (s\<lparr>inloop := False, breaker := None\<rparr>)))"
| clear_inloop: "tpc s = TClearInloop \<Longrightarrow>
    thread_step Normal s (at TCond1 (s\<lparr>inloop := False, breaker := None\<rparr>))"
| after_loop: "tpc s = TAfter \<Longrightarrow> thread_step Normal s (at (if overruns s = maxOverRun s then TEm1 else TWhile) s)"
| emergency_running: "tpc s = TEm1 \<Longrightarrow> thread_step Fault s (at TEm2 (s\<lparr>running := False\<rparr>))"
| emergency_inloop: "tpc s = TEm2 \<Longrightarrow> thread_step Fault s (at TEm3 (s\<lparr>inloop := False\<rparr>))"
| emergency_active: "tpc s = TEm3 \<Longrightarrow> thread_step Fault s (at TEm4 (s\<lparr>active := False\<rparr>))"
| emergency_finalize: "tpc s = TEm4 \<Longrightarrow> thread_step Fault s (hook FinBegin (at TEm5 s))"
| emergency_end: "tpc s = TEm5 \<Longrightarrow> thread_step Fault s (hook FinEnd (at TWhile s))"

section \<open>The clients\<close>

abbreviation goto :: "nat \<Rightarrow> client_pc \<Rightarrow> th_sys \<Rightarrow> th_sys" where
  "goto c q s \<equiv> s\<lparr>clients := (clients s)(c := q)\<rparr>"

fun entry :: "call \<Rightarrow> client_pc" where
  "entry Start = CStart1 False"
| "entry Stop = CStop1"
| "entry Trigger = CTrigger"
| "entry (SetPeriod n) = CPeriod1 n"
| "entry Terminate = CTerm1"

text \<open>Constructor, \<^verbatim>\<open>start\<close> and \<^verbatim>\<open>trigger\<close>, which calls \<^verbatim>\<open>start\<close>.\<close>

definition starter :: "bool \<Rightarrow> call" where
  "starter triggered = (if triggered then Trigger else Start)"

inductive enter_step :: "nat \<Rightarrow> th_sys \<Rightarrow> th_sys \<Rightarrow> bool" for c :: nat where
  setup_done: "clients s c = CSetup \<Longrightarrow> 0 < sem s \<Longrightarrow>
    enter_step c s (goto c CIdle (s\<lparr>sem := sem s - 1, breaker := None\<rparr>))"
| trigger_active: "clients s c = CTrigger \<Longrightarrow>
    enter_step c s (goto c (if active s then CStart1 True else CDone Trigger False) s)"

inductive start_step :: "nat \<Rightarrow> th_sys \<Rightarrow> th_sys \<Rightarrow> bool" for c :: nat where
  start_period: "clients s c = CStart1 k \<Longrightarrow>
    start_step c s (goto c (if period s = 0 then CStartN k else CStartP k) s)"
| start_active: "clients s c = CStartN k \<Longrightarrow> start_step c s (goto c (if active s then CSemValue k else CActivate k) s)"
| sem_value: "clients s c = CSemValue k \<Longrightarrow>
    start_step c s (goto c (if 0 < sem s then CDone (starter k) True else CSignal k) s)"
| signal: "clients s c = CSignal k \<Longrightarrow> start_step c s (goto c (CDone (starter k) True) (s\<lparr>sem := sem s + 1\<rparr>))"
| start_refused: "clients s c = CStartP k \<Longrightarrow>
    start_step c s (goto c (if active s then CDone (starter k) False else CActivate k) s)"
| activate: "clients s c = CActivate k \<Longrightarrow> start_step c s (goto c (CInit k) (s\<lparr>active := True\<rparr>))"
| init_begin: "clients s c = CInit k \<Longrightarrow> start_step c s (hook InitBegin (goto c (CInit2 k) s))"
| init_end: "clients s c = CInit2 k \<Longrightarrow>
    start_step c s (hook (InitEnd b) (goto c (if b then CInitChk k else CInitFail k) s))"
| init_check: "clients s c = CInitChk k \<Longrightarrow>
    start_step c s (goto c (if active s then CRunning k else CInitFail k) s)"
| init_fail: "clients s c = CInitFail k \<Longrightarrow> start_step c s (goto c (CDone (starter k) False) (s\<lparr>active := False\<rparr>))"
| start_running: "clients s c = CRunning k \<Longrightarrow> start_step c s (goto c (CStartSig k) (s\<lparr>running := True\<rparr>))"
| start_signal: "clients s c = CStartSig k \<Longrightarrow> start_step c s (goto c (CDone (starter k) True) (s\<lparr>sem := sem s + 1\<rparr>))"

inductive stop_step :: "nat \<Rightarrow> th_sys \<Rightarrow> th_sys \<Rightarrow> bool" for c :: nat where
  stop_active: "clients s c = CStop1 \<Longrightarrow> stop_step c s (goto c (if active s then CStop2 else CDone Stop False) s)"
| stop_running: "clients s c = CStop2 \<Longrightarrow> stop_step c s (goto c CStop3 (s\<lparr>running := False\<rparr>))"
| stop_inloop: "clients s c = CStop3 \<Longrightarrow>
    stop_step c s (goto c (if period s = 0 \<and> inloop s then CStopBreak else CStopLock) s)"
| stop_break: "clients s c = CStopBreak \<Longrightarrow> stop_step c s (goto c (if b then CStopLock else CStopFail) s)"
| stop_lock: "clients s c = CStopLock \<Longrightarrow> breaker s = None \<Longrightarrow>
    stop_step c s (goto c CStopLocked (s\<lparr>breaker := Some (Client c)\<rparr>))"
| stop_timeout: "clients s c = CStopLock \<Longrightarrow> breaker s \<noteq> None \<Longrightarrow> stop_step c s (goto c CStopFail s)"
| stop_failed: "clients s c = CStopFail \<Longrightarrow> stop_step c s (goto c (CDone Stop False) (s\<lparr>running := True\<rparr>))"
| stop_unlock: "clients s c = CStopLocked \<Longrightarrow> stop_step c s (goto c CStopFin (s\<lparr>breaker := None\<rparr>))"
| stop_finalize: "clients s c = CStopFin \<Longrightarrow> stop_step c s (hook FinBegin (goto c CStopFin2 s))"
| stop_finalized: "clients s c = CStopFin2 \<Longrightarrow> stop_step c s (hook FinEnd (goto c CStopEnd s))"
| stop_end: "clients s c = CStopEnd \<Longrightarrow> stop_step c s (goto c (CDone Stop True) (s\<lparr>active := False\<rparr>))"

inductive period_step :: "nat \<Rightarrow> th_sys \<Rightarrow> th_sys \<Rightarrow> bool" for c :: nat where
  period_negative: "clients s c = CPeriod1 n \<Longrightarrow> n < 0 \<Longrightarrow> period_step c s (goto c (CDone (SetPeriod n) False) s)"
| period_switch: "clients s c = CPeriod1 n \<Longrightarrow> 0 < n \<Longrightarrow> period s = 0 \<Longrightarrow>
    period_step c s (goto c (CPeriodSig n) (s\<lparr>period := n\<rparr>))"
| period_keep: "clients s c = CPeriod1 n \<Longrightarrow> 0 \<le> n \<Longrightarrow> n = 0 \<or> period s \<noteq> 0 \<Longrightarrow> period_step c s (goto c (CPeriod2 n) s)"
| period_signal: "clients s c = CPeriodSig n \<Longrightarrow> period_step c s (goto c (CPeriod2 n) (s\<lparr>sem := sem s + 1\<rparr>))"
| period_set: "clients s c = CPeriod2 n \<Longrightarrow> period_step c s (goto c (CDone (SetPeriod n) True) (s\<lparr>period := n\<rparr>))"

inductive term_step :: "nat \<Rightarrow> th_sys \<Rightarrow> th_sys \<Rightarrow> bool" for c :: nat where
  term_test: "clients s c = CTerm1 \<Longrightarrow>
    term_step c s (if prepareForExit s then goto c (CDone Terminate True) s else goto c CTerm2 (s\<lparr>prepareForExit := True\<rparr>))"
| term_signal: "clients s c = CTerm2 \<Longrightarrow> term_step c s (goto c CTermJoin (s\<lparr>sem := sem s + 1\<rparr>))"
| term_join: "clients s c = CTermJoin \<Longrightarrow> tpc s = TEnd \<Longrightarrow> term_step c s (goto c (CDone Terminate True) s)"

section \<open>Runs\<close>

text \<open>Which clients may make which calls, and whether there are faults, is a parameter of a run.\<close>

inductive th_step :: "(nat \<Rightarrow> call \<Rightarrow> bool) \<Rightarrow> bool \<Rightarrow> th_sys \<Rightarrow> th_sys \<Rightarrow> bool"
  for may :: "nat \<Rightarrow> call \<Rightarrow> bool" and faults :: bool where
  by_thread: "thread_step f s t \<Longrightarrow> f = Fault \<longrightarrow> faults \<Longrightarrow> th_step may faults s t"
| by_start: "start_step c s t \<Longrightarrow> th_step may faults s t"
| by_stop: "stop_step c s t \<Longrightarrow> th_step may faults s t"
| by_period: "period_step c s t \<Longrightarrow> th_step may faults s t"
| by_term: "term_step c s t \<Longrightarrow> th_step may faults s t"
| by_enter: "enter_step c s t \<Longrightarrow> th_step may faults s t"
| calls: "clients s c = CIdle \<Longrightarrow> clients s 0 \<noteq> CSetup \<Longrightarrow> may c k \<Longrightarrow> th_step may faults s (goto c (entry k) s)"
| returns: "clients s c = CDone k b \<Longrightarrow> th_step may faults s (goto c CIdle s)"


section \<open>The order of hooks\<close>

text \<open>What \<^verbatim>\<open>RunnableInterface\<close> promises of a periodic activity: \<^verbatim>\<open>initialize\<close> before the first
  \<^verbatim>\<open>step\<close>, \<^verbatim>\<open>finalize\<close> after the last one has returned.\<close>

datatype phase = Off | Initializing | On | Stepping | Finalizing

fun next_phase :: "phase \<Rightarrow> hook_event \<Rightarrow> phase option" where
  "next_phase Off InitBegin = Some Initializing"
| "next_phase Initializing (InitEnd b) = Some (if b then On else Off)"
| "next_phase On StepBegin = Some Stepping"
| "next_phase Stepping StepEnd = Some On"
| "next_phase On FinBegin = Some Finalizing"
| "next_phase Finalizing FinEnd = Some Off"
| "next_phase _ _ = None"

fun phase_after :: "phase \<Rightarrow> hook_event list \<Rightarrow> phase option" where
  "phase_after p [] = Some p"
| "phase_after p (e # es) = (case next_phase p e of None \<Rightarrow> None | Some q \<Rightarrow> phase_after q es)"

lemma phase_after_snoc [simp]:
  "phase_after p (es @ [e]) = (case phase_after p es of None \<Rightarrow> None | Some q \<Rightarrow> next_phase q e)"
  by (induction es arbitrary: p) (auto split: option.split)

text \<open>The phase that the controlling client is in, where its own steps determine it.\<close>

fun client_phase :: "client_pc \<Rightarrow> phase option" where
  "client_phase CSetup = Some Off"
| "client_phase (CInit k) = Some Off"
| "client_phase (CInit2 k) = Some Initializing"
| "client_phase (CInitChk k) = Some On"
| "client_phase (CInitFail k) = Some Off"
| "client_phase (CRunning k) = Some On"
| "client_phase CStopLocked = Some On"
| "client_phase CStopFin = Some On"
| "client_phase CStopFin2 = Some Finalizing"
| "client_phase CStopEnd = Some Off"
| "client_phase _ = None"

definition phase_of :: "bool \<Rightarrow> bool \<Rightarrow> client_pc \<Rightarrow> phase" where
  "phase_of act in_step q =
     (case client_phase q of Some p \<Rightarrow> p | None \<Rightarrow> if \<not> act then Off else if in_step then Stepping else On)"

text \<open>What the client knows of \<open>active\<close>, where \<open>running\<close> may be set, and where the thread may be past its test of
  \<open>running\<close>.\<close>

fun knows_active :: "client_pc \<Rightarrow> bool option" where
  "knows_active CSetup = Some False"
| "knows_active (CActivate k) = Some False"
| "knows_active (CInit k) = Some True"
| "knows_active (CInit2 k) = Some True"
| "knows_active (CInitChk k) = Some True"
| "knows_active (CInitFail k) = Some True"
| "knows_active (CRunning k) = Some True"
| "knows_active (CStartSig k) = Some True"
| "knows_active (CSemValue k) = Some True"
| "knows_active (CSignal k) = Some True"
| "knows_active CStop2 = Some True"
| "knows_active CStop3 = Some True"
| "knows_active CStopBreak = Some True"
| "knows_active CStopLock = Some True"
| "knows_active CStopLocked = Some True"
| "knows_active CStopFail = Some True"
| "knows_active CStopFin = Some True"
| "knows_active CStopFin2 = Some True"
| "knows_active CStopEnd = Some True"
| "knows_active (CDone k b) = (if k = Stop \<and> b then Some False else if k = Start \<and> b then Some True else None)"
| "knows_active _ = None"

definition stopping :: "client_pc \<Rightarrow> bool" where
  "stopping q \<longleftrightarrow> q = CStop3 \<or> q = CStopBreak \<or> q = CStopLock \<or> q = CStopFail"

definition may_run :: "client_pc \<Rightarrow> bool" where
  "may_run q \<longleftrightarrow> client_phase q = None \<and> \<not> stopping q"

fun has_lock :: "thread_pc \<Rightarrow> bool" where
  "has_lock TPer1 = True"
| "has_lock TPer2 = True"
| "has_lock TStep = True"
| "has_lock TPeriodCheck = True"
| "has_lock TWaitPeriod = True"
| "has_lock TPerEnd = True"
| "has_lock _ = False"

fun past_test :: "thread_pc \<Rightarrow> bool" where
  "past_test TPer2 = True"
| "past_test TStep = True"
| "past_test _ = False"

text \<open>Where a periodic thread without faults never is.\<close>

fun not_periodic :: "thread_pc \<Rightarrow> bool" where
  "not_periodic TLockN = True"
| "not_periodic TSetInloop = True"
| "not_periodic TCallLoop = True"
| "not_periodic TLoop = True"
| "not_periodic TClearInloop = True"
| "not_periodic TEm2 = True"
| "not_periodic TEm3 = True"
| "not_periodic TEm4 = True"
| "not_periodic TEm5 = True"
| "not_periodic _ = False"

fun sets_period :: "client_pc \<Rightarrow> bool" where
  "sets_period (CPeriod1 n) = True"
| "sets_period (CPeriodSig n) = True"
| "sets_period (CPeriod2 n) = True"
| "sets_period _ = False"

definition periodic_inv :: "th_sys \<Rightarrow> bool" where
  "periodic_inv s \<longleftrightarrow>
     period s \<noteq> 0 \<and> (\<forall>c. c \<noteq> 0 \<longrightarrow> clients s c = CIdle) \<and> \<not> sets_period (clients s 0) \<and> \<not> not_periodic (tpc s) \<and>
     (has_lock (tpc s) \<longleftrightarrow> breaker s = Some Self) \<and>
     (clients s 0 = CSetup \<or> clients s 0 = CStopLocked \<longrightarrow> breaker s = Some (Client 0)) \<and>
     knows_active (clients s 0) \<noteq> Some (\<not> active s) \<and>
     (running s \<longrightarrow> active s \<and> may_run (clients s 0)) \<and>
     (past_test (tpc s) \<longrightarrow> active s \<and> client_phase (clients s 0) = None) \<and>
     phase_after Off (hooks s) = Some (phase_of (active s) (tpc s = TStep) (clients s 0))"

text \<open>The calls of a client that alone controls the thread, and leaves its period as it is.\<close>

definition controller :: "nat \<Rightarrow> call \<Rightarrow> bool" where
  "controller c k \<longleftrightarrow> c = 0 \<and> \<not> sets_period (entry k)"

lemma periodic_thread_step: "thread_step f s t \<Longrightarrow> f = Normal \<Longrightarrow> periodic_inv s \<Longrightarrow> periodic_inv t"
  by (induction rule: thread_step.induct) (simp_all add: periodic_inv_def phase_of_def may_run_def, (auto split: if_splits)+)

lemma periodic_client: "periodic_inv s \<Longrightarrow> clients s c \<noteq> CIdle \<Longrightarrow> c = 0"
  by (auto simp: periodic_inv_def)

lemma past_test_has_lock: "past_test q \<Longrightarrow> has_lock q" "q = TStep \<Longrightarrow> past_test q"
  by (cases q; simp)+

lemma periodic_start_step: "start_step c s t \<Longrightarrow> c = 0 \<Longrightarrow> periodic_inv s \<Longrightarrow> periodic_inv t"
  by (induction rule: start_step.induct) (simp_all add: periodic_inv_def phase_of_def may_run_def stopping_def starter_def, auto)

lemma periodic_stop_step: "stop_step c s t \<Longrightarrow> c = 0 \<Longrightarrow> periodic_inv s \<Longrightarrow> periodic_inv t"
  by (induction rule: stop_step.induct)
    (simp_all add: periodic_inv_def phase_of_def may_run_def stopping_def, auto dest: past_test_has_lock)

lemma periodic_other_step:
  "enter_step c s t \<Longrightarrow> c = 0 \<Longrightarrow> periodic_inv s \<Longrightarrow> periodic_inv t"
  "period_step c s t \<Longrightarrow> c = 0 \<Longrightarrow> periodic_inv s \<Longrightarrow> periodic_inv t"
  "term_step c s t \<Longrightarrow> c = 0 \<Longrightarrow> periodic_inv s \<Longrightarrow> periodic_inv t"
  subgoal by (induction rule: enter_step.induct) (simp_all add: periodic_inv_def phase_of_def may_run_def stopping_def)
  subgoal by (induction rule: period_step.induct) (simp_all add: periodic_inv_def phase_of_def may_run_def stopping_def)
  subgoal by (induction rule: term_step.induct) (simp_all add: periodic_inv_def phase_of_def may_run_def stopping_def)
  done

lemma client_step_busy:
  "start_step c s t \<or> stop_step c s t \<or> enter_step c s t \<or> period_step c s t \<or> term_step c s t \<Longrightarrow> clients s c \<noteq> CIdle"
  by (auto elim: start_step.cases stop_step.cases enter_step.cases period_step.cases term_step.cases)

lemma entry_free [simp]:
  "client_phase (entry k) = None" "knows_active (entry k) = None" "\<not> stopping (entry k)" "may_run (entry k)"
  "entry k \<noteq> CSetup" "entry k \<noteq> CStopLocked"
  by (cases k; simp add: stopping_def may_run_def)+

lemma periodic_step: "th_step controller False s t \<Longrightarrow> periodic_inv s \<Longrightarrow> periodic_inv t"
proof (induction rule: th_step.induct)
  case (by_thread f s t)
  then have "f = Normal" by (cases f) simp_all
  then show ?case by (rule periodic_thread_step [OF by_thread.hyps(1) _ by_thread.prems])
next
  case (by_start c s t)
  then show ?case using client_step_busy periodic_client periodic_start_step by blast
next
  case (by_stop c s t)
  then show ?case using client_step_busy periodic_client periodic_stop_step by blast
next
  case (by_period c s t)
  then show ?case using client_step_busy periodic_client periodic_other_step by blast
next
  case (by_term c s t)
  then show ?case using client_step_busy periodic_client periodic_other_step by blast
next
  case (by_enter c s t)
  then show ?case using client_step_busy periodic_client periodic_other_step by blast
next
  case (calls s c k)
  then have c: "c = 0" "\<not> sets_period (entry k)" by (auto simp: controller_def)
  show ?case using calls c(2) unfolding c(1) by (simp add: periodic_inv_def phase_of_def)
next
  case (returns s c k b)
  then have "c = 0" using periodic_client by simp
  then show ?case using returns by (simp add: periodic_inv_def phase_of_def may_run_def stopping_def)
qed

lemma periodic_init: "th_init T n s \<Longrightarrow> T \<noteq> 0 \<Longrightarrow> periodic_inv s"
  by (simp add: th_init_def periodic_inv_def phase_of_def may_run_def stopping_def)

interpretation periodic_thread:
  invariant_of "\<lambda>s. \<exists>T n. T \<noteq> 0 \<and> th_init T n s" "th_step controller False" periodic_inv
  by unfold_locales (auto intro: periodic_init periodic_step)

end
