(* ===== verification/OsThreadRuns.thy ===== *)
theory OsThreadRuns
  imports OsThread
begin

text \<open>
  Runs of \<^verbatim>\<open>os::Thread\<close>: a signalled thread that is not periodic executes \<^verbatim>\<open>loop\<close> again by its own steps, and
  schedules in which \<^verbatim>\<open>start\<close>, \<^verbatim>\<open>stop\<close> and \<^verbatim>\<open>trigger\<close> do not do what they promise.
\<close>

section \<open>Schedules\<close>

text \<open>The next step of the thread when nothing fails and periods are met, and that of a client, for given results of
  \<^verbatim>\<open>initialize\<close> and \<^verbatim>\<open>breakLoop\<close>.\<close>

definition thread_next :: "th_sys \<Rightarrow> th_sys" where
  "thread_next s =
     (case tpc s of
        TBoot \<Rightarrow> at TBootLock (s\<lparr>sem := sem s + 1\<rparr>)
      | TBootLock \<Rightarrow> at TWhile s
      | TWhile \<Rightarrow> at (if prepareForExit s then TEnd else TCond1) s
      | TCond1 \<Rightarrow> at (if active s then TCond2 else TIdle) s
      | TCond2 \<Rightarrow> at (if active s \<and> period s = 0 then TIdle else TCond3) s
      | TCond3 \<Rightarrow> at (if running s then TRun else TIdle) s
      | TIdle \<Rightarrow> at TWaitSem (if period s \<noteq> 0 then s\<lparr>overruns := 0\<rparr> else s)
      | TWaitSem \<Rightarrow> at TExitTest (s\<lparr>sem := sem s - 1\<rparr>)
      | TExitTest \<Rightarrow> at (if prepareForExit s then TAfter else TRun) s
      | TRun \<Rightarrow> at (if running s then TRunPeriod else TCond1) s
      | TRunPeriod \<Rightarrow> at (if period s \<noteq> 0 then TLockP else TLockN) s
      | TLockP \<Rightarrow> at TPer1 (s\<lparr>breaker := Some Self\<rparr>)
      | TPer1 \<Rightarrow> at (if running s then TPer2 else TPerEnd) s
      | TPer2 \<Rightarrow> (if prepareForExit s then at TPerEnd s else hook StepBegin (at TStep s))
      | TStep \<Rightarrow> hook StepEnd (at TPeriodCheck s)
      | TPeriodCheck \<Rightarrow>
          at (if cur_period s \<noteq> period s \<and> period s = 0 then TPerEnd else TWaitPeriod) (s\<lparr>cur_period := period s\<rparr>)
      | TWaitPeriod \<Rightarrow> at TPer1 (if overruns s \<noteq> 0 then s\<lparr>overruns := overruns s - 1\<rparr> else s)
      | TPerEnd \<Rightarrow> at (if overruns s = maxOverRun s \<or> prepareForExit s then TAfter else TCond1) (s\<lparr>breaker := None\<rparr>)
      | TLockN \<Rightarrow> at TSetInloop (s\<lparr>breaker := Some Self\<rparr>)
      | TSetInloop \<Rightarrow> at TCallLoop (s\<lparr>inloop := True\<rparr>)
      | TCallLoop \<Rightarrow> hook LoopBegin (at TLoop s)
      | TLoop \<Rightarrow> hook LoopEnd (at TClearInloop s)
      | TClearInloop \<Rightarrow> at TCond1 (s\<lparr>inloop := False, breaker := None\<rparr>)
      | TAfter \<Rightarrow> at (if overruns s = maxOverRun s then TEm1 else TWhile) s
      | _ \<Rightarrow> s)"

fun can_step :: "thread_pc \<Rightarrow> th_sys \<Rightarrow> bool" where
  "can_step TBootLock s = (breaker s = None)"
| "can_step TWaitSem s = (0 < sem s)"
| "can_step TLockP s = (breaker s = None)"
| "can_step TLockN s = (breaker s = None)"
| "can_step TEm1 s = False"
| "can_step TEm2 s = False"
| "can_step TEm3 s = False"
| "can_step TEm4 s = False"
| "can_step TEm5 s = False"
| "can_step TEnd s = False"
| "can_step _ s = True"

lemma thread_next_step: "can_step (tpc s) s \<Longrightarrow> thread_step Normal s (thread_next s)"
  by (cases "tpc s"; simp only: thread_next_def thread_pc.case can_step.simps simp_thms; rule thread_step.intros; assumption)

text \<open>Its next step when it fails: a hook throws, or \<^verbatim>\<open>emergencyStop\<close> goes on.\<close>

definition thread_fails :: "th_sys \<Rightarrow> th_sys" where
  "thread_fails s =
     (case tpc s of
        TStep \<Rightarrow> hook StepEnd (at TEm1 (s\<lparr>breaker := None\<rparr>))
      | TLoop \<Rightarrow> hook LoopEnd (at TEm1 (s\<lparr>inloop := False, breaker := None\<rparr>))
      | TEm1 \<Rightarrow> at TEm2 (s\<lparr>running := False\<rparr>)
      | TEm2 \<Rightarrow> at TEm3 (s\<lparr>inloop := False\<rparr>)
      | TEm3 \<Rightarrow> at TEm4 (s\<lparr>active := False\<rparr>)
      | TEm4 \<Rightarrow> hook FinBegin (at TEm5 s)
      | TEm5 \<Rightarrow> hook FinEnd (at TWhile s)
      | _ \<Rightarrow> s)"

fun can_fail :: "thread_pc \<Rightarrow> bool" where
  "can_fail TStep = True"
| "can_fail TLoop = True"
| "can_fail TEm1 = True"
| "can_fail TEm2 = True"
| "can_fail TEm3 = True"
| "can_fail TEm4 = True"
| "can_fail TEm5 = True"
| "can_fail _ = False"

lemma thread_fails_step: "can_fail (tpc s) \<Longrightarrow> thread_step Fault s (thread_fails s)"
  by (cases "tpc s"; simp only: thread_fails_def thread_pc.case can_fail.simps; rule thread_step.intros; assumption)

definition client_next :: "bool \<Rightarrow> nat \<Rightarrow> th_sys \<Rightarrow> th_sys" where
  "client_next b c s =
     (case clients s c of
        CSetup \<Rightarrow> goto c CIdle (s\<lparr>sem := sem s - 1, breaker := None\<rparr>)
      | CDone k r \<Rightarrow> goto c CIdle s
      | CTrigger \<Rightarrow> goto c (if active s then CStart1 True else CDone Trigger False) s
      | CStart1 k \<Rightarrow> goto c (if period s = 0 then CStartN k else CStartP k) s
      | CStartN k \<Rightarrow> goto c (if active s then CSemValue k else CActivate k) s
      | CSemValue k \<Rightarrow> goto c (if 0 < sem s then CDone (starter k) True else CSignal k) s
      | CSignal k \<Rightarrow> goto c (CDone (starter k) True) (s\<lparr>sem := sem s + 1\<rparr>)
      | CStartP k \<Rightarrow> goto c (if active s then CDone (starter k) False else CActivate k) s
      | CActivate k \<Rightarrow> goto c (CInit k) (s\<lparr>active := True\<rparr>)
      | CInit k \<Rightarrow> hook InitBegin (goto c (CInit2 k) s)
      | CInit2 k \<Rightarrow> hook (InitEnd b) (goto c (if b then CInitChk k else CInitFail k) s)
      | CInitChk k \<Rightarrow> goto c (if active s then CRunning k else CInitFail k) s
      | CInitFail k \<Rightarrow> goto c (CDone (starter k) False) (s\<lparr>active := False\<rparr>)
      | CRunning k \<Rightarrow> goto c (CStartSig k) (s\<lparr>running := True\<rparr>)
      | CStartSig k \<Rightarrow> goto c (CDone (starter k) True) (s\<lparr>sem := sem s + 1\<rparr>)
      | CStop1 \<Rightarrow> goto c (if active s then CStop2 else CDone Stop False) s
      | CStop2 \<Rightarrow> goto c CStop3 (s\<lparr>running := False\<rparr>)
      | CStop3 \<Rightarrow> goto c (if period s = 0 \<and> inloop s then CStopBreak else CStopLock) s
      | CStopBreak \<Rightarrow> goto c (if b then CStopLock else CStopFail) s
      | CStopLock \<Rightarrow> if breaker s = None then goto c CStopLocked (s\<lparr>breaker := Some (Client c)\<rparr>) else goto c CStopFail s
      | CStopFail \<Rightarrow> goto c (CDone Stop False) (s\<lparr>running := True\<rparr>)
      | CStopLocked \<Rightarrow> goto c CStopFin (s\<lparr>breaker := None\<rparr>)
      | CStopFin \<Rightarrow> hook FinBegin (goto c CStopFin2 s)
      | CStopFin2 \<Rightarrow> hook FinEnd (goto c CStopEnd s)
      | CStopEnd \<Rightarrow> goto c (CDone Stop True) (s\<lparr>active := False\<rparr>)
      | _ \<Rightarrow> s)"

fun client_can :: "client_pc \<Rightarrow> th_sys \<Rightarrow> bool" where
  "client_can CSetup s = (0 < sem s)"
| "client_can CIdle s = False"
| "client_can (CPeriod1 n) s = False"
| "client_can (CPeriodSig n) s = False"
| "client_can (CPeriod2 n) s = False"
| "client_can CTerm1 s = False"
| "client_can CTerm2 s = False"
| "client_can CTermJoin s = False"
| "client_can _ s = True"

lemma client_next_start:
  "client_can (clients s c) s \<Longrightarrow>
     start_step c s (client_next b c s) \<or> stop_step c s (client_next b c s) \<or> enter_step c s (client_next b c s) \<or>
     (\<exists>k r. clients s c = CDone k r)"
proof (cases "clients s c")
  case CStopLock
  then show ?thesis using stop_lock [of s c] stop_timeout [of s c] by (simp add: client_next_def)
qed (simp_all only: client_next_def client_pc.case client_can.simps,
    (rule disjI1 disjI2, rule start_step.intros; assumption | rule disjI2, rule disjI1, rule stop_step.intros; assumption |
      rule disjI2, rule disjI2, rule disjI1, rule enter_step.intros; assumption | blast)+)

text \<open>The turns of a schedule: a step of the thread or of a client, a failure of the thread, and a call.\<close>

datatype turn = T | F | C nat | Call nat call

fun turn_next :: "turn \<Rightarrow> th_sys \<Rightarrow> th_sys" where
  "turn_next T s = thread_next s"
| "turn_next F s = thread_fails s"
| "turn_next (C c) s = client_next True c s"
| "turn_next (Call c k) s = goto c (entry k) s"

fun turn_ok :: "(nat \<Rightarrow> call \<Rightarrow> bool) \<Rightarrow> bool \<Rightarrow> turn \<Rightarrow> th_sys \<Rightarrow> bool" where
  "turn_ok may f T s = can_step (tpc s) s"
| "turn_ok may f F s = (f \<and> can_fail (tpc s))"
| "turn_ok may f (C c) s = client_can (clients s c) s"
| "turn_ok may f (Call c k) s = (clients s c = CIdle \<and> clients s 0 \<noteq> CSetup \<and> may c k)"

fun th_schedule :: "(nat \<Rightarrow> call \<Rightarrow> bool) \<Rightarrow> bool \<Rightarrow> turn list \<Rightarrow> th_sys \<Rightarrow> th_sys option" where
  "th_schedule may f [] s = Some s"
| "th_schedule may f (a # as) s = (if turn_ok may f a s then th_schedule may f as (turn_next a s) else None)"

lemma turn_step: "turn_ok may f a s \<Longrightarrow> th_step may f s (turn_next a s)"
proof (cases a)
  case T
  assume "turn_ok may f a s"
  with T have "thread_step Normal s (thread_next s)" by (simp add: thread_next_step)
  with T show ?thesis by (auto intro: by_thread)
next
  case F
  assume "turn_ok may f a s"
  with F have "thread_step Fault s (thread_fails s)" "f" by (simp_all add: thread_fails_step)
  with F show ?thesis by (auto intro: by_thread)
next
  case (C c)
  assume "turn_ok may f a s"
  then consider "start_step c s (client_next True c s)" | "stop_step c s (client_next True c s)" |
      "enter_step c s (client_next True c s)" | k r where "clients s c = CDone k r"
    using client_next_start [of s c True] C by auto
  then show ?thesis
  proof cases
    case (4 k r)
    then have "client_next True c s = goto c CIdle s" by (simp add: client_next_def)
    with C returns [OF 4] show ?thesis by simp
  qed (use C in \<open>auto intro: by_start by_stop by_enter\<close>)
qed (auto intro: calls)

lemma th_schedule_reachable:
  "reachable init (th_step may f) s \<Longrightarrow> th_schedule may f as s = Some t \<Longrightarrow> reachable init (th_step may f) t"
proof (induction as arbitrary: s)
  case (Cons a as)
  then have ok: "turn_ok may f a s" "th_schedule may f as (turn_next a s) = Some t" by (simp_all split: if_splits)
  show ?case by (rule Cons.IH [OF reachable_step [OF Cons.prems(1) turn_step [OF ok(1)]] ok(2)])
qed simp

definition th_start :: "int \<Rightarrow> th_sys" where
  "th_start p =
     \<lparr>active = False, prepareForExit = False, inloop = False, running = False, period = p, sem = 0,
      breaker = Some (Client 0), maxOverRun = 5, tpc = TBoot, overruns = 0, cur_period = p,
      clients = (\<lambda>_. CIdle)(0 := CSetup), hooks = []\<rparr>"

lemma schedule_from_start:
  "th_schedule may f as (th_start p) = Some t \<Longrightarrow> reachable (th_init p 5) (th_step may f) t"
  by (rule th_schedule_reachable [OF reachable_init]) (simp_all add: th_init_def th_start_def)

lemma schedule_reaches:
  assumes "map_option P (th_schedule may f as (th_start p)) = Some True"
  shows "\<exists>s. reachable (th_init p 5) (th_step may f) s \<and> P s"
proof -
  obtain s where "th_schedule may f as (th_start p) = Some s" "P s" using assms by (auto simp: map_option_case split: option.splits)
  then show ?thesis using schedule_from_start by blast
qed

text \<open>The thread is constructed, waits for a command, and \<^verbatim>\<open>start\<close> is called and returns.\<close>

definition constructed :: "turn list" where
  "constructed = [T, C 0] @ replicate 4 T"

definition started :: "turn list" where
  "started = constructed @ [Call 0 Start] @ replicate 9 (C 0)"

section \<open>The hooks of a periodic activity\<close>

text \<open>C7: The hooks of a periodic activity without faults are called in the promised order, however its thread and
  the client that starts and stops it interleave, and also when calls of \<^verbatim>\<open>stop\<close> time out: \<^verbatim>\<open>initialize\<close> comes
  first, \<^verbatim>\<open>step\<close> only after it has succeeded and never twice at a time, \<^verbatim>\<open>finalize\<close> only when no \<^verbatim>\<open>step\<close> is
  being executed, and none follows it. When \<^verbatim>\<open>stop\<close> returns true, no hook is being executed.\<close>

theorem periodic_hooks_in_order:
  assumes "reachable (th_init period0 n) (th_step controller False) s" and "period0 \<noteq> 0"
  shows "\<exists>p. phase_after Off (hooks s) = Some p \<and> (p = Stepping \<longleftrightarrow> tpc s = TStep) \<and>
    (clients s 0 = CDone Stop True \<longrightarrow> p = Off) \<and> (clients s 0 = CDone Start True \<longrightarrow> p = On \<or> p = Stepping)"
proof -
  have "reachable (\<lambda>s. \<exists>p n. p \<noteq> 0 \<and> th_init p n s) (th_step controller False) s"
    by (rule reachable_weaken [OF assms(1)]) (use assms(2) in blast)
  then have "periodic_inv s" by (rule periodic_thread.reachable_inv)
  then have i: "phase_after Off (hooks s) = Some (phase_of (active s) (tpc s = TStep) (clients s 0))"
      "tpc s = TStep \<Longrightarrow> active s \<and> client_phase (clients s 0) = None" "knows_active (clients s 0) \<noteq> Some (\<not> active s)"
    by (simp_all add: periodic_inv_def)
  have "client_phase q \<noteq> Some Stepping" for q by (cases q) simp_all
  then have "phase_of (active s) (tpc s = TStep) (clients s 0) = Stepping \<longleftrightarrow> tpc s = TStep"
    using i(2) by (auto simp: phase_of_def split: option.split)
  then show ?thesis using i(1,3) by (auto simp: phase_of_def)
qed

definition stopped_again :: "turn list" where
  "stopped_again = started @ replicate 10 T @ [Call 0 Stop] @ replicate 3 (C 0) @ [T, T] @ replicate 5 (C 0)"

lemma periodic_hooks_in_order_witness:
  "\<exists>s. th_schedule controller False stopped_again (th_start 10) = Some s \<and>
     hooks s = [InitBegin, InitEnd True, StepBegin, StepEnd, FinBegin, FinEnd] \<and> clients s 0 = CDone Stop True \<and>
     phase_after Off (hooks s) = Some Off"
proof -
  have "map_option (\<lambda>s. hooks s = [InitBegin, InitEnd True, StepBegin, StepEnd, FinBegin, FinEnd] \<and>
    clients s 0 = CDone Stop True) (th_schedule controller False stopped_again (th_start 10)) = Some True" by code_simp
  then obtain s where s: "th_schedule controller False stopped_again (th_start 10) = Some s"
    "hooks s = [InitBegin, InitEnd True, StepBegin, StepEnd, FinBegin, FinEnd]" "clients s 0 = CDone Stop True"
    by (auto simp: map_option_case split: option.splits)
  from periodic_hooks_in_order [OF schedule_from_start [OF s(1)]] s show ?thesis by auto
qed

section \<open>A signal is not lost\<close>

fun never_nonperiodic :: "thread_pc \<Rightarrow> bool" where
  "never_nonperiodic TLockP = True"
| "never_nonperiodic TEm2 = True"
| "never_nonperiodic TEm3 = True"
| "never_nonperiodic TEm4 = True"
| "never_nonperiodic TEm5 = True"
| "never_nonperiodic q = has_lock q"

fun in_loop :: "thread_pc \<Rightarrow> bool" where
  "in_loop TSetInloop = True"
| "in_loop TCallLoop = True"
| "in_loop TLoop = True"
| "in_loop TClearInloop = True"
| "in_loop _ = False"

fun exiting :: "thread_pc \<Rightarrow> bool" where
  "exiting TAfter = True"
| "exiting TEm1 = True"
| "exiting TEnd = True"
| "exiting _ = False"

definition nonperiodic_inv :: "th_sys \<Rightarrow> bool" where
  "nonperiodic_inv s \<longleftrightarrow>
     period s = 0 \<and> (\<forall>c. \<not> sets_period (clients s c)) \<and> \<not> never_nonperiodic (tpc s) \<and>
     (exiting (tpc s) \<longrightarrow> prepareForExit s) \<and> (in_loop (tpc s) \<longleftrightarrow> breaker s = Some Self) \<and>
     (\<forall>c. clients s c = CSetup \<or> clients s c = CStopLocked \<longrightarrow> breaker s = Some (Client c))"

definition no_set_period :: "(nat \<Rightarrow> call \<Rightarrow> bool) \<Rightarrow> bool" where
  "no_set_period may \<longleftrightarrow> (\<forall>c k. may c k \<longrightarrow> \<not> sets_period (entry k))"

lemma nonperiodic_thread: "thread_step f s t \<Longrightarrow> f = Normal \<Longrightarrow> nonperiodic_inv s \<Longrightarrow> nonperiodic_inv t"
  by (induction rule: thread_step.induct) (simp_all add: nonperiodic_inv_def, auto)

lemma nonperiodic_start: "start_step c s t \<Longrightarrow> nonperiodic_inv s \<Longrightarrow> nonperiodic_inv t"
  by (induction rule: start_step.induct) (simp_all add: nonperiodic_inv_def starter_def)

lemma nonperiodic_stop: "stop_step c s t \<Longrightarrow> nonperiodic_inv s \<Longrightarrow> nonperiodic_inv t"
  by (induction rule: stop_step.induct) (simp_all add: nonperiodic_inv_def, (metis agent.distinct(1) agent.inject option.inject option.distinct(1))+)

lemma nonperiodic_other:
  "enter_step c s t \<Longrightarrow> nonperiodic_inv s \<Longrightarrow> nonperiodic_inv t"
  "period_step c s t \<Longrightarrow> nonperiodic_inv s \<Longrightarrow> nonperiodic_inv t"
  "term_step c s t \<Longrightarrow> nonperiodic_inv s \<Longrightarrow> nonperiodic_inv t"
  subgoal by (induction rule: enter_step.induct)
      (simp_all add: nonperiodic_inv_def, metis agent.distinct(1) agent.inject option.inject)
  subgoal by (induction rule: period_step.induct) (auto simp: nonperiodic_inv_def dest: spec [where x = c])
  subgoal by (induction rule: term_step.induct) (auto simp: nonperiodic_inv_def)
  done

lemma nonperiodic_step:
  "th_step may False s t \<Longrightarrow> no_set_period may \<Longrightarrow> nonperiodic_inv s \<Longrightarrow> nonperiodic_inv t"
proof (induction rule: th_step.induct)
  case (by_thread f s t)
  then have "f = Normal" by (cases f) simp_all
  then show ?case by (rule nonperiodic_thread [OF by_thread.hyps(1) _ by_thread.prems(2)])
next
  case (calls s c k)
  then have "\<not> sets_period (entry k)" by (auto simp: no_set_period_def)
  with calls show ?case by (simp add: nonperiodic_inv_def)
next
  case (returns s c k b)
  then show ?case by (simp add: nonperiodic_inv_def)
qed (blast intro: nonperiodic_start nonperiodic_stop nonperiodic_other)+

lemma nonperiodic_init: "th_init 0 n s \<Longrightarrow> nonperiodic_inv s"
  by (simp add: th_init_def nonperiodic_inv_def)

text \<open>The thread is allowed to run, and can.\<close>

definition unhindered :: "th_sys \<Rightarrow> bool" where
  "unhindered s \<longleftrightarrow> running s \<and> \<not> prepareForExit s \<and> (\<forall>c. breaker s \<noteq> Some (Client c))"

text \<open>How many steps the thread is away from it at most.\<close>

fun distance :: "thread_pc \<Rightarrow> nat" where
  "distance TCallLoop = 1"
| "distance TSetInloop = 2"
| "distance TLockN = 3"
| "distance TRunPeriod = 4"
| "distance TRun = 5"
| "distance TExitTest = 6"
| "distance TWaitSem = 7"
| "distance TIdle = 8"
| "distance TCond3 = 9"
| "distance TCond2 = 10"
| "distance TCond1 = 11"
| "distance TWhile = 12"
| "distance TClearInloop = 12"
| "distance TLoop = 13"
| "distance TBootLock = 13"
| "distance TBoot = 14"
| "distance _ = 0"

fun needs_signal :: "thread_pc \<Rightarrow> bool" where
  "needs_signal q \<longleftrightarrow> 7 \<le> distance q"

definition on_the_way :: "th_sys \<Rightarrow> bool" where
  "on_the_way s \<longleftrightarrow>
     unhindered s \<and> period s = 0 \<and> \<not> never_nonperiodic (tpc s) \<and> \<not> exiting (tpc s) \<and>
     (in_loop (tpc s) \<longleftrightarrow> breaker s = Some Self) \<and> (needs_signal (tpc s) \<longrightarrow> 0 < sem s)"

lemma no_client_holds: "(\<forall>c. b \<noteq> Some (Client c)) \<longleftrightarrow> b = None \<or> b = Some Self"
  by (metis agent.exhaust agent.distinct(1) option.exhaust option.inject option.distinct(1))

lemma on_the_way_next:
  assumes "on_the_way s" and "tpc s \<noteq> TCallLoop"
  shows "can_step (tpc s) s" and "on_the_way (thread_next s)" and "distance (tpc (thread_next s)) < distance (tpc s)"
  using assms by (cases "tpc s"; simp add: on_the_way_def unhindered_def no_client_holds thread_next_def)+

interpretation nonperiodic_thread:
  invariant_of "\<lambda>s. \<exists>n. th_init 0 n s" "\<lambda>s t. \<exists>may. no_set_period may \<and> th_step may False s t" nonperiodic_inv
  by unfold_locales (auto intro: nonperiodic_init nonperiodic_step)

lemma reachable_nonperiodic:
  assumes "reachable (th_init 0 n) (th_step may False) s" and "no_set_period may"
  shows "nonperiodic_inv s"
proof (rule nonperiodic_thread.reachable_inv)
  show "reachable (\<lambda>s. \<exists>n. th_init 0 n s) (\<lambda>s t. \<exists>may. no_set_period may \<and> th_step may False s t) s"
    using assms(1) by induction (use assms(2) in \<open>auto intro: reachable.intros\<close>)
qed

lemma on_the_way_iff:
  "nonperiodic_inv s \<Longrightarrow> on_the_way s \<longleftrightarrow> unhindered s \<and> (needs_signal (tpc s) \<longrightarrow> 0 < sem s)"
  by (auto simp: on_the_way_def nonperiodic_inv_def unhindered_def)

subsection \<open>All interleavings\<close>

text \<open>What the program may do from a state on, without faults: any interleaving of steps of the thread and the clients,
  as the list of the states it goes through. A step of the thread is one that moves it to another place.\<close>

fun th_path :: "(nat \<Rightarrow> call \<Rightarrow> bool) \<Rightarrow> th_sys \<Rightarrow> th_sys list \<Rightarrow> bool" where
  "th_path may s [] \<longleftrightarrow> True"
| "th_path may s (t # ts) \<longleftrightarrow> th_step may False s t \<and> th_path may t ts"

fun own_steps :: "th_sys \<Rightarrow> th_sys list \<Rightarrow> nat" where
  "own_steps s [] = 0"
| "own_steps s (t # ts) = (if tpc t \<noteq> tpc s then 1 else 0) + own_steps t ts"

definition begun_loop :: "th_sys \<Rightarrow> th_sys list \<Rightarrow> bool" where
  "begun_loop s ts \<longleftrightarrow> LoopBegin \<in> set (drop (length (hooks s)) (hooks (last (s # ts))))"

lemma thread_step_moves: "thread_step f s t \<Longrightarrow> tpc t \<noteq> tpc s"
  by (induction rule: thread_step.induct) simp_all

lemma thread_step_next:
  "thread_step f s t \<Longrightarrow> f = Normal \<Longrightarrow> tpc s \<noteq> TWaitPeriod \<Longrightarrow> t = thread_next s"
  by (induction rule: thread_step.induct) (simp_all add: thread_next_def)

lemma client_steps_stay:
  "start_step c s t \<or> stop_step c s t \<or> period_step c s t \<or> term_step c s t \<or> enter_step c s t \<Longrightarrow>
     tpc t = tpc s \<and> (clients s c \<noteq> CSetup \<longrightarrow> sem s \<le> sem t) \<and> (\<exists>es. hooks t = hooks s @ es)"
  by (elim disjE; elim start_step.cases stop_step.cases period_step.cases term_step.cases enter_step.cases; simp)

lemma th_step_cases:
  assumes "th_step may False s t"
  shows "thread_step Normal s t \<or> tpc t = tpc s \<and> ((\<forall>c. clients s c \<noteq> CSetup) \<longrightarrow> sem s \<le> sem t)"
  using assms
proof cases
  case (by_thread f)
  then have "f = Normal" by (cases f) simp_all
  with by_thread(1) show ?thesis by blast
qed (use client_steps_stay in \<open>blast | simp\<close>)+

lemma thread_step_hooks: "thread_step f s t \<Longrightarrow> \<exists>es. hooks t = hooks s @ es"
  by (induction rule: thread_step.induct) simp_all

lemma th_step_hooks: "th_step may f s t \<Longrightarrow> \<exists>es. hooks t = hooks s @ es"
  by (cases rule: th_step.cases) (use client_steps_stay thread_step_hooks in \<open>blast | simp\<close>)+

lemma th_path_hooks: "th_path may s ts \<Longrightarrow> \<exists>es. hooks (last (s # ts)) = hooks s @ es"
proof (induction ts arbitrary: s)
  case (Cons t ts)
  then have p: "th_step may False s t" "th_path may t ts" by simp_all
  obtain es where "hooks t = hooks s @ es" using th_step_hooks [OF p(1)] by blast
  moreover obtain es' where "hooks (last (t # ts)) = hooks t @ es'" using Cons.IH [OF p(2)] by blast
  ultimately show ?case by simp
qed simp

lemma begun_loop_Cons:
  assumes "th_path may s (t # ts)"
  shows "begun_loop t ts \<Longrightarrow> begun_loop s (t # ts)"
    and "hooks t = hooks s @ [LoopBegin] \<Longrightarrow> begun_loop s (t # ts)"
proof -
  have p: "th_step may False s t" "th_path may t ts" using assms by simp_all
  obtain es where es: "hooks t = hooks s @ es" using th_step_hooks [OF p(1)] by blast
  obtain es' where "hooks (last (t # ts)) = hooks t @ es'" using th_path_hooks [OF p(2)] by blast
  with es show "begun_loop t ts \<Longrightarrow> begun_loop s (t # ts)" "hooks t = hooks s @ [LoopBegin] \<Longrightarrow> begun_loop s (t # ts)"
    by (auto simp: begun_loop_def)
qed

text \<open>A step of the thread brings it nearer, and the others do not put it back.\<close>

lemma on_the_way_step:
  assumes "th_step may False s t" and "no_set_period may" and "nonperiodic_inv s" and "on_the_way s" and "unhindered t"
  shows "hooks t = hooks s @ [LoopBegin] \<or>
    on_the_way t \<and> distance (tpc t) + (if tpc t \<noteq> tpc s then 1 else 0) \<le> distance (tpc s)"
  using th_step_cases [OF assms(1)]
proof
  assume step: "thread_step Normal s t"
  have "tpc s \<noteq> TWaitPeriod" using assms(4) by (auto simp: on_the_way_def)
  then have t: "t = thread_next s" using thread_step_next [OF step] by simp
  show ?thesis
  proof (cases "tpc s = TCallLoop")
    case True
    then show ?thesis by (simp add: t thread_next_def)
  next
    case False
    then show ?thesis using on_the_way_next [OF assms(4) False] unfolding t by auto
  qed
next
  assume other: "tpc t = tpc s \<and> ((\<forall>c. clients s c \<noteq> CSetup) \<longrightarrow> sem s \<le> sem t)"
  have "\<forall>c. clients s c \<noteq> CSetup" using assms(3,4) by (auto simp: nonperiodic_inv_def on_the_way_def unhindered_def)
  with other have "sem s \<le> sem t" by blast
  moreover have "nonperiodic_inv t" using nonperiodic_step [OF assms(1-3)] .
  ultimately show ?thesis using other assms(3-5) by (auto simp: on_the_way_iff)
qed

lemma on_the_way_path:
  assumes "th_path may s ts" and "no_set_period may" and "nonperiodic_inv s" and "on_the_way s" and "\<forall>u \<in> set ts. unhindered u"
  shows "begun_loop s ts \<or> on_the_way (last (s # ts)) \<and> distance (tpc (last (s # ts))) + own_steps s ts \<le> distance (tpc s)"
  using assms
proof (induction ts arbitrary: s)
  case (Cons t ts)
  then have step: "th_step may False s t" and path: "th_path may t ts" by simp_all
  from on_the_way_step [OF step Cons.prems(2-4)] Cons.prems(5) have
    "hooks t = hooks s @ [LoopBegin] \<or>
      on_the_way t \<and> distance (tpc t) + (if tpc t \<noteq> tpc s then 1 else 0) \<le> distance (tpc s)" by simp
  then show ?case
  proof
    assume "hooks t = hooks s @ [LoopBegin]"
    then show ?thesis using begun_loop_Cons(2) [OF Cons.prems(1)] by blast
  next
    assume t: "on_the_way t \<and> distance (tpc t) + (if tpc t \<noteq> tpc s then 1 else 0) \<le> distance (tpc s)"
    have "nonperiodic_inv t" using nonperiodic_step [OF step Cons.prems(2,3)] .
    with Cons.IH [OF path Cons.prems(2)] t Cons.prems(5) have
      "begun_loop t ts \<or> on_the_way (last (t # ts)) \<and> distance (tpc (last (t # ts))) + own_steps t ts \<le> distance (tpc t)"
      by simp
    then show ?thesis using begun_loop_Cons(1) [OF Cons.prems(1)] t by auto
  qed
qed simp

lemma on_the_way_near: "on_the_way s \<Longrightarrow> 0 < distance (tpc s) \<and> distance (tpc s) \<le> 14"
  by (cases "tpc s") (simp_all add: on_the_way_def)

lemma on_the_way_can: "on_the_way s \<Longrightarrow> \<exists>t. thread_step Normal s t"
  using on_the_way_next(1) [of s] thread_next_step [of s] by (cases "tpc s = TCallLoop") auto

text \<open>C15: \<^verbatim>\<open>trigger\<close> and \<^verbatim>\<open>start\<close> keep what they promise of an activity that is not periodic and whose period
  nobody sets, and whose hooks do not throw. When a call of a client is about to return true, then, however the thread and all clients go on, as long as
  the activity is running, is not being terminated and no client holds its lock in the meantime, the thread can always
  make its next step until it begins \<^verbatim>\<open>loop\<close>, and it has begun \<^verbatim>\<open>loop\<close> after at most 14 steps of its own (one of
  which is the return of a \<^verbatim>\<open>loop\<close> that may be being executed at the time of the call). Of a periodic activity it says nothing.\<close>

theorem trigger_runs_loop:
  assumes "reachable (th_init 0 n) (th_step may False) s" and "no_set_period may"
    and "start_step c s t" and "clients t c = CDone (starter k) True"
    and "th_path may t ts" and "\<forall>u \<in> set (t # ts). unhindered u"
  shows "begun_loop t ts \<or> own_steps t ts < 14 \<and> (\<exists>u. thread_step Normal (last (t # ts)) u)"
proof -
  have "th_step may False s t" using assms(3) by (rule by_start)
  then have inv: "nonperiodic_inv t" using reachable_nonperiodic [OF assms(1,2)] nonperiodic_step assms(2) by blast
  have "0 < sem t" using assms(3,4) by cases (auto split: if_splits)
  then have way: "on_the_way t" using inv assms(6) by (simp add: on_the_way_iff)
  show ?thesis
    using on_the_way_path [OF assms(5,2) inv way] assms(6) on_the_way_near [OF way] on_the_way_near [of "last (t # ts)"]
      on_the_way_can [of "last (t # ts)"] by force
qed

definition almost_started :: "th_sys option" where
  "almost_started = th_schedule controller False (constructed @ [Call 0 Start] @ replicate 7 (C 0)) (th_start 0)"

text \<open>The states that turns lead through.\<close>

fun states_of :: "turn list \<Rightarrow> th_sys \<Rightarrow> th_sys list" where
  "states_of [] s = []"
| "states_of (a # as) s = turn_next a s # states_of as (turn_next a s)"

fun turns_ok :: "turn list \<Rightarrow> th_sys \<Rightarrow> bool" where
  "turns_ok [] s \<longleftrightarrow> True"
| "turns_ok (a # as) s \<longleftrightarrow> turn_ok controller False a s \<and> running (turn_next a s) \<and> \<not> prepareForExit (turn_next a s) \<and>
     (breaker (turn_next a s) = None \<or> breaker (turn_next a s) = Some Self) \<and> turns_ok as (turn_next a s)"

lemma turns_ok_path: "turns_ok as s \<Longrightarrow> th_path controller s (states_of as s) \<and> (\<forall>u \<in> set (states_of as s). unhindered u)"
  by (induction as arbitrary: s) (auto simp: unhindered_def intro: turn_step)

text \<open>The call returns and the client calls \<^verbatim>\<open>trigger\<close>, while the thread makes seven steps and then seven more.\<close>

definition goes_on :: "turn list" where
  "goes_on = [T, C 0, T, Call 0 Trigger, T, C 0, T, C 0, T, C 0, T, C 0, T, C 0] @ replicate 7 T"

lemma trigger_runs_loop_witness:
  "\<exists>s. almost_started = Some s \<and> own_steps (client_next True 0 s) (states_of goes_on (client_next True 0 s)) = 14 \<and>
     hooks (client_next True 0 s) = [InitBegin, InitEnd True] \<and>
     begun_loop (client_next True 0 s) (states_of goes_on (client_next True 0 s))"
proof -
  let ?t = "client_next True 0"
  let ?P = "\<lambda>s. turns_ok goes_on (?t s) \<and> running (?t s) \<and> \<not> prepareForExit (?t s) \<and> breaker (?t s) = None \<and>
    clients s 0 = CStartSig False \<and> clients (?t s) 0 = CDone (starter False) True \<and>
    own_steps (?t s) (states_of goes_on (?t s)) = 14 \<and> hooks (?t s) = [InitBegin, InitEnd True]"
  have "map_option ?P almost_started = Some True" by code_simp
  then obtain s where s: "almost_started = Some s" "?P s" by auto
  have r: "reachable (th_init 0 5) (th_step controller False) s"
    using s(1) unfolding almost_started_def by (rule schedule_from_start)
  have st: "start_step 0 s (?t s)" using start_signal [of s 0 False] s(2) by (simp add: client_next_def)
  have u: "unhindered (?t s)" using s(2) by (simp add: unhindered_def)
  have p: "th_path controller (?t s) (states_of goes_on (?t s))" "\<forall>u \<in> set (?t s # states_of goes_on (?t s)). unhindered u"
    using turns_ok_path [of goes_on "?t s"] s(2) u by simp_all
  have c: "no_set_period controller" by (simp add: no_set_period_def controller_def)
  from trigger_runs_loop [OF r c st _ p] s show ?thesis by auto
qed

section \<open>A stopped activity\<close>

text \<open>C39: \<^verbatim>\<open>stop\<close> of an activity that is not periodic can return true before the thread calls \<^verbatim>\<open>loop\<close>: the thread
  tests \<^verbatim>\<open>running\<close> before it takes the lock and not again, and \<^verbatim>\<open>stop\<close> calls \<^verbatim>\<open>breakLoop\<close> only if
  \<^verbatim>\<open>inloop\<close> is set. So \<^verbatim>\<open>loop\<close> is executed after \<^verbatim>\<open>finalize\<close> in a stopped activity, and nobody asks it to
  return.\<close>

theorem loop_runs_after_stop:
  "\<exists>s. reachable (th_init 0 5) (th_step controller False) s \<and> clients s 0 = CDone Stop True \<and> \<not> active s \<and>
    tpc s = TLoop \<and> hooks s = [InitBegin, InitEnd True, FinBegin, FinEnd, LoopBegin]"
proof -
  let ?as = "started @ replicate 4 T @ [Call 0 Stop] @ replicate 8 (C 0) @ replicate 3 T"
  let ?P = "\<lambda>s. clients s 0 = CDone Stop True \<and> \<not> active s \<and> tpc s = TLoop \<and>
    hooks s = [InitBegin, InitEnd True, FinBegin, FinEnd, LoopBegin]"
  have "map_option ?P (th_schedule controller False ?as (th_start 0)) = Some True" by code_simp
  then show ?thesis by (rule schedule_reaches)
qed

text \<open>The same runs as far as they concern the other promises. A client that triggers an activity while another stops it
  can start it again, since \<^verbatim>\<open>trigger\<close> calls \<^verbatim>\<open>start\<close>, which looks at \<open>active\<close> once more.\<close>

lemma trigger_restarts:
  "\<exists>s. reachable (th_init 0 5) (th_step (\<lambda>c k. c = 0 \<or> k = Trigger) False) s \<and>
    clients s 0 = CDone Stop True \<and> clients s 1 = CDone Trigger True \<and> active s \<and> running s \<and>
    hooks s = [InitBegin, InitEnd True, FinBegin, FinEnd, InitBegin, InitEnd True]"
proof -
  let ?may = "\<lambda>c k. c = 0 \<or> k = Trigger"
  let ?as = "started @ [Call 1 Trigger, C 1, Call 0 Stop] @ replicate 8 (C 0) @ replicate 8 (C 1)"
  let ?P = "\<lambda>s. clients s 0 = CDone Stop True \<and> clients s 1 = CDone Trigger True \<and> active s \<and> running s \<and>
    hooks s = [InitBegin, InitEnd True, FinBegin, FinEnd, InitBegin, InitEnd True]"
  have "map_option ?P (th_schedule ?may False ?as (th_start 0)) = Some True" by code_simp
  then show ?thesis by (rule schedule_reaches)
qed

text \<open>A \<^verbatim>\<open>step\<close> that throws while \<^verbatim>\<open>stop\<close> waits for it makes both the thread and \<^verbatim>\<open>stop\<close> call \<^verbatim>\<open>finalize\<close>, at
  the same time.\<close>

lemma finalized_twice:
  "\<exists>s. reachable (th_init 1 5) (th_step controller True) s \<and>
    hooks s = [InitBegin, InitEnd True, StepBegin, StepEnd, FinBegin, FinBegin] \<and> phase_after Off (hooks s) = None"
proof -
  let ?as = "started @ replicate 7 T @ [Call 0 Stop] @ replicate 3 (C 0) @ [F] @ replicate 3 (C 0) @ replicate 4 F"
  let ?P = "\<lambda>s. hooks s = [InitBegin, InitEnd True, StepBegin, StepEnd, FinBegin, FinBegin] \<and> phase_after Off (hooks s) = None"
  have "map_option ?P (th_schedule controller True ?as (th_start 1)) = Some True" by code_simp
  then show ?thesis by (rule schedule_reaches)
qed

text \<open>A \<^verbatim>\<open>stop\<close> that times out leaves an activity that says it is running, but whose thread has seen that it should
  not run and waits for a signal that \<^verbatim>\<open>start\<close> refuses to give.\<close>

lemma failed_stop_hangs:
  "\<exists>s. reachable (th_init 1 5) (th_step controller False) s \<and> clients s 0 = CDone Stop False \<and> active s \<and> running s \<and>
    tpc s = TWaitSem \<and> sem s = 0"
proof -
  let ?as = "started @ replicate 7 T @ [Call 0 Stop] @ replicate 4 (C 0) @ replicate 9 T @ [C 0]"
  let ?P = "\<lambda>s. clients s 0 = CDone Stop False \<and> active s \<and> running s \<and> tpc s = TWaitSem \<and> sem s = 0"
  have "map_option ?P (th_schedule controller False ?as (th_start 1)) = Some True" by code_simp
  then show ?thesis by (rule schedule_reaches)
qed

end
