(* ===== verification/OsTimer.thy ===== *)
theory OsTimer
  imports OroPrelude "HOL-Library.Monad_Syntax"
begin

text \<open>
  \<^verbatim>\<open>os::Timer\<close> (\<^verbatim>\<open>os/Timer.cpp\<close>). Times are nanoseconds of the type \<^verbatim>\<open>long long\<close>, the arguments of
  \<^verbatim>\<open>startTimer\<close> and \<^verbatim>\<open>arm\<close> are given as the result of \<^verbatim>\<open>Seconds_to_nsecs\<close>. \<open>None\<close> is an access out of the vector
  of timers, or an overflow of \<^verbatim>\<open>long long\<close>. First the functions executed alone and the round of the event loop at a
  given time, then the loop as a thread that interleaves with clients and the clock.
\<close>

section \<open>The table of timers\<close>

text \<open>For each timer when it expires, 0 if it is not armed, and its period.\<close>

type_synonym timer_table = "(int \<times> int) list"

definition t_add :: "int \<Rightarrow> int \<Rightarrow> int option" where
  "t_add a b = (if - (2 ^ 63) \<le> a + b \<and> a + b < 2 ^ 63 then Some (a + b) else None)"

text \<open>\<^verbatim>\<open>(TimeService::InfiniteNSecs/4)-1\<close>, until when the loop waits if no timer is armed.\<close>

definition horizon :: int where
  "horizon = (2 ^ 63 - 1) div 4 - 1"

definition invalid_id :: "int \<Rightarrow> timer_table \<Rightarrow> bool" where
  "invalid_id tid ts \<longleftrightarrow> tid < 0 \<or> int (length ts) < tid"

text \<open>\<^verbatim>\<open>mtimers[timer_id]\<close>, for every number that is not one of a timer an access out of the vector.\<close>

definition set_timer :: "int \<Rightarrow> int \<times> int \<Rightarrow> timer_table \<Rightarrow> timer_table option" where
  "set_timer tid t ts = (if tid < 0 \<or> int (length ts) \<le> tid then None else Some (ts[nat tid := t]))"

definition get_timer :: "int \<Rightarrow> timer_table \<Rightarrow> (int \<times> int) option" where
  "get_timer tid ts = (if tid < 0 \<or> int (length ts) \<le> tid then None else Some (ts ! nat tid))"

definition timer_new :: "nat \<Rightarrow> timer_table" where
  "timer_new n = replicate n (0, 0)"

definition setMaxTimers :: "nat \<Rightarrow> timer_table \<Rightarrow> timer_table" where
  "setMaxTimers n ts = take n ts @ replicate (n - length ts) (0, 0)"

definition startTimer :: "int \<Rightarrow> int \<Rightarrow> int \<Rightarrow> timer_table \<Rightarrow> (bool \<times> timer_table) option" where
  "startTimer now tid p ts =
     (if invalid_id tid ts \<or> p < 0 then Some (False, ts)
      else do { due \<leftarrow> t_add now p; ts' \<leftarrow> set_timer tid (due, p) ts; Some (True, ts') })"

definition arm :: "int \<Rightarrow> int \<Rightarrow> int \<Rightarrow> timer_table \<Rightarrow> (bool \<times> timer_table) option" where
  "arm now tid wait ts =
     (if invalid_id tid ts \<or> wait < 0 then Some (False, ts)
      else do { due \<leftarrow> t_add now wait; ts' \<leftarrow> set_timer tid (due, 0) ts; Some (True, ts') })"

definition isArmed :: "int \<Rightarrow> timer_table \<Rightarrow> bool option" where
  "isArmed tid ts = (if invalid_id tid ts then Some False else do { t \<leftarrow> get_timer tid ts; Some (fst t \<noteq> 0) })"

definition timeRemaining :: "int \<Rightarrow> int \<Rightarrow> timer_table \<Rightarrow> int option" where
  "timeRemaining now tid ts =
     (if invalid_id tid ts then Some 0
      else do { t \<leftarrow> get_timer tid ts; result \<leftarrow> t_add (fst t) (- now); Some (if result < 0 then 0 else result) })"

definition killTimer :: "int \<Rightarrow> timer_table \<Rightarrow> (bool \<times> timer_table) option" where
  "killTimer tid ts =
     (if invalid_id tid ts then Some (False, ts) else do { ts' \<leftarrow> set_timer tid (0, 0) ts; Some (True, ts') })"

section \<open>A round of the loop\<close>

text \<open>The loop that selects the next timer, with the index it is at.\<close>

fun select_loop :: "nat \<Rightarrow> timer_table \<Rightarrow> int \<times> nat \<Rightarrow> int \<times> nat" where
  "select_loop i [] best = best"
| "select_loop i (t # ts) (wake, next_id) =
     select_loop (Suc i) ts (if fst t \<noteq> 0 \<and> fst t < wake then (fst t, i) else (wake, next_id))"

definition select_timer :: "timer_table \<Rightarrow> int \<times> nat" where
  "select_timer ts = select_loop 0 ts (horizon, 0)"

definition reprogram :: "nat \<Rightarrow> timer_table \<Rightarrow> timer_table option" where
  "reprogram tid ts =
     (if tid < length ts then
        (case ts ! tid of (due, p) \<Rightarrow>
           if p \<noteq> 0 then do { due' \<leftarrow> t_add due p; Some (ts[tid := (due', p)]) } else Some (ts[tid := (0, p)]))
      else Some ts)"

text \<open>What the loop does at the time \<open>now\<close> until it waits: the timeouts with the times they were due.\<close>

partial_function (option) expire_due :: "int \<Rightarrow> timer_table \<Rightarrow> ((nat \<times> int) list \<times> timer_table) option" where
  "expire_due now ts =
     (case select_timer ts of (wake, tid) \<Rightarrow>
        if now < wake then Some ([], ts)
        else do {
          ts1 \<leftarrow> reprogram tid ts;
          (fired, ts2) \<leftarrow> expire_due now ts1;
          Some ((tid, wake) # fired, ts2)
        })"

section \<open>Selection\<close>

lemma select_loop_spec:
  "select_loop i ts (wake, tid) = (w, j) \<Longrightarrow>
     w \<le> wake \<and> (\<forall>t \<in> set ts. fst t \<noteq> 0 \<longrightarrow> w \<le> fst t) \<and>
     (w = wake \<and> j = tid \<or> w < wake \<and> i \<le> j \<and> j < i + length ts \<and> fst (ts ! (j - i)) = w \<and> w \<noteq> 0)"
proof (induction ts arbitrary: i wake tid)
  case (Cons t ts)
  define b where "b = (if fst t \<noteq> 0 \<and> fst t < wake then (fst t, i) else (wake, tid))"
  obtain wake' tid' where b': "b = (wake', tid')" by (cases b)
  have "select_loop (Suc i) ts (wake', tid') = (w, j)" using Cons.prems b_def b' by simp
  from Cons.IH [OF this] have IH: "w \<le> wake'" "\<forall>t \<in> set ts. fst t \<noteq> 0 \<longrightarrow> w \<le> fst t"
    "w = wake' \<and> j = tid' \<or> w < wake' \<and> Suc i \<le> j \<and> j < Suc i + length ts \<and> fst (ts ! (j - Suc i)) = w \<and> w \<noteq> 0" by auto
  show ?case
  proof (cases "w < wake'")
    case True
    then have "Suc i \<le> j" "fst ((t # ts) ! (j - i)) = w" using IH(3) by (auto simp: nth_Cons' Suc_diff_le)
    with True IH b_def b' show ?thesis by (auto split: if_splits)
  next
    case False
    with IH b_def b' show ?thesis by (auto split: if_splits)
  qed
qed simp

lemma select_timer_spec:
  assumes "select_timer ts = (w, j)"
  shows "w \<le> horizon" and "\<forall>t \<in> set ts. fst t \<noteq> 0 \<longrightarrow> w \<le> fst t"
    and "w < horizon \<Longrightarrow> j < length ts \<and> fst (ts ! j) = w \<and> w \<noteq> 0"
  using select_loop_spec [of 0 ts horizon 0 w j] assms by (auto simp: select_timer_def)

section \<open>Which timeouts are due\<close>

text \<open>The times up to \<open>now\<close> at which a timer expires, and what is left of it then.\<close>

fun expiries :: "int \<Rightarrow> int \<times> int \<Rightarrow> int list" where
  "expiries now (d, p) =
     (if d = 0 \<or> now < d then [] else if p = 0 then [d]
      else map (\<lambda>k. d + int k * p) [0..<Suc (nat ((now - d) div p))])"

fun left_over :: "int \<Rightarrow> int \<times> int \<Rightarrow> int \<times> int" where
  "left_over now (d, p) =
     (if d = 0 \<or> now < d then (d, p) else if p = 0 then (0, 0) else (d + ((now - d) div p + 1) * p, p))"

text \<open>A timer that was armed at a time after 0, with periods that \<^verbatim>\<open>long long\<close> has room for.\<close>

fun timer_ok :: "int \<times> int \<Rightarrow> bool" where
  "timer_ok (d, p) \<longleftrightarrow> 0 \<le> d \<and> d < 2 ^ 63 \<and> 0 \<le> p \<and> p < 2 ^ 62"

lemma horizon_bounds: "horizon < 2 ^ 61" "0 < horizon"
  by (simp_all add: horizon_def)

lemma t_add_ok: "0 \<le> a \<Longrightarrow> a \<le> horizon \<Longrightarrow> 0 \<le> b \<Longrightarrow> b < 2 ^ 62 \<Longrightarrow> t_add a b = Some (a + b)"
  using horizon_bounds by (simp add: t_add_def)

fun next_timer :: "int \<times> int \<Rightarrow> int \<times> int" where
  "next_timer (d, p) = (if p \<noteq> 0 then (d + p, p) else (0, p))"

lemma reprogram_ok:
  assumes "timer_ok (ts ! tid)" and "fst (ts ! tid) \<le> horizon" and "tid < length ts"
  shows "reprogram tid ts = Some (ts[tid := next_timer (ts ! tid)])"
  using assms t_add_ok by (cases "ts ! tid") (auto simp: reprogram_def)

lemma next_timer_ok: "timer_ok t \<Longrightarrow> fst t \<le> horizon \<Longrightarrow> timer_ok (next_timer t)"
  using horizon_bounds by (cases t) auto

lemma expiries_step:
  assumes "timer_ok t" and "fst t \<noteq> 0" and "fst t \<le> now"
  shows "expiries now t = fst t # expiries now (next_timer t)" and "left_over now t = left_over now (next_timer t)"
proof -
  obtain d p where t: "t = (d, p)" by (cases t)
  have "expiries now t = fst t # expiries now (next_timer t) \<and> left_over now t = left_over now (next_timer t)"
  proof (cases "p = 0")
    case False
    then have p: "0 < p" "0 < d" "d \<le> now" using assms t by auto
    show ?thesis
    proof (cases "now < d + p")
      case True
      then have "(now - d) div p = 0" using p by simp
      then show ?thesis using True p t by simp
    next
      case F: False
      define q where "q = (now - (d + p)) div p"
      have "0 \<le> q" using F p by (simp add: q_def pos_imp_zdiv_nonneg_iff)
      have "(now - d) div p = q + 1" using div_add_self2 [of p "now - (d + p)"] p by (simp add: q_def algebra_simps)
      moreover from this \<open>0 \<le> q\<close> have "nat ((now - d) div p) = Suc (nat q)" by simp
      ultimately show ?thesis using F p t
        by (simp add: q_def [symmetric] upt_conv_Cons map_Suc_upt [symmetric] algebra_simps del: upt_Suc)
    qed
  qed (use assms t in auto)
  then show "expiries now t = fst t # expiries now (next_timer t)" "left_over now t = left_over now (next_timer t)" by auto
qed

lemma expiries_ge: "timer_ok t \<Longrightarrow> w \<in> set (expiries now t) \<Longrightarrow> fst t \<le> w \<and> fst t \<noteq> 0"
  by (cases t) (auto split: if_splits)

lemma left_over_stop: "now < fst t \<or> fst t = 0 \<Longrightarrow> expiries now t = [] \<and> left_over now t = t"
  by (cases t) auto

section \<open>The loop calls all timeouts that are due\<close>

definition timers_ok :: "timer_table \<Rightarrow> bool" where
  "timers_ok ts \<longleftrightarrow> (\<forall>t \<in> set ts. timer_ok t)"

lemma timers_ok_update: "timers_ok ts \<Longrightarrow> timer_ok t \<Longrightarrow> timers_ok (ts[i := t])"
  unfolding timers_ok_def by (metis insertE set_update_subset_insert subsetD)

lemma timers_ok_nth: "timers_ok ts \<Longrightarrow> i < length ts \<Longrightarrow> timer_ok (ts ! i)"
  by (simp add: timers_ok_def)

text \<open>How many timeouts are due.\<close>

definition due_count :: "int \<Rightarrow> timer_table \<Rightarrow> nat" where
  "due_count now ts = sum_list (map (\<lambda>t. length (expiries now t)) ts)"

definition fired_of :: "nat \<Rightarrow> (nat \<times> int) list \<Rightarrow> int list" where
  "fired_of tid fired = map snd (filter (\<lambda>f. fst f = tid) fired)"

text \<open>What calling all timeouts that are due means: each timer's are the times at which it expires, and all of them
  are in the order of these times.\<close>

definition fires_all :: "int \<Rightarrow> timer_table \<Rightarrow> (nat \<times> int) list \<Rightarrow> bool" where
  "fires_all now ts fired \<longleftrightarrow>
     sorted (map snd fired) \<and> (\<forall>f \<in> set fired. fst f < length ts) \<and>
     (\<forall>i < length ts. fired_of i fired = expiries now (ts ! i))"

lemma sum_list_change:
  fixes f :: "'a \<Rightarrow> nat"
  shows "i < length xs \<Longrightarrow> sum_list (map f (xs[i := y])) + f (xs ! i) = sum_list (map f xs) + f y"
  by (induction xs arbitrary: i) (auto split: nat.split)

lemma due_count_update:
  assumes "i < length ts" and "length (expiries now (ts ! i)) = Suc (length (expiries now t))"
  shows "due_count now (ts[i := t]) < due_count now ts"
  using sum_list_change [OF assms(1), of "\<lambda>t. length (expiries now t)" t] assms(2) by (simp only: due_count_def)

lemma expire_due_spec:
  assumes "timers_ok ts" and "now < horizon"
  shows "\<exists>fired. expire_due now ts = Some (fired, map (left_over now) ts) \<and> fires_all now ts fired \<and>
    now < fst (select_timer (map (left_over now) ts))"
  using assms
proof (induction "due_count now ts" arbitrary: ts rule: less_induct)
  case less
  obtain w j where sel: "select_timer ts = (w, j)" by (cases "select_timer ts")
  note S = select_timer_spec [OF sel]
  show ?case
  proof (cases "now < w")
    case True
    have none: "expiries now (ts ! i) = [] \<and> left_over now (ts ! i) = ts ! i" if "i < length ts" for i
      by (rule left_over_stop) (use S(2) True nth_mem [OF that] in force)
    have m: "map (left_over now) ts = ts" by (rule nth_equalityI) (simp_all only: length_map nth_map none)
    have "expire_due now ts = Some ([], ts)" using True sel by (subst expire_due.simps) simp
    moreover have "fires_all now ts []" using none by (simp add: fires_all_def fired_of_def del: expiries.simps)
    ultimately show ?thesis using m True sel by simp
  next
    case False
    with S(3) less.prems(2) have j: "j < length ts" "fst (ts ! j) = w" "w \<noteq> 0" by simp_all
    let ?t = "ts ! j" and ?ts = "ts[j := next_timer (ts ! j)]"
    have ok: "timer_ok ?t" "fst ?t \<le> horizon" "fst ?t \<noteq> 0" "fst ?t \<le> now"
      using less.prems j False S(1) by (auto simp: timers_ok_def)
    note step = expiries_step [OF ok(1,3,4)]
    have "due_count now ?ts < due_count now ts"
      by (rule due_count_update [OF j(1)]) (simp only: step(1) list.size add_0_right add_Suc_right)
    moreover have tok: "timers_ok ?ts"
      by (rule timers_ok_update [OF less.prems(1) next_timer_ok [OF ok(1,2)]])
    ultimately obtain fired where IH: "expire_due now ?ts = Some (fired, map (left_over now) ?ts)" "fires_all now ?ts fired"
      "now < fst (select_timer (map (left_over now) ?ts))"
      using less.hyps [OF _ _ less.prems(2)] by blast
    have m: "map (left_over now) ?ts = map (left_over now) ts"
      by (simp only: map_update step(2) [symmetric]) (metis list_update_id map_update)
    moreover have "reprogram j ts = Some ?ts" by (rule reprogram_ok [OF ok(1,2) j(1)])
    ultimately have run: "expire_due now ts = Some ((j, w) # fired, map (left_over now) ts)"
      using sel False IH(1) by (subst expire_due.simps) simp
    have later: "w \<le> v" if "(i, v) \<in> set fired" for i v
    proof -
      have i: "i < length ts" using IH(2) that by (auto simp: fires_all_def)
      have "v \<in> set (fired_of i fired)" using that by (force simp: fired_of_def)
      then have v: "v \<in> set (expiries now (?ts ! i))" using IH(2) i by (simp add: fires_all_def)
      have "timer_ok (?ts ! i)" using tok i by (simp add: timers_ok_def)
      from expiries_ge [OF this v] have "fst (?ts ! i) \<le> v" "fst (?ts ! i) \<noteq> 0" by simp_all
      moreover have "w \<le> fst (?ts ! i)" if "fst (?ts ! i) \<noteq> 0"
      proof (cases "i = j")
        case True
        then show ?thesis using ok(1) j that by (cases "ts ! j") (auto split: if_splits)
      next
        case False
        then show ?thesis using S(2) that nth_mem [OF i] by simp
      qed
      ultimately show ?thesis by linarith
    qed
    have "fired_of i ((j, w) # fired) = expiries now (ts ! i)" if "i < length ts" for i
      using IH(2) that step(1) j by (cases "i = j") (simp_all add: fires_all_def fired_of_def del: expiries.simps)
    with IH(2) j(1) later have "fires_all now ts ((j, w) # fired)" by (auto simp: fires_all_def)
    with run IH(3) m show ?thesis by auto
  qed
qed

text \<open>C9: When the loop of the timer runs at some time, it comes to wait, and until then it has called the timeouts of
  every timer for all the times it expired at, in the order of these times: no timeout is lost when the loop
  is late, periodic timers do not drift, and no timer is starved by another with a short period.\<close>

theorem due_timers_fire_in_order:
  assumes "timers_ok ts" and "now < horizon"
  shows "\<exists>fired. expire_due now ts = Some (fired, map (left_over now) ts) \<and>
    sorted (map snd fired) \<and> (\<forall>i < length ts. fired_of i fired = expiries now (ts ! i)) \<and>
    now < fst (select_timer (map (left_over now) ts))"
  using expire_due_spec [OF assms] by (auto simp: fires_all_def)

definition sample_timers :: timer_table where
  "sample_timers = [(10, 4), (0, 0), (13, 0)]"

lemma due_timers_fire_in_order_witness:
  "\<exists>fired. expire_due 20 sample_timers = Some (fired, [(22, 4), (0, 0), (0, 0)]) \<and>
     fired_of 0 fired = [10, 14, 18] \<and> fired_of 1 fired = [] \<and> fired_of 2 fired = [13] \<and> sorted (map snd fired)"
proof -
  have "timers_ok sample_timers" "(20 :: int) < horizon"
    by (simp_all add: timers_ok_def sample_timers_def horizon_def)
  from due_timers_fire_in_order [OF this] obtain fired where f:
    "expire_due 20 sample_timers = Some (fired, map (left_over 20) sample_timers)" "sorted (map snd fired)"
    "\<forall>i < length sample_timers. fired_of i fired = expiries 20 (sample_timers ! i)" by blast
  have n: "length sample_timers = 3" by (simp add: sample_timers_def)
  have "fired_of 0 fired = expiries 20 (sample_timers ! 0)" "fired_of 1 fired = expiries 20 (sample_timers ! 1)"
    "fired_of 2 fired = expiries 20 (sample_timers ! 2)" using f(3) n by (simp_all del: expiries.simps)
  with f(1,2) show ?thesis by (simp add: sample_timers_def upt_rec)
qed

section \<open>Ranges\<close>

lemma invalid_or_inside: "tid \<noteq> int (length ts) \<Longrightarrow> invalid_id tid ts \<or> 0 \<le> tid \<and> nat tid < length ts"
  by (auto simp: invalid_id_def)

lemma t_sub_ok: "timer_ok t \<Longrightarrow> 0 \<le> now \<Longrightarrow> now < horizon \<Longrightarrow> t_add (fst t) (- now) = Some (fst t - now)"
  using horizon_bounds by (cases t) (simp add: t_add_def)

lemma timer_set:
  assumes "timers_ok ts" and "0 \<le> now" "now < horizon" and "0 \<le> p" "p < 2 ^ 62"
  shows "timers_ok (ts[i := (now + p, p)])" "timers_ok (ts[i := (now + p, 0)])" "timers_ok (ts[i := (0, 0)])"
  using assms horizon_bounds by (intro timers_ok_update [OF assms(1)]; simp)+

lemmas timer_call_defs = startTimer_def arm_def killTimer_def isArmed_def timeRemaining_def set_timer_def get_timer_def
  invalid_id_def

text \<open>C19: Until the year 2043, with periods of less than 146 years, nothing that is done with the timers overflows, and the
  calls access only timers that exist, with one exception: the test of the number of a timer is wrong by one, so that with
  the number of timers itself \<^verbatim>\<open>startTimer\<close>, \<^verbatim>\<open>arm\<close> and \<^verbatim>\<open>killTimer\<close> write and \<^verbatim>\<open>isArmed\<close> and
  \<^verbatim>\<open>timeRemaining\<close> read behind the end of the vector. With the number of a timer the calls set and report this timer
  and no other; with every other number, or with a negative time, they fail and change nothing.\<close>

theorem timer_calls_in_bounds:
  assumes "timers_ok ts" and "0 \<le> now" "now < horizon" and "p < 2 ^ 62"
  shows "startTimer now tid p ts =
      (if tid < 0 \<or> int (length ts) < tid \<or> p < 0 then Some (False, ts)
       else if tid = int (length ts) then None else Some (True, ts[nat tid := (now + p, p)])) \<and>
    arm now tid p ts =
      (if tid < 0 \<or> int (length ts) < tid \<or> p < 0 then Some (False, ts)
       else if tid = int (length ts) then None else Some (True, ts[nat tid := (now + p, 0)])) \<and>
    killTimer tid ts =
      (if tid < 0 \<or> int (length ts) < tid then Some (False, ts)
       else if tid = int (length ts) then None else Some (True, ts[nat tid := (0, 0)])) \<and>
    isArmed tid ts =
      (if tid < 0 \<or> int (length ts) < tid then Some False
       else if tid = int (length ts) then None else Some (fst (ts ! nat tid) \<noteq> 0)) \<and>
    timeRemaining now tid ts =
      (if tid < 0 \<or> int (length ts) < tid then Some 0
       else if tid = int (length ts) then None else Some (max 0 (fst (ts ! nat tid) - now))) \<and>
    (\<forall>r \<in> {startTimer now tid p ts, arm now tid p ts, killTimer tid ts}. \<forall>b ts'. r = Some (b, ts') \<longrightarrow>
       timers_ok ts' \<and> length ts' = length ts)"
proof (cases "invalid_id tid ts \<or> p < 0 \<or> tid = int (length ts)")
  case True
  show ?thesis
  proof (cases "invalid_id tid ts \<or> tid = int (length ts)")
    case False
    with True have p: "p < 0" by simp
    from False have i: "0 \<le> tid" "nat tid < length ts" using invalid_or_inside by blast+
    with p assms t_sub_ok [OF timers_ok_nth [OF assms(1) i(2)]] timer_set [OF assms(1-3), of 0] show ?thesis
      by (auto simp: timer_call_defs max_def)
  qed (use assms t_add_ok [of now p] in \<open>auto simp: timer_call_defs\<close>)
next
  case False
  then have p: "0 \<le> p" "\<not> invalid_id tid ts" "tid \<noteq> int (length ts)" by simp_all
  have add: "t_add now p = Some (now + p)" using t_add_ok assms p(1) by simp
  have i: "0 \<le> tid" "nat tid < length ts" using invalid_or_inside p by blast+
  with p assms t_sub_ok [OF timers_ok_nth [OF assms(1) i(2)]] timer_set [OF assms(1-3) p(1) assms(4)] show ?thesis
    by (auto simp: timer_call_defs add max_def)
qed

lemma timer_calls_in_bounds_witness:
  "startTimer 20 3 5 sample_timers = None \<and> killTimer 3 sample_timers = None \<and>
   startTimer 20 1 5 sample_timers = Some (True, [(10, 4), (25, 5), (13, 0)]) \<and> timers_ok [(10, 4), (25, 5), (13, 0)]"
proof -
  have h: "timers_ok sample_timers" "(0 :: int) \<le> 20" "(20 :: int) < horizon" "(5 :: int) < 2 ^ 62"
    by (simp_all add: timers_ok_def sample_timers_def horizon_def)
  have s: "startTimer 20 1 5 sample_timers = Some (True, [(10, 4), (25, 5), (13, 0)])"
    by (simp add: startTimer_def set_timer_def t_add_def invalid_id_def sample_timers_def)
  have "length sample_timers = 3" by (simp add: sample_timers_def)
  with timer_calls_in_bounds [OF h, of 3] timer_calls_in_bounds [OF h, of 1] s show ?thesis by auto
qed

end
