(* ===== verification/OsTimerThread.thy ===== *)
theory OsTimerThread
  imports OsTimer
begin

text \<open>
  The event loop of \<^verbatim>\<open>os::Timer\<close> as a thread that runs while clients call its functions and time passes. What is
  done under the mutex is one step; the clock is read, the semaphore signalled and waited for, and \<^verbatim>\<open>timeout\<close> called
  in steps of their own. \<^verbatim>\<open>waitUntil\<close> returns a \<^verbatim>\<open>bool\<close>, so that the test \<^verbatim>\<open>ret == -1\<close> is never true after a
  wait: a wait that ends because its time has come makes the loop select again, and it is the next round that
  finds the timer overdue. \<open>fired\<close> is a history of the calls of \<^verbatim>\<open>timeout\<close> with the time of the selection.
\<close>

section \<open>States and steps\<close>

datatype loop_pc =
    LTop
  | LChosen int nat          \<comment> \<open>has selected a time and a timer\<close>
  | LWaiting int             \<comment> \<open>in \<open>waitUntil\<close>\<close>
  | LExpired int nat         \<comment> \<open>has found the time passed\<close>
  | LTimeout int nat         \<comment> \<open>has reprogrammed the timer\<close>
  | LQuit

record tm_sys =
  timers :: timer_table
  clock :: int
  msem :: nat
  to_signal :: nat           \<comment> \<open>calls that have changed the timers and not yet signalled\<close>
  mdo_quit :: bool
  lpc :: loop_pc
  fired :: "(nat \<times> int) list"

definition tm_init :: "nat \<Rightarrow> tm_sys \<Rightarrow> bool" where
  "tm_init n s \<longleftrightarrow>
     (\<exists>now. s = \<lparr>timers = timer_new n, clock = now, msem = 0, to_signal = 0, mdo_quit = False, lpc = LTop, fired = []\<rparr>)"

inductive loop_step :: "tm_sys \<Rightarrow> tm_sys \<Rightarrow> bool" where
  loop_quit: "lpc s = LTop \<Longrightarrow> mdo_quit s \<Longrightarrow> loop_step s (s\<lparr>lpc := LQuit\<rparr>)"
| loop_select: "lpc s = LTop \<Longrightarrow> \<not> mdo_quit s \<Longrightarrow> select_timer (timers s) = (wake, tid) \<Longrightarrow>
    loop_step s (s\<lparr>lpc := LChosen wake tid\<rparr>)"
| loop_wait: "lpc s = LChosen wake tid \<Longrightarrow> clock s < wake \<Longrightarrow> loop_step s (s\<lparr>lpc := LWaiting wake\<rparr>)"
| loop_overrun: "lpc s = LChosen wake tid \<Longrightarrow> wake \<le> clock s \<Longrightarrow> loop_step s (s\<lparr>lpc := LExpired wake tid\<rparr>)"
| loop_signalled: "lpc s = LWaiting wake \<Longrightarrow> 0 < msem s \<Longrightarrow> loop_step s (s\<lparr>msem := msem s - 1, lpc := LTop\<rparr>)"
| loop_timed_out: "lpc s = LWaiting wake \<Longrightarrow> wake \<le> clock s \<Longrightarrow> loop_step s (s\<lparr>lpc := LTop\<rparr>)"
| loop_reprogram: "lpc s = LExpired wake tid \<Longrightarrow> reprogram tid (timers s) = Some ts \<Longrightarrow>
    loop_step s (s\<lparr>timers := ts, lpc := LTimeout wake tid\<rparr>)"
| loop_timeout: "lpc s = LTimeout wake tid \<Longrightarrow> loop_step s (s\<lparr>fired := fired s @ [(tid, wake)], lpc := LTop\<rparr>)"

inductive client_step :: "tm_sys \<Rightarrow> tm_sys \<Rightarrow> bool" where
  call_start: "startTimer (clock s) tid p (timers s) = Some (b, ts) \<Longrightarrow>
    client_step s (s\<lparr>timers := ts, to_signal := to_signal s + (if b then 1 else 0)\<rparr>)"
| call_arm: "arm (clock s) tid p (timers s) = Some (b, ts) \<Longrightarrow>
    client_step s (s\<lparr>timers := ts, to_signal := to_signal s + (if b then 1 else 0)\<rparr>)"
| call_kill: "killTimer tid (timers s) = Some (b, ts) \<Longrightarrow> client_step s (s\<lparr>timers := ts\<rparr>)"
| call_resize: "client_step s (s\<lparr>timers := setMaxTimers n (timers s)\<rparr>)"
| call_break: "client_step s (s\<lparr>mdo_quit := True, to_signal := to_signal s + 1\<rparr>)"
| call_signals: "to_signal s = Suc k \<Longrightarrow> client_step s (s\<lparr>to_signal := k, msem := msem s + 1\<rparr>)"

inductive tm_step :: "tm_sys \<Rightarrow> tm_sys \<Rightarrow> bool" where
  by_loop: "loop_step s t \<Longrightarrow> tm_step s t"
| by_client: "client_step s t \<Longrightarrow> tm_step s t"
| time_passes: "clock s \<le> now \<Longrightarrow> tm_step s (s\<lparr>clock := now\<rparr>)"

section \<open>The loop never oversleeps\<close>

definition armed_from :: "int \<Rightarrow> timer_table \<Rightarrow> bool" where
  "armed_from w ts \<longleftrightarrow> (\<forall>t \<in> set ts. fst t \<noteq> 0 \<longrightarrow> w \<le> fst t)"

text \<open>No timer expires before the time that the loop has selected or waits for, unless a signal is on its way.\<close>

fun knows_timers :: "loop_pc \<Rightarrow> timer_table \<Rightarrow> bool \<Rightarrow> bool" where
  "knows_timers (LChosen w tid) ts quit = (armed_from w ts \<and> \<not> quit)"
| "knows_timers (LWaiting w) ts quit = (armed_from w ts \<and> \<not> quit)"
| "knows_timers _ ts quit = True"

definition awake_inv :: "tm_sys \<Rightarrow> bool" where
  "awake_inv s \<longleftrightarrow> knows_timers (lpc s) (timers s) (mdo_quit s) \<or> 0 < msem s \<or> 0 < to_signal s"

lemma armed_from_zero: "armed_from w ts \<Longrightarrow> armed_from w (ts[i := (0, p)])"
  unfolding armed_from_def by (metis fst_conv insertE set_update_subset_insert subsetD)

lemma armed_from_resize: "armed_from w ts \<Longrightarrow> armed_from w (setMaxTimers n ts)"
  by (auto simp: armed_from_def setMaxTimers_def dest: in_set_takeD)

lemma knows_mono:
  "knows_timers q ts quit \<Longrightarrow> (\<And>w. armed_from w ts \<Longrightarrow> armed_from w ts') \<Longrightarrow> knows_timers q ts' quit"
  by (cases q) auto

lemma refused_call:
  "startTimer now tid p ts = Some (False, ts') \<Longrightarrow> ts' = ts" "arm now tid p ts = Some (False, ts') \<Longrightarrow> ts' = ts"
  by (auto simp: startTimer_def arm_def split: if_splits option.splits bind_splits)

lemma killed_armed_from: "killTimer tid ts = Some (b, ts') \<Longrightarrow> armed_from w ts \<Longrightarrow> armed_from w ts'"
  by (auto simp: killTimer_def set_timer_def armed_from_zero split: if_splits bind_splits)

lemma awake_client: "client_step s t \<Longrightarrow> awake_inv s \<Longrightarrow> awake_inv t"
proof (induction rule: client_step.induct)
  case (call_start s tid p b ts)
  then show ?case by (cases b) (auto simp: awake_inv_def dest: refused_call)
next
  case (call_arm s tid p b ts)
  then show ?case by (cases b) (auto simp: awake_inv_def dest: refused_call)
next
  case (call_kill tid s b ts)
  then show ?case by (auto simp: awake_inv_def intro: knows_mono killed_armed_from)
next
  case (call_resize s n)
  then show ?case by (auto simp: awake_inv_def intro: knows_mono armed_from_resize)
qed (auto simp: awake_inv_def)

lemma awake_loop: "loop_step s t \<Longrightarrow> awake_inv s \<Longrightarrow> awake_inv t"
proof (induction rule: loop_step.induct)
  case (loop_select s wake tid)
  then show ?case using select_timer_spec(2) [OF loop_select(3)] by (simp add: awake_inv_def armed_from_def)
qed (auto simp: awake_inv_def)

interpretation timer_thread: invariant_of "tm_init n" tm_step awake_inv for n
proof
  show "tm_init n s \<Longrightarrow> awake_inv s" for s by (auto simp: tm_init_def awake_inv_def)
  show "awake_inv t" if "awake_inv s" "tm_step s t" for s t
    using that(2,1) by cases (auto intro: awake_loop awake_client, simp add: awake_inv_def)
qed

text \<open>C18: The event loop of the timer does not miss a change of the timers: when it waits and no call is in
  progress or has signalled, it waits no longer than until the first armed timer expires, whatever calls were made
  while it selected, waited or called \<^verbatim>\<open>timeout\<close>; and it has not been told to quit.\<close>

theorem timer_never_oversleeps:
  assumes "reachable (tm_init n) tm_step s" and "lpc s = LWaiting wake" and "msem s = 0" and "to_signal s = 0"
  shows "\<not> mdo_quit s \<and> (\<forall>t \<in> set (timers s). fst t \<noteq> 0 \<longrightarrow> wake \<le> fst t)"
  using timer_thread.reachable_inv [OF assms(1)] assms(2-) by (simp add: awake_inv_def armed_from_def)

section \<open>Runs\<close>

text \<open>One timer, and at time 0 a call \<^verbatim>\<open>arm\<close> for 5 nanoseconds later.\<close>

definition one_timer :: "timer_table \<Rightarrow> int \<Rightarrow> nat \<Rightarrow> nat \<Rightarrow> loop_pc \<Rightarrow> (nat \<times> int) list \<Rightarrow> tm_sys" where
  "one_timer ts now sem sig q fs =
     \<lparr>timers = ts, clock = now, msem = sem, to_signal = sig, mdo_quit = False, lpc = q, fired = fs\<rparr>"

abbreviation reached :: "tm_sys \<Rightarrow> bool" where
  "reached \<equiv> reachable (tm_init 1) tm_step"

lemma arm_one: "arm now 0 p [t] = Some (True, [(now + p, 0)])" if "0 \<le> p" "0 \<le> now" "now + p < 2 ^ 63" for t
  using that by (cases t) (simp add: arm_def invalid_id_def set_timer_def t_add_def)

lemma select_one: "select_timer [(5, 0)] = (5, 0)" "select_timer [(0, 0)] = (horizon, 0)"
  by (simp_all add: select_timer_def horizon_def)

lemma reach_armed: "reached (one_timer [(5, 0)] 0 0 1 LTop [])"
proof -
  have r: "reached (one_timer [(0, 0)] 0 0 0 LTop [])"
    by (intro reachable_init) (simp add: tm_init_def one_timer_def timer_new_def)
  show ?thesis
    using reachable_step [OF r by_client [OF call_arm [of _ 0 5 True "[(5, 0)]"]]] by (simp add: one_timer_def arm_one)
qed

lemma reach_steps:
  "reached (one_timer ts now sem (Suc sig) q fs) \<Longrightarrow> reached (one_timer ts now (Suc sem) sig q fs)"
  "reached (one_timer ts now sem sig LTop fs) \<Longrightarrow> select_timer ts = (w, tid) \<Longrightarrow>
     reached (one_timer ts now sem sig (LChosen w tid) fs)"
  "reached (one_timer ts now sem sig (LChosen w tid) fs) \<Longrightarrow> now < w \<Longrightarrow> reached (one_timer ts now sem sig (LWaiting w) fs)"
  "reached (one_timer ts now sem sig (LChosen w tid) fs) \<Longrightarrow> w \<le> now \<Longrightarrow>
     reached (one_timer ts now sem sig (LExpired w tid) fs)"
  "reached (one_timer ts now (Suc sem) sig (LWaiting w) fs) \<Longrightarrow> reached (one_timer ts now sem sig LTop fs)"
  "reached (one_timer ts now sem sig (LExpired w tid) fs) \<Longrightarrow> reprogram tid ts = Some ts' \<Longrightarrow>
     reached (one_timer ts' now sem sig (LTimeout w tid) fs)"
  "reached (one_timer ts now sem sig (LTimeout w tid) fs) \<Longrightarrow> reached (one_timer ts now sem sig LTop (fs @ [(tid, w)]))"
  "reached (one_timer ts now sem sig q fs) \<Longrightarrow> now \<le> now' \<Longrightarrow> reached (one_timer ts now' sem sig q fs)"
  subgoal by (erule reachable_step, rule by_client, insert call_signals [of "one_timer ts now sem (Suc sig) q fs" sig], simp add: one_timer_def)
  subgoal by (erule reachable_step, rule by_loop, insert loop_select [of "one_timer ts now sem sig LTop fs" w tid], simp add: one_timer_def)
  subgoal by (erule reachable_step, rule by_loop, insert loop_wait [of "one_timer ts now sem sig (LChosen w tid) fs" w tid], simp add: one_timer_def)
  subgoal by (erule reachable_step, rule by_loop, insert loop_overrun [of "one_timer ts now sem sig (LChosen w tid) fs" w tid], simp add: one_timer_def)
  subgoal by (erule reachable_step, rule by_loop, insert loop_signalled [of "one_timer ts now (Suc sem) sig (LWaiting w) fs" w], simp add: one_timer_def)
  subgoal by (erule reachable_step, rule by_loop, insert loop_reprogram [of "one_timer ts now sem sig (LExpired w tid) fs" w tid ts'], simp add: one_timer_def)
  subgoal by (erule reachable_step, rule by_loop, insert loop_timeout [of "one_timer ts now sem sig (LTimeout w tid) fs" w tid], simp add: one_timer_def)
  subgoal by (erule reachable_step, insert time_passes [of "one_timer ts now sem sig q fs" now'], simp add: one_timer_def)
  done

lemma timer_never_oversleeps_witness:
  "\<exists>s. reached s \<and> lpc s = LWaiting 5 \<and> timers s = [(5, 0)] \<and> (\<forall>t \<in> set (timers s). fst t \<noteq> 0 \<longrightarrow> 5 \<le> fst t)"
proof -
  have "reached (one_timer [(5, 0)] 0 0 1 (LChosen 5 0) [])" by (rule reach_steps(2) [OF reach_armed select_one(1)])
  then have "reached (one_timer [(5, 0)] 0 0 1 (LWaiting 5) [])" by (rule reach_steps(3)) simp
  then have "reached (one_timer [(5, 0)] 0 0 0 LTop [])" using reach_steps(1,5) by (metis One_nat_def)
  then have "reached (one_timer [(5, 0)] 0 0 0 (LChosen 5 0) [])" by (rule reach_steps(2) [OF _ select_one(1)])
  then have r: "reached (one_timer [(5, 0)] 0 0 0 (LWaiting 5) [])" by (rule reach_steps(3)) simp
  from timer_never_oversleeps [OF r, of 5] r show ?thesis
    by (intro exI [of _ "one_timer [(5, 0)] 0 0 0 (LWaiting 5) []"]) (simp add: one_timer_def)
qed

text \<open>A timer that is armed again while the loop is about to handle that it expired: the loop reprograms the timer
  without looking whether it is still the expired one. The new time is lost, though \<^verbatim>\<open>arm\<close> returned true, and
  \<^verbatim>\<open>timeout\<close> is called before it.\<close>

lemma rearmed_timer_lost:
  "\<exists>s t u. reached s \<and> arm (clock s) 0 100 (timers s) = Some (True, timers t) \<and> client_step s t \<and> timers t = [(105, 0)] \<and>
     loop_step t u \<and> timers u = [(0, 0)] \<and> lpc u = LTimeout 5 0 \<and> clock u = 5"
proof -
  let ?s = "one_timer [(5, 0)] 5 0 1 (LExpired 5 0) []"
  let ?t = "one_timer [(105, 0)] 5 0 (Suc 1) (LExpired 5 0) []" and ?u = "one_timer [(0, 0)] 5 0 (Suc 1) (LTimeout 5 0) []"
  have s: "reached ?s"
    using reach_steps(4) [OF reach_steps(2) [OF reach_steps(8) [OF reach_armed, of 5] select_one(1)]] by simp
  have a: "arm (clock ?s) 0 100 (timers ?s) = Some (True, timers ?t)" using arm_one [of 100 5] by (simp add: one_timer_def)
  have t: "client_step ?s ?t" using call_arm [OF a] by (simp add: one_timer_def)
  have u: "loop_step ?t ?u" using loop_reprogram [of ?t 5 0 "[(0, 0)]"] by (simp add: one_timer_def reprogram_def)
  from s a t u show ?thesis
    by (intro exI [of _ ?s] exI [of _ ?t] exI [of _ ?u]) (simp add: one_timer_def)
qed

text \<open>A killed timer can still call \<^verbatim>\<open>timeout\<close>, for the same reason.\<close>

lemma killed_timer_fires:
  "\<exists>s t. reached s \<and> killTimer 0 (timers s) = Some (True, timers t) \<and> client_step s t \<and>
     (\<exists>u v. loop_step t u \<and> loop_step u v \<and> fired v = [(0, 5)])"
proof -
  let ?s = "one_timer [(5, 0)] 5 0 1 (LExpired 5 0) []" and ?t = "one_timer [(0, 0)] 5 0 1 (LExpired 5 0) []"
  have s: "reached ?s"
    using reach_steps(4) [OF reach_steps(2) [OF reach_steps(8) [OF reach_armed, of 5] select_one(1)]] by simp
  have k: "killTimer 0 (timers ?s) = Some (True, timers ?t)"
    by (simp add: one_timer_def killTimer_def invalid_id_def set_timer_def)
  have t: "client_step ?s ?t" using call_kill [OF k] by (simp add: one_timer_def)
  have u: "loop_step ?t (one_timer [(0, 0)] 5 0 1 (LTimeout 5 0) [])"
    using loop_reprogram [of ?t 5 0 "[(0, 0)]"] by (simp add: one_timer_def reprogram_def)
  have v: "loop_step (one_timer [(0, 0)] 5 0 1 (LTimeout 5 0) []) (one_timer [(0, 0)] 5 0 1 LTop [(0, 5)])"
    using loop_timeout [of "one_timer [(0, 0)] 5 0 1 (LTimeout 5 0) []" 5 0] by (simp add: one_timer_def)
  from s k t u v show ?thesis by (intro exI [of _ ?s] exI [of _ ?t]) (fastforce simp: one_timer_def)
qed

end
