(* ===== verification/OsTimeService.thy ===== *)
theory OsTimeService
  imports OroPrelude
begin

text \<open>
  \<^verbatim>\<open>os::TimeService\<close> (\<^verbatim>\<open>os/TimeService.cpp\<close>): the system clock with an offset, and a clock of its own that the user
  moves when the system clock is disabled. The clock of the operating system is an argument, in ticks and in
  nanoseconds; the conversions between ticks and nanoseconds are a parameter of \<open>getNSecs\<close>. Ticks are integers:
  overflow of \<^verbatim>\<open>long long\<close> is not modelled. Times in seconds are \<^verbatim>\<open>double\<close>s; where the code converts them, the
  number of ticks is the argument.
\<close>

section \<open>The service\<close>

record time_service =
  offset :: int
  use_clock :: bool

definition time_service_new :: time_service where
  "time_service_new = \<lparr>offset = 0, use_clock = True\<rparr>"

definition enableSystemClock :: "int \<Rightarrow> bool \<Rightarrow> time_service \<Rightarrow> time_service" where
  "enableSystemClock now yes_no s =
     (if yes_no = use_clock s then s
      else if yes_no then s\<lparr>use_clock := yes_no, offset := offset s - now\<rparr>
      else s\<lparr>use_clock := yes_no, offset := offset s + now\<rparr>)"

definition getTicks :: "int \<Rightarrow> time_service \<Rightarrow> int" where
  "getTicks now s = (if use_clock s then now + offset s else 0 + offset s)"

text \<open>The ticks since a time; a time of 0 is set to the current one.\<close>

definition getTicks_from :: "int \<Rightarrow> time_service \<Rightarrow> int \<Rightarrow> int \<times> int" where
  "getTicks_from now s relativeTime =
     (if relativeTime = 0 then (0, getTicks now s) else (getTicks now s - relativeTime, relativeTime))"

definition ticksSince :: "int \<Rightarrow> time_service \<Rightarrow> int \<Rightarrow> int" where
  "ticksSince now s relativeTime = getTicks now s - relativeTime"

definition secondsChange :: "int \<Rightarrow> int \<Rightarrow> time_service \<Rightarrow> int \<times> time_service" where
  "secondsChange now delta s = (let s1 = s\<lparr>offset := offset s + delta\<rparr> in (ticksSince now s1 0, s1))"

text \<open>The expression of the code is \<^verbatim>\<open>ticks2nsecs(offset) + (use_clock) ? (rtos_get_time_ns()) : (0)\<close>, in which the
  condition is the whole sum.\<close>

definition getNSecs :: "(int \<Rightarrow> int) \<Rightarrow> int \<Rightarrow> time_service \<Rightarrow> int" where
  "getNSecs ticks2nsecs now_ns s =
     (if ticks2nsecs (offset s) + (if use_clock s then 1 else 0) \<noteq> 0 then now_ns else 0)"

section \<open>Time never goes back\<close>

text \<open>What may happen to the service: time passes, or it is switched to the other clock, or moved forward.\<close>

datatype time_event = Passes nat | Switch bool | Change nat

fun time_step :: "time_event \<Rightarrow> int \<times> time_service \<Rightarrow> int \<times> time_service" where
  "time_step (Passes d) (now, s) = (now + int d, s)"
| "time_step (Switch b) (now, s) = (now, enableSystemClock now b s)"
| "time_step (Change d) (now, s) = (now, snd (secondsChange now (int d) s))"

fun reading :: "int \<times> time_service \<Rightarrow> int" where
  "reading (now, s) = getTicks now s"

text \<open>What it is told to be ahead, in this many ticks.\<close>

fun advance :: "time_event \<Rightarrow> bool \<Rightarrow> int" where
  "advance (Passes d) clock = (if clock then int d else 0)"
| "advance (Switch b) clock = 0"
| "advance (Change d) clock = int d"

lemma reading_step: "reading (time_step e (now, s)) = reading (now, s) + advance e (use_clock s)"
  by (cases e) (auto simp: getTicks_def enableSystemClock_def secondsChange_def Let_def)

fun readings :: "time_event list \<Rightarrow> int \<times> time_service \<Rightarrow> int list" where
  "readings [] c = [reading c]"
| "readings (e # es) c = reading c # readings es (time_step e c)"

lemma reading_grows: "reading c \<le> reading (time_step e c)"
  using reading_step [of e "fst c" "snd c"] by (cases e; cases "use_clock (snd c)") simp_all

lemma readings_ge: "r \<in> set (readings es c) \<Longrightarrow> reading c \<le> r"
proof (induction es arbitrary: c)
  case (Cons e es)
  show ?case
  proof (cases "r = reading c")
    case False
    with Cons.prems have "reading (time_step e c) \<le> r" by (intro Cons.IH) simp
    with reading_grows [of c e] show ?thesis by simp
  qed simp
qed simp

text \<open>The time in ticks never goes back and never jumps when the system clock is switched off and on, however often
  and whenever; while it is off only \<^verbatim>\<open>secondsChange\<close> moves it.\<close>

lemma switching_clock_keeps_time:
  "sorted (readings es c) \<and> reading (time_step (Switch b) c) = reading c \<and>
   reading (time_step (Passes d) (now, s\<lparr>use_clock := False\<rparr>)) = reading (now, s\<lparr>use_clock := False\<rparr>)"
proof -
  have "sorted (readings es c)"
  proof (induction es arbitrary: c)
    case (Cons e es)
    have "reading c \<le> r" if "r \<in> set (readings es (time_step e c))" for r
      using reading_grows [of c e] readings_ge [OF that] by simp
    with Cons.IH show ?case by simp
  qed simp
  moreover have "reading (time_step (Switch b) c) = reading c"
    using reading_step [of "Switch b" "fst c" "snd c"] by simp
  ultimately show ?thesis by (simp add: getTicks_def)
qed

text \<open>But the time in nanoseconds ignores the offset: it is that of the system clock also when that is disabled.\<close>

lemma nsecs_ignore_offset:
  "getNSecs (\<lambda>t. t) 1000 (enableSystemClock 1000 False time_service_new) = 1000 \<and>
   getNSecs (\<lambda>t. t) 5000 (enableSystemClock 1000 False time_service_new) = 5000 \<and>
   getTicks 5000 (enableSystemClock 1000 False time_service_new) = 1000"
  by (simp add: getNSecs_def enableSystemClock_def time_service_new_def getTicks_def)

end
