(* ===== verification/OperationCalls.thy ===== *)
theory OperationCalls
  imports OroPrelude "HOL-Library.Multiset"
begin

text \<open>
  Sending an operation to another component (\<^verbatim>\<open>internal/LocalOperationCaller.hpp\<close>, \<^verbatim>\<open>internal/BindStorage.hpp\<close>,
  \<^verbatim>\<open>SendHandle.hpp\<close>). A call is an object that is cloned from the operation, queued as a message in the engine that
  executes it, sent back to the engine of the caller and collected from a handle. It is kept alive by counted
  references: of the function \<^verbatim>\<open>do_send\<close> while it runs, of the object itself (\<^verbatim>\<open>self\<close>), and of handles. The
  queues hold plain pointers. Every access to them is a step of its own, of the thread that sends, of
  the executing engine, of the engine of the caller, or of the owner of a handle. The operation itself is a
  parameter: it returns a value or throws.
\<close>

section \<open>One call\<close>

datatype send_status = SendFailure | SendNotReady | SendSuccess

text \<open>The result of an operation that was executed; an operation that threw has no value.\<close>

record 'r rstore =
  executed :: bool
  err :: bool
  arg :: "'r option"

definition rstore_new :: "'r rstore" where
  "rstore_new = \<lparr>executed = False, err = False, arg = None\<rparr>"

text \<open>\<^verbatim>\<open>RStore::exec\<close>: \<open>None\<close> is an exception.\<close>

definition rstore_exec :: "'r option \<Rightarrow> 'r rstore \<Rightarrow> 'r rstore" where
  "rstore_exec f st =
     (case f of Some v \<Rightarrow> st\<lparr>err := False, arg := Some v, executed := True\<rparr>
      | None \<Rightarrow> st\<lparr>err := True, executed := True\<rparr>)"

text \<open>\<^verbatim>\<open>collectIfDone\<close>: the status and the value, or the exception that \<^verbatim>\<open>checkError\<close> throws.\<close>

definition collectIfDone :: "'r rstore \<Rightarrow> unit + (send_status \<times> 'r option)" where
  "collectIfDone st =
     (if executed st then (if err st then Inl () else Inr (SendSuccess, arg st)) else Inr (SendNotReady, None))"

text \<open>Where the thread that sends is.\<close>

datatype send_pc = NotSent | Cloned | Queued | Kept | Returned bool

record 'r op_call =
  send_pc :: send_pc
  self_ref :: bool
  handles :: nat
  retv :: "'r rstore"

definition call_new :: "'r op_call" where
  "call_new = \<lparr>send_pc = NotSent, self_ref = False, handles = 0, retv = rstore_new\<rparr>"

definition local_ref :: "send_pc \<Rightarrow> bool" where
  "local_ref q \<longleftrightarrow> q = Cloned \<or> q = Queued \<or> q = Kept"

text \<open>The reference count is positive: the object exists.\<close>

definition call_alive :: "'r op_call \<Rightarrow> bool" where
  "call_alive c \<longleftrightarrow> local_ref (send_pc c) \<or> self_ref c \<or> 0 < handles c"

section \<open>The system\<close>

datatype exec_pc = EIdle | EGot nat | EExecuted nat
datatype reply_pc = RIdle | RGot nat

record 'r op_sys =
  calls :: "nat \<Rightarrow> 'r op_call"
  exec_queue :: "nat list"
  reply_queue :: "nat list"
  exec_pc :: exec_pc
  reply_pc :: reply_pc
  runs :: "(nat \<times> 'r option) list"    \<comment> \<open>history: the calls executed, with what the operation did\<close>

definition op_init :: "'r op_sys \<Rightarrow> bool" where
  "op_init s \<longleftrightarrow>
     s = \<lparr>calls = (\<lambda>_. call_new), exec_queue = [], reply_queue = [], exec_pc = EIdle, reply_pc = RIdle, runs = []\<rparr>"

abbreviation with_call :: "nat \<Rightarrow> ('r op_call \<Rightarrow> 'r op_call) \<Rightarrow> 'r op_sys \<Rightarrow> 'r op_sys" where
  "with_call i f s \<equiv> s\<lparr>calls := (calls s)(i := f (calls s i))\<rparr>"

text \<open>\<^verbatim>\<open>do_send\<close>: the pointer is queued first, and the object's reference to itself set afterwards.\<close>

inductive send_step :: "'r op_sys \<Rightarrow> 'r op_sys \<Rightarrow> bool" where
  clone: "send_pc (calls s i) = NotSent \<Longrightarrow> send_step s (with_call i (send_pc_update (\<lambda>_. Cloned)) s)"
| enqueue: "send_pc (calls s i) = Cloned \<Longrightarrow>
    send_step s (with_call i (send_pc_update (\<lambda>_. Queued)) (s\<lparr>exec_queue := exec_queue s @ [i]\<rparr>))"
| rejected: "send_pc (calls s i) = Cloned \<Longrightarrow> send_step s (with_call i (send_pc_update (\<lambda>_. Returned False)) s)"
| keep: "send_pc (calls s i) = Queued \<Longrightarrow>
    send_step s (with_call i (\<lambda>c. c\<lparr>self_ref := True, send_pc := Kept\<rparr>) s)"
| return: "send_pc (calls s i) = Kept \<Longrightarrow>
    send_step s (with_call i (\<lambda>c. c\<lparr>handles := handles c + 1, send_pc := Returned True\<rparr>) s)"

inductive handle_step :: "'r op_sys \<Rightarrow> 'r op_sys \<Rightarrow> bool" where
  copy_handle: "0 < handles (calls s i) \<Longrightarrow> handle_step s (with_call i (\<lambda>c. c\<lparr>handles := handles c + 1\<rparr>) s)"
| drop_handle: "0 < handles (calls s i) \<Longrightarrow> handle_step s (with_call i (\<lambda>c. c\<lparr>handles := handles c - 1\<rparr>) s)"

text \<open>The executing engine, with \<^verbatim>\<open>executeAndDispose\<close>; the queue of the caller may refuse the reply.\<close>

inductive exec_step :: "'r op_sys \<Rightarrow> 'r op_sys \<Rightarrow> bool" where
  exec_take: "exec_pc s = EIdle \<Longrightarrow> exec_queue s = i # q \<Longrightarrow> exec_step s (s\<lparr>exec_queue := q, exec_pc := EGot i\<rparr>)"
| exec_run: "exec_pc s = EGot i \<Longrightarrow> \<not> executed (retv (calls s i)) \<Longrightarrow>
    exec_step s (with_call i (retv_update (rstore_exec f)) (s\<lparr>exec_pc := EExecuted i, runs := runs s @ [(i, f)]\<rparr>))"
| exec_again: "exec_pc s = EGot i \<Longrightarrow> executed (retv (calls s i)) \<Longrightarrow>
    exec_step s (with_call i (self_ref_update (\<lambda>_. False)) (s\<lparr>exec_pc := EIdle\<rparr>))"
| exec_reply: "exec_pc s = EExecuted i \<Longrightarrow>
    exec_step s (s\<lparr>exec_pc := EIdle, reply_queue := reply_queue s @ [i]\<rparr>)"
| exec_no_reply: "exec_pc s = EExecuted i \<Longrightarrow>
    exec_step s (with_call i (self_ref_update (\<lambda>_. False)) (s\<lparr>exec_pc := EIdle\<rparr>))"

text \<open>The engine of the caller, with the other branch of \<^verbatim>\<open>executeAndDispose\<close>.\<close>

inductive reply_step :: "'r op_sys \<Rightarrow> 'r op_sys \<Rightarrow> bool" where
  reply_take: "reply_pc s = RIdle \<Longrightarrow> reply_queue s = i # q \<Longrightarrow>
    reply_step s (s\<lparr>reply_queue := q, reply_pc := RGot i\<rparr>)"
| reply_dispose: "reply_pc s = RGot i \<Longrightarrow> executed (retv (calls s i)) \<Longrightarrow>
    reply_step s (with_call i (self_ref_update (\<lambda>_. False)) (s\<lparr>reply_pc := RIdle\<rparr>))"

inductive op_step :: "'r op_sys \<Rightarrow> 'r op_sys \<Rightarrow> bool" where
  by_sender: "send_step s t \<Longrightarrow> op_step s t"
| by_handle: "handle_step s t \<Longrightarrow> op_step s t"
| by_executor: "exec_step s t \<Longrightarrow> op_step s t"
| by_caller: "reply_step s t \<Longrightarrow> op_step s t"

section \<open>The invariant\<close>

text \<open>The pointers that are around: those that wait to be executed, and those of executed calls.\<close>

fun exec_pointer :: "exec_pc \<Rightarrow> nat multiset" where
  "exec_pointer (EGot i) = {#i#}"
| "exec_pointer _ = {#}"

fun executed_pointer :: "exec_pc \<Rightarrow> nat multiset" where
  "executed_pointer (EExecuted i) = {#i#}"
| "executed_pointer _ = {#}"

fun reply_pointer :: "reply_pc \<Rightarrow> nat multiset" where
  "reply_pointer (RGot i) = {#i#}"
| "reply_pointer RIdle = {#}"

definition waiting :: "'r op_sys \<Rightarrow> nat multiset" where
  "waiting s = mset (exec_queue s) + exec_pointer (exec_pc s)"

definition replied :: "'r op_sys \<Rightarrow> nat multiset" where
  "replied s = executed_pointer (exec_pc s) + mset (reply_queue s) + reply_pointer (reply_pc s)"

definition accepted :: "send_pc \<Rightarrow> bool" where
  "accepted q \<longleftrightarrow> q = Queued \<or> q = Kept \<or> q = Returned True"

definition outcomes :: "'r op_sys \<Rightarrow> nat \<Rightarrow> 'r option list" where
  "outcomes s i = map snd (filter (\<lambda>p. fst p = i) (runs s))"

text \<open>One call: how many pointers to it wait, how many are of the executed call, what its executions did.\<close>

definition call_ok :: "nat \<Rightarrow> nat \<Rightarrow> 'r option list \<Rightarrow> 'r op_call \<Rightarrow> bool" where
  "call_ok w r fs c \<longleftrightarrow>
     w + length fs = (if accepted (send_pc c) then 1 else 0) \<and> r \<le> length fs \<and>
     (0 < w + r \<longrightarrow> send_pc c = Queued \<or> self_ref c) \<and>
     retv c = (if fs = [] then rstore_new else rstore_exec (hd fs) rstore_new) \<and>
     (accepted (send_pc c) \<or> \<not> self_ref c \<and> handles c = 0)"

definition op_inv :: "'r op_sys \<Rightarrow> bool" where
  "op_inv s \<longleftrightarrow> (\<forall>i. call_ok (count (waiting s) i) (count (replied s) i) (outcomes s i) (calls s i))"

lemma rstore_simps [simp]:
  "executed (rstore_exec f st)" "\<not> executed rstore_new"
  by (auto simp: rstore_exec_def rstore_new_def split: option.split)

lemma op_init_inv: "op_init s \<Longrightarrow> op_inv s"
  by (simp add: op_init_def op_inv_def call_ok_def waiting_def replied_def outcomes_def call_new_def accepted_def)

lemma op_invI:
  assumes "op_inv s" and "\<And>j. j \<noteq> i \<Longrightarrow> calls t j = calls s j \<and> outcomes t j = outcomes s j \<and>
      count (waiting t) j = count (waiting s) j \<and> count (replied t) j = count (replied s) j"
    and "call_ok (count (waiting s) i) (count (replied s) i) (outcomes s i) (calls s i) \<Longrightarrow>
      call_ok (count (waiting t) i) (count (replied t) i) (outcomes t i) (calls t i)"
  shows "op_inv t"
  using assms unfolding op_inv_def by metis

named_theorems op_counts

lemmas [op_counts] = waiting_def replied_def outcomes_def

text \<open>What a step does to one call.\<close>

named_theorems call_steps

lemma call_ok_send [call_steps]:
  "call_ok w r fs c \<Longrightarrow> send_pc c = NotSent \<Longrightarrow> call_ok w r fs (send_pc_update (\<lambda>_. Cloned) c)"
  "call_ok w r fs c \<Longrightarrow> send_pc c = Cloned \<Longrightarrow> call_ok (Suc w) r fs (send_pc_update (\<lambda>_. Queued) c)"
  "call_ok w r fs c \<Longrightarrow> send_pc c = Cloned \<Longrightarrow> call_ok w r fs (send_pc_update (\<lambda>_. Returned False) c)"
  "call_ok w r fs c \<Longrightarrow> send_pc c = Queued \<Longrightarrow> call_ok w r fs (c\<lparr>self_ref := True, send_pc := Kept\<rparr>)"
  "call_ok w r fs c \<Longrightarrow> send_pc c = Kept \<Longrightarrow> call_ok w r fs (c\<lparr>handles := Suc (handles c), send_pc := Returned True\<rparr>)"
  by (auto simp: call_ok_def accepted_def)

lemma call_ok_handles [call_steps]:
  "call_ok w r fs c \<Longrightarrow> 0 < handles c \<Longrightarrow> call_ok w r fs (c\<lparr>handles := Suc (handles c)\<rparr>)"
  "call_ok w r fs c \<Longrightarrow> 0 < handles c \<Longrightarrow> call_ok w r fs (c\<lparr>handles := handles c - Suc 0\<rparr>)"
  by (auto simp: call_ok_def)

lemma call_ok_exec [call_steps]:
  "call_ok (Suc w) r fs c \<Longrightarrow> \<not> executed (retv c) \<Longrightarrow>
     call_ok w (Suc r) (fs @ [f]) (retv_update (rstore_exec f) c)"
  "call_ok (Suc w) r fs c \<Longrightarrow> executed (retv c) \<Longrightarrow> call_ok w r fs (self_ref_update (\<lambda>_. False) c)"
  "call_ok w (Suc r) fs c \<Longrightarrow> call_ok w r fs (self_ref_update (\<lambda>_. False) c)"
  by (cases fs; auto simp: call_ok_def accepted_def split: if_splits)+

lemma call_ok_fewer: "call_ok w (Suc r) fs c \<Longrightarrow> call_ok w r fs c"
  by (auto simp: call_ok_def)

lemma send_inv: "send_step s t \<Longrightarrow> op_inv s \<Longrightarrow> op_inv t"
proof (induction rule: send_step.induct)
  case (clone s i)
  show ?case by (rule op_invI [where s = s and i = i, OF clone.prems])
    (use clone.hyps in \<open>simp_all add: op_counts call_steps\<close>)
next
  case (enqueue s i)
  show ?case by (rule op_invI [where s = s and i = i, OF enqueue.prems])
    (use enqueue.hyps in \<open>simp_all add: op_counts call_steps\<close>)
next
  case (rejected s i)
  show ?case by (rule op_invI [where s = s and i = i, OF rejected.prems])
    (use rejected.hyps in \<open>simp_all add: op_counts call_steps\<close>)
next
  case (keep s i)
  show ?case by (rule op_invI [where s = s and i = i, OF keep.prems])
    (use keep.hyps in \<open>simp_all add: op_counts call_steps\<close>)
next
  case (return s i)
  show ?case by (rule op_invI [where s = s and i = i, OF return.prems])
    (use return.hyps in \<open>simp_all add: op_counts call_steps\<close>)
qed

lemma handle_inv: "handle_step s t \<Longrightarrow> op_inv s \<Longrightarrow> op_inv t"
proof (induction rule: handle_step.induct)
  case (copy_handle s i)
  show ?case by (rule op_invI [where s = s and i = i, OF copy_handle.prems])
    (use copy_handle.hyps in \<open>simp_all add: op_counts call_steps\<close>)
next
  case (drop_handle s i)
  show ?case by (rule op_invI [where s = s and i = i, OF drop_handle.prems])
    (use drop_handle.hyps in \<open>simp_all add: op_counts call_steps\<close>)
qed

lemma exec_inv: "exec_step s t \<Longrightarrow> op_inv s \<Longrightarrow> op_inv t"
proof (induction rule: exec_step.induct)
  case (exec_take s i q)
  show ?case by (rule op_invI [where s = s and i = i, OF exec_take.prems])
    (use exec_take.hyps in \<open>simp_all add: op_counts call_steps\<close>)
next
  case (exec_run s i f)
  show ?case by (rule op_invI [where s = s and i = i, OF exec_run.prems])
    (use exec_run.hyps in \<open>simp_all add: op_counts call_steps\<close>)
next
  case (exec_again s i)
  show ?case by (rule op_invI [where s = s and i = i, OF exec_again.prems])
    (use exec_again.hyps in \<open>simp_all add: op_counts call_steps\<close>)
next
  case (exec_reply s i)
  show ?case by (rule op_invI [where s = s and i = i, OF exec_reply.prems])
    (use exec_reply.hyps in \<open>simp_all add: op_counts call_steps\<close>)
next
  case (exec_no_reply s i)
  show ?case by (rule op_invI [where s = s and i = i, OF exec_no_reply.prems])
    (use exec_no_reply.hyps in \<open>simp_all add: op_counts call_steps\<close>)
qed

lemma reply_inv: "reply_step s t \<Longrightarrow> op_inv s \<Longrightarrow> op_inv t"
proof (induction rule: reply_step.induct)
  case (reply_take s i q)
  show ?case by (rule op_invI [where s = s and i = i, OF reply_take.prems])
    (use reply_take.hyps in \<open>simp_all add: op_counts call_steps\<close>)
next
  case (reply_dispose s i)
  show ?case by (rule op_invI [where s = s and i = i, OF reply_dispose.prems])
    (use reply_dispose.hyps in \<open>simp_all add: op_counts call_steps\<close>)
qed

lemma op_step_inv: "op_step s t \<Longrightarrow> op_inv s \<Longrightarrow> op_inv t"
  by (erule op_step.cases) (auto intro: send_inv handle_inv exec_inv reply_inv)

interpretation operation_calls: invariant_of op_init op_step op_inv
  by unfold_locales (auto intro: op_init_inv op_step_inv)

section \<open>Properties\<close>

text \<open>C8: Sending an operation is safe and happens once: however the thread that sends, the engines of both components
  and the owners of handles interleave, a pointer that an engine holds or has queued is to an object that exists; a
  call is executed at most once, and a call that was accepted has been executed or waits to be; and what a handle
  collects is the value that the execution returned or its exception, and that it is not ready if there was none.\<close>

theorem sent_calls_run_once:
  assumes "reachable op_init op_step s"
  shows "(i \<in># waiting s + replied s \<longrightarrow> call_alive (calls s i)) \<and> length (outcomes s i) \<le> 1 \<and>
    (send_pc (calls s i) = Returned True \<longrightarrow> outcomes s i \<noteq> [] \<or> i \<in># waiting s) \<and>
    (send_pc (calls s i) = Returned False \<longrightarrow> outcomes s i = [] \<and> i \<notin># waiting s + replied s) \<and>
    collectIfDone (retv (calls s i)) =
      (case outcomes s i of [] \<Rightarrow> Inr (SendNotReady, None)
       | f # _ \<Rightarrow> (case f of None \<Rightarrow> Inl () | Some v \<Rightarrow> Inr (SendSuccess, Some v)))"
proof -
  have "call_ok (count (waiting s) i) (count (replied s) i) (outcomes s i) (calls s i)"
    using operation_calls.reachable_inv [OF assms] by (simp add: op_inv_def)
  then show ?thesis
    by (cases "outcomes s i"; cases "hd (outcomes s i)")
      (auto simp: call_ok_def accepted_def call_alive_def local_ref_def collectIfDone_def rstore_exec_def rstore_new_def
        simp flip: count_greater_zero_iff split: if_splits)
qed

text \<open>Runs with a single call, whose operation returns 5.\<close>

definition one_call :: "nat op_call \<Rightarrow> nat list \<Rightarrow> nat list \<Rightarrow> exec_pc \<Rightarrow> reply_pc \<Rightarrow> (nat \<times> nat option) list \<Rightarrow> nat op_sys" where
  "one_call c eq rq ep rp rs =
     \<lparr>calls = (\<lambda>_. call_new)(0 := c), exec_queue = eq, reply_queue = rq, exec_pc = ep, reply_pc = rp, runs = rs\<rparr>"

definition a_call :: "send_pc \<Rightarrow> bool \<Rightarrow> nat \<Rightarrow> nat rstore \<Rightarrow> nat op_call" where
  "a_call q self h r = \<lparr>send_pc = q, self_ref = self, handles = h, retv = r\<rparr>"

abbreviation gives_5 :: "nat rstore" where
  "gives_5 \<equiv> rstore_exec (Some 5) rstore_new"

lemmas one_call_defs = one_call_def a_call_def

lemma queued_call: "reachable op_init op_step (one_call (a_call Queued False 0 rstore_new) [0] [] EIdle RIdle [])"
proof -
  have "reachable op_init op_step (one_call (a_call NotSent False 0 rstore_new) [] [] EIdle RIdle [])"
    by (intro reachable_init) (auto simp: op_init_def one_call_defs call_new_def)
  then have "reachable op_init op_step (one_call (a_call Cloned False 0 rstore_new) [] [] EIdle RIdle [])"
    by (rule reachable_step) (rule by_sender, insert clone [of "one_call (a_call NotSent False 0 rstore_new) [] [] EIdle RIdle []" 0],
      simp add: one_call_defs)
  then show ?thesis
    by (rule reachable_step) (rule by_sender, insert enqueue [of "one_call (a_call Cloned False 0 rstore_new) [] [] EIdle RIdle []" 0],
      simp add: one_call_defs)
qed

lemma call_moves:
  "exec_step (one_call (a_call q b h rstore_new) [0] [] EIdle RIdle [])
     (one_call (a_call q b h rstore_new) [] [] (EGot 0) RIdle [])"
  "exec_step (one_call (a_call q b h rstore_new) [] [] (EGot 0) RIdle [])
     (one_call (a_call q b h gives_5) [] [] (EExecuted 0) RIdle [(0, Some 5)])"
  "exec_step (one_call (a_call q b h gives_5) [] [] (EExecuted 0) RIdle rs)
     (one_call (a_call q False h gives_5) [] [] EIdle RIdle rs)"
  "send_step (one_call (a_call Queued b h r) eq rq ep rp rs) (one_call (a_call Kept True h r) eq rq ep rp rs)"
  "send_step (one_call (a_call Kept b h r) eq rq ep rp rs) (one_call (a_call (Returned True) b (Suc h) r) eq rq ep rp rs)"
  "handle_step (one_call (a_call q b (Suc h) r) eq rq ep rp rs) (one_call (a_call q b h r) eq rq ep rp rs)"
  subgoal using exec_take [of "one_call (a_call q b h rstore_new) [0] [] EIdle RIdle []" 0 "[]"] by (simp add: one_call_defs)
  subgoal using exec_run [of "one_call (a_call q b h rstore_new) [] [] (EGot 0) RIdle []" 0 "Some 5"] by (simp add: one_call_defs)
  subgoal using exec_no_reply [of "one_call (a_call q b h gives_5) [] [] (EExecuted 0) RIdle rs" 0] by (simp add: one_call_defs)
  subgoal using keep [of "one_call (a_call Queued b h r) eq rq ep rp rs" 0] by (simp add: one_call_defs)
  subgoal using return [of "one_call (a_call Kept b h r) eq rq ep rp rs" 0] by (simp add: one_call_defs)
  subgoal using drop_handle [of "one_call (a_call q b (Suc h) r) eq rq ep rp rs" 0] by (simp add: one_call_defs)
  done

lemma sent_calls_run_once_witness:
  "\<exists>s. reachable op_init op_step s \<and> send_pc (calls s 0) = Returned True \<and> outcomes s 0 = [Some (5 :: nat)] \<and>
    collectIfDone (retv (calls s 0)) = Inr (SendSuccess, Some 5)"
proof -
  let ?s = "one_call (a_call (Returned True) True (Suc 0) gives_5) [] [] (EExecuted 0) RIdle [(0, Some 5)]"
  have "reachable op_init op_step (one_call (a_call Kept True 0 rstore_new) [0] [] EIdle RIdle [])"
    using queued_call by (rule reachable_step) (rule by_sender, rule call_moves(4))
  then have "reachable op_init op_step (one_call (a_call (Returned True) True (Suc 0) rstore_new) [0] [] EIdle RIdle [])"
    by (rule reachable_step) (rule by_sender, rule call_moves(5))
  then have "reachable op_init op_step (one_call (a_call (Returned True) True (Suc 0) rstore_new) [] [] (EGot 0) RIdle [])"
    by (rule reachable_step) (rule by_executor, rule call_moves(1))
  then have r: "reachable op_init op_step ?s"
    by (rule reachable_step) (rule by_executor, rule call_moves(2))
  have o: "outcomes ?s 0 = [Some 5]" "send_pc (calls ?s 0) = Returned True" by (simp_all add: outcomes_def one_call_defs)
  with sent_calls_run_once [OF r, of 0] r show ?thesis by (intro exI [of _ ?s]) simp
qed

text \<open>If the executing engine is done with the call before the sender sets the object's reference to itself, nobody
  resets it: the object is never freed, though nothing points to it any more.\<close>

lemma early_reply_leaks:
  "\<exists>s :: nat op_sys. reachable op_init op_step s \<and> call_alive (calls s 0) \<and> handles (calls s 0) = 0 \<and>
    send_pc (calls s 0) = Returned True \<and> waiting s + replied s = {#}"
proof -
  have "reachable op_init op_step (one_call (a_call Queued False 0 rstore_new) [] [] (EGot 0) RIdle [])"
    using queued_call by (rule reachable_step) (rule by_executor, rule call_moves(1))
  then have "reachable op_init op_step (one_call (a_call Queued False 0 gives_5) [] [] (EExecuted 0) RIdle [(0, Some 5)])"
    by (rule reachable_step) (rule by_executor, rule call_moves(2))
  then have "reachable op_init op_step (one_call (a_call Queued False 0 gives_5) [] [] EIdle RIdle [(0, Some 5)])"
    by (rule reachable_step) (rule by_executor, rule call_moves(3))
  then have "reachable op_init op_step (one_call (a_call Kept True 0 gives_5) [] [] EIdle RIdle [(0, Some 5)])"
    by (rule reachable_step) (rule by_sender, rule call_moves(4))
  then have "reachable op_init op_step (one_call (a_call (Returned True) True (Suc 0) gives_5) [] [] EIdle RIdle [(0, Some 5)])"
    by (rule reachable_step) (rule by_sender, rule call_moves(5))
  then have r: "reachable op_init op_step (one_call (a_call (Returned True) True 0 gives_5) [] [] EIdle RIdle [(0, Some 5)])"
    by (rule reachable_step) (rule by_handle, rule call_moves(6))
  then show ?thesis
    by (intro exI [of _ "one_call (a_call (Returned True) True 0 gives_5) [] [] EIdle RIdle [(0, Some 5)]"])
      (simp add: one_call_defs call_alive_def waiting_def replied_def)
qed

end
