(* ===== verification/MessageWait.thy ===== *)
theory MessageWait
  imports OroPrelude
begin

text \<open>
  Waiting for messages to be processed (\<^verbatim>\<open>waitForMessages\<close> and \<^verbatim>\<open>processMessages\<close> of \<^verbatim>\<open>ExecutionEngine.cpp\<close>).
  A thread waits until a predicate holds on the condition variable \<^verbatim>\<open>msg_cond\<close> with the mutex \<^verbatim>\<open>msg_lock\<close>. There
  are two ways: a thread that is not the engine's sleeps until the engine has processed messages; the thread of the
  engine processes messages itself in between, and sleeps until other threads queue some. The tests of the
  predicate, the operations on the mutex and the condition variable, and the execution of a message are steps. A
  broadcast wakes the sleeping thread; no thread wakes by itself. The state of the thread that makes the predicate
  true is the parameter \<open>'e\<close>.
\<close>

section \<open>The waiting thread\<close>

datatype owner = Waiter | Other

datatype wait_pc =
    WStart              \<comment> \<open>first test of the predicate\<close>
  | WProcess            \<comment> \<open>processes messages itself\<close>
  | WLock
  | WTest               \<comment> \<open>holds the mutex\<close>
  | WWait               \<comment> \<open>has found the predicate false, about to wait\<close>
  | WSleep | WWoken
  | WAgain              \<comment> \<open>leaves the scope of the mutex\<close>
  | WReturned

record 'e wait_sys =
  lock :: "owner option"
  pred :: bool
  waiter :: wait_pc
  queue :: "bool list"        \<comment> \<open>the messages; true is the one that makes the predicate hold\<close>
  engine :: 'e

text \<open>\<^verbatim>\<open>waitForMessagesInternal\<close>.\<close>

inductive wait_step :: "'e wait_sys \<Rightarrow> 'e wait_sys \<Rightarrow> bool" where
  first_test: "waiter s = WStart \<Longrightarrow> wait_step s (s\<lparr>waiter := (if pred s then WReturned else WLock)\<rparr>)"
| take_lock: "waiter s = WLock \<Longrightarrow> lock s = None \<Longrightarrow> wait_step s (s\<lparr>lock := Some Waiter, waiter := WTest\<rparr>)"
| test_true: "waiter s = WTest \<Longrightarrow> pred s \<Longrightarrow> wait_step s (s\<lparr>lock := None, waiter := WReturned\<rparr>)"
| test_false: "waiter s = WTest \<Longrightarrow> \<not> pred s \<Longrightarrow> wait_step s (s\<lparr>waiter := WWait\<rparr>)"
| sleep: "waiter s = WWait \<Longrightarrow> wait_step s (s\<lparr>lock := None, waiter := WSleep\<rparr>)"
| wake: "waiter s = WWoken \<Longrightarrow> lock s = None \<Longrightarrow> wait_step s (s\<lparr>lock := Some Waiter, waiter := WTest\<rparr>)"

text \<open>\<^verbatim>\<open>waitAndProcessMessages\<close>. Its own messages do not make its predicate true.\<close>

inductive process_wait_step :: "'e wait_sys \<Rightarrow> 'e wait_sys \<Rightarrow> bool" where
  loop_test: "waiter s = WStart \<Longrightarrow> process_wait_step s (s\<lparr>waiter := (if pred s then WReturned else WProcess)\<rparr>)"
| own_messages: "waiter s = WProcess \<Longrightarrow> process_wait_step s (s\<lparr>queue := [], waiter := WLock\<rparr>)"
| own_lock: "waiter s = WLock \<Longrightarrow> lock s = None \<Longrightarrow> process_wait_step s (s\<lparr>lock := Some Waiter, waiter := WTest\<rparr>)"
| own_true: "waiter s = WTest \<Longrightarrow> pred s \<Longrightarrow> process_wait_step s (s\<lparr>lock := None, waiter := WReturned\<rparr>)"
| own_false: "waiter s = WTest \<Longrightarrow> \<not> pred s \<Longrightarrow> process_wait_step s (s\<lparr>waiter := WWait\<rparr>)"
| own_sleep: "waiter s = WWait \<Longrightarrow> process_wait_step s (s\<lparr>lock := None, waiter := WSleep\<rparr>)"
| own_wake: "waiter s = WWoken \<Longrightarrow> lock s = None \<Longrightarrow>
    process_wait_step s (s\<lparr>lock := Some Waiter, waiter := WAgain\<rparr>)"
| own_again: "waiter s = WAgain \<Longrightarrow> process_wait_step s (s\<lparr>lock := None, waiter := WStart\<rparr>)"

definition broadcast :: "wait_pc \<Rightarrow> wait_pc" where
  "broadcast w = (if w = WSleep then WWoken else w)"

section \<open>The engine processes messages\<close>

text \<open>\<^verbatim>\<open>processMessages\<close>, called in every step of the engine; the flag tells whether \<^verbatim>\<open>com\<close> is set.\<close>

datatype engine_pc =
    EIdle | ELoop bool
  | ERun bool                 \<comment> \<open>executes a message\<close>
  | ELock bool | EUnlock bool | EBroadcast

inductive engine_step :: "engine_pc wait_sys \<Rightarrow> engine_pc wait_sys \<Rightarrow> bool" where
  next_round: "engine s = EIdle \<Longrightarrow> engine_step s (s\<lparr>engine := ELoop False\<rparr>)"
| dequeue: "engine s = ELoop c \<Longrightarrow> queue s = m # q \<Longrightarrow> engine_step s (s\<lparr>queue := q, engine := ERun m\<rparr>)"
| run: "engine s = ERun m \<Longrightarrow> engine_step s (s\<lparr>pred := pred s \<or> m, engine := ELoop True\<rparr>)"
| empty: "engine s = ELoop c \<Longrightarrow> queue s = [] \<Longrightarrow> engine_step s (s\<lparr>engine := ELock c\<rparr>)"
| engine_lock: "engine s = ELock c \<Longrightarrow> lock s = None \<Longrightarrow>
    engine_step s (s\<lparr>lock := Some Other, engine := EUnlock c\<rparr>)"
| engine_unlock: "engine s = EUnlock c \<Longrightarrow>
    engine_step s (s\<lparr>lock := None, engine := (if c then EBroadcast else EIdle)\<rparr>)"
| engine_broadcast: "engine s = EBroadcast \<Longrightarrow>
    engine_step s (s\<lparr>waiter := broadcast (waiter s), engine := EIdle\<rparr>)"

definition wait_init :: "'e \<Rightarrow> 'e wait_sys \<Rightarrow> bool" where
  "wait_init e s \<longleftrightarrow> s = \<lparr>lock = None, pred = False, waiter = WStart, queue = [], engine = e\<rparr>"

text \<open>A thread waits for the engine, while others queue messages.\<close>

inductive foreign_step :: "engine_pc wait_sys \<Rightarrow> engine_pc wait_sys \<Rightarrow> bool" where
  by_waiter: "wait_step s t \<Longrightarrow> foreign_step s t"
| by_engine: "engine_step s t \<Longrightarrow> foreign_step s t"
| by_client: "foreign_step s (s\<lparr>queue := queue s @ [m]\<rparr>)"

text \<open>Where the engine will broadcast, and where it has not yet taken the mutex before.\<close>

fun before_lock :: "engine_pc \<Rightarrow> bool" where
  "before_lock (ELoop c) = c"
| "before_lock (ERun m) = True"
| "before_lock (ELock c) = c"
| "before_lock _ = False"

fun will_broadcast :: "engine_pc \<Rightarrow> bool" where
  "will_broadcast (EUnlock c) = c"
| "will_broadcast EBroadcast = True"
| "will_broadcast e = before_lock e"

fun engine_holds :: "engine_pc \<Rightarrow> bool" where
  "engine_holds (EUnlock c) = True"
| "engine_holds _ = False"

definition foreign_inv :: "engine_pc wait_sys \<Rightarrow> bool" where
  "foreign_inv s \<longleftrightarrow>
     (lock s = Some Waiter \<longleftrightarrow> waiter s = WTest \<or> waiter s = WWait) \<and>
     (lock s = Some Other \<longleftrightarrow> engine_holds (engine s)) \<and>
     (waiter s = WWait \<and> pred s \<longrightarrow> before_lock (engine s)) \<and>
     (waiter s = WSleep \<and> pred s \<longrightarrow> will_broadcast (engine s))"

lemma before_will: "before_lock e \<Longrightarrow> will_broadcast e"
  by (cases e) simp_all

lemma wait_inv: "wait_step s t \<Longrightarrow> foreign_inv s \<Longrightarrow> foreign_inv t"
  by (induction rule: wait_step.induct) (auto simp: foreign_inv_def intro: before_will)

lemma engine_inv: "engine_step s t \<Longrightarrow> foreign_inv s \<Longrightarrow> foreign_inv t"
  by (induction rule: engine_step.induct) (auto simp: foreign_inv_def broadcast_def split: if_splits)

interpretation foreign_wait: invariant_of "wait_init EIdle" foreign_step foreign_inv
proof
  show "wait_init EIdle s \<Longrightarrow> foreign_inv s" for s by (simp add: wait_init_def foreign_inv_def)
  show "foreign_inv t" if "foreign_inv s" "foreign_step s t" for s t
    using that(2,1) by cases (auto intro: wait_inv engine_inv, simp add: foreign_inv_def)
qed

text \<open>C17: A thread that waits for an engine is not forgotten: if it sleeps although its predicate holds, the engine
  is on its way to a broadcast, whatever messages are queued and however the two interleave. So when the
  engine has nothing to do, nobody sleeps whose predicate holds.\<close>

theorem foreign_wait_is_woken:
  assumes "reachable (wait_init EIdle) foreign_step s" and "waiter s = WSleep" and "pred s"
  shows "will_broadcast (engine s) \<and> engine s \<noteq> EIdle"
  using foreign_wait.reachable_inv [OF assms(1)] assms(2,3) by (auto simp: foreign_inv_def)

lemma foreign_wait_is_woken_witness:
  "\<exists>s. reachable (wait_init EIdle) foreign_step s \<and> waiter s = WSleep \<and> pred s \<and> will_broadcast (engine s)"
proof -
  let ?st = "\<lambda>l p w q e. \<lparr>lock = l, pred = p, waiter = w, queue = q, engine = e\<rparr>"
  let ?R = "reachable (wait_init EIdle) foreign_step"
  note [intro] = by_waiter by_engine
  have "?R (?st None False WStart [] EIdle)" by (intro reachable_init) (simp add: wait_init_def)
  then have "?R (?st None False WStart [True] EIdle)"
    by (rule reachable_step) (use by_client [of "?st None False WStart [] EIdle" True] in auto)
  then have "?R (?st None False WLock [True] EIdle)"
    by (rule reachable_step) (use first_test [of "?st None False WStart [True] EIdle"] in auto)
  then have "?R (?st (Some Waiter) False WTest [True] EIdle)"
    by (rule reachable_step) (use take_lock [of "?st None False WLock [True] EIdle"] in auto)
  then have "?R (?st (Some Waiter) False WWait [True] EIdle)"
    by (rule reachable_step) (use test_false [of "?st (Some Waiter) False WTest [True] EIdle"] in auto)
  then have "?R (?st None False WSleep [True] EIdle)"
    by (rule reachable_step) (use sleep [of "?st (Some Waiter) False WWait [True] EIdle"] in auto)
  then have "?R (?st None False WSleep [True] (ELoop False))"
    by (rule reachable_step) (use next_round [of "?st None False WSleep [True] EIdle"] in auto)
  then have "?R (?st None False WSleep [] (ERun True))"
    by (rule reachable_step) (use dequeue [of "?st None False WSleep [True] (ELoop False)"] in auto)
  then have r: "?R (?st None True WSleep [] (ELoop True))"
    by (rule reachable_step) (use run [of "?st None False WSleep [] (ERun True)" True] in auto)
  from foreign_wait_is_woken [OF r] r show ?thesis by (intro exI [of _ "?st None True WSleep [] (ELoop True)"]) simp
qed

section \<open>The engine waits for a reply\<close>

text \<open>Another component executes the operation that the engine waits for, and sends the reply with \<^verbatim>\<open>process\<close>, which
  does not take the mutex.\<close>

datatype sender_pc = SExecutes | SEnqueues | SBroadcasts | SDone

inductive sender_step :: "sender_pc wait_sys \<Rightarrow> sender_pc wait_sys \<Rightarrow> bool" where
  executes: "engine s = SExecutes \<Longrightarrow> sender_step s (s\<lparr>pred := True, engine := SEnqueues\<rparr>)"
| enqueues: "engine s = SEnqueues \<Longrightarrow> sender_step s (s\<lparr>queue := queue s @ [False], engine := SBroadcasts\<rparr>)"
| broadcasts: "engine s = SBroadcasts \<Longrightarrow>
    sender_step s (s\<lparr>waiter := broadcast (waiter s), engine := SDone\<rparr>)"

inductive reply_wait_step :: "sender_pc wait_sys \<Rightarrow> sender_pc wait_sys \<Rightarrow> bool" where
  by_own_engine: "process_wait_step s t \<Longrightarrow> reply_wait_step s t"
| by_other: "sender_step s t \<Longrightarrow> reply_wait_step s t"

inductive_cases process_wait_stepE: "process_wait_step s t"
inductive_cases sender_stepE: "sender_step s t"

text \<open>C40: A component that calls an operation of another can wait forever though the operation was
  executed: the reply can be queued and announced between its test and its wait. Then it sleeps with the
  predicate true and the reply in its queue, and no step of either component is possible.\<close>

theorem reply_can_be_missed:
  "\<exists>s. reachable (wait_init SExecutes) reply_wait_step s \<and> waiter s = WSleep \<and> pred s \<and> queue s = [False] \<and>
    engine s = SDone \<and> (\<forall>t. \<not> reply_wait_step s t)"
proof -
  let ?st = "\<lambda>l p w q e. \<lparr>lock = l, pred = p, waiter = w, queue = q, engine = e\<rparr>"
  let ?R = "reachable (wait_init SExecutes) reply_wait_step"
  note [intro] = by_own_engine by_other
  have "?R (?st None False WStart [] SExecutes)" by (intro reachable_init) (simp add: wait_init_def)
  then have "?R (?st None False WProcess [] SExecutes)"
    by (rule reachable_step) (use loop_test [of "?st None False WStart [] SExecutes"] in auto)
  then have "?R (?st None False WLock [] SExecutes)"
    by (rule reachable_step) (use own_messages [of "?st None False WProcess [] SExecutes"] in auto)
  then have "?R (?st (Some Waiter) False WTest [] SExecutes)"
    by (rule reachable_step) (use own_lock [of "?st None False WLock [] SExecutes"] in auto)
  then have "?R (?st (Some Waiter) False WWait [] SExecutes)"
    by (rule reachable_step) (use own_false [of "?st (Some Waiter) False WTest [] SExecutes"] in auto)
  then have "?R (?st (Some Waiter) True WWait [] SEnqueues)"
    by (rule reachable_step) (use executes [of "?st (Some Waiter) False WWait [] SExecutes"] in auto)
  then have "?R (?st (Some Waiter) True WWait [False] SBroadcasts)"
    by (rule reachable_step) (use enqueues [of "?st (Some Waiter) True WWait [] SEnqueues"] in auto)
  then have "?R (?st (Some Waiter) True WWait [False] SDone)"
    by (rule reachable_step) (use broadcasts [of "?st (Some Waiter) True WWait [False] SBroadcasts"] in \<open>auto simp: broadcast_def\<close>)
  then have r: "?R (?st None True WSleep [False] SDone)"
    by (rule reachable_step) (use own_sleep [of "?st (Some Waiter) True WWait [False] SDone"] in auto)
  moreover have "\<not> reply_wait_step (?st None True WSleep [False] SDone) t" for t
    by (auto elim!: reply_wait_step.cases process_wait_stepE sender_stepE)
  ultimately show ?thesis by (intro exI [of _ "?st None True WSleep [False] SDone"]) simp
qed

end
