(* ===== verification/ListLockFree.thy ===== *)
theory ListLockFree
  imports OroPrelude
begin

text \<open>
  \<^verbatim>\<open>ListLockFree\<close> (\<^verbatim>\<open>internal/ListLockFree.hpp\<close>) with \<open>T = MAX_THREADS\<close> threads that call its functions at the
  same time. A list is kept in one of many buffers, the one that \<^verbatim>\<open>active\<close> points to; a function that changes the
  list copies it into a free buffer and makes that the active one with a compare-and-swap. Buffers are numbered
  through all storages: the storage \<open>g\<close> that \<^verbatim>\<open>newStorage\<close> makes has the buffers from \<open>g * 2 * T\<close> on. A storage
  is never freed here; the counted references that free it are in the theory \<open>ListStorage\<close>.

  A thread makes one access to shared memory per step; a vector is copied element by element. A function that is
  called by a function that \<^verbatim>\<open>apply\<close> calls is a call of another thread of the model, since it runs while the outer
  call holds its buffer. \<open>log\<close>, \<open>lin\<close> and \<open>last_cas\<close> are histories and not part of the program: the operations in
  the order in which they take effect, the result of each thread's current operation if it has taken effect, and the
  thread that last changed \<^verbatim>\<open>active\<close>.
\<close>

section \<open>Operations and results\<close>

text \<open>\<open>AppendAll xs n\<close> has the variable \<^verbatim>\<open>towrite\<close>.\<close>

datatype 'a list_op =
    Append 'a | AppendAll "'a list" nat | Erase 'a | DeleteIf "'a \<Rightarrow> bool" | ClearList | Reserve nat
  | ListSize | ListEmpty | ListCapacity | Front | Back | Apply | FindIf "'a \<Rightarrow> bool" 'a

text \<open>\<open>Item None\<close> is an element that does not exist, \<open>Seen\<close> the elements that the function of \<^verbatim>\<open>apply\<close> was
  called with.\<close>

datatype 'a list_res = Truth bool | Number nat | Item "'a option" | Seen "'a list" | Finished

section \<open>The shared memory and the threads\<close>

datatype 'a list_pc =
    NoCall
  | GetBufs "'a list_op"                     \<comment> \<open>\<open>lockAndGetActive\<close>, with \<open>bufptr\<close> and \<open>orig\<close>\<close>
  | GetActive "'a list_op" nat
  | IncActive "'a list_op" nat nat
  | SameActive "'a list_op" nat nat
  | UndoActive "'a list_op" nat
  | Locked "'a list_op" nat nat
  | Scan "'a list_op" nat nat nat            \<comment> \<open>\<open>findEmptyBuf\<close>, with \<open>start\<close>\<close>
  | ScanBack "'a list_op" nat nat nat
  | Claimed "'a list_op" nat nat
  | Copying "'a list_op" nat nat nat bool    \<comment> \<open>from \<open>orig\<close> into the new buffer, has found something\<close>
  | Swap "'a list_op" nat nat
  | Retry1 "'a list_op" nat nat | Retry2 "'a list_op" nat
  | Drop1 "'a list_op" nat "'a list_res" | Drop2 "'a list_op" nat "'a list_res"
  | Quit1 "'a list_op" nat nat "'a list_res" | Quit2 "'a list_op" nat "'a list_res"
  | Release "'a list_op" nat "'a list_res"
  | Applying nat nat "'a list"
  | Finding "'a \<Rightarrow> bool" 'a nat nat
  | Found "'a \<Rightarrow> bool" 'a nat nat | FoundRead "'a \<Rightarrow> bool" 'a nat nat
  | TooSmall nat nat | NewStorage nat | SwitchBufs nat nat   \<comment> \<open>\<open>reserve\<close>\<close>
  | VGet nat nat | VInc nat nat nat | VSame nat nat nat | VUndo nat nat nat
  | VClear nat nat nat | VCopying nat nat nat nat | VSwap nat nat nat | VRetry nat nat nat
  | VAssert nat nat nat
  | Aborted nat
  | Return "'a list_op" "'a list_res"

record 'a list_sys =
  counts :: "nat \<Rightarrow> int"
  data :: "nat \<Rightarrow> 'a list"
  active :: nat
  bufs :: nat                \<comment> \<open>the current storage\<close>
  storages :: nat            \<comment> \<open>how many storages there are\<close>
  caps :: "nat \<Rightarrow> nat"
  reserving :: bool          \<comment> \<open>the mutex that the caller of \<open>reserve\<close> has to hold\<close>
  pcs :: "nat \<Rightarrow> 'a list_pc"
  log :: "('a list_op \<times> 'a list_res) list"
  lin :: "nat \<Rightarrow> 'a list_res option"
  last_cas :: "nat option"

definition list_init :: "nat \<Rightarrow> 'a list_sys \<Rightarrow> bool" where
  "list_init lsize s \<longleftrightarrow>
     s = \<lparr>counts = (\<lambda>_. - 1)(0 := 0), data = (\<lambda>_. []), active = 0, bufs = 0, storages = 1, caps = (\<lambda>_. lsize),
          reserving = False, pcs = (\<lambda>_. NoCall), log = [], lin = (\<lambda>_. None), last_cas = None\<rparr>"

text \<open>What a call that does not change the list returns, given the capacity and the list it has seen.\<close>

fun read_outcome :: "nat \<Rightarrow> 'a list_op \<Rightarrow> 'a list \<Rightarrow> 'a list_res option" where
  "read_outcome c (Append x) xs = (if length xs = c then Some (Truth False) else None)"
| "read_outcome c (AppendAll ys n) xs = (if length xs = c then Some (Number 0) else None)"
| "read_outcome c (Erase x) xs = (if x \<in> set xs then None else Some (Truth False))"
| "read_outcome c (DeleteIf p) xs = (if \<exists>x \<in> set xs. p x then None else Some (Truth False))"
| "read_outcome c ClearList xs = None"
| "read_outcome c (Reserve n) xs = (if n \<le> c then Some Finished else None)"
| "read_outcome c ListSize xs = Some (Number (length xs))"
| "read_outcome c ListEmpty xs = Some (Truth (xs = []))"
| "read_outcome c ListCapacity xs = Some (Number c)"
| "read_outcome c Front xs = Some (Item (if xs = [] then None else Some (hd xs)))"
| "read_outcome c Back xs = Some (Item (if xs = [] then None else Some (last xs)))"
| "read_outcome c Apply xs = Some (Seen xs)"
| "read_outcome c (FindIf p b) xs = (if \<exists>x \<in> set xs. p x then None else Some (Item (Some b)))"

text \<open>Whether an element is copied into the new buffer, and whether it was one to erase.\<close>

fun copies :: "'a list_op \<Rightarrow> bool \<Rightarrow> 'a \<Rightarrow> bool \<times> bool" where
  "copies (Erase y) found x = (if \<not> found \<and> x = y then (False, True) else (True, found))"
| "copies (DeleteIf p) found x = (\<not> p x, found \<or> p x)"
| "copies _ found x = (True, found)"

fun appended :: "'a list_op \<Rightarrow> 'a list" where
  "appended (Append x) = [x]"
| "appended (AppendAll ys n) = take n ys"
| "appended _ = []"

fun erases :: "'a list_op \<Rightarrow> bool" where
  "erases (Erase x) = True"
| "erases (DeleteIf p) = True"
| "erases _ = False"

fun clears :: "'a list_op \<Rightarrow> bool" where
  "clears ClearList = True"
| "clears _ = False"

fun changed :: "'a list_op \<Rightarrow> 'a list_res" where
  "changed (AppendAll ys n) = Number n"
| "changed ClearList = Finished"
| "changed (Reserve n) = Finished"
| "changed _ = Truth True"

text \<open>The body of a function once it has the list: where it goes on.\<close>

fun body :: "nat \<Rightarrow> 'a list_op \<Rightarrow> nat \<Rightarrow> nat \<Rightarrow> 'a list \<Rightarrow> nat \<Rightarrow> 'a list_pc" where
  "body c (Append x) g i xs start =
     (if length xs = c then Release (Append x) i (Truth False) else Scan (Append x) g i start)"
| "body c (AppendAll ys n) g i xs start =
     (if c - length xs = 0 then Release (AppendAll ys n) i (Number 0)
      else Scan (AppendAll ys (min n (c - length xs))) g i start)"
| "body c (Erase x) g i xs start = Scan (Erase x) g i start"
| "body c (DeleteIf p) g i xs start = Scan (DeleteIf p) g i start"
| "body c ClearList g i xs start = Scan ClearList g i start"
| "body c (Reserve n) g i xs start = (if n \<le> c then Release (Reserve n) i Finished else TooSmall n i)"
| "body c ListSize g i xs start = Release ListSize i (Number (length xs))"
| "body c ListEmpty g i xs start = Release ListEmpty i (Truth (xs = []))"
| "body c ListCapacity g i xs start = Release ListCapacity i (Number c)"
| "body c Front g i xs start = Release Front i (Item (if xs = [] then None else Some (hd xs)))"
| "body c Back g i xs start = Release Back i (Item (if xs = [] then None else Some (last xs)))"
| "body c Apply g i xs start = Applying i 0 []"
| "body c (FindIf p b) g i xs start = Finding p b i 0"

abbreviation pc_goto :: "nat \<Rightarrow> 'a list_pc \<Rightarrow> 'a list_sys \<Rightarrow> 'a list_sys" where
  "pc_goto t q s \<equiv> s\<lparr>pcs := (pcs s)(t := q)\<rparr>"

abbreviation ref_add :: "nat \<Rightarrow> int \<Rightarrow> 'a list_sys \<Rightarrow> 'a list_sys" where
  "ref_add i d s \<equiv> s\<lparr>counts := (counts s)(i := counts s i + d)\<rparr>"

text \<open>An operation takes effect.\<close>

abbreviation effect :: "nat \<Rightarrow> 'a list_op \<Rightarrow> 'a list_res \<Rightarrow> 'a list_sys \<Rightarrow> 'a list_sys" where
  "effect t p r s \<equiv> s\<lparr>log := log s @ [(p, r)], lin := (lin s)(t := Some r)\<rparr>"

section \<open>Steps\<close>

fun starts_with :: "'a list_op \<Rightarrow> bool" where
  "starts_with (AppendAll ys n) \<longleftrightarrow> n = length ys"
| "starts_with _ = True"

fun is_reserve :: "'a list_op \<Rightarrow> bool" where
  "is_reserve (Reserve n) = True"
| "is_reserve _ = False"

text \<open>\<^verbatim>\<open>lockAndGetActive\<close>; when its last test succeeds, a function that will not change the list takes effect.\<close>

inductive lock_step :: "nat \<Rightarrow> nat \<Rightarrow> 'a list_sys \<Rightarrow> 'a list_sys \<Rightarrow> bool" for T :: nat and t :: nat where
  call_op: "pcs s t = NoCall \<Longrightarrow> starts_with p \<Longrightarrow> is_reserve p \<longrightarrow> \<not> reserving s \<Longrightarrow>
    lock_step T t s (pc_goto t (GetBufs p) (s\<lparr>lin := (lin s)(t := None), reserving := reserving s \<or> is_reserve p\<rparr>))"
| get_bufs: "pcs s t = GetBufs p \<Longrightarrow> lock_step T t s (pc_goto t (GetActive p (bufs s)) s)"
| get_active: "pcs s t = GetActive p g \<Longrightarrow>
    lock_step T t s (pc_goto t (if active s div (2 * T) = g then IncActive p g (active s) else GetBufs p) s)"
| inc_active: "pcs s t = IncActive p g i \<Longrightarrow> lock_step T t s (pc_goto t (SameActive p g i) (ref_add i 1 s))"
| same_active: "pcs s t = SameActive p g i \<Longrightarrow> active s = i \<Longrightarrow> read_outcome (caps s g) p (data s i) = None \<Longrightarrow>
    lock_step T t s (pc_goto t (Locked p g i) s)"
| same_effect: "pcs s t = SameActive p g i \<Longrightarrow> active s = i \<Longrightarrow> read_outcome (caps s g) p (data s i) = Some r \<Longrightarrow>
    lock_step T t s (pc_goto t (Locked p g i) (effect t p r s))"
| not_same: "pcs s t = SameActive p g i \<Longrightarrow> active s \<noteq> i \<Longrightarrow> lock_step T t s (pc_goto t (UndoActive p i) s)"
| undo_active: "pcs s t = UndoActive p i \<Longrightarrow> lock_step T t s (pc_goto t (GetBufs p) (ref_add i (- 1) s))"
| body_step: "pcs s t = Locked p g i \<Longrightarrow>
    lock_step T t s (pc_goto t (body (caps s g) p g i (data s i) (g * (2 * T))) s)"

text \<open>\<^verbatim>\<open>findEmptyBuf\<close>, the copying, and the compare-and-swap with what follows it.\<close>

inductive change_step :: "nat \<Rightarrow> nat \<Rightarrow> 'a list_sys \<Rightarrow> 'a list_sys \<Rightarrow> bool" for T :: nat and t :: nat where
  scan_free: "pcs s t = Scan p g i k \<Longrightarrow> counts s k + 1 = 0 \<Longrightarrow>
    change_step T t s (pc_goto t (Claimed p i k) (ref_add k 1 s))"
| scan_used: "pcs s t = Scan p g i k \<Longrightarrow> counts s k + 1 \<noteq> 0 \<Longrightarrow>
    change_step T t s (pc_goto t (ScanBack p g i k) (ref_add k 1 s))"
| scan_back: "pcs s t = ScanBack p g i k \<Longrightarrow>
    change_step T t s
      (pc_goto t (Scan p g i (if k + 1 = g * (2 * T) + 2 * T then g * (2 * T) else k + 1)) (ref_add k (- 1) s))"
| claim_clear: "pcs s t = Claimed p i k \<Longrightarrow>
    change_step T t s
      (pc_goto t (if clears p then Swap p i k else Copying p i k 0 False) (s\<lparr>data := (data s)(k := [])\<rparr>))"
| copy_one: "pcs s t = Copying p i k n found \<Longrightarrow> n < length (data s i) \<Longrightarrow>
    copies p found (data s i ! n) = (keep, found') \<Longrightarrow>
    change_step T t s
      (pc_goto t (Copying p i k (n + 1) found')
        (s\<lparr>data := (data s)(k := data s k @ (if keep then [data s i ! n] else []))\<rparr>))"
| copy_end: "pcs s t = Copying p i k n found \<Longrightarrow> n = length (data s i) \<Longrightarrow> erases p \<longrightarrow> found \<Longrightarrow>
    change_step T t s (pc_goto t (Swap p i k) (s\<lparr>data := (data s)(k := data s k @ appended p)\<rparr>))"
| copy_quit: "pcs s t = Copying p i k n found \<Longrightarrow> n = length (data s i) \<Longrightarrow> erases p \<Longrightarrow> \<not> found \<Longrightarrow>
    change_step T t s (pc_goto t (Quit1 p i k (Truth False)) s)"
| swap_done: "pcs s t = Swap p i k \<Longrightarrow> active s = i \<Longrightarrow>
    change_step T t s
      (pc_goto t (Drop1 p i (changed p)) (effect t p (changed p) (s\<lparr>active := k, last_cas := Some t\<rparr>)))"
| swap_failed: "pcs s t = Swap p i k \<Longrightarrow> active s \<noteq> i \<Longrightarrow> change_step T t s (pc_goto t (Retry1 p i k) s)"
| retry_orig: "pcs s t = Retry1 p i k \<Longrightarrow> change_step T t s (pc_goto t (Retry2 p k) (ref_add i (- 1) s))"
| retry_buf: "pcs s t = Retry2 p k \<Longrightarrow> change_step T t s (pc_goto t (GetBufs p) (ref_add k (- 1) s))"
| drop_lock: "pcs s t = Drop1 p i r \<Longrightarrow> change_step T t s (pc_goto t (Drop2 p i r) (ref_add i (- 1) s))"
| drop_active: "pcs s t = Drop2 p i r \<Longrightarrow> change_step T t s (pc_goto t (Return p r) (ref_add i (- 1) s))"
| quit_orig: "pcs s t = Quit1 p i k r \<Longrightarrow> change_step T t s (pc_goto t (Quit2 p k r) (ref_add i (- 1) s))"
| quit_buf: "pcs s t = Quit2 p k r \<Longrightarrow> change_step T t s (pc_goto t (Return p r) (ref_add k (- 1) s))"

text \<open>The functions that only read. \<^verbatim>\<open>find_if\<close> reads the element that it returns when it has given the buffer
  back.\<close>

inductive read_step :: "nat \<Rightarrow> 'a list_sys \<Rightarrow> 'a list_sys \<Rightarrow> bool" for t :: nat where
  release: "pcs s t = Release p i r \<Longrightarrow> read_step t s (pc_goto t (Return p r) (ref_add i (- 1) s))"
| apply_one: "pcs s t = Applying i n xs \<Longrightarrow> n < length (data s i) \<Longrightarrow>
    read_step t s (pc_goto t (Applying i (n + 1) (xs @ [data s i ! n])) s)"
| apply_done: "pcs s t = Applying i n xs \<Longrightarrow> n = length (data s i) \<Longrightarrow>
    read_step t s (pc_goto t (Release Apply i (Seen xs)) s)"
| find_next: "pcs s t = Finding p b i n \<Longrightarrow> n < length (data s i) \<Longrightarrow> \<not> p (data s i ! n) \<Longrightarrow>
    read_step t s (pc_goto t (Finding p b i (n + 1)) s)"
| find_one: "pcs s t = Finding p b i n \<Longrightarrow> n < length (data s i) \<Longrightarrow> p (data s i ! n) \<Longrightarrow>
    read_step t s (pc_goto t (Found p b i n) s)"
| find_none: "pcs s t = Finding p b i n \<Longrightarrow> n = length (data s i) \<Longrightarrow>
    read_step t s (pc_goto t (Release (FindIf p b) i (Item (Some b))) s)"
| found_release: "pcs s t = Found p b i n \<Longrightarrow> read_step t s (pc_goto t (FoundRead p b i n) (ref_add i (- 1) s))"
| found_read: "pcs s t = FoundRead p b i n \<Longrightarrow>
    read_step t s
      (pc_goto t (Return (FindIf p b) (Item (if n < length (data s i) then Some (data s i ! n) else None))) s)"
| return: "pcs s t = Return p r \<Longrightarrow>
    read_step t s (pc_goto t NoCall (s\<lparr>reserving := reserving s \<and> \<not> is_reserve p\<rparr>))"

text \<open>\<^verbatim>\<open>reserve\<close>, which has its own \<^verbatim>\<open>lockAndGetActive\<close>.\<close>

inductive reserve_step :: "nat \<Rightarrow> nat \<Rightarrow> 'a list_sys \<Rightarrow> 'a list_sys \<Rightarrow> bool" for T :: nat and t :: nat where
  too_small: "pcs s t = TooSmall n i \<Longrightarrow> reserve_step T t s (pc_goto t (NewStorage n) (ref_add i (- 1) s))"
| new_storage: "pcs s t = NewStorage n \<Longrightarrow> k = storages s * (2 * T) \<Longrightarrow>
    reserve_step T t s
      (pc_goto t (SwitchBufs n k)
        (ref_add k 1 (s\<lparr>caps := (caps s)(storages s := n), storages := storages s + 1\<rparr>)))"
| switch_bufs: "pcs s t = SwitchBufs n k \<Longrightarrow> reserve_step T t s (pc_goto t (VGet n k) (s\<lparr>bufs := k div (2 * T)\<rparr>))"
| v_get: "pcs s t = VGet n k \<Longrightarrow> reserve_step T t s (pc_goto t (VInc n k (active s)) s)"
| v_inc: "pcs s t = VInc n k i \<Longrightarrow> reserve_step T t s (pc_goto t (VSame n k i) (ref_add i 1 s))"
| v_same: "pcs s t = VSame n k i \<Longrightarrow>
    reserve_step T t s (pc_goto t (if active s = i then VClear n k i else VUndo n k i) s)"
| v_undo: "pcs s t = VUndo n k i \<Longrightarrow> reserve_step T t s (pc_goto t (VGet n k) (ref_add i (- 1) s))"
| v_clear: "pcs s t = VClear n k i \<Longrightarrow> reserve_step T t s (pc_goto t (VCopying n k i 0) (s\<lparr>data := (data s)(k := [])\<rparr>))"
| v_copy: "pcs s t = VCopying n k i m \<Longrightarrow> m < length (data s i) \<Longrightarrow>
    reserve_step T t s (pc_goto t (VCopying n k i (m + 1)) (s\<lparr>data := (data s)(k := data s k @ [data s i ! m])\<rparr>))"
| v_copied: "pcs s t = VCopying n k i m \<Longrightarrow> m = length (data s i) \<Longrightarrow> reserve_step T t s (pc_goto t (VSwap n k i) s)"
| v_swap: "pcs s t = VSwap n k i \<Longrightarrow> active s = i \<Longrightarrow>
    reserve_step T t s
      (pc_goto t (VAssert n k i) (effect t (Reserve n) Finished (s\<lparr>active := k, last_cas := Some t\<rparr>)))"
| v_failed: "pcs s t = VSwap n k i \<Longrightarrow> active s \<noteq> i \<Longrightarrow> reserve_step T t s (pc_goto t (VRetry n k i) s)"
| v_retry: "pcs s t = VRetry n k i \<Longrightarrow> reserve_step T t s (pc_goto t (VGet n k) (ref_add i (- 1) s))"
| v_assert: "pcs s t = VAssert n k i \<Longrightarrow>
    reserve_step T t s (pc_goto t (if active s div (2 * T) = bufs s then Drop1 (Reserve n) i Finished else Aborted i) s)"

inductive list_step :: "nat \<Rightarrow> 'a list_sys \<Rightarrow> 'a list_sys \<Rightarrow> bool" for T :: nat where
  by_lock: "t < T \<Longrightarrow> lock_step T t s s' \<Longrightarrow> list_step T s s'"
| by_change: "t < T \<Longrightarrow> change_step T t s s' \<Longrightarrow> list_step T s s'"
| by_read: "t < T \<Longrightarrow> read_step t s s' \<Longrightarrow> list_step T s s'"
| by_reserve: "t < T \<Longrightarrow> reserve_step T t s s' \<Longrightarrow> list_step T s s'"

end
