(* ===== verification/ListLockFreeConc.thy ===== *)
theory ListLockFreeConc
  imports ListLockFree
begin

text \<open>
  What all interleavings of \<^verbatim>\<open>ListLockFree\<close> keep: the counter of a buffer counts the threads that use it, a buffer
  that is being written is used by nobody else, and a buffer that is read does not change. From that follow that
  the operations take effect one after the other on a list, and that there are enough buffers.
\<close>

section \<open>What a thread holds\<close>

fun refs_of :: "'a list_pc \<Rightarrow> nat list" where
  "refs_of (SameActive p g i) = [i]"
| "refs_of (UndoActive p i) = [i]"
| "refs_of (Locked p g i) = [i]"
| "refs_of (Scan p g i k) = [i]"
| "refs_of (ScanBack p g i k) = [i, k]"
| "refs_of (Claimed p i k) = [i, k]"
| "refs_of (Copying p i k n f) = [i, k]"
| "refs_of (Swap p i k) = [i, k]"
| "refs_of (Retry1 p i k) = [i, k]"
| "refs_of (Retry2 p k) = [k]"
| "refs_of (Drop1 p i r) = [i, i]"
| "refs_of (Drop2 p i r) = [i]"
| "refs_of (Quit1 p i k r) = [i, k]"
| "refs_of (Quit2 p k r) = [k]"
| "refs_of (Release p i r) = [i]"
| "refs_of (Applying i n xs) = [i]"
| "refs_of (Finding p b i n) = [i]"
| "refs_of (Found p b i n) = [i]"
| "refs_of (TooSmall n i) = [i]"
| "refs_of (SwitchBufs n k) = [k]"
| "refs_of (VGet n k) = [k]"
| "refs_of (VInc n k i) = [k]"
| "refs_of (VSame n k i) = [k, i]"
| "refs_of (VUndo n k i) = [k, i]"
| "refs_of (VClear n k i) = [k, i]"
| "refs_of (VCopying n k i m) = [k, i]"
| "refs_of (VSwap n k i) = [k, i]"
| "refs_of (VRetry n k i) = [k, i]"
| "refs_of (VAssert n k i) = [i, i]"
| "refs_of (Aborted i) = [i, i]"
| "refs_of _ = []"

text \<open>The buffer that it writes, the one that it reads, and the one that it has found active.\<close>

fun claim_of :: "'a list_pc \<Rightarrow> nat option" where
  "claim_of (Claimed p i k) = Some k"
| "claim_of (Copying p i k n f) = Some k"
| "claim_of (Swap p i k) = Some k"
| "claim_of (SwitchBufs n k) = Some k"
| "claim_of (VGet n k) = Some k"
| "claim_of (VInc n k i) = Some k"
| "claim_of (VSame n k i) = Some k"
| "claim_of (VUndo n k i) = Some k"
| "claim_of (VClear n k i) = Some k"
| "claim_of (VCopying n k i m) = Some k"
| "claim_of (VSwap n k i) = Some k"
| "claim_of (VRetry n k i) = Some k"
| "claim_of _ = None"

fun lock_of :: "'a list_pc \<Rightarrow> nat option" where
  "lock_of (Locked p g i) = Some i"
| "lock_of (Scan p g i k) = Some i"
| "lock_of (ScanBack p g i k) = Some i"
| "lock_of (Claimed p i k) = Some i"
| "lock_of (Copying p i k n f) = Some i"
| "lock_of (Swap p i k) = Some i"
| "lock_of (Applying i n xs) = Some i"
| "lock_of (Finding p b i n) = Some i"
| "lock_of (VClear n k i) = Some i"
| "lock_of (VCopying n k i m) = Some i"
| "lock_of (VSwap n k i) = Some i"
| "lock_of _ = None"

fun orig_of :: "'a list_pc \<Rightarrow> nat option" where
  "orig_of (IncActive p g i) = Some i"
| "orig_of (SameActive p g i) = Some i"
| "orig_of (UndoActive p i) = Some i"
| "orig_of (Retry1 p i k) = Some i"
| "orig_of (Quit1 p i k r) = Some i"
| "orig_of (VInc n k i) = Some i"
| "orig_of (VSame n k i) = Some i"
| "orig_of (VUndo n k i) = Some i"
| "orig_of (VRetry n k i) = Some i"
| "orig_of q = lock_of q"

definition held :: "nat \<Rightarrow> (nat \<Rightarrow> 'a list_pc) \<Rightarrow> nat \<Rightarrow> int" where
  "held T g k = (\<Sum>u<T. int (count_list (refs_of (g u)) k))"

lemma held_goto:
  assumes "t < T"
  shows "held T (g(t := q)) k = held T g k - int (count_list (refs_of (g t)) k) + int (count_list (refs_of q) k)"
proof -
  have "(\<Sum>u\<in>{..<T} - {t}. int (count_list (refs_of ((g(t := q)) u)) k)) = (\<Sum>u\<in>{..<T} - {t}. int (count_list (refs_of (g u)) k))"
    by (rule sum.cong) auto
  then show ?thesis using assms
    by (simp add: held_def sum.remove [of "{..<T}" t])
qed

lemma refs_held: "t < T \<Longrightarrow> held T g k \<ge> int (count_list (refs_of (g t)) k)"
  unfolding held_def by (rule member_le_sum) auto

lemma held_ge_0: "0 \<le> held T g k"
  by (simp add: held_def sum_nonneg)

definition refs_inv :: "nat \<Rightarrow> 'a list_sys \<Rightarrow> bool" where
  "refs_inv T s \<longleftrightarrow> (\<forall>k. counts s k = of_bool (k = active s) + held T (pcs s) k - 1)"

lemma free_unused:
  assumes "refs_inv T s" and "counts s k + 1 = 0"
  shows "k \<noteq> active s" and "t < T \<Longrightarrow> k \<notin> set (refs_of (pcs s t))"
proof -
  have e: "of_bool (k = active s) + held T (pcs s) k = 0" using assms by (simp add: refs_inv_def)
  show "k \<noteq> active s" using e held_ge_0 [of T "pcs s" k] by auto
  assume "t < T"
  then have "int (count_list (refs_of (pcs s t)) k) \<le> 0"
    using refs_held [of t T "pcs s" k] e by (cases "k = active s") simp_all
  then show "k \<notin> set (refs_of (pcs s t))" by (simp add: count_list_0_iff)
qed

lemma claim_ref: "claim_of q = Some k \<Longrightarrow> k \<in> set (refs_of q)"
  by (cases q) simp_all

lemma lock_ref: "lock_of q = Some k \<Longrightarrow> k \<in> set (refs_of q)"
  by (cases q) simp_all

lemma body_simps [simp]:
  "refs_of (body c p g i xs k) = [i]" "claim_of (body c p g i xs k) = None"
  "lock_of (body c p g i xs k) = None \<or> lock_of (body c p g i xs k) = Some i"
  by (cases p; simp)+

lemma refs_step: "list_step T s s' \<Longrightarrow> refs_inv T s \<Longrightarrow> refs_inv T s'"
proof (induction rule: list_step.induct)
  case (by_lock t s s')
  from by_lock(2,1,3) show ?case by induction (auto simp: refs_inv_def held_goto)
next
  case (by_change t s s')
  from by_change(2,1,3) show ?case by induction (auto simp: refs_inv_def held_goto)
next
  case (by_read t s s')
  from by_read(2,1,3) show ?case by induction (auto simp: refs_inv_def held_goto)
next
  case (by_reserve t s s')
  from by_reserve(2,1,3) show ?case by induction (auto simp: refs_inv_def held_goto)
qed

section \<open>The list as a sequential object\<close>

text \<open>What an operation with a result does to a capacity and a list; \<open>None\<close> when it cannot have the result. An
  \<^verbatim>\<open>append\<close> of several elements may append fewer than fit, but not none.\<close>

fun list_spec :: "'a list_op \<Rightarrow> 'a list_res \<Rightarrow> nat \<times> 'a list \<Rightarrow> (nat \<times> 'a list) option" where
  "list_spec (Append x) r (c, xs) =
     (if r = Truth (length xs < c) then Some (c, if length xs < c then xs @ [x] else xs) else None)"
| "list_spec (AppendAll ys m) r (c, xs) =
     (case r of
        Number n \<Rightarrow>
          if n \<le> length ys \<and> n \<le> c - length xs \<and> (n = 0 \<longrightarrow> ys = [] \<or> length xs = c) then Some (c, xs @ take n ys)
          else None
      | _ \<Rightarrow> None)"
| "list_spec (Erase x) r (c, xs) = (if r = Truth (x \<in> set xs) then Some (c, remove1 x xs) else None)"
| "list_spec (DeleteIf p) r (c, xs) = (if r = Truth (\<exists>x \<in> set xs. p x) then Some (c, filter (\<lambda>x. \<not> p x) xs) else None)"
| "list_spec ClearList r (c, xs) = (if r = Finished then Some (c, []) else None)"
| "list_spec (Reserve n) r (c, xs) = (if r = Finished then Some (max c n, xs) else None)"
| "list_spec (FindIf p b) r (c, xs) =
     (if (\<forall>x \<in> set xs. \<not> p x) \<and> r = Item (Some b) then Some (c, xs) else None)"
| "list_spec p r (c, xs) = (if Some r = read_outcome c p xs then Some (c, xs) else None)"

fun list_runs :: "('a list_op \<times> 'a list_res) list \<Rightarrow> nat \<times> 'a list \<Rightarrow> (nat \<times> 'a list) option" where
  "list_runs [] a = Some a"
| "list_runs ((p, r) # l) a = (case list_spec p r a of None \<Rightarrow> None | Some b \<Rightarrow> list_runs l b)"

lemma list_runs_snoc [simp]:
  "list_runs (l @ [(p, r)]) a = (case list_runs l a of None \<Rightarrow> None | Some b \<Rightarrow> list_spec p r b)"
  by (induction l a rule: list_runs.induct) (auto split: option.split)

lemma outcome_spec:
  assumes "read_outcome c p xs = Some r" and "length xs \<le> c"
  shows "list_spec p r (c, xs) = Some (c, xs)"
  using assms by (cases p) (auto simp: remove1_idem split: if_splits)

text \<open>The element by element copy.\<close>

fun copied :: "'a list_op \<Rightarrow> bool \<Rightarrow> 'a list \<Rightarrow> 'a list" where
  "copied p f [] = []"
| "copied p f (x # xs) = (if fst (copies p f x) then [x] else []) @ copied p (snd (copies p f x)) xs"

fun found_in :: "'a list_op \<Rightarrow> bool \<Rightarrow> 'a list \<Rightarrow> bool" where
  "found_in p f [] = f"
| "found_in p f (x # xs) = found_in p (snd (copies p f x)) xs"

lemma copied_snoc:
  "copied p f (xs @ [x]) = copied p f xs @ (if fst (copies p (found_in p f xs) x) then [x] else [])"
  "found_in p f (xs @ [x]) = snd (copies p (found_in p f xs) x)"
  by (induction xs arbitrary: f) auto

lemma copied_erase:
  "copied (Erase y) True xs = xs" "found_in (Erase y) True xs"
  "copied (Erase y) False xs = remove1 y xs" "found_in (Erase y) False xs \<longleftrightarrow> y \<in> set xs"
proof -
  show t: "copied (Erase y) True xs = xs" "found_in (Erase y) True xs" for xs by (induction xs) auto
  show "copied (Erase y) False xs = remove1 y xs" "found_in (Erase y) False xs \<longleftrightarrow> y \<in> set xs"
    by (induction xs) (auto simp: t)
qed

lemma copied_delete:
  "copied (DeleteIf p) f xs = filter (\<lambda>x. \<not> p x) xs" "found_in (DeleteIf p) f xs \<longleftrightarrow> f \<or> (\<exists>x \<in> set xs. p x)"
  by (induction xs arbitrary: f) auto

lemma copied_all: "\<not> erases p \<Longrightarrow> copied p f xs = xs"
  by (induction xs arbitrary: f) (cases p; simp)+

fun room :: "nat \<Rightarrow> 'a list_op \<Rightarrow> 'a list \<Rightarrow> bool" where
  "room c (Append x) xs \<longleftrightarrow> length xs < c"
| "room c (AppendAll ys n) xs \<longleftrightarrow> length xs < c \<and> length xs + n \<le> c"
| "room c (Erase x) xs = True"
| "room c (DeleteIf p) xs = True"
| "room c ClearList xs = True"
| "room c _ xs = False"

fun op_ok :: "'a list_op \<Rightarrow> bool" where
  "op_ok (AppendAll ys n) \<longleftrightarrow> n \<le> length ys \<and> (n = 0 \<longrightarrow> ys = [])"
| "op_ok _ = True"

lemma starts_ok: "starts_with p \<Longrightarrow> op_ok p"
  by (cases p) auto

lemma copied_spec:
  assumes "room c p xs" and "op_ok p" and "\<not> clears p" and "erases p \<longrightarrow> found_in p False xs"
  shows "read_outcome c p xs = None" and "length xs \<le> c \<Longrightarrow>
      list_spec p (changed p) (c, xs) = Some (c, copied p False xs @ appended p)"
    and "length xs \<le> c \<Longrightarrow> length (copied p False xs @ appended p) \<le> c"
  using assms by (cases p; auto simp: copied_erase copied_delete copied_all length_remove1
      intro: le_trans [OF length_filter_le])+

lemma clear_spec: "clears p \<Longrightarrow> list_spec p (changed p) (c, xs) = Some (c, [])"
  by (cases p) auto

end
