(* ===== verification/ListLinear.thy ===== *)
theory ListLinear
  imports ListLockFreeConc
begin

text \<open>
  The operations of \<^verbatim>\<open>ListLockFree\<close> take effect one after the other. \<open>thread_ok\<close> is what a thread knows at each
  place of its function; another thread's steps leave it true, because a buffer that is locked or claimed is not
  written by others (\<open>excl_inv\<close>), and only \<^verbatim>\<open>reserve\<close> changes the storage.
\<close>

section \<open>The invariant\<close>

definition excl_inv :: "nat \<Rightarrow> 'a list_sys \<Rightarrow> bool" where
  "excl_inv T s \<longleftrightarrow>
     (\<forall>t<T. \<forall>k. claim_of (pcs s t) = Some k \<longrightarrow> k \<noteq> active s \<and> (\<forall>u<T. lock_of (pcs s u) \<noteq> Some k) \<and>
        (\<forall>u<T. u \<noteq> t \<longrightarrow> claim_of (pcs s u) \<noteq> Some k))"

definition fresh_inv :: "nat \<Rightarrow> 'a list_sys \<Rightarrow> bool" where
  "fresh_inv T s \<longleftrightarrow> (\<forall>k. storages s \<le> k div (2 * T) \<longrightarrow> counts s k = - 1) \<and> bufs s < storages s"

text \<open>Who is inside \<^verbatim>\<open>reserve\<close>, and has switched \<^verbatim>\<open>bufs\<close> but not yet \<^verbatim>\<open>active\<close>.\<close>

fun switching :: "'a list_pc \<Rightarrow> bool" where
  "switching (VGet n k) = True"
| "switching (VInc n k i) = True"
| "switching (VSame n k i) = True"
| "switching (VUndo n k i) = True"
| "switching (VClear n k i) = True"
| "switching (VCopying n k i m) = True"
| "switching (VSwap n k i) = True"
| "switching (VRetry n k i) = True"
| "switching _ = False"

fun reserves :: "'a list_pc \<Rightarrow> bool" where
  "reserves (GetBufs p) = is_reserve p"
| "reserves (GetActive p g) = is_reserve p"
| "reserves (IncActive p g i) = is_reserve p"
| "reserves (SameActive p g i) = is_reserve p"
| "reserves (UndoActive p i) = is_reserve p"
| "reserves (Locked p g i) = is_reserve p"
| "reserves (Scan p g i k) = is_reserve p"
| "reserves (ScanBack p g i k) = is_reserve p"
| "reserves (Claimed p i k) = is_reserve p"
| "reserves (Copying p i k n f) = is_reserve p"
| "reserves (Swap p i k) = is_reserve p"
| "reserves (Retry1 p i k) = is_reserve p"
| "reserves (Retry2 p k) = is_reserve p"
| "reserves (Drop1 p i r) = is_reserve p"
| "reserves (Drop2 p i r) = is_reserve p"
| "reserves (Quit1 p i k r) = is_reserve p"
| "reserves (Quit2 p k r) = is_reserve p"
| "reserves (Release p i r) = is_reserve p"
| "reserves (Return p r) = is_reserve p"
| "reserves (TooSmall n i) = True"
| "reserves (NewStorage n) = True"
| "reserves (SwitchBufs n k) = True"
| "reserves (VAssert n k i) = True"
| "reserves (Aborted i) = True"
| "reserves q = switching q"

definition reserve_inv :: "nat \<Rightarrow> 'a list_sys \<Rightarrow> bool" where
  "reserve_inv T s \<longleftrightarrow>
     (\<forall>t<T. reserves (pcs s t) \<longrightarrow> reserving s \<and> (\<forall>u<T. reserves (pcs s u) \<longrightarrow> u = t)) \<and>
     ((\<forall>t<T. \<not> switching (pcs s t)) \<longrightarrow> active s div (2 * T) = bufs s)"

fun finds :: "'a list_op \<Rightarrow> bool" where
  "finds (FindIf p b) = True"
| "finds _ = False"

text \<open>What a thread knows between its first look at the list and the compare-and-swap.\<close>

definition seen_ok :: "nat \<Rightarrow> 'a list_sys \<Rightarrow> 'a list_res option \<Rightarrow> 'a list_op \<Rightarrow> nat \<Rightarrow> nat \<Rightarrow> bool" where
  "seen_ok T s l p i k \<longleftrightarrow>
     op_ok p \<and> k div (2 * T) = i div (2 * T) \<and> i div (2 * T) < storages s \<and>
     length (data s i) \<le> caps s (i div (2 * T)) \<and> room (caps s (i div (2 * T))) p (data s i) \<and>
     l = read_outcome (caps s (i div (2 * T))) p (data s i)"

definition switch_ok :: "nat \<Rightarrow> 'a list_sys \<Rightarrow> 'a list_res option \<Rightarrow> nat \<Rightarrow> nat \<Rightarrow> bool" where
  "switch_ok T s l n k \<longleftrightarrow>
     l = None \<and> k div (2 * T) = bufs s \<and> bufs s < storages s \<and> caps s (bufs s) = n \<and> caps s (active s div (2 * T)) < n"

fun thread_ok :: "nat \<Rightarrow> 'a list_sys \<Rightarrow> 'a list_res option \<Rightarrow> 'a list_pc \<Rightarrow> bool" where
  "thread_ok T s l (GetBufs p) \<longleftrightarrow> op_ok p \<and> l = None"
| "thread_ok T s l (GetActive p g) \<longleftrightarrow> op_ok p \<and> l = None \<and> g < storages s \<and> (is_reserve p \<longrightarrow> g = bufs s)"
| "thread_ok T s l (IncActive p g i) \<longleftrightarrow>
     op_ok p \<and> l = None \<and> i div (2 * T) = g \<and> g < storages s \<and> (is_reserve p \<longrightarrow> g = bufs s)"
| "thread_ok T s l (SameActive p g i) \<longleftrightarrow>
     op_ok p \<and> l = None \<and> i div (2 * T) = g \<and> g < storages s \<and> (is_reserve p \<longrightarrow> g = bufs s)"
| "thread_ok T s l (UndoActive p i) \<longleftrightarrow> op_ok p \<and> l = None"
| "thread_ok T s l (Locked p g i) \<longleftrightarrow>
     op_ok p \<and> i div (2 * T) = g \<and> g < storages s \<and> (is_reserve p \<longrightarrow> g = bufs s) \<and>
     length (data s i) \<le> caps s g \<and> l = read_outcome (caps s g) p (data s i)"
| "thread_ok T s l (Scan p g i k) \<longleftrightarrow> i div (2 * T) = g \<and> seen_ok T s l p i k"
| "thread_ok T s l (ScanBack p g i k) \<longleftrightarrow> i div (2 * T) = g \<and> seen_ok T s l p i k"
| "thread_ok T s l (Claimed p i k) \<longleftrightarrow> seen_ok T s l p i k"
| "thread_ok T s l (Copying p i k n f) \<longleftrightarrow>
     seen_ok T s l p i k \<and> \<not> clears p \<and> n \<le> length (data s i) \<and> data s k = copied p False (take n (data s i)) \<and>
     f = found_in p False (take n (data s i))"
| "thread_ok T s l (Swap p i k) \<longleftrightarrow>
     op_ok p \<and> \<not> is_reserve p \<and> l = None \<and> k div (2 * T) = i div (2 * T) \<and> i div (2 * T) < storages s \<and>
     list_spec p (changed p) (caps s (i div (2 * T)), data s i) = Some (caps s (i div (2 * T)), data s k) \<and>
     length (data s k) \<le> caps s (i div (2 * T))"
| "thread_ok T s l (Retry1 p i k) \<longleftrightarrow> op_ok p \<and> l = None \<and> \<not> is_reserve p"
| "thread_ok T s l (Retry2 p k) \<longleftrightarrow> op_ok p \<and> l = None \<and> \<not> is_reserve p"
| "thread_ok T s l (Drop1 p i r) \<longleftrightarrow> l = Some r"
| "thread_ok T s l (Drop2 p i r) \<longleftrightarrow> l = Some r"
| "thread_ok T s l (Quit1 p i k r) \<longleftrightarrow> l = Some r"
| "thread_ok T s l (Quit2 p k r) \<longleftrightarrow> l = Some r"
| "thread_ok T s l (Release p i r) \<longleftrightarrow> l = Some r"
| "thread_ok T s l (Applying i n xs) \<longleftrightarrow>
     n \<le> length (data s i) \<and> xs = take n (data s i) \<and> l = Some (Seen (data s i))"
| "thread_ok T s l (Finding p b i n) \<longleftrightarrow>
     n \<le> length (data s i) \<and> (\<forall>x \<in> set (take n (data s i)). \<not> p x) \<and> l = read_outcome 0 (FindIf p b) (data s i)"
| "thread_ok T s l (Return p r) \<longleftrightarrow> (if finds p \<and> l = None then True else l = Some r)"
| "thread_ok T s l (TooSmall n i) \<longleftrightarrow> l = None \<and> caps s (bufs s) < n"
| "thread_ok T s l (NewStorage n) \<longleftrightarrow> l = None \<and> caps s (bufs s) < n"
| "thread_ok T s l (SwitchBufs n k) \<longleftrightarrow>
     l = None \<and> caps s (bufs s) < n \<and> k div (2 * T) < storages s \<and> caps s (k div (2 * T)) = n"
| "thread_ok T s l (VGet n k) \<longleftrightarrow> switch_ok T s l n k"
| "thread_ok T s l (VInc n k i) \<longleftrightarrow> switch_ok T s l n k \<and> i div (2 * T) < storages s"
| "thread_ok T s l (VSame n k i) \<longleftrightarrow> switch_ok T s l n k"
| "thread_ok T s l (VUndo n k i) \<longleftrightarrow> switch_ok T s l n k"
| "thread_ok T s l (VClear n k i) \<longleftrightarrow> switch_ok T s l n k"
| "thread_ok T s l (VCopying n k i m) \<longleftrightarrow> switch_ok T s l n k \<and> m \<le> length (data s i) \<and> data s k = take m (data s i)"
| "thread_ok T s l (VSwap n k i) \<longleftrightarrow> switch_ok T s l n k \<and> data s k = data s i"
| "thread_ok T s l (VRetry n k i) \<longleftrightarrow> switch_ok T s l n k"
| "thread_ok T s l (VAssert n k i) \<longleftrightarrow> l = Some Finished \<and> active s div (2 * T) = bufs s"
| "thread_ok T s l (Aborted i) = False"
| "thread_ok T s l (Found p b i n) \<longleftrightarrow> l = None"
| "thread_ok T s l (FoundRead p b i n) \<longleftrightarrow> l = None"
| "thread_ok T s l NoCall = True"

definition contents :: "nat \<Rightarrow> 'a list_sys \<Rightarrow> nat \<times> 'a list" where
  "contents T s = (caps s (active s div (2 * T)), data s (active s))"

definition list_inv :: "nat \<Rightarrow> nat \<Rightarrow> 'a list_sys \<Rightarrow> bool" where
  "list_inv T lsize s \<longleftrightarrow>
     refs_inv T s \<and> excl_inv T s \<and> fresh_inv T s \<and> reserve_inv T s \<and> (\<forall>t<T. thread_ok T s (lin s t) (pcs s t)) \<and>
     length (data s (active s)) \<le> caps s (active s div (2 * T)) \<and> list_runs (log s) (lsize, []) = Some (contents T s)"

lemma held_fresh:
  assumes "refs_inv T s" and "fresh_inv T s" and "t < T" and "k \<in> set (refs_of (pcs s t))"
  shows "k div (2 * T) < storages s"
proof (rule ccontr)
  assume "\<not> k div (2 * T) < storages s"
  then have "counts s k + 1 = 0" using assms(2) by (simp add: fresh_inv_def)
  with assms show False using free_unused(2) by metis
qed

lemma active_fresh: "refs_inv T s \<Longrightarrow> fresh_inv T s \<Longrightarrow> active s div (2 * T) < storages s"
  using free_unused(1) [of T s "active s"] by (auto simp: fresh_inv_def) (metis add.left_inverse not_less)

section \<open>Steps of another thread\<close>

text \<open>What the steps of another thread leave alone.\<close>

definition unhurt :: "nat \<Rightarrow> 'a list_pc \<Rightarrow> 'a list_sys \<Rightarrow> 'a list_sys \<Rightarrow> bool" where
  "unhurt T q s s' \<longleftrightarrow>
     (\<forall>k. claim_of q = Some k \<or> lock_of q = Some k \<longrightarrow> data s' k = data s k) \<and> storages s \<le> storages s' \<and>
     (\<forall>g < storages s. caps s' g = caps s g) \<and>
     (reserves q \<longrightarrow> bufs s' = bufs s \<and> active s' div (2 * T) = active s div (2 * T))"

lemma thread_ok_unhurt:
  assumes "thread_ok T s l q" and "unhurt T q s s'" and "bufs s < storages s" and "active s div (2 * T) < storages s"
  shows "thread_ok T s' l q"
  using assms by (cases q) (auto simp: unhurt_def seen_ok_def switch_ok_def split: if_splits)

lemma excl_goto:
  assumes "excl_inv T s" and "t < T" and "pcs s' = (pcs s)(t := q)"
    and claim: "\<And>k. claim_of q = Some k \<Longrightarrow>
      claim_of (pcs s t) = Some k \<or> k \<noteq> active s \<and> (\<forall>u<T. k \<notin> set (refs_of (pcs s u)))"
    and lock: "\<And>i. lock_of q = Some i \<Longrightarrow> lock_of (pcs s t) = Some i \<or> i = active s"
    and act: "active s' = active s \<or> claim_of (pcs s t) = Some (active s') \<and> claim_of q = None"
  shows "excl_inv T s'"
proof -
  have old: "k \<noteq> active s" "u < T \<Longrightarrow> lock_of (pcs s u) \<noteq> Some k" "u < T \<Longrightarrow> u \<noteq> w \<Longrightarrow> claim_of (pcs s u) \<noteq> Some k"
    if "claim_of (pcs s w) = Some k" "w < T" for u w k
    using assms(1) that unfolding excl_inv_def by blast+
  have new: "k \<noteq> active s'" "u < T \<Longrightarrow> lock_of (((pcs s)(t := q)) u) \<noteq> Some k"
    "u < T \<Longrightarrow> u \<noteq> w \<Longrightarrow> claim_of (((pcs s)(t := q)) u) \<noteq> Some k"
    if c: "claim_of (((pcs s)(t := q)) w) = Some k" and w: "w < T" for u w k
  proof -
    have k: "claim_of (pcs s w) = Some k \<or> w = t \<and> k \<noteq> active s \<and> (\<forall>u<T. k \<notin> set (refs_of (pcs s u)))"
      using c claim by (cases "w = t") simp_all
    have ka: "k \<noteq> active s" using k old(1) w by blast
    show "k \<noteq> active s'"
    proof (cases "active s' = active s")
      case False
      with act have a: "claim_of (pcs s t) = Some (active s')" "claim_of q = None" by simp_all
      with c have "w \<noteq> t" by auto
      with k a(1) old(3) [OF a(1) assms(2) w] show ?thesis by auto
    qed (use ka in simp)
    show "lock_of (((pcs s)(t := q)) u) \<noteq> Some k" if u: "u < T"
    proof
      assume l: "lock_of (((pcs s)(t := q)) u) = Some k"
      then have "lock_of (pcs s u) = Some k \<or> k = active s" using lock by (cases "u = t") auto
      with ka have l: "lock_of (pcs s u) = Some k" by blast
      with k old(2) [of w k u] w u lock_ref show False by blast
    qed
    show "claim_of (((pcs s)(t := q)) u) \<noteq> Some k" if u: "u < T" "u \<noteq> w"
    proof
      assume l: "claim_of (((pcs s)(t := q)) u) = Some k"
      then have "claim_of (pcs s u) = Some k \<or> u = t \<and> (\<forall>u<T. k \<notin> set (refs_of (pcs s u)))"
        using claim by (cases "u = t") auto
      with k u w old(3) claim_ref show False by metis
    qed
  qed
  then show ?thesis using assms(3) unfolding excl_inv_def by metis
qed

lemma body_lock: "lock_of (body c p g i xs k) = Some j \<Longrightarrow> j = i"
  using body_simps(3) [of c p g i xs k] by auto

lemma excl_lock: "lock_step T t s s' \<Longrightarrow> t < T \<Longrightarrow> excl_inv T s \<Longrightarrow> excl_inv T s'"
  by (induction rule: lock_step.induct; erule excl_goto; (simp; fail)?) (auto dest!: body_lock split: if_splits)

lemma excl_change: "change_step T t s s' \<Longrightarrow> t < T \<Longrightarrow> refs_inv T s \<Longrightarrow> excl_inv T s \<Longrightarrow> excl_inv T s'"
proof (induction rule: change_step.induct)
  case (scan_free s p g i k)
  from scan_free(2,4) have "k \<noteq> active s" "\<forall>u<T. k \<notin> set (refs_of (pcs s u))" using free_unused by blast+
  with scan_free show ?case by (intro excl_goto [OF scan_free(5,3)]) auto
qed (erule (1) excl_goto, simp (no_asm), (auto split: if_splits)[3])+

lemma excl_read: "read_step t s s' \<Longrightarrow> t < T \<Longrightarrow> excl_inv T s \<Longrightarrow> excl_inv T s'"
  by (induction rule: read_step.induct; erule excl_goto) (auto split: if_splits)

lemma excl_reserve:
  "reserve_step T t s s' \<Longrightarrow> t < T \<Longrightarrow> refs_inv T s \<Longrightarrow> fresh_inv T s \<Longrightarrow> excl_inv T s \<Longrightarrow> excl_inv T s'"
proof (induction rule: reserve_step.induct)
  case (new_storage s n k)
  then have "counts s k + 1 = 0" by (simp add: fresh_inv_def)
  with new_storage(4) have "k \<noteq> active s" "\<forall>u<T. k \<notin> set (refs_of (pcs s u))" using free_unused by blast+
  with new_storage show ?case by (intro excl_goto [OF new_storage(6,3)]) auto
qed (erule (1) excl_goto, simp (no_asm), (auto split: if_splits)[3])+

section \<open>Storages and \<open>reserve\<close>\<close>

lemma fresh_goto:
  assumes "refs_inv T s" "fresh_inv T s" "t < T" and "counts s' = (counts s)(i := x)"
    and "i \<in> set (refs_of (pcs s t)) \<or> i div (2 * T) < storages s" and "storages s' = storages s" "bufs s' = bufs s"
  shows "fresh_inv T s'"
proof -
  have "i div (2 * T) < storages s" using assms(5) held_fresh [OF assms(1-3)] by blast
  then show ?thesis using assms(2,4,6,7) by (auto simp: fresh_inv_def)
qed

lemma fresh_lock:
  "lock_step T t s s' \<Longrightarrow> t < T \<Longrightarrow> refs_inv T s \<Longrightarrow> fresh_inv T s \<Longrightarrow> thread_ok T s (lin s t) (pcs s t) \<Longrightarrow> fresh_inv T s'"
  by (induction rule: lock_step.induct)
    (simp_all add: fresh_inv_def, auto dest: held_fresh [unfolded fresh_inv_def])

lemma fresh_change:
  "change_step T t s s' \<Longrightarrow> t < T \<Longrightarrow> refs_inv T s \<Longrightarrow> fresh_inv T s \<Longrightarrow> thread_ok T s (lin s t) (pcs s t) \<Longrightarrow> fresh_inv T s'"
proof (induction rule: change_step.induct)
  case (scan_free s p g i k)
  then show ?case by (intro fresh_goto [OF scan_free(4,5,3)]) (auto simp: seen_ok_def)
next
  case (scan_used s p g i k)
  then show ?case by (intro fresh_goto [OF scan_used(4,5,3)]) (auto simp: seen_ok_def)
qed ((simp add: fresh_inv_def; fail) |
  (rule fresh_goto, assumption, assumption, assumption, simp (no_asm), simp, simp (no_asm), simp (no_asm)))+

lemma fresh_read:
  "read_step t s s' \<Longrightarrow> t < T \<Longrightarrow> refs_inv T s \<Longrightarrow> fresh_inv T s \<Longrightarrow> fresh_inv T s'"
  by (induction rule: read_step.induct)
    ((simp add: fresh_inv_def; fail) |
      (rule fresh_goto, assumption, assumption, assumption, simp (no_asm), simp, simp (no_asm), simp (no_asm)))+

lemma fresh_reserve:
  "reserve_step T t s s' \<Longrightarrow> t < T \<Longrightarrow> refs_inv T s \<Longrightarrow> fresh_inv T s \<Longrightarrow> thread_ok T s (lin s t) (pcs s t) \<Longrightarrow> fresh_inv T s'"
proof (induction rule: reserve_step.induct)
  case (new_storage s n k)
  then show ?case by (auto simp: fresh_inv_def)
next
  case (v_inc s n k i)
  then show ?case by (intro fresh_goto [OF v_inc(3,4,2)]) auto
qed ((simp add: fresh_inv_def; fail) |
  (rule fresh_goto, assumption, assumption, assumption, simp (no_asm), simp, simp (no_asm), simp (no_asm)))+

lemma reserve_goto:
  assumes "reserve_inv T s" and "t < T" and "pcs s' = (pcs s)(t := q)"
    and "reserves q \<longrightarrow> reserves (pcs s t) \<and> (reserving s \<longrightarrow> reserving s') \<or> \<not> reserving s \<and> reserving s'"
    and "reserving s \<longrightarrow> reserving s' \<or> reserves (pcs s t) \<and> \<not> reserves q"
    and "switching q \<or> active s' div (2 * T) = bufs s' \<or>
      active s' div (2 * T) = active s div (2 * T) \<and> bufs s' = bufs s \<and> \<not> switching (pcs s t)"
  shows "reserve_inv T s'"
proof -
  have one: "reserving s \<and> (\<forall>u<T. reserves (pcs s u) \<longrightarrow> u = w)" if "reserves (pcs s w)" "w < T" for w
    using assms(1) that by (auto simp: reserve_inv_def)
  have "reserving s' \<and> (\<forall>u<T. reserves (pcs s' u) \<longrightarrow> u = w)" if w: "reserves (pcs s' w)" "w < T" for w
  proof (cases "w = t")
    case True
    with w assms(3) have q: "reserves q" by simp
    have "u = t" if u: "u < T" "reserves (pcs s' u)" for u
    proof (rule ccontr)
      assume "u \<noteq> t"
      with u assms(3) have "reserves (pcs s u)" by simp
      with one [of u] u(1) q assms(2,4) have "u = t" by blast
      with \<open>u \<noteq> t\<close> show False by simp
    qed
    moreover have "reserving s'" using q assms(2,4) one [of t] by blast
    ultimately show ?thesis using True by blast
  next
    case False
    with w assms(3) have r: "reserves (pcs s w)" by simp
    from one [OF this w(2)] False assms(2) have t: "reserving s" "\<not> reserves (pcs s t)" by auto
    with assms(4,5) have "\<not> reserves q" "reserving s'" by blast+
    moreover have "u = w" if u: "u < T" "reserves (pcs s' u)" for u
    proof -
      have "u \<noteq> t" using u(2) assms(3) \<open>\<not> reserves q\<close> by auto
      with u assms(3) have "reserves (pcs s u)" by simp
      with one [OF r w(2)] u(1) show ?thesis by blast
    qed
    ultimately show ?thesis by blast
  qed
  moreover have "active s' div (2 * T) = bufs s'" if n: "\<forall>u<T. \<not> switching (pcs s' u)"
  proof -
    have "\<not> switching q" using n assms(2,3) by auto
    moreover have "active s div (2 * T) = bufs s" if "\<not> switching (pcs s t)"
    proof -
      have "\<not> switching (pcs s u)" if "u < T" for u using n that \<open>\<not> switching (pcs s t)\<close> assms(3) by (cases "u = t") auto
      with assms(1) show ?thesis by (auto simp: reserve_inv_def)
    qed
    ultimately show ?thesis using assms(6) by auto
  qed
  ultimately show ?thesis by (auto simp: reserve_inv_def)
qed

lemma reserves_body [simp]: "reserves (body c p g i xs k) \<longleftrightarrow> is_reserve p"
  "\<not> switching (body c p g i xs k)"
  by (cases p; simp)+

lemma reserve_lock: "lock_step T t s s' \<Longrightarrow> t < T \<Longrightarrow> reserve_inv T s \<Longrightarrow> reserve_inv T s'"
  by (induction rule: lock_step.induct; erule (1) reserve_goto, simp (no_asm); auto split: if_splits)

lemma reserve_change:
  "change_step T t s s' \<Longrightarrow> t < T \<Longrightarrow> reserve_inv T s \<Longrightarrow> thread_ok T s (lin s t) (pcs s t) \<Longrightarrow> reserve_inv T s'"
  by (induction rule: change_step.induct; erule (1) reserve_goto, simp (no_asm);
      auto simp: seen_ok_def split: if_splits)

lemma reserve_read: "read_step t s s' \<Longrightarrow> t < T \<Longrightarrow> reserve_inv T s \<Longrightarrow> reserve_inv T s'"
  by (induction rule: read_step.induct; erule (1) reserve_goto, simp (no_asm); auto split: if_splits)

lemma reserve_reserve:
  "reserve_step T t s s' \<Longrightarrow> t < T \<Longrightarrow> reserve_inv T s \<Longrightarrow> thread_ok T s (lin s t) (pcs s t) \<Longrightarrow> reserve_inv T s'"
  by (induction rule: reserve_step.induct; erule (1) reserve_goto, simp (no_asm);
      auto simp: switch_ok_def split: if_splits)

section \<open>What the threads know\<close>

lemma unhurt_goto:
  assumes "excl_inv T s" "reserve_inv T s" "t < T" "u < T" "u \<noteq> t"
    and "data s' = data s \<or> (\<exists>k x. data s' = (data s)(k := x) \<and> claim_of (pcs s t) = Some k)"
    and "storages s \<le> storages s'" and "\<forall>g < storages s. caps s' g = caps s g"
    and "reserves (pcs s t) \<or> bufs s' = bufs s \<and> active s' div (2 * T) = active s div (2 * T)"
  shows "unhurt T (pcs s u) s s'"
proof -
  have "data s' k = data s k" if k: "claim_of (pcs s u) = Some k \<or> lock_of (pcs s u) = Some k" for k
  proof (cases "claim_of (pcs s t) = Some k")
    case True
    with assms(1,3-5) have "lock_of (pcs s u) \<noteq> Some k" "claim_of (pcs s u) \<noteq> Some k"
      unfolding excl_inv_def by blast+
    with k show ?thesis by blast
  qed (use assms(6) in auto)
  moreover have "\<not> reserves (pcs s u)" if "reserves (pcs s t)"
    using assms(2-5) that unfolding reserve_inv_def by blast
  ultimately show ?thesis using assms(7-9) by (auto simp: unhurt_def)
qed

lemma unhurt_lock:
  "lock_step T t s s' \<Longrightarrow> excl_inv T s \<Longrightarrow> reserve_inv T s \<Longrightarrow> t < T \<Longrightarrow> u < T \<Longrightarrow> u \<noteq> t \<Longrightarrow>
     unhurt T (pcs s u) s s' \<and> pcs s' u = pcs s u \<and> lin s' u = lin s u"
  by (induction rule: lock_step.induct; intro conjI; (rule unhurt_goto, assumption+)?; simp)

lemma unhurt_change:
  "change_step T t s s' \<Longrightarrow> excl_inv T s \<Longrightarrow> reserve_inv T s \<Longrightarrow> t < T \<Longrightarrow> u < T \<Longrightarrow> u \<noteq> t \<Longrightarrow>
     thread_ok T s (lin s t) (pcs s t) \<Longrightarrow>
     unhurt T (pcs s u) s s' \<and> pcs s' u = pcs s u \<and> lin s' u = lin s u"
  by (induction rule: change_step.induct; intro conjI; (rule unhurt_goto, assumption+)?; auto)

lemma unhurt_read:
  "read_step t s s' \<Longrightarrow> excl_inv T s \<Longrightarrow> reserve_inv T s \<Longrightarrow> t < T \<Longrightarrow> u < T \<Longrightarrow> u \<noteq> t \<Longrightarrow>
     unhurt T (pcs s u) s s' \<and> pcs s' u = pcs s u \<and> lin s' u = lin s u"
  by (induction rule: read_step.induct; intro conjI; (rule unhurt_goto, assumption+)?; simp)

lemma unhurt_reserve:
  "reserve_step T t s s' \<Longrightarrow> excl_inv T s \<Longrightarrow> reserve_inv T s \<Longrightarrow> t < T \<Longrightarrow> u < T \<Longrightarrow> u \<noteq> t \<Longrightarrow>
     unhurt T (pcs s u) s s' \<and> pcs s' u = pcs s u \<and> lin s' u = lin s u"
  by (induction rule: reserve_step.induct; intro conjI; (rule unhurt_goto, assumption+)?; auto)

lemma thread_ok_frame [simp]:
  "thread_ok T (s\<lparr>pcs := f\<rparr>) l q = thread_ok T s l q" "thread_ok T (s\<lparr>counts := c\<rparr>) l q = thread_ok T s l q"
  by (cases q; simp add: seen_ok_def switch_ok_def)+

lemma body_ok:
  assumes "thread_ok T s (lin s t) (Locked p g i)" and "0 < T"
  shows "thread_ok T s (lin s t) (body (caps s g) p g i (data s i) (g * (2 * T)))"
  using assms by (cases p) (auto simp: seen_ok_def)

lemma own_lock:
  "lock_step T t s s' \<Longrightarrow> t < T \<Longrightarrow> thread_ok T s (lin s t) (pcs s t) \<Longrightarrow> bufs s < storages s \<Longrightarrow>
     length (data s (active s)) \<le> caps s (active s div (2 * T)) \<Longrightarrow> thread_ok T s' (lin s' t) (pcs s' t)"
proof (induction rule: lock_step.induct)
  case (body_step s p g i)
  then have "thread_ok T s (lin s t) (body (caps s g) p g i (data s i) (g * (2 * T)))" by (intro body_ok) simp_all
  then show ?case by simp
qed (auto dest: starts_ok split: if_splits)

lemma claim_not_lock: "excl_inv T s \<Longrightarrow> t < T \<Longrightarrow> claim_of (pcs s t) = Some k \<Longrightarrow> lock_of (pcs s t) = Some i \<Longrightarrow> i \<noteq> k"
  by (auto simp: excl_inv_def)

lemma next_buffer:
  assumes "k div b = (g :: nat)" and "0 < b"
  shows "(if k + 1 = g * b + b then g * b else k + 1) div b = g"
proof (cases "k + 1 = g * b + b")
  case False
  have k: "k = g * b + k mod b" "k mod b < b" using assms div_mult_mod_eq [of k b] by simp_all
  have "(k + 1) div b = g"
  proof (rule div_nat_eqI)
    show "b * g \<le> k + 1" using k(1) by (simp add: mult.commute)
    have "k + 1 < g * b + b" using False k by linarith
    then show "k + 1 < b * Suc g" by (simp add: mult.commute)
  qed
  with False show ?thesis by simp
qed (use assms in simp)

lemma own_copy:
  assumes "thread_ok T s l (Copying p i k n f)" "i \<noteq> k" "n < length (data s i)" "copies p f (data s i ! n) = (keep, f')"
  shows "thread_ok T (s\<lparr>data := (data s)(k := data s k @ (if keep then [data s i ! n] else []))\<rparr>) l (Copying p i k (n + 1) f')"
proof -
  have t: "take (Suc n) (data s i) = take n (data s i) @ [data s i ! n]" using assms(3) by (rule take_Suc_conv_app_nth)
  from assms show ?thesis by (simp add: seen_ok_def t copied_snoc)
qed

lemma own_copied:
  assumes "thread_ok T s l (Copying p i k (length (data s i)) f)" "i \<noteq> k" "erases p \<longrightarrow> f"
  shows "thread_ok T (s\<lparr>data := (data s)(k := data s k @ appended p)\<rparr>) l (Swap p i k)"
proof -
  let ?c = "caps s (i div (2 * T))"
  have a: "room ?c p (data s i)" "op_ok p" "\<not> clears p" "erases p \<longrightarrow> found_in p False (data s i)"
    "length (data s i) \<le> ?c" "data s k = copied p False (data s i)" "l = read_outcome ?c p (data s i)"
    "k div (2 * T) = i div (2 * T)" "i div (2 * T) < storages s"
    using assms(1,3) by (simp_all add: seen_ok_def)
  have r: "\<not> is_reserve p" using a(1) by (cases p) simp_all
  note b = copied_spec [OF a(1-4)]
  from assms(2) a r b show ?thesis by simp
qed

lemma own_change:
  "change_step T t s s' \<Longrightarrow> t < T \<Longrightarrow> thread_ok T s (lin s t) (pcs s t) \<Longrightarrow> excl_inv T s \<Longrightarrow> thread_ok T s' (lin s' t) (pcs s' t)"
proof (induction rule: change_step.induct)
  case (scan_back s p g i k)
  then have "(if k + 1 = g * (2 * T) + 2 * T then g * (2 * T) else k + 1) div (2 * T) = g"
    by (intro next_buffer) (simp_all add: seen_ok_def)
  with scan_back show ?case by (auto simp: seen_ok_def)
next
  case (claim_clear s p i k)
  then have n: "i \<noteq> k" using claim_not_lock [OF claim_clear(4,2)] by simp
  show ?case
  proof (cases "clears p")
    case True
    then obtain "p = ClearList" by (cases p) simp_all
    with claim_clear n show ?thesis by (simp add: seen_ok_def)
  next
    case False
    with claim_clear n show ?thesis by (simp add: seen_ok_def)
  qed
next
  case (copy_one s p i k n found keep found')
  then have "i \<noteq> k" using claim_not_lock [OF copy_one(6,4)] by simp
  with copy_one(1,5) have "thread_ok T (s\<lparr>data := (data s)(k := data s k @ (if keep then [data s i ! n] else []))\<rparr>)
      (lin s t) (Copying p i k (n + 1) found')" by (intro own_copy [OF _ _ copy_one(2,3)]) (simp_all del: thread_ok.simps)
  then show ?case by (simp del: thread_ok.simps)
next
  case (copy_end s p i k n found)
  then have "i \<noteq> k" using claim_not_lock [OF copy_end(6,4)] by simp
  with copy_end(1,2,5) have "thread_ok T (s\<lparr>data := (data s)(k := data s k @ appended p)\<rparr>) (lin s t) (Swap p i k)"
    by (intro own_copied [OF _ _ copy_end(3)]) (simp_all del: thread_ok.simps)
  then show ?case by (simp del: thread_ok.simps)
next
  case (copy_quit s p i k n found)
  from copy_quit(3) have "read_outcome c p xs = Some (Truth False)" if "\<not> found_in p False xs" for c xs
    using that by (cases p) (auto simp: copied_erase copied_delete)
  with copy_quit show ?case by (simp add: seen_ok_def)
qed (simp_all add: seen_ok_def)

lemma own_read:
  "read_step t s s' \<Longrightarrow> t < T \<Longrightarrow> thread_ok T s (lin s t) (pcs s t) \<Longrightarrow> thread_ok T s' (lin s' t) (pcs s' t)"
proof (induction rule: read_step.induct)
  case (apply_one s i n xs)
  then show ?case by (simp add: take_Suc_conv_app_nth)
next
  case (find_next s p b i n)
  then show ?case by (auto simp: take_Suc_conv_app_nth)
next
  case (find_one s p b i n)
  then show ?case by (auto intro: nth_mem)
qed (simp_all)

lemma switching_reserves: "switching q \<Longrightarrow> reserves q"
  by (cases q) simp_all

lemma own_reserve:
  "reserve_step T t s s' \<Longrightarrow> t < T \<Longrightarrow> thread_ok T s (lin s t) (pcs s t) \<Longrightarrow> excl_inv T s \<Longrightarrow> reserve_inv T s \<Longrightarrow>
     bufs s < storages s \<Longrightarrow> active s div (2 * T) < storages s \<Longrightarrow> thread_ok T s' (lin s' t) (pcs s' t)"
proof (induction rule: reserve_step.induct)
  case (switch_bufs s n k)
  have "\<not> switching (pcs s u)" if "u < T" for u
  proof
    assume sw: "switching (pcs s u)"
    then have "u = t" using switch_bufs(1,2,5) that switching_reserves unfolding reserve_inv_def by (metis reserves.simps(22))
    with sw switch_bufs(1) show False by simp
  qed
  with switch_bufs show ?case by (simp add: switch_ok_def reserve_inv_def)
next
  case (v_clear s n k i)
  then have "i \<noteq> k" using claim_not_lock [OF v_clear(4,2)] by simp
  with v_clear show ?case by (simp add: switch_ok_def)
next
  case (v_copy s n k i m)
  then have "i \<noteq> k" using claim_not_lock [OF v_copy(5,3)] by simp
  with v_copy show ?case by (simp add: switch_ok_def take_Suc_conv_app_nth)
qed (auto simp: switch_ok_def)

section \<open>The order in which operations take effect\<close>

definition effects_inv :: "nat \<Rightarrow> nat \<Rightarrow> 'a list_sys \<Rightarrow> bool" where
  "effects_inv T lsize s \<longleftrightarrow>
     length (data s (active s)) \<le> caps s (active s div (2 * T)) \<and> list_runs (log s) (lsize, []) = Some (contents T s)"

lemma effects_same:
  assumes "effects_inv T n s" and "log s' = log s" "active s' = active s" "data s' (active s) = data s (active s)"
    and "caps s' (active s div (2 * T)) = caps s (active s div (2 * T))"
  shows "effects_inv T n s'"
  using assms by (simp add: effects_inv_def contents_def)

lemma effects_append:
  assumes "effects_inv T n s" and "log s' = log s @ [(p, r)]" and "list_spec p r (contents T s) = Some (contents T s')"
    and "length (data s' (active s')) \<le> caps s' (active s' div (2 * T))"
  shows "effects_inv T n s'"
  using assms by (simp add: effects_inv_def)

lemma claim_not_active: "excl_inv T s \<Longrightarrow> t < T \<Longrightarrow> claim_of (pcs s t) = Some k \<Longrightarrow> k \<noteq> active s"
  by (auto simp: excl_inv_def)

lemma effects_lock:
  "lock_step T t s s' \<Longrightarrow> thread_ok T s (lin s t) (pcs s t) \<Longrightarrow> effects_inv T n s \<Longrightarrow> effects_inv T n s'"
proof (induction rule: lock_step.induct)
  case (same_effect s p g i r)
  then have g: "g = active s div (2 * T)" and l: "length (data s (active s)) \<le> caps s g" by (auto simp: effects_inv_def)
  have "list_spec p r (contents T s) = Some (contents T s)"
    using outcome_spec [OF same_effect(3)] same_effect(2) g l by (simp add: contents_def)
  with same_effect(5) l g show ?case by (intro effects_append [OF same_effect(5)]) (simp_all add: contents_def)
qed (simp_all add: effects_inv_def contents_def)

lemma effects_change:
  "change_step T t s s' \<Longrightarrow> t < T \<Longrightarrow> excl_inv T s \<Longrightarrow> thread_ok T s (lin s t) (pcs s t) \<Longrightarrow> effects_inv T n s \<Longrightarrow>
     effects_inv T n s'"
proof (induction rule: change_step.induct)
  case (claim_clear s p i k)
  then have "active s \<noteq> k" using claim_not_active [OF claim_clear(3,2)] by force
  with claim_clear show ?case by (intro effects_same [OF claim_clear(5)]) simp_all
next
  case (copy_one s p i k n found keep found')
  then have "active s \<noteq> k" using claim_not_active [OF copy_one(5,4)] by force
  then show ?case by (intro effects_same [OF copy_one(7)]) simp_all
next
  case (copy_end s p i k n found)
  then have "active s \<noteq> k" using claim_not_active [OF copy_end(5,4)] by force
  then show ?case by (intro effects_same [OF copy_end(7)]) simp_all
next
  case (swap_done s p i k)
  then show ?case by (intro effects_append [OF swap_done(6)]) (auto simp: contents_def)
qed (simp_all add: effects_inv_def contents_def)

lemma effects_read: "read_step t s s' \<Longrightarrow> effects_inv T n s \<Longrightarrow> effects_inv T n s'"
  by (induction rule: read_step.induct) (simp_all add: effects_inv_def contents_def)

lemma effects_reserve:
  "reserve_step T t s s' \<Longrightarrow> t < T \<Longrightarrow> excl_inv T s \<Longrightarrow> active s div (2 * T) < storages s \<Longrightarrow>
     thread_ok T s (lin s t) (pcs s t) \<Longrightarrow> effects_inv T m s \<Longrightarrow> effects_inv T m s'"
proof (induction rule: reserve_step.induct)
  case (v_clear s n k i)
  then have "active s \<noteq> k" using claim_not_active [OF v_clear(3,2)] by force
  then show ?case by (intro effects_same [OF v_clear(6)]) simp_all
next
  case (v_copy s n k i l)
  then have "active s \<noteq> k" using claim_not_active [OF v_copy(4,3)] by force
  then show ?case by (intro effects_same [OF v_copy(7)]) simp_all
next
  case (v_swap s n k i)
  then have "caps s (active s div (2 * T)) < n" "caps s (k div (2 * T)) = n" "data s k = data s (active s)"
    "length (data s (active s)) \<le> caps s (active s div (2 * T))" by (simp_all add: switch_ok_def effects_inv_def)
  with v_swap show ?case by (intro effects_append [OF v_swap(7), of _ "Reserve n" Finished]) (simp_all add: contents_def max_def)
qed (simp_all add: effects_inv_def contents_def)

section \<open>All steps\<close>

lemma list_inv_alt:
  "list_inv T n s \<longleftrightarrow>
     refs_inv T s \<and> excl_inv T s \<and> fresh_inv T s \<and> reserve_inv T s \<and> (\<forall>t<T. thread_ok T s (lin s t) (pcs s t)) \<and>
     effects_inv T n s"
  by (auto simp: list_inv_def effects_inv_def)

lemma threads_ok_step:
  assumes "\<And>u. u < T \<Longrightarrow> u \<noteq> t \<Longrightarrow> unhurt T (pcs s u) s s' \<and> pcs s' u = pcs s u \<and> lin s' u = lin s u"
    and "thread_ok T s' (lin s' t) (pcs s' t)"
    and "list_inv T n s"
  shows "\<forall>u<T. thread_ok T s' (lin s' u) (pcs s' u)"
proof (intro allI impI)
  fix u assume u: "u < T"
  show "thread_ok T s' (lin s' u) (pcs s' u)"
  proof (cases "u = t")
    case False
    have "thread_ok T s (lin s u) (pcs s u)" "bufs s < storages s" "active s div (2 * T) < storages s"
      using assms(3) u active_fresh by (auto simp: list_inv_def fresh_inv_def)
    with thread_ok_unhurt assms(1) [OF u False] show ?thesis by metis
  qed (use assms(2) in simp)
qed

lemma list_inv_step:
  assumes "list_inv T n s" and "list_step T s s'"
  shows "list_inv T n s'"
proof -
  have i: "refs_inv T s" "excl_inv T s" "fresh_inv T s" "reserve_inv T s" "\<And>t. t < T \<Longrightarrow> thread_ok T s (lin s t) (pcs s t)"
    "effects_inv T n s" "bufs s < storages s" "active s div (2 * T) < storages s"
    "length (data s (active s)) \<le> caps s (active s div (2 * T))"
    using assms(1) active_fresh by (auto simp: list_inv_alt fresh_inv_def effects_inv_def)
  have r: "refs_inv T s'" using refs_step [OF assms(2) i(1)] .
  from assms(2) show ?thesis
  proof cases
    case (by_lock t)
    show ?thesis unfolding list_inv_alt
      using r excl_lock [OF by_lock(2,1) i(2)] fresh_lock [OF by_lock(2,1) i(1,3) i(5) [OF by_lock(1)]]
        reserve_lock [OF by_lock(2,1) i(4)] effects_lock [OF by_lock(2) i(5) [OF by_lock(1)] i(6)]
        threads_ok_step [OF unhurt_lock [OF by_lock(2) i(2,4) by_lock(1)]
          own_lock [OF by_lock(2,1) i(5) [OF by_lock(1)] i(7,9)] assms(1)] by blast
  next
    case (by_change t)
    note ok = i(5) [OF by_change(1)]
    show ?thesis unfolding list_inv_alt
      using r excl_change [OF by_change(2,1) i(1,2)] fresh_change [OF by_change(2,1) i(1,3) ok]
        reserve_change [OF by_change(2,1) i(4) ok] effects_change [OF by_change(2,1) i(2) ok i(6)]
        threads_ok_step [OF unhurt_change [OF by_change(2) i(2,4) by_change(1) _ _ ok]
          own_change [OF by_change(2,1) ok i(2)] assms(1)] by blast
  next
    case (by_read t)
    note ok = i(5) [OF by_read(1)]
    show ?thesis unfolding list_inv_alt
      using r excl_read [OF by_read(2,1) i(2)] fresh_read [OF by_read(2,1) i(1,3)]
        reserve_read [OF by_read(2,1) i(4)] effects_read [OF by_read(2) i(6)]
        threads_ok_step [OF unhurt_read [OF by_read(2) i(2,4) by_read(1)] own_read [OF by_read(2,1) ok] assms(1)] by blast
  next
    case (by_reserve t)
    note ok = i(5) [OF by_reserve(1)]
    show ?thesis unfolding list_inv_alt
      using r excl_reserve [OF by_reserve(2,1) i(1,3,2)] fresh_reserve [OF by_reserve(2,1) i(1,3) ok]
        reserve_reserve [OF by_reserve(2,1) i(4) ok] effects_reserve [OF by_reserve(2,1) i(2,8) ok i(6)]
        threads_ok_step [OF unhurt_reserve [OF by_reserve(2) i(2,4) by_reserve(1)]
          own_reserve [OF by_reserve(2,1) ok i(2,4,7,8)] assms(1)] by blast
  qed
qed

lemma list_inv_init: "list_init n s \<Longrightarrow> list_inv T n s"
  by (auto simp: list_init_def list_inv_def refs_inv_def held_def excl_inv_def fresh_inv_def reserve_inv_def contents_def)

interpretation lock_free_list: invariant_of "list_init n" "list_step T" "list_inv T n" for T n
  by unfold_locales (auto intro: list_inv_init list_inv_step)

end
