(* ===== verification/ListBuffers.thy ===== *)
theory ListBuffers
  imports ListLinear
begin

text \<open>
  \<^verbatim>\<open>ListLockFree\<close> keeps twice as many buffers as threads. This is enough: a thread that looks for a free buffer holds
  one, the thread that last changed \<^verbatim>\<open>active\<close> holds one besides the active buffer, and every other thread two.
\<close>

definition last_inv :: "nat \<Rightarrow> 'a list_sys \<Rightarrow> bool" where
  "last_inv T s \<longleftrightarrow>
     (case last_cas s of
        None \<Rightarrow> \<forall>t<T. \<forall>i. orig_of (pcs s t) = Some i \<longrightarrow> i = active s
      | Some u \<Rightarrow> u < T \<and> (\<forall>i. orig_of (pcs s u) = Some i \<longrightarrow> i = active s))"

lemma last_goto:
  assumes "last_inv T s" and "t < T" and "pcs s' = (pcs s)(t := q)" and "active s' = active s" "last_cas s' = last_cas s"
    and "\<And>i. orig_of q = Some i \<Longrightarrow> orig_of (pcs s t) = Some i \<or> i = active s"
  shows "last_inv T s'"
  using assms unfolding last_inv_def by (auto split: option.splits)

lemma last_swap: "t < T \<Longrightarrow> last_cas s' = Some t \<Longrightarrow> orig_of (pcs s' t) = None \<Longrightarrow> last_inv T s'"
  by (simp add: last_inv_def)

lemma orig_body: "orig_of (body c p g i xs k) = Some j \<Longrightarrow> j = i"
  by (cases p) (auto split: if_splits)

lemma last_lock: "lock_step T t s s' \<Longrightarrow> t < T \<Longrightarrow> last_inv T s \<Longrightarrow> last_inv T s'"
  by (induction rule: lock_step.induct; erule (1) last_goto, simp (no_asm); auto dest!: orig_body split: if_splits)

lemma last_change: "change_step T t s s' \<Longrightarrow> t < T \<Longrightarrow> last_inv T s \<Longrightarrow> last_inv T s'"
proof (induction rule: change_step.induct)
  case (swap_done s p i k)
  then show ?case by (intro last_swap [OF swap_done(3)]) simp_all
qed (erule (1) last_goto, simp (no_asm), auto split: if_splits)+

lemma last_read: "read_step t s s' \<Longrightarrow> t < T \<Longrightarrow> last_inv T s \<Longrightarrow> last_inv T s'"
  by (induction rule: read_step.induct; erule (1) last_goto, simp (no_asm); auto split: if_splits)

lemma last_reserve: "reserve_step T t s s' \<Longrightarrow> t < T \<Longrightarrow> last_inv T s \<Longrightarrow> last_inv T s'"
proof (induction rule: reserve_step.induct)
  case (v_swap s n k i)
  then show ?case by (intro last_swap [OF v_swap(3)]) simp_all
qed (erule (1) last_goto, simp (no_asm), auto split: if_splits)+

interpretation last_swapper: invariant_of "list_init n" "list_step T" "last_inv T" for T n
proof
  show "last_inv T s'" if "last_inv T s" "list_step T s s'" for s s' :: "'a list_sys"
    using that(2,1) by cases (auto intro: last_lock last_change last_read last_reserve)
qed (auto simp: list_init_def last_inv_def)

section \<open>Counting buffers\<close>

lemma refs_two: "\<exists>k. set (refs_of q) \<subseteq> insert k (set_option (orig_of q))"
  by (cases q) auto

lemma card_refs:
  "card (set (refs_of q) - {a}) \<le> 2"
  "(\<And>i. orig_of q = Some i \<Longrightarrow> i = a) \<Longrightarrow> card (set (refs_of q) - {a}) \<le> 1"
proof -
  obtain k where k: "set (refs_of q) \<subseteq> insert k (set_option (orig_of q))" using refs_two by blast
  have "card (set (refs_of q) - {a}) \<le> card (insert k (set_option (orig_of q)))"
    by (rule card_mono) (use k in auto)
  also have "\<dots> \<le> 2" by (cases "orig_of q") (auto simp: card_insert_if)
  finally show "card (set (refs_of q) - {a}) \<le> 2" .
  assume "\<And>i. orig_of q = Some i \<Longrightarrow> i = a"
  with k have "set (refs_of q) - {a} \<subseteq> {k}" by (cases "orig_of q") auto
  then show "card (set (refs_of q) - {a}) \<le> 1" using card_mono [of "{k}"] by fastforce
qed

lemma sum_two_less:
  assumes "t < T" and "\<And>u. u < T \<Longrightarrow> f u \<le> (2 :: nat)" and "x < T" "x \<noteq> t" "f t \<le> 1" "f x \<le> 1"
  shows "sum f {..<T} + 2 \<le> 2 * T"
proof -
  have "sum f {..<T} \<le> (\<Sum>u<T. if u = t \<or> u = x then 1 else 2)" by (rule sum_mono) (use assms in auto)
  also have "\<dots> + 2 = (\<Sum>u<T. if u = t \<or> u = x then 1 else 2) + (\<Sum>u<T. if u = t \<or> u = x then 1 else 0)"
  proof -
    have "(\<Sum>u<T. if u = t \<or> u = x then 1 else 0) = card {u \<in> {..<T}. u = t \<or> u = x}"
      by (simp add: sum.If_cases Int_def)
    also have "{u \<in> {..<T}. u = t \<or> u = x} = {t, x}" using assms by auto
    finally show ?thesis using assms(4) by simp
  qed
  also have "\<dots> = (\<Sum>u<T. 2)" unfolding sum.distrib [symmetric] by (rule sum.cong) auto
  finally show ?thesis by simp
qed

lemma sum_one_zero:
  assumes "t < T" and "\<And>u. u < T \<Longrightarrow> f u \<le> (2 :: nat)" and "f t = 0"
  shows "sum f {..<T} + 2 \<le> 2 * T"
proof -
  have "sum f {..<T} = sum f ({..<T} - {t})" using assms(1,3) by (simp add: sum.remove [of _ t])
  also have "\<dots> \<le> (\<Sum>u\<in>{..<T} - {t}. 2)" by (rule sum_mono) (use assms(2) in auto)
  finally show ?thesis using assms(1) by simp
qed

lemma used_buffers:
  assumes "refs_inv T s"
  shows "{j. counts s j + 1 \<noteq> 0} \<subseteq> insert (active s) (\<Union>u<T. set (refs_of (pcs s u)) - {active s})"
proof
  fix j assume "j \<in> {j. counts s j + 1 \<noteq> 0}"
  then have "of_bool (j = active s) + held T (pcs s) j \<noteq> 0" using assms by (simp add: refs_inv_def)
  moreover have "held T (pcs s) j = 0" if "\<forall>u<T. j \<notin> set (refs_of (pcs s u))"
    using that by (simp add: held_def count_list_0_iff)
  ultimately show "j \<in> insert (active s) (\<Union>u<T. set (refs_of (pcs s u)) - {active s})"
    by (cases "j = active s") auto
qed

end
