(* ===== verification/ListRuns.thy ===== *)
theory ListRuns
  imports ListBuffers
begin

text \<open>
  \<^verbatim>\<open>ListLockFree\<close>: that its operations take effect one after the other, and runs. A run is given by the calls and the
  order in which the threads make their steps.
\<close>

section \<open>Operations take effect one after the other\<close>




section \<open>Schedules\<close>

text \<open>The next step of a thread that is inside a call.\<close>

definition list_next :: "nat \<Rightarrow> nat \<Rightarrow> 'a list_sys \<Rightarrow> 'a list_sys" where
  "list_next T t s =
     (case pcs s t of
        GetBufs p \<Rightarrow> pc_goto t (GetActive p (bufs s)) s
      | GetActive p g \<Rightarrow> pc_goto t (if active s div (2 * T) = g then IncActive p g (active s) else GetBufs p) s
      | IncActive p g i \<Rightarrow> pc_goto t (SameActive p g i) (ref_add i 1 s)
      | SameActive p g i \<Rightarrow>
          if active s = i then
            (case read_outcome (caps s g) p (data s i) of
               None \<Rightarrow> pc_goto t (Locked p g i) s | Some r \<Rightarrow> pc_goto t (Locked p g i) (effect t p r s))
          else pc_goto t (UndoActive p i) s
      | UndoActive p i \<Rightarrow> pc_goto t (GetBufs p) (ref_add i (- 1) s)
      | Locked p g i \<Rightarrow> pc_goto t (body (caps s g) p g i (data s i) (g * (2 * T))) s
      | Scan p g i k \<Rightarrow>
          if counts s k + 1 = 0 then pc_goto t (Claimed p i k) (ref_add k 1 s) else pc_goto t (ScanBack p g i k) (ref_add k 1 s)
      | ScanBack p g i k \<Rightarrow>
          pc_goto t (Scan p g i (if k + 1 = g * (2 * T) + 2 * T then g * (2 * T) else k + 1)) (ref_add k (- 1) s)
      | Claimed p i k \<Rightarrow>
          pc_goto t (if clears p then Swap p i k else Copying p i k 0 False) (s\<lparr>data := (data s)(k := [])\<rparr>)
      | Copying p i k n found \<Rightarrow>
          if n < length (data s i) then
            (case copies p found (data s i ! n) of (keep, found') \<Rightarrow>
               pc_goto t (Copying p i k (n + 1) found')
                 (s\<lparr>data := (data s)(k := data s k @ (if keep then [data s i ! n] else []))\<rparr>))
          else if erases p \<longrightarrow> found then pc_goto t (Swap p i k) (s\<lparr>data := (data s)(k := data s k @ appended p)\<rparr>)
          else pc_goto t (Quit1 p i k (Truth False)) s
      | Swap p i k \<Rightarrow>
          if active s = i then
            pc_goto t (Drop1 p i (changed p)) (effect t p (changed p) (s\<lparr>active := k, last_cas := Some t\<rparr>))
          else pc_goto t (Retry1 p i k) s
      | Retry1 p i k \<Rightarrow> pc_goto t (Retry2 p k) (ref_add i (- 1) s)
      | Retry2 p k \<Rightarrow> pc_goto t (GetBufs p) (ref_add k (- 1) s)
      | Drop1 p i r \<Rightarrow> pc_goto t (Drop2 p i r) (ref_add i (- 1) s)
      | Drop2 p i r \<Rightarrow> pc_goto t (Return p r) (ref_add i (- 1) s)
      | Quit1 p i k r \<Rightarrow> pc_goto t (Quit2 p k r) (ref_add i (- 1) s)
      | Quit2 p k r \<Rightarrow> pc_goto t (Return p r) (ref_add k (- 1) s)
      | Release p i r \<Rightarrow> pc_goto t (Return p r) (ref_add i (- 1) s)
      | Applying i n xs \<Rightarrow>
          if n < length (data s i) then pc_goto t (Applying i (n + 1) (xs @ [data s i ! n])) s
          else pc_goto t (Release Apply i (Seen xs)) s
      | Finding p b i n \<Rightarrow>
          if n < length (data s i) then
            if p (data s i ! n) then pc_goto t (Found p b i n) s else pc_goto t (Finding p b i (n + 1)) s
          else pc_goto t (Release (FindIf p b) i (Item (Some b))) s
      | Found p b i n \<Rightarrow> pc_goto t (FoundRead p b i n) (ref_add i (- 1) s)
      | FoundRead p b i n \<Rightarrow>
          pc_goto t (Return (FindIf p b) (Item (if n < length (data s i) then Some (data s i ! n) else None))) s
      | Return p r \<Rightarrow> pc_goto t NoCall (s\<lparr>reserving := reserving s \<and> \<not> is_reserve p\<rparr>)
      | _ \<Rightarrow> s)"

text \<open>Schedules are of calls that are not \<^verbatim>\<open>reserve\<close>.\<close>

fun can_go :: "'a list_pc \<Rightarrow> 'a list_sys \<Rightarrow> bool" where
  "can_go (Copying p i k n f) s \<longleftrightarrow> n \<le> length (data s i)"
| "can_go (Applying i n xs) s \<longleftrightarrow> n \<le> length (data s i)"
| "can_go (Finding p b i n) s \<longleftrightarrow> n \<le> length (data s i)"
| "can_go NoCall s = False"
| "can_go (TooSmall n i) s = False"
| "can_go (NewStorage n) s = False"
| "can_go (SwitchBufs n k) s = False"
| "can_go (VGet n k) s = False"
| "can_go (VInc n k i) s = False"
| "can_go (VSame n k i) s = False"
| "can_go (VUndo n k i) s = False"
| "can_go (VClear n k i) s = False"
| "can_go (VCopying n k i m) s = False"
| "can_go (VSwap n k i) s = False"
| "can_go (VRetry n k i) s = False"
| "can_go (VAssert n k i) s = False"
| "can_go (Aborted i) s = False"
| "can_go _ s = True"

lemma list_next_step:
  "can_go (pcs s t) s \<Longrightarrow>
     lock_step T t s (list_next T t s) \<or> change_step T t s (list_next T t s) \<or> read_step t s (list_next T t s)"
proof (cases "pcs s t")
  case (SameActive p g i)
  then show ?thesis using same_active [OF SameActive] same_effect [OF SameActive] not_same [OF SameActive]
    by (cases "read_outcome (caps s g) p (data s i)") (auto simp: list_next_def)
next
  case (Scan p g i k)
  then show ?thesis using scan_free [OF Scan] scan_used [OF Scan] by (simp add: list_next_def)
next
  case (Copying p i k n found)
  assume "can_go (pcs s t) s"
  then have n: "n < length (data s i) \<or> n = length (data s i)" using Copying by auto
  obtain keep found' where k: "copies p found (data s i ! n) = (keep, found')" by (cases "copies p found (data s i ! n)")
  show ?thesis using copy_one [OF Copying _ k] copy_end [OF Copying] copy_quit [OF Copying] n Copying k
    by (auto simp: list_next_def)
next
  case (Swap p i k)
  then show ?thesis using swap_done [OF Swap] swap_failed [OF Swap] by (simp add: list_next_def)
next
  case (Applying i n xs)
  assume "can_go (pcs s t) s"
  then have n: "n < length (data s i) \<or> n = length (data s i)" using Applying by auto
  then show ?thesis using apply_one [OF Applying] apply_done [OF Applying] Applying by (auto simp: list_next_def)
next
  case (Finding p b i n)
  assume "can_go (pcs s t) s"
  then have n: "n < length (data s i) \<or> n = length (data s i)" using Finding by auto
  then show ?thesis using find_next [OF Finding] find_one [OF Finding] find_none [OF Finding] Finding
    by (auto simp: list_next_def)
qed (simp_all only: list_next_def list_pc.case can_go.simps,
    (rule disjI1, rule lock_step.intros; assumption | rule disjI2, rule disjI1, rule change_step.intros; assumption |
      rule disjI2, rule disjI2, rule read_step.intros; assumption)+)

text \<open>Runs without \<^verbatim>\<open>reserve\<close> stay in the first storage. The tables that such a state is made of are kept short.\<close>

definition within :: "nat \<Rightarrow> 'a list_sys \<Rightarrow> bool" where
  "within T s \<longleftrightarrow>
     storages s = 1 \<and> (\<forall>k\<ge>2 * T. data s k = []) \<and> (\<forall>t\<ge>T. pcs s t = NoCall \<and> lin s t = None)"

definition table :: "'b list \<Rightarrow> 'b \<Rightarrow> nat \<Rightarrow> 'b" where
  "table xs d k = (if k < length xs then xs ! k else d)"

definition tidy :: "nat \<Rightarrow> 'a list_sys \<Rightarrow> 'a list_sys" where
  "tidy T s =
     s\<lparr>counts := table (map (counts s) [0..<2 * T]) (- 1), data := table (map (data s) [0..<2 * T]) [],
       pcs := table (map (pcs s) [0..<T]) NoCall, lin := table (map (lin s) [0..<T]) None\<rparr>"

lemma tidy_within:
  assumes "fresh_inv T s" and "within T s" and "0 < T"
  shows "tidy T s = s"
proof -
  have "counts s k = - 1" if "2 * T \<le> k" for k
    using assms that div_le_mono [of "2 * T" k "2 * T"] by (simp add: fresh_inv_def within_def)
  then show ?thesis using assms(2) by (auto simp: tidy_def table_def within_def fun_eq_iff intro!: list_sys.equality)
qed

lemma within_next:
  assumes "list_inv T m s" and "t < T" and "can_go (pcs s t) s" and "within T s"
  shows "within T (list_next T t s)"
proof -
  have k: "k < 2 * T" if "claim_of (pcs s t) = Some k" for k
  proof -
    have "k div (2 * T) < 1"
      using held_fresh [of T s t k] assms that claim_ref by (auto simp: list_inv_def within_def)
    with assms(2) show ?thesis by (simp add: div_eq_0_iff)
  qed
  show ?thesis using assms(2-4) k
    by (cases "pcs s t") (auto simp: list_next_def within_def split: option.split prod.split)
qed

datatype 'a list_turn = Call nat "'a list_op" | Steps nat nat

fun list_go :: "nat \<Rightarrow> nat \<Rightarrow> nat \<Rightarrow> 'a list_sys \<Rightarrow> 'a list_sys option" where
  "list_go T t 0 s = Some s"
| "list_go T t (Suc n) s = (if t < T \<and> can_go (pcs s t) s then list_go T t n (tidy T (list_next T t s)) else None)"

fun list_schedule :: "nat \<Rightarrow> 'a list_turn list \<Rightarrow> 'a list_sys \<Rightarrow> 'a list_sys option" where
  "list_schedule T [] s = Some s"
| "list_schedule T (Call t p # l) s =
     (case pcs s t of
        NoCall \<Rightarrow>
          if t < T \<and> starts_with p \<and> \<not> is_reserve p then
            list_schedule T l
              (pc_goto t (GetBufs p) (s\<lparr>lin := (lin s)(t := None), reserving := reserving s \<or> is_reserve p\<rparr>))
          else None
      | _ \<Rightarrow> None)"
| "list_schedule T (Steps t n # l) s = (case list_go T t n s of None \<Rightarrow> None | Some s' \<Rightarrow> list_schedule T l s')"

lemma list_go_reachable:
  "reachable (list_init m) (list_step T) s \<Longrightarrow> within T s \<Longrightarrow> list_go T t n s = Some s' \<Longrightarrow>
     reachable (list_init m) (list_step T) s' \<and> within T s'"
proof (induction n arbitrary: s)
  case (Suc n)
  then have t: "t < T" "can_go (pcs s t) s" "list_go T t n (tidy T (list_next T t s)) = Some s'" by (auto split: if_splits)
  have "list_step T s (list_next T t s)"
    using list_next_step [OF t(2)] t(1) by (auto intro: by_lock by_change by_read)
  with Suc.prems(1) have r: "reachable (list_init m) (list_step T) (list_next T t s)" by (rule reachable_step)
  have w: "within T (list_next T t s)"
    using within_next [OF lock_free_list.reachable_inv [OF Suc.prems(1)] t(1,2) Suc.prems(2)] .
  have "tidy T (list_next T t s) = list_next T t s"
    using tidy_within [OF _ w] lock_free_list.reachable_inv [OF r] t(1) by (simp add: list_inv_def)
  with r w t(3) show ?case using Suc.IH by metis
qed simp

lemma list_schedule_reachable:
  "reachable (list_init m) (list_step T) s \<Longrightarrow> within T s \<Longrightarrow> list_schedule T l s = Some s' \<Longrightarrow>
     reachable (list_init m) (list_step T) s'"
proof (induction T l s rule: list_schedule.induct)
  case (2 T t p l s)
  then have t: "pcs s t = NoCall" "t < T" "starts_with p" "\<not> is_reserve p"
    by (simp_all split: list_pc.splits if_splits)
  let ?s = "pc_goto t (GetBufs p) (s\<lparr>lin := (lin s)(t := None), reserving := reserving s \<or> is_reserve p\<rparr>)"
  have step: "list_step T s ?s"
    by (rule list_step.by_lock [OF t(2)], rule call_op) (use t in simp_all)
  have "within T ?s" using 2(3) t(2) by (simp add: within_def)
  from 2(1) [OF t(1) _ reachable_step [OF 2(2) step] this] 2(4) t show ?case by simp
next
  case (3 T t n l s)
  then show ?case by (auto split: option.splits dest: list_go_reachable)
qed simp

definition list_start :: "nat \<Rightarrow> 'a list_sys" where
  "list_start m =
     \<lparr>counts = (\<lambda>_. - 1)(0 := 0), data = (\<lambda>_. []), active = 0, bufs = 0, storages = 1, caps = (\<lambda>_. m),
      reserving = False, pcs = (\<lambda>_. NoCall), log = [], lin = (\<lambda>_. None), last_cas = None\<rparr>"

lemma from_start:
  "list_schedule T l (list_start m) = Some s \<Longrightarrow> reachable (list_init m) (list_step T) s"
  by (rule list_schedule_reachable [OF reachable_init]) (simp_all add: list_init_def list_start_def within_def)

lemma schedule_shows:
  assumes "map_option P (list_schedule T l (list_start m)) = Some True"
  shows "\<exists>s. list_schedule T l (list_start m) = Some s \<and> P s"
  using assms by (auto simp: map_option_case split: option.splits)

fun returned :: "'a list_pc \<Rightarrow> 'a list_res option" where
  "returned (Return p r) = Some r"
| "returned _ = None"

text \<open>Equality of operations without predicates, and of logs of them.\<close>

fun same_op :: "'a list_op \<Rightarrow> 'a list_op \<Rightarrow> bool" where
  "same_op (Append x) (Append y) \<longleftrightarrow> x = y"
| "same_op (AppendAll xs m) (AppendAll ys n) \<longleftrightarrow> xs = ys \<and> m = n"
| "same_op ClearList ClearList = True"
| "same_op _ _ = False"

definition same_log :: "('a list_op \<times> 'a list_res) list \<Rightarrow> ('a list_op \<times> 'a list_res) list \<Rightarrow> bool" where
  "same_log l l' = list_all2 (\<lambda>(p, r) (q, r'). same_op p q \<and> r = r') l l'"

lemma same_opD: "same_op p q \<Longrightarrow> p = q"
  by (cases p; cases q) simp_all

lemma same_logD: "same_log l l' \<Longrightarrow> l = l'"
  unfolding same_log_def by (induction l l' rule: list_all2_induct) (auto dest: same_opD)

text \<open>Where a thread is, in terms that can be compared.\<close>

fun scan_of :: "'a list_pc \<Rightarrow> (nat \<times> nat \<times> nat) option" where
  "scan_of (Scan p g i k) = Some (g, i, k)"
| "scan_of _ = None"

fun find_of :: "'a list_pc \<Rightarrow> (('a \<Rightarrow> bool) \<times> 'a \<times> 'a option) option" where
  "find_of (Return (FindIf p b) (Item x)) = Some (p, b, x)"
| "find_of _ = None"

lemma scan_ofD: "scan_of q = Some (g, i, k) \<Longrightarrow> \<exists>p. q = Scan p g i k"
  by (cases q) auto

lemma find_ofD: "find_of q = Some (p, b, x) \<Longrightarrow> q = Return (FindIf p b) (Item x)"
  by (cases q rule: find_of.cases) auto



section \<open>There are enough buffers\<close>

text \<open>C35: A thread that looks for an empty buffer finds one: whenever it is in \<^verbatim>\<open>findEmptyBuf\<close>, whatever the other
  threads do and hold, one of the \<open>2 * MAX_THREADS\<close> buffers of its storage is free at that moment, so that its
  increment would claim it; so twice as many buffers as threads are enough.\<close>

theorem empty_buffer_exists:
  assumes "reachable (list_init lsize) (list_step T) s" and "t < T" and "pcs s t = Scan p g i k"
  shows "\<exists>j. j div (2 * T) = g \<and> counts s j + 1 = 0"
proof -
  have r: "refs_inv T s" using lock_free_list.reachable_inv [OF assms(1)] by (simp add: list_inv_def)
  have l: "last_inv T s" using assms(1) by (rule last_swapper.reachable_inv)
  let ?f = "\<lambda>u. card (set (refs_of (pcs s u)) - {active s})"
  have t1: "?f t \<le> 1" using assms(3) by (simp add: card_Diff_singleton_if)
  have sum: "sum ?f {..<T} + 2 \<le> 2 * T"
  proof (cases "last_cas s")
    case None
    then have "i = active s" using l assms(2,3) by (simp add: last_inv_def)
    then show ?thesis using assms(3) by (intro sum_one_zero [OF assms(2)]) (auto simp: card_refs(1))
  next
    case (Some x)
    then have x: "x < T" "\<And>i. orig_of (pcs s x) = Some i \<Longrightarrow> i = active s" using l by (auto simp: last_inv_def)
    show ?thesis
    proof (cases "x = t")
      case True
      with x assms(3) have "i = active s" by simp
      then show ?thesis using assms(3) by (intro sum_one_zero [OF assms(2)]) (auto simp: card_refs(1))
    next
      case False
      show ?thesis by (rule sum_two_less [where f = ?f, OF assms(2) _ x(1) False t1]) (rule card_refs, rule card_refs, rule x(2))
    qed
  qed
  let ?U = "\<Union>u<T. set (refs_of (pcs s u)) - {active s}"
  have U: "finite (insert (active s) ?U)" by simp
  have "card ?U \<le> sum ?f {..<T}" by (rule card_UN_le) simp
  moreover have "card (insert (active s) ?U) \<le> Suc (card ?U)" using U by (simp only: card_insert_if finite_insert) simp
  moreover note sum
  ultimately have "card (insert (active s) ?U) < 2 * T" by linarith
  then have "card {j. counts s j + 1 \<noteq> 0} < 2 * T" "finite {j. counts s j + 1 \<noteq> 0}"
    using card_mono [OF U used_buffers [OF r]] finite_subset [OF used_buffers [OF r] U] by linarith+
  moreover have "card {g * (2 * T)..<g * (2 * T) + 2 * T} = 2 * T" by simp
  ultimately have "\<not> {g * (2 * T)..<g * (2 * T) + 2 * T} \<subseteq> {j. counts s j + 1 \<noteq> 0}"
    by (metis (no_types, lifting) card_mono not_less)
  then obtain j where "j \<in> {g * (2 * T)..<g * (2 * T) + 2 * T}" "counts s j + 1 = 0" by blast
  then show ?thesis by (intro exI [of _ j]) (auto intro: div_nat_eqI simp: mult.commute)
qed

definition second_scans :: "nat list_sys option" where
  "second_scans = list_schedule 2 [Call 0 (Append 5), Call 1 (Append 6), Steps 0 10, Steps 1 7] (list_start 2)"

lemma empty_buffer_exists_witness:
  "\<exists>s p. second_scans = Some s \<and> pcs s 1 = Scan p 0 0 1 \<and> counts s 0 = 2 \<and> counts s 1 = 0 \<and>
     (\<exists>j. j div 4 = 0 \<and> counts s j + 1 = 0)"
proof -
  have "map_option (\<lambda>s. scan_of (pcs s 1) = Some (0, 0, 1) \<and> counts s 0 = 2 \<and> counts s 1 = 0) second_scans = Some True"
    unfolding second_scans_def by code_simp
  then obtain s where s: "second_scans = Some s" "scan_of (pcs s 1) = Some (0, 0, 1)" "counts s 0 = 2" "counts s 1 = 0"
    unfolding second_scans_def using schedule_shows by blast
  obtain p where p: "pcs s 1 = Scan p 0 0 1" using scan_ofD [OF s(2)] by blast
  from empty_buffer_exists [OF from_start [OF s(1) [unfolded second_scans_def]] _ p] s p show ?thesis by auto
qed

section \<open>Where results are wrong\<close>

text \<open>\<^verbatim>\<open>find_if\<close> can return an element that does not satisfy its predicate and is not the default either, and
  it can read behind the end of a buffer: it gives the buffer back before it reads the element that it returns, and
  another thread can use the buffer meanwhile.\<close>

theorem find_if_returns_other:
  "(\<exists>s p b. reachable (list_init 2) (list_step 2) s \<and> pcs s 0 = Return (FindIf p b) (Item (Some (7 :: nat))) \<and>
      \<not> p 7 \<and> b \<noteq> 7) \<and>
   (\<exists>s p b. reachable (list_init 2) (list_step 2) s \<and> pcs s 0 = Return (FindIf p b) (Item (None :: nat option)))"
proof
  let ?found = "[Call 1 (Append (1 :: nat)), Steps 1 14, Call 0 (FindIf ((=) 1) 0), Steps 0 7, Call 1 ClearList,
    Steps 1 11, Call 1 (Append 7)]"
  let ?P = "\<lambda>s :: nat list_sys. case find_of (pcs s 0) of Some (p, b, x) \<Rightarrow> x = Some 7 \<and> \<not> p 7 \<and> b \<noteq> 7 | None \<Rightarrow> False"
  let ?Q = "\<lambda>s :: nat list_sys. case find_of (pcs s 0) of Some (p, b, x) \<Rightarrow> x = None | None \<Rightarrow> False"
  have "map_option ?P (list_schedule 2 (?found @ [Steps 1 14, Steps 0 1]) (list_start 2)) = Some True" by code_simp
  from schedule_shows [OF this] obtain s where s: "reachable (list_init 2) (list_step 2) s" "?P s" using from_start by blast
  from s(2) obtain p b where p: "find_of (pcs s 0) = Some (p, b, Some 7)" "\<not> p 7" "b \<noteq> 7" by (auto split: option.splits)
  from s(1) find_ofD [OF p(1)] p(2,3) show "\<exists>s p b. reachable (list_init 2) (list_step 2) s \<and> pcs s 0 = Return (FindIf p b) (Item (Some (7 :: nat))) \<and>
      \<not> p 7 \<and> b \<noteq> 7" by (intro exI conjI)
  have "map_option ?Q (list_schedule 2 (?found @ [Steps 1 9, Steps 0 1]) (list_start 2)) = Some True" by code_simp
  from schedule_shows [OF this] obtain s where s: "reachable (list_init 2) (list_step 2) s" "?Q s" using from_start by blast
  from s(2) obtain p b where p: "find_of (pcs s 0) = Some (p, b, None)" by (auto split: option.splits)
  from s(1) find_ofD [OF p] show "\<exists>s p b. reachable (list_init 2) (list_step 2) s \<and> pcs s 0 = Return (FindIf p b) (Item (None :: nat option))"
    by (intro exI conjI)
qed

text \<open>An \<^verbatim>\<open>append\<close> of several elements can append fewer than there is room for: when it has to try again, it keeps the
  number of elements that fitted before.\<close>

lemma append_all_appends_less:
  "\<exists>s. reachable (list_init 3) (list_step 2) s \<and> returned (pcs s 0) = Some (Number 1) \<and> contents 2 s = (3, [3 :: nat]) \<and>
     log s = [(AppendAll [1, 2] 2, Number 2), (ClearList, Finished), (AppendAll [3, 4] 1, Number 1)]"
proof -
  let ?l = "[Call 1 (AppendAll [1 :: nat, 2] 2), Steps 1 14, Call 0 (AppendAll [3, 4] 2), Steps 0 10, Call 1 ClearList,
    Steps 1 15, Steps 0 14]"
  have "map_option (\<lambda>s. returned (pcs s 0) = Some (Number 1) \<and> contents 2 s = (3, [3 :: nat]) \<and>
     same_log (log s) [(AppendAll [1, 2] 2, Number 2), (ClearList, Finished), (AppendAll [3, 4] 1, Number 1)])
    (list_schedule 2 ?l (list_start 3)) = Some True" unfolding contents_def by code_simp
  from schedule_shows [OF this] show ?thesis using from_start same_logD by blast
qed

end
