(* ===== verification/ListLocked.thy ===== *)
theory ListLocked
  imports ListLockFreeConc
begin

text \<open>
  \<^verbatim>\<open>ListLocked\<close> (\<^verbatim>\<open>internal/ListLocked.hpp\<close>), which is used where there is no compare-and-swap. Its functions
  hold a mutex from beginning to end, so that they are functions of its state: the list, the number of spare
  containers on the stack \<^verbatim>\<open>mreserved\<close>, and \<^verbatim>\<open>required\<close>, an \<^verbatim>\<open>unsigned int\<close>. The mutex is recursive: a function
  that \<^verbatim>\<open>apply\<close> calls may call the list again, which is not modelled.
\<close>

record 'a locked_list =
  mlist :: "'a list"
  mreserved :: nat
  required :: "32 word"

definition ll_new :: "32 word \<Rightarrow> 'a locked_list" where
  "ll_new lsize = \<lparr>mlist = [], mreserved = unat lsize, required = lsize\<rparr>"

definition ll_capacity :: "'a locked_list \<Rightarrow> nat" where
  "ll_capacity l = mreserved l + length (mlist l)"

text \<open>The loop that makes containers until there are \<open>n\<close>.\<close>

function ll_fill :: "nat \<Rightarrow> 'a locked_list \<Rightarrow> 'a locked_list" where
  "ll_fill n l = (if mreserved l + length (mlist l) < n then ll_fill n (l\<lparr>mreserved := mreserved l + 1\<rparr>) else l)"
  by pat_completeness auto
termination ll_fill by (relation "measure (\<lambda>(n, l). n - ll_capacity l)") (auto simp: ll_capacity_def)

declare ll_fill.simps [simp del]

definition ll_grow :: "32 word \<Rightarrow> 'a locked_list \<Rightarrow> 'a locked_list" where
  "ll_grow items l =
     (let l1 = l\<lparr>required := required l + items\<rparr> in
      if mreserved l1 + length (mlist l1) < unat (required l1) then ll_fill (unat (required l1 * 2)) l1 else l1)"

definition ll_shrink :: "32 word \<Rightarrow> 'a locked_list \<Rightarrow> 'a locked_list" where
  "ll_shrink items l = l\<lparr>required := required l - items\<rparr>"

definition ll_append :: "'a \<Rightarrow> 'a locked_list \<Rightarrow> bool \<times> 'a locked_list" where
  "ll_append x l =
     (if mreserved l = 0 then (False, l)
      else (True, l\<lparr>mreserved := mreserved l - 1, mlist := mlist l @ [x]\<rparr>))"

text \<open>The loop of the other \<^verbatim>\<open>append\<close>, with \<^verbatim>\<open>max\<close> and the number of elements written.\<close>

fun ll_append_loop :: "'a list \<Rightarrow> nat \<Rightarrow> nat \<Rightarrow> 'a locked_list \<Rightarrow> nat \<times> 'a locked_list" where
  "ll_append_loop [] m k l = (k, l)"
| "ll_append_loop (x # xs) m k l =
     (if m = 0 then (k, l)
      else ll_append_loop xs (m - 1) (k + 1) (l\<lparr>mreserved := mreserved l - 1, mlist := mlist l @ [x]\<rparr>))"

definition ll_append_all :: "'a list \<Rightarrow> 'a locked_list \<Rightarrow> nat \<times> 'a locked_list" where
  "ll_append_all xs l = ll_append_loop xs (mreserved l) 0 l"

definition ll_erase :: "'a \<Rightarrow> 'a locked_list \<Rightarrow> bool \<times> 'a locked_list" where
  "ll_erase x l =
     (True, l\<lparr>mlist := filter (\<lambda>y. x \<noteq> y) (mlist l), mreserved := mreserved l + length (filter ((=) x) (mlist l))\<rparr>)"

text \<open>The loop of \<^verbatim>\<open>delete_if\<close>: what is before \<^verbatim>\<open>cur\<close> and from there on, the containers given back, \<^verbatim>\<open>deleted\<close>.\<close>

fun ll_delete_loop :: "('a \<Rightarrow> bool) \<Rightarrow> 'a list \<Rightarrow> 'a list \<Rightarrow> nat \<Rightarrow> bool \<Rightarrow> 'a list \<times> nat \<times> bool" where
  "ll_delete_loop p before [] back deleted = (before, back, deleted)"
| "ll_delete_loop p before (x # xs) back deleted =
     (if p x then ll_delete_loop p before xs (back + 1) True else ll_delete_loop p (before @ [x]) xs back deleted)"

definition ll_delete_if :: "('a \<Rightarrow> bool) \<Rightarrow> 'a locked_list \<Rightarrow> bool \<times> 'a locked_list" where
  "ll_delete_if p l =
     (case ll_delete_loop p [] (mlist l) (mreserved l) False of
        (xs, back, deleted) \<Rightarrow> (deleted, l\<lparr>mlist := xs, mreserved := back\<rparr>))"

definition ll_clear :: "'a locked_list \<Rightarrow> 'a locked_list" where
  "ll_clear l = l\<lparr>mreserved := mreserved l + length (mlist l), mlist := []\<rparr>"

definition ll_find_if :: "('a \<Rightarrow> bool) \<Rightarrow> 'a \<Rightarrow> 'a locked_list \<Rightarrow> 'a" where
  "ll_find_if p blank l = (case find p (mlist l) of None \<Rightarrow> blank | Some x \<Rightarrow> x)"

text \<open>All calls, with the results of \<open>list_res\<close>; \<^verbatim>\<open>front\<close> and \<^verbatim>\<open>back\<close> of an empty list are undefined.\<close>

fun ll_do :: "'a list_op \<Rightarrow> 'a locked_list \<Rightarrow> 'a list_res \<times> 'a locked_list" where
  "ll_do (Append x) l = (case ll_append x l of (b, l') \<Rightarrow> (Truth b, l'))"
| "ll_do (AppendAll xs n) l = (case ll_append_all xs l of (k, l') \<Rightarrow> (Number k, l'))"
| "ll_do (Erase x) l = (case ll_erase x l of (b, l') \<Rightarrow> (Truth b, l'))"
| "ll_do (DeleteIf p) l = (case ll_delete_if p l of (b, l') \<Rightarrow> (Truth b, l'))"
| "ll_do ClearList l = (Finished, ll_clear l)"
| "ll_do (Reserve n) l = (Finished, ll_fill n l)"
| "ll_do ListSize l = (Number (length (mlist l)), l)"
| "ll_do ListEmpty l = (Truth (mlist l = []), l)"
| "ll_do ListCapacity l = (Number (ll_capacity l), l)"
| "ll_do Front l = (Item (if mlist l = [] then None else Some (hd (mlist l))), l)"
| "ll_do Back l = (Item (if mlist l = [] then None else Some (last (mlist l))), l)"
| "ll_do Apply l = (Seen (mlist l), l)"
| "ll_do (FindIf p b) l = (Item (Some (ll_find_if p b l)), l)"

section \<open>The loops\<close>

lemma ll_fill_spec: "ll_fill n l = l\<lparr>mreserved := mreserved l + (n - ll_capacity l)\<rparr>"
proof (induction n l rule: ll_fill.induct)
  case (1 n l)
  then show ?case by (subst ll_fill.simps) (auto simp: ll_capacity_def)
qed

lemma ll_append_loop_spec:
  "m \<le> mreserved l \<Longrightarrow> ll_append_loop xs m k l =
     (k + min m (length xs), l\<lparr>mreserved := mreserved l - min m (length xs), mlist := mlist l @ take m xs\<rparr>)"
  by (induction xs m k l rule: ll_append_loop.induct) (auto simp: take_Cons' min_def)

lemma ll_delete_loop_spec:
  "ll_delete_loop p ys xs n d = (ys @ filter (\<lambda>x. \<not> p x) xs, n + length (filter p xs), d \<or> (\<exists>x \<in> set xs. p x))"
  by (induction p ys xs n d rule: ll_delete_loop.induct) auto

lemma find_blank: "\<forall>x \<in> set xs. \<not> p x \<Longrightarrow> find p xs = None"
  by (induction xs) auto

lemma filter_remove1: "distinct xs \<Longrightarrow> filter (\<lambda>y. x \<noteq> y) xs = remove1 x xs"
  by (simp add: distinct_remove1_removeAll removeAll_filter_not_eq)

lemma filter_eq_once: "distinct xs \<Longrightarrow> x \<in> set xs \<Longrightarrow> filter ((=) x) xs = [x]"
  by (induction xs) (auto simp: filter_empty_conv)

section \<open>The same list as the lock-free one\<close>

text \<open>The list with a mutex has the same contract as the lock-free one: every call has a result and an effect that
  \<open>list_spec\<close> allows for a bounded list, and keeps the capacity. For \<^verbatim>\<open>erase\<close> this is so only if the element is
  in the list once, and for \<^verbatim>\<open>find_if\<close> if it finds nothing, otherwise it returns an element of the list.\<close>

theorem locked_list_same_contract:
  assumes "ll_do p l = (r, l')"
    and "\<And>x. p = Erase x \<Longrightarrow> x \<in> set (mlist l) \<and> distinct (mlist l)"
  shows "case p of
      FindIf q b \<Rightarrow> l' = l \<and> (\<exists>x. r = Item (Some x) \<and> (if \<exists>y \<in> set (mlist l). q y then x \<in> set (mlist l) \<and> q x else x = b))
    | _ \<Rightarrow> list_spec p r (ll_capacity l, mlist l) = Some (ll_capacity l', mlist l')"
proof (cases p)
  case (AppendAll xs n)
  then show ?thesis using assms(1)
    by (auto simp: ll_append_all_def ll_append_loop_spec ll_capacity_def min_def split: if_splits)
next
  case (Erase x)
  then have d: "x \<in> set (mlist l)" "distinct (mlist l)" using assms(2) by auto
  then have "filter ((=) x) (mlist l) = [x]" by (rule filter_eq_once [rotated])
  moreover have "0 < length (mlist l)" using d(1) by (rule length_pos_if_in_set)
  ultimately show ?thesis using d Erase assms(1)
    by (auto simp: ll_erase_def ll_capacity_def filter_remove1 length_remove1)
next
  case (DeleteIf q)
  have "length (filter q (mlist l)) + length (filter (\<lambda>x. \<not> q x) (mlist l)) = length (mlist l)"
    by (rule sum_length_filter_compl)
  with DeleteIf assms(1) show ?thesis by (auto simp: ll_delete_if_def ll_delete_loop_spec ll_capacity_def)
next
  case (FindIf q b)
  show ?thesis
  proof (cases "find q (mlist l)")
    case None
    then have "\<forall>x \<in> set (mlist l). \<not> q x" by (simp add: find_None_iff)
    with None FindIf assms(1) show ?thesis by (auto simp: ll_find_if_def)
  next
    case (Some x)
    with find_SomeD have "x \<in> set (mlist l) \<and> q x" by metis
    with Some FindIf assms(1) show ?thesis by (auto simp: ll_find_if_def)
  qed
qed (use assms(1) in \<open>auto simp: ll_append_def ll_clear_def ll_capacity_def ll_fill_spec split: if_splits\<close>)

lemma locked_list_same_contract_witness:
  "ll_do (Erase (2 :: nat)) \<lparr>mlist = [1, 2], mreserved = 1, required = 3\<rparr> = (Truth True, \<lparr>mlist = [1], mreserved = 2, required = 3\<rparr>) \<and>
   list_spec (Erase 2) (Truth True) (3, [1, 2]) = Some (3, [1 :: nat])"
proof -
  let ?l = "\<lparr>mlist = [1, 2], mreserved = 1, required = 3\<rparr> :: nat locked_list"
  have e: "ll_do (Erase 2) ?l = (Truth True, \<lparr>mlist = [1], mreserved = 2, required = 3\<rparr>)" by (simp add: ll_erase_def)
  from locked_list_same_contract [OF e] e show ?thesis by (simp add: ll_capacity_def)
qed

text \<open>With an element that is not in the list, or is in it more than once, \<^verbatim>\<open>erase\<close> differs from its documentation and
  from the lock-free list: it always returns true, and erases all of them.\<close>

lemma locked_erase_differs:
  "ll_do (Erase (5 :: nat)) \<lparr>mlist = [1], mreserved = 0, required = 1\<rparr> = (Truth True, \<lparr>mlist = [1], mreserved = 0, required = 1\<rparr>)"
  "list_spec (Erase (5 :: nat)) (Truth True) (1, [1]) = None"
  "ll_do (Erase (1 :: nat)) \<lparr>mlist = [1, 1], mreserved = 0, required = 2\<rparr> = (Truth True, \<lparr>mlist = [], mreserved = 2, required = 2\<rparr>)"
  "list_spec (Erase (1 :: nat)) (Truth True) (2, [1, 1]) = Some (2, [1])"
  by (simp_all add: ll_erase_def)

text \<open>\<^verbatim>\<open>grow\<close> makes room for what is required, as long as that is less than half of what \<^verbatim>\<open>unsigned int\<close> holds.\<close>

lemma grow_makes_room:
  assumes "unat (required l) + unat items < 2 ^ 31"
  shows "unat (required l) + unat items \<le> ll_capacity (ll_grow items l)" and "mlist (ll_grow items l) = mlist l"
proof -
  have s: "unat (required l + items) = unat (required l) + unat items"
    using assms by (intro unat_add_lem [THEN iffD1]) simp
  have "unat ((required l + items) * 2) = unat (required l + items) * unat (2 :: 32 word)"
    using assms s by (intro unat_mult_lem [THEN iffD1]) simp
  then have "unat ((required l + items) * 2) = (unat (required l) + unat items) * 2" by (simp add: s)
  then show "unat (required l) + unat items \<le> ll_capacity (ll_grow items l)" "mlist (ll_grow items l) = mlist l"
    by (auto simp: ll_grow_def Let_def ll_fill_spec ll_capacity_def s)
qed

end
