(* ===== verification/ListStorage.thy ===== *)
theory ListStorage
  imports OroPrelude
begin

text \<open>
  The counted references to the storages of a \<^verbatim>\<open>ListLockFree\<close> (\<^verbatim>\<open>internal/ListLockFree.cpp\<close>): the variable
  \<^verbatim>\<open>bufs\<close> and the local variables of its functions are of type \<^verbatim>\<open>boost::intrusive_ptr\<close>, whose documented
  behaviour is that a copy stores the pointer and then calls \<^verbatim>\<open>intrusive_ptr_add_ref\<close>, that an assignment makes
  a copy, exchanges it with the variable and drops what that held, and that dropping calls
  \<^verbatim>\<open>intrusive_ptr_release\<close>. A function is the list of its accesses to storages; its local variables are numbered.
  A step of a thread is one access.
\<close>

section \<open>The accesses\<close>

record storage_heap =
  bufs :: nat
  ref_of :: "nat \<Rightarrow> int"
  freed :: "nat set"
  touched :: "nat set"           \<comment> \<open>history: storages whose count was used after they were freed\<close>
  next_new :: nat

type_synonym locals = "nat \<Rightarrow> nat"

datatype ptr_act = NewStorage nat | LoadBufs nat | StoreBufs nat | AddRef nat | Release nat

definition use_count :: "nat \<Rightarrow> int \<Rightarrow> storage_heap \<Rightarrow> storage_heap" where
  "use_count p d h =
     h\<lparr>ref_of := (ref_of h)(p := ref_of h p + d), touched := (if p \<in> freed h then insert p (touched h) else touched h)\<rparr>"

definition storage_add_ref :: "nat \<Rightarrow> storage_heap \<Rightarrow> storage_heap" where
  "storage_add_ref p h = use_count p 1 h"

definition storage_release :: "nat \<Rightarrow> storage_heap \<Rightarrow> storage_heap" where
  "storage_release p h = (let h1 = use_count p (- 1) h in if ref_of h1 p = 0 then h1\<lparr>freed := insert p (freed h1)\<rparr> else h1)"

text \<open>A new storage has the count of the variable that it is kept in.\<close>

fun ptr_do :: "ptr_act \<Rightarrow> locals \<times> storage_heap \<Rightarrow> locals \<times> storage_heap" where
  "ptr_do (NewStorage v) (l, h) =
     (l(v := next_new h), h\<lparr>next_new := next_new h + 1, ref_of := (ref_of h)(next_new h := 1)\<rparr>)"
| "ptr_do (LoadBufs v) (l, h) = (l(v := bufs h), h)"
| "ptr_do (StoreBufs v) (l, h) = (l, h\<lparr>bufs := l v\<rparr>)"
| "ptr_do (AddRef v) (l, h) = (l, storage_add_ref (l v) h)"
| "ptr_do (Release v) (l, h) = (l, storage_release (l v) h)"

text \<open>\<^verbatim>\<open>bufptr = bufs\<close> in \<^verbatim>\<open>lockAndGetActive\<close> by a caller whose \<^verbatim>\<open>bufptr\<close> is null, and the end of that caller.\<close>

definition use_bufs :: "ptr_act list" where
  "use_bufs = [LoadBufs 0, AddRef 0, Release 0]"

text \<open>\<^verbatim>\<open>reserve\<close>: \<^verbatim>\<open>res\<close> is variable 0, \<^verbatim>\<open>save\<close> 1; \<^verbatim>\<open>bufs = res\<close> drops the old value, variable 2.\<close>

definition reserve_storage :: "ptr_act list" where
  "reserve_storage =
     [NewStorage 0, LoadBufs 1, AddRef 1, AddRef 0, LoadBufs 2, StoreBufs 0, Release 2, Release 1, Release 0]"

section \<open>Threads\<close>

type_synonym ptr_sys = "(nat \<Rightarrow> ptr_act list \<times> locals) \<times> storage_heap"

fun ptr_step :: "nat \<Rightarrow> ptr_sys \<Rightarrow> ptr_sys" where
  "ptr_step t (ths, h) =
     (case ths t of
        ([], l) \<Rightarrow> (ths, h)
      | (a # as, l) \<Rightarrow> (case ptr_do a (l, h) of (l1, h1) \<Rightarrow> (ths(t := (as, l1)), h1)))"

definition ptr_start :: "(nat \<Rightarrow> ptr_act list) \<Rightarrow> ptr_sys" where
  "ptr_start prog =
     (\<lambda>t. (prog t, \<lambda>_. 0), \<lparr>bufs = 0, ref_of = (\<lambda>_. 0)(0 := 1), freed = {}, touched = {}, next_new = 1\<rparr>)"

definition ptr_run :: "nat list \<Rightarrow> ptr_sys \<Rightarrow> ptr_sys" where
  "ptr_run ts s = fold ptr_step ts s"

lemmas ptr_eval = ptr_run_def ptr_start_def use_bufs_def reserve_storage_def storage_add_ref_def storage_release_def use_count_def

section \<open>What the counts protect\<close>

text \<open>Functions that are executed one after the other never use a freed storage: \<^verbatim>\<open>reserve\<close> frees the storage that it
  replaces and leaves the new one with the count of \<^verbatim>\<open>bufs\<close>, and what uses \<^verbatim>\<open>bufs\<close> leaves the counts as they were.\<close>

definition quiescent :: "storage_heap \<Rightarrow> bool" where
  "quiescent h \<longleftrightarrow> ref_of h (bufs h) = 1 \<and> bufs h \<notin> freed h \<and> touched h = {} \<and>
     (\<forall>p \<ge> next_new h. p \<notin> freed h) \<and> bufs h < next_new h"

lemma use_bufs_quiescent: "quiescent h \<Longrightarrow> quiescent (snd (fold ptr_do use_bufs (l, h)))"
  by (simp add: ptr_eval quiescent_def)

lemma reserve_quiescent:
  assumes "quiescent h"
  shows "quiescent (snd (fold ptr_do reserve_storage (l, h)))"
    and "bufs h \<in> freed (snd (fold ptr_do reserve_storage (l, h)))"
  using assms by (auto simp: ptr_eval quiescent_def Let_def)

text \<open>A thread that has loaded \<^verbatim>\<open>bufs\<close> and not yet incremented its count, while another one executes \<^verbatim>\<open>reserve\<close>,
  increments the count of a storage that was freed: the pointer cannot be copied safely while it is assigned.\<close>

lemma copy_of_bufs_can_touch_freed:
  "touched (snd (ptr_run (0 # replicate 9 1 @ [0]) (ptr_start (\<lambda>t. if t = 0 then use_bufs else reserve_storage)))) = {0}"
  by (simp add: ptr_eval Let_def eval_nat_numeral)

end
