(* ===== verification/Signals.thy ===== *)
theory Signals
  imports OroPrelude "HOL-Library.Sublist" "HOL-Library.Monad_Syntax"
begin

text \<open>
  Signals (\<^verbatim>\<open>internal/SignalBase.cpp\<close>, \<^verbatim>\<open>internal/signal_template.hpp\<close>, \<^verbatim>\<open>Handle.cpp\<close>), as compiled for the lock-free
  list. A signal has a list of connections; a connection has a flag, a pointer to its signal and the function to
  call. The list behaves as a bounded list (theory \<open>ListRuns\<close>), as long as no more of
  its calls are under way than it was made for, nested emissions included: it is the fields \<open>conns\<close> and \<open>scap\<close>. The
  functions that are connected are user code: \<open>env\<close> gives the calls of the signal and its handles that a function
  makes when it is called, which may emit the signal again. \<open>called\<close> is a history of the connections whose
  function was called. Connections are numbered as they are made; they are never deleted, since a
  handle may refer to them.
\<close>

section \<open>State and operations\<close>

record conn =
  mconnected :: bool
  has_signal :: bool     \<comment> \<open>\<open>m_sig\<close> is not null\<close>
  slot :: nat

record signal =
  conns :: "nat list"
  scap :: int
  required :: int
  objs :: "conn list"
  called :: "nat list"

definition signal_new :: signal where
  "signal_new = \<lparr>conns = [], scap = 4, required = 4, objs = [], called = []\<rparr>"

definition connected :: "signal \<Rightarrow> nat \<Rightarrow> bool" where
  "connected s c \<longleftrightarrow> mconnected (objs s ! c) \<and> has_signal (objs s ! c)"

abbreviation with_conn :: "nat \<Rightarrow> (conn \<Rightarrow> conn) \<Rightarrow> signal \<Rightarrow> signal" where
  "with_conn c f s \<equiv> s\<lparr>objs := (objs s)[c := f (objs s ! c)]\<rparr>"

text \<open>\<^verbatim>\<open>ListLockFree::grow\<close>, \<^verbatim>\<open>append\<close> and \<^verbatim>\<open>reserve\<close> on the list of connections.\<close>

definition sig_reserve :: "int \<Rightarrow> signal \<Rightarrow> signal" where
  "sig_reserve n s = (if n \<le> scap s then s else s\<lparr>scap := n\<rparr>)"

definition sig_grow :: "signal \<Rightarrow> signal" where
  "sig_grow s =
     (let s1 = s\<lparr>required := required s + 1\<rparr> in if scap s1 < required s1 then sig_reserve (required s1 * 2) s1 else s1)"

definition conn_connect :: "nat \<Rightarrow> signal \<Rightarrow> signal" where
  "conn_connect c s = (if int (length (conns s)) = scap s then s else s\<lparr>conns := conns s @ [c]\<rparr>)"

definition conn_setup :: "nat \<Rightarrow> signal \<Rightarrow> signal" where
  "conn_setup c s = conn_connect c (sig_grow s)"

definition conn_disconnect :: "nat \<Rightarrow> signal \<Rightarrow> signal" where
  "conn_disconnect c s = s\<lparr>conns := remove1 c (conns s)\<rparr>"

definition conn_destroy :: "nat \<Rightarrow> signal \<Rightarrow> signal" where
  "conn_destroy c s = (conn_disconnect c s)\<lparr>required := required s - 1\<rparr>"

text \<open>\<^verbatim>\<open>setup\<close>, and the functions of \<^verbatim>\<open>ConnectionBase\<close> and \<^verbatim>\<open>Handle\<close>.\<close>

definition sig_setup :: "nat \<Rightarrow> signal \<Rightarrow> nat \<times> signal" where
  "sig_setup f s =
     (let c = length (objs s) in
      (c, conn_setup c (s\<lparr>objs := objs s @ [\<lparr>mconnected = False, has_signal = True, slot = f\<rparr>]\<rparr>)))"

definition cb_connect :: "nat \<Rightarrow> signal \<Rightarrow> bool \<times> signal" where
  "cb_connect c s = (if \<not> has_signal (objs s ! c) then (False, s) else (True, with_conn c (mconnected_update (\<lambda>_. True)) s))"

definition cb_disconnect :: "nat \<Rightarrow> signal \<Rightarrow> bool \<times> signal" where
  "cb_disconnect c s = (if \<not> has_signal (objs s ! c) then (False, s) else (True, with_conn c (mconnected_update (\<lambda>_. False)) s))"

definition cb_destroy :: "nat \<Rightarrow> signal \<Rightarrow> signal" where
  "cb_destroy c s =
     (if \<not> has_signal (objs s ! c) then s
      else conn_destroy c (with_conn c (\<lambda>x. x\<lparr>mconnected := False, has_signal := False\<rparr>) s))"

definition handle_connect :: "nat \<Rightarrow> signal \<Rightarrow> bool \<times> signal" where
  "handle_connect c s = (if connected s c then (True, s) else cb_connect c s)"

definition handle_disconnect :: "nat \<Rightarrow> signal \<Rightarrow> bool \<times> signal" where
  "handle_disconnect c s = (if \<not> connected s c then (True, s) else cb_disconnect c s)"

definition sig_connect :: "nat \<Rightarrow> signal \<Rightarrow> nat \<times> signal" where
  "sig_connect f s = (case sig_setup f s of (c, s1) \<Rightarrow> (c, snd (handle_connect c s1)))"

text \<open>\<^verbatim>\<open>SignalBase::disconnect\<close> and \<^verbatim>\<open>destroy\<close>.\<close>

definition sig_disconnect :: "signal \<Rightarrow> signal" where
  "sig_disconnect s = fold (\<lambda>c s. snd (cb_disconnect c s)) (conns s) s"

partial_function (option) sig_destroy :: "signal \<Rightarrow> signal option" where
  "sig_destroy s = (if conns s = [] then Some s else sig_destroy (cb_destroy (hd (conns s)) s))"

section \<open>Emitting\<close>

text \<open>The calls that users and connected functions make; \<open>OnConn\<close> is the call of \<^verbatim>\<open>emit\<close> of one connection that
  \<^verbatim>\<open>apply\<close> makes. A call that was made is executed before the calls that its caller makes next.\<close>

datatype sig_call =
    Setup nat | Connect nat | HandleConnect nat | HandleDisconnect nat | DestroyHandle nat | DisconnectAll | DestroyAll
  | ReserveConns nat | Emit | OnConn nat

text \<open>What a call does that does not emit; calls with handles that do not exist are not made.\<close>

fun sig_do :: "sig_call \<Rightarrow> signal \<Rightarrow> signal option" where
  "sig_do (Setup f) s = Some (snd (sig_setup f s))"
| "sig_do (Connect f) s = Some (snd (sig_connect f s))"
| "sig_do (HandleConnect c) s = (if c < length (objs s) then Some (snd (handle_connect c s)) else None)"
| "sig_do (HandleDisconnect c) s = (if c < length (objs s) then Some (snd (handle_disconnect c s)) else None)"
| "sig_do (DestroyHandle c) s = (if c < length (objs s) then Some (cb_destroy c s) else None)"
| "sig_do DisconnectAll s = Some (sig_disconnect s)"
| "sig_do DestroyAll s = sig_destroy s"
| "sig_do (ReserveConns n) s = Some (sig_reserve (int n) s)"
| "sig_do _ s = Some s"

partial_function (option) sig_run :: "(nat \<Rightarrow> signal \<Rightarrow> sig_call list) \<Rightarrow> sig_call list \<Rightarrow> signal \<Rightarrow> signal option" where
  "sig_run env todo s =
     (case todo of
        [] \<Rightarrow> Some s
      | k # rest \<Rightarrow>
          (case k of
             Emit \<Rightarrow> sig_run env (map OnConn (conns s) @ rest) s
           | OnConn c \<Rightarrow>
               if mconnected (objs s ! c)
               then sig_run env (env (slot (objs s ! c)) s @ rest) (s\<lparr>called := called s @ [c]\<rparr>)
               else sig_run env rest s
           | _ \<Rightarrow> (case sig_do k s of None \<Rightarrow> None | Some s1 \<Rightarrow> sig_run env rest s1)))"

section \<open>The list of connections\<close>

text \<open>The connections that were not destroyed are in the list, in the order in which they were made, and the list has
  room for the next ones.\<close>

definition live :: "conn list \<Rightarrow> nat list" where
  "live xs = filter (\<lambda>c. has_signal (xs ! c)) [0..<length xs]"

definition flags_ok :: "conn list \<Rightarrow> bool" where
  "flags_ok xs \<longleftrightarrow> (\<forall>x \<in> set xs. mconnected x \<longrightarrow> has_signal x)"

definition signal_inv :: "signal \<Rightarrow> bool" where
  "signal_inv s \<longleftrightarrow>
     conns s = live (objs s) \<and> required s = 4 + int (length (conns s)) \<and> required s \<le> scap s \<and>
     flags_ok (objs s)"

lemma nth_update: "j < length xs \<Longrightarrow> xs[i := y] ! j = (if i = j then y else xs ! j)"
  by (cases "i = j") simp_all

lemma live_add: "live (xs @ [x]) = live xs @ (if has_signal x then [length xs] else [])"
proof -
  have "filter (\<lambda>c. has_signal ((xs @ [x]) ! c)) [0..<length xs] = live xs"
    unfolding live_def by (rule filter_cong) (auto simp: nth_append)
  then show ?thesis by (simp add: live_def)
qed

lemma distinct_live: "distinct (live xs)"
  by (simp add: live_def)

lemma in_live: "c \<in> set (live xs) \<longleftrightarrow> c < length xs \<and> has_signal (xs ! c)"
  by (auto simp: live_def)

lemma live_update:
  "has_signal y = has_signal (xs ! c) \<Longrightarrow> live (xs[c := y]) = live xs"
  "\<not> has_signal y \<Longrightarrow> live (xs[c := y]) = remove1 c (live xs)"
proof -
  show "live (xs[c := y]) = live xs" if "has_signal y = has_signal (xs ! c)"
    unfolding live_def using that by (intro filter_cong) (auto simp: nth_update)
  show "live (xs[c := y]) = remove1 c (live xs)" if "\<not> has_signal y"
  proof -
    have "live (xs[c := y]) = filter (\<lambda>d. d \<noteq> c) (live xs)"
      unfolding live_def filter_filter using that by (intro filter_cong) (auto simp: nth_update)
    also have "\<dots> = remove1 c (live xs)"
      using distinct_live [of xs] by (simp add: distinct_remove1_removeAll removeAll_filter_not_eq eq_commute)
    finally show ?thesis .
  qed
qed

lemma flags_ok_intros:
  "flags_ok xs \<Longrightarrow> mconnected y \<longrightarrow> has_signal y \<Longrightarrow> flags_ok (xs[c := y])"
  "flags_ok xs \<Longrightarrow> mconnected y \<longrightarrow> has_signal y \<Longrightarrow> flags_ok (xs @ [y])"
  using set_update_subset_insert [of xs c y] by (auto simp: flags_ok_def)

lemma setup_inv: "signal_inv s \<Longrightarrow> signal_inv (snd (sig_setup f s)) \<and> fst (sig_setup f s) < length (objs (snd (sig_setup f s)))"
  by (auto simp: signal_inv_def sig_setup_def conn_setup_def conn_connect_def sig_grow_def sig_reserve_def Let_def live_add
      flags_ok_intros)

lemma cb_connect_inv:
  "signal_inv s \<Longrightarrow> c < length (objs s) \<Longrightarrow> signal_inv (snd (cb_connect c s))"
  "signal_inv s \<Longrightarrow> c < length (objs s) \<Longrightarrow> signal_inv (snd (cb_disconnect c s))"
  by (auto simp: signal_inv_def cb_connect_def cb_disconnect_def live_update flags_ok_intros)

lemma destroy_inv:
  assumes "signal_inv s" "c < length (objs s)"
  shows "signal_inv (cb_destroy c s)" and "conns (cb_destroy c s) = remove1 c (conns s)"
proof -
  have l: "has_signal (objs s ! c) \<longleftrightarrow> c \<in> set (conns s)" using assms by (simp add: signal_inv_def in_live)
  show "conns (cb_destroy c s) = remove1 c (conns s)"
    using l by (auto simp: cb_destroy_def conn_destroy_def conn_disconnect_def remove1_idem)
  show "signal_inv (cb_destroy c s)"
  proof (cases "has_signal (objs s ! c)")
    case True
    then have "0 < length (conns s)" using l by (auto intro: length_pos_if_in_set)
    then have "int (length (conns s) - Suc 0) = int (length (conns s)) - 1" by (cases "conns s") simp_all
    with assms True l show ?thesis
      by (auto simp: signal_inv_def cb_destroy_def conn_destroy_def conn_disconnect_def live_update length_remove1
          flags_ok_intros)
  qed (use assms in \<open>simp add: cb_destroy_def\<close>)
qed

lemma handles_keep_inv:
  "signal_inv s \<Longrightarrow> c < length (objs s) \<Longrightarrow> signal_inv (snd (handle_connect c s))"
  "signal_inv s \<Longrightarrow> c < length (objs s) \<Longrightarrow> signal_inv (snd (handle_disconnect c s))"
  by (simp_all add: handle_connect_def handle_disconnect_def cb_connect_inv)

lemma connect_inv: "signal_inv s \<Longrightarrow> signal_inv (snd (sig_connect f s))"
  using setup_inv [of s f] handles_keep_inv by (auto simp: sig_connect_def split: prod.split)

lemma sig_reserve_inv: "signal_inv s \<Longrightarrow> signal_inv (sig_reserve n s)"
  by (auto simp: sig_reserve_def signal_inv_def)

lemma objs_length [simp]:
  "length (objs (snd (cb_connect c s))) = length (objs s)" "length (objs (snd (cb_disconnect c s))) = length (objs s)"
  "length (objs (cb_destroy c s)) = length (objs s)"
  by (simp_all add: cb_connect_def cb_disconnect_def cb_destroy_def conn_destroy_def conn_disconnect_def)

lemma disconnect_inv: "signal_inv s \<Longrightarrow> signal_inv (sig_disconnect s)"
proof -
  have "\<forall>c \<in> set cs. c < length (objs s) \<Longrightarrow> signal_inv s \<Longrightarrow> signal_inv (fold (\<lambda>c s. snd (cb_disconnect c s)) cs s)" for cs
    by (induction cs arbitrary: s) (simp_all add: cb_connect_inv)
  moreover assume "signal_inv s"
  moreover have "\<forall>c \<in> set (conns s). c < length (objs s)" using \<open>signal_inv s\<close> by (simp add: signal_inv_def in_live)
  ultimately show ?thesis unfolding sig_disconnect_def by blast
qed

lemma sig_destroy_returns: "signal_inv s \<Longrightarrow> \<exists>s'. sig_destroy s = Some s' \<and> signal_inv s' \<and> conns s' = [] \<and> called s' = called s"
proof (induction "length (conns s)" arbitrary: s)
  case 0
  then show ?case by (subst sig_destroy.simps) simp
next
  case (Suc n)
  then obtain c cs where c: "conns s = c # cs" by (cases "conns s") simp_all
  have "live (objs s) = c # cs" using Suc.prems c by (simp add: signal_inv_def)
  then have "c \<in> set (live (objs s))" by simp
  then have "c < length (objs s)" by (simp add: in_live)
  note d = destroy_inv [OF Suc.prems this]
  have "called (cb_destroy c s) = called s"
    by (simp add: cb_destroy_def conn_destroy_def conn_disconnect_def)
  with Suc.hyps(1) [OF _ d(1)] Suc.hyps(2) d(2) c show ?case by (subst sig_destroy.simps) auto
qed

lemma sig_do_inv: "signal_inv s \<Longrightarrow> sig_do k s = Some s' \<Longrightarrow> signal_inv s'"
  using setup_inv connect_inv handles_keep_inv destroy_inv(1) disconnect_inv sig_destroy_returns sig_reserve_inv
  by (cases k) (auto split: if_splits, fastforce)

lemma signal_inv_called [simp]: "signal_inv (s\<lparr>called := x\<rparr>) = signal_inv s"
  by (simp add: signal_inv_def)

lemma run_inv: "sig_run env ks s = Some s' \<Longrightarrow> signal_inv s \<Longrightarrow> signal_inv s'"
proof -
  assume r: "sig_run env ks s = Some s'" and i: "signal_inv s"
  have "signal_inv s \<longrightarrow> signal_inv s'"
  proof (rule sig_run.raw_induct [where P = "\<lambda>env ks s s'. signal_inv s \<longrightarrow> signal_inv s'", OF _ r])
    fix run env ks s s'
    assume IH: "\<And>env ks s s'. run env ks s = Some s' \<Longrightarrow> signal_inv s \<longrightarrow> signal_inv s'"
      and body: "(case ks of [] \<Rightarrow> Some s
        | k # rest \<Rightarrow> (case k of
             Emit \<Rightarrow> run env (map OnConn (conns s) @ rest) s
           | OnConn c \<Rightarrow> if mconnected (objs s ! c)
               then run env (env (slot (objs s ! c)) s @ rest) (s\<lparr>called := called s @ [c]\<rparr>) else run env rest s
           | _ \<Rightarrow> (case sig_do k s of None \<Rightarrow> None | Some s1 \<Rightarrow> run env rest s1))) = Some s'"
    have other: "signal_inv s'" if "signal_inv s" "(case sig_do k s of None \<Rightarrow> None | Some s1 \<Rightarrow> run env rest s1) = Some s'" for k rest
    proof (cases "sig_do k s")
      case (Some s1)
      with that have "run env rest s1 = Some s'" "signal_inv s1" using sig_do_inv by auto
      with IH show ?thesis by blast
    qed (use that in simp)
    show "signal_inv s \<longrightarrow> signal_inv s'"
    proof
      assume i: "signal_inv s"
      have ic: "signal_inv (s\<lparr>called := x\<rparr>)" for x using i by simp
      show "signal_inv s'"
      proof (cases ks)
        case Nil
        with body i show ?thesis by simp
      next
        case (Cons k rest)
        note b = body [unfolded Cons list.case]
        show ?thesis
        proof (cases k)
          case Emit
          with b have "run env (map OnConn (conns s) @ rest) s = Some s'" by simp
          from IH [OF this] i show ?thesis by blast
        next
          case (OnConn c)
          with b ic [of "called s @ [c]"] i show ?thesis by (auto simp: sig_call.case split: if_splits dest!: IH)
        qed (use b other [OF i, where k = k and rest = rest] in simp_all)
      qed
    qed
  qed
  with i show ?thesis by blast
qed

text \<open>C36: Whatever is done with a signal and its handles, from outside or by functions that it calls while it emits,
  also emitting it again: its list contains, in the order in which they were made, exactly the connections that were
  not destroyed, each once; the list always has room for the next one, so that none is refused; and a connection that
  was destroyed cannot be connected again.\<close>

theorem signal_keeps_connections:
  assumes "sig_run env ks signal_new = Some s"
  shows "conns s = live (objs s) \<and> int (length (conns s)) + 4 \<le> scap s \<and> (\<forall>c < length (objs s). mconnected (objs s ! c) \<longrightarrow> c \<in> set (conns s))"
proof -
  have "signal_inv s'" if "sig_run env ks s = Some s'" "signal_inv s" for ks s s'
    by (rule run_inv [OF that])
  moreover have "signal_inv signal_new" by (simp add: signal_inv_def signal_new_def live_def flags_ok_def)
  ultimately have "signal_inv s" using assms by blast
  then show ?thesis by (auto simp: signal_inv_def in_live flags_ok_def)
qed

lemma signal_keeps_connections_witness:
  "\<exists>s. sig_run (\<lambda>_ _. [Emit]) [Setup 0, Setup 1, DestroyHandle 0, Emit] signal_new = Some s \<and>
       conns s = live (objs s) \<and> int (length (conns s)) + 4 \<le> scap s"
proof -
  obtain s where s: "sig_run (\<lambda>_ _. [Emit]) [Setup 0, Setup 1, DestroyHandle 0, Emit] signal_new = Some s"
    by (simp add: sig_run.simps signal_new_def sig_setup_def conn_setup_def conn_connect_def sig_grow_def sig_reserve_def
        cb_destroy_def conn_destroy_def conn_disconnect_def)
  with signal_keeps_connections [OF s] show ?thesis by blast
qed

section \<open>What an emission calls\<close>

text \<open>Calls that do not emit, on handles that exist; and calls that do not disconnect \<open>c\<close>. A call keeps the
  connected ones among \<open>P\<close> connected, and connects none of \<open>Q\<close>.\<close>

definition quiet :: "nat \<Rightarrow> sig_call \<Rightarrow> bool" where
  "quiet n k \<longleftrightarrow>
     (case k of Emit \<Rightarrow> False | OnConn c \<Rightarrow> False | HandleConnect c \<Rightarrow> c < n | HandleDisconnect c \<Rightarrow> c < n
      | DestroyHandle c \<Rightarrow> c < n | _ \<Rightarrow> True)"

definition spares :: "nat \<Rightarrow> sig_call \<Rightarrow> bool" where
  "spares c k \<longleftrightarrow> k \<notin> {HandleDisconnect c, DestroyHandle c, DisconnectAll, DestroyAll}"

definition kept_by :: "(nat \<Rightarrow> bool) \<Rightarrow> (nat \<Rightarrow> bool) \<Rightarrow> signal \<Rightarrow> signal \<Rightarrow> bool" where
  "kept_by P Q s s1 \<longleftrightarrow>
     called s1 = called s \<and> length (objs s) \<le> length (objs s1) \<and>
     (\<forall>c < length (objs s). P c \<and> mconnected (objs s ! c) \<longrightarrow> mconnected (objs s1 ! c)) \<and>
     (\<forall>c < length (objs s). Q c \<and> mconnected (objs s1 ! c) \<longrightarrow> mconnected (objs s ! c))"

lemma kept_by_setup: "kept_by P Q s (snd (sig_setup f s))"
  by (auto simp: kept_by_def sig_setup_def conn_setup_def conn_connect_def sig_grow_def sig_reserve_def Let_def nth_append)

lemma kept_by_handles:
  "\<not> Q c \<Longrightarrow> kept_by P Q s (snd (cb_connect c s))" "\<not> P c \<Longrightarrow> kept_by P Q s (snd (cb_disconnect c s))"
  "\<not> P c \<Longrightarrow> kept_by P Q s (cb_destroy c s)"
  by (auto simp: kept_by_def cb_connect_def cb_disconnect_def cb_destroy_def conn_destroy_def conn_disconnect_def nth_update)

lemma kept_by_refl: "kept_by P Q s s"
  by (simp add: kept_by_def)

lemma kept_byD:
  assumes "kept_by P Q s t"
  shows "called t = called s" and "length (objs s) \<le> length (objs t)"
    and "c < length (objs s) \<Longrightarrow> P c \<Longrightarrow> mconnected (objs s ! c) \<Longrightarrow> mconnected (objs t ! c)"
    and "c < length (objs s) \<Longrightarrow> Q c \<Longrightarrow> mconnected (objs t ! c) \<Longrightarrow> mconnected (objs s ! c)"
  using assms by (simp_all add: kept_by_def)

lemma kept_by_trans:
  assumes "kept_by P Q s t" "kept_by P' Q' t u"
  shows "kept_by (\<lambda>c. P c \<and> P' c) (\<lambda>c. Q c \<and> Q' c) s u"
  unfolding kept_by_def
proof (intro conjI allI impI)
  fix c assume c: "c < length (objs s)"
  then have "c < length (objs t)" using kept_byD(2) [OF assms(1)] by simp
  note d = kept_byD(3,4) [OF assms(1) c] kept_byD(3,4) [OF assms(2) this]
  show "(P c \<and> P' c) \<and> mconnected (objs s ! c) \<Longrightarrow> mconnected (objs u ! c)" using d(1,3) by blast
  show "(Q c \<and> Q' c) \<and> mconnected (objs u ! c) \<Longrightarrow> mconnected (objs s ! c)" using d(2,4) by blast
qed (use kept_byD(1,2) [OF assms(1)] kept_byD(1,2) [OF assms(2)] in simp_all)

lemma kept_by_weaken:
  "kept_by P Q s t \<Longrightarrow> (\<And>d. d < length (objs s) \<Longrightarrow> P' d \<Longrightarrow> P d) \<Longrightarrow> (\<And>d. d < length (objs s) \<Longrightarrow> Q' d \<Longrightarrow> Q d) \<Longrightarrow>
   kept_by P' Q' s t"
  by (simp add: kept_by_def)

lemma kept_by_disconnect: "kept_by (\<lambda>_. False) (\<lambda>_. True) s (sig_disconnect s)"
proof -
  have "kept_by (\<lambda>_. False) (\<lambda>_. True) s (fold (\<lambda>c s. snd (cb_disconnect c s)) cs s)" for cs
  proof (induction cs arbitrary: s)
    case (Cons c cs)
    have "kept_by (\<lambda>_. False) (\<lambda>_. True) s (snd (cb_disconnect c s))" by (rule kept_by_handles) simp
    from kept_by_trans [OF this Cons.IH] show ?case by simp
  qed (simp add: kept_by_refl)
  then show ?thesis by (simp add: sig_disconnect_def)
qed

lemma sig_destroy_kept: "signal_inv s \<Longrightarrow> \<exists>s'. sig_destroy s = Some s' \<and> kept_by (\<lambda>_. False) (\<lambda>_. True) s s'"
proof (induction "length (conns s)" arbitrary: s)
  case 0
  then show ?case by (subst sig_destroy.simps) (simp add: kept_by_refl)
next
  case (Suc n)
  then obtain c cs where c: "conns s = c # cs" by (cases "conns s") simp_all
  have "live (objs s) = c # cs" using Suc.prems c by (simp add: signal_inv_def)
  then have "c \<in> set (live (objs s))" by simp
  then have "c < length (objs s)" by (simp add: in_live)
  note d = destroy_inv [OF Suc.prems this]
  with Suc.hyps(1) [of "cb_destroy c s"] Suc.hyps(2) c
  obtain s' where s': "sig_destroy (cb_destroy c s) = Some s'" "kept_by (\<lambda>_. False) (\<lambda>_. True) (cb_destroy c s) s'" by auto
  have "kept_by (\<lambda>_. False) (\<lambda>_. True) s (cb_destroy c s)" by (rule kept_by_handles) simp
  from kept_by_trans [OF this s'(2)] s'(1) c show ?case by (subst sig_destroy.simps) simp
qed

lemma quiet_do:
  assumes i: "signal_inv s" and q: "quiet (length (objs s)) k"
  shows "\<exists>s1. sig_do k s = Some s1 \<and> kept_by (\<lambda>c. spares c k) (\<lambda>c. k \<noteq> HandleConnect c) s s1"
proof -
  have reserve: "kept_by P Q s (sig_reserve n s)" for P Q n by (simp add: sig_reserve_def kept_by_def)
  have hc: "kept_by P (\<lambda>d. c \<noteq> d) s (snd (handle_connect c s))" for P c
    by (simp add: handle_connect_def kept_by_refl kept_by_handles)
  have hd: "kept_by (\<lambda>d. spares d (HandleDisconnect c)) Q s (snd (handle_disconnect c s))" for Q c
    by (simp add: handle_disconnect_def kept_by_refl kept_by_handles spares_def)
  have new: "kept_by P Q s (snd (sig_connect f s))" for P Q f
  proof -
    obtain c s1 where s1: "sig_setup f s = (c, s1)" by (cases "sig_setup f s")
    have k: "kept_by P Q s s1" using kept_by_setup [of P Q s f] s1 by simp
    have c: "length (objs s) \<le> c" using s1 by (auto simp: sig_setup_def Let_def)
    have "kept_by P (\<lambda>d. d \<noteq> c) s1 (snd (handle_connect c s1))"
      by (simp add: handle_connect_def kept_by_refl kept_by_handles)
    from kept_by_trans [OF k this] have "kept_by P Q s (snd (handle_connect c s1))"
      by (rule kept_by_weaken) (use c in auto)
    then show ?thesis using s1 by (simp add: sig_connect_def)
  qed
  show ?thesis
  proof (cases k)
    case (DestroyHandle c)
    with q show ?thesis by (simp add: quiet_def spares_def kept_by_handles)
  next
    case DestroyAll
    with sig_destroy_kept [OF i] show ?thesis by (simp add: spares_def)
  qed (use q kept_by_setup new hc hd reserve kept_by_disconnect in \<open>simp_all add: quiet_def spares_def\<close>)
qed

lemma quiet_mono: "quiet m k \<Longrightarrow> m \<le> n \<Longrightarrow> quiet n k"
  by (auto simp: quiet_def split: sig_call.splits)

lemma quiet_calls:
  assumes "signal_inv s" "\<forall>k \<in> set ks. quiet (length (objs s)) k"
  shows "\<exists>s1. sig_run env (ks @ rest) s = sig_run env rest s1 \<and> signal_inv s1 \<and>
              kept_by (\<lambda>c. \<forall>k \<in> set ks. spares c k) (\<lambda>c. HandleConnect c \<notin> set ks) s s1"
  using assms
proof (induction ks arbitrary: s)
  case Nil
  show ?case using Nil by (auto simp: kept_by_refl)
next
  case (Cons k ks)
  then obtain s1 where s1: "sig_do k s = Some s1" "kept_by (\<lambda>c. spares c k) (\<lambda>c. k \<noteq> HandleConnect c) s s1" using quiet_do by fastforce
  have i: "signal_inv s1" using sig_do_inv Cons.prems(1) s1(1) by blast
  have "length (objs s) \<le> length (objs s1)" using s1(2) by (simp add: kept_by_def)
  then have "\<forall>k \<in> set ks. quiet (length (objs s1)) k" using Cons.prems(2) quiet_mono by auto
  from Cons.IH [OF i this] obtain s2 where s2: "sig_run env (ks @ rest) s1 = sig_run env rest s2" "signal_inv s2"
      "kept_by (\<lambda>c. \<forall>k \<in> set ks. spares c k) (\<lambda>c. HandleConnect c \<notin> set ks) s1 s2" by blast
  have "quiet (length (objs s)) k" using Cons.prems(2) by simp
  then have "sig_run env (k # ks @ rest) s = sig_run env (ks @ rest) s1"
    using s1(1) by (subst sig_run.simps) (cases k; simp add: quiet_def)
  with kept_by_trans [OF s1(2) s2(3)] s2 show ?case by (auto simp: eq_commute)
qed

lemma emit_run:
  assumes q: "\<And>f t. \<forall>k \<in> set (env f t). quiet (length (objs t)) k"
    and "signal_inv s" and "\<forall>c \<in> set cs. c < length (objs s)"
  shows "\<exists>s' ys. sig_run env (map OnConn cs) s = Some s' \<and> called s' = called s @ ys \<and> subseq ys cs \<and>
      (\<forall>c \<in> set cs. mconnected (objs s ! c) \<and> (\<forall>f t. \<forall>k \<in> set (env f t). spares c k) \<longrightarrow> c \<in> set ys) \<and>
      (\<forall>c \<in> set ys. mconnected (objs s ! c) \<or> (\<exists>f t. HandleConnect c \<in> set (env f t)))"
  using assms(2-)
proof (induction cs arbitrary: s)
  case Nil
  show ?case by (subst sig_run.simps) simp
next
  case (Cons c cs)
  show ?case
  proof (cases "mconnected (objs s ! c)")
    case False
    with Cons.IH [OF Cons.prems(1)] Cons.prems(2) show ?thesis
      by (subst sig_run.simps) (fastforce intro: list_emb_Cons)
  next
    case True
    let ?t = "s\<lparr>called := called s @ [c]\<rparr>" and ?ks = "env (slot (objs s ! c)) s"
    have "\<forall>k \<in> set ?ks. quiet (length (objs ?t)) k" using q by simp
    with quiet_calls [of ?t ?ks env "map OnConn cs"] Cons.prems(1) obtain t where t:
      "sig_run env (?ks @ map OnConn cs) ?t = sig_run env (map OnConn cs) t" "signal_inv t"
      "kept_by (\<lambda>c. \<forall>k \<in> set ?ks. spares c k) (\<lambda>c. HandleConnect c \<notin> set ?ks) ?t t" by auto
    have "\<forall>d \<in> set cs. d < length (objs t)" using t(3) Cons.prems(2) by (fastforce simp: kept_by_def)
    from Cons.IH [OF t(2) this] obtain s' ys where s': "sig_run env (map OnConn cs) t = Some s'"
      "called s' = called t @ ys" "subseq ys cs"
      "\<forall>d \<in> set cs. mconnected (objs t ! d) \<and> (\<forall>f t. \<forall>k \<in> set (env f t). spares d k) \<longrightarrow> d \<in> set ys"
      "\<forall>d \<in> set ys. mconnected (objs t ! d) \<or> (\<exists>f t. HandleConnect d \<in> set (env f t))" by blast
    have "mconnected (objs t ! d)" if "d \<in> set cs" "mconnected (objs s ! d)" "\<forall>f t. \<forall>k \<in> set (env f t). spares d k" for d
      using that t(3) Cons.prems(2) by (simp add: kept_by_def)
    moreover have "mconnected (objs s ! d) \<or> (\<exists>f t. HandleConnect d \<in> set (env f t))" if "d \<in> set ys" for d
    proof -
      have "d < length (objs s)" using that s'(3) Cons.prems(2) by (auto dest: list_emb_set)
      then show ?thesis using s'(5) that t(3) by (auto simp: kept_by_def)
    qed
    ultimately show ?thesis using s' t(1,3) True
      by (intro exI [of _ s'] exI [of _ "c # ys"]) (simp add: sig_run.simps [of env "_ # _"] kept_by_def)
  qed
qed

text \<open>C37: Emitting a signal whose functions do not emit it themselves, whatever else they do with the signal and its
  handles, ends; it calls only connections that it had when the emission began, each at most once and in the order in
  which they were made, so that none that was made meanwhile is called; it calls each one that was connected and that
  no function disconnects, and none that was not connected and that no function connects.\<close>

theorem emit_calls_each_once:
  assumes i: "signal_inv s" and q: "\<And>f t. \<forall>k \<in> set (env f t). quiet (length (objs t)) k"
  shows "\<exists>s' ys. sig_run env [Emit] s = Some s' \<and> called s' = called s @ ys \<and> subseq ys (conns s) \<and>
           (\<forall>c \<in> set (conns s). connected s c \<and> (\<forall>f t. \<forall>k \<in> set (env f t). spares c k) \<longrightarrow> c \<in> set ys) \<and>
           (\<forall>c \<in> set ys. connected s c \<or> (\<exists>f t. HandleConnect c \<in> set (env f t)))"
proof -
  have "\<forall>c \<in> set (conns s). c < length (objs s)" using i by (simp add: signal_inv_def in_live)
  moreover have "sig_run env [Emit] s = sig_run env (map OnConn (conns s)) s" by (simp add: sig_run.simps [of _ "[Emit]"])
  moreover have m: "connected s c \<longleftrightarrow> mconnected (objs s ! c)" if "c \<in> set (conns s)" for c
    using that i by (simp add: signal_inv_def in_live connected_def)
  moreover have "c \<in> set (conns s)" if "c \<in> set ys" "subseq ys (conns s)" for c ys
    using that by (auto dest: list_emb_set)
  ultimately show ?thesis using emit_run [of env, OF q i, of "conns s"] by auto
qed

definition two_conns :: signal where
  "two_conns = \<lparr>conns = [0, 1], scap = 12, required = 6, objs =
     [\<lparr>mconnected = True, has_signal = True, slot = 0\<rparr>, \<lparr>mconnected = True, has_signal = True, slot = 1\<rparr>], called = []\<rparr>"

lemma emit_calls_each_once_witness:
  "\<exists>s' ys. sig_run (\<lambda>f _. if f = 0 then [Connect 5] else [ReserveConns 20]) [Emit] two_conns = Some s' \<and>
           called s' = ys \<and> subseq ys [0, 1] \<and> 1 \<in> set ys"
proof -
  let ?env = "\<lambda>f t. if f = 0 then [Connect 5] else [ReserveConns 20]"
  have i: "signal_inv two_conns"
    by (simp add: signal_inv_def two_conns_def live_def flags_ok_def upt_rec)
  have q: "\<forall>k \<in> set (?env f t). quiet (length (objs t)) k" for f t by (simp add: quiet_def)
  have "connected two_conns 1" "conns two_conns = [0, 1]" "called two_conns = []" by (simp_all add: two_conns_def connected_def)
  moreover have "\<forall>f t. \<forall>k \<in> set (?env f t). spares 1 k" by (simp add: spares_def)
  ultimately show ?thesis using emit_calls_each_once [of two_conns ?env, OF i q] by fastforce
qed

end
