(* ===== verification/PeriodicTasks.thy ===== *)
theory PeriodicTasks
  imports OroPrelude
begin

text \<open>
  Activities that share a periodic thread (\<^verbatim>\<open>extras/TimerThread.cpp\<close>, \<^verbatim>\<open>extras/PeriodicActivity.cpp\<close>,
  \<^verbatim>\<open>extras/SimulationThread.cpp\<close>, \<^verbatim>\<open>extras/SimulationActivity.cpp\<close>). The thread has a list of activities and steps them
  one after the other. Activities are numbered; what their runners do is a parameter: \<open>hook_calls\<close> gives the
  calls of \<^verbatim>\<open>start\<close> and \<^verbatim>\<open>stop\<close> that a hook makes, of its own or any other activity, and \<open>init_ok\<close> what
  \<^verbatim>\<open>initialize\<close> returns. A function that calls a hook is split there: the rest of it is an operation of its own. Rounds,
  \<^verbatim>\<open>addActivity\<close> and \<^verbatim>\<open>removeActivity\<close> hold the recursive mutex of the thread, \<^verbatim>\<open>start\<close> and \<^verbatim>\<open>stop\<close> themselves do not: here one
  call ends before the next of another thread begins, and only the calls that hooks make are nested in it.
  \<open>events\<close> is a history.
\<close>

section \<open>The list of activities\<close>

definition MAX_ACTIVITIES :: nat where
  "MAX_ACTIVITIES = 64"

datatype pa_event =
    PInit nat | PReady nat | PRefused nat   \<comment> \<open>\<^verbatim>\<open>initialize\<close> is called, and has returned true or false\<close>
  | PStep nat
  | PFinal nat | PDone nat                  \<comment> \<open>\<^verbatim>\<open>finalize\<close> is called, and has returned\<close>

record periodic =
  tasks :: "nat option list"
  cleanup :: bool
  p_active :: "nat \<Rightarrow> bool"
  p_running :: "nat \<Rightarrow> bool"
  thread_on :: bool
  seconds :: nat                \<comment> \<open>periods that \<^verbatim>\<open>SimulationThread\<close> has advanced the clock\<close>
  events :: "pa_event list"

definition addActivity :: "nat \<Rightarrow> periodic \<Rightarrow> bool \<times> periodic" where
  "addActivity i s =
     (if length (tasks s) = MAX_ACTIVITIES then (False, s) else (True, s\<lparr>tasks := tasks s @ [Some i]\<rparr>))"

text \<open>\<^verbatim>\<open>find\<close>: the first position from \<open>k\<close> on with a null pointer, or without.\<close>

function find_null :: "'a option list \<Rightarrow> nat \<Rightarrow> nat" where
  "find_null ts k = (if k < length ts \<and> ts ! k \<noteq> None then find_null ts (k + 1) else k)"
  by pat_completeness auto
termination by (relation "measure (\<lambda>(ts, k). length ts - k)") auto

function skip_null :: "'a option list \<Rightarrow> nat \<Rightarrow> nat" where
  "skip_null ts k = (if k < length ts \<and> ts ! k = None then skip_null ts (k + 1) else k)"
  by pat_completeness auto
termination by (relation "measure (\<lambda>(ts, k). length ts - k)") auto

declare find_null.simps [simp del] skip_null.simps [simp del]

fun find_task :: "nat \<Rightarrow> nat option list \<Rightarrow> nat" where
  "find_task i [] = 0"
| "find_task i (t # ts) = (if t = Some i then 0 else find_task i ts + 1)"

definition removeActivity :: "nat \<Rightarrow> periodic \<Rightarrow> bool \<times> periodic" where
  "removeActivity i s =
     (let k = find_task i (tasks s) in
      if k < length (tasks s) then (True, s\<lparr>tasks := (tasks s)[k := None], cleanup := True\<rparr>) else (False, s))"

text \<open>\<^verbatim>\<open>reorderList\<close>: \<open>copy_down\<close> copies from \<open>begin\<close> to \<open>end\<close> down to \<open>it\<close>. With no null pointer in the list the code
  advances an iterator past its end, which is \<open>None\<close>.\<close>

function copy_down :: "'a list \<Rightarrow> nat \<Rightarrow> nat \<Rightarrow> nat \<Rightarrow> 'a list \<times> nat" where
  "copy_down ts it bg en = (if bg < en then copy_down (ts[it := ts ! bg]) (it + 1) (bg + 1) en else (ts, it))"
  by pat_completeness auto
termination by (relation "measure (\<lambda>(ts, it, bg, en). en - bg)") auto

declare copy_down.simps [simp del]

partial_function (option) reorder_loop :: "'a option list \<Rightarrow> nat \<Rightarrow> nat \<Rightarrow> 'a option list option" where
  "reorder_loop ts it bg =
     (if it = length ts then Some ts
      else let bg1 = skip_null ts bg in
        if bg1 = length ts then Some (take it ts)
        else let en = find_null ts bg1; r = copy_down ts it bg1 en in reorder_loop (fst r) (snd r) en)"

definition reorderList :: "periodic \<Rightarrow> periodic option" where
  "reorderList s =
     (let it = find_null (tasks s) 0 in
      if it = length (tasks s) then None
      else map_option (\<lambda>ts. s\<lparr>tasks := ts, cleanup := False\<rparr>) (reorder_loop (tasks s) it (it + 1)))"

section \<open>Starting, stopping and stepping\<close>

text \<open>The operations: \<open>Initialized\<close> and \<open>Finalized\<close> are what \<^verbatim>\<open>start\<close> and \<^verbatim>\<open>stop\<close> do after the hook,
  \<open>StepFrom\<close> and \<open>StopFrom\<close> the loops over the list.\<close>

datatype pa_op =
    StartAct nat | Initialized nat | StopAct nat | Finalized nat
  | StepAll | StepFrom nat | StopAll | StopFrom nat | AdvanceClock

record pa_env =
  hook_calls :: "pa_event \<Rightarrow> periodic \<Rightarrow> pa_op list"
  init_ok :: "nat \<Rightarrow> periodic \<Rightarrow> bool"
  can_start :: bool                        \<comment> \<open>what \<^verbatim>\<open>start\<close> of the thread returns\<close>
  sim :: bool                              \<comment> \<open>\<^verbatim>\<open>SimulationActivity\<close>, which does not look at the thread\<close>

abbreviation event :: "pa_event \<Rightarrow> periodic \<Rightarrow> periodic" where
  "event e s \<equiv> s\<lparr>events := events s @ [e]\<rparr>"

definition call_hook :: "pa_env \<Rightarrow> pa_event \<Rightarrow> pa_op list \<Rightarrow> periodic \<Rightarrow> pa_op list \<times> periodic" where
  "call_hook E e rest s = (hook_calls E e (event e s) @ rest, event e s)"

definition set_active :: "nat \<Rightarrow> bool \<Rightarrow> periodic \<Rightarrow> periodic" where
  "set_active i b s = s\<lparr>p_active := (p_active s)(i := b)\<rparr>"

definition set_running :: "nat \<Rightarrow> bool \<Rightarrow> periodic \<Rightarrow> periodic" where
  "set_running i b s = s\<lparr>p_running := (p_running s)(i := b)\<rparr>"

definition pa_start :: "pa_env \<Rightarrow> nat \<Rightarrow> periodic \<Rightarrow> pa_op list \<times> periodic" where
  "pa_start E i s =
     (if p_active s i then ([], s)
      else if \<not> sim E \<and> \<not> thread_on s \<and> \<not> can_start E then ([], s)
      else call_hook E (PInit i) [Initialized i] (set_active i True (s\<lparr>thread_on := thread_on s \<or> \<not> sim E\<rparr>)))"

definition pa_initialized :: "pa_env \<Rightarrow> nat \<Rightarrow> periodic \<Rightarrow> pa_op list \<times> periodic" where
  "pa_initialized E i s =
     (if \<not> init_ok E i s then ([], event (PRefused i) (set_active i False s))
      else case addActivity i (event (PReady i) s) of
             (False, s1) \<Rightarrow> call_hook E (PFinal i) [Finalized i] s1
           | (True, s1) \<Rightarrow> ([], set_running i True s1))"

definition pa_stop :: "pa_env \<Rightarrow> nat \<Rightarrow> periodic \<Rightarrow> pa_op list \<times> periodic" where
  "pa_stop E i s =
     (if \<not> p_active s i then ([], s)
      else case removeActivity i s of
             (False, s1) \<Rightarrow> ([], s1)
           | (True, s1) \<Rightarrow> call_hook E (PFinal i) [Finalized i] (set_running i False s1))"

definition pa_finalized :: "nat \<Rightarrow> periodic \<Rightarrow> pa_op list \<times> periodic" where
  "pa_finalized i s = ([], event (PDone i) (set_active i False s))"

text \<open>The end of both loops.\<close>

definition reorder :: "periodic \<Rightarrow> (pa_op list \<times> periodic) option" where
  "reorder s = map_option (Pair []) (if cleanup s then reorderList s else Some s)"

definition step_from :: "pa_env \<Rightarrow> nat \<Rightarrow> periodic \<Rightarrow> (pa_op list \<times> periodic) option" where
  "step_from E k s =
     (if k < length (tasks s)
      then Some (case tasks s ! k of None \<Rightarrow> ([StepFrom (k + 1)], s) | Some i \<Rightarrow> call_hook E (PStep i) [StepFrom (k + 1)] s)
      else reorder s)"

definition stop_from :: "nat \<Rightarrow> periodic \<Rightarrow> (pa_op list \<times> periodic) option" where
  "stop_from k s =
     (if k < length (tasks s)
      then Some (case tasks s ! k of None \<Rightarrow> ([StopFrom (k + 1)], s) | Some i \<Rightarrow> ([StopAct i, StopFrom (k + 1)], s))
      else reorder s)"

fun pa_next :: "pa_env \<Rightarrow> pa_op \<Rightarrow> periodic \<Rightarrow> (pa_op list \<times> periodic) option" where
  "pa_next E (StartAct i) s = Some (pa_start E i s)"
| "pa_next E (Initialized i) s = Some (pa_initialized E i s)"
| "pa_next E (StopAct i) s = Some (pa_stop E i s)"
| "pa_next E (Finalized i) s = Some (pa_finalized i s)"
| "pa_next E StepAll s = Some ([StepFrom 0], s)"
| "pa_next E (StepFrom k) s = step_from E k s"
| "pa_next E StopAll s = Some ([StopFrom 0], s)"
| "pa_next E (StopFrom k) s = stop_from k s"
| "pa_next E AdvanceClock s = Some ([], s\<lparr>seconds := seconds s + 1\<rparr>)"

partial_function (option) pa_run :: "pa_env \<Rightarrow> pa_op list \<Rightarrow> periodic \<Rightarrow> periodic option" where
  "pa_run E todo s =
     (case todo of
        [] \<Rightarrow> Some s
      | k # rest \<Rightarrow> (case pa_next E k s of None \<Rightarrow> None | Some (ks, s1) \<Rightarrow> pa_run E (ks @ rest) s1))"

definition pa_new :: periodic where
  "pa_new = \<lparr>tasks = [], cleanup = False, p_active = \<lambda>_. False, p_running = \<lambda>_. False, thread_on = False,
             seconds = 0, events = []\<rparr>"

section \<open>\<open>reorderList\<close> removes the null pointers\<close>

abbreviation present :: "'a option list \<Rightarrow> 'a option list" where
  "present \<equiv> filter (\<lambda>t. t \<noteq> None)"

lemma find_null_eqs:
  "k < length ts \<Longrightarrow> ts ! k \<noteq> None \<Longrightarrow> find_null ts k = find_null ts (k + 1)"
  "\<not> (k < length ts \<and> ts ! k \<noteq> None) \<Longrightarrow> find_null ts k = k"
  using find_null.simps [of ts k] by auto

lemma skip_null_eqs:
  "k < length ts \<Longrightarrow> ts ! k = None \<Longrightarrow> skip_null ts k = skip_null ts (k + 1)"
  "\<not> (k < length ts \<and> ts ! k = None) \<Longrightarrow> skip_null ts k = k"
  using skip_null.simps [of ts k] by auto

lemma copy_down_eqs:
  "bg < en \<Longrightarrow> copy_down ts it bg en = copy_down (ts[it := ts ! bg]) (it + 1) (bg + 1) en"
  "\<not> bg < en \<Longrightarrow> copy_down ts it bg en = (ts, it)"
  using copy_down.simps [of ts it bg en] by auto

lemma find_null_spec:
  "k \<le> length ts \<Longrightarrow> k \<le> find_null ts k \<and> find_null ts k \<le> length ts \<and>
   (\<forall>j. k \<le> j \<and> j < find_null ts k \<longrightarrow> ts ! j \<noteq> None) \<and> (find_null ts k < length ts \<longrightarrow> ts ! find_null ts k = None)"
proof (induction ts k rule: find_null.induct)
  case (1 ts k)
  show ?case
  proof (cases "k < length ts \<and> ts ! k \<noteq> None")
    case True
    then have e: "find_null ts k = find_null ts (k + 1)" by (intro find_null_eqs(1)) simp_all
    from True 1(1) have IH: "k + 1 \<le> find_null ts (k + 1)" "find_null ts (k + 1) \<le> length ts"
      "\<forall>j. k + 1 \<le> j \<and> j < find_null ts (k + 1) \<longrightarrow> ts ! j \<noteq> None"
      "find_null ts (k + 1) < length ts \<longrightarrow> ts ! find_null ts (k + 1) = None" by simp_all
    have "ts ! j \<noteq> None" if "k \<le> j" "j < find_null ts (k + 1)" for j
      using IH(3) that True by (cases "j = k") auto
    with IH show ?thesis unfolding e by auto
  next
    case False
    with 1(2) show ?thesis by (auto simp: find_null_eqs(2))
  qed
qed

lemma skip_null_spec:
  "k \<le> length ts \<Longrightarrow> k \<le> skip_null ts k \<and> skip_null ts k \<le> length ts \<and> present (drop (skip_null ts k) ts) = present (drop k ts) \<and>
   (skip_null ts k < length ts \<longrightarrow> ts ! skip_null ts k \<noteq> None)"
proof (induction ts k rule: skip_null.induct)
  case (1 ts k)
  show ?case
  proof (cases "k < length ts \<and> ts ! k = None")
    case True
    then have e: "skip_null ts k = skip_null ts (k + 1)" by (intro skip_null_eqs(1)) simp_all
    from True have "present (drop k ts) = present (drop (k + 1) ts)" by (simp flip: Cons_nth_drop_Suc)
    with True 1(1) show ?thesis unfolding e by simp
  next
    case False
    with 1(2) show ?thesis by (auto simp: skip_null_eqs(2))
  qed
qed

lemma copy_down_spec:
  "it \<le> bg \<Longrightarrow> bg \<le> en \<Longrightarrow> en \<le> length ts \<Longrightarrow>
   (\<exists>ts'. copy_down ts it bg en = (ts', it + (en - bg)) \<and> length ts' = length ts \<and>
     take (it + (en - bg)) ts' = take it ts @ take (en - bg) (drop bg ts) \<and> drop en ts' = drop en ts)"
proof (induction ts it bg en rule: copy_down.induct)
  case (1 ts it bg en)
  show ?case
  proof (cases "bg < en")
    case True
    then have e: "en - bg = Suc (en - (bg + 1))" by simp
    have t: "take (it + 1) (ts[it := ts ! bg]) = take it ts @ [ts ! bg]" using True 1 by (simp add: take_Suc_conv_app_nth)
    have d: "take (en - bg) (drop bg ts) = ts ! bg # take (en - (bg + 1)) (drop (bg + 1) ts)"
      using True 1 unfolding e by (simp flip: Cons_nth_drop_Suc)
    obtain ts' where "copy_down (ts[it := ts ! bg]) (it + 1) (bg + 1) en = (ts', it + 1 + (en - (bg + 1)))"
      "length ts' = length (ts[it := ts ! bg])"
      "take (it + 1 + (en - (bg + 1))) ts' = take (it + 1) (ts[it := ts ! bg]) @ take (en - (bg + 1)) (drop (bg + 1) (ts[it := ts ! bg]))"
      "drop en ts' = drop en (ts[it := ts ! bg])"
      using 1(1) [OF True] 1(2-) True by auto
    moreover have "it + 1 + (en - (bg + 1)) = it + (en - bg)" using True by simp
    moreover have "drop (bg + 1) (ts[it := ts ! bg]) = drop (bg + 1) ts" "drop en (ts[it := ts ! bg]) = drop en ts"
      using 1(2) True by simp_all
    ultimately show ?thesis using True t d by (simp only: copy_down_eqs(1)) simp
  next
    case False
    with 1(3) show ?thesis by (simp add: copy_down_eqs(2))
  qed
qed

lemma present_all: "\<forall>j < length ts. ts ! j \<noteq> None \<Longrightarrow> present ts = ts"
  by (simp add: filter_id_conv all_set_conv_all_nth)

lemma reorder_loop_spec:
  "it < bg \<Longrightarrow> bg \<le> length ts \<Longrightarrow>
   reorder_loop ts it bg = Some (take it ts @ present (drop bg ts))"
proof (induction "length ts - bg" arbitrary: ts it bg rule: less_induct)
  case less
  let ?b = "skip_null ts bg" and ?e = "find_null ts (skip_null ts bg)"
  have b: "bg \<le> ?b" "?b \<le> length ts" "present (drop ?b ts) = present (drop bg ts)" "?b < length ts \<longrightarrow> ts ! ?b \<noteq> None"
    using skip_null_spec less.prems by auto
  have e: "?b \<le> ?e" "?e \<le> length ts" "\<forall>j. ?b \<le> j \<and> j < ?e \<longrightarrow> ts ! j \<noteq> None" "?e < length ts \<longrightarrow> ts ! ?e = None"
    using find_null_spec b(2) by auto
  show ?case
  proof (cases "?b = length ts")
    case True
    with b(3) less.prems show ?thesis by (subst reorder_loop.simps) simp
  next
    case False
    then have be: "?b < ?e" using b(2,4) e by (metis le_neq_implies_less)
    obtain ts' where ts': "copy_down ts it ?b ?e = (ts', it + (?e - ?b))" "length ts' = length ts"
      "take (it + (?e - ?b)) ts' = take it ts @ take (?e - ?b) (drop ?b ts)" "drop ?e ts' = drop ?e ts"
      using copy_down_spec [of it ?b ?e ts] less.prems(1) b(1) be e(2) by auto
    have p: "present (take (?e - ?b) (drop ?b ts)) = take (?e - ?b) (drop ?b ts)"
      using e(2,3) by (intro present_all) simp
    have "drop ?b ts = take (?e - ?b) (drop ?b ts) @ drop ?e ts"
      using be by (metis append_take_drop_id drop_drop le_add_diff_inverse2 less_imp_le)
    then have "present (drop ?b ts) = take (?e - ?b) (drop ?b ts) @ present (drop ?e ts)"
      using p by (metis filter_append)
    moreover have "reorder_loop ts' (it + (?e - ?b)) ?e = Some (take (it + (?e - ?b)) ts' @ present (drop ?e ts'))"
      using be b(1) e(2) ts'(2) less.prems by (intro less.hyps) auto
    ultimately show ?thesis using False less.prems ts' b(3) by (subst reorder_loop.simps) (simp add: Let_def)
  qed
qed

lemma reorderList_spec:
  "None \<in> set (tasks s) \<Longrightarrow> reorderList s = Some (s\<lparr>tasks := present (tasks s), cleanup := False\<rparr>)"
proof -
  assume n: "None \<in> set (tasks s)"
  let ?k = "find_null (tasks s) 0"
  have k: "?k \<le> length (tasks s)" "\<forall>j < ?k. tasks s ! j \<noteq> None" "?k < length (tasks s) \<longrightarrow> tasks s ! ?k = None"
    using find_null_spec [of 0 "tasks s"] by auto
  then have l: "?k < length (tasks s)" using n by (metis in_set_conv_nth le_neq_implies_less)
  have "present (take ?k (tasks s)) = take ?k (tasks s)" using k by (intro present_all) simp
  moreover have "present (drop ?k (tasks s)) = present (drop (?k + 1) (tasks s))" using l k(3) by (simp flip: Cons_nth_drop_Suc)
  ultimately have "present (tasks s) = take ?k (tasks s) @ present (drop (?k + 1) (tasks s))"
    by (metis append_take_drop_id filter_append)
  then show ?thesis using l reorder_loop_spec [of ?k "?k + 1" "tasks s"] by (simp add: reorderList_def Let_def)
qed

section \<open>The thread for a priority and a period\<close>

text \<open>\<^verbatim>\<open>TimerThread::Instance\<close>: the list has weak pointers, \<open>None\<close> if the thread was deleted. \<open>inst_find\<close> is the loop,
  which begins again after it has erased a pointer. The argument \<open>check\<close> is \<^verbatim>\<open>os::CheckPriority\<close>, which adjusts a
  scheduler and priority to what the operating system has; periods are in nanoseconds.\<close>

record timer_thread =
  tt_sched :: int
  tt_prio :: int
  tt_period :: int
  tt_affinity :: nat

definition serves :: "int \<Rightarrow> int \<Rightarrow> int \<Rightarrow> timer_thread \<Rightarrow> bool" where
  "serves sched prio per t \<longleftrightarrow> tt_sched t = sched \<and> tt_prio t = prio \<and> tt_period t = per"

function inst_find :: "(timer_thread \<Rightarrow> bool) \<Rightarrow> timer_thread option list \<Rightarrow> nat \<Rightarrow> timer_thread option \<times> timer_thread option list" where
  "inst_find P ts k =
     (if k \<ge> length ts then (None, ts)
      else case ts ! k of
             None \<Rightarrow> inst_find P (take k ts @ drop (k + 1) ts) 0
           | Some t \<Rightarrow> if P t then (Some t, ts) else inst_find P ts (k + 1))"
  by pat_completeness auto
termination
  by (relation "measures [\<lambda>(P, ts, k). length ts, \<lambda>(P, ts, k). length ts - k]") auto

declare inst_find.simps [simp del]

definition tt_Instance ::
    "(int \<Rightarrow> int \<Rightarrow> int \<times> int) \<Rightarrow> int \<Rightarrow> int \<Rightarrow> int \<Rightarrow> nat \<Rightarrow> timer_thread option list \<Rightarrow> timer_thread \<times> timer_thread option list" where
  "tt_Instance check sched prio per aff ts =
     (case check sched prio of (sched1, prio1) \<Rightarrow>
        case inst_find (serves sched1 prio1 per) ts 0 of
          (Some t, ts1) \<Rightarrow> (t, ts1)
        | (None, ts1) \<Rightarrow>
            let t = \<lparr>tt_sched = sched1, tt_prio = prio1, tt_period = per, tt_affinity = aff\<rparr> in (t, ts1 @ [Some t]))"

fun living :: "'a option list \<Rightarrow> 'a list" where
  "living [] = []"
| "living (None # ts) = living ts"
| "living (Some t # ts) = t # living ts"

lemma living_append [simp]: "living (ts @ us) = living ts @ living us"
  by (induction ts rule: living.induct) simp_all

lemma set_living [simp]: "t \<in> set (living ts) \<longleftrightarrow> Some t \<in> set ts"
  by (induction ts rule: living.induct) auto

lemma living_drop: "k < length ts \<Longrightarrow> ts ! k = None \<Longrightarrow> living (take k ts @ drop (k + 1) ts) = living ts"
  by (subst (3) id_take_nth_drop [of k ts]) simp_all

lemma inst_find_spec:
  "\<forall>j < k. j < length ts \<longrightarrow> (\<exists>t. ts ! j = Some t \<and> \<not> P t) \<Longrightarrow>
   fst (inst_find P ts k) = find P (living ts) \<and> living (snd (inst_find P ts k)) = living ts"
proof (induction P ts k rule: inst_find.induct)
  case (1 P ts k)
  have before: "find P (living (take k ts)) = None"
  proof -
    have "\<not> P t" if "t \<in> set (living (take k ts))" for t
    proof -
      have "Some t \<in> set (take k ts)" using that by simp
      then show ?thesis using 1(3) by (auto simp: in_set_conv_nth)
    qed
    then show ?thesis by (simp add: find_None_iff)
  qed
  consider (ended) "length ts \<le> k" | (dead) "k < length ts" "ts ! k = None"
    | (other) t where "k < length ts" "ts ! k = Some t" "\<not> P t" | (found) t where "k < length ts" "ts ! k = Some t" "P t"
    by (meson not_le not_Some_eq)
  then show ?case
  proof cases
    case ended
    then show ?thesis using before by (simp add: inst_find.simps [of P ts k])
  next
    case dead
    then show ?thesis using 1(1) living_drop [OF dead] by (simp add: inst_find.simps [of P ts k])
  next
    case other
    have "\<forall>j < k + 1. j < length ts \<longrightarrow> (\<exists>t. ts ! j = Some t \<and> \<not> P t)" using 1(3) other(2,3) by (auto simp: less_Suc_eq)
    with other 1(2) show ?thesis by (simp add: inst_find.simps [of P ts k])
  next
    case found
    have "living ts = living (take k ts) @ t # living (drop (k + 1) ts)"
      using found by (subst id_take_nth_drop [of k ts]) simp_all
    with found before show ?thesis by (simp add: inst_find.simps [of P ts k] find_append)
  qed
qed

text \<open>There is at most one living thread for a scheduler, a priority and a period, and it is the one that is returned.\<close>

definition one_each :: "timer_thread option list \<Rightarrow> bool" where
  "one_each ts \<longleftrightarrow> distinct (map (\<lambda>t. (tt_sched t, tt_prio t, tt_period t)) (living ts))"

lemma instance_unique:
  assumes "one_each ts" "check sched prio = (sched1, prio1)" "tt_Instance check sched prio per aff ts = (t, ts1)"
  shows "one_each ts1" and "serves sched1 prio1 per t" and "t \<in> set (living ts1)"
    and "\<And>u. u \<in> set (living ts1) \<Longrightarrow> serves sched1 prio1 per u \<Longrightarrow> u = t"
proof -
  obtain r ts2 where r: "inst_find (serves sched1 prio1 per) ts 0 = (r, ts2)" by (cases "inst_find (serves sched1 prio1 per) ts 0")
  have s: "r = find (serves sched1 prio1 per) (living ts)" "living ts2 = living ts"
    using inst_find_spec [of 0 ts "serves sched1 prio1 per"] r by simp_all
  have all: "one_each ts1 \<and> serves sched1 prio1 per t \<and> t \<in> set (living ts1)"
  proof (cases r)
    case None
    then have "\<forall>u \<in> set (living ts). \<not> serves sched1 prio1 per u" using s(1) by (simp add: find_None_iff)
    with None assms s r show ?thesis
      by (auto simp: tt_Instance_def one_each_def serves_def Let_def)
  next
    case (Some u)
    then have "serves sched1 prio1 per u" "u \<in> set (living ts2)" using s find_SomeD by metis+
    with Some assms s r show ?thesis by (simp add: tt_Instance_def one_each_def)
  qed
  then show "one_each ts1" "serves sched1 prio1 per t" "t \<in> set (living ts1)" by simp_all
  show "u = t" if "u \<in> set (living ts1)" "serves sched1 prio1 per u" for u
    using that all by (auto simp: one_each_def serves_def distinct_map inj_on_def)
qed

text \<open>The processor affinity that was asked for is ignored if there is a thread already.\<close>

lemma affinity_ignored:
  "tt_affinity (fst (tt_Instance Pair 1 5 1000 2 (snd (tt_Instance Pair 1 5 1000 1 [])))) = 1"
  by (simp add: tt_Instance_def inst_find.simps serves_def Let_def)

section \<open>Simulation\<close>

text \<open>\<^verbatim>\<open>SimulationThread\<close>: what one \<^verbatim>\<open>step\<close> of the thread does, with \<^verbatim>\<open>cursteps\<close> and \<^verbatim>\<open>maxsteps_\<close>, and whether it calls
  \<^verbatim>\<open>stop\<close>; and \<^verbatim>\<open>run\<close>, which executes rounds in the calling thread.\<close>

definition sim_start :: "nat option \<Rightarrow> nat option" where
  "sim_start maxsteps = (case maxsteps of None \<Rightarrow> Some 0 | Some n \<Rightarrow> if n = 0 then None else Some n)"

definition sim_step :: "nat \<Rightarrow> nat \<Rightarrow> nat \<times> pa_op list \<times> bool" where
  "sim_step maxsteps cursteps =
     (let c = cursteps + 1 in
      (c, if maxsteps = 0 \<or> c < maxsteps + 1 then [StepAll, AdvanceClock] else [], c = maxsteps))"

definition sim_run :: "nat \<Rightarrow> bool \<Rightarrow> pa_op list option" where
  "sim_run ms running = (if ms = 0 \<or> running then None else Some (concat (replicate ms [StepAll, AdvanceClock])))"

fun sim_steps :: "nat \<Rightarrow> nat \<Rightarrow> nat \<Rightarrow> pa_op list \<times> nat" where
  "sim_steps maxsteps c 0 = ([], 0)"
| "sim_steps maxsteps c (Suc n) =
     (case sim_step maxsteps c of (c1, ops, stopped) \<Rightarrow>
        case sim_steps maxsteps c1 n of (ops1, stops) \<Rightarrow> (ops @ ops1, stops + (if stopped then 1 else 0)))"

lemma simulation_over: "m > 0 \<Longrightarrow> m < c \<Longrightarrow> sim_steps m c n = ([], 0)"
  by (induction n arbitrary: c) (simp_all add: sim_step_def Let_def)

text \<open>A thread that was started with a number of steps executes this many rounds, also if it goes on being called, and
  stops itself once.\<close>

lemma simulation_stops:
  "maxsteps > 0 \<Longrightarrow> c \<le> maxsteps \<Longrightarrow> n \<ge> maxsteps - c \<Longrightarrow>
   sim_steps maxsteps c n = (concat (replicate (maxsteps - c) [StepAll, AdvanceClock]), if c < maxsteps then 1 else 0)"
proof (induction maxsteps c n rule: sim_steps.induct)
  case (2 m c n)
  show ?case
  proof (cases "c < m")
    case True
    then have "m - c = Suc (m - (c + 1))" by simp
    with True 2 show ?thesis by (auto simp: sim_step_def Let_def)
  next
    case False
    with 2(2,3) simulation_over [of m "c + 1" n] show ?thesis by (simp add: sim_step_def Let_def)
  qed
qed simp

end
