(* ===== verification/PeriodicRuns.thy ===== *)
theory PeriodicRuns
  imports PeriodicTasks
begin

text \<open>
  Runs of the activities of a periodic thread: the order of their hooks, that every call returns, and what a round
  steps, for runners whose hooks start and stop activities.
\<close>

section \<open>The order of hooks\<close>

datatype pa_phase = Idle | Initing | Ready | Ending

fun event_of :: "pa_event \<Rightarrow> nat" where
  "event_of (PInit i) = i" | "event_of (PReady i) = i" | "event_of (PRefused i) = i"
| "event_of (PStep i) = i" | "event_of (PFinal i) = i" | "event_of (PDone i) = i"

fun pa_phase_next :: "pa_event \<Rightarrow> pa_phase \<Rightarrow> pa_phase option" where
  "pa_phase_next (PInit i) Idle = Some Initing"
| "pa_phase_next (PReady i) Initing = Some Ready"
| "pa_phase_next (PRefused i) Initing = Some Idle"
| "pa_phase_next (PStep i) Ready = Some Ready"
| "pa_phase_next (PFinal i) Ready = Some Ending"
| "pa_phase_next (PDone i) Ending = Some Idle"
| "pa_phase_next _ _ = None"

text \<open>The phase of activity \<open>i\<close> after some events, \<open>None\<close> if they are in a wrong order.\<close>

definition pa_phase_of :: "nat \<Rightarrow> pa_event list \<Rightarrow> pa_phase option" where
  "pa_phase_of i es = fold (\<lambda>e p. Option.bind p (pa_phase_next e)) (filter (\<lambda>e. event_of e = i) es) (Some Idle)"

lemma phase_of_Nil [simp]: "pa_phase_of i [] = Some Idle"
  by (simp add: pa_phase_of_def)

lemma phase_of_snoc [simp]:
  "pa_phase_of i (es @ [e]) = (if event_of e = i then Option.bind (pa_phase_of i es) (pa_phase_next e) else pa_phase_of i es)"
  by (simp add: pa_phase_of_def)

lemma phase_of_two [simp]:
  "pa_phase_of i (es @ [e, f]) =
     (if event_of f = i then Option.bind (pa_phase_of i (es @ [e])) (pa_phase_next f) else pa_phase_of i (es @ [e]))"
  using phase_of_snoc [of i "es @ [e]" f] by simp

section \<open>The invariant\<close>

text \<open>Hooks start and stop activities; so do clients, who also run rounds.\<close>

definition starts_and_stops :: "pa_op list \<Rightarrow> bool" where
  "starts_and_stops ks \<longleftrightarrow> (\<forall>k \<in> set ks. case k of StartAct i \<Rightarrow> True | StopAct i \<Rightarrow> True | _ \<Rightarrow> False)"

definition client_env :: "pa_env \<Rightarrow> bool" where
  "client_env E \<longleftrightarrow> (\<forall>e s. starts_and_stops (hook_calls E e s))"

definition client_call :: "pa_op \<Rightarrow> bool" where
  "client_call k \<longleftrightarrow> (case k of Initialized i \<Rightarrow> False | Finalized i \<Rightarrow> False | _ \<Rightarrow> True)"

text \<open>An activity is active if it is being initialized, is in the list, or is being finalized: one of the three.\<close>

definition act_ok :: "nat \<Rightarrow> nat \<Rightarrow> nat \<Rightarrow> bool \<Rightarrow> bool \<Rightarrow> pa_phase option \<Rightarrow> bool" where
  "act_ok a b c act run ph \<longleftrightarrow>
     a + b + c = (if act then 1 else 0) \<and> run = (c > 0) \<and>
     ph = Some (if a > 0 then Initing else if c > 0 then Ready else if b > 0 then Ending else Idle)"

definition pa_ok :: "pa_op list \<Rightarrow> periodic \<Rightarrow> nat \<Rightarrow> bool" where
  "pa_ok todo s i \<longleftrightarrow>
     act_ok (count_list todo (Initialized i)) (count_list todo (Finalized i)) (count_list (tasks s) (Some i))
       (p_active s i) (p_running s i) (pa_phase_of i (events s))"

definition pa_inv :: "pa_op list \<Rightarrow> periodic \<Rightarrow> bool" where
  "pa_inv todo s \<longleftrightarrow> length (tasks s) \<le> MAX_ACTIVITIES \<and> cleanup s = (None \<in> set (tasks s)) \<and> (\<forall>i. pa_ok todo s i)"

lemma find_task_less: "find_task i ts < length ts \<longleftrightarrow> Some i \<in> set ts"
  by (induction ts) auto

lemma find_task_nth: "Some i \<in> set ts \<Longrightarrow> find_task i ts < length ts \<and> ts ! find_task i ts = Some i"
  by (induction ts) auto

lemma find_task_count:
  "count_list (ts[find_task i ts := None]) (Some j) = count_list ts (Some j) - (if j = i then 1 else 0)"
  by (induction ts) (auto simp: Suc_diff_le dest: count_notin) 

lemma pa_ok_task: "pa_ok todo s i \<Longrightarrow> Some i \<in> set (tasks s) \<Longrightarrow>
   count_list (tasks s) (Some i) = 1 \<and> count_list todo (Initialized i) = 0 \<and> count_list todo (Finalized i) = 0 \<and>
   p_active s i \<and> p_running s i \<and> pa_phase_of i (events s) = Some Ready"
  by (auto simp: pa_ok_def act_ok_def count_list_0_iff [of "tasks s" "Some i"] split: if_splits)

lemma count_present: "count_list (present ts) (Some i) = count_list ts (Some i)"
  by (induction ts) auto

lemma starts_and_stops_count:
  "starts_and_stops ks \<Longrightarrow> count_list ks (Initialized i) = 0 \<and> count_list ks (Finalized i) = 0"
  by (auto simp: starts_and_stops_def count_list_0_iff)

lemma client_env_count [simp]:
  "client_env E \<Longrightarrow> count_list (hook_calls E e s) (Initialized i) = 0"
  "client_env E \<Longrightarrow> count_list (hook_calls E e s) (Finalized i) = 0"
  using starts_and_stops_count by (simp_all add: client_env_def)

lemmas pa_defs = call_hook_def set_active_def set_running_def addActivity_def removeActivity_def

lemma pa_ok_cong:
  "pa_ok todo s i \<Longrightarrow> count_list todo' (Initialized i) = count_list todo (Initialized i) \<Longrightarrow>
   count_list todo' (Finalized i) = count_list todo (Finalized i) \<Longrightarrow>
   count_list (tasks s') (Some i) = count_list (tasks s) (Some i) \<Longrightarrow> p_active s' i = p_active s i \<Longrightarrow>
   p_running s' i = p_running s i \<Longrightarrow> pa_phase_of i (events s') = pa_phase_of i (events s) \<Longrightarrow> pa_ok todo' s' i"
  by (simp add: pa_ok_def)

lemma start_inv:
  assumes E: "client_env E" and i: "pa_inv (StartAct j # rest) s" and n: "pa_start E j s = (ks, s1)"
  shows "pa_inv (ks @ rest) s1"
proof -
  have "pa_ok (ks @ rest) s1 i" for i
  proof -
    from i have o: "pa_ok (StartAct j # rest) s i" by (simp add: pa_inv_def)
    show ?thesis
      using n o E
      by (cases "i = j") (auto simp: pa_start_def pa_ok_def act_ok_def pa_defs split: if_splits)
  qed
  moreover have "tasks s1 = tasks s \<and> cleanup s1 = cleanup s"
    using n by (auto simp: pa_start_def pa_defs split: if_splits)
  ultimately show ?thesis using i by (simp add: pa_inv_def)
qed

lemma initialized_inv:
  assumes E: "client_env E" and i: "pa_inv (Initialized j # rest) s" and n: "pa_initialized E j s = (ks, s1)"
  shows "pa_inv (ks @ rest) s1"
proof -
  have "pa_ok (ks @ rest) s1 i" for i
  proof -
    from i have o: "pa_ok (Initialized j # rest) s i" by (simp add: pa_inv_def)
    show ?thesis
      using n o E
      by (cases "i = j") (auto simp: pa_initialized_def pa_ok_def act_ok_def pa_defs split: if_splits)
  qed
  moreover have "length (tasks s1) \<le> MAX_ACTIVITIES \<and> cleanup s1 = (None \<in> set (tasks s1))"
    using n i by (auto simp: pa_initialized_def pa_defs pa_inv_def split: if_splits)
  ultimately show ?thesis by (simp add: pa_inv_def)
qed

lemma stop_inv:
  assumes E: "client_env E" and i: "pa_inv (StopAct j # rest) s" and n: "pa_stop E j s = (ks, s1)"
  shows "pa_inv (ks @ rest) s1"
proof -
  have "pa_ok (ks @ rest) s1 i" for i
  proof -
    from i have o: "pa_ok (StopAct j # rest) s i" by (simp add: pa_inv_def)
    show ?thesis
    proof (cases "p_active s j \<and> Some j \<in> set (tasks s)")
      case True
      show ?thesis
      proof (cases "i = j")
        case True
        then show ?thesis using n pa_ok_task [OF o] \<open>p_active s j \<and> Some j \<in> set (tasks s)\<close> E
          by (auto simp: pa_stop_def pa_ok_def act_ok_def pa_defs Let_def find_task_count find_task_less)
      next
        case False
        then show ?thesis using n o True E
          by (auto simp: pa_stop_def pa_ok_def pa_defs Let_def find_task_count find_task_less)
      qed
    next
      case False
      then show ?thesis using n o by (auto simp: pa_stop_def pa_ok_def pa_defs Let_def find_task_less split: if_splits)
    qed
  qed
  moreover have "length (tasks s1) \<le> MAX_ACTIVITIES \<and> cleanup s1 = (None \<in> set (tasks s1))"
    using n i by (auto simp: pa_stop_def pa_defs pa_inv_def Let_def set_update_memI split: if_splits)
  ultimately show ?thesis by (simp add: pa_inv_def)
qed

lemma finalized_inv:
  assumes i: "pa_inv (Finalized j # rest) s" and n: "pa_finalized j s = (ks, s1)"
  shows "pa_inv (ks @ rest) s1"
proof -
  have "pa_ok (ks @ rest) s1 i" for i
  proof -
    from i have o: "pa_ok (Finalized j # rest) s i" by (simp add: pa_inv_def)
    show ?thesis using n o by (cases "i = j") (auto simp: pa_finalized_def pa_ok_def act_ok_def pa_defs split: if_splits)
  qed
  with n i show ?thesis by (auto simp: pa_inv_def pa_finalized_def pa_defs)
qed

lemma reorder_inv:
  assumes i: "pa_inv (k # rest) s" and k: "client_call k" and r: "reorder s = Some (ks, s1)"
  shows "pa_inv (ks @ rest) s1"
proof -
  have s1: "ks = []" "s1 = (if cleanup s then s\<lparr>tasks := present (tasks s), cleanup := False\<rparr> else s)"
    using i r by (auto simp: reorder_def pa_inv_def reorderList_spec split: if_splits)
  have "pa_ok rest s1 j" for j
  proof (rule pa_ok_cong)
    show "pa_ok (k # rest) s j" using i by (simp add: pa_inv_def)
    show "count_list (tasks s1) (Some j) = count_list (tasks s) (Some j)"
      using count_present [of "tasks s"] by (cases "cleanup s") (simp_all add: s1(2) del: not_None_eq)
  qed (use k in \<open>auto simp: s1(2) client_call_def\<close>)
  moreover have "length (present (tasks s)) \<le> MAX_ACTIVITIES"
    using i by (meson length_filter_le le_trans pa_inv_def)
  ultimately show ?thesis using i s1 by (simp add: pa_inv_def)
qed

lemma loop_inv:
  assumes "pa_inv (k # rest) s" and "client_call k" and "\<forall>k \<in> set ks. client_call k"
  shows "pa_inv (ks @ rest) s"
proof -
  have z: "count_list ks (Initialized i) = 0 \<and> count_list ks (Finalized i) = 0" for i
    using assms(3) by (auto simp: count_list_0_iff client_call_def)
  have "k \<noteq> Initialized i \<and> k \<noteq> Finalized i" for i using assms(2) by (auto simp: client_call_def)
  with assms(1) z show ?thesis by (simp add: pa_inv_def pa_ok_def)
qed

lemma step_inv_hook:
  assumes E: "client_env E" and i: "pa_inv (StepFrom k # rest) s" and j: "Some j \<in> set (tasks s)"
    and n: "call_hook E (PStep j) [StepFrom (k + 1)] s = (ks, s1)"
  shows "pa_inv (ks @ rest) s1"
proof -
  have "pa_ok (ks @ rest) s1 i" for i
  proof -
    from i have o: "pa_ok (StepFrom k # rest) s i" by (simp add: pa_inv_def)
    show ?thesis
    proof (cases "i = j")
      case True
      with n pa_ok_task [OF o] j E show ?thesis by (auto simp: call_hook_def pa_ok_def act_ok_def)
    qed (use n o E in \<open>auto simp: call_hook_def pa_ok_def\<close>)
  qed
  moreover have "tasks s1 = tasks s \<and> cleanup s1 = cleanup s" using n by (auto simp: call_hook_def)
  ultimately show ?thesis using i by (simp add: pa_inv_def)
qed

lemma pa_next_inv:
  assumes E: "client_env E" and i: "pa_inv (k # rest) s"
  shows "\<exists>ks s1. pa_next E k s = Some (ks, s1) \<and> pa_inv (ks @ rest) s1"
proof -
  have r: "\<exists>ks s1. reorder s = Some (ks, s1)"
    using i by (auto simp: reorder_def pa_inv_def reorderList_spec)
  show ?thesis
  proof (cases k)
    case (StartAct j)
    then show ?thesis using start_inv [OF E] i by (cases "pa_start E j s") auto
  next
    case (Initialized j)
    then show ?thesis using initialized_inv [OF E] i by (cases "pa_initialized E j s") auto
  next
    case (StopAct j)
    then show ?thesis using stop_inv [OF E] i by (cases "pa_stop E j s") auto
  next
    case (Finalized j)
    then show ?thesis using finalized_inv i by (cases "pa_finalized j s") auto
  next
    case (StepFrom n)
    show ?thesis
    proof (cases "n < length (tasks s)")
      case True
      show ?thesis
      proof (cases "tasks s ! n")
        case None
        with True StepFrom loop_inv [OF i, of "[StepFrom (n + 1)]"] show ?thesis by (simp add: step_from_def client_call_def)
      next
        case (Some j)
        then have "Some j \<in> set (tasks s)" using True by (metis nth_mem)
        then show ?thesis using True Some StepFrom step_inv_hook [OF E i [unfolded StepFrom]]
          by (cases "call_hook E (PStep j) [StepFrom (n + 1)] s") (auto simp: step_from_def)
      qed
    next
      case False
      with StepFrom r reorder_inv [OF i] show ?thesis by (auto simp: step_from_def client_call_def)
    qed
  next
    case (StopFrom n)
    show ?thesis
    proof (cases "n < length (tasks s)")
      case True
      then show ?thesis
        using StopFrom loop_inv [OF i, of "[StopFrom (n + 1)]"] loop_inv [OF i, of "[StopAct j, StopFrom (n + 1)]" for j]
        by (cases "tasks s ! n") (auto simp: stop_from_def client_call_def)
    next
      case False
      with StopFrom r reorder_inv [OF i] show ?thesis by (auto simp: stop_from_def client_call_def)
    qed
  next
    case StepAll
    then show ?thesis using loop_inv [OF i, of "[StepFrom 0]"] by (simp add: client_call_def)
  next
    case StopAll
    then show ?thesis using loop_inv [OF i, of "[StopFrom 0]"] by (simp add: client_call_def)
  next
    case AdvanceClock
    have "pa_inv rest s" using loop_inv [OF i, of "[]"] AdvanceClock by (simp add: client_call_def)
    then show ?thesis using AdvanceClock by (simp add: pa_inv_def pa_ok_def)
  qed
qed

lemma pa_run_inv: "client_env E \<Longrightarrow> pa_inv todo s \<Longrightarrow> pa_run E todo s = Some s' \<Longrightarrow> pa_inv [] s'"
proof -
  assume E: "client_env E" and i: "pa_inv todo s" and r: "pa_run E todo s = Some s'"
  have "client_env E \<longrightarrow> pa_inv todo s \<longrightarrow> pa_inv [] s'"
  proof (rule pa_run.raw_induct [where P = "\<lambda>E todo s s'. client_env E \<longrightarrow> pa_inv todo s \<longrightarrow> pa_inv [] s'", OF _ r])
    fix run E todo s s'
    assume IH: "\<And>E todo s s'. run E todo s = Some s' \<Longrightarrow> client_env E \<longrightarrow> pa_inv todo s \<longrightarrow> pa_inv [] s'"
      and body: "(case todo of [] \<Rightarrow> Some s
        | k # rest \<Rightarrow> (case pa_next E k s of None \<Rightarrow> None | Some (ks, s1) \<Rightarrow> run E (ks @ rest) s1)) = Some s'"
    show "client_env E \<longrightarrow> pa_inv todo s \<longrightarrow> pa_inv [] s'"
    proof (intro impI)
      assume E: "client_env E" and i: "pa_inv todo s"
      show "pa_inv [] s'"
      proof (cases todo)
        case Nil
        with body i show ?thesis by simp
      next
        case (Cons k rest)
        then obtain ks s1 where "pa_next E k s = Some (ks, s1)" "pa_inv (ks @ rest) s1"
          using pa_next_inv [OF E] i by blast
        with body Cons IH E show ?thesis by auto
      qed
    qed
  qed
  with E i show ?thesis by blast
qed

lemma reached_inv:
  assumes "client_env E" and "\<forall>k \<in> set ks. client_call k" and "pa_run E ks pa_new = Some s"
  shows "pa_inv [] s"
proof -
  have "pa_inv ks pa_new"
    using assms(2) by (auto simp: pa_inv_def pa_ok_def act_ok_def pa_new_def count_list_0_iff client_call_def)
  from pa_run_inv [OF assms(1) this assms(3)] show ?thesis .
qed

text \<open>C12: Activities that share a periodic thread, whatever their hooks do with each other and with themselves: each
  one's \<^verbatim>\<open>initialize\<close>, \<^verbatim>\<open>step\<close> and \<^verbatim>\<open>finalize\<close> are called in this order, it is stepped only after \<^verbatim>\<open>initialize\<close>
  has returned true and before \<^verbatim>\<open>finalize\<close> is called, and initialized again only when \<^verbatim>\<open>finalize\<close> has returned. Between
  calls, the active activities are those in the list, each once, and at most \<open>MAX_ACTIVITIES\<close>.\<close>

theorem shared_thread_keeps_order:
  assumes "client_env E" and "\<forall>k \<in> set ks. client_call k" and "pa_run E ks pa_new = Some s"
  shows "pa_phase_of i (events s) = Some (if p_active s i then Ready else Idle) \<and> p_running s i = p_active s i \<and>
         count_list (tasks s) (Some i) = (if p_active s i then 1 else 0) \<and> length (tasks s) \<le> MAX_ACTIVITIES"
proof -
  from assms have "pa_inv [] s" by (rule reached_inv)
  then have "pa_ok [] s i" "length (tasks s) \<le> MAX_ACTIVITIES" by (simp_all add: pa_inv_def)
  then show ?thesis by (auto simp: pa_ok_def act_ok_def split: if_splits)
qed

text \<open>The hook of activity 0 stops it in its second step and starts activity 1; activity 1 restarts 0 when it is initialized.\<close>

definition handover :: pa_env where
  "handover = \<lparr>hook_calls = \<lambda>e s. (if e = PStep 0 \<and> count_list (events s) (PStep 0) = 2 then [StopAct 0, StartAct 1]
                                   else if e = PInit 1 then [StartAct 0] else []),
               init_ok = \<lambda>i s. True, can_start = True, sim = False\<rparr>"

lemma shared_thread_keeps_order_witness:
  "\<exists>s. pa_run handover [StartAct 0, StepAll, StepAll, StepAll] pa_new = Some s \<and> p_active s 1 \<and>
       pa_phase_of 1 (events s) = Some Ready"
proof -
  have E: "client_env handover" by (auto simp: client_env_def handover_def starts_and_stops_def)
  have k: "\<forall>k \<in> set [StartAct 0, StepAll, StepAll, StepAll]. client_call k" by (simp add: client_call_def)
  obtain s where s: "pa_run handover [StartAct 0, StepAll, StepAll, StepAll] pa_new = Some s" "p_active s 1"
    by (simp add: pa_run.simps handover_def pa_new_def pa_start_def pa_initialized_def pa_stop_def pa_finalized_def step_from_def
        reorder_def reorderList_spec pa_defs MAX_ACTIVITIES_def Let_def)
  with shared_thread_keeps_order [OF E k s(1), of 1] show ?thesis by simp
qed

text \<open>Activities that are started during a round are at the end of the list and are stepped in the same round; so
  activity 0, which stops itself and is restarted, is stepped twice in the second round.\<close>

lemma started_activity_joins_round:
  "map_option events (pa_run handover [StartAct 0, StepAll, StepAll] pa_new) =
     Some [PInit 0, PReady 0, PStep 0, PStep 0, PFinal 0, PDone 0, PInit 1, PInit 0, PReady 0, PReady 1, PStep 0, PStep 1]"
  by (simp add: pa_run.simps handover_def pa_new_def pa_start_def pa_initialized_def pa_stop_def pa_finalized_def step_from_def
      reorder_def reorderList_spec pa_defs MAX_ACTIVITIES_def Let_def)

section \<open>Every call returns\<close>

text \<open>Calls of activities below \<open>n\<close> that stop only activities in \<open>P\<close>.\<close>

definition calls_ok :: "(nat \<Rightarrow> bool) \<Rightarrow> nat \<Rightarrow> pa_op list \<Rightarrow> bool" where
  "calls_ok P n ks \<longleftrightarrow> (\<forall>k \<in> set ks. case k of StartAct i \<Rightarrow> i < n | StopAct i \<Rightarrow> i < n \<and> P i | _ \<Rightarrow> False)"

definition env_ok :: "(nat \<Rightarrow> bool) \<Rightarrow> nat \<Rightarrow> pa_env \<Rightarrow> bool" where
  "env_ok P n E \<longleftrightarrow> (\<forall>e s. calls_ok P n (hook_calls E e s))"

lemma env_ok_client: "env_ok P n E \<Longrightarrow> client_env E"
  unfolding env_ok_def client_env_def calls_ok_def starts_and_stops_def by (fastforce split: pa_op.splits)

lemma calls_ok_simps [simp]:
  "calls_ok P n []"
  "calls_ok P n (k # ks) \<longleftrightarrow> (case k of StartAct i \<Rightarrow> i < n | StopAct i \<Rightarrow> i < n \<and> P i | _ \<Rightarrow> False) \<and> calls_ok P n ks"
  by (simp_all add: calls_ok_def)

definition busy :: "nat \<Rightarrow> periodic \<Rightarrow> nat set" where
  "busy n s = {i. i < n \<and> p_active s i \<and> Some i \<notin> set (tasks s)}"

definition grown_by :: "(nat \<Rightarrow> bool) \<Rightarrow> nat \<Rightarrow> periodic \<Rightarrow> periodic \<Rightarrow> bool" where
  "grown_by P n s s1 \<longleftrightarrow>
     length (tasks s) \<le> length (tasks s1) \<and>
     (\<forall>k < length (tasks s). \<forall>i. tasks s ! k = Some i \<and> \<not> P i \<longrightarrow> tasks s1 ! k = Some i) \<and>
     (\<forall>i. Some i \<in> set (tasks s1) \<longrightarrow> Some i \<in> set (tasks s) \<or> i < n) \<and>
     (\<exists>es. events s1 = events s @ es \<and> (\<forall>i. PStep i \<notin> set es))"

lemma grown_by_refl [intro]: "grown_by P n s s"
  by (simp add: grown_by_def)

lemma grown_by_trans:
  assumes "grown_by P n s t" "grown_by P n t u"
  shows "grown_by P n s u"
proof -
  obtain es fs where "events t = events s @ es" "events u = events t @ fs" "\<forall>i. PStep i \<notin> set es" "\<forall>i. PStep i \<notin> set fs"
    using assms unfolding grown_by_def by blast
  then have "\<exists>es. events u = events s @ es \<and> (\<forall>i. PStep i \<notin> set es)" by auto
  with assms show ?thesis unfolding grown_by_def by (meson le_trans less_le_trans)
qed

lemma pa_run_next: "pa_next E k s = Some (ks, s1) \<Longrightarrow> pa_run E (k # rest) s = pa_run E (ks @ rest) s1"
  by (subst pa_run.simps) simp

lemma busy_other: "tasks s1 = tasks s \<Longrightarrow> p_active s1 = p_active s \<Longrightarrow> busy n s1 = busy n s"
  by (simp add: busy_def)

text \<open>What a hook that was called while \<open>i\<close> was busy leaves to its caller.\<close>

definition returns :: "(nat \<Rightarrow> bool) \<Rightarrow> nat \<Rightarrow> pa_env \<Rightarrow> pa_op list \<Rightarrow> pa_op list \<Rightarrow> periodic \<Rightarrow> bool" where
  "returns P n E ks rest s \<longleftrightarrow>
     (\<exists>s1. pa_run E (ks @ rest) s = pa_run E rest s1 \<and> pa_inv rest s1 \<and> busy n s1 = busy n s \<and> grown_by P n s s1)"

lemma finalized_returns:
  assumes E: "env_ok P n E" and i: "pa_inv (Finalized i # rest) s"
  shows "\<exists>s1. pa_run E (Finalized i # rest) s = pa_run E rest s1 \<and> pa_inv rest s1 \<and> busy n s1 = busy n s - {i} \<and> grown_by P n s s1"
proof -
  let ?s = "snd (pa_finalized i s)"
  have "pa_inv ([] @ rest) ?s" by (rule finalized_inv [OF i]) (simp add: pa_finalized_def)
  moreover have "pa_run E (Finalized i # rest) s = pa_run E ([] @ rest) ?s" by (rule pa_run_next) (simp add: pa_finalized_def)
  moreover have "busy n ?s = busy n s - {i}" by (auto simp: busy_def pa_finalized_def pa_defs)
  moreover have "grown_by P n s ?s" by (simp add: grown_by_def pa_finalized_def pa_defs)
  ultimately show ?thesis by auto
qed

lemma final_hook_returns:
  assumes E: "env_ok P n E" and hooks: "\<And>ks rest t. calls_ok P n ks \<Longrightarrow> pa_inv (ks @ rest) t \<Longrightarrow> busy n t = b \<Longrightarrow> returns P n E ks rest t"
    and i: "pa_inv (ks @ rest) s1" and c: "call_hook E (PFinal i) [Finalized i] s = (ks, s1)" and b: "busy n s = b"
  shows "\<exists>s2. pa_run E (ks @ rest) s1 = pa_run E rest s2 \<and> pa_inv rest s2 \<and> busy n s2 = b - {i} \<and> grown_by P n s s2"
proof -
  let ?hs = "hook_calls E (PFinal i) s1"
  have ks: "ks = ?hs @ [Finalized i]" "s1 = event (PFinal i) s" using c by (auto simp: call_hook_def)
  have g: "grown_by P n s s1" "busy n s1 = b" using ks(2) b by (simp_all add: grown_by_def busy_def)
  have "returns P n E ?hs (Finalized i # rest) s1"
    using hooks [of ?hs "Finalized i # rest" s1] E i ks(1) g(2) by (simp add: env_ok_def)
  then obtain s2 where s2: "pa_run E (?hs @ Finalized i # rest) s1 = pa_run E (Finalized i # rest) s2" "pa_inv (Finalized i # rest) s2"
    "busy n s2 = b" "grown_by P n s1 s2" using g(2) by (auto simp: returns_def)
  obtain s3 where "pa_run E (Finalized i # rest) s2 = pa_run E rest s3" "pa_inv rest s3" "busy n s3 = busy n s2 - {i}" "grown_by P n s2 s3"
    using finalized_returns [OF E s2(2)] by blast
  moreover have "grown_by P n s s3" by (blast intro: grown_by_trans [OF grown_by_trans [OF g(1) s2(4)]] calculation)
  ultimately show ?thesis using s2(1,3) ks(1) by auto
qed

lemma initialized_returns:
  assumes E: "env_ok P n E" and hooks: "\<And>ks rest t. calls_ok P n ks \<Longrightarrow> pa_inv (ks @ rest) t \<Longrightarrow> busy n t = b \<Longrightarrow> returns P n E ks rest t"
    and i: "pa_inv (Initialized i # rest) s" and b: "busy n s = b" and n: "i < n"
  shows "\<exists>s1. pa_run E (Initialized i # rest) s = pa_run E rest s1 \<and> pa_inv rest s1 \<and> busy n s1 = b - {i} \<and> grown_by P n s s1"
proof -
  obtain ks s1 where s1: "pa_initialized E i s = (ks, s1)" by (cases "pa_initialized E i s")
  have run: "pa_run E (Initialized i # rest) s = pa_run E (ks @ rest) s1" by (rule pa_run_next) (simp add: s1)
  have inv: "pa_inv (ks @ rest) s1" by (rule initialized_inv [OF env_ok_client [OF E] i s1])
  consider (refused) "\<not> init_ok E i s" | (full) "init_ok E i s" "length (tasks s) = MAX_ACTIVITIES"
    | (added) "init_ok E i s" "length (tasks s) \<noteq> MAX_ACTIVITIES" by blast
  then show ?thesis
  proof cases
    case refused
    with s1 have "ks = []" "busy n s1 = b - {i}" "grown_by P n s s1"
      using b by (auto simp: pa_initialized_def pa_defs busy_def grown_by_def split: if_splits)
    with run inv show ?thesis by auto
  next
    case added
    with s1 have "ks = []" "busy n s1 = b - {i}" "grown_by P n s s1"
      using b n by (auto simp: pa_initialized_def pa_defs busy_def grown_by_def nth_append)
    with run inv show ?thesis by auto
  next
    case full
    let ?s = "event (PReady i) s"
    have c: "call_hook E (PFinal i) [Finalized i] ?s = (ks, s1)" using full s1 by (simp add: pa_initialized_def addActivity_def)
    have "busy n ?s = b" "grown_by P n s ?s" using b by (simp_all add: busy_def grown_by_def)
    with final_hook_returns [OF E hooks inv c] run show ?thesis by (auto intro: grown_by_trans)
  qed
qed

lemma start_returns:
  assumes E: "env_ok P n E"
    and hooks: "\<And>ks rest t. i \<notin> busy n s \<Longrightarrow> calls_ok P n ks \<Longrightarrow> pa_inv (ks @ rest) t \<Longrightarrow> busy n t = insert i (busy n s) \<Longrightarrow> returns P n E ks rest t"
    and i: "pa_inv (StartAct i # rest) s" and n: "i < n"
  shows "\<exists>s1. pa_run E (StartAct i # rest) s = pa_run E rest s1 \<and> pa_inv rest s1 \<and> busy n s1 = busy n s \<and> grown_by P n s s1"
proof -
  obtain ks s1 where s1: "pa_start E i s = (ks, s1)" by (cases "pa_start E i s")
  have run: "pa_run E (StartAct i # rest) s = pa_run E (ks @ rest) s1" by (rule pa_run_next) (simp add: s1)
  have inv: "pa_inv (ks @ rest) s1" by (rule start_inv [OF env_ok_client [OF E] i s1])
  show ?thesis
  proof (cases "p_active s i \<or> \<not> sim E \<and> \<not> thread_on s \<and> \<not> can_start E")
    case True
    with s1 have "ks = []" "s1 = s" by (auto simp: pa_start_def split: if_splits)
    with run inv show ?thesis by auto
  next
    case False
    let ?hs = "hook_calls E (PInit i) s1"
    have ks: "ks = ?hs @ [Initialized i]" and g: "grown_by P n s s1" and t: "tasks s1 = tasks s" "p_active s1 = (p_active s)(i := True)"
      using s1 False by (auto simp: pa_start_def pa_defs grown_by_def split: if_splits)
    have "pa_ok (StartAct i # rest) s i" using i by (simp add: pa_inv_def)
    then have "Some i \<notin> set (tasks s)" using False by (auto simp: pa_ok_def act_ok_def count_list_0_iff)
    then have b: "busy n s1 = insert i (busy n s)" "i \<notin> busy n s" using t n False by (auto simp: busy_def)
    have "returns P n E ?hs (Initialized i # rest) s1"
      using hooks [OF b(2), of ?hs "Initialized i # rest" s1] E inv ks b(1) by (simp add: env_ok_def)
    then obtain s2 where s2: "pa_run E (?hs @ Initialized i # rest) s1 = pa_run E (Initialized i # rest) s2"
      "pa_inv (Initialized i # rest) s2" "busy n s2 = insert i (busy n s)" "grown_by P n s1 s2"
      using b by (auto simp: returns_def)
    obtain s3 where s3: "pa_run E (Initialized i # rest) s2 = pa_run E rest s3" "pa_inv rest s3"
      "busy n s3 = insert i (busy n s) - {i}" "grown_by P n s2 s3"
      using initialized_returns [OF E hooks [OF b(2)] s2(2,3) n] by blast
    have "grown_by P n s s3" by (rule grown_by_trans [OF grown_by_trans [OF g s2(4)] s3(4)])
    with s3 s2(1) run ks b(2) show ?thesis by auto
  qed
qed

lemma stop_returns:
  assumes E: "env_ok P n E"
    and hooks: "\<And>ks rest t. i \<notin> busy n s \<Longrightarrow> calls_ok P n ks \<Longrightarrow> pa_inv (ks @ rest) t \<Longrightarrow> busy n t = insert i (busy n s) \<Longrightarrow> returns P n E ks rest t"
    and i: "pa_inv (StopAct i # rest) s" and n: "i < n" and p: "P i"
  shows "\<exists>s1. pa_run E (StopAct i # rest) s = pa_run E rest s1 \<and> pa_inv rest s1 \<and> busy n s1 = busy n s \<and> grown_by P n s s1"
proof -
  obtain ks s1 where s1: "pa_stop E i s = (ks, s1)" by (cases "pa_stop E i s")
  have run: "pa_run E (StopAct i # rest) s = pa_run E (ks @ rest) s1" by (rule pa_run_next) (simp add: s1)
  have inv: "pa_inv (ks @ rest) s1" by (rule stop_inv [OF env_ok_client [OF E] i s1])
  show ?thesis
  proof (cases "p_active s i \<and> Some i \<in> set (tasks s)")
    case False
    with s1 have "ks = []" "s1 = s" by (auto simp: pa_stop_def pa_defs Let_def find_task_less split: if_splits)
    with run inv show ?thesis by auto
  next
    case True
    let ?t = "s\<lparr>tasks := (tasks s)[find_task i (tasks s) := None], cleanup := True, p_running := (p_running s)(i := False)\<rparr>"
    have c: "call_hook E (PFinal i) [Finalized i] ?t = (ks, s1)"
      using True s1 by (simp add: pa_stop_def removeActivity_def set_running_def Let_def find_task_less)
    have "pa_ok (StopAct i # rest) s i" using i by (simp add: pa_inv_def)
    then have "count_list (tasks ?t) (Some i) = 0" using True pa_ok_task [of "StopAct i # rest" s i] by (simp add: find_task_count)
    then have gone: "Some i \<notin> set (tasks ?t)" by (simp add: count_list_0_iff)
    have k: "find_task i (tasks s) < length (tasks s) \<and> tasks s ! find_task i (tasks s) = Some i"
      using True by (simp add: find_task_nth)
    have g: "grown_by P n s ?t" unfolding grown_by_def
    proof (intro conjI allI impI)
      fix j assume "Some j \<in> set (tasks ?t)"
      then show "Some j \<in> set (tasks s) \<or> j < n" using set_update_subset_insert [of "tasks s" "find_task i (tasks s)" None] by auto
    next
      fix m j assume "m < length (tasks s)" "tasks s ! m = Some j \<and> \<not> P j"
      then show "tasks ?t ! m = Some j" using k p by (auto simp: nth_list_update)
    qed simp_all
    have s: "Some j \<in> set (tasks ?t) \<longleftrightarrow> j \<noteq> i \<and> Some j \<in> set (tasks s)" for j
    proof (cases "j = i")
      case False
      with k show ?thesis by (auto simp: in_set_conv_nth nth_list_update split: if_splits) (metis option.inject)
    qed (use gone in simp)
    have b: "i \<notin> busy n s" "busy n ?t = insert i (busy n s)"
      using True n unfolding busy_def s by auto
    from final_hook_returns [OF E hooks [OF b(1)] inv c b(2)] obtain s3 where "pa_run E (ks @ rest) s1 = pa_run E rest s3"
      "pa_inv rest s3" "busy n s3 = insert i (busy n s) - {i}" "grown_by P n ?t s3" by blast
    then show ?thesis using run b(1) grown_by_trans [OF g] by auto
  qed
qed

lemma calls_return:
  assumes E: "env_ok P n E"
  shows "calls_ok P n ks \<Longrightarrow> pa_inv (ks @ rest) s \<Longrightarrow> returns P n E ks rest s"
proof (induction "n - card (busy n s)" arbitrary: ks rest s rule: less_induct)
  case less
  have fin: "finite (busy n t)" "busy n t \<subseteq> {..<n}" for t by (auto simp: busy_def)
  have hooks: "returns P n E hs rst t" if "i \<notin> busy n u" "i < n" "calls_ok P n hs" "pa_inv (hs @ rst) t" "busy n t = insert i (busy n u)"
      "busy n u = busy n s" for i hs rst t u
  proof -
    have "card (insert i (busy n s)) \<le> card {..<n}" using fin [of t] that by (intro card_mono) auto
    then have "n - card (busy n t) < n - card (busy n s)" using that fin(1) [of s] by simp
    then show ?thesis using less.hyps that by blast
  qed
  have "returns P n E ks rest t" if "calls_ok P n ks" "pa_inv (ks @ rest) t" "busy n t = busy n s" for ks rest t
    using that
  proof (induction ks arbitrary: t)
    case Nil
    then show ?case by (auto simp: returns_def)
  next
    case (Cons k ks)
    have "\<exists>s1. pa_run E (k # ks @ rest) t = pa_run E (ks @ rest) s1 \<and> pa_inv (ks @ rest) s1 \<and> busy n s1 = busy n t \<and> grown_by P n t s1"
    proof (cases k)
      case (StartAct i)
      with Cons.prems have i: "i < n" "pa_inv (StartAct i # ks @ rest) t" by simp_all
      show ?thesis unfolding StartAct by (rule start_returns [OF E hooks i(2,1)]) (use i Cons.prems(3) in auto)
    next
      case (StopAct i)
      with Cons.prems have i: "i < n" "P i" "pa_inv (StopAct i # ks @ rest) t" by simp_all
      show ?thesis unfolding StopAct by (rule stop_returns [OF E hooks i(3,1,2)]) (use i Cons.prems(3) in auto)
    qed (use Cons.prems in simp_all)
    then obtain s1 where s1: "pa_run E (k # ks @ rest) t = pa_run E (ks @ rest) s1" "pa_inv (ks @ rest) s1" "busy n s1 = busy n t"
      "grown_by P n t s1" by blast
    have "returns P n E ks rest s1" using Cons s1 by auto
    with s1 show ?case by (auto simp: returns_def intro: grown_by_trans)
  qed
  with less.prems show ?case by blast
qed

section \<open>Rounds\<close>

fun steps_of :: "pa_event list \<Rightarrow> nat list" where
  "steps_of [] = []"
| "steps_of (PStep i # es) = i # steps_of es"
| "steps_of (e # es) = steps_of es"

lemma steps_of_append [simp]: "steps_of (es @ fs) = steps_of es @ steps_of fs"
  by (induction es rule: steps_of.induct) simp_all

lemma steps_of_empty: "\<forall>i. PStep i \<notin> set es \<Longrightarrow> steps_of es = []"
  by (induction es rule: steps_of.induct) auto

text \<open>The activities of \<open>K\<close> in a list.\<close>

definition listed :: "nat set \<Rightarrow> nat option list \<Rightarrow> nat list" where
  "listed K ts = concat (map (\<lambda>t. case t of None \<Rightarrow> [] | Some i \<Rightarrow> if i \<in> K then [i] else []) ts)"

lemma listed_simps [simp]:
  "listed K [] = []" "listed K (ts @ us) = listed K ts @ listed K us" "listed K (None # ts) = listed K ts"
  "listed K (Some i # ts) = (if i \<in> K then i # listed K ts else listed K ts)"
  by (simp_all add: listed_def)

lemma listed_none: "\<forall>t \<in> set ts. \<forall>i. t = Some i \<longrightarrow> i \<notin> K \<Longrightarrow> listed K ts = []"
  by (induction ts) (auto simp: listed_def split: option.splits)

lemma listed_cong:
  "length ts = length us \<Longrightarrow> \<forall>j < length ts. \<forall>i \<in> K. ts ! j = Some i \<longleftrightarrow> us ! j = Some i \<Longrightarrow> listed K ts = listed K us"
proof (induction ts us rule: list_induct2)
  case (Cons t ts u us)
  have "\<forall>j < length ts. \<forall>i \<in> K. ts ! j = Some i \<longleftrightarrow> us ! j = Some i" using Cons.prems by fastforce
  moreover have "\<forall>i \<in> K. t = Some i \<longleftrightarrow> u = Some i" using Cons.prems by fastforce
  ultimately show ?case using Cons.IH by (cases t; cases u) auto
qed simp

lemma once: "count_list ts x = 1 \<Longrightarrow> p < length ts \<Longrightarrow> q < length ts \<Longrightarrow> ts ! p = x \<Longrightarrow> ts ! q = x \<Longrightarrow> p = q"
proof -
  assume c: "count_list ts x = 1" and pq: "p < length ts" "q < length ts" "ts ! p = x" "ts ! q = x"
  let ?A = "{i. i < length ts \<and> x = ts ! i}"
  have "card ?A = 1" using c by (simp add: count_list_eq_length_filter length_filter_conv_card)
  then obtain z where z: "?A = {z}" by (auto simp: card_1_singleton_iff)
  have "p \<in> ?A" "q \<in> ?A" using pq by auto
  then have "p = z" "q = z" unfolding z by auto
  then show ?thesis by simp
qed

lemma listed_grown:
  assumes g: "grown_by P n s t" and K: "\<forall>i \<in> K. \<not> P i \<and> Some i \<in> set (tasks s)" and i: "pa_inv rs s" "pa_inv rt t"
  shows "listed K (drop k (tasks t)) = listed K (drop k (tasks s))" and "\<forall>i \<in> K. Some i \<in> set (tasks t)"
proof -
  let ?l = "length (tasks s)"
  have l: "?l \<le> length (tasks t)" using g by (simp add: grown_by_def)
  have keep: "tasks t ! j = Some i" if "j < ?l" "tasks s ! j = Some i" "i \<in> K" for i j
    using g K that unfolding grown_by_def by blast
  have in_t: "Some i \<in> set (tasks t)" if "i \<in> K" for i
  proof -
    have "Some i \<in> set (tasks s)" using K that by blast
    then obtain m where m: "m < ?l" "tasks s ! m = Some i" by (auto simp: in_set_conv_nth)
    from keep [OF this that] have "tasks t ! m = Some i" .
    then show ?thesis using m(1) l by (metis less_le_trans nth_mem)
  qed
  show "\<forall>i \<in> K. Some i \<in> set (tasks t)" using in_t by blast
  have pos: "j < ?l \<and> tasks s ! j = Some i" if "j < length (tasks t)" "tasks t ! j = Some i" "i \<in> K" for i j
  proof -
    have "Some i \<in> set (tasks s)" using K that(3) by blast
    then obtain m where m: "m < ?l" "tasks s ! m = Some i" by (auto simp: in_set_conv_nth)
    then have "tasks t ! m = Some i" using keep that(3) by blast
    moreover have "count_list (tasks t) (Some i) = 1"
      using i(2) in_t [OF that(3)] pa_ok_task [of rt t i] by (simp add: pa_inv_def)
    ultimately have "m = j" using once that m(1) l by (metis less_le_trans)
    with m show ?thesis by simp
  qed
  have "listed K (drop k (tasks t)) = listed K (drop k (take ?l (tasks t))) @ listed K (drop (k - ?l) (drop ?l (tasks t)))"
    by (metis append_take_drop_id drop_append length_take l min.absorb2 listed_simps(2))
  moreover have "listed K (drop (k - ?l) (drop ?l (tasks t))) = []"
  proof (rule listed_none, intro ballI allI impI notI)
    fix x i assume "x \<in> set (drop (k - ?l) (drop ?l (tasks t)))" "x = Some i" "i \<in> K"
    then have "Some i \<in> set (drop ?l (tasks t))" by (meson in_set_dropD)
    then obtain m where "m < length (tasks t) - ?l" "tasks t ! (?l + m) = Some i" by (auto simp: in_set_conv_nth)
    moreover from this have "?l + m < length (tasks t)" by linarith
    ultimately show False using pos [of "?l + m" i] \<open>i \<in> K\<close> by simp
  qed
  moreover have "listed K (drop k (take ?l (tasks t))) = listed K (drop k (tasks s))"
  proof (rule listed_cong)
    show "\<forall>j < length (drop k (take ?l (tasks t))). \<forall>i \<in> K. drop k (take ?l (tasks t)) ! j = Some i \<longleftrightarrow> drop k (tasks s) ! j = Some i"
    proof (intro allI impI ballI)
      fix j i assume "j < length (drop k (take ?l (tasks t)))" and i: "i \<in> K"
      then have j: "k + j < ?l" using l by simp
      then have "drop k (take ?l (tasks t)) ! j = tasks t ! (k + j)" "drop k (tasks s) ! j = tasks s ! (k + j)" using l by simp_all
      moreover have "tasks t ! (k + j) = Some i \<longleftrightarrow> tasks s ! (k + j) = Some i"
        using keep [OF j _ i] pos [of "k + j" i, OF _ _ i] j l by linarith
      ultimately show "drop k (take ?l (tasks t)) ! j = Some i \<longleftrightarrow> drop k (tasks s) ! j = Some i" by simp
    qed
  qed (use l in simp)
  ultimately show "listed K (drop k (tasks t)) = listed K (drop k (tasks s))" by simp
qed

lemma reorder_returns:
  assumes i: "pa_inv (k # rest) s" and k: "client_call k" and n: "pa_next E k s = reorder s"
  shows "\<exists>s1. pa_run E (k # rest) s = pa_run E rest s1 \<and> pa_inv rest s1 \<and> events s1 = events s \<and> tasks s1 = present (tasks s)"
proof -
  have "\<not> cleanup s \<Longrightarrow> present (tasks s) = tasks s" using i unfolding pa_inv_def filter_id_conv by metis
  then obtain s1 where r: "reorder s = Some ([], s1)" "events s1 = events s" "tasks s1 = present (tasks s)"
    using i by (cases "cleanup s") (auto simp: reorder_def pa_inv_def reorderList_spec simp del: not_None_eq)
  with pa_run_next [of E k s "[]" s1 rest] reorder_inv [OF i k r(1)] n show ?thesis by auto
qed

lemma steps_return:
  assumes E: "env_ok P n E"
  shows "pa_inv (StepFrom k # rest) s \<Longrightarrow> \<forall>i \<in> K. \<not> P i \<and> Some i \<in> set (tasks s) \<Longrightarrow>
    \<exists>s1 es. pa_run E (StepFrom k # rest) s = pa_run E rest s1 \<and> pa_inv rest s1 \<and> events s1 = events s @ es \<and>
      filter (\<lambda>i. i \<in> K) (steps_of es) = listed K (drop k (tasks s)) \<and> (\<forall>i \<in> K. Some i \<in> set (tasks s1)) \<and>
      None \<notin> set (tasks s1) \<and> (\<forall>i. Some i \<in> set (tasks s1) \<longrightarrow> Some i \<in> set (tasks s) \<or> i < n)"
proof (induction "MAX_ACTIVITIES - k" arbitrary: k s rule: less_induct)
  case less
  show ?case
  proof (cases "k < length (tasks s)")
    case False
    then show ?thesis using reorder_returns [OF less.prems(1), of E] less.prems(2) by (auto simp: step_from_def client_call_def)
  next
    case True
    moreover have "length (tasks s) \<le> MAX_ACTIVITIES" using less.prems(1) by (simp add: pa_inv_def)
    ultimately have m: "MAX_ACTIVITIES - (k + 1) < MAX_ACTIVITIES - k" by linarith
    have d: "drop k (tasks s) = tasks s ! k # drop (k + 1) (tasks s)" using True by (simp add: Cons_nth_drop_Suc)
    show ?thesis
    proof (cases "tasks s ! k")
      case None
      then have "pa_run E (StepFrom k # rest) s = pa_run E (StepFrom (k + 1) # rest) s"
        using pa_run_next [of E "StepFrom k" s "[StepFrom (k + 1)]" s] True by (simp add: step_from_def)
      moreover have "pa_inv (StepFrom (k + 1) # rest) s"
        using loop_inv [OF less.prems(1), of "[StepFrom (k + 1)]"] by (simp add: client_call_def)
      ultimately show ?thesis using less.hyps [OF m _ less.prems(2)] d None by simp
    next
      case (Some j)
      let ?s = "event (PStep j) s"
      let ?hs = "hook_calls E (PStep j) ?s"
      have "call_hook E (PStep j) [StepFrom (k + 1)] s = (?hs @ [StepFrom (k + 1)], ?s)" by (simp add: call_hook_def)
      then have i: "pa_inv (?hs @ StepFrom (k + 1) # rest) ?s"
        using step_inv_hook [OF env_ok_client [OF E] less.prems(1)] True Some by (metis append.assoc append_Cons append_Nil nth_mem)
      have run: "pa_run E (StepFrom k # rest) s = pa_run E (?hs @ StepFrom (k + 1) # rest) ?s"
        using pa_run_next [of E "StepFrom k" s "?hs @ [StepFrom (k + 1)]" ?s] True Some by (simp add: step_from_def call_hook_def)
      have "returns P n E ?hs (StepFrom (k + 1) # rest) ?s" by (rule calls_return [OF E _ i]) (use E in \<open>simp add: env_ok_def\<close>)
      then obtain t es where t: "pa_run E (?hs @ StepFrom (k + 1) # rest) ?s = pa_run E (StepFrom (k + 1) # rest) t"
        "pa_inv (StepFrom (k + 1) # rest) t" "grown_by P n ?s t" "events t = events ?s @ es" "\<forall>i. PStep i \<notin> set es"
        unfolding returns_def grown_by_def by blast
      have l: "listed K (drop (k + 1) (tasks t)) = listed K (drop (k + 1) (tasks s))" "\<forall>i \<in> K. Some i \<in> set (tasks t)"
        using listed_grown [OF t(3) _ i t(2), of K] less.prems(2) by simp_all
      obtain s1 fs where "pa_run E (StepFrom (k + 1) # rest) t = pa_run E rest s1" "pa_inv rest s1" "events s1 = events t @ fs"
        "filter (\<lambda>i. i \<in> K) (steps_of fs) = listed K (drop (k + 1) (tasks t))" "\<forall>i \<in> K. Some i \<in> set (tasks s1)" "None \<notin> set (tasks s1)"
        "\<forall>i. Some i \<in> set (tasks s1) \<longrightarrow> Some i \<in> set (tasks t) \<or> i < n"
        using less.hyps [OF m t(2)] l(2) less.prems(2) by blast
      moreover have "\<forall>i. Some i \<in> set (tasks t) \<longrightarrow> Some i \<in> set (tasks s) \<or> i < n" using t(3) by (simp add: grown_by_def)
      ultimately show ?thesis using run t(1,4,5) l(1) d Some
        by (intro exI [of _ s1] exI [of _ "PStep j # es @ fs"]) (auto simp: steps_of_empty)
    qed
  qed
qed

lemma steps_return_bounded:
  assumes "env_ok (\<lambda>_. True) n E" and "pa_inv (StepFrom k # rest) s" and "\<forall>i. Some i \<in> set (tasks s) \<longrightarrow> i < n"
  shows "\<exists>s1. pa_run E (StepFrom k # rest) s = pa_run E rest s1 \<and> pa_inv rest s1 \<and> (\<forall>i. Some i \<in> set (tasks s1) \<longrightarrow> i < n)"
  using steps_return [OF assms(1,2), of "{}"] assms(3) by auto

lemma add_call: "client_call k \<Longrightarrow> pa_inv rest s \<Longrightarrow> pa_inv (k # rest) s"
  by (auto simp: pa_inv_def pa_ok_def client_call_def)

text \<open>C13: A round of the thread returns, whatever activities are started and stopped by the hooks while it is under
  way. It steps each activity that was in the list when it began and that no hook stops, once, in the order of the
  list; these are in the list afterwards, which has no null pointers then.\<close>

theorem round_steps_each_once:
  assumes E: "env_ok P n E" and "\<forall>k \<in> set ks. client_call k" and "pa_run E ks pa_new = Some s"
  shows "\<exists>s' es. pa_run E [StepAll] s = Some s' \<and> events s' = events s @ es \<and> None \<notin> set (tasks s') \<and>
           (let K = {i. Some i \<in> set (tasks s) \<and> \<not> P i} in
              filter (\<lambda>i. i \<in> K) (steps_of es) = listed K (tasks s) \<and> (\<forall>i \<in> K. Some i \<in> set (tasks s')))"
proof -
  have "pa_inv [] s" using reached_inv [OF env_ok_client [OF E]] assms(2,3) by blast
  then have "pa_inv [StepFrom 0] s" by (simp add: add_call client_call_def)
  from steps_return [OF E this, of "{i. Some i \<in> set (tasks s) \<and> \<not> P i}"]
  have "\<exists>s' es. pa_run E [StepFrom 0] s = pa_run E [] s' \<and> events s' = events s @ es \<and> None \<notin> set (tasks s') \<and>
      (let K = {i. Some i \<in> set (tasks s) \<and> \<not> P i} in
         filter (\<lambda>i. i \<in> K) (steps_of es) = listed K (tasks s) \<and> (\<forall>i \<in> K. Some i \<in> set (tasks s')))"
    unfolding Let_def by auto
  moreover have "pa_run E [StepAll] s = pa_run E [StepFrom 0] s" using pa_run_next [of E StepAll s "[StepFrom 0]" s "[]"] by simp
  moreover have "pa_run E [] s' = Some s'" for s' by (simp add: pa_run.simps)
  ultimately show ?thesis by simp
qed

lemma round_steps_each_once_witness:
  "\<exists>s s' es. pa_run handover [StartAct 2, StartAct 0, StepAll, StartAct 3] pa_new = Some s \<and> pa_run handover [StepAll] s = Some s' \<and>
     events s' = events s @ es \<and> filter (\<lambda>i. i \<in> {2, 3}) (steps_of es) = [2, 3]"
proof -
  have E: "env_ok (\<lambda>i. i = 0) 2 handover" by (auto simp: env_ok_def handover_def)
  let ?ks = "[StartAct 2, StartAct 0, StepAll, StartAct 3]"
  have k: "\<forall>k \<in> set ?ks. client_call k" by (simp add: client_call_def)
  obtain s where s: "pa_run handover ?ks pa_new = Some s" "tasks s = [Some 2, Some 0, Some 3]"
    by (simp add: pa_run.simps handover_def pa_new_def pa_start_def pa_initialized_def step_from_def reorder_def pa_defs MAX_ACTIVITIES_def)
  have K: "{i. Some i \<in> set (tasks s) \<and> i \<noteq> 0} = {2, 3}" using s(2) by auto
  from round_steps_each_once [OF E k s(1)] s show ?thesis unfolding K by (fastforce simp: Let_def)
qed

text \<open>The loop of \<^verbatim>\<open>finalize\<close>, and lists of calls.\<close>

lemma stops_return:
  assumes E: "env_ok (\<lambda>_. True) n E"
  shows "pa_inv (StopFrom k # rest) s \<Longrightarrow> \<forall>i. Some i \<in> set (tasks s) \<longrightarrow> i < n \<Longrightarrow>
    \<exists>s1. pa_run E (StopFrom k # rest) s = pa_run E rest s1 \<and> pa_inv rest s1 \<and> (\<forall>i. Some i \<in> set (tasks s1) \<longrightarrow> i < n)"
proof (induction "MAX_ACTIVITIES - k" arbitrary: k s rule: less_induct)
  case less
  show ?case
  proof (cases "k < length (tasks s)")
    case False
    then show ?thesis using reorder_returns [OF less.prems(1), of E] less.prems(2) by (auto simp: stop_from_def client_call_def)
  next
    case True
    moreover have "length (tasks s) \<le> MAX_ACTIVITIES" using less.prems(1) by (simp add: pa_inv_def)
    ultimately have m: "MAX_ACTIVITIES - (k + 1) < MAX_ACTIVITIES - k" by linarith
    show ?thesis
    proof (cases "tasks s ! k")
      case None
      then have "pa_run E (StopFrom k # rest) s = pa_run E (StopFrom (k + 1) # rest) s"
        using pa_run_next [of E "StopFrom k" s "[StopFrom (k + 1)]" s] True by (simp add: stop_from_def)
      moreover have "pa_inv (StopFrom (k + 1) # rest) s"
        using loop_inv [OF less.prems(1), of "[StopFrom (k + 1)]"] by (simp add: client_call_def)
      ultimately show ?thesis using less.hyps [OF m _ less.prems(2)] by simp
    next
      case (Some j)
      then have j: "j < n" using less.prems(2) True by (metis nth_mem)
      have run: "pa_run E (StopFrom k # rest) s = pa_run E ([StopAct j] @ StopFrom (k + 1) # rest) s"
        using pa_run_next [of E "StopFrom k" s "[StopAct j, StopFrom (k + 1)]" s] True Some by (simp add: stop_from_def)
      have i: "pa_inv ([StopAct j] @ StopFrom (k + 1) # rest) s"
        using loop_inv [OF less.prems(1), of "[StopAct j, StopFrom (k + 1)]"] by (simp add: client_call_def)
      have "returns (\<lambda>_. True) n E [StopAct j] (StopFrom (k + 1) # rest) s" using calls_return [OF E _ i] j by simp
      then obtain t where t: "pa_run E ([StopAct j] @ StopFrom (k + 1) # rest) s = pa_run E (StopFrom (k + 1) # rest) t"
        "pa_inv (StopFrom (k + 1) # rest) t" "\<forall>i. Some i \<in> set (tasks t) \<longrightarrow> i < n"
        using less.prems(2) unfolding returns_def grown_by_def by blast
      with less.hyps [OF m t(2,3)] run show ?thesis by simp
    qed
  qed
qed

definition bounded_call :: "nat \<Rightarrow> pa_op \<Rightarrow> bool" where
  "bounded_call n k \<longleftrightarrow> (case k of StartAct i \<Rightarrow> i < n | StopAct i \<Rightarrow> i < n | StepAll \<Rightarrow> True | StopAll \<Rightarrow> True | AdvanceClock \<Rightarrow> True | _ \<Rightarrow> False)"

text \<open>C29: Every call returns: \<^verbatim>\<open>start\<close> and \<^verbatim>\<open>stop\<close> of activities, rounds and \<^verbatim>\<open>finalize\<close> of their thread, provided that
  the runners' own code does, and however the hooks start and stop activities from within each other. An activity that
  is being initialized or finalized cannot be started or stopped again meanwhile, so calls nest only as deep as
  there are activities.\<close>

theorem activity_calls_return:
  assumes E: "env_ok (\<lambda>_. True) n E" and ks: "\<forall>k \<in> set ks. bounded_call n k"
  shows "\<exists>s. pa_run E ks pa_new = Some s"
proof -
  have "\<exists>s1. pa_run E ks s = Some s1" if "pa_inv ks s" "\<forall>i. Some i \<in> set (tasks s) \<longrightarrow> i < n" for s
    using ks that
  proof (induction ks arbitrary: s)
    case Nil
    then show ?case by (simp add: pa_run.simps)
  next
    case (Cons k ks)
    have "\<exists>s1. pa_run E (k # ks) s = pa_run E ks s1 \<and> pa_inv ks s1 \<and> (\<forall>i. Some i \<in> set (tasks s1) \<longrightarrow> i < n)"
    proof (cases "calls_ok (\<lambda>_. True) n [k]")
      case True
      with calls_return [OF E True, of ks s] Cons.prems show ?thesis by (fastforce simp: returns_def grown_by_def)
    next
      case False
      with Cons.prems(1) consider "k = StepAll" | "k = StopAll" | "k = AdvanceClock" by (cases k) (auto simp: bounded_call_def)
      then show ?thesis
      proof cases
        case 1
        have i: "pa_inv (StepFrom 0 # ks) s" using loop_inv [OF Cons.prems(2), of "[StepFrom 0]"] 1 by (simp add: client_call_def)
        have "pa_run E (k # ks) s = pa_run E (StepFrom 0 # ks) s" using pa_run_next [of E k s "[StepFrom 0]" s ks] 1 by simp
        with steps_return_bounded [OF E i] Cons.prems(3) show ?thesis by simp
      next
        case 2
        have i: "pa_inv (StopFrom 0 # ks) s" using loop_inv [OF Cons.prems(2), of "[StopFrom 0]"] 2 by (simp add: client_call_def)
        have "pa_run E (k # ks) s = pa_run E (StopFrom 0 # ks) s" using pa_run_next [of E k s "[StopFrom 0]" s ks] 2 by simp
        with stops_return [OF E i] Cons.prems(3) show ?thesis by simp
      next
        case 3
        have "pa_inv ks (s\<lparr>seconds := seconds s + 1\<rparr>)"
          using pa_next_inv [OF env_ok_client [OF E] Cons.prems(2)] 3 by simp
        moreover have "pa_run E (k # ks) s = pa_run E ks (s\<lparr>seconds := seconds s + 1\<rparr>)"
          using pa_run_next [of E k s "[]" _ ks] 3 by simp
        ultimately show ?thesis using Cons.prems(3) by auto
      qed
    qed
    with Cons show ?case by auto
  qed
  moreover have "pa_inv ks pa_new"
    using ks by (auto simp: pa_inv_def pa_ok_def act_ok_def pa_new_def count_list_0_iff bounded_call_def)
  ultimately show ?thesis by (simp add: pa_new_def)
qed

lemma activity_calls_return_witness:
  "\<exists>s. pa_run handover [StartAct 0, StartAct 1, StepAll, StepAll, StopAct 1, StopAll] pa_new = Some s"
  by (rule activity_calls_return [where n = 2]) (auto simp: env_ok_def handover_def bounded_call_def)

end
