(* ===== verification/OtherActivities.thy ===== *)
theory OtherActivities
  imports OroPrelude
begin

text \<open>
  Activities without a thread of their own: \<^verbatim>\<open>extras/SlaveActivity.cpp\<close>, which is executed by its master, and
  \<^verbatim>\<open>extras/SequentialActivity.cpp\<close>, which is executed by whoever triggers it, as a step relation of the threads
  that do. What the runner's functions return is an argument of the call.
\<close>

section \<open>Slave activities\<close>

text \<open>A loop that was begun by \<^verbatim>\<open>execute\<close> runs until \<open>SlaveLoopReturns\<close>; calls in between come from the loop itself or
  from other threads. Periods are only compared with zero. The events are a history.\<close>

datatype slave_event = SlInit bool | SlStep | SlLoop | SlLoopEnd | SlFinal

record slave =
  s_active :: bool
  s_running :: bool
  s_period :: int
  s_master :: bool
  m_active :: bool           \<comment> \<open>the master's \<open>isActive\<close> and \<open>getPeriod\<close>\<close>
  m_period :: int
  m_triggers :: nat          \<comment> \<open>calls of its \<open>trigger\<close>\<close>
  in_loop :: nat
  s_events :: "slave_event list"

definition slave_new :: "int option \<Rightarrow> int \<Rightarrow> slave" where
  "slave_new master p =
     \<lparr>s_active = False, s_running = False, s_period = (case master of None \<Rightarrow> p | Some q \<Rightarrow> q), s_master = (master \<noteq> None),
      m_active = False, m_period = (case master of None \<Rightarrow> 0 | Some q \<Rightarrow> q), m_triggers = 0, in_loop = 0, s_events = []\<rparr>"

definition sl_getPeriod :: "slave \<Rightarrow> int" where
  "sl_getPeriod s = (if s_master s then m_period s else s_period s)"

definition sl_setPeriod :: "int \<Rightarrow> slave \<Rightarrow> bool \<times> slave" where
  "sl_setPeriod p s = (if s_master s then (False, s) else (True, s\<lparr>s_period := p\<rparr>))"

definition sl_isPeriodic :: "slave \<Rightarrow> bool" where
  "sl_isPeriodic s \<longleftrightarrow> s_period s \<noteq> 0"

abbreviation sl_event :: "slave_event \<Rightarrow> slave \<Rightarrow> slave" where
  "sl_event e s \<equiv> s\<lparr>s_events := s_events s @ [e]\<rparr>"

definition sl_start :: "bool \<Rightarrow> slave \<Rightarrow> bool \<times> slave" where
  "sl_start init_ok s =
     (if s_master s \<and> \<not> m_active s then (False, s)
      else if s_active s then (False, s)
      else let s1 = sl_event (SlInit init_ok) (s\<lparr>s_active := True\<rparr>) in
        if init_ok then (True, s1\<lparr>s_running := sl_isPeriodic s1\<rparr>) else (False, s1\<lparr>s_active := False\<rparr>))"

definition sl_stop :: "bool \<Rightarrow> slave \<Rightarrow> bool \<times> slave" where
  "sl_stop break_ok s =
     (if \<not> s_active s then (False, s)
      else if \<not> sl_isPeriodic s \<and> s_running s \<and> \<not> break_ok then (False, s)
      else (True, (sl_event SlFinal (s\<lparr>s_running := False\<rparr>))\<lparr>s_active := False\<rparr>))"

definition sl_trigger :: "slave \<Rightarrow> slave" where
  "sl_trigger s = (if s_master s then s\<lparr>m_triggers := m_triggers s + 1\<rparr> else s)"

definition sl_execute :: "slave \<Rightarrow> bool \<times> slave" where
  "sl_execute s =
     (if s_period s = 0
      then if \<not> s_active s \<or> s_running s then (False, s)
           else (True, sl_event SlLoop (s\<lparr>s_running := True, in_loop := in_loop s + 1\<rparr>))
      else (s_running s, if s_running s then sl_event SlStep s else s))"

definition sl_loop_returns :: "slave \<Rightarrow> slave" where
  "sl_loop_returns s = (if in_loop s = 0 then s else sl_event SlLoopEnd (s\<lparr>s_running := False, in_loop := in_loop s - 1\<rparr>))"

datatype slave_op =
    SlaveStart bool | SlaveStop bool | SlaveExecute | SlaveLoopReturns | SlaveTrigger | SlaveSetPeriod int
  | MasterActive bool | MasterPeriod int

fun slave_do :: "slave_op \<Rightarrow> slave \<Rightarrow> slave" where
  "slave_do (SlaveStart b) s = snd (sl_start b s)"
| "slave_do (SlaveStop b) s = snd (sl_stop b s)"
| "slave_do SlaveExecute s = snd (sl_execute s)"
| "slave_do SlaveLoopReturns s = sl_loop_returns s"
| "slave_do SlaveTrigger s = sl_trigger s"
| "slave_do (SlaveSetPeriod p) s = snd (sl_setPeriod p s)"
| "slave_do (MasterActive b) s = s\<lparr>m_active := b\<rparr>"
| "slave_do (MasterPeriod p) s = s\<lparr>m_period := p\<rparr>"

definition slave_run :: "slave_op list \<Rightarrow> slave \<Rightarrow> slave" where
  "slave_run ks s = fold slave_do ks s"

subsection \<open>The order of hooks\<close>

datatype slave_phase = SlOff | SlOn | SlInLoop

fun slave_next :: "slave_event \<Rightarrow> slave_phase \<Rightarrow> slave_phase option" where
  "slave_next (SlInit b) SlOff = Some (if b then SlOn else SlOff)"
| "slave_next SlStep SlOn = Some SlOn"
| "slave_next SlLoop SlOn = Some SlInLoop"
| "slave_next SlLoopEnd SlInLoop = Some SlOn"
| "slave_next SlFinal SlOn = Some SlOff"
| "slave_next _ _ = None"

definition slave_phase_of :: "slave_event list \<Rightarrow> slave_phase option" where
  "slave_phase_of es = fold (\<lambda>e p. Option.bind p (slave_next e)) es (Some SlOff)"

lemma slave_phase_simps [simp]:
  "slave_phase_of [] = Some SlOff" "slave_phase_of (es @ [e]) = Option.bind (slave_phase_of es) (slave_next e)"
  by (simp_all add: slave_phase_of_def)

text \<open>What a client has to do: not change the period of an active slave, and not stop one whose loop says that it
  can be broken.\<close>

definition careful :: "slave_op \<Rightarrow> slave \<Rightarrow> bool" where
  "careful k s \<longleftrightarrow>
     (case k of SlaveSetPeriod p \<Rightarrow> \<not> s_active s \<or> s_master s | SlaveStop b \<Rightarrow> \<not> b \<or> in_loop s = 0 | _ \<Rightarrow> True)"

fun careful_run :: "slave_op list \<Rightarrow> slave \<Rightarrow> bool" where
  "careful_run [] s \<longleftrightarrow> True"
| "careful_run (k # ks) s \<longleftrightarrow> careful k s \<and> careful_run ks (slave_do k s)"

definition slave_inv :: "slave \<Rightarrow> bool" where
  "slave_inv s \<longleftrightarrow>
     slave_phase_of (s_events s) = Some (if in_loop s > 0 then SlInLoop else if s_active s then SlOn else SlOff) \<and>
     (in_loop s > 0 \<longrightarrow> s_active s \<and> s_period s = 0 \<and> in_loop s = 1) \<and>
     s_running s = (s_active s \<and> (s_period s \<noteq> 0 \<or> in_loop s > 0))"

lemma slave_do_inv: "slave_inv s \<Longrightarrow> careful k s \<Longrightarrow> slave_inv (slave_do k s)"
  by (cases k) (auto simp: slave_inv_def careful_def sl_start_def sl_stop_def sl_execute_def sl_loop_returns_def sl_trigger_def
      sl_setPeriod_def sl_isPeriodic_def Let_def split: if_splits)

text \<open>A slave activity whose period is not changed while it is active calls the functions of its runner in order:
  \<^verbatim>\<open>initialize\<close>, then \<^verbatim>\<open>step\<close> or \<^verbatim>\<open>loop\<close>, one at a time, when it is executed, then \<^verbatim>\<open>finalize\<close>, if nobody
  stops it while a loop that can be broken is executed. When no loop is executed, \<^verbatim>\<open>stop\<close> succeeds if and only if it
  is active, and \<^verbatim>\<open>execute\<close> calls the runner if and only if it is.\<close>

theorem slave_hooks_in_order:
  assumes "careful_run ks (slave_new master p)" and "s = slave_run ks (slave_new master p)"
  shows "slave_phase_of (s_events s) = Some (if in_loop s > 0 then SlInLoop else if s_active s then SlOn else SlOff) \<and>
         (in_loop s = 0 \<longrightarrow> fst (sl_stop b s) = s_active s \<and> fst (sl_execute s) = s_active s)"
proof -
  have "slave_inv (slave_run ks t)" if "careful_run ks t" "slave_inv t" for t
    using that by (induction ks arbitrary: t) (simp_all add: slave_run_def slave_do_inv)
  moreover have "slave_inv (slave_new master p)" by (simp add: slave_inv_def slave_new_def)
  ultimately have "slave_inv s" using assms by simp
  then show ?thesis by (auto simp: slave_inv_def sl_stop_def sl_execute_def sl_isPeriodic_def)
qed

lemma slave_hooks_in_order_witness:
  "slave_phase_of (s_events (slave_run [MasterActive True, SlaveStart True, SlaveExecute, SlaveStop False, SlaveLoopReturns,
     SlaveStop True, SlaveStart True] (slave_new (Some 0) 5))) = Some SlOn"
proof -
  let ?ks = "[MasterActive True, SlaveStart True, SlaveExecute, SlaveStop False, SlaveLoopReturns, SlaveStop True, SlaveStart True]"
  have "careful_run ?ks (slave_new (Some 0) 5)"
    by (simp add: careful_def slave_new_def sl_start_def sl_stop_def sl_execute_def sl_loop_returns_def sl_isPeriodic_def)
  from slave_hooks_in_order [OF this refl] show ?thesis
    by (simp add: slave_run_def slave_new_def sl_start_def sl_stop_def sl_execute_def sl_loop_returns_def sl_isPeriodic_def)
qed

text \<open>An active periodic slave whose period is set to zero is never executed again, and cannot be stopped unless its
  runner says that a loop could be broken, which is not executed.\<close>

lemma slave_period_zero_stuck:
  assumes "s_active s" "s_running s" "s_period s = 0"
  shows "sl_execute s = (False, s)" and "sl_stop False s = (False, s)"
  using assms by (simp_all add: sl_execute_def sl_stop_def sl_isPeriodic_def)

lemma slave_period_zero_reached:
  "let s = slave_run [SlaveStart True, SlaveExecute, SlaveSetPeriod 0] (slave_new None 5)
   in s_active s \<and> s_running s \<and> s_period s = 0 \<and> in_loop s = 0"
  by (simp add: slave_run_def slave_new_def sl_start_def sl_execute_def sl_setPeriod_def sl_isPeriodic_def)

text \<open>\<^verbatim>\<open>stop\<close> calls \<^verbatim>\<open>finalize\<close> while the loop that it has broken is still executed, and the slave can be started
  and executed again then.\<close>

lemma slave_finalized_in_loop:
  "s_events (slave_run [SlaveStart True, SlaveExecute, SlaveStop True, SlaveStart True, SlaveExecute] (slave_new None 0)) =
     [SlInit True, SlLoop, SlFinal, SlInit True, SlLoop]"
  by (simp add: slave_run_def slave_new_def sl_start_def sl_stop_def sl_execute_def sl_isPeriodic_def)

text \<open>A slave does not follow its master when that changes its period.\<close>

lemma slave_period_disagrees:
  "let s = slave_run [MasterPeriod 0] (slave_new (Some 7) p) in sl_isPeriodic s \<and> sl_getPeriod s = 0"
  by (simp add: slave_run_def slave_new_def sl_isPeriodic_def sl_getPeriod_def)

lemma periodic_slave_triggers_master:
  "m_triggers (slave_run [MasterActive True, SlaveStart True, SlaveTrigger] (slave_new (Some 7) p)) = 1"
  by (simp add: slave_run_def slave_new_def sl_start_def sl_trigger_def)

section \<open>Sequential activities\<close>

text \<open>Threads that add work for the runner and then call \<^verbatim>\<open>trigger\<close>. \<open>work\<close> is what \<^verbatim>\<open>hasWork\<close> sees; \<^verbatim>\<open>step\<close> takes
  some of it, and what it takes is up to the runner. \<open>refused\<close> is a history: some \<^verbatim>\<open>trigger\<close> has returned
  false. \<open>Crashed\<close> is a call through a null pointer.\<close>

datatype seq_pc =
    SqIdle | SqTestRunning | SqTestActive | SqTryLock | SqSetRunning | SqStep | SqClear | SqUnlock | SqTestWork | Crashed

record seq_sys =
  q_running :: bool
  q_active :: bool
  q_lock :: "nat option"
  q_runner :: bool
  work :: nat
  initializing :: nat        \<comment> \<open>calls of \<^verbatim>\<open>start\<close> and \<^verbatim>\<open>stop\<close> that execute \<^verbatim>\<open>initialize\<close> and \<^verbatim>\<open>finalize\<close>\<close>
  finalizing :: nat
  refused :: bool
  q_pcs :: "nat \<Rightarrow> seq_pc"

definition seq_init :: "bool \<Rightarrow> seq_sys \<Rightarrow> bool" where
  "seq_init r s \<longleftrightarrow>
     s = \<lparr>q_running = False, q_active = False, q_lock = None, q_runner = r, work = 0, initializing = 0, finalizing = 0, refused = False,
          q_pcs = \<lambda>_. SqIdle\<rparr>"

abbreviation q_goto :: "nat \<Rightarrow> seq_pc \<Rightarrow> seq_sys \<Rightarrow> seq_sys" where
  "q_goto t p s \<equiv> s\<lparr>q_pcs := (q_pcs s)(t := p)\<rparr>"

inductive seq_step :: "seq_sys \<Rightarrow> seq_sys \<Rightarrow> bool" where
  add_work: "q_pcs s t = SqIdle \<Longrightarrow> seq_step s (q_goto t SqTestRunning (s\<lparr>work := work s + 1\<rparr>))"
| is_running: "q_pcs s t = SqTestRunning \<Longrightarrow> q_running s \<Longrightarrow> seq_step s (q_goto t SqIdle s)"
| not_running: "q_pcs s t = SqTestRunning \<Longrightarrow> \<not> q_running s \<Longrightarrow> seq_step s (q_goto t SqTestActive s)"
| is_active: "q_pcs s t = SqTestActive \<Longrightarrow> q_active s \<Longrightarrow> seq_step s (q_goto t SqTryLock s)"
| not_active: "q_pcs s t = SqTestActive \<Longrightarrow> \<not> q_active s \<Longrightarrow> seq_step s (q_goto t SqIdle (s\<lparr>refused := True\<rparr>))"
| locked: "q_pcs s t = SqTryLock \<Longrightarrow> q_lock s = None \<Longrightarrow> seq_step s (q_goto t SqSetRunning (s\<lparr>q_lock := Some t\<rparr>))"
| not_locked: "q_pcs s t = SqTryLock \<Longrightarrow> q_lock s \<noteq> None \<Longrightarrow> seq_step s (q_goto t SqIdle s)"
| set_running: "q_pcs s t = SqSetRunning \<Longrightarrow> seq_step s (q_goto t SqStep (s\<lparr>q_running := True\<rparr>))"
| step_takes: "q_pcs s t = SqStep \<Longrightarrow> n \<le> work s \<Longrightarrow> seq_step s (s\<lparr>work := n\<rparr>)"
| step_returns: "q_pcs s t = SqStep \<Longrightarrow> seq_step s (q_goto t SqClear s)"
| clear_running: "q_pcs s t = SqClear \<Longrightarrow> seq_step s (q_goto t SqUnlock (s\<lparr>q_running := False\<rparr>))"
| unlock: "q_pcs s t = SqUnlock \<Longrightarrow> seq_step s (q_goto t SqTestWork (s\<lparr>q_lock := None\<rparr>))"
| has_work: "q_pcs s t = SqTestWork \<Longrightarrow> q_runner s \<Longrightarrow> work s > 0 \<Longrightarrow> seq_step s (q_goto t SqTryLock s)"
| no_work: "q_pcs s t = SqTestWork \<Longrightarrow> q_runner s \<Longrightarrow> work s = 0 \<Longrightarrow> seq_step s (q_goto t SqIdle s)"
| no_runner: "q_pcs s t = SqTestWork \<Longrightarrow> \<not> q_runner s \<Longrightarrow> seq_step s (q_goto t Crashed s)"
| seq_start: "\<not> q_active s \<Longrightarrow> seq_step s (s\<lparr>q_active := True, initializing := initializing s + 1\<rparr>)"
| seq_initialized: "initializing s > 0 \<Longrightarrow>
     seq_step s (s\<lparr>q_active := q_active s \<and> init_ok, initializing := initializing s - 1\<rparr>)"
| seq_stop: "q_active s \<Longrightarrow> seq_step s (s\<lparr>finalizing := finalizing s + 1\<rparr>)"
| seq_stopped: "finalizing s > 0 \<Longrightarrow> seq_step s (s\<lparr>finalizing := finalizing s - 1, q_active := False\<rparr>)"

fun in_lock :: "seq_pc \<Rightarrow> bool" where
  "in_lock SqSetRunning \<longleftrightarrow> True"
| "in_lock SqStep \<longleftrightarrow> True"
| "in_lock SqClear \<longleftrightarrow> True"
| "in_lock SqUnlock \<longleftrightarrow> True"
| "in_lock _ \<longleftrightarrow> False"

definition lock_ok :: "seq_sys \<Rightarrow> bool" where
  "lock_ok s \<longleftrightarrow> (\<forall>t. in_lock (q_pcs s t) \<longleftrightarrow> q_lock s = Some t)"

definition running_ok :: "seq_sys \<Rightarrow> bool" where
  "running_ok s \<longleftrightarrow> (q_running s \<longrightarrow> (\<exists>t. q_pcs s t = SqStep \<or> q_pcs s t = SqClear))"

definition work_ok :: "seq_sys \<Rightarrow> bool" where
  "work_ok s \<longleftrightarrow> (work s > 0 \<longrightarrow> refused s \<or> (\<exists>t. q_pcs s t \<noteq> SqIdle))"

definition crash_ok :: "bool \<Rightarrow> seq_sys \<Rightarrow> bool" where
  "crash_ok r s \<longleftrightarrow> q_runner s = r \<and> (r \<longrightarrow> (\<forall>t. q_pcs s t \<noteq> Crashed))"

lemma lock_ok_update [simp]:
  "lock_ok (s\<lparr>work := w\<rparr>) = lock_ok s" "lock_ok (s\<lparr>q_running := b\<rparr>) = lock_ok s" "lock_ok (s\<lparr>q_active := b\<rparr>) = lock_ok s"
  "lock_ok (s\<lparr>refused := b\<rparr>) = lock_ok s" "lock_ok (s\<lparr>initializing := n\<rparr>) = lock_ok s"
  "lock_ok (s\<lparr>finalizing := n\<rparr>) = lock_ok s"
  by (simp_all add: lock_ok_def)

lemma lock_goto: "in_lock p = in_lock (q_pcs s t) \<Longrightarrow> lock_ok s \<Longrightarrow> lock_ok (q_goto t p s)"
  by (simp add: lock_ok_def)

lemma lock_ok_step: "seq_step s s' \<Longrightarrow> lock_ok s \<Longrightarrow> lock_ok s'"
proof (induction rule: seq_step.induct)
  case (unlock s t)
  then have "q_lock s = Some t" by (metis in_lock.simps(4) lock_ok_def)
  with unlock show ?case by (auto simp: lock_ok_def)
next
  case (locked s t)
  then show ?case by (auto simp: lock_ok_def)
qed ((rule lock_goto; simp) | simp)+

lemma running_ok_step: "seq_step s s' \<Longrightarrow> lock_ok s \<Longrightarrow> running_ok s \<Longrightarrow> running_ok s'"
proof (induction rule: seq_step.induct)
  case (clear_running s t)
  then show ?case by (simp add: running_ok_def)
next
  case (step_returns s t)
  then show ?case by (auto simp: running_ok_def)
next
  case (set_running s t)
  then show ?case by (auto simp: running_ok_def)
qed (auto simp: running_ok_def, (metis seq_pc.distinct)+)

lemma work_ok_step: "seq_step s s' \<Longrightarrow> lock_ok s \<Longrightarrow> running_ok s \<Longrightarrow> work_ok s \<Longrightarrow> work_ok s'"
proof (induction rule: seq_step.induct)
  case (is_running s t)
  then obtain u where "q_pcs s u = SqStep \<or> q_pcs s u = SqClear" by (auto simp: running_ok_def)
  with is_running(1) have "u \<noteq> t" "q_pcs s u \<noteq> SqIdle" by auto
  then show ?case unfolding work_ok_def by (intro impI disjI2 exI [of _ u]) simp
next
  case (not_locked s t)
  then obtain u where "q_lock s = Some u" by auto
  then have "in_lock (q_pcs s u)" using not_locked(3) by (simp add: lock_ok_def)
  with not_locked(1) have "u \<noteq> t" "q_pcs s u \<noteq> SqIdle" by auto
  then show ?case unfolding work_ok_def by (intro impI disjI2 exI [of _ u]) simp
next
  case (step_takes s t n)
  then have "q_pcs s t \<noteq> SqIdle" by simp
  then show ?case by (auto simp: work_ok_def)
qed (auto simp: work_ok_def)

lemma crash_ok_step: "seq_step s s' \<Longrightarrow> crash_ok r s \<Longrightarrow> crash_ok r s'"
  by (induction rule: seq_step.induct) (auto simp: crash_ok_def)

interpretation seq: invariant_of "seq_init r" seq_step "\<lambda>s. lock_ok s \<and> running_ok s \<and> work_ok s \<and> crash_ok r s"
proof
  show "seq_init r s \<Longrightarrow> lock_ok s \<and> running_ok s \<and> work_ok s \<and> crash_ok r s" for s
    by (auto simp: seq_init_def lock_ok_def running_ok_def work_ok_def crash_ok_def)
qed (blast intro: lock_ok_step running_ok_step work_ok_step crash_ok_step)

text \<open>C16: Threads that add work and trigger a sequential activity with a runner, in any interleaving: \<^verbatim>\<open>step\<close> is never
  executed by two of them at a time; and when all calls of \<^verbatim>\<open>trigger\<close> have returned, none of them false, there is no
  work left, although a trigger that finds the activity executing does nothing.\<close>

theorem sequential_trigger_loses_nothing:
  assumes "reachable (seq_init True) seq_step s"
  shows "(q_pcs s t = SqStep \<and> q_pcs s u = SqStep \<longrightarrow> t = u) \<and> q_pcs s t \<noteq> Crashed \<and>
         ((\<forall>t. q_pcs s t = SqIdle) \<and> \<not> refused s \<longrightarrow> work s = 0)"
proof -
  have "lock_ok s" "work_ok s" "crash_ok True s" using seq.reachable_inv [OF assms] by simp_all
  moreover have "q_lock s = Some v" if "q_pcs s v = SqStep" for v
    using \<open>lock_ok s\<close> that by (metis in_lock.simps(2) lock_ok_def)
  then have "t = u" if "q_pcs s t = SqStep" "q_pcs s u = SqStep" using that by (metis option.inject)
  ultimately show ?thesis by (auto simp: work_ok_def crash_ok_def)
qed

text \<open>Runs as lists of thread numbers.\<close>

definition seq_turn :: "nat \<Rightarrow> seq_sys \<Rightarrow> seq_sys" where
  "seq_turn t s =
     (case q_pcs s t of
        SqIdle \<Rightarrow> q_goto t SqTestRunning (s\<lparr>work := work s + 1\<rparr>)
      | SqTestRunning \<Rightarrow> q_goto t (if q_running s then SqIdle else SqTestActive) s
      | SqTestActive \<Rightarrow> if q_active s then q_goto t SqTryLock s else q_goto t SqIdle (s\<lparr>refused := True\<rparr>)
      | SqTryLock \<Rightarrow> if q_lock s = None then q_goto t SqSetRunning (s\<lparr>q_lock := Some t\<rparr>) else q_goto t SqIdle s
      | SqSetRunning \<Rightarrow> q_goto t SqStep (s\<lparr>q_running := True\<rparr>)
      | SqStep \<Rightarrow> q_goto t SqClear s
      | SqClear \<Rightarrow> q_goto t SqUnlock (s\<lparr>q_running := False\<rparr>)
      | SqUnlock \<Rightarrow> q_goto t SqTestWork (s\<lparr>q_lock := None\<rparr>)
      | SqTestWork \<Rightarrow> q_goto t (if \<not> q_runner s then Crashed else if work s > 0 then SqTryLock else SqIdle) s
      | Crashed \<Rightarrow> s)"

datatype seq_action = Turn nat | Takes nat nat | SeqStart | SeqInitialized bool | SeqStop | SeqStopped

fun seq_act :: "seq_action \<Rightarrow> seq_sys \<Rightarrow> seq_sys" where
  "seq_act (Turn t) s = seq_turn t s"
| "seq_act (Takes t n) s = (if q_pcs s t = SqStep \<and> n \<le> work s then s\<lparr>work := n\<rparr> else s)"
| "seq_act SeqStart s = (if q_active s then s else s\<lparr>q_active := True, initializing := initializing s + 1\<rparr>)"
| "seq_act (SeqInitialized b) s =
     (if initializing s > 0 then s\<lparr>q_active := q_active s \<and> b, initializing := initializing s - 1\<rparr> else s)"
| "seq_act SeqStop s = (if q_active s then s\<lparr>finalizing := finalizing s + 1\<rparr> else s)"
| "seq_act SeqStopped s = (if finalizing s > 0 then s\<lparr>finalizing := finalizing s - 1, q_active := False\<rparr> else s)"

lemma seq_act_step: "seq_act a s = s \<or> seq_step s (seq_act a s)"
proof (cases a)
  case (Turn t)
  then show ?thesis by (cases "q_pcs s t") (auto simp: seq_turn_def intro: seq_step.intros [simplified])
qed (auto intro: seq_step.intros seq_step.intros [simplified])

definition seq_started :: "bool \<Rightarrow> seq_sys" where
  "seq_started r = \<lparr>q_running = False, q_active = False, q_lock = None, q_runner = r, work = 0, initializing = 0, finalizing = 0, refused = False,
          q_pcs = \<lambda>_. SqIdle\<rparr>"

lemma seq_run_reachable: "reachable (seq_init r) seq_step (fold seq_act as (seq_started r))"
proof (induction as rule: rev_induct)
  case Nil
  show ?case by (simp add: seq_started_def seq_init_def reachable_init)
next
  case (snoc a as)
  then show ?case using seq_act_step [of a "fold seq_act as (seq_started r)"] by (auto intro: reachable_step)
qed

lemma sequential_trigger_loses_nothing_witness:
  "work (fold seq_act [SeqStart, SeqInitialized True, Turn 0, Turn 0, Turn 0, Turn 0, Turn 0, Takes 0 0, Turn 1, Turn 1, Turn 0, Turn 0, Turn 0, Turn 0,
     Turn 0, Turn 0, Takes 0 0, Turn 0, Turn 0, Turn 0, Turn 0] (seq_started True)) = 0"
proof -
  let ?s = "fold seq_act [SeqStart, SeqInitialized True, Turn 0, Turn 0, Turn 0, Turn 0, Turn 0, Takes 0 0, Turn 1, Turn 1, Turn 0, Turn 0, Turn 0, Turn 0,
     Turn 0, Turn 0, Takes 0 0, Turn 0, Turn 0, Turn 0, Turn 0] (seq_started True)"
  have "\<forall>t. q_pcs ?s t = SqIdle" "\<not> refused ?s" by (simp_all add: seq_turn_def seq_started_def)
  with sequential_trigger_loses_nothing [OF seq_run_reachable, where t = 0 and u = 0] show ?thesis by blast
qed

text \<open>Without a runner, \<^verbatim>\<open>trigger\<close> executes the activity's own \<^verbatim>\<open>step\<close> and then calls \<^verbatim>\<open>hasWork\<close> through a null
  pointer.\<close>

lemma trigger_without_runner_crashes:
  "q_pcs (fold seq_act (SeqStart # SeqInitialized True # replicate 9 (Turn 0)) (seq_started False)) 0 = Crashed"
  by (simp add: seq_turn_def seq_started_def eval_nat_numeral)

text \<open>\<^verbatim>\<open>stop\<close> does not take the lock: it calls \<^verbatim>\<open>finalize\<close> while another thread executes \<^verbatim>\<open>step\<close>, and a step can
  begin when it has returned.\<close>

lemma finalized_during_step:
  "let s = fold seq_act [SeqStart, SeqInitialized True, Turn 0, Turn 0, Turn 0, Turn 0, Turn 0, SeqStop] (seq_started True)
   in finalizing s > 0 \<and> q_pcs s 0 = SqStep"
  "let s = fold seq_act [SeqStart, SeqInitialized True, Turn 0, Turn 0, Turn 0, SeqStop, SeqStopped, Turn 0, Turn 0] (seq_started True)
   in \<not> q_active s \<and> q_pcs s 0 = SqStep"
  by (simp_all add: seq_turn_def seq_started_def)

end
