(* ===== verification/LockedQueues.thy ===== *)
theory LockedQueues
  imports QueueSpec
begin

text \<open>
  \<^verbatim>\<open>LockedQueue\<close> (\<^verbatim>\<open>internal/LockedQueue.hpp\<close>): a queue of values in a \<^verbatim>\<open>std::deque\<close>, each function one critical
  section. It keeps the contract of the lock-free queues for callers that do not enqueue null pointers, which it
  accepts.
\<close>

record 'a locked_queue =
  lq_data :: "'a list"
  lq_cap :: "32 word"

definition lq_new :: "32 word \<Rightarrow> 'a locked_queue" where
  "lq_new lsize = \<lparr>lq_data = [], lq_cap = lsize\<rparr>"

definition lq_isFull :: "'a locked_queue \<Rightarrow> bool" where
  "lq_isFull q \<longleftrightarrow> length (lq_data q) = unat (lq_cap q)"

definition lq_enqueue :: "'a \<Rightarrow> 'a locked_queue \<Rightarrow> bool \<times> 'a locked_queue" where
  "lq_enqueue v q = (if unat (lq_cap q) = length (lq_data q) then (False, q) else (True, q\<lparr>lq_data := lq_data q @ [v]\<rparr>))"

definition lq_dequeue :: "'a locked_queue \<Rightarrow> 'a option \<times> 'a locked_queue" where
  "lq_dequeue q = (if lq_data q = [] then (None, q) else (Some (hd (lq_data q)), q\<lparr>lq_data := tl (lq_data q)\<rparr>))"

text \<open>\<open>def\<close> is a value made by the default constructor.\<close>

definition lq_front :: "'a \<Rightarrow> 'a locked_queue \<Rightarrow> 'a" where
  "lq_front def q = (if lq_data q = [] then def else hd (lq_data q))"

definition lq_back :: "'a \<Rightarrow> 'a locked_queue \<Rightarrow> 'a" where
  "lq_back def q = (if lq_data q = [] then def else last (lq_data q))"

definition lq_clear :: "'a locked_queue \<Rightarrow> 'a locked_queue" where
  "lq_clear q = q\<lparr>lq_data := []\<rparr>"

section \<open>The contract\<close>

definition locked_queue_api :: "('a, 'a locked_queue) queue_api" where
  "locked_queue_api =
     \<lparr>q_enqueue = (\<lambda>v q. case v of None \<Rightarrow> (False, q) | Some x \<Rightarrow> lq_enqueue x q),
      q_dequeue = lq_dequeue, q_isFull = lq_isFull, q_isEmpty = (\<lambda>q. lq_data q = []),
      q_capacity = (\<lambda>q. unat (lq_cap q)), q_size = (\<lambda>q. length (lq_data q)), q_clear = lq_clear\<rparr>"

definition lq_ok :: "'a locked_queue \<Rightarrow> bool" where
  "lq_ok q \<longleftrightarrow> length (lq_data q) \<le> unat (lq_cap q)"

interpretation locked_queue: bounded_fifo locked_queue_api lq_data lq_ok
  by unfold_locales
    (auto simp: locked_queue_api_def lq_ok_def lq_enqueue_def lq_dequeue_def lq_isFull_def lq_clear_def)

text \<open>Any sequence of calls on a new queue has the results of a list that holds at most \<^verbatim>\<open>lsize\<close> values.\<close>

lemma locked_queue_behaves_as_list:
  "fst (queue_run locked_queue_api cs (lq_new lsize)) = fst (queue_run (list_queue (unat lsize)) cs [])"
  using locked_queue.run_refines [of "lq_new lsize" "unat lsize" cs]
  by (simp add: lq_ok_def lq_new_def locked_queue_api_def)

text \<open>\<^verbatim>\<open>front\<close> is what the next \<^verbatim>\<open>dequeue\<close> takes, and \<^verbatim>\<open>back\<close> what the last \<^verbatim>\<open>enqueue\<close> has added.\<close>

lemma front_is_dequeued: "lq_data q \<noteq> [] \<Longrightarrow> fst (lq_dequeue q) = Some (lq_front def q)"
  by (simp add: lq_dequeue_def lq_front_def)

lemma back_is_enqueued: "lq_enqueue v q = (True, q') \<Longrightarrow> lq_back def q' = v"
  by (auto simp: lq_enqueue_def lq_back_def split: if_splits)

end
