(* ===== verification/Peers.thy ===== *)
theory Peers
  imports OroPrelude "HOL-Library.Char_ord" "HOL-Library.List_Lexorder"
begin

text \<open>
  The peers of components (\<^verbatim>\<open>TaskContext.cpp\<close>): each component has a map \<^verbatim>\<open>_task_map\<close> from names to the peers it
  uses and a list \<^verbatim>\<open>musers\<close> of the components that use it. Components are numbered; \<open>gone\<close> has those that were
  deleted. The map is a list in the order of its keys, the order in which the code iterates over it. The names of
  components are a parameter. A component that was deleted is not used by the program any more, so
  calls on one are not made.
\<close>

section \<open>The peers of one component\<close>

type_synonym peer_map = "(string \<times> nat) list"

fun map_put :: "string \<Rightarrow> nat \<Rightarrow> peer_map \<Rightarrow> peer_map" where
  "map_put k v [] = [(k, v)]"
| "map_put k v ((j, w) # m) = (if k < j then (k, v) # (j, w) # m else if k = j then (k, v) # m else (j, w) # map_put k v m)"

abbreviation map_erase :: "string \<Rightarrow> peer_map \<Rightarrow> peer_map" where
  "map_erase k m \<equiv> filter (\<lambda>e. fst e \<noteq> k) m"

record peer_net =
  task_map :: "nat \<Rightarrow> peer_map"
  musers :: "nat \<Rightarrow> nat list"
  gone :: "nat set"

definition peer_net_new :: peer_net where
  "peer_net_new = \<lparr>task_map = \<lambda>_. [], musers = \<lambda>_. [], gone = {}\<rparr>"

definition hasPeer :: "nat \<Rightarrow> string \<Rightarrow> peer_net \<Rightarrow> bool" where
  "hasPeer a n N \<longleftrightarrow> map_of (task_map N a) n \<noteq> None"

definition getPeer :: "nat \<Rightarrow> string \<Rightarrow> peer_net \<Rightarrow> nat option" where
  "getPeer a n N = (if hasPeer a n N then map_of (task_map N a) n else None)"

definition getPeerList :: "nat \<Rightarrow> peer_net \<Rightarrow> string list" where
  "getPeerList a N = map fst (task_map N a)"

definition addUser :: "nat \<Rightarrow> nat \<Rightarrow> peer_net \<Rightarrow> peer_net" where
  "addUser b u N = N\<lparr>musers := (musers N)(b := musers N b @ [u])\<rparr>"

definition removeUser :: "nat \<Rightarrow> nat \<Rightarrow> peer_net \<Rightarrow> peer_net" where
  "removeUser b u N = N\<lparr>musers := (musers N)(b := remove1 u (musers N b))\<rparr>"

definition set_map :: "nat \<Rightarrow> peer_map \<Rightarrow> peer_net \<Rightarrow> peer_net" where
  "set_map a m N = N\<lparr>task_map := (task_map N)(a := m)\<rparr>"

text \<open>A null pointer with an empty alias is dereferenced, which is \<open>None\<close>.\<close>

definition addPeer :: "(nat \<Rightarrow> string) \<Rightarrow> nat \<Rightarrow> nat option \<Rightarrow> string \<Rightarrow> peer_net \<Rightarrow> (bool \<times> peer_net) option" where
  "addPeer name a peer alias N =
     (if alias = [] \<and> peer = None then None
      else let n = (if alias = [] then name (the peer) else alias) in
        case peer of
          None \<Rightarrow> Some (False, N)
        | Some b \<Rightarrow> if hasPeer a n N then Some (False, N) else Some (True, addUser b a (set_map a (map_put n b (task_map N a)) N)))"

definition removePeer_name :: "nat \<Rightarrow> string \<Rightarrow> peer_net \<Rightarrow> peer_net" where
  "removePeer_name a n N =
     (case map_of (task_map N a) n of
        None \<Rightarrow> N
      | Some b \<Rightarrow> (let N1 = removeUser b a N in set_map a (map_erase n (task_map N1 a)) N1))"

definition removePeer :: "nat \<Rightarrow> nat \<Rightarrow> peer_net \<Rightarrow> peer_net" where
  "removePeer a b N =
     (case find (\<lambda>e. snd e = b) (task_map N a) of
        None \<Rightarrow> N
      | Some (n, _) \<Rightarrow> (let N1 = removeUser b a N in set_map a (map_erase n (task_map N1 a)) N1))"

definition connectPeers :: "(nat \<Rightarrow> string) \<Rightarrow> nat \<Rightarrow> nat \<Rightarrow> peer_net \<Rightarrow> (bool \<times> peer_net) option" where
  "connectPeers name a b N =
     (if hasPeer a (name b) N \<or> hasPeer b (name a) N then Some (False, N)
      else case addPeer name a (Some b) [] N of
             None \<Rightarrow> None
           | Some (_, N1) \<Rightarrow> (case addPeer name b (Some a) [] N1 of None \<Rightarrow> None | Some (_, N2) \<Rightarrow> Some (True, N2)))"

definition disconnectPeers :: "nat \<Rightarrow> string \<Rightarrow> peer_net \<Rightarrow> peer_net" where
  "disconnectPeers a n N =
     (case map_of (task_map N a) n of None \<Rightarrow> N | Some b \<Rightarrow> removePeer b a (removePeer a b N))"

text \<open>The two loops of \<^verbatim>\<open>disconnect\<close> and of the destructor.\<close>

partial_function (option) leave_users :: "nat \<Rightarrow> peer_net \<Rightarrow> peer_net option" where
  "leave_users a N = (if musers N a = [] then Some N else leave_users a (removePeer (hd (musers N a)) a N))"

partial_function (option) leave_peers :: "nat \<Rightarrow> peer_net \<Rightarrow> peer_net option" where
  "leave_peers a N =
     (if task_map N a = [] then Some N
      else let N1 = removeUser (snd (hd (task_map N a))) a N in leave_peers a (set_map a (tl (task_map N1 a)) N1))"

definition tc_disconnect :: "nat \<Rightarrow> peer_net \<Rightarrow> peer_net option" where
  "tc_disconnect a N = (case leave_users a N of None \<Rightarrow> None | Some N1 \<Rightarrow> leave_peers a N1)"

definition tc_destroy :: "nat \<Rightarrow> peer_net \<Rightarrow> peer_net option" where
  "tc_destroy a N = (case tc_disconnect a N of None \<Rightarrow> None | Some N1 \<Rightarrow> Some (N1\<lparr>gone := insert a (gone N1)\<rparr>))"

datatype peer_call =
    AddPeer nat nat string | RemovePeerName nat string | RemovePeer nat nat | ConnectPeers nat nat
  | DisconnectPeers nat string | DisconnectTask nat | DestroyTask nat

fun peer_actors :: "peer_call \<Rightarrow> nat set" where
  "peer_actors (AddPeer a b n) = {a, b}"
| "peer_actors (RemovePeerName a n) = {a}"
| "peer_actors (RemovePeer a b) = {a, b}"
| "peer_actors (ConnectPeers a b) = {a, b}"
| "peer_actors (DisconnectPeers a n) = {a}"
| "peer_actors (DisconnectTask a) = {a}"
| "peer_actors (DestroyTask a) = {a}"

fun peer_do :: "(nat \<Rightarrow> string) \<Rightarrow> peer_call \<Rightarrow> peer_net \<Rightarrow> peer_net option" where
  "peer_do name (AddPeer a b n) N = map_option snd (addPeer name a (Some b) n N)"
| "peer_do name (RemovePeerName a n) N = Some (removePeer_name a n N)"
| "peer_do name (RemovePeer a b) N = Some (removePeer a b N)"
| "peer_do name (ConnectPeers a b) N = map_option snd (connectPeers name a b N)"
| "peer_do name (DisconnectPeers a n) N = Some (disconnectPeers a n N)"
| "peer_do name (DisconnectTask a) N = tc_disconnect a N"
| "peer_do name (DestroyTask a) N = tc_destroy a N"

fun peer_run :: "(nat \<Rightarrow> string) \<Rightarrow> peer_call list \<Rightarrow> peer_net \<Rightarrow> peer_net option" where
  "peer_run name [] N = Some N"
| "peer_run name (c # cs) N =
     (if peer_actors c \<inter> gone N \<noteq> {} then peer_run name cs N
      else case peer_do name c N of None \<Rightarrow> None | Some N1 \<Rightarrow> peer_run name cs N1)"

section \<open>Both ends agree\<close>

definition uses :: "peer_net \<Rightarrow> nat \<Rightarrow> nat \<Rightarrow> nat" where
  "uses N a b = count_list (map snd (task_map N a)) b"

definition peers_ok :: "peer_net \<Rightarrow> bool" where
  "peers_ok N \<longleftrightarrow>
     (\<forall>a b. count_list (musers N b) a = uses N a b) \<and> (\<forall>a. distinct (map fst (task_map N a))) \<and>
     (\<forall>a \<in> gone N. task_map N a = [] \<and> musers N a = [])"

lemma map_put_fresh:
  "map_of m k = None \<Longrightarrow> count_list (map snd (map_put k v m)) b = count_list (map snd m) b + (if v = b then 1 else 0)"
  by (induction m) (auto split: if_splits)

lemma set_map_put: "fst ` set (map_put k v m) = insert k (fst ` set m)"
  by (induction k v m rule: map_put.induct) (simp_all add: insert_commute)

lemma distinct_map_put: "map_of m k = None \<Longrightarrow> distinct (map fst m) \<Longrightarrow> distinct (map fst (map_put k v m))"
proof (induction m)
  case (Cons e m)
  obtain j w where e: "e = (j, w)" by (cases e)
  have m: "map_of m k = None" "k \<noteq> j" using Cons.prems(1) e by (auto split: if_splits)
  then have "k \<notin> fst ` set m" by (simp add: map_of_eq_None_iff)
  with Cons m e show ?case by (simp add: set_map_put)
qed simp

lemma count_remove1: "count_list (remove1 x xs) y = count_list xs y - (if x = y then 1 else 0)"
  by (induction xs) auto

lemma distinct_map_erase: "distinct (map fst m) \<Longrightarrow> distinct (map fst (map_erase k m))"
  by (simp add: distinct_map_filter)

lemma erase_absent: "k \<notin> fst ` set m \<Longrightarrow> map_erase k m = m"
  by (induction m) auto

lemma erase_count:
  "distinct (map fst m) \<Longrightarrow> (k, v) \<in> set m \<Longrightarrow>
   count_list (map snd (map_erase k m)) b = count_list (map snd m) b - (if v = b then 1 else 0)"
proof (induction m)
  case (Cons e m)
  show ?case
  proof (cases "fst e = k")
    case True
    with Cons.prems have a: "k \<notin> fst ` set m" by auto
    with Cons.prems True have "snd e = v" by (cases e) (auto simp: image_iff)
    with True erase_absent [OF a] show ?thesis by simp
  next
    case False
    with Cons.prems have "(k, v) \<in> set m" by auto
    moreover from this have "v = b \<Longrightarrow> count_list (map snd m) b > 0" by (force simp: count_list_0_iff intro: gr0I)
    ultimately show ?thesis using Cons False by (auto simp: Suc_diff_le)
  qed
qed simp

text \<open>Removing one entry on both ends.\<close>

definition unlink :: "nat \<Rightarrow> string \<Rightarrow> nat \<Rightarrow> peer_net \<Rightarrow> peer_net" where
  "unlink a n b N = set_map a (map_erase n (task_map N a)) (removeUser b a N)"

lemma unlink_ok:
  assumes N: "peers_ok N" and e: "(n, b) \<in> set (task_map N a)"
  shows "peers_ok (unlink a n b N)" and "uses (unlink a n b N) a b = uses N a b - 1"
    and "gone (unlink a n b N) = gone N" and "length (task_map (unlink a n b N) a) < length (task_map N a)"
proof -
  let ?N = "unlink a n b N"
  have d: "distinct (map fst (task_map N a))" using N by (simp add: peers_ok_def)
  have u: "uses ?N x y = uses N x y - (if x = a \<and> y = b then 1 else 0)" for x y
    using erase_count [OF d e, of y] by (auto simp: unlink_def uses_def set_map_def removeUser_def)
  moreover have "count_list (musers ?N y) x = count_list (musers N y) x - (if x = a \<and> y = b then 1 else 0)" for x y
    by (simp add: unlink_def set_map_def removeUser_def count_remove1)
  moreover have "a \<notin> gone N" using N e by (auto simp: peers_ok_def)
  moreover have "b \<notin> gone N"
  proof
    assume "b \<in> gone N"
    then have "uses N a b = 0" using N unfolding peers_ok_def by (metis count_list.simps(1))
    with e show False by (force simp: uses_def count_list_0_iff)
  qed
  moreover have "distinct (map fst (task_map ?N x))" for x
    using N distinct_map_erase [OF d] by (simp add: peers_ok_def unlink_def set_map_def removeUser_def)
  moreover have "\<forall>c \<in> gone N. task_map ?N c = [] \<and> musers ?N c = []" if "a \<notin> gone N" "b \<notin> gone N"
    using N that by (auto simp: peers_ok_def unlink_def set_map_def removeUser_def)
  moreover have "gone ?N = gone N" by (simp add: unlink_def set_map_def removeUser_def)
  ultimately show "peers_ok ?N" using N by (simp add: peers_ok_def)
  show "uses ?N a b = uses N a b - 1" using u [of a b] by simp
  show "gone ?N = gone N" by (simp add: unlink_def set_map_def removeUser_def)
  show "length (task_map ?N a) < length (task_map N a)"
    using e by (auto simp: unlink_def set_map_def removeUser_def intro!: length_filter_less)
qed

lemma removePeer_unlink:
  "removePeer a b N = N \<and> uses N a b = 0 \<or> (\<exists>n. (n, b) \<in> set (task_map N a) \<and> removePeer a b N = unlink a n b N)"
proof (cases "find (\<lambda>e. snd e = b) (task_map N a)")
  case None
  then have "b \<notin> snd ` set (task_map N a)" unfolding find_None_iff by blast
  then have "uses N a b = 0" by (simp add: uses_def count_list_0_iff)
  with None show ?thesis by (simp add: removePeer_def)
next
  case (Some e)
  then have "e \<in> set (task_map N a)" "snd e = b" using find_SomeD [OF Some] by simp_all
  then have "(fst e, b) \<in> set (task_map N a)" by auto
  moreover have "removePeer a b N = unlink a (fst e) b N"
    using Some by (cases e) (simp add: removePeer_def unlink_def Let_def removeUser_def)
  ultimately show ?thesis by blast
qed

lemma removePeer_name_unlink:
  "removePeer_name a n N = N \<or> (\<exists>b. (n, b) \<in> set (task_map N a) \<and> removePeer_name a n N = unlink a n b N)"
  by (auto simp: removePeer_name_def unlink_def Let_def removeUser_def split: option.splits dest: map_of_SomeD)

lemma removePeer_ok: "peers_ok N \<Longrightarrow> peers_ok (removePeer a b N) \<and> gone (removePeer a b N) = gone N"
  using removePeer_unlink [of a b N] unlink_ok by metis

lemma removePeer_name_ok: "peers_ok N \<Longrightarrow> peers_ok (removePeer_name a n N)"
  using removePeer_name_unlink [of a n N] unlink_ok by metis

lemma addPeer_ok:
  assumes N: "peers_ok N" and live: "a \<notin> gone N" "b \<notin> gone N"
  shows "\<exists>r N1. addPeer name a (Some b) n N = Some (r, N1) \<and> peers_ok N1 \<and> gone N1 = gone N"
proof (cases "hasPeer a (if n = [] then name b else n) N")
  case True
  with N show ?thesis by (cases "n = []") (simp_all add: addPeer_def Let_def ex_bool_eq)
next
  case False
  let ?n = "if n = [] then name b else n"
  let ?N = "addUser b a (set_map a (map_put ?n b (task_map N a)) N)"
  from False have f: "map_of (task_map N a) ?n = None" by (simp add: hasPeer_def)
  have "uses ?N x y = uses N x y + (if x = a \<and> y = b then 1 else 0)" for x y
    using map_put_fresh [OF f, of b y] by (auto simp: uses_def addUser_def set_map_def)
  moreover have "count_list (musers ?N y) x = count_list (musers N y) x + (if x = a \<and> y = b then 1 else 0)" for x y
    by (simp add: addUser_def set_map_def)
  moreover have "distinct (map fst (task_map ?N x))" for x
    using N distinct_map_put [OF f] by (simp add: peers_ok_def addUser_def set_map_def)
  moreover have "\<forall>c \<in> gone N. task_map ?N c = [] \<and> musers ?N c = []"
    using N live by (auto simp: peers_ok_def addUser_def set_map_def)
  moreover have "gone ?N = gone N" by (simp add: addUser_def set_map_def)
  ultimately have "peers_ok ?N" using N by (simp add: peers_ok_def)
  moreover have "addPeer name a (Some b) n N = Some (True, ?N)" using False by (auto simp: addPeer_def Let_def)
  moreover have "gone ?N = gone N" by (simp add: addUser_def set_map_def)
  ultimately show ?thesis by blast
qed

lemma disconnectPeers_ok: "peers_ok N \<Longrightarrow> peers_ok (disconnectPeers a n N) \<and> gone (disconnectPeers a n N) = gone N"
  using removePeer_ok by (simp add: disconnectPeers_def split: option.split)

lemma connectPeers_ok:
  assumes "peers_ok N" "a \<notin> gone N" "b \<notin> gone N"
  shows "\<exists>r N1. connectPeers name a b N = Some (r, N1) \<and> peers_ok N1 \<and> gone N1 = gone N"
proof -
  obtain r N1 where 1: "addPeer name a (Some b) [] N = Some (r, N1)" "peers_ok N1" "gone N1 = gone N"
    using addPeer_ok [OF assms] by blast
  obtain q N2 where 2: "addPeer name b (Some a) [] N1 = Some (q, N2)" "peers_ok N2" "gone N2 = gone N1"
    using addPeer_ok [OF 1(2)] 1(3) assms by metis
  have "connectPeers name a b N = (if hasPeer a (name b) N \<or> hasPeer b (name a) N then Some (False, N) else Some (True, N2))"
    using 1 2 by (simp add: connectPeers_def)
  with 1 2 assms show ?thesis by (cases "hasPeer a (name b) N \<or> hasPeer b (name a) N") auto
qed

lemma removePeer_uses:
  "peers_ok N \<Longrightarrow> u \<in> set (musers N a) \<Longrightarrow>
   length (musers (removePeer u a N) a) < length (musers N a)"
proof -
  assume N: "peers_ok N" and u: "u \<in> set (musers N a)"
  then have "uses N u a \<noteq> 0" unfolding peers_ok_def by (metis count_list_0_iff)
  then obtain n where "removePeer u a N = unlink u n a N" using removePeer_unlink [of u a N] by auto
  moreover have "0 < length (musers N a)" using u by (rule length_pos_if_in_set)
  ultimately show ?thesis using u by (simp add: unlink_def set_map_def removeUser_def length_remove1)
qed

lemma leave_users_returns:
  "peers_ok N \<Longrightarrow> \<exists>N1. leave_users a N = Some N1 \<and> peers_ok N1 \<and> gone N1 = gone N \<and> musers N1 a = []"
proof (induction "length (musers N a)" arbitrary: N rule: less_induct)
  case less
  show ?case
  proof (cases "musers N a")
    case Nil
    with less.prems show ?thesis by (simp add: leave_users.simps)
  next
    case (Cons u us)
    let ?N = "removePeer u a N"
    have "u \<in> set (musers N a)" using Cons by simp
    from removePeer_uses [OF less.prems this] have "length (musers ?N a) < length (musers N a)" .
    moreover have N: "peers_ok ?N" "gone ?N = gone N" using removePeer_ok [OF less.prems] by simp_all
    ultimately obtain N1 where "leave_users a ?N = Some N1" "peers_ok N1" "gone N1 = gone ?N" "musers N1 a = []"
      using less.hyps by blast
    with Cons N(2) show ?thesis by (subst leave_users.simps) simp
  qed
qed

lemma leave_peers_returns:
  "peers_ok N \<Longrightarrow> musers N a = [] \<Longrightarrow>
   \<exists>N1. leave_peers a N = Some N1 \<and> peers_ok N1 \<and> gone N1 = gone N \<and> musers N1 a = [] \<and> task_map N1 a = []"
proof (induction "length (task_map N a)" arbitrary: N rule: less_induct)
  case less
  show ?case
  proof (cases "task_map N a")
    case Nil
    with less.prems show ?thesis by (simp add: leave_peers.simps)
  next
    case (Cons e m)
    obtain n b where e: "e = (n, b)" by (cases e)
    have "distinct (map fst (task_map N a))" using less.prems(1) by (simp add: peers_ok_def)
    then have "map_erase n (task_map N a) = m" using Cons e by (auto intro: erase_absent)
    then have step: "set_map a (tl (task_map (removeUser b a N) a)) (removeUser b a N) = unlink a n b N"
      using Cons by (simp add: unlink_def removeUser_def)
    have i: "(n, b) \<in> set (task_map N a)" using Cons e by simp
    note u = unlink_ok [OF less.prems(1) i]
    have "musers (unlink a n b N) a = []" using less.prems(2) by (cases "a = b") (simp_all add: unlink_def set_map_def removeUser_def)
    from less.hyps [OF u(4,1) this] u(3) step Cons e show ?thesis
      by (subst leave_peers.simps) (simp add: Let_def)
  qed
qed

lemma tc_disconnect_returns:
  "peers_ok N \<Longrightarrow> \<exists>N1. tc_disconnect a N = Some N1 \<and> peers_ok N1 \<and> gone N1 = gone N \<and> musers N1 a = [] \<and> task_map N1 a = []"
  using leave_users_returns [of N a] leave_peers_returns by (fastforce simp: tc_disconnect_def)

lemma peer_do_ok:
  assumes N: "peers_ok N" and live: "peer_actors c \<inter> gone N = {}"
  shows "\<exists>N1. peer_do name c N = Some N1 \<and> peers_ok N1"
proof (cases c)
  case (AddPeer a b n)
  with addPeer_ok [OF N, of a b name n] live show ?thesis by auto
next
  case (ConnectPeers a b)
  with connectPeers_ok [OF N, of a b name] live show ?thesis by auto
next
  case (DestroyTask a)
  obtain N1 where N1: "tc_disconnect a N = Some N1" "peers_ok N1" "musers N1 a = []" "task_map N1 a = []"
    using tc_disconnect_returns [OF N] by blast
  then have "peers_ok (N1\<lparr>gone := insert a (gone N1)\<rparr>)" by (simp add: peers_ok_def uses_def)
  with N1(1) DestroyTask show ?thesis by (simp add: tc_destroy_def)
next
  case (DisconnectTask a)
  with tc_disconnect_returns [OF N, of a] show ?thesis by auto
qed (use N removePeer_ok removePeer_name_ok disconnectPeers_ok in simp_all)

text \<open>C32: Whatever peers components add to and remove from each other, under names or aliases, and when they disconnect
  or are deleted: all calls return; a component is in the user list of another as often as that one is in its
  map; and a component that was deleted is in no map and in no user list, so no other one can use its pointer.\<close>

theorem peers_never_dangle:
  "\<exists>N. peer_run name cs peer_net_new = Some N \<and>
       (\<forall>a b. count_list (musers N b) a = count_list (map snd (task_map N a)) b) \<and>
       (\<forall>a. distinct (getPeerList a N)) \<and>
       (\<forall>a \<in> gone N. \<forall>b. a \<notin> set (musers N b) \<and> a \<notin> snd ` set (task_map N b))"
proof -
  have run: "\<exists>N1. peer_run name cs N = Some N1 \<and> peers_ok N1" if "peers_ok N" for N
    using that
  proof (induction cs arbitrary: N)
    case (Cons c cs)
    show ?case
    proof (cases "peer_actors c \<inter> gone N = {}")
      case True
      obtain N1 where "peer_do name c N = Some N1" "peers_ok N1" using peer_do_ok [OF Cons.prems True] by blast
      with True Cons.IH [of N1] show ?thesis by simp
    qed (use Cons in simp)
  qed simp
  have "peers_ok peer_net_new" by (simp add: peers_ok_def peer_net_new_def uses_def)
  from run [OF this] obtain N where N: "peer_run name cs peer_net_new = Some N" "peers_ok N" by blast
  have "a \<notin> set (musers N b) \<and> a \<notin> snd ` set (task_map N b)" if "a \<in> gone N" for a b
  proof -
    have "uses N a b = 0" "count_list (musers N a) b = 0" using N(2) that by (auto simp: peers_ok_def uses_def)
    then have "count_list (musers N b) a = 0" "uses N b a = 0" using N(2) by (simp_all add: peers_ok_def)
    then show ?thesis by (simp add: count_list_0_iff uses_def)
  qed
  with N show ?thesis by (auto simp: peers_ok_def uses_def getPeerList_def)
qed

lemma tc_destroy_gone: "tc_destroy a N = Some N1 \<Longrightarrow> a \<in> gone N1"
  by (auto simp: tc_destroy_def split: option.splits)

lemma peers_never_dangle_witness:
  "\<exists>N. peer_run (\<lambda>a. if a = 0 then ''me'' else ''you'') [ConnectPeers 0 1, AddPeer 2 1 ''it'', DestroyTask 1] peer_net_new = Some N \<and>
       1 \<in> gone N \<and> 1 \<notin> set (musers N 0) \<and> 1 \<notin> snd ` set (task_map N 0) \<and> 1 \<notin> snd ` set (task_map N 2)"
proof -
  let ?name = "\<lambda>a :: nat. if a = 0 then ''me'' else ''you''"
  obtain N where N: "peer_run ?name [ConnectPeers 0 1, AddPeer 2 1 ''it'', DestroyTask 1] peer_net_new = Some N"
    and out: "\<forall>a \<in> gone N. \<forall>b. a \<notin> set (musers N b) \<and> a \<notin> snd ` set (task_map N b)"
    using peers_never_dangle [of ?name "[ConnectPeers 0 1, AddPeer 2 1 ''it'', DestroyTask 1]"] by (elim exE conjE)
  from N have "1 \<in> gone N"
    by (auto simp: peer_net_new_def connectPeers_def addPeer_def hasPeer_def addUser_def set_map_def Let_def
        dest: tc_destroy_gone split: option.splits)
  with N out show ?thesis by blast
qed

text \<open>With two aliases for a peer, \<^verbatim>\<open>disconnectPeers\<close> removes the first one in the order of names, also if it was
  given the second.\<close>

lemma disconnect_removes_other_alias:
  "map_option (getPeerList 0)
     (peer_run (\<lambda>a. if a = 0 then ''me'' else ''you'') [AddPeer 0 1 ''left'', AddPeer 0 1 ''right'', DisconnectPeers 0 ''right''] peer_net_new) =
   Some [''right'']"
  by (simp add: peer_net_new_def addPeer_def hasPeer_def Let_def addUser_def set_map_def disconnectPeers_def removePeer_def
      removeUser_def getPeerList_def)

lemma add_null_peer: "addPeer name a None [] N = None"
  by (simp add: addPeer_def)

end
