(* ===== verification/EventPorts.thy ===== *)
theory EventPorts
  imports MWSRQueue
begin

text \<open>
  The ports of a component and the callbacks on their data (\<^verbatim>\<open>DataFlowInterface.cpp\<close>, and \<^verbatim>\<open>dataOnPort\<close> to
  \<^verbatim>\<open>prepareUpdateHook\<close> of \<^verbatim>\<open>TaskContext.cpp\<close>), as compiled without \<^verbatim>\<open>ORO_SIGNALLING_PORTS\<close>. Ports are numbered;
  their names, which do not change, and whether they have an object for scripts, are parameters. A port that gets data while its
  interface is signalled puts itself into the queue of the component; before \<^verbatim>\<open>updateHook\<close> the component
  calls the callbacks of the ports in the queue. \<open>fired\<close> is a history of these calls.
\<close>

record port_env =
  pname :: "nat \<Rightarrow> string"
  port_object :: "nat \<Rightarrow> bool"
  owned :: bool                    \<comment> \<open>the service has an owner\<close>

record port_if =
  mports :: "nat list"
  services :: "string set"
  callbacks :: "nat \<rightharpoonup> nat"
  signalled :: "nat set"           \<comment> \<open>the ports with \<open>msignal_interface\<close>\<close>
  portqueue :: "nat mwsr"
  triggers :: nat
  fired :: "(nat \<times> nat) list"

definition port_if_new :: port_if where
  "port_if_new = \<lparr>mports = [], services = {}, callbacks = Map.empty, signalled = {}, portqueue = mw_new None 64, triggers = 0, fired = []\<rparr>"

section \<open>The registry\<close>

definition getPort :: "port_env \<Rightarrow> string \<Rightarrow> port_if \<Rightarrow> nat option" where
  "getPort X n s = find (\<lambda>p. pname X p = n) (mports s)"

definition getPortNames :: "port_env \<Rightarrow> port_if \<Rightarrow> string list" where
  "getPortNames X s = map (pname X) (mports s)"

definition removeService :: "string \<Rightarrow> port_if \<Rightarrow> port_if" where
  "removeService n s = s\<lparr>services := services s - {n}\<rparr>"

definition dataOnPortRemoved :: "nat \<Rightarrow> port_if \<Rightarrow> port_if" where
  "dataOnPortRemoved p s = s\<lparr>callbacks := (callbacks s)(p := None)\<rparr>"

definition removePort :: "port_env \<Rightarrow> string \<Rightarrow> port_if \<Rightarrow> port_if" where
  "removePort X n s =
     (case getPort X n s of
        None \<Rightarrow> s
      | Some p \<Rightarrow>
          let s1 = removeService n s; s2 = (if owned X then dataOnPortRemoved p s1 else s1)
          in s2\<lparr>mports := remove1 p (mports s2)\<rparr>)"

definition addLocalPort :: "port_env \<Rightarrow> nat \<Rightarrow> port_if \<Rightarrow> port_if" where
  "addLocalPort X p s =
     (let s1 = (if getPort X (pname X p) s \<noteq> None then removePort X (pname X p) s else s) in s1\<lparr>mports := mports s1 @ [p]\<rparr>)"

definition addObject :: "port_env \<Rightarrow> nat \<Rightarrow> port_if \<Rightarrow> port_if" where
  "addObject X p s =
     (let s1 = removeService (pname X p) s
      in if port_object X p then s1\<lparr>services := insert (pname X p) (services s1)\<rparr> else s1)"

definition addPort :: "port_env \<Rightarrow> nat \<Rightarrow> port_if \<Rightarrow> port_if" where
  "addPort X p s = addObject X p (addLocalPort X p s)"

definition dataOnPortCallback :: "nat \<Rightarrow> nat \<Rightarrow> port_if \<Rightarrow> port_if" where
  "dataOnPortCallback p c s = s\<lparr>callbacks := (callbacks s)(p \<mapsto> c)\<rparr>"

definition addLocalEventPort :: "port_env \<Rightarrow> nat \<Rightarrow> nat option \<Rightarrow> port_if \<Rightarrow> port_if" where
  "addLocalEventPort X p cb s =
     (let s1 = addLocalPort X p s in
      if \<not> owned X then s1
      else let s2 = (case cb of None \<Rightarrow> s1 | Some c \<Rightarrow> dataOnPortCallback p c s1) in s2\<lparr>signalled := insert p (signalled s2)\<rparr>)"

definition addEventPort :: "port_env \<Rightarrow> nat \<Rightarrow> nat option \<Rightarrow> port_if \<Rightarrow> port_if" where
  "addEventPort X p cb s = addObject X p (addLocalEventPort X p cb s)"

definition clearPorts :: "port_env \<Rightarrow> port_if \<Rightarrow> port_if" where
  "clearPorts X s = (fold (\<lambda>p. removeService (pname X p)) (mports s) s)\<lparr>mports := []\<rparr>"

section \<open>Signals and callbacks\<close>

text \<open>\<^verbatim>\<open>InputPortInterface::signal\<close>, \<^verbatim>\<open>DataFlowInterface::dataOnPort\<close> and \<^verbatim>\<open>TaskContext::dataOnPort\<close>, which ignores
  what \<^verbatim>\<open>enqueue\<close> returns.\<close>

definition dataOnPort :: "port_env \<Rightarrow> nat \<Rightarrow> port_if \<Rightarrow> port_if" where
  "dataOnPort X p s =
     (if p \<notin> signalled s \<or> \<not> owned X then s
      else s\<lparr>portqueue := snd (mw_enqueue (Some p) (portqueue s)), triggers := triggers s + 1\<rparr>)"

partial_function (option) prepareUpdateHook :: "port_if \<Rightarrow> port_if option" where
  "prepareUpdateHook s =
     (case mw_dequeue (portqueue s) of
        (None, q) \<Rightarrow> Some (s\<lparr>portqueue := q\<rparr>)
      | (Some p, q) \<Rightarrow>
          prepareUpdateHook
            (s\<lparr>portqueue := q, fired := fired s @ (case callbacks s p of None \<Rightarrow> [] | Some c \<Rightarrow> [(p, c)])\<rparr>))"

datatype dfi_call =
    AddPortCall nat | AddEventPortCall nat "nat option" | AddLocalPortCall nat | AddLocalEventPortCall nat "nat option"
  | RemovePortCall string | ClearPortsCall | DataOnPort nat | UpdateHook

fun dfi_do :: "port_env \<Rightarrow> dfi_call \<Rightarrow> port_if \<Rightarrow> port_if option" where
  "dfi_do X (AddPortCall p) s = Some (addPort X p s)"
| "dfi_do X (AddEventPortCall p cb) s = Some (addEventPort X p cb s)"
| "dfi_do X (AddLocalPortCall p) s = Some (addLocalPort X p s)"
| "dfi_do X (AddLocalEventPortCall p cb) s = Some (addLocalEventPort X p cb s)"
| "dfi_do X (RemovePortCall n) s = Some (removePort X n s)"
| "dfi_do X ClearPortsCall s = Some (clearPorts X s)"
| "dfi_do X (DataOnPort p) s = Some (dataOnPort X p s)"
| "dfi_do X UpdateHook s = prepareUpdateHook s"

fun dfi_run :: "port_env \<Rightarrow> dfi_call list \<Rightarrow> port_if \<Rightarrow> port_if option" where
  "dfi_run X [] s = Some s"
| "dfi_run X (c # cs) s = (case dfi_do X c s of None \<Rightarrow> None | Some s1 \<Rightarrow> dfi_run X cs s1)"

section \<open>Names and callbacks\<close>

text \<open>\<open>b\<close> says that \<^verbatim>\<open>clear\<close> was not called, which leaves callbacks of ports that are gone.\<close>

definition ports_ok :: "bool \<Rightarrow> port_env \<Rightarrow> port_if \<Rightarrow> bool" where
  "ports_ok b X s \<longleftrightarrow>
     distinct (getPortNames X s) \<and> (b \<and> owned X \<longrightarrow> dom (callbacks s) \<subseteq> set (mports s)) \<and>
     mw_inv (portqueue s) \<and> mw_capacity (portqueue s) = 64"

lemma getPort_None: "getPort X n s = None \<longleftrightarrow> n \<notin> set (getPortNames X s)"
  by (auto simp: getPort_def getPortNames_def find_None_iff)

lemma distinct_remove: "distinct (map f xs) \<Longrightarrow> distinct (map f (remove1 x xs))"
  by (meson distinct_map distinct_remove1 inj_on_subset set_remove1_subset)

lemma remove_name: "distinct (map f xs) \<Longrightarrow> x \<in> set xs \<Longrightarrow> f x \<notin> f ` set (remove1 x xs)"
  by (auto simp: distinct_map inj_on_def)

lemma removePort_ok:
  assumes "ports_ok b X s"
  shows "ports_ok b X (removePort X n s) \<and> n \<notin> set (getPortNames X (removePort X n s))"
proof (cases "getPort X n s")
  case None
  then show ?thesis using assms getPort_None [of X n s] by (simp add: removePort_def)
next
  case (Some p)
  then have p: "p \<in> set (mports s)" "pname X p = n" using find_SomeD by (fastforce simp: getPort_def)+
  have d: "distinct (map (pname X) (mports s))" using assms by (simp add: ports_ok_def getPortNames_def)
  then have "set (remove1 p (mports s)) = set (mports s) - {p}" by (simp add: distinct_map)
  with Some assms distinct_remove [OF d] remove_name [OF d p(1)] p show ?thesis
    by (auto simp: removePort_def ports_ok_def getPortNames_def removeService_def dataOnPortRemoved_def Let_def)
qed

lemma addLocalPort_ok: "ports_ok b X s \<Longrightarrow> ports_ok b X (addLocalPort X p s) \<and> p \<in> set (mports (addLocalPort X p s))"
proof -
  assume s: "ports_ok b X s"
  let ?s = "if getPort X (pname X p) s \<noteq> None then removePort X (pname X p) s else s"
  have "ports_ok b X ?s \<and> pname X p \<notin> set (getPortNames X ?s)"
    using s removePort_ok [OF s, of "pname X p"] getPort_None [of X "pname X p" s] by auto
  then have k: "ports_ok b X ?s" "pname X p \<notin> set (getPortNames X ?s)" by simp_all
  have "addLocalPort X p s = ?s\<lparr>mports := mports ?s @ [p]\<rparr>" by (simp only: addLocalPort_def Let_def)
  moreover have "ports_ok b X (t\<lparr>mports := mports t @ [p]\<rparr>)" if "ports_ok b X t" "pname X p \<notin> set (getPortNames X t)" for t
    using that by (auto simp: ports_ok_def getPortNames_def)
  ultimately show ?thesis using k by simp
qed

lemma addObject_ok: "ports_ok b X (addObject X p s) = ports_ok b X s"
  by (simp add: addObject_def ports_ok_def getPortNames_def removeService_def Let_def)

lemma addLocalEventPort_ok: "ports_ok b X s \<Longrightarrow> ports_ok b X (addLocalEventPort X p cb s)"
  using addLocalPort_ok [of b X s p]
  by (cases cb) (auto simp: addLocalEventPort_def ports_ok_def getPortNames_def dataOnPortCallback_def Let_def)

lemma dataOnPort_queue:
  assumes "ports_ok b X s" and "p \<in> signalled s" and "owned X"
  shows "mw_elems (portqueue (dataOnPort X p s)) =
           (if length (mw_elems (portqueue s)) < 64 then mw_elems (portqueue s) @ [p] else mw_elems (portqueue s))"
    and "ports_ok b X (dataOnPort X p s)"
proof -
  have i: "mw_inv (portqueue s)" "mw_capacity (portqueue s) = 64" using assms by (simp_all add: ports_ok_def)
  have "mw_elems (snd (mw_enqueue (Some p) (portqueue s))) =
           (if length (mw_elems (portqueue s)) < 64 then mw_elems (portqueue s) @ [p] else mw_elems (portqueue s)) \<and>
        mw_inv (snd (mw_enqueue (Some p) (portqueue s))) \<and> mw_capacity (snd (mw_enqueue (Some p) (portqueue s))) = 64"
  proof (cases "mw_dist (portqueue s) < 64")
    case True
    obtain q' where "mw_enqueue (Some p) (portqueue s) = (True, q')" "mw_inv q'"
      "mw_elems q' = mw_elems (portqueue s) @ [p]" "mw_capacity q' = mw_capacity (portqueue s)"
      using mw_enqueue_room [OF i(1), of p] True i(2) by auto
    with True i show ?thesis by simp
  next
    case False
    with mw_dist_le [OF i(1)] i have "mw_enqueue (Some p) (portqueue s) = (False, portqueue s)" by (intro mw_enqueue_full) simp_all
    with False i show ?thesis by simp
  qed
  with assms show "mw_elems (portqueue (dataOnPort X p s)) =
           (if length (mw_elems (portqueue s)) < 64 then mw_elems (portqueue s) @ [p] else mw_elems (portqueue s))"
    "ports_ok b X (dataOnPort X p s)"
    by (simp_all add: dataOnPort_def ports_ok_def getPortNames_def)
qed

definition calls_of :: "(nat \<rightharpoonup> nat) \<Rightarrow> nat list \<Rightarrow> (nat \<times> nat) list" where
  "calls_of cbs ps = concat (map (\<lambda>p. case cbs p of None \<Rightarrow> [] | Some c \<Rightarrow> [(p, c)]) ps)"

lemma prepareUpdateHook_fires:
  assumes "mw_inv (portqueue s)"
  shows "\<exists>q. prepareUpdateHook s = Some (s\<lparr>portqueue := q, fired := fired s @ calls_of (callbacks s) (mw_elems (portqueue s))\<rparr>) \<and>
             mw_inv q \<and> mw_elems q = [] \<and> mw_capacity q = mw_capacity (portqueue s)"
  using assms
proof (induction "mw_elems (portqueue s)" arbitrary: s)
  case Nil
  then have "mw_dequeue (portqueue s) = (None, portqueue s)" by (intro mw_dequeue_empty) simp_all
  then have "prepareUpdateHook s = Some s" by (subst prepareUpdateHook.simps) simp
  with Nil show ?case by (intro exI [of _ "portqueue s"]) (simp flip: Nil.hyps add: calls_of_def)
next
  case (Cons p ps)
  obtain q where q: "mw_dequeue (portqueue s) = (Some p, q)" "mw_inv q" "mw_elems q = ps" "mw_capacity q = mw_capacity (portqueue s)"
    using mw_dequeue_first [OF Cons.prems Cons.hyps(2) [symmetric]] by blast
  let ?s = "s\<lparr>portqueue := q, fired := fired s @ (case callbacks s p of None \<Rightarrow> [] | Some c \<Rightarrow> [(p, c)])\<rparr>"
  have "prepareUpdateHook s = prepareUpdateHook ?s" using q(1) by (subst prepareUpdateHook.simps) simp
  with Cons.hyps(1) [of ?s] q show ?case by (auto simp: calls_of_def simp flip: Cons.hyps(2))
qed

lemma cleared_ok:
  assumes "ports_ok b X s"
  shows "ports_ok False X (clearPorts X s)" and "mports (clearPorts X s) = []"
proof -
  have "mports (fold (\<lambda>p. removeService (pname X p)) ps t) = mports t \<and>
      portqueue (fold (\<lambda>p. removeService (pname X p)) ps t) = portqueue t" for ps t
    by (induction ps arbitrary: t) (simp_all add: removeService_def)
  with assms show "ports_ok False X (clearPorts X s)" "mports (clearPorts X s) = []"
    by (simp_all add: clearPorts_def ports_ok_def getPortNames_def)
qed

lemma ports_ok_False: "ports_ok b X s \<Longrightarrow> ports_ok False X s"
  by (simp add: ports_ok_def)

lemma dfi_do_ok:
  assumes "ports_ok b X s"
  shows "\<exists>s1. dfi_do X c s = Some s1 \<and> ports_ok (b \<and> c \<noteq> ClearPortsCall) X s1"
proof (cases c)
  case (DataOnPort p)
  show ?thesis
  proof (cases "p \<in> signalled s \<and> owned X")
    case True
    with dataOnPort_queue(2) [OF assms] DataOnPort show ?thesis by simp
  qed (use DataOnPort assms in \<open>auto simp: dataOnPort_def\<close>)
next
  case UpdateHook
  have "mw_inv (portqueue s)" using assms by (simp add: ports_ok_def)
  from prepareUpdateHook_fires [OF this] UpdateHook assms show ?thesis
    by (auto simp: ports_ok_def getPortNames_def)
next
  case ClearPortsCall
  then show ?thesis using cleared_ok(1) [OF assms] by simp
qed (use assms addLocalPort_ok addLocalEventPort_ok removePort_ok addObject_ok in
     \<open>auto simp: addPort_def addEventPort_def\<close>)

lemma dfi_run_ok: "ports_ok b X s \<Longrightarrow> \<exists>s1. dfi_run X cs s = Some s1 \<and> ports_ok (b \<and> ClearPortsCall \<notin> set cs) X s1"
proof (induction cs arbitrary: b s)
  case (Cons c cs)
  obtain s1 where s1: "dfi_do X c s = Some s1" "ports_ok (b \<and> c \<noteq> ClearPortsCall) X s1" using dfi_do_ok [OF Cons.prems] by blast
  from Cons.IH [OF s1(2)] s1(1) show ?case by (simp add: eq_commute [of c])
qed simp

lemma new_ok: "ports_ok b X port_if_new"
  using mw_new_inv [of 64 "None :: nat option"] by (simp add: ports_ok_def port_if_new_def getPortNames_def)

text \<open>C33: Ports can be added, replaced, removed and all cleared and get data in any order: their names stay different, and
  unless \<^verbatim>\<open>clear\<close> was called only ports of the component have callbacks. (The name of a port is fixed here: it is not
  renamed after it was added.) When the component is updated, the callbacks of the ports in its queue are
  called, once for each time they got data, in this order, and the queue is empty then. So of the ports
  that get data between two updates the callbacks are called if there are at most 64.\<close>

theorem data_callbacks_fire:
  assumes "owned X"
  shows "\<exists>s. dfi_run X cs port_if_new = Some s \<and> distinct (getPortNames X s) \<and>
     (ClearPortsCall \<notin> set cs \<longrightarrow> dom (callbacks s) \<subseteq> set (mports s)) \<and>
     (set ps \<subseteq> signalled s \<and> length (mw_elems (portqueue s)) + length ps \<le> 64 \<longrightarrow>
        (\<exists>s'. dfi_run X (map DataOnPort ps @ [UpdateHook]) s = Some s' \<and>
              fired s' = fired s @ calls_of (callbacks s) (mw_elems (portqueue s) @ ps) \<and> mw_elems (portqueue s') = []))"
proof -
  obtain s where s: "dfi_run X cs port_if_new = Some s" "ports_ok (ClearPortsCall \<notin> set cs) X s"
    using dfi_run_ok [OF new_ok [of True X], of cs] by auto
  have "\<exists>s'. dfi_run X (map DataOnPort ps @ [UpdateHook]) t = Some s' \<and>
          fired s' = fired t @ calls_of (callbacks t) (mw_elems (portqueue t) @ ps) \<and> mw_elems (portqueue s') = []"
    if "ports_ok (ClearPortsCall \<notin> set cs) X t" "set ps \<subseteq> signalled t" "length (mw_elems (portqueue t)) + length ps \<le> 64" for t
    using that
  proof (induction ps arbitrary: t)
    case Nil
    then have "mw_inv (portqueue t)" by (simp add: ports_ok_def)
    from prepareUpdateHook_fires [OF this] show ?case by auto
  next
    case (Cons p ps)
    let ?t = "dataOnPort X p t"
    have q: "mw_elems (portqueue ?t) = mw_elems (portqueue t) @ [p]" "ports_ok (ClearPortsCall \<notin> set cs) X ?t"
      using dataOnPort_queue [OF Cons.prems(1) _ assms, of p] Cons.prems by simp_all
    have "callbacks ?t = callbacks t" "fired ?t = fired t" "signalled ?t = signalled t" by (simp_all add: dataOnPort_def)
    with Cons.IH [OF q(2)] Cons.prems q(1) show ?case by simp
  qed
  with s assms show ?thesis by (auto simp: ports_ok_def)
qed

lemma data_callbacks_fire_witness:
  "\<exists>s s'. dfi_run \<lparr>pname = (\<lambda>p. if p = 3 then ''data'' else ''cmd''), port_object = \<lambda>_. True, owned = True\<rparr>
           [AddEventPortCall 3 (Some 7), AddEventPortCall 5 None, DataOnPort 3] port_if_new = Some s \<and>
     dfi_run \<lparr>pname = (\<lambda>p. if p = 3 then ''data'' else ''cmd''), port_object = \<lambda>_. True, owned = True\<rparr>
       (map DataOnPort [5, 3] @ [UpdateHook]) s = Some s' \<and> mw_elems (portqueue s') = []"
proof -
  let ?X = "\<lparr>pname = (\<lambda>p. if p = 3 then ''data'' else ''cmd''), port_object = \<lambda>_. True, owned = True\<rparr> :: port_env"
  let ?cs = "[AddEventPortCall 3 (Some 7), AddEventPortCall 5 None, DataOnPort 3]"
  have o: "owned ?X" by simp
  obtain s where s: "dfi_run ?X ?cs port_if_new = Some s" "set [5, 3] \<subseteq> signalled s \<and> length (mw_elems (portqueue s)) + length [5::nat, 3] \<le> 64 \<longrightarrow>
        (\<exists>s'. dfi_run ?X (map DataOnPort [5, 3] @ [UpdateHook]) s = Some s' \<and>
              fired s' = fired s @ calls_of (callbacks s) (mw_elems (portqueue s) @ [5, 3]) \<and> mw_elems (portqueue s') = [])"
    using data_callbacks_fire [OF o, of ?cs "[5, 3]"] by (elim exE conjE)
  let ?t = "addEventPort ?X 5 None (addEventPort ?X 3 (Some 7) port_if_new)"
  have t: "ports_ok True ?X ?t" using addLocalEventPort_ok new_ok by (simp add: addEventPort_def addObject_ok)
  have g: "signalled ?t = {5, 3}" "mw_elems (portqueue ?t) = []"
    using mw_new_inv [of 64 "None :: nat option"]
    by (auto simp: addEventPort_def addObject_def addLocalEventPort_def addLocalPort_def removePort_def removeService_def getPort_def
        dataOnPortCallback_def dataOnPortRemoved_def port_if_new_def Let_def)
  have "s = dataOnPort ?X 3 ?t" using s(1) by simp
  with dataOnPort_queue(1) [OF t _ o, of 3] g have "mw_elems (portqueue s) = [3]" "signalled s = {5, 3}"
    by (simp_all add: dataOnPort_def)
  with s show ?thesis by auto
qed

text \<open>With 64 ports in the queue, the data of another one is not noticed: its callback is not called.\<close>

lemma full_queue_loses_data:
  assumes "ports_ok b X s" and "length (mw_elems (portqueue s)) = 64" and "p \<notin> set (mw_elems (portqueue s))"
  shows "\<exists>s'. dfi_run X [DataOnPort p, UpdateHook] s = Some s' \<and> (\<forall>c. (p, c) \<notin> set (drop (length (fired s)) (fired s')))"
proof -
  let ?s = "dataOnPort X p s"
  have "mw_elems (portqueue ?s) = mw_elems (portqueue s) \<and> ports_ok b X ?s"
  proof (cases "p \<in> signalled s \<and> owned X")
    case True
    with dataOnPort_queue [OF assms(1), of p] assms(2) show ?thesis by simp
  qed (use assms(1) in \<open>auto simp: dataOnPort_def\<close>)
  moreover have "fired ?s = fired s" by (simp add: dataOnPort_def)
  ultimately show ?thesis using prepareUpdateHook_fires [of ?s] assms(3)
    by (auto simp: ports_ok_def calls_of_def split: option.splits)
qed

text \<open>\<^verbatim>\<open>clear\<close> keeps the callbacks of the ports it removes.\<close>

lemma clear_keeps_callbacks: "callbacks (clearPorts X s) = callbacks s" and "mports (clearPorts X s) = []"
proof -
  have "callbacks (fold (\<lambda>p. removeService (pname X p)) ps t) = callbacks t" for ps t
    by (induction ps arbitrary: t) (simp_all add: removeService_def)
  then show "callbacks (clearPorts X s) = callbacks s" by (simp add: clearPorts_def)
qed (simp add: clearPorts_def)

text \<open>Adding a port again without a callback removes the callback that it had.\<close>

lemma added_again_loses_callback:
  "owned X \<Longrightarrow> getPort X (pname X p) s = Some p \<Longrightarrow> callbacks (addPort X p s) p = None"
  by (simp add: addPort_def addObject_def addLocalPort_def removePort_def dataOnPortRemoved_def removeService_def Let_def)

end
