(* ===== verification/Spec2Isabelle.thy ===== *)
theory Spec2Isabelle
  imports TsPoolConc MWSRQueueConc AtomicQueue DataStorage DataObjectConc TaskCore ExecutionEngine
    StateMachineRuns MachinePrograms PortsRuns ScriptRuns PolicyBag BagOwnership OsThreadRuns OsTimerThread
    OsTimeService OperationCalls MessageWait ListRuns ListLocked ListStorage Signals PeriodicRuns OtherActivities
    LockedQueues Peers EventPorts
begin

text \<open>
  The core of the Orocos Real-Time Toolkit (\<^verbatim>\<open>src/rtt\<close>): the lock-free containers, signals, the storage of
  connections, the ports above it, the life cycle of a component, its execution engine, the compiler and the
  interpreter of scripts, the interpreter of state machines, properties, the threads and timers that
  activities are made of, and the sending of operations between components.

  \<^bold>\<open>How the parts fit together.\<close> A component is a \<^verbatim>\<open>TaskCore\<close> with an \<^verbatim>\<open>ExecutionEngine\<close>. The engine is
  stepped by an activity, which in most cases is a thread; in each step it executes the functions that were loaded into it (programs and state
  machines are such functions), then the messages (operation calls) sent to it, then the hooks of its components.
  Functions and messages wait in two \<^verbatim>\<open>AtomicMWSRQueue\<close>s. Components exchange samples through ports. A connection
  of two ports is a chain of channel elements with one storage element, which is a buffer or a data
  object; the lock-free ones among them allocate from a \<^verbatim>\<open>TsPool\<close> and queue pointers in an
  \<^verbatim>\<open>AtomicMWSRQueue\<close>.

  \<^bold>\<open>Theories.\<close> In each, a definition has the name of the function it translates, with a prefix where several
  classes have a function of that name.
  \<^item> \<open>OroPrelude\<close>: option monad, lists, words and the lemma collections shared by all theories.
  \<^item> \<open>TsPool\<close>, \<open>TsPoolConc\<close> (\<^verbatim>\<open>internal/TsPool.hpp\<close>): the pool with its tagged free list. First every
    operation executed alone, then \<open>pool_step\<close>: threads that interleave at every shared access, with the
    compare-and-swap \<open>cas_head\<close>.
  \<^item> \<open>RingIndex\<close>, \<open>MWSRQueue\<close>, \<open>MWSRQueueConc\<close> (\<^verbatim>\<open>internal/AtomicMWSRQueue.hpp\<close>): the multi-writer
    single-reader queue with its two 16 bit indices in one word, alone and as a step relation of many writers
    and one reader.
  \<^item> \<open>QueueSpec\<close>: a bounded list, and the locale \<open>bounded_fifo\<close> of implementations of it.
  \<^item> \<open>AtomicQueue\<close> (\<^verbatim>\<open>internal/AtomicQueue.hpp\<close>): the multi-reader queue, from any state of its ring.
  \<^item> \<open>BufferSpec\<close>, \<open>BufferLocked\<close>, \<open>BufferLockFree\<close> (\<^verbatim>\<open>base/Buffer*.hpp\<close>): the three buffers, and the
    locale \<open>sample_buffer\<close> that they are interpretations of.
  \<^item> \<open>DataObject\<close>, \<open>DataObjectConc\<close> (\<^verbatim>\<open>base/DataObject*.hpp\<close>): the three data objects; the lock-free one also
    as a step relation of one writer and several readers.
  \<^item> \<open>ChannelElements\<close> (\<^verbatim>\<open>internal/ChannelBufferElement.hpp\<close>, \<^verbatim>\<open>ChannelDataElement.hpp\<close>): storage elements
    over any buffer or data object, and their contract, the locale \<open>channel_store\<close>.
  \<^item> \<open>DataStorage\<close> (\<^verbatim>\<open>ConnPolicy.hpp\<close>, \<^verbatim>\<open>internal/ConnFactory.hpp\<close>): the storage a policy asks for, one type
    with the virtual functions of the six elements, and the locale \<open>typed_store\<close> that it keeps.
  \<^item> \<open>Ports\<close> (\<^verbatim>\<open>InputPort.hpp\<close>, \<^verbatim>\<open>OutputPort.hpp\<close>, \<^verbatim>\<open>internal/ConnectionManager.*\<close>,
    \<^verbatim>\<open>internal/Conn*EndPoint.hpp\<close>, \<^verbatim>\<open>base/ChannelInterface.cpp\<close>): a network of ports and connections.
    \<open>PortsSpec\<close> has the agreement of both ends and what taking a connection down does to it, \<open>PortsFlow\<close> and
    \<open>PortsNet\<close> the data flow over any \<open>typed_store\<close>, \<open>PortsRuns\<close> arbitrary sequences of calls.
  \<^item> \<open>TaskCore\<close> (\<^verbatim>\<open>base/TaskCore.cpp\<close> and the part of \<^verbatim>\<open>ExecutionEngine.cpp\<close> that calls hooks): the life
    cycle of a component. \<open>ExecutionEngine\<close>: functions, messages and children.
  \<^item> \<open>StateMachine\<close> (\<^verbatim>\<open>scripting/StateMachine.cpp\<close>): the interpreter of state machines; \<open>StateMachineSpec\<close> has
    the order of transitions and a semantics of rounds, \<open>StateMachineRuns\<close> that the interpreter implements it.
  \<^item> \<open>FunctionGraph\<close> (\<^verbatim>\<open>scripting/FunctionGraph.cpp\<close>): the interpreter of scripts. \<open>MachinePrograms\<close>: scripts
    as programs of a state machine.
  \<^item> \<open>GraphBuilder\<close> (\<^verbatim>\<open>scripting/FunctionGraphBuilder.cpp\<close>), \<open>ScriptParser\<close>
    (\<^verbatim>\<open>scripting/ProgramGraphParser2.cpp\<close>): the actions of the parser of scripts, which build the graph of a
    function; \<open>parse_stmt\<close> runs them in the order in which the grammar recognises a statement. \<open>ScriptSteps\<close> has
    the semantics \<open>exec\<close> of statements and the steps of the interpreter on a graph, \<open>ScriptBuild\<close> what a parse
    keeps of the graph built so far, \<open>ScriptCompile\<close> that the graph of a statement simulates it, \<open>ScriptRuns\<close> the
    same for a whole function.
  \<^item> \<open>PropertyBags\<close> (\<^verbatim>\<open>PropertyBag.cpp\<close>): nested bags as trees. \<open>PropertyPaths\<close> has what is found under a path
    after listing, storing and removing, \<open>PropertyUpdate\<close> what update, refresh, copy and flatten make of two trees.
    \<open>BagOwnership\<close>: one bag with properties at addresses, which of them it owns and deletes.
    \<open>PolicyBag\<close> (\<^verbatim>\<open>ConnPolicy.cpp\<close>): a connection policy as a bag.
  \<^item> \<open>MessageWait\<close> (\<^verbatim>\<open>ExecutionEngine.cpp\<close>): waiting on the condition variable of an engine, as a step
    relation of the waiting thread and the engine, or of an engine that waits and the component that replies.
  \<^item> \<open>OperationCalls\<close> (\<^verbatim>\<open>internal/LocalOperationCaller.hpp\<close>, \<^verbatim>\<open>internal/BindStorage.hpp\<close>): calls that are
    sent, executed, replied to and collected, with the references that keep them alive, as a step relation of
    all threads involved.
  \<^item> \<open>ListLockFree\<close> (\<^verbatim>\<open>internal/ListLockFree.hpp\<close>): a list in exchanged buffers as a step relation of threads, one
    access to shared memory per step. \<open>ListLockFreeConc\<close> has the accounting of the references to buffers and the
    list that its calls implement, \<open>ListLinear\<close> the invariant by which each call takes effect at one moment,
    \<open>ListBuffers\<close> that a free buffer always exists, \<open>ListRuns\<close> runs given as schedules. \<open>ListStorage\<close>
    (\<^verbatim>\<open>internal/ListLockFree.cpp\<close>): the counted references to storages. \<open>ListLocked\<close> (\<^verbatim>\<open>internal/ListLocked.hpp\<close>): the list with a mutex.
    \<open>LockedQueues\<close> (\<^verbatim>\<open>internal/LockedQueue.hpp\<close>): the queue with a mutex.
  \<^item> \<open>Signals\<close> (\<^verbatim>\<open>internal/SignalBase.cpp\<close>, \<^verbatim>\<open>internal/signal_template.hpp\<close>, \<^verbatim>\<open>Handle.cpp\<close>): signals over such a
    list, with connected functions that use the signal while it emits.
  \<^item> \<open>OsThread\<close>, \<open>OsThreadRuns\<close> (\<^verbatim>\<open>os/Thread.cpp\<close>, \<^verbatim>\<open>Activity.cpp\<close>): \<open>thread_step\<close> is the thread
    function, \<open>start_step\<close>, \<open>stop_step\<close>, \<open>period_step\<close> and \<open>term_step\<close> are the calls of its clients; the order of hooks,
    and runs given as schedules. \<open>PeriodicTasks\<close>, \<open>PeriodicRuns\<close> (\<^verbatim>\<open>extras/TimerThread.cpp\<close>, \<^verbatim>\<open>PeriodicActivity.cpp\<close>,
    \<^verbatim>\<open>SimulationThread.cpp\<close>, \<^verbatim>\<open>SimulationActivity.cpp\<close>): activities that share a thread, whose hooks may start and stop any of them.
    \<open>OtherActivities\<close> (\<^verbatim>\<open>extras/SlaveActivity.cpp\<close>, \<^verbatim>\<open>SequentialActivity.cpp\<close>): activities executed by others.
  \<^item> \<open>Peers\<close> (\<^verbatim>\<open>TaskContext.cpp\<close>): the peers of components, and the users that point back to them. \<open>EventPorts\<close>
    (\<^verbatim>\<open>DataFlowInterface.cpp\<close>, \<^verbatim>\<open>TaskContext.cpp\<close>): the registry of ports and the callbacks on their data.
  \<^item> \<open>OsTimer\<close>, \<open>OsTimerThread\<close> (\<^verbatim>\<open>os/Timer.cpp\<close>): the table of timers and a round of the event loop, then the
    loop as a thread with clients and a clock. \<open>OsTimeService\<close> (\<^verbatim>\<open>os/TimeService.cpp\<close>): the clock with its offset.

  \<^bold>\<open>What the lemmas show.\<close> Containers refine lists: whatever sequence of calls is made, the results are those of a
  bounded list. The concurrent containers keep an invariant of all interleavings, from which follows that no
  pointer is lost or delivered twice, no torn sample is read, and calls of the lock-free list take effect one at a
  time. Storage elements behave the same for all lock
  policies. Networks of ports stay consistent, and reads and writes act on them as specified. The hooks of a component are called in
  the documented order. The interpreters execute what the scripts and state machines say, in bounded time, and the
  graph that is built for a script executes as the script says. Properties that are listed or stored are found, and
  updates move the values of one tree to the other. A call that was sent is executed once, and an emitted
  signal calls each connected function once. Threads call the hooks
  of their activity in order, also if many share a thread, a trigger is not lost, the callbacks of ports that got data are called, no
  component points to a destroyed peer, timers fire in the order of time and are not overslept. Where
  the code does not do what it documents, a theorem or lemma shows the run in which it does not.

  \<^bold>\<open>Numbers.\<close> Ring and pool indices have their 16 bits, so that wrap-around is part of the model; the
  theorems about queues and pools ask for sizes that these indices can address, and lemma \<open>mwsr_too_large\<close>
  shows what a larger queue does. Sizes and counters whose
  overflow plays no part are natural numbers.

  \<^bold>\<open>Loops.\<close> Loops that end by their structure are \<open>fun\<close>; those that may not (the compare-and-swap loops, the
  buffers' replacement of old samples, the execution of scripts, \<^verbatim>\<open>readNewest\<close>,
  \<^verbatim>\<open>disconnect\<close>, which calls itself from port to port, \<^verbatim>\<open>storeProperty\<close> and \<^verbatim>\<open>flattenPropertyBag\<close>, the rounds of
  a shared thread, whose list its hooks change, and the loops by which a component leaves its peers) are \<open>partial_function (option)\<close>, so that a run that never
  returns is \<open>None\<close>, and every theorem about them states that a result exists. Only the semantics \<open>exec\<close> of
  scripts, which is not code, has fuel: it bounds the rounds of a loop, and a script that ends has some fuel for which
  \<open>exec\<close> gives its result.

  \<^bold>\<open>Hooks and guards.\<close> What the user of the library writes is a parameter: the hooks of a component, the
  programs, guards and commands of scripts are functions of the state.

  \<^bold>\<open>Not modelled.\<close> Reference counts and destruction of channels, and the mutexes of the locked containers and of the
  managers (their critical sections are steps of their own). Streams and remote connections, with the transports
  (CORBA, message queues). Of the parsers, the grammars of the library boost::spirit, the
  parser of expressions and that of state machines. Marshalling of properties to XML, whose parser is vendored. The
  type system and the binding of arguments of operations, which are templates without state of their own. Of
  threads, the scheduler, priorities and the times at which the operating system wakes them: any interleaving is
  possible, and a period may always end in an overrun; calls of activities that share a thread, of peers and of the registry of ports,
  of which only parts hold a mutex, are made one after the other. Logging and deployment.
\<close>

end
